(* ===== verification/Prelude.thy ===== *)
theory Prelude
  imports Main "HOL-Library.Word"
begin

text \<open>
  Shared vocabulary of the development: the ring of 32-bit values of \<open>src/src/utils/types.h\<close>,
  vectors of ring elements, the parties, errors as values, the loop combinators that render the
  counted loops of the source, and the list and word lemmas the components share. Sizes, counters
  and indices (\<open>size_t\<close>) are natural numbers; ring elements keep their width.
\<close>

unbundle bit_operations_syntax

named_theorems loop_simps \<open>closed forms of the counted loops of the source\<close>
named_theorems vec_lens \<open>lengths of the vectors the operations return\<close>

section \<open>Types\<close>

type_synonym ring = "32 word"
type_synonym vec = "ring list"
type_synonym wire_id = nat

text \<open>\<open>enum Party\<close>: the two online servers and the dealer, numbered 0, 1, 2.\<close>

datatype party = P0 | P1 | D

fun party_num :: "party \<Rightarrow> nat" where
  "party_num P0 = 0"
| "party_num P1 = 1"
| "party_num D = 2"

instantiation party :: linorder
begin

definition less_eq_party :: "party \<Rightarrow> party \<Rightarrow> bool" where
  "less_eq_party p q \<longleftrightarrow> party_num p \<le> party_num q"

definition less_party :: "party \<Rightarrow> party \<Rightarrow> bool" where
  "less_party p q \<longleftrightarrow> party_num p < party_num q"

instance
proof
  fix p q r :: party
  show "p < q \<longleftrightarrow> p \<le> q \<and> \<not> q \<le> p"
    by (auto simp: less_eq_party_def less_party_def)
  show "p \<le> p" by (simp add: less_eq_party_def)
  show "p \<le> q \<Longrightarrow> q \<le> r \<Longrightarrow> p \<le> r" by (simp add: less_eq_party_def)
  show "p \<le> q \<Longrightarrow> q \<le> p \<Longrightarrow> p = q"
    by (cases p; cases q) (simp_all add: less_eq_party_def)
  show "p \<le> q \<or> q \<le> p" by (auto simp: less_eq_party_def)
qed

end

text \<open>The other online server.\<close>

fun partner :: "party \<Rightarrow> party" where
  "partner P0 = P1"
| "partner P1 = P0"
| "partner D = P0"

text \<open>
  Errors as values: the exceptions the source throws, with their message, and reads or writes
  past the end of a vector, which the language leaves undefined. \<open>Bad_Any_Cast\<close> is what boost throws for an
  option that is not there, \<open>Would_Block\<close> is a receive for
  which no data will ever arrive.
\<close>

datatype err =
    Invalid_Argument string
  | Runtime_Error string
  | Logic_Error string
  | Assertion_Failed
  | Out_Of_Bounds
  | Division_By_Zero
  | Bad_Any_Cast
  | Would_Block
  | Length_Error

type_synonym 'a res = "err + 'a"

section \<open>Counted loops\<close>

text \<open>\<open>for (i = 0; i < n; ++i) s = f i s\<close>.\<close>

definition for_to :: "nat \<Rightarrow> (nat \<Rightarrow> 's \<Rightarrow> 's) \<Rightarrow> 's \<Rightarrow> 's" where
  "for_to n f s = fold f [0..<n] s"

lemma for_to_0 [simp]: "for_to 0 f s = s"
  by (simp add: for_to_def)

lemma for_to_Suc [simp]: "for_to (Suc n) f s = f n (for_to n f s)"
  by (simp add: for_to_def)

lemma for_to_invariant:
  assumes "I 0 s" and "\<And>i s. i < n \<Longrightarrow> I i s \<Longrightarrow> I (Suc i) (f i s)"
  shows "I n (for_to n f s)"
proof -
  have "m \<le> n \<Longrightarrow> I m (for_to m f s)" for m
    by (induction m) (auto simp: assms)
  then show ?thesis by simp
qed

text \<open>\<open>for (i < n) xs[g(i)] = h(i)\<close>: a scattered write.\<close>

definition scatter :: "nat \<Rightarrow> (nat \<Rightarrow> nat) \<Rightarrow> (nat \<Rightarrow> 'a) \<Rightarrow> 'a list \<Rightarrow> 'a list" where
  "scatter n g h xs = for_to n (\<lambda>i xs. xs[g i := h i]) xs"

lemma length_scatter [simp]: "length (scatter n g h xs) = length xs"
  unfolding scatter_def by (induction n) auto

lemma scatter_nth_other:
  assumes "\<And>i. i < n \<Longrightarrow> g i \<noteq> j"
  shows "scatter n g h xs ! j = xs ! j"
  using assms unfolding scatter_def by (induction n) auto

lemma scatter_nth:
  assumes "inj_on g {..<n}" and "i < n" and "\<And>k. k < n \<Longrightarrow> g k < length xs"
  shows "scatter n g h xs ! g i = h i"
  using assms
proof (induction n)
  case 0
  then show ?case by simp
next
  case (Suc n)
  have inj: "inj_on g {..<n}"
    using Suc.prems(1) by (rule inj_on_subset) auto
  have step: "scatter (Suc n) g h xs = (scatter n g h xs)[g n := h n]"
    by (simp add: scatter_def)
  show ?case
  proof (cases "i = n")
    case True
    then show ?thesis using Suc.prems(3)[of n] by (simp add: step)
  next
    case False
    with Suc.prems have lt: "i < n" by simp
    have "g i \<noteq> g n"
      using Suc.prems(1) lt unfolding inj_on_def by auto
    moreover have "scatter n g h xs ! g i = h i"
      using inj lt Suc.prems(3) by (intro Suc.IH) auto
    ultimately show ?thesis by (simp add: step)
  qed
qed

lemma scatter_id:
  assumes "length xs = n"
  shows "scatter n (\<lambda>i. i) h xs = map h [0..<n]"
proof (rule nth_equalityI)
  fix j assume "j < length (scatter n (\<lambda>i. i) h xs)"
  then have "j < n" using assms by simp
  moreover from this have "scatter n (\<lambda>i. i) h xs ! j = h j"
    using assms scatter_nth[of "\<lambda>i. i" n j xs h] by simp
  ultimately show "scatter n (\<lambda>i. i) h xs ! j = map h [0..<n] ! j" by simp
qed (simp add: assms)

text \<open>A prefix write keeps what lies behind it.\<close>

lemma scatter_prefix:
  assumes "n \<le> length xs"
  shows "scatter n (\<lambda>i. i) h xs = map h [0..<n] @ drop n xs"
proof (rule nth_equalityI)
  show "length (scatter n (\<lambda>i. i) h xs) = length (map h [0..<n] @ drop n xs)"
    using assms by simp
  fix j assume j: "j < length (scatter n (\<lambda>i. i) h xs)"
  show "scatter n (\<lambda>i. i) h xs ! j = (map h [0..<n] @ drop n xs) ! j"
  proof (cases "j < n")
    case True
    then show ?thesis
      using assms scatter_nth[of "\<lambda>i. i" n j xs h] by (simp add: nth_append)
  next
    case False
    then show ?thesis
      using assms j scatter_nth_other[of n "\<lambda>i. i" j h xs] by (simp add: nth_append)
  qed
qed

text \<open>\<open>std::vector::resize(n)\<close> on ring elements: cut, or fill with zeros.\<close>

definition vresize :: "nat \<Rightarrow> vec \<Rightarrow> vec" where
  "vresize n v = take n v @ replicate (n - length v) 0"

lemma length_vresize [simp]: "length (vresize n v) = n"
  by (simp add: vresize_def)

lemma vresize_Nil [simp]: "vresize n [] = replicate n 0"
  by (simp add: vresize_def)

lemma vresize_id: "length v = n \<Longrightarrow> vresize n v = v"
  by (simp add: vresize_def)

section \<open>Pointwise operations\<close>

definition vadd :: "vec \<Rightarrow> vec \<Rightarrow> vec" where
  "vadd u v = map2 (+) u v"

definition vsub :: "vec \<Rightarrow> vec \<Rightarrow> vec" where
  "vsub u v = map2 (-) u v"

definition vxor :: "vec \<Rightarrow> vec \<Rightarrow> vec" where
  "vxor u v = map2 (XOR) u v"

lemma length_vadd [simp]: "length (vadd u v) = min (length u) (length v)"
  by (simp add: vadd_def)

lemma length_vsub [simp]: "length (vsub u v) = min (length u) (length v)"
  by (simp add: vsub_def)

lemma length_vxor [simp]: "length (vxor u v) = min (length u) (length v)"
  by (simp add: vxor_def)

lemma vadd_nth [simp]: "i < length u \<Longrightarrow> i < length v \<Longrightarrow> vadd u v ! i = u ! i + v ! i"
  by (simp add: vadd_def)

lemma vsub_nth [simp]: "i < length u \<Longrightarrow> i < length v \<Longrightarrow> vsub u v ! i = u ! i - v ! i"
  by (simp add: vsub_def)

lemma vxor_nth [simp]: "i < length u \<Longrightarrow> i < length v \<Longrightarrow> vxor u v ! i = u ! i XOR v ! i"
  by (simp add: vxor_def)

lemma vadd_commute: "vadd u v = vadd v u"
  by (rule nth_equalityI) (auto simp: add.commute)

lemma vadd_vsub [simp]: "length u = length v \<Longrightarrow> vadd u (vsub v u) = v"
  by (rule nth_equalityI) auto

lemma vsub_vadd_cancel [simp]: "length u = length v \<Longrightarrow> vadd (vsub v u) u = v"
  by (rule nth_equalityI) auto

lemma vadd_append:
  "length u = length v \<Longrightarrow> vadd (u @ u') (v @ v') = vadd u v @ vadd u' v'"
  by (simp add: vadd_def)

text \<open>Prefix sums, the accumulation loop of the source.\<close>

primrec prefix_sums :: "ring \<Rightarrow> vec \<Rightarrow> vec" where
  "prefix_sums s [] = []"
| "prefix_sums s (x # xs) = (s + x) # prefix_sums (s + x) xs"

lemma length_prefix_sums [simp]: "length (prefix_sums s xs) = length xs"
  by (induction xs arbitrary: s) auto

lemma prefix_sums_nth:
  "i < length xs \<Longrightarrow> prefix_sums s xs ! i = s + sum_list (take (Suc i) xs)"
proof (induction xs arbitrary: s i)
  case Nil
  then show ?case by simp
next
  case (Cons x xs)
  then show ?case by (cases i) (auto simp: add.assoc)
qed

section \<open>Words and indices\<close>

text \<open>Indices below \<open>2^32\<close> survive the trip through a ring element.\<close>

lemma unat_of_nat_ring: "i < 2 ^ 32 \<Longrightarrow> unat (of_nat i :: ring) = i"
  by (simp add: unat_of_nat take_bit_nat_eq_self)

lemma of_nat_inj_ring:
  "i < 2 ^ 32 \<Longrightarrow> j < 2 ^ 32 \<Longrightarrow> (of_nat i :: ring) = of_nat j \<longleftrightarrow> i = j"
  by (metis unat_of_nat_ring)

lemma unat_inj: "unat (x :: 'a :: len word) = unat y \<longleftrightarrow> x = y"
  by (simp add: word_unat_eq_iff)

section \<open>Results\<close>

text \<open>Sequencing of computations that may fail: the first error is the result.\<close>

definition bindr :: "'a res \<Rightarrow> ('a \<Rightarrow> 'b res) \<Rightarrow> 'b res" where
  "bindr m f = (case m of Inl e \<Rightarrow> Inl e | Inr x \<Rightarrow> f x)"

lemma bindr_simps [simp]:
  "bindr (Inl e) f = Inl e" "bindr (Inr x) f = f x"
  by (simp_all add: bindr_def)

lemma bindr_Inr_iff: "bindr m f = Inr y \<longleftrightarrow> (\<exists>x. m = Inr x \<and> f x = Inr y)"
  by (cases m) auto

text \<open>A loop over a list whose body may fail.\<close>

primrec foldr_res :: "('s \<Rightarrow> 'a \<Rightarrow> 's res) \<Rightarrow> 's \<Rightarrow> 'a list \<Rightarrow> 's res" where
  "foldr_res f s [] = Inr s"
| "foldr_res f s (x # xs) = bindr (f s x) (\<lambda>s'. foldr_res f s' xs)"

lemma foldr_res_append:
  "foldr_res f s (xs @ ys) = bindr (foldr_res f s xs) (\<lambda>s'. foldr_res f s' ys)"
proof (induction xs arbitrary: s)
  case (Cons x xs)
  then show ?case by (cases "f s x") auto
qed simp

text \<open>Indexed access to a vector: reading or writing behind the end is undefined.\<close>

definition at_res :: "'a list \<Rightarrow> nat \<Rightarrow> 'a res" where
  "at_res xs i = (if i < length xs then Inr (xs ! i) else Inl Out_Of_Bounds)"

definition put_res :: "'a list \<Rightarrow> nat \<Rightarrow> 'a \<Rightarrow> 'a list res" where
  "put_res xs i x = (if i < length xs then Inr (xs[i := x]) else Inl Out_Of_Bounds)"

lemma at_res_ok [simp]: "i < length xs \<Longrightarrow> at_res xs i = Inr (xs ! i)"
  by (simp add: at_res_def)

lemma put_res_ok [simp]: "i < length xs \<Longrightarrow> put_res xs i x = Inr (xs[i := x])"
  by (simp add: put_res_def)

lemma at_res_Inr_iff: "at_res xs i = Inr x \<longleftrightarrow> i < length xs \<and> x = xs ! i"
  by (auto simp: at_res_def)

lemma put_res_Inr_iff: "put_res xs i x = Inr ys \<longleftrightarrow> i < length xs \<and> ys = xs[i := x]"
  by (auto simp: put_res_def)

text \<open>A loop that reads \<open>v[0], \<dots>, v[n - 1]\<close>.\<close>

definition need :: "nat \<Rightarrow> 'a list \<Rightarrow> 'b res \<Rightarrow> 'b res" where
  "need n v m = (if length v < n then Inl Out_Of_Bounds else m)"

lemma need_ok [simp]: "n \<le> length v \<Longrightarrow> need n v m = m"
  by (simp add: need_def)

lemma need_Inr_iff: "need n v m = Inr y \<longleftrightarrow> n \<le> length v \<and> m = Inr y"
  by (auto simp: need_def)

end
