(* ===== verification/Gates.thy ===== *)
theory Gates
  imports Prelude
begin

text \<open>
  \<open>src/src/core/gate.h\<close> and \<open>gate.cpp\<close>: the gates of a circuit. A gate is one record with the
  fields of the class; each constructor of the class is a function that fills it in. Fields that a
  constructor leaves uninitialised are taken from the argument \<open>raw\<close>, the memory the object is
  created in.
\<close>

datatype gtype =
    Input | Output | Shuffle | Unshuffle | MergedShuffle | Compaction | Reveal | Permute
  | ReversePermute | AddConst | AddConstSIMD | MulConst | MulConstSIMD | SetConstVecSIMD | Add
  | AddSIMD | Sub | SubSIMD | Mul | MulSIMD | And | AndSIMD | Xor | XorSIMD | DeduplicationSub
  | Bit2A | EQZ | Gather1 | Gather2 | Propagate1 | Propagate2 | Flip | Insert | ColumnSumsToNodes
  | RemoveEdgeData

record gate =
  gt :: gtype
  g_id :: nat
  in1_idx :: wire_id
  in2_idx :: wire_id
  gval :: ring
  gvals :: vec
  out_idx :: wire_id
  g_size :: nat
  g_layer :: nat
  g_shuffle_idx :: nat
  pi_idx :: nat
  omega_idx :: nat
  mult_idx :: nat
  g_inverse :: bool
  g_binary :: bool
  data_parallel :: "wire_id list"

text \<open>The value all constructors start from where they initialise every field.\<close>

definition gate0 :: "gtype \<Rightarrow> nat \<Rightarrow> gate" where
  "gate0 t i = \<lparr>gt = t, g_id = i, in1_idx = 0, in2_idx = 0, gval = 0, gvals = [], out_idx = 0,
     g_size = 0, g_layer = 0, g_shuffle_idx = 0, pi_idx = 0, omega_idx = 0, mult_idx = 0,
     g_inverse = False, g_binary = False, data_parallel = []\<rparr>"

text \<open>\<open>Gate(type, g_id, out_idx)\<close>: input gates.\<close>

definition Gate_in :: "gtype \<Rightarrow> nat \<Rightarrow> wire_id \<Rightarrow> gate" where
  "Gate_in t i out = (gate0 t i)\<lparr>out_idx := out\<rparr>"

text \<open>\<open>Gate(type, g_id, in1_idx, out_idx, data_parallel)\<close>: column sums.\<close>

definition Gate_cols :: "gtype \<Rightarrow> nat \<Rightarrow> wire_id \<Rightarrow> wire_id \<Rightarrow> wire_id list \<Rightarrow> gate" where
  "Gate_cols t i in1 out cols = (gate0 t i)\<lparr>in1_idx := in1, out_idx := out, data_parallel := cols\<rparr>"

text \<open>\<open>Gate(type, g_id, in1_idx, out_idx)\<close>: one input, one output.\<close>

definition Gate_unary :: "gtype \<Rightarrow> nat \<Rightarrow> wire_id \<Rightarrow> wire_id \<Rightarrow> gate" where
  "Gate_unary t i in1 out = (gate0 t i)\<lparr>in1_idx := in1, out_idx := out\<rparr>"

text \<open>\<open>Gate(type, g_id, in1_idx, val, out_idx)\<close>: a public scalar.\<close>

definition Gate_const :: "gtype \<Rightarrow> nat \<Rightarrow> wire_id \<Rightarrow> ring \<Rightarrow> wire_id \<Rightarrow> gate" where
  "Gate_const t i in1 v out = (gate0 t i)\<lparr>in1_idx := in1, gval := v, out_idx := out\<rparr>"

text \<open>\<open>Gate(type, g_id, vals, out_idx)\<close>: a public vector.\<close>

definition Gate_vec :: "gtype \<Rightarrow> nat \<Rightarrow> vec \<Rightarrow> wire_id \<Rightarrow> gate" where
  "Gate_vec t i vs out = (gate0 t i)\<lparr>gvals := vs, out_idx := out\<rparr>"

text \<open>
  \<open>Gate(type, g_id, param1, param2, param3)\<close>: the meaning of the parameters depends on the type,
  and for a type it does not know the constructor leaves the wires uninitialised.
\<close>

definition Gate3 :: "gate \<Rightarrow> gtype \<Rightarrow> nat \<Rightarrow> nat \<Rightarrow> nat \<Rightarrow> nat \<Rightarrow> gate" where
  "Gate3 raw t i param1 param2 param3 =
     (let g = raw\<lparr>gt := t, g_id := i, gval := 0, gvals := [], g_size := 0, g_layer := 0,
                  pi_idx := 0, omega_idx := 0, g_inverse := False, g_binary := False,
                  data_parallel := []\<rparr>
      in if t \<in> {Propagate2, Permute, ReversePermute, AddSIMD, SubSIMD, Add, Sub}
         then g\<lparr>in1_idx := param1, in2_idx := param2, out_idx := param3,
                g_shuffle_idx := 0, mult_idx := 0\<rparr>
         else if t = Shuffle \<or> t = Unshuffle
         then g\<lparr>in1_idx := param1, in2_idx := 0, out_idx := param2,
                g_shuffle_idx := param3, mult_idx := 0\<rparr>
         else if t = Compaction
         then g\<lparr>in1_idx := param1, in2_idx := 0, out_idx := param2,
                g_shuffle_idx := param3, mult_idx := param3\<rparr>
         else if t = RemoveEdgeData
         then g\<lparr>in1_idx := param1, in2_idx := 0, out_idx := param2, g_size := param3,
                g_shuffle_idx := 0, mult_idx := 0\<rparr>
         else g)"

text \<open>\<open>Gate(type, g_id, param1, param2, param3, param4)\<close>: conversion of bits.\<close>

definition Gate4 :: "gate \<Rightarrow> gtype \<Rightarrow> nat \<Rightarrow> nat \<Rightarrow> nat \<Rightarrow> nat \<Rightarrow> nat \<Rightarrow> gate" where
  "Gate4 raw t i param1 param2 param3 param4 =
     (let g = raw\<lparr>gt := t, g_id := i, gval := 0, gvals := [], g_layer := 0, pi_idx := 0,
                  omega_idx := 0, g_inverse := False, g_binary := False, data_parallel := []\<rparr>
      in if t = Bit2A
         then g\<lparr>in1_idx := param1, in2_idx := 0, out_idx := param2, g_size := param3,
                g_shuffle_idx := 0, mult_idx := param4\<rparr>
         else g)"

text \<open>\<open>Gate(type, g_id, in1_idx, out_idx, n1, n2, n3)\<close>: merged shuffles and zero tests.\<close>

definition Gate5 :: "gate \<Rightarrow> gtype \<Rightarrow> nat \<Rightarrow> wire_id \<Rightarrow> wire_id \<Rightarrow> nat \<Rightarrow> nat \<Rightarrow> nat \<Rightarrow> gate" where
  "Gate5 raw t i in1 out n1 n2 n3 =
     (let g = raw\<lparr>gt := t, g_id := i, in1_idx := in1, in2_idx := 0, gval := 0, gvals := [],
                  out_idx := out, data_parallel := []\<rparr>
      in if t = MergedShuffle
         then g\<lparr>g_size := 0, g_layer := 0, g_shuffle_idx := n1, pi_idx := n2, omega_idx := n3,
                mult_idx := 0, g_inverse := False, g_binary := False\<rparr>
         else if t = EQZ
         then g\<lparr>g_size := n1, g_layer := n2, g_shuffle_idx := 0, pi_idx := 0, omega_idx := 0,
                mult_idx := n3, g_inverse := False, g_binary := True\<rparr>
         else g)"

text \<open>
  \<open>Gate(type, g_id, in1_idx, in2_idx, out_idx, size, mult_idx, binary)\<close>: products; \<open>val\<close> stays
  uninitialised.
\<close>

definition Gate_mul ::
  "gate \<Rightarrow> gtype \<Rightarrow> nat \<Rightarrow> wire_id \<Rightarrow> wire_id \<Rightarrow> wire_id \<Rightarrow> nat \<Rightarrow> nat \<Rightarrow> bool \<Rightarrow> gate" where
  "Gate_mul raw t i in1 in2 out sz mult binary =
     (gate0 t i)\<lparr>in1_idx := in1, in2_idx := in2, gval := gval raw, out_idx := out, g_size := sz,
                 mult_idx := mult, g_binary := binary\<rparr>"

text \<open>\<open>Gate::interactive\<close>: the gates that need a message of the partner.\<close>

definition interactive_type :: "gtype \<Rightarrow> bool" where
  "interactive_type t \<longleftrightarrow>
     t = Shuffle \<or> t = MergedShuffle \<or> t = Unshuffle \<or> t = Compaction \<or> t = Mul \<or> t = EQZ \<or>
     t = Bit2A \<or> t = Reveal \<or> t = MulSIMD"

definition interactive :: "gate \<Rightarrow> bool" where
  "interactive g \<longleftrightarrow> interactive_type (gt g)"

lemmas gate_ctors = Gate_in_def Gate_cols_def Gate_unary_def Gate_const_def Gate_vec_def
  Gate3_def Gate4_def Gate5_def Gate_mul_def gate0_def

end
