(* ===== verification/Circuit.thy ===== *)
theory Circuit
  imports Gates "HOL-Library.State_Monad"
begin

text \<open>
  \<open>src/src/core/circuit.h\<close> and \<open>circuit.cpp\<close>: the construction of a circuit. The object is a
  record, its methods are computations in the state monad over it, and each primitive adds one
  gate with a fresh output wire. A graph algorithm is a record of the virtual methods it
  overrides. Wires are passed by reference in the source; where a method writes to its argument
  (\<open>equals_zero\<close>, \<open>clip_SIMD\<close>) the new value of the argument is part of the result.
\<close>

section \<open>The circuit object\<close>

text \<open>\<open>MPContext\<close> and \<open>Inputs\<close> of \<open>src/src/utils/structs.h\<close>.\<close>

record mp_context =
  vtx_order :: wire_id
  src_order :: wire_id
  dst_order :: wire_id
  clear_shuffled_vtx_order :: wire_id
  clear_shuffled_src_order :: wire_id
  clear_shuffled_dst_order :: wire_id
  vtx_shuffle_idx :: nat
  src_shuffle_idx :: nat
  dst_shuffle_idx :: nat

record inputs =
  i_src_order_bits :: "wire_id list"
  i_dst_order_bits :: "wire_id list"
  i_src :: wire_id
  i_dst :: wire_id
  i_isV :: wire_id
  i_data :: wire_id
  i_data_parallel :: "wire_id list"

text \<open>\<open>ProtocolConfig\<close> of \<open>src/src/data_interface/configs.h\<close>.\<close>

record protocol_config =
  conf_id :: party
  conf_size :: nat
  conf_nodes :: nat
  conf_depth :: nat
  conf_bits :: nat
  conf_ssd :: bool

record circuit =
  c_size :: nat
  c_nodes :: nat
  c_bits :: nat
  c_depth :: nat
  n_shuffles :: nat
  n_mults :: nat
  n_wires :: nat
  shuffle_idx :: nat
  columns :: nat
  circ :: "gate list list"
  gates :: "gate list"
  ctx :: mp_context
  inp :: inputs
  outputs_in_input_order :: bool
  can_enable_outputs_in_input_order :: bool
  reverse_passing :: bool
  can_enable_reverse_passing :: bool
  deduplication :: bool
  can_enable_deduplication :: bool
  c_raised :: "err option"
  c_raw :: gate

type_synonym 'a build = "(circuit, 'a) state"

text \<open>
  The constructor. \<open>raw\<close> is the content of memory the constructors do not initialise; the
  context and the wires of the inputs start from it as well.
\<close>

definition new_circuit ::
  "protocol_config \<Rightarrow> nat \<Rightarrow> mp_context \<Rightarrow> inputs \<Rightarrow> gate \<Rightarrow> circuit" where
  "new_circuit conf cols raw_ctx raw_inp raw =
     \<lparr>c_size = conf_size conf, c_nodes = conf_nodes conf, c_bits = conf_bits conf,
      c_depth = conf_depth conf, n_shuffles = 0, n_mults = 0, n_wires = 0, shuffle_idx = 0,
      columns = cols, circ = [], gates = [], ctx = raw_ctx,
      inp = raw_inp\<lparr>i_src_order_bits := [], i_dst_order_bits := [],
                    i_data_parallel := (if cols > 1 then replicate cols 0 else [])\<rparr>,
      outputs_in_input_order = False, can_enable_outputs_in_input_order = True,
      reverse_passing = False, can_enable_reverse_passing = True,
      deduplication = False, can_enable_deduplication = True, c_raised = None, c_raw = raw\<rparr>"

text \<open>The three options, to be chosen before the circuit is built.\<close>

definition provide_outputs_in_input_order :: "circuit \<Rightarrow> circuit res" where
  "provide_outputs_in_input_order c =
     (if \<not> can_enable_outputs_in_input_order c
      then Inl (Runtime_Error ''outputs_in_input_order must be activated before building the circuit!'')
      else Inr (c\<lparr>outputs_in_input_order := True\<rparr>))"

definition use_reverse_message_passing :: "circuit \<Rightarrow> circuit res" where
  "use_reverse_message_passing c =
     (if \<not> can_enable_reverse_passing c
      then Inl (Runtime_Error ''reverse_message_passing must be activated before building the circuit!'')
      else Inr (c\<lparr>reverse_passing := True\<rparr>))"

definition use_edge_deduplication :: "circuit \<Rightarrow> circuit res" where
  "use_edge_deduplication c =
     (if \<not> can_enable_deduplication c
      then Inl (Runtime_Error ''edge_deduplication must be activated before building the circuit!'')
      else Inr (c\<lparr>deduplication := True\<rparr>))"

section \<open>Primitives\<close>

text \<open>
  Every primitive takes the next wire as its output and appends one gate; its identifier is the
  number of gates so far.
\<close>

definition get_c :: "(circuit \<Rightarrow> 'a) \<Rightarrow> 'a build" where
  "get_c f = State (\<lambda>c. (f c, c))"

definition update_c :: "(circuit \<Rightarrow> circuit) \<Rightarrow> unit build" where
  "update_c f = State (\<lambda>c. ((), f c))"

text \<open>
  An exception or an access out of bounds ends a build. It is recorded in the object, the first one
  counts, and \<open>build\<close> reports it (\<open>Levels\<close>): nobody sees what the construction adds after it.
\<close>

definition guard_c :: "bool \<Rightarrow> err \<Rightarrow> unit build" where
  "guard_c p e = update_c (\<lambda>c. c\<lparr>c_raised := (if p \<or> c_raised c \<noteq> None then c_raised c else Some e)\<rparr>)"

definition new_gate :: "(circuit \<Rightarrow> nat \<Rightarrow> wire_id \<Rightarrow> gate) \<Rightarrow> wire_id build" where
  "new_gate mk = State (\<lambda>c.
     let out = n_wires c
     in (out, c\<lparr>n_wires := n_wires c + 1, gates := gates c @ [mk c (length (gates c)) out]\<rparr>))"

definition bump_shuffles :: "unit build" where
  "bump_shuffles = update_c (\<lambda>c. c\<lparr>n_shuffles := n_shuffles c + 1\<rparr>)"

definition bump_mults :: "unit build" where
  "bump_mults = update_c (\<lambda>c. c\<lparr>n_mults := n_mults c + 1\<rparr>)"

definition c_input :: "wire_id build" where
  "c_input = new_gate (\<lambda>c i out. Gate_in Input i out)"

definition c_output :: "wire_id \<Rightarrow> unit build" where
  "c_output w = do { new_gate (\<lambda>c i out. Gate_unary Output i w out); State_Monad.return () }"

definition propagate_1 :: "wire_id \<Rightarrow> wire_id build" where
  "propagate_1 w = new_gate (\<lambda>c i out. Gate_unary Propagate1 i w out)"

definition propagate_2 :: "wire_id \<Rightarrow> wire_id \<Rightarrow> wire_id build" where
  "propagate_2 w1 w2 = new_gate (\<lambda>c i out. Gate3 (c_raw c) Propagate2 i w1 w2 out)"

definition gather_1 :: "wire_id \<Rightarrow> wire_id build" where
  "gather_1 w = new_gate (\<lambda>c i out. Gate_unary Gather1 i w out)"

definition gather_2 :: "wire_id \<Rightarrow> wire_id build" where
  "gather_2 w = new_gate (\<lambda>c i out. Gate_unary Gather2 i w out)"

definition c_shuffle :: "wire_id \<Rightarrow> nat \<Rightarrow> wire_id build" where
  "c_shuffle w s = do {
     out \<leftarrow> new_gate (\<lambda>c i out. Gate3 (c_raw c) Shuffle i w out s);
     bump_shuffles;
     State_Monad.return out }"

definition c_unshuffle :: "wire_id \<Rightarrow> nat \<Rightarrow> wire_id build" where
  "c_unshuffle w s = do {
     out \<leftarrow> new_gate (\<lambda>c i out. Gate3 (c_raw c) Unshuffle i w out s);
     bump_shuffles;
     State_Monad.return out }"

definition merged_shuffle :: "wire_id \<Rightarrow> nat \<Rightarrow> nat \<Rightarrow> nat \<Rightarrow> wire_id build" where
  "merged_shuffle w s p om = do {
     out \<leftarrow> new_gate (\<lambda>c i out. Gate5 (c_raw c) MergedShuffle i w out s p om);
     bump_shuffles;
     State_Monad.return out }"

definition compaction :: "wire_id \<Rightarrow> wire_id build" where
  "compaction w = do {
     out \<leftarrow> new_gate (\<lambda>c i out. Gate3 (c_raw c) Compaction i w out (n_mults c));
     bump_mults;
     State_Monad.return out }"

definition c_reveal :: "wire_id \<Rightarrow> wire_id build" where
  "c_reveal w = new_gate (\<lambda>c i out. Gate_unary Reveal i w out)"

definition permute :: "wire_id \<Rightarrow> wire_id \<Rightarrow> wire_id build" where
  "permute w perm = new_gate (\<lambda>c i out. Gate3 (c_raw c) Permute i w perm out)"

definition reverse_permute :: "wire_id \<Rightarrow> wire_id \<Rightarrow> wire_id build" where
  "reverse_permute w perm = new_gate (\<lambda>c i out. Gate3 (c_raw c) ReversePermute i w perm out)"

text \<open>\<open>_equals_zero\<close>, one of the five layers, and \<open>equals_zero\<close>, which overwrites its argument.\<close>

definition equals_zero_layer :: "wire_id \<Rightarrow> nat \<Rightarrow> nat \<Rightarrow> wire_id build" where
  "equals_zero_layer w sz layer = do {
     out \<leftarrow> new_gate (\<lambda>c i out. Gate5 (c_raw c) EQZ i w out sz layer (n_mults c));
     bump_mults;
     State_Monad.return out }"

definition equals_zero :: "wire_id \<Rightarrow> nat \<Rightarrow> wire_id build" where
  "equals_zero input sz = do {
     input \<leftarrow> equals_zero_layer input sz 0;
     input \<leftarrow> equals_zero_layer input sz 1;
     input \<leftarrow> equals_zero_layer input sz 2;
     input \<leftarrow> equals_zero_layer input sz 3;
     input \<leftarrow> equals_zero_layer input sz 4;
     State_Monad.return input }"

definition bit2A :: "wire_id \<Rightarrow> nat \<Rightarrow> wire_id build" where
  "bit2A w sz = do {
     out \<leftarrow> new_gate (\<lambda>c i out. Gate4 (c_raw c) Bit2A i w out sz (n_mults c));
     bump_mults;
     State_Monad.return out }"

definition deduplication_sub :: "wire_id \<Rightarrow> wire_id build" where
  "deduplication_sub w = new_gate (\<lambda>c i out. Gate_unary DeduplicationSub i w out)"

definition deduplication_insert :: "wire_id \<Rightarrow> wire_id build" where
  "deduplication_insert w = new_gate (\<lambda>c i out. Gate_unary Insert i w out)"

text \<open>
  The two overloads of \<open>mul_SIMD\<close>. The one without a size passes seven arguments, for which
  the constructor of merged shuffles and zero tests is selected: the second factor becomes the
  output wire, and the converted flag a parameter.
\<close>

definition mul_SIMD_unsized :: "wire_id \<Rightarrow> wire_id \<Rightarrow> bool \<Rightarrow> wire_id build" where
  "mul_SIMD_unsized x y binary = do {
     out \<leftarrow> new_gate (\<lambda>c i out. Gate5 (c_raw c) MulSIMD i x y out (n_mults c) (of_bool binary));
     bump_mults;
     State_Monad.return out }"

definition mul_SIMD :: "wire_id \<Rightarrow> wire_id \<Rightarrow> nat \<Rightarrow> bool \<Rightarrow> wire_id build" where
  "mul_SIMD x y sz binary = do {
     out \<leftarrow> new_gate (\<lambda>c i out. Gate_mul (c_raw c) MulSIMD i x y out sz (n_mults c) binary);
     bump_mults;
     State_Monad.return out }"

definition mul_const_SIMD :: "wire_id \<Rightarrow> ring \<Rightarrow> wire_id build" where
  "mul_const_SIMD w v = new_gate (\<lambda>c i out. Gate_const MulConstSIMD i w v out)"

definition add_SIMD :: "wire_id \<Rightarrow> wire_id \<Rightarrow> wire_id build" where
  "add_SIMD w1 w2 = new_gate (\<lambda>c i out. Gate3 (c_raw c) AddSIMD i w1 w2 out)"

definition sub_SIMD :: "wire_id \<Rightarrow> wire_id \<Rightarrow> wire_id build" where
  "sub_SIMD w1 w2 = new_gate (\<lambda>c i out. Gate3 (c_raw c) SubSIMD i w1 w2 out)"

definition add_const_SIMD :: "wire_id \<Rightarrow> ring \<Rightarrow> wire_id build" where
  "add_const_SIMD w v = new_gate (\<lambda>c i out. Gate_const AddConstSIMD i w v out)"

definition flip_SIMD :: "wire_id \<Rightarrow> wire_id build" where
  "flip_SIMD w = new_gate (\<lambda>c i out. Gate_unary Flip i w out)"

text \<open>The result of \<open>clip_SIMD\<close> and the new value of its reference argument.\<close>

definition clip_SIMD :: "wire_id \<Rightarrow> (wire_id \<times> wire_id) build" where
  "clip_SIMD data = do {
     n \<leftarrow> get_c c_nodes;
     data \<leftarrow> equals_zero data n;
     data \<leftarrow> bit2A data n;
     r \<leftarrow> flip_SIMD data;
     State_Monad.return (r, data) }"

definition set_const_vec_SIMD :: "vec \<Rightarrow> wire_id build" where
  "set_const_vec_SIMD vals = new_gate (\<lambda>c i out. Gate_vec SetConstVecSIMD i vals out)"

definition column_sums_to_nodes_internal :: "wire_id list \<Rightarrow> wire_id build" where
  "column_sums_to_nodes_internal parallel_data =
     new_gate (\<lambda>c i out. Gate_cols ColumnSumsToNodes i (last parallel_data) out parallel_data)"

text \<open>\<open>for (x in xs) b = f(x, b)\<close> with a body that adds gates.\<close>

primrec fold_build :: "('x \<Rightarrow> 'b \<Rightarrow> 'b build) \<Rightarrow> 'x list \<Rightarrow> 'b \<Rightarrow> 'b build" where
  "fold_build f [] b = State_Monad.return b"
| "fold_build f (x # xs) b = do { b' \<leftarrow> f x b; fold_build f xs b' }"

section \<open>The virtual methods\<close>

text \<open>
  What an algorithm provides. \<open>a_apply\<close> has no default: the base class throws when it is called.
\<close>

record algo =
  a_init_nodes :: "nat \<Rightarrow> wire_id option build"
  a_prepare :: "wire_id \<Rightarrow> nat \<Rightarrow> nat \<Rightarrow> wire_id build"
  a_apply :: "(wire_id \<Rightarrow> wire_id \<Rightarrow> nat \<Rightarrow> nat \<Rightarrow> wire_id build) option"
  a_post_mp :: "wire_id \<Rightarrow> nat \<Rightarrow> wire_id build"
  a_post_mp_aggregate :: "wire_id list \<Rightarrow> wire_id option build"

definition default_init_nodes :: "nat \<Rightarrow> wire_id option build" where
  "default_init_nodes column = State_Monad.return None"

definition default_prepare :: "wire_id \<Rightarrow> nat \<Rightarrow> nat \<Rightarrow> wire_id build" where
  "default_prepare st i column = State_Monad.return st"

definition default_post_mp :: "wire_id \<Rightarrow> nat \<Rightarrow> wire_id build" where
  "default_post_mp st column = State_Monad.return st"

definition default_post_mp_aggregate :: "wire_id list \<Rightarrow> wire_id option build" where
  "default_post_mp_aggregate sts = State_Monad.return None"

definition base_algo :: algo where
  "base_algo = \<lparr>a_init_nodes = default_init_nodes, a_prepare = default_prepare, a_apply = None,
     a_post_mp = default_post_mp, a_post_mp_aggregate = default_post_mp_aggregate\<rparr>"

text \<open>The call of \<open>apply\<close>; the one of the base class throws.\<close>

definition call_apply :: "algo \<Rightarrow> wire_id \<Rightarrow> wire_id \<Rightarrow> nat \<Rightarrow> nat \<Rightarrow> wire_id build" where
  "call_apply a st upd i column =
     (case a_apply a of Some f \<Rightarrow> f st upd i column | None \<Rightarrow> do {
       guard_c False (Runtime_Error ''apply() is not specified.'');
       State_Monad.return st })"

section \<open>Library operations for the algorithms\<close>

definition lib_multiply :: "wire_id \<Rightarrow> wire_id \<Rightarrow> wire_id build" where
  "lib_multiply x y = do { n \<leftarrow> get_c c_nodes; mul_SIMD x y n False }"

definition lib_multiply_by_constant :: "wire_id \<Rightarrow> ring \<Rightarrow> wire_id build" where
  "lib_multiply_by_constant x k = mul_const_SIMD x k"

definition lib_add :: "wire_id \<Rightarrow> wire_id \<Rightarrow> wire_id build" where
  "lib_add x y = add_SIMD x y"

definition lib_subtract :: "wire_id \<Rightarrow> wire_id \<Rightarrow> wire_id build" where
  "lib_subtract x y = sub_SIMD x y"

definition lib_add_constant :: "wire_id \<Rightarrow> ring \<Rightarrow> wire_id build" where
  "lib_add_constant x k = add_const_SIMD x k"

definition lib_flip :: "wire_id \<Rightarrow> wire_id build" where
  "lib_flip x = flip_SIMD x"

definition lib_clip :: "wire_id \<Rightarrow> (wire_id \<times> wire_id) build" where
  "lib_clip x = clip_SIMD x"

definition lib_set_const_vector :: "vec \<Rightarrow> wire_id build" where
  "lib_set_const_vector vals = set_const_vec_SIMD vals"

definition lib_column_sums_to_nodes :: "wire_id list \<Rightarrow> wire_id build" where
  "lib_column_sums_to_nodes parallel_data = column_sums_to_nodes_internal parallel_data"

section \<open>Sorting\<close>

definition get_shuffle_idx :: "nat build" where
  "get_shuffle_idx = get_c shuffle_idx"

definition next_shuffle_idx :: "unit build" where
  "next_shuffle_idx = update_c (\<lambda>c. c\<lparr>shuffle_idx := shuffle_idx c + 1\<rparr>)"

definition sort_iteration :: "wire_id \<Rightarrow> wire_id \<Rightarrow> wire_id build" where
  "sort_iteration perm keys = do {
     s \<leftarrow> get_shuffle_idx;
     perm_shuffled \<leftarrow> c_shuffle perm s;
     keys_shuffled \<leftarrow> c_shuffle keys s;
     clear_perm_shuffled \<leftarrow> c_reveal perm_shuffled;
     keys_sorted \<leftarrow> permute keys_shuffled clear_perm_shuffled;
     perm_next \<leftarrow> compaction keys_sorted;
     perm_next \<leftarrow> reverse_permute perm_next clear_perm_shuffled;
     perm_next \<leftarrow> c_unshuffle perm_next s;
     next_shuffle_idx;
     State_Monad.return perm_next }"

definition c_sort :: "wire_id list \<Rightarrow> nat \<Rightarrow> wire_id build" where
  "c_sort bit_keys nb = do {
     perm \<leftarrow> compaction (bit_keys ! 0);
     fold_build (\<lambda>bit perm. sort_iteration perm (bit_keys ! bit)) [1..<nb] perm }"

section \<open>The phases of a build\<close>

text \<open>
  \<open>set_inputs\<close>: source bits first, then target bits, unless messages travel backwards, in which
  case the roles are exchanged; bit 0 of each is the node flag.
\<close>

definition input_list :: "nat \<Rightarrow> wire_id list build" where
  "input_list n =
     fold_build (\<lambda>_ ws. do { w \<leftarrow> c_input; State_Monad.return (ws @ [w]) }) [0..<n] []"

definition set_inputs :: "unit build" where
  "set_inputs = do {
     nb \<leftarrow> get_c c_bits;
     rev \<leftarrow> get_c reverse_passing;
     cols \<leftarrow> get_c (\<lambda>c. length (i_data_parallel (inp c)));
     first_bits \<leftarrow> input_list nb;
     second_bits \<leftarrow> input_list nb;
     first_end \<leftarrow> c_input;
     second_end \<leftarrow> c_input;
     v \<leftarrow> c_input;
     d \<leftarrow> c_input;
     par \<leftarrow> input_list cols;
     isV_inv \<leftarrow> flip_SIMD v;
     update_c (\<lambda>c. c\<lparr>inp :=
       \<lparr>i_src_order_bits = isV_inv # (if rev then second_bits else first_bits),
        i_dst_order_bits = v # (if rev then first_bits else second_bits),
        i_src = (if rev then second_end else first_end),
        i_dst = (if rev then first_end else second_end),
        i_isV = v, i_data = d, i_data_parallel = par\<rparr>\<rparr>) }"

definition push_order_bit :: "wire_id \<Rightarrow> circuit \<Rightarrow> circuit" where
  "push_order_bit w c = c\<lparr>inp := (inp c)\<lparr>i_src_order_bits := i_src_order_bits (inp c) @ [w],
                                        i_dst_order_bits := i_dst_order_bits (inp c) @ [w]\<rparr>\<rparr>"

text \<open>\<open>pre_mp\<close>: find duplicate edges and append a most significant sorting bit that marks them.\<close>

definition pre_mp :: "unit build" where
  "pre_mp = do {
     dd \<leftarrow> get_c deduplication;
     if dd then do {
       i \<leftarrow> get_c inp;
       nb \<leftarrow> get_c c_bits;
       sz \<leftarrow> get_c c_size;
       order \<leftarrow> c_sort (i_dst_order_bits i) (nb + 1);
       update_c (\<lambda>c. c\<lparr>ctx := (ctx c)\<lparr>dst_order := order\<rparr>\<rparr>);
       perm \<leftarrow> fold_build (\<lambda>k p. sort_iteration p (i_src_order_bits i ! k)) [1..<nb + 1] order;
       s \<leftarrow> get_shuffle_idx;
       perm \<leftarrow> c_shuffle perm s;
       perm \<leftarrow> c_reveal perm;
       dsrc \<leftarrow> c_shuffle (i_src i) s;
       ddst \<leftarrow> c_shuffle (i_dst i) s;
       dsrc \<leftarrow> permute dsrc perm;
       ddst \<leftarrow> permute ddst perm;
       src_dupl \<leftarrow> deduplication_sub dsrc;
       dst_dupl \<leftarrow> deduplication_sub ddst;
       src_dupl \<leftarrow> equals_zero src_dupl (sz - 1);
       dst_dupl \<leftarrow> equals_zero dst_dupl (sz - 1);
       dupl \<leftarrow> mul_SIMD src_dupl dst_dupl (sz - 1) True;
       dupl \<leftarrow> bit2A dupl (sz - 1);
       dupl \<leftarrow> deduplication_insert dupl;
       dupl \<leftarrow> reverse_permute dupl perm;
       msbs \<leftarrow> c_unshuffle dupl s;
       update_c (push_order_bit msbs);
       next_shuffle_idx
     } else State_Monad.return () }"

definition compute_sorts :: "unit build" where
  "compute_sorts = do {
     dd \<leftarrow> get_c deduplication;
     i \<leftarrow> get_c inp;
     nb \<leftarrow> get_c c_bits;
     if dd then do {
       so \<leftarrow> c_sort (i_src_order_bits i) (nb + 2);
       old \<leftarrow> get_c (\<lambda>c. dst_order (ctx c));
       do' \<leftarrow> sort_iteration old (i_dst_order_bits i ! (length (i_dst_order_bits i) - 1));
       isV_inv \<leftarrow> flip_SIMD (i_isV i);
       vo \<leftarrow> sort_iteration so isV_inv;
       update_c (\<lambda>c. c\<lparr>ctx := (ctx c)\<lparr>src_order := so, dst_order := do', vtx_order := vo\<rparr>\<rparr>)
     } else do {
       so \<leftarrow> c_sort (i_src_order_bits i) (nb + 1);
       do' \<leftarrow> c_sort (i_dst_order_bits i) (nb + 1);
       isV_inv \<leftarrow> flip_SIMD (i_isV i);
       vo \<leftarrow> sort_iteration so isV_inv;
       update_c (\<lambda>c. c\<lparr>ctx := (ctx c)\<lparr>src_order := so, dst_order := do', vtx_order := vo\<rparr>\<rparr>)
     } }"

definition prepare_shuffles :: "unit build" where
  "prepare_shuffles = do {
     v \<leftarrow> get_shuffle_idx;
     next_shuffle_idx;
     next_shuffle_idx;
     k \<leftarrow> get_c ctx;
     vs \<leftarrow> c_shuffle (vtx_order k) v;
     ss \<leftarrow> c_shuffle (src_order k) (v + 1);
     ds \<leftarrow> c_shuffle (dst_order k) (v + 2);
     cv \<leftarrow> c_reveal vs;
     cs \<leftarrow> c_reveal ss;
     cd \<leftarrow> c_reveal ds;
     update_c (\<lambda>c. c\<lparr>ctx := (ctx c)\<lparr>vtx_shuffle_idx := v, src_shuffle_idx := v + 1,
       dst_shuffle_idx := v + 2, clear_shuffled_vtx_order := cv, clear_shuffled_src_order := cs,
       clear_shuffled_dst_order := cd\<rparr>\<rparr>) }"

text \<open>One iteration of the loop of \<open>message_passing\<close>.\<close>

definition mp_iteration ::
  "algo \<Rightarrow> mp_context \<Rightarrow> nat \<Rightarrow> nat \<Rightarrow> nat \<Rightarrow> wire_id \<Rightarrow> wire_id build" where
  "mp_iteration a k base column i data_old = do {
     data_vtx \<leftarrow> a_prepare a data_old i column;
     prop \<leftarrow> propagate_1 data_vtx;
     sh \<leftarrow> reverse_permute prop (clear_shuffled_vtx_order k);
     sh \<leftarrow> merged_shuffle sh (base + 1) (vtx_shuffle_idx k) (src_shuffle_idx k);
     data_src \<leftarrow> permute sh (clear_shuffled_src_order k);
     corr \<leftarrow> reverse_permute data_vtx (clear_shuffled_vtx_order k);
     corr \<leftarrow> merged_shuffle corr (base + 1) (vtx_shuffle_idx k) (src_shuffle_idx k);
     data_corr \<leftarrow> permute corr (clear_shuffled_src_order k);
     data_src \<leftarrow> propagate_2 data_src data_corr;
     sh \<leftarrow> reverse_permute data_src (clear_shuffled_src_order k);
     sh \<leftarrow> merged_shuffle sh (base + 2) (src_shuffle_idx k) (dst_shuffle_idx k);
     data_dst \<leftarrow> permute sh (clear_shuffled_dst_order k);
     data_dst \<leftarrow> gather_1 data_dst;
     sh \<leftarrow> reverse_permute data_dst (clear_shuffled_dst_order k);
     sh \<leftarrow> merged_shuffle sh (base + 3) (dst_shuffle_idx k) (vtx_shuffle_idx k);
     data_vtx \<leftarrow> permute sh (clear_shuffled_vtx_order k);
     data_vtx \<leftarrow> gather_2 data_vtx;
     call_apply a data_old data_vtx i column }"

definition message_passing :: "algo \<Rightarrow> wire_id \<Rightarrow> nat \<Rightarrow> wire_id build" where
  "message_passing a data column = do {
     k \<leftarrow> get_c ctx;
     base \<leftarrow> get_shuffle_idx;
     d \<leftarrow> get_c c_depth;
     sh \<leftarrow> c_shuffle data (vtx_shuffle_idx k);
     data_vtx \<leftarrow> permute sh (clear_shuffled_vtx_order k);
     start \<leftarrow> a_init_nodes a column;
     fold_build (mp_iteration a k base column) [0..<d]
       (case start of Some w \<Rightarrow> w | None \<Rightarrow> data_vtx) }"

text \<open>\<open>output_data\<close>: keep the node entries only, and go back to the order of the input if asked to.\<close>

definition output_data :: "wire_id \<Rightarrow> unit build" where
  "output_data w = do {
     n \<leftarrow> get_c c_nodes;
     without_edge_data \<leftarrow> new_gate (\<lambda>c i out. Gate3 (c_raw c) RemoveEdgeData i w out n);
     back \<leftarrow> get_c outputs_in_input_order;
     if back then do {
       k \<leftarrow> get_c ctx;
       temp \<leftarrow> reverse_permute without_edge_data (clear_shuffled_vtx_order k);
       temp \<leftarrow> c_unshuffle temp (vtx_shuffle_idx k);
       c_output temp
     } else c_output without_edge_data }"

definition set_parallel :: "nat \<Rightarrow> wire_id \<Rightarrow> circuit \<Rightarrow> circuit" where
  "set_parallel i w c = c\<lparr>inp := (inp c)\<lparr>i_data_parallel := (i_data_parallel (inp c))[i := w]\<rparr>\<rparr>"

text \<open>Message passing, post-processing and outputs, for one column and for several.\<close>

definition run_columns :: "algo \<Rightarrow> unit build" where
  "run_columns a = do {
     cols \<leftarrow> get_c columns;
     if cols > 1 then do {
       fold_build (\<lambda>i _. do {
         w \<leftarrow> get_c (\<lambda>c. i_data_parallel (inp c) ! i);
         w' \<leftarrow> message_passing a w i;
         update_c (set_parallel i w') }) [0..<cols] ();
       update_c (\<lambda>c. c\<lparr>shuffle_idx := shuffle_idx c + 3\<rparr>);
       fold_build (\<lambda>i _. do {
         w \<leftarrow> get_c (\<lambda>c. i_data_parallel (inp c) ! i);
         w' \<leftarrow> a_post_mp a w i;
         update_c (set_parallel i w') }) [0..<cols] ();
       ws \<leftarrow> get_c (\<lambda>c. i_data_parallel (inp c));
       agg \<leftarrow> a_post_mp_aggregate a ws;
       (case agg of
          Some w \<Rightarrow> output_data w
        | None \<Rightarrow> fold_build (\<lambda>i _. output_data (ws ! i)) [0..<cols] ())
     } else do {
       w \<leftarrow> get_c (\<lambda>c. i_data (inp c));
       out \<leftarrow> message_passing a w 0;
       update_c (\<lambda>c. c\<lparr>shuffle_idx := shuffle_idx c + 3\<rparr>);
       out \<leftarrow> a_post_mp a out 0;
       output_data out
     } }"

definition lock_options :: "circuit \<Rightarrow> circuit" where
  "lock_options c = c\<lparr>can_enable_outputs_in_input_order := False,
     can_enable_reverse_passing := False, can_enable_deduplication := False\<rparr>"

text \<open>Everything \<open>build\<close> does before it orders the gates into layers.\<close>

definition build_gates :: "algo \<Rightarrow> unit build" where
  "build_gates a = do {
     update_c lock_options;
     set_inputs;
     pre_mp;
     compute_sorts;
     prepare_shuffles;
     run_columns a }"

section \<open>Concrete values for the witnesses\<close>

text \<open>A graph with two nodes and two edges, one iteration, node numbers of two bits.\<close>

definition tiny_conf :: "party \<Rightarrow> bool \<Rightarrow> protocol_config" where
  "tiny_conf me ssd = \<lparr>conf_id = me, conf_size = 4, conf_nodes = 2, conf_depth = 1, conf_bits = 2,
     conf_ssd = ssd\<rparr>"

definition zero_ctx :: mp_context where
  "zero_ctx = \<lparr>vtx_order = 0, src_order = 0, dst_order = 0, clear_shuffled_vtx_order = 0,
     clear_shuffled_src_order = 0, clear_shuffled_dst_order = 0, vtx_shuffle_idx = 0,
     src_shuffle_idx = 0, dst_shuffle_idx = 0\<rparr>"

definition zero_inputs :: inputs where
  "zero_inputs = \<lparr>i_src_order_bits = [], i_dst_order_bits = [], i_src = 0, i_dst = 0, i_isV = 0,
     i_data = 0, i_data_parallel = []\<rparr>"

definition tiny_circuit :: "nat \<Rightarrow> circuit" where
  "tiny_circuit cols = new_circuit (tiny_conf P0 False) cols zero_ctx zero_inputs (Gate_in Input 0 0)"

end
