(* ===== verification/Buffers.thy ===== *)
theory Buffers
  imports Prelude
begin

text \<open>
  The sequential buffers of the protocol: \<open>FileWriter\<close> of \<open>src/src/core/io/disk.h\<close>,
  \<open>Evaluator::read_online\<close>, and the contract (locale \<open>seq_buffer\<close>) that the preprocessing store
  keeps in memory and on disk alike: data is appended at the end and consumed in order, and the
  reading position starts over when everything has been read.
\<close>

section \<open>Reading from a vector\<close>

text \<open>
  \<open>Evaluator::read_online\<close>. The guard compares the requested size with the size of the whole
  buffer, not with what is left behind the reading position, so a request may pass it and still
  run past the end.
\<close>

definition read_online :: "vec \<Rightarrow> nat \<Rightarrow> nat \<Rightarrow> (vec \<times> nat) res" where
  "read_online buffer n_elems idx =
     (if n_elems > length buffer
      then Inl (Invalid_Argument ''Trying to read more online elements than available.'')
      else if idx + n_elems > length buffer then Inl Out_Of_Bounds
      else let data = take n_elems (drop idx buffer); idx' = idx + n_elems
           in Inr (data, if idx' \<ge> length buffer then 0 else idx'))"

section \<open>Files of ring elements\<close>

text \<open>
  A \<open>FileWriter\<close> holds the elements written so far, the number of elements already read
  (\<open>read_idx\<close>) and the count of elements written (\<open>_size\<close>).
\<close>

record file_writer =
  fw_content :: vec
  fw_read_idx :: nat
  fw_size :: nat

definition fw_new :: file_writer where
  "fw_new = \<lparr>fw_content = [], fw_read_idx = 0, fw_size = 0\<rparr>"

definition fw_reset_idx :: "file_writer \<Rightarrow> file_writer" where
  "fw_reset_idx f = f\<lparr>fw_read_idx := 0\<rparr>"

text \<open>\<open>skip\<close> advances by \<open>n_elems * sizeof(Ring)\<close>, although \<open>read_idx\<close> counts elements.\<close>

definition fw_skip :: "nat \<Rightarrow> file_writer \<Rightarrow> file_writer" where
  "fw_skip n_elems f = f\<lparr>fw_read_idx := fw_read_idx f + n_elems * 4\<rparr>"

definition fw_write :: "file_writer \<Rightarrow> vec \<Rightarrow> file_writer" where
  "fw_write f data = f\<lparr>fw_content := fw_content f @ data, fw_size := fw_size f + length data\<rparr>"

text \<open>
  \<open>read\<close>: an empty file leaves the buffer as it is; otherwise at most what is left in the file is
  read. A position behind the end makes the unsigned difference wrap around, and then nothing is
  read into a buffer of the requested size.
\<close>

definition fw_read :: "file_writer \<Rightarrow> vec \<Rightarrow> nat \<Rightarrow> vec \<times> file_writer" where
  "fw_read f buffer n_elems =
     (if fw_content f = [] then (buffer, f)
      else
        let total = length (fw_content f);
            max_elements = (if fw_read_idx f \<le> total then total - fw_read_idx f
                            else 2 ^ 64 - (fw_read_idx f - total));
            elements_to_read = min n_elems max_elements;
            chunk = take elements_to_read (drop (fw_read_idx f) (fw_content f));
            buffer' = chunk @ drop (length chunk) (vresize elements_to_read buffer);
            f' = f\<lparr>fw_read_idx := fw_read_idx f + length chunk\<rparr>
        in (buffer', if fw_read_idx f' \<ge> fw_size f' then fw_reset_idx f' else f'))"

definition fw_reset :: "file_writer \<Rightarrow> file_writer" where
  "fw_reset f = f\<lparr>fw_content := [], fw_read_idx := 0, fw_size := 0\<rparr>"

definition fw_ok :: "file_writer \<Rightarrow> bool" where
  "fw_ok f \<longleftrightarrow> fw_size f = length (fw_content f) \<and> fw_read_idx f \<le> length (fw_content f)"

lemma fw_ok_new [simp]: "fw_ok fw_new"
  by (simp add: fw_ok_def fw_new_def)

lemma fw_ok_write [simp]: "fw_ok f \<Longrightarrow> fw_ok (fw_write f data)"
  by (simp add: fw_ok_def fw_write_def)

lemma fw_ok_reset [simp]: "fw_ok (fw_reset f)"
  by (simp add: fw_ok_def fw_reset_def)

lemma fw_ok_read: "fw_ok f \<Longrightarrow> fw_ok (snd (fw_read f buffer n))"
  by (auto simp: fw_ok_def fw_read_def fw_reset_idx_def Let_def)

text \<open>A read that stays inside the file returns the next elements and moves on, or starts over.\<close>

lemma fw_read_inside:
  assumes "fw_ok f" "fw_read_idx f + n \<le> length (fw_content f)" "length buffer \<le> n"
  shows "fw_read f buffer n =
     (take n (drop (fw_read_idx f) (fw_content f)),
      f\<lparr>fw_read_idx := (if fw_read_idx f + n \<ge> length (fw_content f) then 0
                       else fw_read_idx f + n)\<rparr>)"
proof (cases "fw_content f = []")
  case True
  then show ?thesis using assms by (simp add: fw_read_def fw_ok_def)
next
  case False
  have m: "min n (length (fw_content f) - fw_read_idx f) = n" using assms by simp
  show ?thesis
    using assms False m
    by (simp add: fw_read_def fw_ok_def Let_def vresize_id fw_reset_idx_def)
qed

section \<open>The contract\<close>

locale seq_buffer =
  fixes ok :: "'s \<Rightarrow> bool"
    and data :: "'s \<Rightarrow> vec"
    and pos :: "'s \<Rightarrow> nat"
    and put :: "'s \<Rightarrow> vec \<Rightarrow> 's"
    and get :: "'s \<Rightarrow> nat \<Rightarrow> (vec \<times> 's) res"
  assumes ok_put: "ok s \<Longrightarrow> ok (put s v)"
    and data_put: "ok s \<Longrightarrow> data (put s v) = data s @ v"
    and pos_put: "ok s \<Longrightarrow> pos (put s v) = pos s"
    and get_inside: "ok s \<Longrightarrow> pos s + n \<le> length (data s) \<Longrightarrow>
        \<exists>s'. get s n = Inr (take n (drop (pos s) (data s)), s') \<and> ok s' \<and> data s' = data s \<and>
             pos s' = (if pos s + n \<ge> length (data s) then 0 else pos s + n)"
begin

text \<open>Reading a sequence of chunks, one after the other.\<close>

primrec get_all :: "'s \<Rightarrow> nat list \<Rightarrow> (vec list \<times> 's) res" where
  "get_all s [] = Inr ([], s)"
| "get_all s (n # ns) =
     bindr (get s n) (\<lambda>(v, s'). bindr (get_all s' ns) (\<lambda>(vs, s''). Inr (v # vs, s'')))"

primrec put_all :: "'s \<Rightarrow> vec list \<Rightarrow> 's" where
  "put_all s [] = s"
| "put_all s (v # vs) = put_all (put s v) vs"

lemma put_all_props:
  "ok s \<Longrightarrow> ok (put_all s vs) \<and> data (put_all s vs) = data s @ concat vs \<and>
     pos (put_all s vs) = pos s"
  by (induction vs arbitrary: s) (auto simp: ok_put data_put pos_put)

text \<open>
  Chunks come back as they were put in, in order, and after the last one the position is at the
  start again, ready for another pass.
\<close>

lemma get_all_from:
  assumes "ok s" "data s = pre @ concat vs" "pos s = length pre" "vs \<noteq> []"
    "\<forall>v \<in> set vs. v \<noteq> []"
  shows "\<exists>s'. get_all s (map length vs) = Inr (vs, s') \<and> ok s' \<and> data s' = data s \<and> pos s' = 0"
  using assms
proof (induction vs arbitrary: s pre)
  case Nil
  then show ?case by simp
next
  case (Cons v vs)
  have "pos s + length v \<le> length (data s)" using Cons.prems by simp
  then obtain s' where s': "get s (length v) = Inr (take (length v) (drop (pos s) (data s)), s')"
    "ok s'" "data s' = data s"
    "pos s' = (if pos s + length v \<ge> length (data s) then 0 else pos s + length v)"
    using get_inside[of s "length v"] Cons.prems(1) by blast
  have v: "take (length v) (drop (pos s) (data s)) = v" using Cons.prems by simp
  show ?case
  proof (cases "vs = []")
    case True
    then show ?thesis using s' v Cons.prems by auto
  next
    case False
    have "concat vs \<noteq> []" using False Cons.prems(5) by (cases vs) auto
    then have "0 < length (concat vs)" by blast
    then have "\<not> pos s + length v \<ge> length (data s)"
      unfolding Cons.prems(2,3) concat.simps length_append by linarith
    then have "pos s' = pos s + length v" using s'(4) by (simp only: if_False)
    then have "pos s' = length (pre @ v)" using Cons.prems(3) by simp
    moreover have "data s' = (pre @ v) @ concat vs" using s'(3) Cons.prems(2) by simp
    ultimately obtain s'' where "get_all s' (map length vs) = Inr (vs, s'')" "ok s''"
      "data s'' = data s'" "pos s'' = 0"
      using Cons.IH[OF s'(2)] False Cons.prems(5) by auto
    then show ?thesis using s' v by auto
  qed
qed

lemma put_get_roundtrip:
  assumes "ok s" "data s = []" "pos s = 0" "vs \<noteq> []" "\<forall>v \<in> set vs. v \<noteq> []"
  shows "\<exists>s'. get_all (put_all s vs) (map length vs) = Inr (vs, s') \<and> ok s' \<and>
              data s' = concat vs \<and> pos s' = 0"
  using get_all_from[of "put_all s vs" "[]" vs] put_all_props[OF assms(1), of vs] assms by auto

end

text \<open>The online buffers, with the reading position beside the vector.\<close>

definition online_put :: "vec \<times> nat \<Rightarrow> vec \<Rightarrow> vec \<times> nat" where
  "online_put s v = (fst s @ v, snd s)"

definition online_get :: "vec \<times> nat \<Rightarrow> nat \<Rightarrow> (vec \<times> vec \<times> nat) res" where
  "online_get s n = bindr (read_online (fst s) n (snd s)) (\<lambda>(v, i). Inr (v, fst s, i))"

interpretation online_buf: seq_buffer "\<lambda>_. True" fst snd online_put online_get
  by unfold_locales (auto simp: online_put_def online_get_def read_online_def Let_def)

definition disk_get :: "file_writer \<Rightarrow> nat \<Rightarrow> (vec \<times> file_writer) res" where
  "disk_get f n = Inr (fw_read f (replicate n 0) n)"

interpretation disk_buf: seq_buffer fw_ok fw_content fw_read_idx fw_write disk_get
proof
  fix s n
  assume ok: "fw_ok s" and n: "fw_read_idx s + n \<le> length (fw_content s)"
  show "\<exists>s'. disk_get s n = Inr (take n (drop (fw_read_idx s) (fw_content s)), s') \<and>
          fw_ok s' \<and> fw_content s' = fw_content s \<and>
          fw_read_idx s' = (if length (fw_content s) \<le> fw_read_idx s + n then 0
                            else fw_read_idx s + n)"
    using fw_read_inside[OF ok n, of "replicate n 0"] ok n
    by (auto simp: disk_get_def fw_ok_def)
qed (auto simp: fw_write_def fw_ok_def)

section \<open>Properties\<close>

text \<open>C27: Vectors written to a file one after the other are read back in the same order and with the same
  sizes, and after the last one the file is at its start again.\<close>

theorem disk_roundtrip:
  assumes "vs \<noteq> []" "\<forall>v \<in> set vs. v \<noteq> []"
  shows "\<exists>f. disk_buf.get_all (disk_buf.put_all fw_new vs) (map length vs) = Inr (vs, f) \<and>
     fw_content f = concat vs \<and> fw_read_idx f = 0"
proof -
  have "fw_content fw_new = []" "fw_read_idx fw_new = 0" by (simp_all add: fw_new_def)
  then show ?thesis using disk_buf.put_get_roundtrip[OF fw_ok_new _ _ assms] by blast
qed

lemma disk_roundtrip_witness:
  "\<exists>f. disk_buf.get_all (disk_buf.put_all fw_new [[1, 2], [3]]) (map length [[1, 2], [3 :: ring]]) = Inr ([[1, 2], [3]], f) \<and>
     fw_content f = [1, 2, 3] \<and> fw_read_idx f = 0"
  using disk_roundtrip[of "[[1, 2], [3]]"] by (simp del: list.map)

end
