(* ===== verification/Random_Gens.thy ===== *)
theory Random_Gens
  imports Prelude
begin

text \<open>
  \<open>src/src/utils/random_generators.h\<close>: the pseudo-random generators of a server. The generator
  itself (\<open>emp::PRG\<close>) is library code outside the repository, so a generator state is a type
  variable \<open>'g\<close> and its operations are the fields of \<open>prg_ops\<close>, an argument of every
  definition that draws randomness. Nothing is assumed of them: all that the protocol needs is
  that two generators in the same state return the same values, which holds of any function.
\<close>

section \<open>The generator interface\<close>

text \<open>
  \<open>draw_ring\<close> is \<open>random_data(&x, sizeof(Ring))\<close>, \<open>draw_size\<close> is
  \<open>random_data(&k, sizeof(size_t))\<close>, \<open>draw_words n\<close> fills \<open>n\<close> 64-bit words with one
  call, and \<open>reseed_to hi lo\<close> is the state after \<open>reseed\<close> with the block
  \<open>makeBlock(hi, lo)\<close>.
\<close>

record 'g prg_ops =
  draw_ring :: "'g \<Rightarrow> ring \<times> 'g"
  draw_size :: "'g \<Rightarrow> 64 word \<times> 'g"
  draw_words :: "nat \<Rightarrow> 'g \<Rightarrow> 64 word list \<times> 'g"
  reseed_to :: "64 word \<Rightarrow> 64 word \<Rightarrow> 'g"

text \<open>\<open>for (i < n) rng.random_data(&v[i], sizeof(Ring))\<close>, the loop used all over the source.\<close>

primrec draw_vec :: "'g prg_ops \<Rightarrow> nat \<Rightarrow> 'g \<Rightarrow> vec \<times> 'g" where
  "draw_vec P 0 g = ([], g)"
| "draw_vec P (Suc n) g =
     (let (x, g1) = draw_ring P g; (xs, g2) = draw_vec P n g1 in (x # xs, g2))"

lemma draw_vec_Suc:
  "draw_vec P (Suc n) g =
     (fst (draw_ring P g) # fst (draw_vec P n (snd (draw_ring P g))),
      snd (draw_vec P n (snd (draw_ring P g))))"
  by (simp add: case_prod_beta Let_def)

lemma length_draw_vec [simp, vec_lens]: "length (fst (draw_vec P n g)) = n"
  by (induction n arbitrary: g) (auto simp: draw_vec_Suc simp del: draw_vec.simps(2))

lemma length_draw_vec_eq [vec_lens]: "draw_vec P n g = (v, g') \<Longrightarrow> length v = n"
  using length_draw_vec[of P n g] by simp

lemma draw_vec_add:
  "draw_vec P (m + n) g =
     (let (u, g1) = draw_vec P m g; (v, g2) = draw_vec P n g1 in (u @ v, g2))"
  by (induction m arbitrary: g) (auto simp: Let_def split: prod.splits)

section \<open>The generators of one server\<close>

record 'g rngs =
  rng_01 :: 'g
  rng_with_D_prep :: 'g
  rng_with_D_send :: 'g
  rng_with_D_recv :: 'g
  rng_with_P0_prep :: 'g
  rng_with_P0_send :: 'g
  rng_with_P0_recv :: 'g
  rng_with_P1_prep :: 'g
  rng_with_P1_send :: 'g
  rng_with_P1_recv :: 'g
  rng_self :: 'g
  i_am_D :: bool
  i_am_P0 :: bool
  i_am_P1 :: bool

definition fresh_flags :: "'g rngs \<Rightarrow> bool" where
  "fresh_flags r \<longleftrightarrow> \<not> i_am_D r \<and> \<not> i_am_P0 r \<and> \<not> i_am_P1 r"

text \<open>The dealer draws three seeds per online server and keys six generators with them.\<close>

definition dealer_create_rngs ::
  "'g prg_ops \<Rightarrow> 'g rngs \<Rightarrow>
     ((64 word list \<times> 64 word list \<times> 64 word list \<times> 64 word list) \<times> 'g rngs) res" where
  "dealer_create_rngs P r =
     (if \<not> fresh_flags r then Inl Assertion_Failed
      else
        let (hi0, g1) = draw_words P 3 (rng_self r);
            (lo0, g2) = draw_words P 3 g1;
            (hi1, g3) = draw_words P 3 g2;
            (lo1, g4) = draw_words P 3 g3
        in Inr ((hi0, lo0, hi1, lo1),
             r\<lparr>i_am_D := True, rng_self := g4,
               rng_with_P0_prep := reseed_to P (hi0 ! 0) (lo0 ! 0),
               rng_with_P0_send := reseed_to P (hi0 ! 1) (lo0 ! 1),
               rng_with_P0_recv := reseed_to P (hi0 ! 2) (lo0 ! 2),
               rng_with_P1_prep := reseed_to P (hi1 ! 0) (lo1 ! 0),
               rng_with_P1_send := reseed_to P (hi1 ! 1) (lo1 ! 1),
               rng_with_P1_recv := reseed_to P (hi1 ! 2) (lo1 ! 2)\<rparr>))"

definition party_create_rngs ::
  "'g prg_ops \<Rightarrow> 64 word list \<Rightarrow> 64 word list \<Rightarrow> 'g rngs \<Rightarrow> 'g rngs res" where
  "party_create_rngs P hi lo r =
     (if \<not> fresh_flags r then Inl Assertion_Failed
      else Inr (r\<lparr>rng_with_D_prep := reseed_to P (hi ! 0) (lo ! 0),
                  rng_with_D_send := reseed_to P (hi ! 1) (lo ! 1),
                  rng_with_D_recv := reseed_to P (hi ! 2) (lo ! 2)\<rparr>))"

definition p0_create_rng_01 ::
  "'g prg_ops \<Rightarrow> 'g rngs \<Rightarrow> ((64 word \<times> 64 word) \<times> 'g rngs) res" where
  "p0_create_rng_01 P r =
     (if \<not> fresh_flags r then Inl Assertion_Failed
      else let (seed, g) = draw_words P 2 (rng_self r)
           in Inr ((seed ! 0, seed ! 1),
                r\<lparr>i_am_P0 := True, rng_self := g, rng_01 := reseed_to P (seed ! 0) (seed ! 1)\<rparr>))"

definition p1_create_rng01 ::
  "'g prg_ops \<Rightarrow> 64 word \<Rightarrow> 64 word \<Rightarrow> 'g rngs \<Rightarrow> 'g rngs res" where
  "p1_create_rng01 P seed_hi seed_lo r =
     (if \<not> fresh_flags r then Inl Assertion_Failed
      else Inr (r\<lparr>i_am_P1 := True, rng_01 := reseed_to P seed_hi seed_lo\<rparr>))"

definition rngs_reset :: "'g rngs \<Rightarrow> 'g rngs" where
  "rngs_reset r = r\<lparr>i_am_D := False, i_am_P0 := False, i_am_P1 := False\<rparr>"

text \<open>The accessors check, by an assertion, that the server plays a role that owns the generator.\<close>

definition online_role :: "'g rngs \<Rightarrow> bool" where
  "online_role r \<longleftrightarrow> i_am_P0 r \<or> i_am_P1 r"

definition get_rng_01 :: "'g rngs \<Rightarrow> 'g res" where
  "get_rng_01 r = (if online_role r then Inr (rng_01 r) else Inl Assertion_Failed)"

definition get_rng_with_D_prep :: "'g rngs \<Rightarrow> 'g res" where
  "get_rng_with_D_prep r = (if online_role r then Inr (rng_with_D_prep r) else Inl Assertion_Failed)"

definition get_rng_with_D_send :: "'g rngs \<Rightarrow> 'g res" where
  "get_rng_with_D_send r = (if online_role r then Inr (rng_with_D_send r) else Inl Assertion_Failed)"

definition get_rng_with_D_recv :: "'g rngs \<Rightarrow> 'g res" where
  "get_rng_with_D_recv r = (if online_role r then Inr (rng_with_D_recv r) else Inl Assertion_Failed)"

definition get_rng_with_P0_prep :: "'g rngs \<Rightarrow> 'g res" where
  "get_rng_with_P0_prep r = (if i_am_D r then Inr (rng_with_P0_prep r) else Inl Assertion_Failed)"

definition get_rng_with_P1_prep :: "'g rngs \<Rightarrow> 'g res" where
  "get_rng_with_P1_prep r = (if i_am_D r then Inr (rng_with_P1_prep r) else Inl Assertion_Failed)"

section \<open>Agreement of the generators\<close>

text \<open>
  What the seed exchange is for: dealer and server hold the same stream under their two names
  for it, and the two online servers share the generator \<open>rng_01\<close>.
\<close>

definition synced0 :: "'g rngs \<Rightarrow> 'g rngs \<Rightarrow> bool" where
  "synced0 d r \<longleftrightarrow> rng_with_P0_prep d = rng_with_D_prep r \<and>
     rng_with_P0_send d = rng_with_D_send r \<and> rng_with_P0_recv d = rng_with_D_recv r"

definition synced1 :: "'g rngs \<Rightarrow> 'g rngs \<Rightarrow> bool" where
  "synced1 d r \<longleftrightarrow> rng_with_P1_prep d = rng_with_D_prep r \<and>
     rng_with_P1_send d = rng_with_D_send r \<and> rng_with_P1_recv d = rng_with_D_recv r"

text \<open>
  The whole exchange of \<open>Preprocessor::run\<close>: the dealer creates its generators, each server
  keys its own from the seeds it receives, and \<open>P0\<close> shares a further seed with \<open>P1\<close>.
\<close>

definition setup_rngs ::
  "'g prg_ops \<Rightarrow> 'g rngs \<Rightarrow> 'g rngs \<Rightarrow> 'g rngs \<Rightarrow> ('g rngs \<times> 'g rngs \<times> 'g rngs) res" where
  "setup_rngs P rD r0 r1 =
     bindr (dealer_create_rngs P rD) (\<lambda>((hi0, lo0, hi1, lo1), rD').
     bindr (party_create_rngs P hi0 lo0 r0) (\<lambda>r0'.
     bindr (party_create_rngs P hi1 lo1 r1) (\<lambda>r1'.
     bindr (p0_create_rng_01 P r0') (\<lambda>((hi, lo), r0'').
     bindr (p1_create_rng01 P hi lo r1') (\<lambda>r1''.
       Inr (rD', r0'', r1''))))))"

lemma setup_rngs_ok:
  assumes "fresh_flags rD" "fresh_flags r0" "fresh_flags r1"
  shows "\<exists>rD' r0' r1'. setup_rngs P rD r0 r1 = Inr (rD', r0', r1') \<and>
     synced0 rD' r0' \<and> synced1 rD' r1' \<and> rng_01 r0' = rng_01 r1' \<and>
     i_am_D rD' \<and> i_am_P0 r0' \<and> i_am_P1 r1'"
proof -
  obtain hi0 g1 where 1: "draw_words P 3 (rng_self rD) = (hi0, g1)" by fastforce
  obtain lo0 g2 where 2: "draw_words P 3 g1 = (lo0, g2)" by fastforce
  obtain hi1 g3 where 3: "draw_words P 3 g2 = (hi1, g3)" by fastforce
  obtain lo1 g4 where 4: "draw_words P 3 g3 = (lo1, g4)" by fastforce
  obtain seed g5 where 5: "draw_words P 2 (rng_self r0) = (seed, g5)" by fastforce
  show ?thesis
    using assms 1 2 3 4 5
    by (simp add: setup_rngs_def dealer_create_rngs_def party_create_rngs_def
        p0_create_rng_01_def p1_create_rng01_def fresh_flags_def synced0_def synced1_def)
qed

section \<open>A concrete generator for the witnesses\<close>

text \<open>A linear congruential generator: some instance of the interface that evaluates.\<close>

definition lcg_next :: "64 word \<Rightarrow> 64 word" where
  "lcg_next s = s * 6364136223846793005 + 1442695040888963407"

primrec lcg_words :: "nat \<Rightarrow> 64 word \<Rightarrow> 64 word list \<times> 64 word" where
  "lcg_words 0 s = ([], s)"
| "lcg_words (Suc n) s = (let (xs, s') = lcg_words n (lcg_next s) in (drop_bit 16 s # xs, s'))"

definition lcg_ops :: "64 word prg_ops" where
  "lcg_ops = \<lparr>draw_ring = (\<lambda>s. (ucast (drop_bit 32 s), lcg_next s)),
              draw_size = (\<lambda>s. (drop_bit 16 s, lcg_next s)),
              draw_words = lcg_words,
              reseed_to = (\<lambda>hi lo. hi * 31 + lo + 1)\<rparr>"

definition lcg_rngs :: "64 word \<Rightarrow> 64 word rngs" where
  "lcg_rngs s = \<lparr>rng_01 = 0, rng_with_D_prep = 0, rng_with_D_send = 0, rng_with_D_recv = 0,
     rng_with_P0_prep = 0, rng_with_P0_send = 0, rng_with_P0_recv = 0, rng_with_P1_prep = 0,
     rng_with_P1_send = 0, rng_with_P1_recv = 0, rng_self = s,
     i_am_D = False, i_am_P0 = False, i_am_P1 = False\<rparr>"

section \<open>Properties\<close>

text \<open>C19: After the exchange of seeds in \<open>Preprocessor::run\<close> each of the six streams of the dealer is in
  the same state as the stream of the online server it is shared with, the two online servers
  agree on theirs, and every object knows its role; no assertion fails when the generators are
  fresh.\<close>

theorem streams_agree:
  assumes "fresh_flags rD" "fresh_flags r0" "fresh_flags r1"
  shows "\<exists>rD' r0' r1'. setup_rngs P rD r0 r1 = Inr (rD', r0', r1') \<and>
     synced0 rD' r0' \<and> synced1 rD' r1' \<and> rng_01 r0' = rng_01 r1' \<and>
     i_am_D rD' \<and> i_am_P0 r0' \<and> i_am_P1 r1'"
  using assms by (rule setup_rngs_ok)

lemma streams_agree_witness:
  "\<exists>rD' r0' r1'. setup_rngs lcg_ops (lcg_rngs 1) (lcg_rngs 2) (lcg_rngs 3) = Inr (rD', r0', r1') \<and>
     synced0 rD' r0' \<and> synced1 rD' r1'"
  using streams_agree[of "lcg_rngs 1" "lcg_rngs 2" "lcg_rngs 3" lcg_ops]
  by (auto simp: fresh_flags_def lcg_rngs_def)



end
