(* ===== verification/Perm_Vec.thy ===== *)
theory Perm_Vec
  imports Random_Gens "HOL-Library.Multiset"
begin

text \<open>
  \<open>src/src/utils/permutation.h\<close>: permutations as vectors of ring elements. Applying \<open>p\<close> to a
  vector moves the entry at position \<open>i\<close> to position \<open>p[i]\<close>, and \<open>p * q\<close> applies \<open>q\<close> first.
  The lemmas show that the vectors form a group that acts on vectors, which is the contract
  (locale \<open>perm_action\<close>) the shuffle protocols rely on.
\<close>

section \<open>The class\<close>

type_synonym permutation = vec

text \<open>\<open>Permutation(n)\<close>: the identity, filled by \<open>std::iota\<close>.\<close>

definition perm_iota :: "nat \<Rightarrow> permutation" where
  "perm_iota n = map of_nat [0..<n]"

text \<open>\<open>std::swap(p.perm_vec[i], p.perm_vec[j])\<close>.\<close>

definition swap_at :: "nat \<Rightarrow> nat \<Rightarrow> 'a list \<Rightarrow> 'a list" where
  "swap_at i j xs = xs[i := xs ! j, j := xs ! i]"

text \<open>
  The loop of \<open>Permutation::random\<close> for a size, and the operation itself: its parameter is an
  \<open>int\<close>, and a negative number of rows asks for a vector that is longer than any can be. The
  callers hand over a \<open>size_t\<close>, of which the conversion keeps the low 32 bits.
\<close>

definition random_loop :: "'g prg_ops \<Rightarrow> nat \<Rightarrow> 'g \<Rightarrow> permutation \<times> 'g" where
  "random_loop P n_rows g =
     for_to n_rows (\<lambda>i (p, g).
       let (k, g') = draw_size P g; k' = unat k mod (n_rows - i)
       in (swap_at i (i + k') p, g')) (perm_iota n_rows, g)"

definition perm_random :: "'g prg_ops \<Rightarrow> int \<Rightarrow> 'g \<Rightarrow> (permutation \<times> 'g) res" where
  "perm_random P n_rows rng =
     (if n_rows < 0 then Inl Length_Error else Inr (random_loop P (nat n_rows) rng))"

definition to_int :: "nat \<Rightarrow> int" where
  "to_int n = sint (of_nat n :: 32 word)"

definition perm_inverse :: "permutation \<Rightarrow> permutation" where
  "perm_inverse p =
     scatter (length p) (\<lambda>i. unat (p ! i)) (\<lambda>i. of_nat i) (replicate (length p) 0)"

definition perm_index :: "permutation \<Rightarrow> nat \<Rightarrow> ring" where
  "perm_index p idx = p ! idx"

definition perm_apply :: "permutation \<Rightarrow> vec \<Rightarrow> vec" where
  "perm_apply p input_vec =
     scatter (length p) (\<lambda>i. unat (p ! i)) (\<lambda>i. input_vec ! i) (replicate (length input_vec) 0)"

text \<open>
  The overload on permutations checks each target position, and throws where the position
  exceeds the size; writing at the size itself is past the end of the vector.
\<close>

definition perm_apply_perm :: "permutation \<Rightarrow> permutation \<Rightarrow> permutation res" where
  "perm_apply_perm p q =
     (if length q \<noteq> length p then Inl Assertion_Failed
      else foldr_res (\<lambda>result i.
             if unat (p ! i) > length q
             then Inl (Logic_Error ''Cannot apply secret shared permutation.'')
             else if unat (p ! i) \<ge> length result then Inl Out_Of_Bounds
             else Inr (result[unat (p ! i) := q ! i]))
           (replicate (length q) 0) [0..<length p])"

definition perm_mult :: "permutation \<Rightarrow> permutation \<Rightarrow> permutation" where
  "perm_mult p other = map (\<lambda>i. p ! unat (other ! i)) [0..<length p]"

definition perm_eq :: "permutation \<Rightarrow> permutation \<Rightarrow> bool" where
  "perm_eq p other \<longleftrightarrow> other = p"

definition is_null :: "permutation \<Rightarrow> bool" where
  "is_null p = fold (\<lambda>elem null. if elem \<noteq> 0 then False else null) p True"

definition not_null :: "permutation \<Rightarrow> bool" where
  "not_null p = (\<not> fold (\<lambda>elem null. if elem \<noteq> 0 then False else null) p True)"

section \<open>Valid permutations\<close>

definition perm_ok :: "nat \<Rightarrow> permutation \<Rightarrow> bool" where
  "perm_ok n p \<longleftrightarrow> length p = n \<and> distinct p \<and> list_all (\<lambda>x. unat x < n) p"

lemma perm_ok_length: "perm_ok n p \<Longrightarrow> length p = n"
  unfolding perm_ok_def by blast

lemma perm_ok_lt: "perm_ok n p \<Longrightarrow> i < n \<Longrightarrow> unat (p ! i) < n"
  unfolding perm_ok_def list_all_length by blast

lemma perm_ok_distinct: "perm_ok n p \<Longrightarrow> distinct p"
  unfolding perm_ok_def by blast

lemma perm_ok_inj: "perm_ok n p \<Longrightarrow> inj_on (\<lambda>i. unat (p ! i)) {..<n}"
proof (rule inj_onI)
  fix i j
  assume ok: "perm_ok n p" and ij: "i \<in> {..<n}" "j \<in> {..<n}" "unat (p ! i) = unat (p ! j)"
  have "length p = n" using ok by (rule perm_ok_length)
  moreover have "p ! i = p ! j" using ij(3) unat_inj by blast
  ultimately show "i = j"
    using ij perm_ok_distinct[OF ok] nth_eq_iff_index_eq by blast
qed

lemma perm_ok_bij: "perm_ok n p \<Longrightarrow> bij_betw (\<lambda>i. unat (p ! i)) {..<n} {..<n}"
  unfolding bij_betw_def
proof
  assume ok: "perm_ok n p"
  show inj: "inj_on (\<lambda>i. unat (p ! i)) {..<n}"
    using ok by (rule perm_ok_inj)
  have "(\<lambda>i. unat (p ! i)) ` {..<n} \<subseteq> {..<n}"
    using perm_ok_lt[OF ok] by blast
  then show "(\<lambda>i. unat (p ! i)) ` {..<n} = {..<n}"
    using inj by (rule endo_inj_surj[OF finite_lessThan])
qed

lemma perm_ok_surj:
  assumes "perm_ok n p" "j < n"
  obtains i where "i < n" "unat (p ! i) = j"
proof -
  have "j \<in> (\<lambda>i. unat (p ! i)) ` {..<n}"
    using perm_ok_bij[OF assms(1)] assms(2) by (simp add: bij_betw_def)
  then show thesis using that by auto
qed

lemma perm_ok_bound: "perm_ok n p \<Longrightarrow> n \<le> 2 ^ 32"
proof -
  assume ok: "perm_ok n p"
  have "card (set p) \<le> card (UNIV :: ring set)"
    by (rule card_mono[OF finite subset_UNIV])
  also have "card (UNIV :: ring set) = 2 ^ 32"
    by (simp only: card_word) simp
  also have "card (set p) = length p"
    using perm_ok_distinct[OF ok] by (rule distinct_card)
  finally show ?thesis
    unfolding perm_ok_length[OF ok] .
qed

lemma perm_okI:
  assumes "length p = n" "inj_on (\<lambda>i. unat (p ! i)) {..<n}" "\<And>i. i < n \<Longrightarrow> unat (p ! i) < n"
  shows "perm_ok n p"
  unfolding perm_ok_def
proof (intro conjI)
  show "distinct p"
    using assms(1,2) unfolding distinct_conv_nth inj_on_def
    by (metis lessThan_iff)
  show "list_all (\<lambda>x. unat x < n) p"
    using assms(1,3) by (simp add: list_all_length)
qed (rule assms(1))

declare perm_ok_length [simp] perm_ok_lt [simp]

lemma perm_ok_unat_of_nat: "perm_ok n p \<Longrightarrow> i < n \<Longrightarrow> unat (of_nat i :: ring) = i"
  using perm_ok_bound unat_of_nat_ring by (metis less_le_trans)

lemma perm_ok_iota: "n \<le> 2 ^ 32 \<Longrightarrow> perm_ok n (perm_iota n)"
  by (rule perm_okI) (auto simp: perm_iota_def inj_on_def unat_of_nat_ring)

lemma length_perm_iota [simp]: "length (perm_iota n) = n"
  by (simp add: perm_iota_def)

section \<open>The action on vectors\<close>

lemma length_perm_apply [simp, vec_lens]: "length (perm_apply p v) = length v"
  by (simp add: perm_apply_def)

lemma length_perm_inverse [simp]: "length (perm_inverse p) = length p"
  by (simp add: perm_inverse_def)

lemma length_perm_mult [simp]: "length (perm_mult p q) = length p"
  by (simp add: perm_mult_def)

lemma perm_apply_nth:
  "perm_ok n p \<Longrightarrow> length v = n \<Longrightarrow> i < n \<Longrightarrow> perm_apply p v ! unat (p ! i) = v ! i"
  unfolding perm_apply_def
  using scatter_nth[of "\<lambda>i. unat (p ! i)" n i "replicate n 0"] perm_ok_inj[of n p] by simp

lemma perm_apply_eqI:
  assumes "perm_ok n p" "length v = n" "length w = n" "\<And>i. i < n \<Longrightarrow> w ! unat (p ! i) = v ! i"
  shows "perm_apply p v = w"
proof (rule nth_equalityI)
  fix j assume "j < length (perm_apply p v)"
  then obtain i where "i < n" "unat (p ! i) = j"
    using assms perm_ok_surj[of n p j] by auto
  then show "perm_apply p v ! j = w ! j"
    using assms perm_apply_nth[of n p v i] by auto
qed (use assms in simp)

lemma perm_inverse_nth:
  "perm_ok n p \<Longrightarrow> i < n \<Longrightarrow> perm_inverse p ! unat (p ! i) = of_nat i"
  unfolding perm_inverse_def
  using scatter_nth[of "\<lambda>i. unat (p ! i)" n i "replicate n 0"] perm_ok_inj[of n p] by simp

lemma perm_inverse_unat:
  "perm_ok n p \<Longrightarrow> i < n \<Longrightarrow> unat (perm_inverse p ! unat (p ! i)) = i"
  by (simp add: perm_inverse_nth perm_ok_unat_of_nat)

lemma perm_ok_inverse [intro, simp]:
  assumes "perm_ok n p" shows "perm_ok n (perm_inverse p)"
proof (rule perm_okI)
  show "length (perm_inverse p) = n" using assms by simp
  show "unat (perm_inverse p ! j) < n" if "j < n" for j
    using that assms perm_ok_surj[of n p j] by (metis perm_inverse_unat)
  show "inj_on (\<lambda>i. unat (perm_inverse p ! i)) {..<n}"
    unfolding inj_on_def using assms perm_ok_surj[of n p] by (metis lessThan_iff perm_inverse_unat)
qed

lemma perm_of_inverse:
  assumes "perm_ok n p" "j < n" shows "unat (p ! unat (perm_inverse p ! j)) = j"
  using assms perm_ok_surj[of n p j] by (metis perm_inverse_unat)

lemma perm_mult_nth: "i < length p \<Longrightarrow> perm_mult p q ! i = p ! unat (q ! i)"
  by (simp add: perm_mult_def)

lemma perm_ok_mult [intro, simp]:
  assumes "perm_ok n p" "perm_ok n q" shows "perm_ok n (perm_mult p q)"
proof (rule perm_okI)
  have "inj_on ((\<lambda>i. unat (p ! i)) \<circ> (\<lambda>i. unat (q ! i))) {..<n}"
    using assms by (intro comp_inj_on) (auto simp: perm_ok_inj intro: inj_on_subset[OF perm_ok_inj])
  then show "inj_on (\<lambda>i. unat (perm_mult p q ! i)) {..<n}"
    using assms by (simp add: inj_on_def perm_mult_nth)
qed (use assms in \<open>auto simp: perm_mult_nth\<close>)

lemma perm_apply_mult:
  assumes "perm_ok n p" "perm_ok n q" "length v = n"
  shows "perm_apply (perm_mult p q) v = perm_apply p (perm_apply q v)"
  by (rule perm_apply_eqI[of n])
     (use assms in \<open>auto simp: perm_mult_nth perm_apply_nth\<close>)

lemma perm_apply_inverse_left:
  assumes "perm_ok n p" "length v = n"
  shows "perm_apply (perm_inverse p) (perm_apply p v) = v"
proof (rule perm_apply_eqI[of n])
  fix j assume "j < n"
  then obtain i where "i < n" "unat (p ! i) = j"
    using assms perm_ok_surj[of n p j] by auto
  then show "v ! unat (perm_inverse p ! j) = perm_apply p v ! j"
    using assms by (metis perm_apply_nth perm_inverse_unat)
qed (use assms in auto)

lemma perm_apply_inverse_right:
  assumes "perm_ok n p" "length v = n"
  shows "perm_apply p (perm_apply (perm_inverse p) v) = v"
proof (rule perm_apply_eqI[of n])
  fix i assume i: "i < n"
  have "perm_apply (perm_inverse p) v ! unat (perm_inverse p ! unat (p ! i)) = v ! unat (p ! i)"
    using assms i by (intro perm_apply_nth[of n]) auto
  then show "v ! unat (p ! i) = perm_apply (perm_inverse p) v ! i"
    using assms i by (simp add: perm_inverse_unat)
qed (use assms in auto)

text \<open>The inverse action reads through the permutation, as \<open>Unshuffle\<close> and \<open>ReversePermute\<close> do.\<close>

lemma perm_apply_inverse_eq:
  assumes "perm_ok n p" "length v = n"
  shows "perm_apply (perm_inverse p) v = map (\<lambda>i. v ! unat (p ! i)) [0..<n]"
proof (rule perm_apply_eqI[of n])
  fix j assume "j < n"
  then show "map (\<lambda>i. v ! unat (p ! i)) [0..<n] ! unat (perm_inverse p ! j) = v ! j"
    using assms by (simp add: perm_of_inverse)
qed (use assms in auto)

lemma perm_apply_vadd:
  assumes "perm_ok n p" "length u = n" "length v = n"
  shows "perm_apply p (vadd u v) = vadd (perm_apply p u) (perm_apply p v)"
  by (rule perm_apply_eqI[of n]) (use assms in \<open>auto simp: perm_apply_nth\<close>)

lemma perm_mult_assoc:
  assumes "perm_ok n p" "perm_ok n q" "perm_ok n r"
  shows "perm_mult (perm_mult p q) r = perm_mult p (perm_mult q r)"
  by (rule nth_equalityI) (use assms in \<open>auto simp: perm_mult_nth\<close>)

lemma perm_mult_inverse_left:
  "perm_ok n p \<Longrightarrow> perm_mult (perm_inverse p) p = perm_iota n"
  by (rule nth_equalityI)
     (auto simp: perm_mult_nth perm_inverse_nth perm_iota_def)

lemma perm_mult_inverse_right:
  assumes "perm_ok n p" shows "perm_mult p (perm_inverse p) = perm_iota n"
proof (rule nth_equalityI)
  fix i assume "i < length (perm_mult p (perm_inverse p))"
  then have i: "i < n" using assms by simp
  have "unat (p ! unat (perm_inverse p ! i)) = unat (of_nat i :: ring)"
    using assms i by (simp add: perm_of_inverse perm_ok_unat_of_nat)
  then show "perm_mult p (perm_inverse p) ! i = perm_iota n ! i"
    using assms i by (simp add: perm_mult_nth perm_iota_def unat_inj)
qed (use assms in simp)

lemma perm_mult_iota_left:
  assumes "perm_ok n p" shows "perm_mult (perm_iota n) p = p"
proof (rule nth_equalityI)
  fix i assume "i < length (perm_mult (perm_iota n) p)"
  then have "i < n" by simp
  then have "unat (p ! i) < n" using assms by simp
  then have "unat (perm_iota n ! unat (p ! i)) = unat (p ! i)"
    using assms by (simp add: perm_iota_def)
  then show "perm_mult (perm_iota n) p ! i = p ! i"
    using \<open>i < n\<close> assms by (simp add: perm_mult_nth unat_inj)
qed (use assms in simp)

lemma perm_mult_iota_right:
  "perm_ok n p \<Longrightarrow> perm_mult p (perm_iota n) = p"
  by (rule nth_equalityI) (auto simp: perm_mult_nth perm_iota_def perm_ok_unat_of_nat)

text \<open>The vector of a permutation, moved as data: \<open>pi(omega.perm_vec) = omega * pi^-1\<close>.\<close>

lemma perm_apply_as_mult:
  assumes "perm_ok n p" "perm_ok n q"
  shows "perm_apply p q = perm_mult q (perm_inverse p)"
  by (rule perm_apply_eqI[of n])
     (use assms in \<open>auto simp: perm_mult_nth perm_inverse_unat\<close>)

section \<open>Sampling\<close>

lemma length_swap_at [simp]: "length (swap_at i j xs) = length xs"
  by (simp add: swap_at_def)

lemma mset_swap_at: "i < length xs \<Longrightarrow> j < length xs \<Longrightarrow> mset (swap_at i j xs) = mset xs"
  unfolding swap_at_def by (rule mset_swap)

lemma perm_ok_mset: "mset p = mset q \<Longrightarrow> perm_ok n q \<Longrightarrow> perm_ok n p"
  unfolding perm_ok_def
  using mset_eq_length[of p q] mset_eq_setD[of p q] mset_eq_imp_distinct_iff[of p q]
  by (simp add: list_all_iff)

lemma random_loop_ok: "n < 2 ^ 31 \<Longrightarrow> perm_ok n (fst (random_loop P n g))"
proof -
  assume "n < 2 ^ 31"
  then have n: "n \<le> 2 ^ 32" by simp
  have "mset (fst (random_loop P n g)) = mset (perm_iota n)"
    unfolding random_loop_def
  proof (rule for_to_invariant[where I = "\<lambda>i s. mset (fst s) = mset (perm_iota n)"])
    fix i and s :: "permutation \<times> 'a"
    assume i: "i < n" and I: "mset (fst s) = mset (perm_iota n)"
    obtain p h where s: "s = (p, h)" by fastforce
    obtain k h' where k: "draw_size P h = (k, h')" by fastforce
    have len: "length p = n" using I s by (metis fst_conv length_perm_iota size_mset)
    have "i + unat k mod (n - i) < n" using i
      by (metis add.commute less_diff_conv mod_less_divisor zero_less_diff)
    then show "mset (fst (case s of (p, g) \<Rightarrow> let (k, g') = draw_size P g;
        k' = unat k mod (n - i) in (swap_at i (i + k') p, g'))) = mset (perm_iota n)"
      using I i len s k by (simp add: mset_swap_at)
  qed simp
  then show ?thesis using n by (metis perm_ok_mset perm_ok_iota)
qed

text \<open>Sizes below \<open>2^31\<close> survive the conversion; the ones above it up to \<open>2^32\<close> become negative.\<close>

lemma to_int_small: "n < 2 ^ 31 \<Longrightarrow> to_int n = int n"
  unfolding to_int_def by (simp add: signed_of_nat signed_take_bit_int_eq_self)

lemma to_int_negative:
  assumes "2 ^ 31 \<le> n" "n < 2 ^ 32"
  shows "to_int n < 0"
proof -
  have div: "int n div 2 ^ 31 = 1"
    using assms by (intro int_div_pos_eq[of _ _ _ "int n - 2 ^ 31"]) auto
  then have odd: "bit (int n) 31" by (simp add: bit_iff_odd)
  have "to_int n = signed_take_bit 31 (int n)" by (simp add: to_int_def signed_of_nat)
  also have "\<dots> = take_bit 32 (int n) - 2 ^ 32 * of_bool (bit (int n) 31)"
    using signed_take_bit_eq_take_bit_minus[of 31 "int n"] by simp
  also have "take_bit 32 (int n) = int n" using assms by (simp add: take_bit_int_eq_self)
  finally show ?thesis using assms odd by simp
qed

lemma perm_random_small: "n < 2 ^ 31 \<Longrightarrow> perm_random P (to_int n) g = Inr (random_loop P n g)"
  by (simp add: perm_random_def to_int_small)

section \<open>The contract of a permutation action\<close>

text \<open>
  What the shuffle protocols use of permutations: closure of the valid ones under product and
  inverse, the action law, and additivity, which lets the action commute with reconstruction.
\<close>

locale perm_action =
  fixes ok :: "nat \<Rightarrow> 'p \<Rightarrow> bool"
    and mult :: "'p \<Rightarrow> 'p \<Rightarrow> 'p"
    and inv :: "'p \<Rightarrow> 'p"
    and act :: "'p \<Rightarrow> vec \<Rightarrow> vec"
  assumes ok_mult: "ok n p \<Longrightarrow> ok n q \<Longrightarrow> ok n (mult p q)"
    and ok_inv: "ok n p \<Longrightarrow> ok n (inv p)"
    and length_act: "length (act p v) = length v"
    and act_mult: "ok n p \<Longrightarrow> ok n q \<Longrightarrow> length v = n \<Longrightarrow> act (mult p q) v = act p (act q v)"
    and act_inv_act: "ok n p \<Longrightarrow> length v = n \<Longrightarrow> act (inv p) (act p v) = v"
    and act_act_inv: "ok n p \<Longrightarrow> length v = n \<Longrightarrow> act p (act (inv p) v) = v"
    and act_vadd: "ok n p \<Longrightarrow> length u = n \<Longrightarrow> length v = n \<Longrightarrow>
                     act p (vadd u v) = vadd (act p u) (act p v)"
begin

text \<open>
  The two legs together: where both factorisations have the same product \<open>s\<close> and the
  corrections differ from the moved masks by \<open>-c\<close> and \<open>+c\<close>, the new shares add up to
  \<open>s\<close> applied to the old sum.
\<close>

lemma two_legs:
  assumes "ok n a0" "ok n b1" "ok n a1" "ok n b0" "ok n s"
    and "\<And>v. length v = n \<Longrightarrow> act b1 (act a0 v) = act s v"
    and "\<And>v. length v = n \<Longrightarrow> act b0 (act a1 v) = act s v"
    and "length x0 = n" "length x1 = n" "length r0 = n" "length r1 = n"
    and "B1 = map (\<lambda>x. x + R) (act s r0)" "B0 = map (\<lambda>x. x - R) (act s r1)"
  shows "vadd (vsub (act b0 (act a1 (vadd x1 r1))) B0) (vsub (act b1 (act a0 (vadd x0 r0))) B1)
         = act s (vadd x0 x1)"
proof (rule nth_equalityI)
  fix i
  assume i: "i < length (vadd (vsub (act b0 (act a1 (vadd x1 r1))) B0)
                              (vsub (act b1 (act a0 (vadd x0 r0))) B1))"
  show "vadd (vsub (act b0 (act a1 (vadd x1 r1))) B0) (vsub (act b1 (act a0 (vadd x0 r0))) B1) ! i
        = act s (vadd x0 x1) ! i"
    using assms i by (simp add: act_vadd length_act)
qed (use assms in \<open>simp add: length_act\<close>)

lemma inv_product:
  assumes "ok n p" "ok n q" "length v = n"
  shows "act (inv (mult p q)) v = act (inv q) (act (inv p) v)"
proof -
  have "v = act (mult p q) (act (inv q) (act (inv p) v))"
    using assms by (simp add: act_mult ok_inv act_act_inv length_act)
  then show ?thesis
    using assms by (metis act_inv_act length_act ok_mult)
qed

text \<open>The second factor the dealer hands out: \<open>pi_1' = pi * pi_0'^-1\<close> completes \<open>pi_0'\<close>.\<close>

lemma complete_left:
  assumes "ok n s" "ok n p" "length v = n"
  shows "act (mult s (inv p)) (act p v) = act s v"
  using assms by (simp add: act_mult ok_inv act_inv_act length_act)

lemma complete_right:
  assumes "ok n s" "ok n q" "length v = n"
  shows "act q (act (mult (inv q) s) v) = act s v"
  using act_mult[OF ok_inv[OF assms(2)] assms(1,3)] act_act_inv[OF assms(2), of "act s v"] assms
  by (simp add: length_act)

end

interpretation pv: perm_action perm_ok perm_mult perm_inverse perm_apply
  by unfold_locales
    (auto simp: perm_apply_mult perm_apply_inverse_left perm_apply_inverse_right perm_apply_vadd)

section \<open>The operations with their undefined cases\<close>

text \<open>
  What a caller observes: the application asserts that the sizes agree, and an entry that does
  not fit its vector is an access out of bounds.
\<close>

definition fits :: "nat \<Rightarrow> vec \<Rightarrow> bool" where
  "fits n p \<longleftrightarrow> list_all (\<lambda>x. unat x < n) p"

definition apply_res :: "permutation \<Rightarrow> vec \<Rightarrow> vec res" where
  "apply_res p v =
     (if length v \<noteq> length p then Inl Assertion_Failed
      else if fits (length v) p then Inr (perm_apply p v) else Inl Out_Of_Bounds)"

definition inverse_res :: "permutation \<Rightarrow> permutation res" where
  "inverse_res p = (if fits (length p) p then Inr (perm_inverse p) else Inl Out_Of_Bounds)"

definition mult_res :: "permutation \<Rightarrow> permutation \<Rightarrow> permutation res" where
  "mult_res p q =
     (if length p \<le> length q \<and> fits (length p) (take (length p) q)
      then Inr (perm_mult p q) else Inl Out_Of_Bounds)"

lemma perm_ok_fits: "perm_ok n p \<Longrightarrow> fits n p"
  unfolding perm_ok_def fits_def by blast

lemma apply_res_ok: "perm_ok n p \<Longrightarrow> length v = n \<Longrightarrow> apply_res p v = Inr (perm_apply p v)"
  using perm_ok_fits[of n p] perm_ok_length[of n p] by (simp add: apply_res_def)

lemma inverse_res_ok: "perm_ok n p \<Longrightarrow> inverse_res p = Inr (perm_inverse p)"
  using perm_ok_fits[of n p] perm_ok_length[of n p] by (simp add: inverse_res_def)

lemma mult_res_ok: "perm_ok n p \<Longrightarrow> perm_ok n q \<Longrightarrow> mult_res p q = Inr (perm_mult p q)"
  using perm_ok_fits[of n q] perm_ok_length[of n p] perm_ok_length[of n q]
  by (simp add: mult_res_def)

section \<open>Properties\<close>

text \<open>C20: \<open>Permutation::random\<close>, called with a size as its callers do: below \<open>2^31\<close> its Fisher-Yates
  loop returns a permutation of \<open>0..n-1\<close>, whatever the generator produces. From there on the
  conversion of the size to \<open>int\<close> is negative, and the call throws, up to \<open>2^32\<close>, where it returns
  the empty permutation.\<close>

theorem random_is_permutation:
  "(n < 2 ^ 31 \<longrightarrow> (\<exists>p g'. perm_random P (to_int n) g = Inr (p, g') \<and> perm_ok n p)) \<and>
   (2 ^ 31 \<le> n \<and> n < 2 ^ 32 \<longrightarrow> perm_random P (to_int n) g = Inl Length_Error) \<and>
   perm_random P (to_int (2 ^ 32)) g = Inr ([], g)"
proof (intro conjI impI)
  assume n: "n < 2 ^ 31"
  then have "perm_ok n (fst (random_loop P n g))" by (rule random_loop_ok)
  then show "\<exists>p g'. perm_random P (to_int n) g = Inr (p, g') \<and> perm_ok n p"
    using perm_random_small[OF n] by (metis prod.collapse)
next
  assume "2 ^ 31 \<le> n \<and> n < 2 ^ 32"
  then show "perm_random P (to_int n) g = Inl Length_Error"
    using to_int_negative by (simp add: perm_random_def)
qed (simp add: perm_random_def to_int_def random_loop_def perm_iota_def)

lemma random_is_permutation_witness:
  "(\<exists>p g'. perm_random lcg_ops (to_int 5) 3 = Inr (p, g') \<and> perm_ok 5 p) \<and>
   perm_random lcg_ops (to_int 3000000000) 3 = Inl Length_Error"
  using random_is_permutation[of 5 lcg_ops 3] random_is_permutation[of 3000000000 lcg_ops 3] by simp

text \<open>C21: \<open>operator*\<close>, \<open>inverse\<close> and \<open>operator()\<close> of \<open>Permutation\<close> form a group acting on vectors: the
  product acts as the composition, the inverse undoes the action on either side, both are
  permutations again, and applying one permutation to the vector of another is the product with
  the inverse.\<close>

theorem permutation_group:
  assumes "perm_ok n p" "perm_ok n q" "length v = n"
  shows "perm_ok n (perm_mult p q) \<and> perm_ok n (perm_inverse p) \<and>
     perm_apply (perm_mult p q) v = perm_apply p (perm_apply q v) \<and>
     perm_apply (perm_inverse p) (perm_apply p v) = v \<and>
     perm_apply p (perm_apply (perm_inverse p) v) = v \<and>
     perm_mult p (perm_inverse p) = perm_iota n \<and> perm_mult (perm_inverse p) p = perm_iota n \<and>
     perm_apply p q = perm_mult q (perm_inverse p)"
  using assms by (simp add: perm_apply_mult perm_apply_inverse_left perm_apply_inverse_right
      perm_mult_inverse_left perm_mult_inverse_right perm_apply_as_mult)

lemma permutation_group_witness:
  "perm_apply (perm_mult [2, 0, 1] [1, 0, 2]) [7, 8, 9] =
     perm_apply [2, 0, 1] (perm_apply [1, 0, 2] [7, 8, 9 :: ring])"
  using permutation_group[of 3 "[2, 0, 1]" "[1, 0, 2]" "[7, 8, 9]"] by (simp add: perm_ok_def)

end
