(* ===== verification/Sharing.thy ===== *)
theory Sharing
  imports Perm_Vec
begin

text \<open>
  \<open>src/src/utils/sharing.cpp\<close>: two-party sharings of ring vectors. A secret is the sum of the
  two shares (arithmetic domain) or their exclusive or (binary domain). The locale
  \<open>share_domain\<close> states what the two domains have in common and proves the multiplication with
  a correlated triple once; it is interpreted for both.
\<close>

section \<open>Sharing and revealing\<close>

text \<open>
  Each of the loops calls the accessor of a generator once per element, and the accessor asserts
  the role of the server: the assertion fails if there is an element and the server has another role.
\<close>

definition asserted :: "bool \<Rightarrow> nat \<Rightarrow> 'a res \<Rightarrow> 'a res" where
  "asserted role n m = (if n = 0 \<or> role then m else Inl Assertion_Failed)"

text \<open>
  \<open>random_share_secret_vec_2P\<close> as one server runs it: the sender masks the secret with values
  of \<open>rng_01\<close>, the other server takes the same values as its share, the dealer gets zeros.
\<close>

definition random_share_secret_vec_2P ::
  "'g prg_ops \<Rightarrow> party \<Rightarrow> 'g rngs \<Rightarrow> vec \<Rightarrow> party \<Rightarrow> (vec \<times> 'g rngs) res" where
  "random_share_secret_vec_2P P me r secret_vec sender =
     (if me = D then Inr (replicate (length secret_vec) 0, r)
      else asserted (online_role r) (length secret_vec)
        (let (share, g) = draw_vec P (length secret_vec) (rng_01 r);
             r' = r\<lparr>rng_01 := g\<rparr>
         in Inr (if me = sender then vsub secret_vec share else share, r')))"

definition random_share_secret_vec_2P_bin ::
  "'g prg_ops \<Rightarrow> party \<Rightarrow> 'g rngs \<Rightarrow> vec \<Rightarrow> (vec \<times> 'g rngs) res" where
  "random_share_secret_vec_2P_bin P me r secret_vec =
     (case me of
        P0 \<Rightarrow> asserted (online_role r) (length secret_vec)
                (let (share, g) = draw_vec P (length secret_vec) (rng_01 r)
                 in Inr (vxor secret_vec share, r\<lparr>rng_01 := g\<rparr>))
      | P1 \<Rightarrow> asserted (online_role r) (length secret_vec)
                (let (share, g) = draw_vec P (length secret_vec) (rng_01 r)
                 in Inr (share, r\<lparr>rng_01 := g\<rparr>))
      | D \<Rightarrow> Inr (replicate (length secret_vec) 0, r))"

text \<open>
  \<open>random_share_vec_3P\<close>: each online server draws its share of a random value from the stream
  it has in common with the dealer; the dealer draws both and gets the value itself.
\<close>

definition random_share_vec_3P ::
  "'g prg_ops \<Rightarrow> party \<Rightarrow> 'g rngs \<Rightarrow> nat \<Rightarrow> bool \<Rightarrow> (vec \<times> 'g rngs) res" where
  "random_share_vec_3P P me r n binary =
     (if me = D then
        asserted (i_am_D r) n
          (let (share_1, g0) = draw_vec P n (rng_with_P0_prep r);
               (share_2, g1) = draw_vec P n (rng_with_P1_prep r)
           in Inr (if binary then vxor share_1 share_2 else vadd share_1 share_2,
                   r\<lparr>rng_with_P0_prep := g0, rng_with_P1_prep := g1\<rparr>))
      else
        asserted (online_role r) n
          (let (share, g) = draw_vec P n (rng_with_D_prep r)
           in Inr (share, r\<lparr>rng_with_D_prep := g\<rparr>)))"

text \<open>
  \<open>reveal_vec\<close> as one server runs it: \<open>share_other\<close> is what the partner sends. The dealer
  returns the zero vector it starts with.
\<close>

definition reveal_vec :: "party \<Rightarrow> vec \<Rightarrow> vec \<Rightarrow> vec" where
  "reveal_vec me share share_other =
     (case me of
        D \<Rightarrow> replicate (length share) 0
      | _ \<Rightarrow> map (\<lambda>i. share ! i + share_other ! i) [0..<length share])"

definition reveal_vec_bin :: "party \<Rightarrow> vec \<Rightarrow> vec \<Rightarrow> vec" where
  "reveal_vec_bin me share share_other =
     (case me of
        D \<Rightarrow> replicate (length share) 0
      | _ \<Rightarrow> map (\<lambda>i. share ! i XOR share_other ! i) [0..<length share])"

definition reveal_perm :: "party \<Rightarrow> permutation \<Rightarrow> permutation \<Rightarrow> permutation" where
  "reveal_perm me share share_other = reveal_vec me share share_other"

lemma reveal_vec_eq:
  "me \<noteq> D \<Longrightarrow> length other = length share \<Longrightarrow> reveal_vec me share other = vadd share other"
  by (cases me) (auto simp: reveal_vec_def intro: nth_equalityI)

lemma reveal_vec_bin_eq:
  "me \<noteq> D \<Longrightarrow> length other = length share \<Longrightarrow> reveal_vec_bin me share other = vxor share other"
  by (cases me) (auto simp: reveal_vec_bin_def intro: nth_equalityI)

section \<open>The two sharing domains\<close>

text \<open>
  A domain has an addition that reconstructs, a subtraction that undoes it, and a product that
  distributes over it. The servers of the protocol only ever use these operations on shares.
\<close>

locale share_domain =
  fixes add sub mul :: "'r \<Rightarrow> 'r \<Rightarrow> 'r" and zero :: 'r
  assumes add_assoc: "add (add a b) c = add a (add b c)"
    and add_comm: "add a b = add b a"
    and add_zero: "add zero a = a"
    and sub_add: "add (sub a b) b = a"
    and add_sub: "sub (add a b) b = a"
    and mul_comm: "mul a b = mul b a"
    and mul_add: "mul (add a b) c = add (mul a c) (mul b c)"
begin

lemma add_left_comm: "add a (add b c) = add b (add a c)"
  by (metis add_assoc add_comm)

lemma add_cancel: "add a b = add c b \<longleftrightarrow> a = c"
  by (metis add_sub)

lemma sub_eq_iff: "sub a b = c \<longleftrightarrow> a = add c b"
  by (metis sub_add add_sub)

lemma mul_add_right: "mul c (add a b) = add (mul c a) (mul c b)"
  by (metis mul_add mul_comm)

lemma sub_add_left: "add (sub a b) c = sub (add a c) b"
  by (metis add_assoc add_comm add_sub sub_add)

lemma share_reconstruct: "add (sub s r) r = s"
  by (rule sub_add)

text \<open>
  What one server computes from the opened masked factors \<open>xa\<close>, \<open>yb\<close> and its share
  \<open>(a, b, c)\<close> of the triple; \<open>pub\<close> is the public product, which one server adds and the
  other leaves out.
\<close>

definition local_product :: "'r \<Rightarrow> 'r \<Rightarrow> 'r \<Rightarrow> 'r \<Rightarrow> 'r \<Rightarrow> 'r \<Rightarrow> 'r" where
  "local_product pub xa yb a b c = add (sub (sub pub (mul xa b)) (mul yb a)) c"

lemma triple_product:
  assumes "add c0 c1 = mul (add a0 a1) (add b0 b1)"
    and xa: "xa = add (add x0 a0) (add x1 a1)" and yb: "yb = add (add y0 b0) (add y1 b1)"
  shows "add (local_product zero xa yb a0 b0 c0) (local_product (mul xa yb) xa yb a1 b1 c1)
         = mul (add x0 x1) (add y0 y1)"
proof -
  define x where "x = add x0 x1"
  define y where "y = add y0 y1"
  define a where "a = add a0 a1"
  define b where "b = add b0 b1"
  have xa': "xa = add x a" and yb': "yb = add y b"
    unfolding xa yb x_def y_def a_def b_def by (simp_all add: add_assoc add_left_comm)
  let ?z0 = "local_product zero xa yb a0 b0 c0"
  let ?z1 = "local_product (mul xa yb) xa yb a1 b1 c1"
  have 0: "add (add ?z0 (mul yb a0)) (mul xa b0) = c0"
    unfolding local_product_def by (metis add_assoc add_comm add_zero sub_add)
  have 1: "add (add ?z1 (mul yb a1)) (mul xa b1) = add (mul xa yb) c1"
    unfolding local_product_def by (metis add_assoc add_comm sub_add)
  have "add (add (add ?z0 ?z1) (mul yb a)) (mul xa b) = add (mul xa yb) (add c0 c1)"
    using arg_cong2[OF 0 1, of add] unfolding a_def b_def
    by (simp add: mul_add_right add_assoc add_left_comm add_comm)
  also have "\<dots> = add (mul xa yb) (mul a b)"
    unfolding assms(1) a_def b_def ..
  also have "\<dots> = add (add (mul x y) (mul yb a)) (mul xa b)"
    unfolding xa' yb' by (simp add: mul_add mul_add_right mul_comm add_assoc add_left_comm add_comm)
  finally show ?thesis
    unfolding x_def y_def using add_cancel by blast
qed

end

interpretation arith: share_domain "(+)" "(-)" "(*)" "0 :: ring"
  by unfold_locales (simp_all add: algebra_simps)

interpretation bin: share_domain "(XOR)" "(XOR)" "(AND)" "0 :: ring"
proof
  fix a b c :: ring
  show "(a XOR b) AND c = (a AND c) XOR (b AND c)"
    by (rule bit_word_eqI) (auto simp: bit_simps)
qed (simp_all add: ac_simps)

section \<open>Reconstruction\<close>

lemma share_2P_runs:
  "me \<noteq> D \<Longrightarrow> online_role r \<Longrightarrow> random_share_secret_vec_2P P me r v sender =
     Inr (let m = fst (draw_vec P (length v) (rng_01 r)) in if me = sender then vsub v m else m,
          r\<lparr>rng_01 := snd (draw_vec P (length v) (rng_01 r))\<rparr>)"
  by (simp add: random_share_secret_vec_2P_def asserted_def Let_def split_beta)

lemma share_2P_bin_runs:
  "me \<noteq> D \<Longrightarrow> online_role r \<Longrightarrow> random_share_secret_vec_2P_bin P me r v =
     Inr (let m = fst (draw_vec P (length v) (rng_01 r)) in if me = P0 then vxor v m else m,
          r\<lparr>rng_01 := snd (draw_vec P (length v) (rng_01 r))\<rparr>)"
  by (cases me) (simp_all add: random_share_secret_vec_2P_bin_def asserted_def Let_def split_beta)

lemma share_3P_runs:
  "me \<noteq> D \<Longrightarrow> online_role r \<Longrightarrow> random_share_vec_3P P me r n binary =
     Inr (fst (draw_vec P n (rng_with_D_prep r)),
          r\<lparr>rng_with_D_prep := snd (draw_vec P n (rng_with_D_prep r))\<rparr>)"
  "i_am_D r \<Longrightarrow> random_share_vec_3P P D r n binary =
     Inr ((if binary then vxor else vadd) (fst (draw_vec P n (rng_with_P0_prep r)))
            (fst (draw_vec P n (rng_with_P1_prep r))),
          r\<lparr>rng_with_P0_prep := snd (draw_vec P n (rng_with_P0_prep r)),
            rng_with_P1_prep := snd (draw_vec P n (rng_with_P1_prep r))\<rparr>)"
  by (simp_all add: random_share_vec_3P_def asserted_def Let_def split_beta)

section \<open>Properties\<close>

text \<open>C22: Two online servers whose common stream is in the same state share a vector of one of them:
  neither fails, the shares add up to the sender's vector whatever the other server passes, and the
  streams agree again afterwards, so that the next sharing works as well; in the binary domain, where
  \<open>P0\<close> is the sender, their exclusive or is its vector. A server that has no role yet stops at the
  assertion of the generator's accessor.\<close>

theorem shares_2P_add_up:
  assumes "rng_01 r0 = rng_01 r1" "online_role r0" "online_role r1" "sender \<noteq> D" "length s0 = length s1"
    "fresh_flags r" "s0 \<noteq> []"
  shows "\<exists>v0 v1 w0 w1 r0' r1'.
     random_share_secret_vec_2P P P0 r0 s0 sender = Inr (v0, r0') \<and>
     random_share_secret_vec_2P P P1 r1 s1 sender = Inr (v1, r1') \<and>
     vadd v0 v1 = (if sender = P0 then s0 else s1) \<and>
     random_share_secret_vec_2P_bin P P0 r0 s0 = Inr (w0, r0') \<and>
     random_share_secret_vec_2P_bin P P1 r1 s1 = Inr (w1, r1') \<and> vxor w0 w1 = s0 \<and>
     rng_01 r0' = rng_01 r1' \<and> online_role r0' \<and> online_role r1' \<and>
     random_share_secret_vec_2P P P0 r s0 sender = Inl Assertion_Failed \<and>
     random_share_secret_vec_2P_bin P P1 r s0 = Inl Assertion_Failed"
proof -
  let ?m = "fst (draw_vec P (length s1) (rng_01 r1))"
  have l: "length ?m = length s1" by simp
  have m: "vadd (vsub s0 ?m) ?m = s0" "vadd ?m (vsub s1 ?m) = s1" "vxor (vxor s0 ?m) ?m = s0"
    using l assms(5) by (auto intro!: nth_equalityI simp: xor.assoc)
  have r: "random_share_secret_vec_2P P P0 r s0 sender = Inl Assertion_Failed"
    "random_share_secret_vec_2P_bin P P1 r s0 = Inl Assertion_Failed"
    using assms(6,7) by (simp_all add: random_share_secret_vec_2P_def random_share_secret_vec_2P_bin_def
        asserted_def fresh_flags_def online_role_def)
  have role: "online_role (x\<lparr>rng_01 := g\<rparr>) = online_role x" for x :: "'a rngs" and g
    by (simp add: online_role_def)
  show ?thesis
    using m r assms(1-5) by (cases sender) (simp_all add: share_2P_runs share_2P_bin_runs role Let_def)
qed

lemma shares_2P_add_up_witness:
  "\<exists>v0 v1 r0' r1'.
     random_share_secret_vec_2P lcg_ops P0 ((lcg_rngs 1)\<lparr>i_am_P0 := True\<rparr>) [5, 6] P0 = Inr (v0, r0') \<and>
     random_share_secret_vec_2P lcg_ops P1 ((lcg_rngs 2)\<lparr>i_am_P1 := True\<rparr>) [0, 0] P0 = Inr (v1, r1') \<and>
     vadd v0 v1 = [5, 6]"
  using shares_2P_add_up[of "(lcg_rngs 1)\<lparr>i_am_P0 := True\<rparr>" "(lcg_rngs 2)\<lparr>i_am_P1 := True\<rparr>" P0
      "[5, 6]" "[0, 0]" "lcg_rngs 3" lcg_ops]
  by (auto simp: lcg_rngs_def online_role_def fresh_flags_def)

text \<open>C23: Random factors of a triple, in either domain: servers in their roles obtain them without
  failing, the dealer's vector is the sum (or exclusive or) of exactly the vectors the online servers
  draw, and all streams stay in step. On generators without a role the draws stop at an assertion.\<close>

theorem dealer_knows_factors:
  assumes "synced0 d r0" "synced1 d r1" "i_am_D d" "online_role r0" "online_role r1" "fresh_flags r" "0 < n"
  shows "\<exists>v v0 v1 d' r0' r1'. random_share_vec_3P P D d n binary = Inr (v, d') \<and>
     random_share_vec_3P P P0 r0 n binary = Inr (v0, r0') \<and>
     random_share_vec_3P P P1 r1 n binary = Inr (v1, r1') \<and>
     v = (if binary then vxor else vadd) v0 v1 \<and> synced0 d' r0' \<and> synced1 d' r1' \<and>
     random_share_vec_3P P me r n binary = Inl Assertion_Failed"
  using assms
  by (simp add: share_3P_runs synced0_def synced1_def)
    (simp add: random_share_vec_3P_def asserted_def fresh_flags_def online_role_def)

lemma dealer_knows_factors_witness:
  "\<exists>v v0 v1 d' r0' r1'.
     random_share_vec_3P lcg_ops D ((lcg_rngs 1)\<lparr>i_am_D := True\<rparr>) 3 False = Inr (v, d') \<and>
     random_share_vec_3P lcg_ops P0 ((lcg_rngs 2)\<lparr>i_am_P0 := True\<rparr>) 3 False = Inr (v0, r0') \<and>
     random_share_vec_3P lcg_ops P1 ((lcg_rngs 3)\<lparr>i_am_P1 := True\<rparr>) 3 False = Inr (v1, r1') \<and> v = vadd v0 v1"
proof -
  have "synced0 ((lcg_rngs 1)\<lparr>i_am_D := True\<rparr>) ((lcg_rngs 2)\<lparr>i_am_P0 := True\<rparr>)"
    "synced1 ((lcg_rngs 1)\<lparr>i_am_D := True\<rparr>) ((lcg_rngs 3)\<lparr>i_am_P1 := True\<rparr>)"
    "i_am_D ((lcg_rngs 1)\<lparr>i_am_D := True\<rparr>)" "online_role ((lcg_rngs 2)\<lparr>i_am_P0 := True\<rparr>)"
    "online_role ((lcg_rngs 3)\<lparr>i_am_P1 := True\<rparr>)" "fresh_flags (lcg_rngs 4)" "0 < (3 :: nat)"
    by (simp_all add: synced0_def synced1_def lcg_rngs_def online_role_def fresh_flags_def)
  from dealer_knows_factors[OF this, of lcg_ops False P0] show ?thesis by auto
qed

end
