(* ===== verification/Storage.thy ===== *)
theory Storage
  imports Circuit Buffers Sharing
begin

text \<open>
  \<open>src/src/core/storage.h\<close> and \<open>storage.cpp\<close>: what a server keeps between the preprocessing
  and the online phase. Permutations are indexed by shuffles, multiplication triples by
  multiplications; the values of the dealer arrive in one buffer that is read in order. Each of
  the two can live in memory or in files (\<open>ssd\<close>).
\<close>

section \<open>The object\<close>

record 'g storage =
  st_id :: party
  st_size :: nat
  st_ssd :: bool
  pi_0 :: "permutation list"
  pi_1 :: "permutation list"
  pi_0_p :: "permutation list"
  pi_1_p :: "permutation list"
  preprocessed :: "bool list"
  preproc :: "vec list"
  st_B :: "vec list"
  preproc_disk :: "file_writer list"
  B_disk :: "file_writer list"
  read_idx :: nat
  triples_a :: "vec list"
  triples_b :: "vec list"
  triples_c :: "vec list"
  triples_disk :: "file_writer list"
  random_generators :: "'g rngs"

text \<open>
  The constructor. The number of shuffle permutations and of multiplications comes from the
  circuit. Every vector starts empty, which for a permutation means that it is not known yet.
\<close>

definition new_storage :: "protocol_config \<Rightarrow> circuit \<Rightarrow> 'g rngs \<Rightarrow> 'g storage" where
  "new_storage conf ci r =
     (let me = conf_id conf; ssd = conf_ssd conf; k = shuffle_idx ci + 1; m = n_mults ci
      in \<lparr>st_id = me, st_size = conf_size conf, st_ssd = ssd,
          pi_0 = (if me = D \<or> me = P0 then replicate k [] else []),
          pi_1 = (if me = D \<or> me = P1 then replicate k [] else []),
          pi_0_p = (if me = P0 then replicate k [] else []),
          pi_1_p = (if me = P1 then replicate k [] else []),
          preprocessed = replicate k False,
          preproc = (if ssd then [] else replicate 2 []),
          st_B = (if \<not> ssd \<and> me = D then replicate 2 [] else []),
          preproc_disk = (if ssd then replicate (if me = P0 then 1 else 2) fw_new else []),
          B_disk = (if ssd \<and> me = D then replicate 2 fw_new else []),
          read_idx = 0,
          triples_a = (if ssd then [] else replicate m []),
          triples_b = (if ssd then [] else replicate m []),
          triples_c = (if ssd then [] else replicate m []),
          triples_disk = (if ssd then replicate m fw_new else []),
          random_generators = r\<rparr>)"

section \<open>The values of the dealer\<close>

text \<open>
  \<open>read_preproc\<close>. As in \<open>read_online\<close> the check compares the request with the whole buffer,
  not with what is left of it.
\<close>

definition read_preproc :: "nat \<Rightarrow> 'g storage \<Rightarrow> (vec \<times> 'g storage) res" where
  "read_preproc n_elems s =
     (let me = party_num (st_id s) in
      if st_ssd s then
        bindr (at_res (preproc_disk s) me) (\<lambda>f.
          let (data, f') = fw_read f (replicate n_elems 0) n_elems
          in Inr (data, s\<lparr>preproc_disk := (preproc_disk s)[me := f']\<rparr>))
      else
        bindr (at_res (preproc s) me) (\<lambda>buffer.
          if n_elems > length buffer
          then Inl (Invalid_Argument ''Cannot read more preproc values than available.'')
          else if read_idx s + n_elems > length buffer then Inl Out_Of_Bounds
          else let i = read_idx s + n_elems
               in Inr (take n_elems (drop (read_idx s) buffer),
                       s\<lparr>read_idx := (if i \<ge> length buffer then 0 else i)\<rparr>)))"

definition append_B :: "nat \<Rightarrow> vec \<Rightarrow> 'g storage \<Rightarrow> 'g storage" where
  "append_B d v s =
     (if st_ssd s then s\<lparr>B_disk := (B_disk s)[d := fw_write (B_disk s ! d) v]\<rparr>
      else s\<lparr>st_B := (st_B s)[d := st_B s ! d @ v]\<rparr>)"

definition store_B :: "party \<Rightarrow> vec \<Rightarrow> 'g storage \<Rightarrow> 'g storage res" where
  "store_B dst v s =
     (if party_num dst < (if st_ssd s then length (B_disk s) else length (st_B s))
      then Inr (append_B (party_num dst) v s) else Inl Out_Of_Bounds)"

definition append_preproc :: "nat \<Rightarrow> vec \<Rightarrow> 'g storage \<Rightarrow> 'g storage" where
  "append_preproc d v s =
     (if st_ssd s then s\<lparr>preproc_disk := (preproc_disk s)[d := fw_write (preproc_disk s ! d) v]\<rparr>
      else s\<lparr>preproc := (preproc s)[d := preproc s ! d @ v]\<rparr>)"

definition store_vec :: "party \<Rightarrow> vec \<Rightarrow> 'g storage \<Rightarrow> 'g storage res" where
  "store_vec dst v s =
     (if party_num dst < (if st_ssd s then length (preproc_disk s) else length (preproc s))
      then Inr (append_preproc (party_num dst) v s) else Inl Out_Of_Bounds)"

section \<open>Triples\<close>

definition store_triples ::
  "vec \<Rightarrow> vec \<Rightarrow> vec \<Rightarrow> nat \<Rightarrow> 'g storage \<Rightarrow> 'g storage res" where
  "store_triples a b c mul_idx s =
     (if st_ssd s then
        bindr (at_res (triples_disk s) mul_idx) (\<lambda>f.
          Inr (s\<lparr>triples_disk := (triples_disk s)[mul_idx := fw_write (fw_write (fw_write f a) b) c]\<rparr>))
      else
        bindr (put_res (triples_a s) mul_idx a) (\<lambda>ta.
        bindr (put_res (triples_b s) mul_idx b) (\<lambda>tb.
        bindr (put_res (triples_c s) mul_idx c) (\<lambda>tc.
          Inr (s\<lparr>triples_a := ta, triples_b := tb, triples_c := tc\<rparr>)))))"

text \<open>
  \<open>load_triples\<close> with an explicit triple size, and the overload that uses the size of the graph.
  The three buffers the callers pass are empty.
\<close>

definition load_triples_sized ::
  "nat \<Rightarrow> nat \<Rightarrow> 'g storage \<Rightarrow> ((vec \<times> vec \<times> vec) \<times> 'g storage) res" where
  "load_triples_sized mul_idx triple_size s =
     (if st_ssd s then
        bindr (at_res (triples_disk s) mul_idx) (\<lambda>f.
          let (a, f1) = fw_read f [] triple_size;
              (b, f2) = fw_read f1 [] triple_size;
              (c, f3) = fw_read f2 [] triple_size
          in Inr ((a, b, c), s\<lparr>triples_disk := (triples_disk s)[mul_idx := f3]\<rparr>))
      else
        bindr (at_res (triples_a s) mul_idx) (\<lambda>a.
        bindr (at_res (triples_b s) mul_idx) (\<lambda>b.
        bindr (at_res (triples_c s) mul_idx) (\<lambda>c.
          Inr ((a, b, c), s)))))"

definition load_triples ::
  "nat \<Rightarrow> 'g storage \<Rightarrow> ((vec \<times> vec \<times> vec) \<times> 'g storage) res" where
  "load_triples mul_idx s = load_triples_sized mul_idx (st_size s) s"

section \<open>Reset\<close>

text \<open>\<open>reset\<close>: the reading position of the in-memory buffer keeps its value.\<close>

definition clear_at :: "(nat \<Rightarrow> bool) \<Rightarrow> ('a \<Rightarrow> 'a) \<Rightarrow> 'a list \<Rightarrow> 'a list" where
  "clear_at sel f xs = map (\<lambda>i. if sel i then f (xs ! i) else xs ! i) [0..<length xs]"

definition storage_reset :: "'g storage \<Rightarrow> 'g storage" where
  "storage_reset s =
     (let me = st_id s;
          sel = (\<lambda>i. me = D \<or> i = party_num me);
          s1 = (if st_ssd s then
                  s\<lparr>triples_disk := map fw_reset (triples_disk s),
                    preproc_disk := clear_at sel fw_reset (preproc_disk s),
                    B_disk := (if me = D then map fw_reset (B_disk s) else B_disk s)\<rparr>
                else
                  s\<lparr>preproc := clear_at sel (\<lambda>_. []) (preproc s),
                    st_B := (if me = D then map (\<lambda>_. []) (st_B s) else st_B s)\<rparr>)
      in s1\<lparr>pi_0 := map (\<lambda>_. []) (pi_0 s), pi_1 := map (\<lambda>_. []) (pi_1 s),
            pi_0_p := map (\<lambda>_. []) (pi_0_p s), pi_1_p := map (\<lambda>_. []) (pi_1_p s),
            preprocessed := map (\<lambda>_. False) (preprocessed s),
            random_generators := rngs_reset (random_generators s)\<rparr>)"

section \<open>The buffer of the dealer's values is a sequential buffer\<close>

definition pre_ok :: "'g storage \<Rightarrow> bool" where
  "pre_ok s \<longleftrightarrow> (if st_ssd s then party_num (st_id s) < length (preproc_disk s) \<and>
                                  fw_ok (preproc_disk s ! party_num (st_id s))
                else party_num (st_id s) < length (preproc s) \<and>
                     read_idx s \<le> length (preproc s ! party_num (st_id s)))"

definition pre_data :: "'g storage \<Rightarrow> vec" where
  "pre_data s = (if st_ssd s then fw_content (preproc_disk s ! party_num (st_id s))
                 else preproc s ! party_num (st_id s))"

definition pre_pos :: "'g storage \<Rightarrow> nat" where
  "pre_pos s = (if st_ssd s then fw_read_idx (preproc_disk s ! party_num (st_id s)) else read_idx s)"

definition pre_put :: "'g storage \<Rightarrow> vec \<Rightarrow> 'g storage" where
  "pre_put s v = append_preproc (party_num (st_id s)) v s"

lemmas pre_defs = pre_ok_def pre_data_def pre_pos_def

lemma read_preproc_inside:
  assumes "pre_ok s" "pre_pos s + n \<le> length (pre_data s)"
  shows "\<exists>s'. read_preproc n s = Inr (take n (drop (pre_pos s) (pre_data s)), s') \<and>
     pre_ok s' \<and> pre_data s' = pre_data s \<and>
     pre_pos s' = (if pre_pos s + n \<ge> length (pre_data s) then 0 else pre_pos s + n) \<and>
     s' = s\<lparr>preproc_disk := preproc_disk s', read_idx := read_idx s'\<rparr>"
proof (cases "st_ssd s")
  case True
  define f where "f = preproc_disk s ! party_num (st_id s)"
  have ok: "fw_ok f" and n: "fw_read_idx f + n \<le> length (fw_content f)"
    using assms True by (auto simp: pre_defs f_def)
  define f' where "f' = f\<lparr>fw_read_idx := (if fw_read_idx f + n \<ge> length (fw_content f) then 0
                                         else fw_read_idx f + n)\<rparr>"
  define s' where "s' = s\<lparr>preproc_disk := (preproc_disk s)[party_num (st_id s) := f']\<rparr>"
  have i: "party_num (st_id s) < length (preproc_disk s)"
    using assms(1) True by (simp add: pre_ok_def)
  have rd: "fw_read f (replicate n 0) n = (take n (drop (fw_read_idx f) (fw_content f)), f')"
    using fw_read_inside[OF ok n, of "replicate n 0"] by (simp add: f'_def)
  have "read_preproc n s = Inr (take n (drop (pre_pos s) (pre_data s)), s')"
    using True i rd by (simp add: read_preproc_def pre_defs s'_def f_def Let_def)
  moreover have "pre_ok s' \<and> pre_data s' = pre_data s \<and>
     pre_pos s' = (if pre_pos s + n \<ge> length (pre_data s) then 0 else pre_pos s + n)"
    using True i ok n unfolding s'_def pre_defs f_def[symmetric]
    by (auto simp: f'_def fw_ok_def)
  moreover have "s' = s\<lparr>preproc_disk := preproc_disk s', read_idx := read_idx s'\<rparr>"
    by (simp add: s'_def)
  ultimately show ?thesis by blast
next
  case False
  have p: "pre_data s = preproc s ! party_num (st_id s)" "pre_pos s = read_idx s"
    "party_num (st_id s) < length (preproc s)"
    using False assms(1) by (simp_all add: pre_defs)
  define i where "i = (if read_idx s + n \<ge> length (pre_data s) then 0 else read_idx s + n)"
  have "read_preproc n s = Inr (take n (drop (pre_pos s) (pre_data s)), s\<lparr>read_idx := i\<rparr>)"
    using False assms(2) p unfolding i_def by (simp add: read_preproc_def Let_def)
  moreover have "pre_ok (s\<lparr>read_idx := i\<rparr>)" "pre_data (s\<lparr>read_idx := i\<rparr>) = pre_data s"
    "pre_pos (s\<lparr>read_idx := i\<rparr>) = i"
    using False p unfolding i_def by (simp_all add: pre_defs)
  moreover have "s\<lparr>read_idx := i\<rparr> =
     s\<lparr>preproc_disk := preproc_disk (s\<lparr>read_idx := i\<rparr>), read_idx := read_idx (s\<lparr>read_idx := i\<rparr>)\<rparr>"
    by simp
  ultimately show ?thesis unfolding i_def p(2) by blast
qed

interpretation pre_buf: seq_buffer pre_ok pre_data pre_pos pre_put "\<lambda>s n. read_preproc n s"
proof
  fix s :: "'g storage" and n
  assume "pre_ok s" "pre_pos s + n \<le> length (pre_data s)"
  from read_preproc_inside[OF this]
  show "\<exists>s'. read_preproc n s = Inr (take n (drop (pre_pos s) (pre_data s)), s') \<and>
          pre_ok s' \<and> pre_data s' = pre_data s \<and>
          pre_pos s' = (if length (pre_data s) \<le> pre_pos s + n then 0 else pre_pos s + n)"
    by blast
qed (auto simp: pre_defs pre_put_def append_preproc_def fw_write_def fw_ok_def)

section \<open>Triples come back\<close>

definition triple_slot :: "nat \<Rightarrow> 'g storage \<Rightarrow> bool" where
  "triple_slot i s \<longleftrightarrow>
     (if st_ssd s then i < length (triples_disk s) \<and> fw_ok (triples_disk s ! i) \<and>
                       fw_content (triples_disk s ! i) = []
      else i < length (triples_a s) \<and> i < length (triples_b s) \<and> i < length (triples_c s))"

text \<open>
  What a slot holds after \<open>store_triples\<close>: the three vectors in memory, or their concatenation in
  a file that is read from the start.
\<close>

definition triple_at :: "nat \<Rightarrow> vec \<Rightarrow> vec \<Rightarrow> vec \<Rightarrow> 'g storage \<Rightarrow> bool" where
  "triple_at i a b c s \<longleftrightarrow>
     (if st_ssd s then i < length (triples_disk s) \<and> fw_ok (triples_disk s ! i) \<and>
                       fw_content (triples_disk s ! i) = a @ b @ c \<and>
                       fw_read_idx (triples_disk s ! i) = 0
      else i < length (triples_a s) \<and> i < length (triples_b s) \<and> i < length (triples_c s) \<and>
           triples_a s ! i = a \<and> triples_b s ! i = b \<and> triples_c s ! i = c)"

lemma fw_append_read_idx: "fw_ok f \<Longrightarrow> fw_content f = [] \<Longrightarrow> fw_read_idx f = 0"
  by (simp add: fw_ok_def)

lemma store_triples_at:
  assumes "triple_slot i s"
  shows "\<exists>s'. store_triples a b c i s = Inr s' \<and> triple_at i a b c s' \<and>
     s' = s\<lparr>triples_disk := triples_disk s', triples_a := triples_a s',
            triples_b := triples_b s', triples_c := triples_c s'\<rparr>"
proof (cases "st_ssd s")
  case True
  then show ?thesis
    using assms by (simp add: store_triples_def triple_slot_def triple_at_def fw_append_read_idx)
      (simp add: fw_write_def fw_append_read_idx)
next
  case False
  then show ?thesis
    using assms by (simp add: store_triples_def triple_slot_def triple_at_def)
qed

text \<open>
  A triple can be loaded any number of times: the third read reaches the end of the file and
  starts over, so that loading leaves the storage as it was.
\<close>

lemma fw_read_triple:
  assumes "fw_ok f" "fw_content f = a @ b @ c" "fw_read_idx f = 0"
    "length a = n" "length b = n" "length c = n"
  shows "\<exists>f1 f2. fw_read f [] n = (a, f1) \<and> fw_read f1 [] n = (b, f2) \<and> fw_read f2 [] n = (c, f)"
proof (cases "n = 0")
  case True
  then show ?thesis using assms by (simp add: fw_read_def)
next
  case False
  have sz: "fw_size f = 3 * n" using assms by (simp add: fw_ok_def)
  have 1: "fw_read f [] n = (a, f\<lparr>fw_read_idx := n\<rparr>)"
    using fw_read_inside[OF assms(1), of n "[]"] assms False by simp
  have 2: "fw_read (f\<lparr>fw_read_idx := n\<rparr>) [] n = (b, f\<lparr>fw_read_idx := 2 * n\<rparr>)"
    using fw_read_inside[of "f\<lparr>fw_read_idx := n\<rparr>" n "[]"] assms False sz
    by (simp add: fw_ok_def)
  have 3: "fw_read (f\<lparr>fw_read_idx := 2 * n\<rparr>) [] n = (c, f\<lparr>fw_read_idx := 0\<rparr>)"
    using fw_read_inside[of "f\<lparr>fw_read_idx := 2 * n\<rparr>" n "[]"] assms False sz
    by (simp add: fw_ok_def)
  show ?thesis using 1 2 3 assms(3) by (metis (full_types) file_writer.surjective file_writer.update_convs(2))
qed

lemma load_triple_at:
  assumes "triple_at i a b c s" "length a = n" "length b = n" "length c = n"
  shows "load_triples_sized i n s = Inr ((a, b, c), s)"
proof (cases "st_ssd s")
  case True
  define f where "f = triples_disk s ! i"
  have f: "i < length (triples_disk s)" "fw_ok f" "fw_content f = a @ b @ c" "fw_read_idx f = 0"
    using assms(1) True by (simp_all add: triple_at_def f_def)
  obtain f1 f2 where "fw_read f [] n = (a, f1)" "fw_read f1 [] n = (b, f2)" "fw_read f2 [] n = (c, f)"
    using fw_read_triple[OF f(2-4) assms(2-4)] by blast
  then show ?thesis using True f(1) by (simp add: load_triples_sized_def f_def)
next
  case False
  then show ?thesis using assms(1) by (simp add: load_triples_sized_def triple_at_def)
qed

section \<open>Properties\<close>

text \<open>C17: A triple that has been stored is loaded again unchanged, from memory and from a file alike, and
  loading leaves the storage as it was, so that the two phases of a gate can both load it.\<close>

theorem triple_roundtrip:
  assumes "triple_slot i s" "length a = n" "length b = n" "length c = n"
  shows "\<exists>s'. store_triples a b c i s = Inr s' \<and> load_triples_sized i n s' = Inr ((a, b, c), s')"
  using store_triples_at[OF assms(1), of a b c] load_triple_at[OF _ assms(2-4)] by blast

definition tiny_storage :: "party \<Rightarrow> bool \<Rightarrow> 64 word storage" where
  "tiny_storage me ssd = new_storage (tiny_conf me ssd) ((tiny_circuit 1)\<lparr>n_mults := 2\<rparr>) (lcg_rngs 1)"

lemma triple_roundtrip_witness:
  "\<exists>s'. store_triples [1, 2] [3, 4] [5, 6] 1 (tiny_storage P1 True) = Inr s' \<and>
     load_triples_sized 1 2 s' = Inr (([1, 2], [3, 4], [5, 6]), s')"
proof -
  have "triple_slot 1 (tiny_storage P1 True)"
    by (simp add: tiny_storage_def new_storage_def tiny_conf_def triple_slot_def Let_def fw_ok_def fw_new_def)
  then show ?thesis using triple_roundtrip[of 1 _ "[1, 2]" 2 "[3, 4]" "[5, 6]"] by simp
qed

text \<open>C18: The preprocessing buffer of an online server is a queue: the vectors appended to it, in memory or
  in the server's file, are read back one after the other, and it then starts over.\<close>

theorem preproc_roundtrip:
  assumes "pre_ok s" "pre_data s = []" "pre_pos s = 0" "vs \<noteq> []" "\<forall>v \<in> set vs. v \<noteq> []"
  shows "\<exists>s'. pre_buf.get_all (pre_buf.put_all s vs) (map length vs) = Inr (vs, s') \<and>
     pre_data s' = concat vs \<and> pre_pos s' = 0"
  using pre_buf.put_get_roundtrip[OF assms] by blast

lemma preproc_roundtrip_witness:
  "\<exists>s'. pre_buf.get_all (pre_buf.put_all (tiny_storage P0 True) [[4, 5], [6]]) (map length [[4, 5], [6 :: ring]]) =
     Inr ([[4, 5], [6]], s') \<and> pre_data s' = [4, 5, 6] \<and> pre_pos s' = 0"
proof -
  have "pre_ok (tiny_storage P0 True) \<and> pre_data (tiny_storage P0 True) = [] \<and>
      pre_pos (tiny_storage P0 True) = 0"
    by (simp add: tiny_storage_def new_storage_def tiny_conf_def pre_defs Let_def fw_ok_def fw_new_def)
  then show ?thesis
    using preproc_roundtrip[of "tiny_storage P0 True" "[[4, 5], [6]]"] by (simp del: list.map)
qed

end
