(* ===== verification/Network.thy ===== *)
theory Network
  imports Buffers
begin

text \<open>
  \<open>src/src/core/io/netmp.h\<close>: how vectors travel between servers and clients, which channel a
  pair of endpoints uses, and which slice of the result a client gets. The TLS connections are
  library code; a channel is the reliable stream of ring elements they promise, held as the list
  of elements sent and not yet received.
\<close>

section \<open>Sending and receiving vectors in blocks\<close>

definition net_recv :: "nat \<Rightarrow> vec \<Rightarrow> (vec \<times> vec) res" where
  "net_recv len chan =
     (if length chan < len then Inl Would_Block else Inr (take len chan, drop len chan))"

definition send_vec :: "nat \<Rightarrow> vec \<Rightarrow> nat \<Rightarrow> vec \<Rightarrow> vec res" where
  "send_vec block_size data n_elems chan =
     (if block_size = 0 then Inl Division_By_Zero
      else
        let n_msgs = n_elems div block_size;
            last_msg_size = n_elems mod block_size;
            chan' = for_to n_msgs (\<lambda>i c. c @ take block_size (drop (i * block_size) data)) chan
        in Inr (if last_msg_size > 0
                then chan' @ take last_msg_size (drop (n_msgs * block_size) data) else chan'))"

text \<open>
  The receiver writes each block to its place in the buffer. The loop carries the buffer filled
  so far and the channel.
\<close>

definition recv_block :: "nat \<Rightarrow> vec \<times> vec \<Rightarrow> (vec \<times> vec) res" where
  "recv_block len s =
     bindr (net_recv len (snd s)) (\<lambda>(msg, chan'). Inr (fst s @ msg, chan'))"

definition recv_vec :: "nat \<Rightarrow> nat \<Rightarrow> vec \<Rightarrow> (vec \<times> vec) res" where
  "recv_vec block_size n_elems chan =
     (if block_size = 0 then Inl Division_By_Zero
      else
        let n_msgs = n_elems div block_size;
            last_msg_size = n_elems mod block_size
        in bindr (foldr_res (\<lambda>s _. recv_block block_size s) ([], chan) [0..<n_msgs])
             (\<lambda>s. if last_msg_size > 0 then recv_block last_msg_size s else Inr s))"

text \<open>The variant that writes the blocks to a file.\<close>

definition recv_disk_block :: "nat \<Rightarrow> file_writer \<times> vec \<Rightarrow> (file_writer \<times> vec) res" where
  "recv_disk_block len s =
     bindr (net_recv len (snd s)) (\<lambda>(msg, chan'). Inr (fw_write (fst s) msg, chan'))"

definition recv_vec_disk :: "nat \<Rightarrow> file_writer \<Rightarrow> nat \<Rightarrow> vec \<Rightarrow> (file_writer \<times> vec) res" where
  "recv_vec_disk block_size disk n_elems chan =
     (if block_size = 0 then Inl Division_By_Zero
      else
        let n_msgs = n_elems div block_size;
            last_msg_size = n_elems mod block_size
        in bindr (foldr_res (\<lambda>s _. recv_disk_block block_size s) (disk, chan) [0..<n_msgs])
             (\<lambda>s. if last_msg_size > 0 then recv_disk_block last_msg_size s else Inr s))"

lemma send_blocks:
  "for_to m (\<lambda>i c. c @ take b (drop (i * b) data)) chan = chan @ take (m * b) data"
proof (induction m)
  case (Suc m)
  have "take (m * b) data @ take b (drop (m * b) data) = take (m * b + b) data"
    by (simp add: take_add)
  then show ?case using Suc by (simp add: add.commute)
qed simp

lemma send_vec_stream:
  assumes "0 < b" "n \<le> length data"
  shows "send_vec b data n chan = Inr (chan @ take n data)"
proof -
  have "take (n div b * b) data @ take (n mod b) (drop (n div b * b) data) = take n data"
    by (metis add.commute mod_div_mult_eq take_add)
  then show ?thesis
    using assms by (auto simp: send_vec_def send_blocks Let_def)
qed

lemma take_block: "take (m * b) xs @ take b (drop (m * b) xs) = take (b + m * b) xs"
  by (metis add.commute take_add)

lemma recv_blocks:
  assumes "m * b \<le> length chan"
  shows "foldr_res (\<lambda>s _. recv_block b s) (buf, chan) [0..<m] =
         Inr (buf @ take (m * b) chan, drop (m * b) chan)"
  using assms
proof (induction m)
  case (Suc m)
  then have "m * b \<le> length chan" "b \<le> length (drop (m * b) chan)" by auto
  with Suc show ?case
    by (simp add: foldr_res_append recv_block_def net_recv_def take_block)
qed simp

lemma recv_vec_stream:
  assumes "0 < b" "n \<le> length chan"
  shows "recv_vec b n chan = Inr (take n chan, drop n chan)"
proof -
  have le: "n div b * b \<le> length chan" using assms(2) div_times_less_eq_dividend le_trans by blast
  have split: "n div b * b + n mod b = n" by simp
  have "n mod b \<le> length (drop (n div b * b) chan)" using assms(2) split by (simp add: minus_div_mult_eq_mod[symmetric])
  then show ?thesis
    using assms(1) recv_blocks[OF le, of "[]"] split
    by (auto simp: recv_vec_def recv_block_def net_recv_def Let_def take_add[symmetric])
qed

lemma recv_disk_blocks:
  assumes "m * b \<le> length chan"
  shows "\<exists>d. foldr_res (\<lambda>s _. recv_disk_block b s) (disk, chan) [0..<m] = Inr (d, drop (m * b) chan)
           \<and> fw_content d = fw_content disk @ take (m * b) chan
           \<and> fw_size d = fw_size disk + m * b \<and> fw_read_idx d = fw_read_idx disk"
  using assms
proof (induction m)
  case (Suc m)
  then have "m * b \<le> length chan" and b: "b \<le> length (drop (m * b) chan)" by auto
  then obtain d where d: "foldr_res (\<lambda>s _. recv_disk_block b s) (disk, chan) [0..<m] =
      Inr (d, drop (m * b) chan)"
    "fw_content d = fw_content disk @ take (m * b) chan" "fw_size d = fw_size disk + m * b"
    "fw_read_idx d = fw_read_idx disk"
    using Suc.IH by blast
  then show ?case using b
    by (simp add: foldr_res_append recv_disk_block_def net_recv_def fw_write_def take_block)
qed simp

lemma recv_vec_disk_stream:
  assumes "0 < b" "n \<le> length chan"
  shows "\<exists>d. recv_vec_disk b disk n chan = Inr (d, drop n chan)
           \<and> fw_content d = fw_content disk @ take n chan
           \<and> fw_size d = fw_size disk + n \<and> fw_read_idx d = fw_read_idx disk"
proof -
  have le: "n div b * b \<le> length chan" using assms(2) div_times_less_eq_dividend le_trans by blast
  have split: "n div b * b + n mod b = n" by simp
  have r: "n mod b \<le> length (drop (n div b * b) chan)"
    using assms(2) split by (simp add: minus_div_mult_eq_mod[symmetric])
  from recv_disk_blocks[OF le, of disk] obtain d where
    d: "foldr_res (\<lambda>s _. recv_disk_block b s) (disk, chan) [0..<n div b] =
          Inr (d, drop (n div b * b) chan)"
    "fw_content d = fw_content disk @ take (n div b * b) chan"
    "fw_size d = fw_size disk + n div b * b" "fw_read_idx d = fw_read_idx disk" by blast
  show ?thesis
  proof (cases "n mod b = 0")
    case True
    then have "n div b * b = n" using split by simp
    then show ?thesis using d True assms(1) by (simp add: recv_vec_disk_def)
  next
    case False
    then show ?thesis using d assms(1) split r
      by (simp add: recv_vec_disk_def recv_disk_block_def net_recv_def fw_write_def
          take_add[symmetric])
  qed
qed

section \<open>Which channel two endpoints use\<close>

text \<open>
  Every pair \<open>i < j\<close> of the \<open>n_total\<close> endpoints opens two connections: \<open>ios\<close>, for which \<open>i\<close>
  connects to a port on which \<open>j\<close> listens, and \<open>ios2\<close> on the next port, the other way round.
\<close>

definition ios_port :: "nat \<Rightarrow> nat \<Rightarrow> nat \<Rightarrow> nat \<Rightarrow> nat" where
  "ios_port port n_total a b = port + 2 * (min a b * n_total + max a b)"

definition ios2_port :: "nat \<Rightarrow> nat \<Rightarrow> nat \<Rightarrow> nat \<Rightarrow> nat" where
  "ios2_port port n_total a b = port + 2 * (min a b * n_total + max a b) + 1"

text \<open>\<open>getSendChannel\<close> and \<open>send\<close>; \<open>getRecvChannel\<close> and \<open>recv\<close>: the port of the connection.\<close>

definition send_channel :: "nat \<Rightarrow> nat \<Rightarrow> nat \<Rightarrow> nat \<Rightarrow> nat" where
  "send_channel port n_total party dst =
     (if party < dst then ios_port port n_total party dst else ios2_port port n_total party dst)"

definition recv_channel :: "nat \<Rightarrow> nat \<Rightarrow> nat \<Rightarrow> nat \<Rightarrow> nat" where
  "recv_channel port n_total party src =
     (if src < party then ios_port port n_total party src else ios2_port port n_total party src)"

lemma send_recv_channel:
  "a \<noteq> b \<Longrightarrow> send_channel port n a b = recv_channel port n b a"
  by (auto simp: send_channel_def recv_channel_def ios_port_def ios2_port_def min_def max_def)

lemma pair_code_inj:
  fixes a b c d n :: nat
  assumes "b < n" "d < n" "a * n + b = c * n + d"
  shows "a = c \<and> b = d"
proof -
  have "a = (a * n + b) div n" "c = (c * n + d) div n" using assms(1,2) by auto
  then have "a = c" using assms(3) by simp
  then show ?thesis using assms(3) by simp
qed

lemma send_channel_inj:
  assumes "a < n" "b < n" "c < n" "d < n" "a \<noteq> b" "c \<noteq> d"
    "send_channel port n a b = send_channel port n c d"
  shows "a = c \<and> b = d"
proof -
  have parity: "a < b \<longleftrightarrow> c < d"
    using assms(7) unfolding send_channel_def ios_port_def ios2_port_def by (auto split: if_splits) presburger+
  have "min a b * n + max a b = min c d * n + max c d"
    using assms(7) parity unfolding send_channel_def ios_port_def ios2_port_def
    by (auto split: if_splits)
  then have "min a b = min c d \<and> max a b = max c d"
    using assms(1-4) by (intro pair_code_inj[of _ n]) auto
  then show ?thesis using parity assms(5,6) by (auto simp: min_def max_def split: if_splits)
qed

section \<open>The slices of the clients\<close>

text \<open>
  \<open>start_idx\<close> is sized by the number of clients, \<open>end_idx\<close> by the number of servers.
\<close>

record net_slices =
  start_idx :: "nat list"
  end_idx :: "nat list"

definition net_init :: "nat \<Rightarrow> nat \<Rightarrow> net_slices" where
  "net_init n_parties n_clients =
     \<lparr>start_idx = replicate n_clients 0, end_idx = replicate n_parties 0\<rparr>"

text \<open>The two assignments of \<open>InputServer::recv_packets\<close> for one client.\<close>

definition record_slice :: "nat \<Rightarrow> nat \<Rightarrow> nat \<Rightarrow> net_slices \<Rightarrow> net_slices res" where
  "record_slice i lo hi s =
     (if i \<ge> length (start_idx s) \<or> i \<ge> length (end_idx s) then Inl Out_Of_Bounds
      else Inr (s\<lparr>start_idx := (start_idx s)[i := lo], end_idx := (end_idx s)[i := hi]\<rparr>))"

definition send_result :: "nat \<Rightarrow> vec \<Rightarrow> net_slices \<Rightarrow> vec res" where
  "send_result client_id result s =
     (if client_id \<ge> length (start_idx s) \<or> client_id \<ge> length (end_idx s) then Inl Out_Of_Bounds
      else
        let start = start_idx s ! client_id; stop = end_idx s ! client_id
        in if start > stop \<or> stop > length result then Inl Out_Of_Bounds
           else Inr (take (stop - start) (drop start result)))"

lemma record_slice_lengths:
  "record_slice i a b s = Inr s' \<Longrightarrow>
     length (start_idx s') = length (start_idx s) \<and> length (end_idx s') = length (end_idx s)"
  by (auto simp: record_slice_def split: if_splits)

section \<open>Properties\<close>

text \<open>C24: A vector that is sent in blocks of any positive size arrives unchanged at a receiver that uses
  the same block size, in memory as well as in a file, and nothing else is taken from the channel.\<close>

theorem vector_roundtrip:
  assumes "0 < b" "n \<le> length data"
  shows "\<exists>chan f. send_vec b data n [] = Inr chan \<and>
     recv_vec b n (chan @ rest) = Inr (take n data, rest) \<and>
     recv_vec_disk b fw_new n (chan @ rest) = Inr (f, rest) \<and> fw_content f = take n data \<and> fw_ok f"
proof -
  have "send_vec b data n [] = Inr (take n data)"
    using send_vec_stream[OF assms, of "[]"] by simp
  moreover have "recv_vec b n (take n data @ rest) = Inr (take n data, rest)"
    using recv_vec_stream[of b n "take n data @ rest"] assms by simp
  moreover obtain f where "recv_vec_disk b fw_new n (take n data @ rest) = Inr (f, rest)"
      "fw_content f = take n data" "fw_size f = n" "fw_read_idx f = 0"
    using recv_vec_disk_stream[of b n "take n data @ rest" fw_new] assms by (auto simp: fw_new_def)
  ultimately show ?thesis using assms(2) by (auto simp: fw_ok_def)
qed

lemma vector_roundtrip_witness:
  "\<exists>chan f. send_vec 2 [1, 2, 3, 4, 5] 5 [] = Inr chan \<and>
     recv_vec 2 5 (chan @ [9]) = Inr ([1, 2, 3, 4, 5], [9]) \<and>
     recv_vec_disk 2 fw_new 5 (chan @ [9]) = Inr (f, [9]) \<and> fw_content f = [1, 2, 3, 4, 5]"
  using vector_roundtrip[of 2 5 "[1, 2, 3, 4, 5]" "[9]"] by auto

text \<open>C25: What an endpoint sends to another is received by that endpoint on the same connection, and no
  two ordered pairs of endpoints share a connection, so that the messages of different pairs
  cannot mix.\<close>

theorem channels_match:
  assumes "a < n" "b < n" "c < n" "d < n" "a \<noteq> b" "c \<noteq> d"
  shows "send_channel port n a b = recv_channel port n b a \<and>
     (send_channel port n a b = send_channel port n c d \<longrightarrow> a = c \<and> b = d)"
  using send_recv_channel[OF assms(5)] send_channel_inj[OF assms] by blast

lemma channels_match_witness:
  "send_channel 10000 4 0 2 = recv_channel 10000 4 2 0 \<and>
   send_channel 10000 4 0 2 \<noteq> send_channel 10000 4 2 0"
  using channels_match[of 0 4 2 2 0 10000] by auto

text \<open>C26: The table of slice ends is sized by the number of servers: with more clients than servers the
  slice of client number \<open>n_parties\<close> is recorded out of bounds.\<close>

theorem slices_of_many_clients:
  assumes "n_parties < n_clients"
  shows "record_slice n_parties lo hi (net_init n_parties n_clients) = Inl Out_Of_Bounds"
  using assms by (simp add: record_slice_def net_init_def)

lemma slices_of_many_clients_witness:
  "record_slice 3 0 5 (net_init 3 4) = Inl Out_Of_Bounds"
  using slices_of_many_clients[of 3 4 0 5] by simp

end
