(* ===== verification/Preproc.thy ===== *)
theory Preproc
  imports Storage Network
begin

text \<open>
  \<open>src/src/core/preprocessor.h\<close> and \<open>preprocessor.cpp\<close>: the offline phase. All three servers
  walk over the layers of the circuit; the dealer samples permutations, masks and triples from
  the streams it has in common with the online servers and collects what they cannot sample
  themselves, and the online servers take the same values from their streams or from the buffer
  the dealer sends. \<open>recv\<close> is the server that gets the larger message for the next gate.
\<close>

section \<open>Drawing from the generators\<close>

text \<open>An accessor of the generators, which asserts the role of the server, and a draw from it.\<close>

definition with_rng ::
  "('g rngs \<Rightarrow> bool) \<Rightarrow> ('g rngs \<Rightarrow> 'g) \<Rightarrow> ('g \<Rightarrow> 'g rngs \<Rightarrow> 'g rngs) \<Rightarrow> ('g \<Rightarrow> 'a \<times> 'g) \<Rightarrow>
     'g storage \<Rightarrow> ('a \<times> 'g storage) res" where
  "with_rng role get put f s =
     (let r = random_generators s in
      if role r then let (x, g) = f (get r) in Inr (x, s\<lparr>random_generators := put g r\<rparr>)
      else Inl Assertion_Failed)"

abbreviation from_P0_send where
  "from_P0_send \<equiv> with_rng i_am_D rng_with_P0_send (\<lambda>g r. r\<lparr>rng_with_P0_send := g\<rparr>)"

abbreviation from_P1_send where
  "from_P1_send \<equiv> with_rng i_am_D rng_with_P1_send (\<lambda>g r. r\<lparr>rng_with_P1_send := g\<rparr>)"

abbreviation from_P0_recv where
  "from_P0_recv \<equiv> with_rng i_am_D rng_with_P0_recv (\<lambda>g r. r\<lparr>rng_with_P0_recv := g\<rparr>)"

abbreviation from_P1_recv where
  "from_P1_recv \<equiv> with_rng i_am_D rng_with_P1_recv (\<lambda>g r. r\<lparr>rng_with_P1_recv := g\<rparr>)"

abbreviation from_P0_prep where
  "from_P0_prep \<equiv> with_rng i_am_D rng_with_P0_prep (\<lambda>g r. r\<lparr>rng_with_P0_prep := g\<rparr>)"

abbreviation from_P1_prep where
  "from_P1_prep \<equiv> with_rng i_am_D rng_with_P1_prep (\<lambda>g r. r\<lparr>rng_with_P1_prep := g\<rparr>)"

abbreviation from_self where
  "from_self \<equiv> with_rng (\<lambda>_. True) rng_self (\<lambda>g r. r\<lparr>rng_self := g\<rparr>)"

abbreviation from_D_prep where
  "from_D_prep \<equiv> with_rng online_role rng_with_D_prep (\<lambda>g r. r\<lparr>rng_with_D_prep := g\<rparr>)"

abbreviation from_D_send where
  "from_D_send \<equiv> with_rng online_role rng_with_D_send (\<lambda>g r. r\<lparr>rng_with_D_send := g\<rparr>)"

abbreviation from_D_recv where
  "from_D_recv \<equiv> with_rng online_role rng_with_D_recv (\<lambda>g r. r\<lparr>rng_with_D_recv := g\<rparr>)"

text \<open>\<open>Permutation::random(size, rngs->rng_with_X())\<close>: the size is converted to \<open>int\<close>.\<close>

definition draw_perm ::
  "('g rngs \<Rightarrow> bool) \<Rightarrow> ('g rngs \<Rightarrow> 'g) \<Rightarrow> ('g \<Rightarrow> 'g rngs \<Rightarrow> 'g rngs) \<Rightarrow> 'g prg_ops \<Rightarrow> nat \<Rightarrow>
     'g storage \<Rightarrow> (permutation \<times> 'g storage) res" where
  "draw_perm role get put P n s =
     (let r = random_generators s in
      if role r then
        bindr (perm_random P (to_int n) (get r)) (\<lambda>(p, g). Inr (p, s\<lparr>random_generators := put g r\<rparr>))
      else Inl Assertion_Failed)"

abbreviation perm_P0_send where
  "perm_P0_send \<equiv> draw_perm i_am_D rng_with_P0_send (\<lambda>g r. r\<lparr>rng_with_P0_send := g\<rparr>)"

abbreviation perm_P1_send where
  "perm_P1_send \<equiv> draw_perm i_am_D rng_with_P1_send (\<lambda>g r. r\<lparr>rng_with_P1_send := g\<rparr>)"

abbreviation perm_P0_recv where
  "perm_P0_recv \<equiv> draw_perm i_am_D rng_with_P0_recv (\<lambda>g r. r\<lparr>rng_with_P0_recv := g\<rparr>)"

abbreviation perm_P1_recv where
  "perm_P1_recv \<equiv> draw_perm i_am_D rng_with_P1_recv (\<lambda>g r. r\<lparr>rng_with_P1_recv := g\<rparr>)"

abbreviation perm_D_send where
  "perm_D_send \<equiv> draw_perm online_role rng_with_D_send (\<lambda>g r. r\<lparr>rng_with_D_send := g\<rparr>)"

abbreviation perm_D_recv where
  "perm_D_recv \<equiv> draw_perm online_role rng_with_D_recv (\<lambda>g r. r\<lparr>rng_with_D_recv := g\<rparr>)"

lemma draw_perm_small:
  "n < 2 ^ 31 \<Longrightarrow> draw_perm role get put P n = with_rng role get put (random_loop P n)"
  by (rule ext) (simp add: draw_perm_def with_rng_def perm_random_small Let_def split_beta)

section \<open>Shuffles\<close>

text \<open>
  The dealer's permutations of a shuffle that is used for the first time. Of the four legs of
  \<open>pi_0 pi_1 = pi_1_p pi_0_p\<close> it samples three from streams the online servers have as well, and
  hands the fourth to the receiver.
\<close>

definition sample_shuffle ::
  "'g prg_ops \<Rightarrow> nat \<Rightarrow> party \<Rightarrow> 'g storage \<Rightarrow> 'g storage res" where
  "sample_shuffle P idx recv s =
     (let n = st_size s in
      bindr (if recv = P1 then
               bindr (perm_P0_send P n s) (\<lambda>(p0p, s).
               bindr (perm_P0_recv P n s) (\<lambda>(p0, s).
               bindr (perm_P1_send P n s) (\<lambda>(p1, s).
               bindr (inverse_res p0p) (\<lambda>p0p_inv.
               bindr (mult_res p0 p1) (\<lambda>q.
               bindr (mult_res q p0p_inv) (\<lambda>p1p.
               bindr (store_vec P1 p1p s) (\<lambda>s. Inr ((p0, p1), s))))))))
             else
               bindr (perm_P1_send P n s) (\<lambda>(p1, s).
               bindr (perm_P1_recv P n s) (\<lambda>(p1p, s).
               bindr (perm_P0_recv P n s) (\<lambda>(p0, s).
               bindr (inverse_res p1p) (\<lambda>p1p_inv.
               bindr (mult_res p1p_inv p0) (\<lambda>q.
               bindr (mult_res q p1) (\<lambda>p0p.
               bindr (store_vec P0 p0p s) (\<lambda>s. Inr ((p0, p1), s)))))))))
        (\<lambda>((p0, p1), s).
          bindr (put_res (pi_0 s) idx p0) (\<lambda>q0.
          bindr (put_res (pi_1 s) idx p1) (\<lambda>q1.
            Inr (s\<lparr>pi_0 := q0, pi_1 := q1\<rparr>)))))"

text \<open>
  The corrections: the permutation moves the masks of the other server, and a common random
  offset hides them.
\<close>

definition store_corrections ::
  "'g prg_ops \<Rightarrow> bool \<Rightarrow> nat \<Rightarrow> vec \<Rightarrow> vec \<Rightarrow> 'g storage \<Rightarrow> 'g storage res" where
  "store_corrections P inverted idx R_0 R_1 s =
     bindr (from_self (draw_ring P) s) (\<lambda>(R, s).
     bindr (at_res (pi_0 s) idx) (\<lambda>p0.
     bindr (at_res (pi_1 s) idx) (\<lambda>p1.
     bindr (mult_res p0 p1) (\<lambda>m.
     bindr (if inverted then inverse_res m else Inr m) (\<lambda>pi.
     bindr (apply_res pi R_1) (\<lambda>B_0.
     bindr (apply_res pi R_0) (\<lambda>B_1.
     bindr (store_B P0 (map (\<lambda>x. x - R) B_0) s) (\<lambda>s.
       store_B P1 (map (\<lambda>x. x + R) B_1) s))))))))"

definition draw_masks :: "'g prg_ops \<Rightarrow> 'g storage \<Rightarrow> ((vec \<times> vec) \<times> 'g storage) res" where
  "draw_masks P s =
     bindr (from_P0_send (draw_vec P (st_size s)) s) (\<lambda>(R_0, s).
     bindr (from_P1_send (draw_vec P (st_size s)) s) (\<lambda>(R_1, s).
       Inr ((R_0, R_1), s)))"

definition prep_shuffle_D ::
  "'g prg_ops \<Rightarrow> gate \<Rightarrow> party \<Rightarrow> 'g storage \<Rightarrow> 'g storage res" where
  "prep_shuffle_D P f recv s =
     bindr (draw_masks P s) (\<lambda>((R_0, R_1), s).
     bindr (at_res (pi_0 s) (g_shuffle_idx f)) (\<lambda>p.
     bindr (if length p = 0 then sample_shuffle P (g_shuffle_idx f) recv s else Inr s) (\<lambda>s.
       store_corrections P False (g_shuffle_idx f) R_0 R_1 s)))"

text \<open>An online server saves the permutation the dealer hands out, if there is one for it.\<close>

definition set_perm ::
  "('g storage \<Rightarrow> permutation list) \<Rightarrow> (permutation list \<Rightarrow> 'g storage \<Rightarrow> 'g storage) \<Rightarrow>
     nat \<Rightarrow> permutation \<Rightarrow> 'g storage \<Rightarrow> 'g storage res" where
  "set_perm get put idx p s = bindr (put_res (get s) idx p) (\<lambda>ps. Inr (put ps s))"

abbreviation set_pi_0 where "set_pi_0 \<equiv> set_perm pi_0 (\<lambda>ps s. s\<lparr>pi_0 := ps\<rparr>)"
abbreviation set_pi_1 where "set_pi_1 \<equiv> set_perm pi_1 (\<lambda>ps s. s\<lparr>pi_1 := ps\<rparr>)"
abbreviation set_pi_0_p where "set_pi_0_p \<equiv> set_perm pi_0_p (\<lambda>ps s. s\<lparr>pi_0_p := ps\<rparr>)"
abbreviation set_pi_1_p where "set_pi_1_p \<equiv> set_perm pi_1_p (\<lambda>ps s. s\<lparr>pi_1_p := ps\<rparr>)"

definition prep_shuffle_online :: "gate \<Rightarrow> party \<Rightarrow> 'g storage \<Rightarrow> 'g storage res" where
  "prep_shuffle_online f recv s =
     bindr (at_res (preprocessed s) (g_shuffle_idx f)) (\<lambda>seen.
       if recv = st_id s \<and> \<not> seen then
         bindr (read_preproc (st_size s) s) (\<lambda>(perm_vec, s).
           if st_id s = P0 then set_pi_0_p (g_shuffle_idx f) perm_vec s
           else set_pi_1_p (g_shuffle_idx f) perm_vec s)
       else Inr s)"

definition mark_preprocessed :: "nat \<Rightarrow> 'g storage \<Rightarrow> 'g storage res" where
  "mark_preprocessed idx s =
     bindr (put_res (preprocessed s) idx True) (\<lambda>b. Inr (s\<lparr>preprocessed := b\<rparr>))"

section \<open>Merged shuffles\<close>

text \<open>
  The permutation that goes from the order of one shuffle to that of another. Both outer legs
  are sampled, one with each server, and both servers get their second leg from the dealer.
\<close>

definition sample_merged :: "'g prg_ops \<Rightarrow> gate \<Rightarrow> 'g storage \<Rightarrow> 'g storage res" where
  "sample_merged P f s =
     (let n = st_size s in
      bindr (at_res (pi_0 s) (pi_idx f)) (\<lambda>a0.
      bindr (at_res (pi_1 s) (pi_idx f)) (\<lambda>a1.
      bindr (mult_res a0 a1) (\<lambda>pi.
      bindr (at_res (pi_0 s) (omega_idx f)) (\<lambda>o0.
      bindr (at_res (pi_1 s) (omega_idx f)) (\<lambda>o1.
      bindr (mult_res o0 o1) (\<lambda>omega.
      bindr (apply_res pi omega) (\<lambda>merged.
      bindr (perm_P0_recv P n s) (\<lambda>(sigma_0, s).
      bindr (perm_P1_recv P n s) (\<lambda>(sigma_1_p, s).
      bindr (inverse_res sigma_1_p) (\<lambda>i1.
      bindr (mult_res i1 merged) (\<lambda>sigma_0_p.
      bindr (inverse_res sigma_0) (\<lambda>i0.
      bindr (mult_res i0 merged) (\<lambda>sigma_1.
      bindr (put_res (pi_0 s) (g_shuffle_idx f) sigma_0) (\<lambda>q0.
      bindr (put_res (pi_1 s) (g_shuffle_idx f) sigma_1) (\<lambda>q1.
      bindr (store_vec P0 sigma_0_p (s\<lparr>pi_0 := q0, pi_1 := q1\<rparr>)) (\<lambda>s.
        store_vec P1 sigma_1 s)))))))))))))))))"

definition prep_merged_D :: "'g prg_ops \<Rightarrow> gate \<Rightarrow> 'g storage \<Rightarrow> 'g storage res" where
  "prep_merged_D P f s =
     bindr (draw_masks P s) (\<lambda>((R_0, R_1), s).
     bindr (at_res (pi_0 s) (g_shuffle_idx f)) (\<lambda>p.
     bindr (if length p = 0 then sample_merged P f s else Inr s) (\<lambda>s.
       store_corrections P False (g_shuffle_idx f) R_0 R_1 s)))"

definition prep_merged_online :: "gate \<Rightarrow> 'g storage \<Rightarrow> 'g storage res" where
  "prep_merged_online f s =
     bindr (at_res (preprocessed s) (g_shuffle_idx f)) (\<lambda>seen.
       if \<not> seen then
         bindr (read_preproc (st_size s) s) (\<lambda>(perm_vec, s).
           if st_id s = P0 then set_pi_0_p (g_shuffle_idx f) perm_vec s
           else set_pi_1 (g_shuffle_idx f) perm_vec s)
       else Inr s)"

definition prep_unshuffle_D :: "'g prg_ops \<Rightarrow> gate \<Rightarrow> 'g storage \<Rightarrow> 'g storage res" where
  "prep_unshuffle_D P f s =
     bindr (draw_masks P s) (\<lambda>((R_0, R_1), s).
       store_corrections P True (g_shuffle_idx f) R_0 R_1 s)"

section \<open>Triples\<close>

text \<open>\<open>share::random_share_vec_3P\<close> on the generators of a storage.\<close>

definition share_vec_3P ::
  "'g prg_ops \<Rightarrow> nat \<Rightarrow> bool \<Rightarrow> 'g storage \<Rightarrow> (vec \<times> 'g storage) res" where
  "share_vec_3P P n binary s =
     bindr (random_share_vec_3P P (st_id s) (random_generators s) n binary) (\<lambda>(v, r).
       Inr (v, s\<lparr>random_generators := r\<rparr>))"

text \<open>\<open>Preprocessor::random_share_secret_vec_3P\<close>.\<close>

definition random_share_secret_vec_3P ::
  "'g prg_ops \<Rightarrow> party \<Rightarrow> vec \<Rightarrow> bool \<Rightarrow> 'g storage \<Rightarrow> (vec \<times> 'g storage) res" where
  "random_share_secret_vec_3P P recv secret binary s =
     (let n = length secret in
      if st_id s = D then
        bindr (if recv = P1 then from_P0_prep (draw_vec P n) s
               else from_P1_prep (draw_vec P n) s) (\<lambda>(share_0, s).
        bindr (store_vec recv (if binary then vxor secret share_0 else vsub secret share_0) s)
          (\<lambda>s. Inr (secret, s)))
      else if st_id s = recv then read_preproc n s
      else from_D_prep (draw_vec P n) s)"

definition vmul :: "bool \<Rightarrow> vec \<Rightarrow> vec \<Rightarrow> vec" where
  "vmul binary a b = map2 (\<lambda>x y. if binary then x AND y else x * y) a b"

definition prep_triple ::
  "'g prg_ops \<Rightarrow> gate \<Rightarrow> party \<Rightarrow> 'g storage \<Rightarrow> 'g storage res" where
  "prep_triple P f recv s =
     (let triple_size = (if gt f \<noteq> Compaction then g_size f else st_size s) in
      bindr (share_vec_3P P triple_size (g_binary f) s) (\<lambda>(a, s).
      bindr (share_vec_3P P triple_size (g_binary f) s) (\<lambda>(b, s).
      bindr (random_share_secret_vec_3P P recv (vmul (g_binary f) a b) (g_binary f) s)
        (\<lambda>(c_final, s).
          if st_id s \<noteq> D then store_triples a b c_final (mult_idx f) s else Inr s))))"

section \<open>The walk over the circuit\<close>

text \<open>\<open>recv = recv == P0 ? P1 : P0\<close>.\<close>

definition other_recv :: "party \<Rightarrow> party" where
  "other_recv recv = (if recv = P0 then P1 else P0)"

definition preprocess_gate ::
  "'g prg_ops \<Rightarrow> 'g storage \<times> party \<Rightarrow> gate \<Rightarrow> ('g storage \<times> party) res" where
  "preprocess_gate P sr f =
     (let (s, recv) = sr in
      case gt f of
        Shuffle \<Rightarrow>
          bindr (if st_id s = D then prep_shuffle_D P f recv s else prep_shuffle_online f recv s)
            (\<lambda>s. bindr (mark_preprocessed (g_shuffle_idx f) s) (\<lambda>s. Inr (s, other_recv recv)))
      | MergedShuffle \<Rightarrow>
          bindr (if st_id s = D then prep_merged_D P f s else prep_merged_online f s)
            (\<lambda>s. bindr (mark_preprocessed (g_shuffle_idx f) s) (\<lambda>s. Inr (s, recv)))
      | Unshuffle \<Rightarrow>
          bindr (if st_id s = D then prep_unshuffle_D P f s else Inr s) (\<lambda>s. Inr (s, recv))
      | Compaction \<Rightarrow> bindr (prep_triple P f recv s) (\<lambda>s. Inr (s, other_recv recv))
      | MulSIMD \<Rightarrow> bindr (prep_triple P f recv s) (\<lambda>s. Inr (s, other_recv recv))
      | EQZ \<Rightarrow> bindr (prep_triple P f recv s) (\<lambda>s. Inr (s, other_recv recv))
      | Bit2A \<Rightarrow> bindr (prep_triple P f recv s) (\<lambda>s. Inr (s, other_recv recv))
      | _ \<Rightarrow> Inr (s, recv))"

definition preprocess ::
  "'g prg_ops \<Rightarrow> gate list list \<Rightarrow> 'g storage \<times> party \<Rightarrow> ('g storage \<times> party) res" where
  "preprocess P layers sr =
     foldr_res (foldr_res (preprocess_gate P)) sr layers"

end
