(* ===== verification/Dag_Graph.thy ===== *)
theory Dag_Graph
  imports Sharing
begin

text \<open>
  \<open>src/src/utils/graph.h\<close>: graphs as lists of entries (the DAG list), one per node or edge, held
  as four parallel vectors, with the bit decomposition of source and target used for sorting;
  their construction, secret sharing, reconstruction, concatenation and serialisation. Files are the
  subject of \<open>Graph_IO\<close>.
\<close>

section \<open>The class\<close>

record graph =
  src :: vec
  dst :: vec
  isV :: vec
  gdata :: vec
  is_shared :: bool
  src_bits :: "vec list"
  dst_bits :: "vec list"
  gsize :: nat
  nodes :: nat

text \<open>\<open>Graph() = default\<close>.\<close>

definition graph_empty :: graph where
  "graph_empty = \<lparr>src = [], dst = [], isV = [], gdata = [], is_shared = False,
     src_bits = [], dst_bits = [], gsize = 0, nodes = 0\<rparr>"

text \<open>The constructors; the assertions on the sizes are the guards.\<close>

definition same_sizes :: "vec \<Rightarrow> vec \<Rightarrow> vec \<Rightarrow> vec \<Rightarrow> bool" where
  "same_sizes s d v x \<longleftrightarrow> length s = length d \<and> length d = length v \<and> length v = length x"

definition count_nodes :: "vec \<Rightarrow> nat" where
  "count_nodes v = length (filter (\<lambda>x. x \<noteq> 0) v)"

definition graph_plain :: "vec \<Rightarrow> vec \<Rightarrow> vec \<Rightarrow> vec \<Rightarrow> graph res" where
  "graph_plain s d v x =
     (if \<not> same_sizes s d v x then Inl Assertion_Failed
      else Inr \<lparr>src = s, dst = d, isV = v, gdata = x, is_shared = False, src_bits = [],
             dst_bits = [], gsize = length s, nodes = count_nodes v\<rparr>)"

definition graph_shared :: "vec \<Rightarrow> vec \<Rightarrow> vec \<Rightarrow> vec \<Rightarrow> nat \<Rightarrow> graph res" where
  "graph_shared s d v x n_vertices =
     (if \<not> same_sizes s d v x then Inl Assertion_Failed
      else Inr \<lparr>src = s, dst = d, isV = v, gdata = x, is_shared = True, src_bits = [],
             dst_bits = [], gsize = length s, nodes = n_vertices\<rparr>)"

definition graph_shared_bits ::
  "vec \<Rightarrow> vec \<Rightarrow> vec \<Rightarrow> vec \<Rightarrow> vec list \<Rightarrow> vec list \<Rightarrow> nat \<Rightarrow> graph res" where
  "graph_shared_bits s d v x sb db n_vertices =
     (if \<not> same_sizes s d v x \<or> length sb \<noteq> length db then Inl Assertion_Failed
      else Inr \<lparr>src = s, dst = d, isV = v, gdata = x, is_shared = True, src_bits = sb,
             dst_bits = db, gsize = length s, nodes = n_vertices\<rparr>)"

definition add_list_entry :: "ring \<Rightarrow> ring \<Rightarrow> ring \<Rightarrow> ring \<Rightarrow> graph \<Rightarrow> graph" where
  "add_list_entry s d v x g =
     g\<lparr>src := src g @ [s], dst := dst g @ [d], isV := isV g @ [v], gdata := gdata g @ [x],
       gsize := gsize g + 1, nodes := (if v \<noteq> 0 then nodes g + 1 else nodes g)\<rparr>"

definition add_list_entry3 :: "ring \<Rightarrow> ring \<Rightarrow> ring \<Rightarrow> graph \<Rightarrow> graph" where
  "add_list_entry3 s d v g = add_list_entry s d v 0 g"

text \<open>What every construction keeps: four vectors of the graph's size, and its node count.\<close>

definition graph_wf :: "graph \<Rightarrow> bool" where
  "graph_wf g \<longleftrightarrow> length (src g) = gsize g \<and> length (dst g) = gsize g \<and>
     length (isV g) = gsize g \<and> length (gdata g) = gsize g"

definition plain_wf :: "graph \<Rightarrow> bool" where
  "plain_wf g \<longleftrightarrow> graph_wf g \<and> \<not> is_shared g \<and> nodes g = count_nodes (isV g)"

definition bits_wf :: "nat \<Rightarrow> graph \<Rightarrow> bool" where
  "bits_wf n_bits g \<longleftrightarrow> length (src_bits g) = n_bits \<and> length (dst_bits g) = n_bits \<and>
     (\<forall>v \<in> set (src_bits g) \<union> set (dst_bits g). length v = gsize g)"

lemma plain_wf_empty: "plain_wf graph_empty"
  by (simp add: plain_wf_def graph_wf_def graph_empty_def count_nodes_def)

lemma plain_wf_add: "plain_wf g \<Longrightarrow> plain_wf (add_list_entry s d v x g)"
  by (auto simp: plain_wf_def graph_wf_def add_list_entry_def count_nodes_def)

lemma graph_plain_wf: "graph_plain s d v x = Inr g \<Longrightarrow> plain_wf g"
  by (auto simp: graph_plain_def plain_wf_def graph_wf_def same_sizes_def split: if_splits)

section \<open>Bit decomposition\<close>

text \<open>\<open>(input_vec[j] & (1 << i)) >> i\<close>; a shift by 32 or more is undefined
  in the code; here it gives 0. A client passes the option \<open>bits\<close>, 32 by default,
  and the servers \<open>ceil (log2 (nodes + 2))\<close>.\<close>

definition bit_of :: "nat \<Rightarrow> ring \<Rightarrow> ring" where
  "bit_of i x = drop_bit i (x AND push_bit i 1)"

definition to_bits :: "vec \<Rightarrow> nat \<Rightarrow> vec list" where
  "to_bits input_vec n_bits = map (\<lambda>i. map (bit_of i) input_vec) [0..<n_bits]"

lemma bit_of_eq: "bit_of i x = of_bool (bit x i)"
proof (rule bit_word_eqI)
  fix n assume n: "n < LENGTH(32)"
  show "bit (bit_of i x) n = bit (of_bool (bit x i) :: ring) n"
    using n bit_imp_le_length[of x i] unfolding bit_of_def
    by (auto simp: bit_simps bit_1_iff)
qed

lemma to_bits_nth:
  "i < n \<Longrightarrow> j < length v \<Longrightarrow> to_bits v n ! i ! j = of_bool (bit (v ! j) i)"
  by (simp add: to_bits_def bit_of_eq)

lemma length_to_bits [simp]: "length (to_bits v n) = n"
  by (simp add: to_bits_def)

lemma to_bits_lengths: "u \<in> set (to_bits v n) \<Longrightarrow> length u = length v"
  by (auto simp: to_bits_def)

section \<open>Sharing by a client\<close>

text \<open>\<open>r\<close> is drawn for every entry; one share is \<open>r\<close>, the other the difference.\<close>

definition share_vec :: "'g prg_ops \<Rightarrow> vec \<Rightarrow> 'g \<Rightarrow> (vec \<times> vec) \<times> 'g" where
  "share_vec P v g = (let (r, g') = draw_vec P (length v) g in ((r, vsub v r), g'))"

primrec share_vecs :: "'g prg_ops \<Rightarrow> vec list \<Rightarrow> 'g \<Rightarrow> (vec list \<times> vec list) \<times> 'g" where
  "share_vecs P [] g = (([], []), g)"
| "share_vecs P (v # vs) g =
     (let ((r, d), g1) = share_vec P v g; ((rs, ds), g2) = share_vecs P vs g1
      in ((r # rs, d # ds), g2))"

definition secret_share :: "'g prg_ops \<Rightarrow> 'g \<Rightarrow> graph \<Rightarrow> nat \<Rightarrow> (graph \<times> graph) res" where
  "secret_share P rng g n_bits =
     (let ((src_0, src_1), g1) = share_vec P (src g) rng;
          ((dst_0, dst_1), g2) = share_vec P (dst g) g1;
          ((isV_0, isV_1), g3) = share_vec P (isV g) g2;
          ((data_0, data_1), g4) = share_vec P (gdata g) g3;
          ((src_bits_0, src_bits_1), g5) = share_vecs P (to_bits (src g) n_bits) g4;
          ((dst_bits_0, dst_bits_1), g6) = share_vecs P (to_bits (dst g) n_bits) g5
      in bindr (graph_shared_bits src_0 dst_0 isV_0 data_0 src_bits_0 dst_bits_0 (nodes g))
           (\<lambda>share_0.
         bindr (graph_shared_bits src_1 dst_1 isV_1 data_1 src_bits_1 dst_bits_1 (nodes g))
           (\<lambda>share_1. Inr (share_0, share_1))))"

lemma share_vec_props:
  assumes "share_vec P v g = ((r, d), g')"
  shows "length r = length v" "length d = length v" "vadd r d = v"
proof -
  obtain r' h where "draw_vec P (length v) g = (r', h)" by fastforce
  moreover from this have "length r' = length v" by (rule length_draw_vec_eq)
  ultimately show "length r = length v" "length d = length v" "vadd r d = v"
    using assms by (auto simp: share_vec_def)
qed

lemma share_vecs_props:
  assumes "share_vecs P vs g = ((rs, ds), g')"
  shows "length rs = length vs \<and> length ds = length vs \<and> map2 vadd rs ds = vs \<and>
     map length rs = map length vs \<and> map length ds = map length vs"
  using assms
proof (induction vs arbitrary: g g' rs ds)
  case (Cons v vs)
  obtain r d g1 where 1: "share_vec P v g = ((r, d), g1)" by (metis prod.exhaust)
  obtain rs' ds' g2 where 2: "share_vecs P vs g1 = ((rs', ds'), g2)" by (metis prod.exhaust)
  have eq: "rs = r # rs'" "ds = d # ds'" using Cons.prems 1 2 by simp_all
  show ?case unfolding eq using Cons.IH[OF 2] share_vec_props[OF 1] by simp
qed simp

text \<open>What two shares of a graph have to do with it.\<close>

definition graph_shares :: "nat \<Rightarrow> graph \<Rightarrow> graph \<Rightarrow> graph \<Rightarrow> bool" where
  "graph_shares n_bits g g0 g1 \<longleftrightarrow>
     graph_wf g0 \<and> graph_wf g1 \<and> bits_wf n_bits g0 \<and> bits_wf n_bits g1 \<and>
     is_shared g0 \<and> is_shared g1 \<and> gsize g0 = gsize g \<and> gsize g1 = gsize g \<and>
     nodes g0 = nodes g \<and> nodes g1 = nodes g \<and>
     vadd (src g0) (src g1) = src g \<and> vadd (dst g0) (dst g1) = dst g \<and>
     vadd (isV g0) (isV g1) = isV g \<and> vadd (gdata g0) (gdata g1) = gdata g \<and>
     map2 vadd (src_bits g0) (src_bits g1) = to_bits (src g) n_bits \<and>
     map2 vadd (dst_bits g0) (dst_bits g1) = to_bits (dst g) n_bits"

lemma map_length_all: "map length us = map length vs \<Longrightarrow> \<forall>v \<in> set vs. length v = n \<Longrightarrow>
    \<forall>u \<in> set us. length u = n"
  by (induction us arbitrary: vs) (auto simp: Cons_eq_map_conv)

lemma secret_share_shares:
  assumes "graph_wf g"
  shows "\<exists>g0 g1. secret_share P rng g n_bits = Inr (g0, g1) \<and> graph_shares n_bits g g0 g1"
proof -
  obtain s0 s1 h1 where 1: "share_vec P (src g) rng = ((s0, s1), h1)" by (metis prod.exhaust)
  obtain d0 d1 h2 where 2: "share_vec P (dst g) h1 = ((d0, d1), h2)" by (metis prod.exhaust)
  obtain v0 v1 h3 where 3: "share_vec P (isV g) h2 = ((v0, v1), h3)" by (metis prod.exhaust)
  obtain x0 x1 h4 where 4: "share_vec P (gdata g) h3 = ((x0, x1), h4)" by (metis prod.exhaust)
  obtain a0 a1 h5 where 5: "share_vecs P (to_bits (src g) n_bits) h4 = ((a0, a1), h5)"
    by (metis prod.exhaust)
  obtain b0 b1 h6 where 6: "share_vecs P (to_bits (dst g) n_bits) h5 = ((b0, b1), h6)"
    by (metis prod.exhaust)
  have sz: "length (src g) = gsize g" "length (dst g) = gsize g" "length (isV g) = gsize g"
    "length (gdata g) = gsize g"
    using assms by (simp_all add: graph_wf_def)
  note p = share_vec_props[OF 1] share_vec_props[OF 2] share_vec_props[OF 3] share_vec_props[OF 4]
  note q = share_vecs_props[OF 5] share_vecs_props[OF 6]
  have all: "\<forall>v \<in> set (to_bits (src g) n_bits). length v = gsize g"
    "\<forall>v \<in> set (to_bits (dst g) n_bits). length v = gsize g"
    using to_bits_lengths sz by fastforce+
  have "\<forall>u \<in> set a0 \<union> set b0. length u = gsize g" "\<forall>u \<in> set a1 \<union> set b1. length u = gsize g"
    using q all map_length_all by blast+
  then show ?thesis
    using p q sz
    by (auto simp: secret_share_def 1 2 3 4 5 6 graph_shared_bits_def same_sizes_def
        graph_shares_def graph_wf_def bits_wf_def)
qed

section \<open>Sharing and revealing between the servers\<close>

text \<open>
  \<open>secret_share_parties\<close> as one server runs it. The sender passes on the size and the node count
  of its graph; the other server gets them (\<open>peer_size\<close>, \<open>peer_nodes\<close>) and runs the same loops
  on zero vectors.
\<close>

primrec share_bits_parties ::
  "'g prg_ops \<Rightarrow> party \<Rightarrow> party \<Rightarrow> (vec \<times> vec) list \<Rightarrow> 'g rngs \<Rightarrow>
     ((vec list \<times> vec list) \<times> 'g rngs) res" where
  "share_bits_parties P me sender [] r = Inr (([], []), r)"
| "share_bits_parties P me sender (sd # rest) r =
     bindr (random_share_secret_vec_2P P me r (fst sd) sender) (\<lambda>(s, r).
     bindr (random_share_secret_vec_2P P me r (snd sd) sender) (\<lambda>(d, r).
     bindr (share_bits_parties P me sender rest r) (\<lambda>((ss, ds), r).
       Inr ((s # ss, d # ds), r))))"

definition secret_share_parties ::
  "'g prg_ops \<Rightarrow> party \<Rightarrow> 'g rngs \<Rightarrow> graph \<Rightarrow> nat \<Rightarrow> party \<Rightarrow> nat \<Rightarrow> nat \<Rightarrow>
     (graph \<times> 'g rngs) res" where
  "secret_share_parties P me r g n_bits sender peer_size peer_nodes =
     (if me = D then Inr (graph_empty, r)
      else
        let sz = (if me = sender then gsize g else peer_size);
            nv = (if me = sender then nodes g else peer_nodes);
            zeros = replicate sz (0 :: ring);
            s = (if me = sender then src g else zeros);
            d = (if me = sender then dst g else zeros);
            v = (if me = sender then isV g else zeros);
            x = (if me = sender then gdata g else zeros);
            sb = (if me = sender then to_bits s n_bits else replicate n_bits zeros);
            db = (if me = sender then to_bits d n_bits else replicate n_bits zeros)
        in bindr (share_bits_parties P me sender (zip sb db) r) (\<lambda>((sbs, dbs), r).
           bindr (random_share_secret_vec_2P P me r s sender) (\<lambda>(ss, r).
           bindr (random_share_secret_vec_2P P me r d sender) (\<lambda>(ds, r).
           bindr (random_share_secret_vec_2P P me r v sender) (\<lambda>(vs, r).
           bindr (random_share_secret_vec_2P P me r x sender) (\<lambda>(xs, r).
           bindr (graph_shared_bits ss ds vs xs sbs dbs nv) (\<lambda>g'. Inr (g', r))))))))"

definition graph_reveal :: "party \<Rightarrow> graph \<Rightarrow> graph \<Rightarrow> graph res" where
  "graph_reveal me g other =
     (if me = D then Inr graph_empty
      else bindr (graph_plain (reveal_vec me (src g) (src other)) (reveal_vec me (dst g) (dst other))
                    (reveal_vec me (isV g) (isV other)) (reveal_vec me (gdata g) (gdata other)))
             (\<lambda>revealed. Inr (revealed\<lparr>nodes := nodes g\<rparr>)))"

section \<open>Concatenation\<close>

definition graph_plus :: "graph \<Rightarrow> graph \<Rightarrow> graph res" where
  "graph_plus g other =
     (if is_shared g \<noteq> is_shared other
      then Inl (Logic_Error ''Cannot concatenate a shared graph with a non-shared graph.'')
      else if gsize other = 0 then Inr graph_empty
      else if gsize g = 0 then Inr other
      else
        let n_bits = length (src_bits g)
        in if length (src_bits other) \<noteq> n_bits \<or> length (dst_bits other) \<noteq> n_bits
           then Inl Assertion_Failed
           else Inr \<lparr>src = src g @ src other, dst = dst g @ dst other, isV = isV g @ isV other,
                  gdata = gdata g @ gdata other, is_shared = is_shared g,
                  src_bits = map2 (@) (src_bits g) (src_bits other),
                  dst_bits = map2 (@) (dst_bits g) (dst_bits other),
                  gsize = gsize g + gsize other, nodes = nodes g + nodes other\<rparr>)"

section \<open>Serialisation\<close>

text \<open>Four values per entry, then the bit vectors of the sources, then those of the targets.\<close>

definition serialize :: "graph \<Rightarrow> nat \<Rightarrow> vec" where
  "serialize g n_bits =
     concat (map (\<lambda>i. [src g ! i, dst g ! i, isV g ! i, gdata g ! i]) [0..<gsize g])
     @ concat (map (\<lambda>i. map (\<lambda>j. src_bits g ! i ! j) [0..<gsize g]) [0..<n_bits])
     @ concat (map (\<lambda>i. map (\<lambda>j. dst_bits g ! i ! j) [0..<gsize g]) [0..<n_bits])"

lemma length_concat_uniform:
  "\<forall>x \<in> set xss. length x = k \<Longrightarrow> length (concat xss) = length xss * k"
  by (induction xss) auto

lemma concat_uniform_nth:
  "\<forall>x \<in> set xss. length x = k \<Longrightarrow> i < length xss \<Longrightarrow> j < k \<Longrightarrow>
     concat xss ! (i * k + j) = xss ! i ! j"
proof (induction xss arbitrary: i)
  case (Cons x xss)
  then show ?case by (cases i) (auto simp: nth_append add.assoc)
qed simp

lemma length_serialize: "length (serialize g n_bits) = (4 + 2 * n_bits) * gsize g"
proof -
  have "length (concat (map (\<lambda>i. [src g ! i, dst g ! i, isV g ! i, gdata g ! i]) [0..<gsize g])) = gsize g * 4"
    by (subst length_concat_uniform[where k = 4]) auto
  moreover have "length (concat (map (\<lambda>i. map (\<lambda>j. b ! i ! j) [0..<gsize g]) [0..<n_bits])) = n_bits * gsize g"
    for b :: "vec list"
    by (subst length_concat_uniform[where k = "gsize g"]) auto
  ultimately show ?thesis
    by (simp add: serialize_def algebra_simps)
qed

section \<open>The benchmark graph\<close>

text \<open>The entries one server contributes to the graph of the benchmarks.\<close>

definition benchmark_part :: "party \<Rightarrow> nat \<Rightarrow> nat \<Rightarrow> graph" where
  "benchmark_part me sz n =
     (let node = (\<lambda>i. add_list_entry3 (of_nat (i + 1)) (of_nat (i + 1)) 1);
          edge = (\<lambda>i. add_list_entry3 1 2 0)
      in case me of
           P0 \<Rightarrow> fold edge [0..<(sz - n) div 2] (fold node [0..<n div 2] graph_empty)
         | P1 \<Rightarrow> fold edge [(sz - n) div 2..<sz - n] (fold node [n div 2..<n] graph_empty)
         | D \<Rightarrow> graph_empty)"

end
