(* ===== verification/Evaluator.thy ===== *)
theory Evaluator
  imports Preproc Dag_Graph
begin

text \<open>
  \<open>src/src/core/evaluator.h\<close> and \<open>evaluator.cpp\<close>: the online phase of one server. The circuit is
  evaluated layer by layer: every interactive gate of a layer first adds what it sends to one of
  four buffers, one message is exchanged with the partner, and then every gate of the layer, in
  order, computes its output wire. A wire is freed when its last reader is done with it.
\<close>

section \<open>The object\<close>

record 'g evaluator =
  ev_id :: party
  ev_size :: nat
  ev_nodes :: nat
  wires :: "vec list"
  waiting :: "nat list"
  input_to_val :: "nat \<Rightarrow> vec"
  ev_output :: vec
  mul_vals :: vec
  and_vals :: vec
  shuffle_vals :: vec
  reveal_vals :: vec
  mul_pos :: nat
  and_pos :: nat
  shuffle_pos :: nat
  reveal_pos :: nat
  initialized :: bool
  ev_data :: "'g storage"

text \<open>
  The constructor fills the inputs in the order in which \<open>set_inputs\<close> numbers the input wires:
  source bits, target bits, source, target, node flag, data, and the data once more for every
  column.
\<close>

definition input_vectors :: "graph \<Rightarrow> nat \<Rightarrow> vec list" where
  "input_vectors g cols =
     src_bits g @ dst_bits g @ [src g, dst g, isV g, gdata g] @
     (if cols > 1 then replicate cols (gdata g) else [])"

definition new_evaluator ::
  "circuit \<Rightarrow> protocol_config \<Rightarrow> 'g storage \<Rightarrow> graph \<Rightarrow> 'g evaluator" where
  "new_evaluator ci conf st g =
     (let ins = (if conf_id conf \<noteq> D then input_vectors g (columns ci) else [])
      in \<lparr>ev_id = conf_id conf, ev_size = conf_size conf, ev_nodes = conf_nodes conf,
          wires = [], waiting = [],
          input_to_val = (\<lambda>i. if i < length ins then ins ! i else []), ev_output = [],
          mul_vals = [], and_vals = [], shuffle_vals = [], reveal_vals = [],
          mul_pos = 0, and_pos = 0, shuffle_pos = 0, reveal_pos = 0,
          initialized = False, ev_data = st\<rparr>)"

section \<open>Wires and their readers\<close>

text \<open>The counters are unsigned 64-bit integers.\<close>

definition dec64 :: "nat \<Rightarrow> nat" where
  "dec64 n = (if n = 0 then 2 ^ 64 - 1 else n - 1)"

definition drop_reader :: "wire_id \<Rightarrow> 'g evaluator \<Rightarrow> 'g evaluator res" where
  "drop_reader w ev =
     bindr (at_res (waiting ev) w) (\<lambda>k. Inr (ev\<lparr>waiting := (waiting ev)[w := dec64 k]\<rparr>))"

definition free_if_done :: "wire_id \<Rightarrow> 'g evaluator \<Rightarrow> 'g evaluator res" where
  "free_if_done w ev =
     bindr (at_res (waiting ev) w) (\<lambda>k.
       if k = 0 then bindr (put_res (wires ev) w []) (\<lambda>ws. Inr (ev\<lparr>wires := ws\<rparr>)) else Inr ev)"

definition update_wire :: "wire_id \<Rightarrow> 'g evaluator \<Rightarrow> 'g evaluator res" where
  "update_wire w ev = bindr (drop_reader w ev) (free_if_done w)"

definition update_wires :: "wire_id \<Rightarrow> wire_id \<Rightarrow> 'g evaluator \<Rightarrow> 'g evaluator res" where
  "update_wires w1 w2 ev =
     bindr (drop_reader w1 ev) (\<lambda>ev.
     bindr (drop_reader w2 ev) (\<lambda>ev.
     bindr (free_if_done w1 ev) (free_if_done w2)))"

text \<open>
  A counter is at most the number of reads of its wire; that it could pass \<open>2 ^ 64\<close> here (after a
  decrement below 0 in an earlier run) is not modelled.
\<close>

definition inc_waiting :: "nat list \<Rightarrow> wire_id \<Rightarrow> nat list res" where
  "inc_waiting ws w = bindr (at_res ws w) (\<lambda>k. Inr (ws[w := k + 1]))"

text \<open>\<open>init_waiting\<close>: every gate reads its first input; a second input of 0 means there is none.\<close>

definition init_waiting :: "gate list list \<Rightarrow> nat list \<Rightarrow> nat list res" where
  "init_waiting layers ws =
     foldr_res (foldr_res (\<lambda>ws f.
       bindr (inc_waiting ws (in1_idx f)) (\<lambda>ws.
         if in2_idx f \<noteq> 0 then inc_waiting ws (in2_idx f) else Inr ws))) ws layers"

definition wire_at :: "wire_id \<Rightarrow> 'g evaluator \<Rightarrow> vec res" where
  "wire_at w ev = at_res (wires ev) w"

definition set_wire :: "wire_id \<Rightarrow> vec \<Rightarrow> 'g evaluator \<Rightarrow> 'g evaluator res" where
  "set_wire w v ev = bindr (put_res (wires ev) w v) (\<lambda>ws. Inr (ev\<lparr>wires := ws\<rparr>))"

text \<open>A loop that uses \<open>p[0], \<dots>, p[n - 1]\<close> as indices below \<open>bound\<close>.\<close>

definition need_indices :: "nat \<Rightarrow> nat \<Rightarrow> vec \<Rightarrow> 'b res \<Rightarrow> 'b res" where
  "need_indices n bound p m =
     (if n \<le> length p \<and> fits bound (take n p) then m else Inl Out_Of_Bounds)"

section \<open>Sending\<close>

text \<open>
  The permutation a server applies first: sampled when it is needed and not known yet, with the
  stream shared with the dealer.
\<close>

definition send_perm ::
  "'g prg_ops \<Rightarrow> nat \<Rightarrow> 'g storage \<Rightarrow> (permutation \<times> 'g storage) res" where
  "send_perm P idx s =
     (let known = (if st_id s = P0 then pi_0_p s else pi_1 s) in
      bindr (at_res known idx) (\<lambda>p.
        if length p = 0 then
          bindr (perm_D_send P (st_size s) s) (\<lambda>(perm, s).
          bindr (if st_id s = P0 then set_pi_0_p idx perm s else set_pi_1 idx perm s) (\<lambda>s.
            Inr (perm, s)))
        else Inr (p, s)))"

definition send_shuffle :: "'g prg_ops \<Rightarrow> gate \<Rightarrow> 'g evaluator \<Rightarrow> 'g evaluator res" where
  "send_shuffle P f ev =
     (let n = ev_size ev in
      bindr (from_D_send (draw_vec P n) (ev_data ev)) (\<lambda>(R, st).
      bindr (send_perm P (g_shuffle_idx f) st) (\<lambda>(perm, st).
      bindr (wire_at (in1_idx f) ev) (\<lambda>w.
        need n w (need_indices n n perm (
          let t = scatter n (\<lambda>j. unat (perm ! j)) (\<lambda>j. w ! j + R ! j) (replicate n 0)
          in update_wire (in1_idx f) (ev\<lparr>ev_data := st, shuffle_vals := shuffle_vals ev @ t\<rparr>)))))))"

definition send_unshuffle :: "'g prg_ops \<Rightarrow> gate \<Rightarrow> 'g evaluator \<Rightarrow> 'g evaluator res" where
  "send_unshuffle P f ev =
     (let n = ev_size ev in
      bindr (from_D_send (draw_vec P n) (ev_data ev)) (\<lambda>(R, st).
      bindr (at_res (if ev_id ev = P0 then pi_0 st else pi_1_p st) (g_shuffle_idx f)) (\<lambda>perm.
      bindr (wire_at (in1_idx f) ev) (\<lambda>w.
        need_indices n (min n (length w)) perm (
          let t = map (\<lambda>i. w ! unat (perm ! i) + R ! unat (perm ! i)) [0..<n]
          in update_wire (in1_idx f) (ev\<lparr>ev_data := st, shuffle_vals := shuffle_vals ev @ t\<rparr>))))))"

text \<open>\<open>f_0 = 1 - input\<close> on shares, and its running sums.\<close>

definition zero_flags :: "party \<Rightarrow> nat \<Rightarrow> vec \<Rightarrow> vec" where
  "zero_flags me n w = map (\<lambda>i. (if me = P0 then - (w ! i) + 1 else - (w ! i))) [0..<n]"

definition zero_ranks :: "party \<Rightarrow> nat \<Rightarrow> vec \<Rightarrow> vec" where
  "zero_ranks me n w = prefix_sums 0 (zero_flags me n w)"

text \<open>\<open>s_1[i] = s - s_0[i]\<close>, where \<open>s\<close> goes on summing over the flags of the ones.\<close>

definition one_ranks :: "party \<Rightarrow> nat \<Rightarrow> vec \<Rightarrow> vec" where
  "one_ranks me n w =
     (let s_0 = zero_ranks me n w
      in vsub (prefix_sums (sum_list (zero_flags me n w)) (take n w)) s_0)"

definition interleave :: "nat \<Rightarrow> (nat \<Rightarrow> ring) \<Rightarrow> (nat \<Rightarrow> ring) \<Rightarrow> vec" where
  "interleave n xa yb = concat (map (\<lambda>i. [xa i, yb i]) [0..<n])"

definition send_compaction :: "gate \<Rightarrow> 'g evaluator \<Rightarrow> 'g evaluator res" where
  "send_compaction f ev =
     (let n = ev_size ev in
      bindr (load_triples (mult_idx f) (ev_data ev)) (\<lambda>((a, b, c), st).
      bindr (wire_at (in1_idx f) ev) (\<lambda>w.
        need n w (need n a (need n b (
          let s_1 = one_ranks (ev_id ev) n w;
              vals = interleave n (\<lambda>i. w ! i + a ! i) (\<lambda>i. s_1 ! i + b ! i)
          in Inr (ev\<lparr>ev_data := st, mul_vals := mul_vals ev @ vals\<rparr>)))))))"

text \<open>Masking in the domain of the gate, and the buffer of that domain.\<close>

definition mask :: "bool \<Rightarrow> ring \<Rightarrow> ring \<Rightarrow> ring" where
  "mask binary x a = (if binary then x XOR a else x + a)"

definition push_vals :: "bool \<Rightarrow> vec \<Rightarrow> 'g evaluator \<Rightarrow> 'g evaluator" where
  "push_vals binary vals ev =
     (if binary then ev\<lparr>and_vals := and_vals ev @ vals\<rparr> else ev\<lparr>mul_vals := mul_vals ev @ vals\<rparr>)"

text \<open>\<open>Mul\<close> on the first elements, \<open>MulSIMD\<close> on \<open>f->size\<close> elements.\<close>

definition send_product :: "nat \<Rightarrow> gate \<Rightarrow> 'g evaluator \<Rightarrow> 'g evaluator res" where
  "send_product n f ev =
     bindr (load_triples_sized (mult_idx f) (g_size f) (ev_data ev)) (\<lambda>((a, b, c), st).
     bindr (wire_at (in1_idx f) ev) (\<lambda>x.
     bindr (wire_at (in2_idx f) ev) (\<lambda>y.
       need n a (need n b (need n x (need n y (
         let vals = interleave n (\<lambda>i. mask (g_binary f) (x ! i) (a ! i))
                                 (\<lambda>i. mask (g_binary f) (y ! i) (b ! i))
         in update_wires (in1_idx f) (in2_idx f)
              (push_vals (g_binary f) vals (ev\<lparr>ev_data := st\<rparr>)))))))))"

definition send_mul :: "gate \<Rightarrow> 'g evaluator \<Rightarrow> 'g evaluator res" where
  "send_mul f ev = send_product 1 f ev"

definition send_mul_SIMD :: "gate \<Rightarrow> 'g evaluator \<Rightarrow> 'g evaluator res" where
  "send_mul_SIMD f ev = send_product (g_size f) f ev"

text \<open>
  \<open>x_0 == -x_1\<close> iff all bits of \<open>~x_0 ^ -x_1\<close> are set: in the first layer the servers rewrite
  the input wire in place. Each layer multiplies the upper half of the bits with the lower half.
\<close>

definition eqz_prepare :: "party \<Rightarrow> gate \<Rightarrow> vec \<Rightarrow> vec" where
  "eqz_prepare me f w =
     (if g_layer f = 0 then
        scatter (g_size f) (\<lambda>i. i) (\<lambda>i. if me = P0 then NOT (w ! i) else if me = P1 then - (w ! i) else w ! i) w
      else w)"

definition eqz_width :: "gate \<Rightarrow> nat" where
  "eqz_width f = 2 ^ (4 - g_layer f)"

definition send_eqz :: "gate \<Rightarrow> 'g evaluator \<Rightarrow> 'g evaluator res" where
  "send_eqz f ev =
     (let n = g_size f in
      bindr (load_triples_sized (mult_idx f) n (ev_data ev)) (\<lambda>((a, b, c), st).
      bindr (wire_at (in1_idx f) ev) (\<lambda>w.
        if g_layer f > 4 then Inl Out_Of_Bounds
        else need n w (need n a (need n b (
          let x = eqz_prepare (ev_id ev) f w;
              vals = interleave n (\<lambda>i. drop_bit (eqz_width f) (x ! i) XOR a ! i) (\<lambda>i. x ! i XOR b ! i)
          in bindr (set_wire (in1_idx f) x (ev\<lparr>ev_data := st, and_vals := and_vals ev @ vals\<rparr>))
               (update_wire (in1_idx f))))))))"

definition send_bit2A :: "gate \<Rightarrow> 'g evaluator \<Rightarrow> 'g evaluator res" where
  "send_bit2A f ev =
     (let n = g_size f in
      bindr (load_triples_sized (mult_idx f) n (ev_data ev)) (\<lambda>((a, b, c), st).
      bindr (wire_at (in1_idx f) ev) (\<lambda>w.
        need n w (need n a (need n b (
          let vals = interleave n
                (\<lambda>i. (if ev_id ev = P0 then 1 else 0) * (w ! i AND 1) + a ! i)
                (\<lambda>i. (if ev_id ev = P0 then 0 else 1) * (w ! i AND 1) + b ! i)
          in Inr (ev\<lparr>ev_data := st, mul_vals := mul_vals ev @ vals\<rparr>)))))))"

definition send_reveal :: "gate \<Rightarrow> 'g evaluator \<Rightarrow> 'g evaluator res" where
  "send_reveal f ev =
     bindr (wire_at (in1_idx f) ev) (\<lambda>w.
       need (ev_size ev) w (Inr (ev\<lparr>reveal_vals := reveal_vals ev @ take (ev_size ev) w\<rparr>)))"

definition evaluate_send_gate :: "'g prg_ops \<Rightarrow> 'g evaluator \<Rightarrow> gate \<Rightarrow> 'g evaluator res" where
  "evaluate_send_gate P ev f =
     (case gt f of
        Shuffle \<Rightarrow> send_shuffle P f ev
      | MergedShuffle \<Rightarrow> send_shuffle P f ev
      | Unshuffle \<Rightarrow> send_unshuffle P f ev
      | Compaction \<Rightarrow> send_compaction f ev
      | Mul \<Rightarrow> send_mul f ev
      | MulSIMD \<Rightarrow> send_mul_SIMD f ev
      | EQZ \<Rightarrow> send_eqz f ev
      | Bit2A \<Rightarrow> send_bit2A f ev
      | Reveal \<Rightarrow> send_reveal f ev
      | _ \<Rightarrow> Inr ev)"

definition evaluate_send :: "'g prg_ops \<Rightarrow> gate list \<Rightarrow> 'g evaluator \<Rightarrow> 'g evaluator res" where
  "evaluate_send P layer ev = foldr_res (evaluate_send_gate P) ev layer"

section \<open>The exchange of a layer\<close>

text \<open>
  \<open>online_communication\<close>: the four buffers are one message, sent and received in blocks, each
  block sent before the block of the partner is awaited. \<open>inn\<close> is the stream of the partner; the
  result holds what was sent and what is left of \<open>inn\<close>.
\<close>

definition online_message :: "'g evaluator \<Rightarrow> vec" where
  "online_message ev = mul_vals ev @ and_vals ev @ shuffle_vals ev @ reveal_vals ev"

definition exchange_block :: "vec \<Rightarrow> nat \<Rightarrow> nat \<Rightarrow> vec \<times> vec \<times> vec \<Rightarrow> (vec \<times> vec \<times> vec) res" where
  "exchange_block data_send pos len s =
     (let (sent, data_recv, inn) = s in
      bindr (net_recv len inn) (\<lambda>(msg, inn).
        Inr (sent @ take len (drop pos data_send), data_recv @ msg, inn)))"

text \<open>What arrives is combined with what was sent, per buffer: masked factors and revealed
  shares are added up, shuffled vectors replaced.\<close>

definition combine_vals :: "vec \<Rightarrow> 'g evaluator \<Rightarrow> 'g evaluator" where
  "combine_vals data_recv ev =
     (let m = length (mul_vals ev); a = length (and_vals ev); s = length (shuffle_vals ev);
          r = length (reveal_vals ev)
      in ev\<lparr>mul_vals := map (\<lambda>i. mul_vals ev ! i + data_recv ! i) [0..<m],
            and_vals := map (\<lambda>i. and_vals ev ! i XOR data_recv ! (m + i)) [0..<a],
            shuffle_vals := map (\<lambda>i. data_recv ! (m + a + i)) [0..<s],
            reveal_vals := map (\<lambda>i. reveal_vals ev ! i + data_recv ! (m + a + s + i)) [0..<r]\<rparr>)"

definition online_communication ::
  "nat \<Rightarrow> vec \<Rightarrow> 'g evaluator \<Rightarrow> ('g evaluator \<times> vec \<times> vec) res" where
  "online_communication block_size inn ev =
     (let data_send = online_message ev; n_comm = length data_send in
      if n_comm = 0 then Inr (ev, [], inn)
      else if block_size = 0 then Inl Division_By_Zero
      else
        let n_msgs = n_comm div block_size; last_msg = n_comm mod block_size in
        bindr (foldr_res (\<lambda>s i. exchange_block data_send (i * block_size) block_size s)
                 ([], [], inn) [0..<n_msgs]) (\<lambda>s.
        bindr (exchange_block data_send (n_msgs * block_size) last_msg s)
          (\<lambda>(sent, data_recv, inn). Inr (combine_vals data_recv ev, sent, inn))))"

section \<open>Receiving\<close>

definition read_vals ::
  "('g evaluator \<Rightarrow> vec) \<Rightarrow> ('g evaluator \<Rightarrow> nat) \<Rightarrow> (nat \<Rightarrow> 'g evaluator \<Rightarrow> 'g evaluator) \<Rightarrow>
     nat \<Rightarrow> 'g evaluator \<Rightarrow> (vec \<times> 'g evaluator) res" where
  "read_vals buf pos put n ev =
     bindr (read_online (buf ev) n (pos ev)) (\<lambda>(v, i). Inr (v, put i ev))"

abbreviation read_mul where "read_mul \<equiv> read_vals mul_vals mul_pos (\<lambda>i ev. ev\<lparr>mul_pos := i\<rparr>)"
abbreviation read_and where "read_and \<equiv> read_vals and_vals and_pos (\<lambda>i ev. ev\<lparr>and_pos := i\<rparr>)"
abbreviation read_shuffle where
  "read_shuffle \<equiv> read_vals shuffle_vals shuffle_pos (\<lambda>i ev. ev\<lparr>shuffle_pos := i\<rparr>)"
abbreviation read_reveal where
  "read_reveal \<equiv> read_vals reveal_vals reveal_pos (\<lambda>i ev. ev\<lparr>reveal_pos := i\<rparr>)"

definition ev_read_preproc :: "nat \<Rightarrow> 'g evaluator \<Rightarrow> (vec \<times> 'g evaluator) res" where
  "ev_read_preproc n ev =
     bindr (read_preproc n (ev_data ev)) (\<lambda>(v, st). Inr (v, ev\<lparr>ev_data := st\<rparr>))"

definition ev_load_triples ::
  "nat \<Rightarrow> nat \<Rightarrow> 'g evaluator \<Rightarrow> ((vec \<times> vec \<times> vec) \<times> 'g evaluator) res" where
  "ev_load_triples idx n ev =
     bindr (load_triples_sized idx n (ev_data ev)) (\<lambda>(t, st). Inr (t, ev\<lparr>ev_data := st\<rparr>))"

text \<open>The permutation a server applies second.\<close>

definition recv_perm ::
  "'g prg_ops \<Rightarrow> nat \<Rightarrow> 'g storage \<Rightarrow> (permutation \<times> 'g storage) res" where
  "recv_perm P idx s =
     (let known = (if st_id s = P0 then pi_0 s else pi_1_p s) in
      bindr (at_res known idx) (\<lambda>p.
        if length p = 0 then
          bindr (perm_D_recv P (st_size s) s) (\<lambda>(perm, s).
          bindr (if st_id s = P0 then set_pi_0 idx perm s else set_pi_1_p idx perm s) (\<lambda>s.
            Inr (perm, s)))
        else Inr (p, s)))"

definition recv_input :: "gate \<Rightarrow> 'g evaluator \<Rightarrow> 'g evaluator res" where
  "recv_input f ev = set_wire (out_idx f) (input_to_val ev (out_idx f)) ev"

definition recv_output :: "gate \<Rightarrow> 'g evaluator \<Rightarrow> 'g evaluator res" where
  "recv_output f ev =
     bindr (wire_at (in1_idx f) ev) (\<lambda>w.
       need (ev_size ev) w
         (update_wire (in1_idx f) (ev\<lparr>ev_output := ev_output ev @ take (ev_size ev) w\<rparr>)))"

text \<open>
  The interactive gates write into the output wire resized to \<open>size\<close>; where they write fewer
  elements the rest of it is kept.
\<close>

definition out_resized :: "gate \<Rightarrow> nat \<Rightarrow> 'g evaluator \<Rightarrow> vec res" where
  "out_resized f n ev = bindr (wire_at (out_idx f) ev) (\<lambda>o'. Inr (vresize n o'))"

definition recv_shuffle :: "'g prg_ops \<Rightarrow> gate \<Rightarrow> 'g evaluator \<Rightarrow> 'g evaluator res" where
  "recv_shuffle P f ev =
     (let n = ev_size ev in
      bindr (out_resized f n ev) (\<lambda>o'.
      bindr (recv_perm P (g_shuffle_idx f) (ev_data ev)) (\<lambda>(perm, st).
      bindr (read_shuffle n (ev\<lparr>ev_data := st\<rparr>)) (\<lambda>(t, ev).
      bindr (ev_read_preproc n ev) (\<lambda>(B, ev).
        need n B (need_indices n n perm (
          set_wire (out_idx f)
            (scatter n (\<lambda>i. unat (perm ! i)) (\<lambda>i. t ! i - B ! unat (perm ! i)) o') ev)))))))"

definition recv_unshuffle :: "gate \<Rightarrow> 'g evaluator \<Rightarrow> 'g evaluator res" where
  "recv_unshuffle f ev =
     (let n = ev_size ev in
      bindr (out_resized f n ev) (\<lambda>o'.
      bindr (at_res (if ev_id ev = P0 then pi_0_p (ev_data ev) else pi_1 (ev_data ev))
               (g_shuffle_idx f)) (\<lambda>perm.
      bindr (read_shuffle n ev) (\<lambda>(t, ev).
      bindr (ev_read_preproc n ev) (\<lambda>(B, ev).
        need n B (need_indices n n perm (
          set_wire (out_idx f) (map (\<lambda>i. t ! unat (perm ! i) - B ! i) [0..<n]) ev)))))))"

text \<open>
  The server's share of a product: \<open>xa\<close>, \<open>yb\<close> are the opened masked factors, and the public
  product is counted by \<open>P1\<close> only (the factor \<open>id\<close>).
\<close>

definition product_share :: "party \<Rightarrow> ring \<Rightarrow> ring \<Rightarrow> ring \<Rightarrow> ring \<Rightarrow> ring \<Rightarrow> ring" where
  "product_share me xa yb a b c = xa * yb * of_nat (party_num me) - xa * b - yb * a + c"

definition product_share_bin :: "party \<Rightarrow> ring \<Rightarrow> ring \<Rightarrow> ring \<Rightarrow> ring \<Rightarrow> ring \<Rightarrow> ring" where
  "product_share_bin me xa yb a b c =
     ((xa AND yb) * of_nat (party_num me)) XOR (xa AND b) XOR (yb AND a) XOR c"

definition product_in :: "bool \<Rightarrow> party \<Rightarrow> ring \<Rightarrow> ring \<Rightarrow> ring \<Rightarrow> ring \<Rightarrow> ring \<Rightarrow> ring" where
  "product_in binary = (if binary then product_share_bin else product_share)"

text \<open>The loop all products have in common: the opened pairs are read from the buffer.\<close>

definition recv_pairs :: "bool \<Rightarrow> nat \<Rightarrow> 'g evaluator \<Rightarrow> (vec \<times> 'g evaluator) res" where
  "recv_pairs binary n ev = (if binary then read_and (2 * n) ev else read_mul (2 * n) ev)"

definition products :: "bool \<Rightarrow> party \<Rightarrow> nat \<Rightarrow> vec \<Rightarrow> vec \<Rightarrow> vec \<Rightarrow> vec \<Rightarrow> nat \<Rightarrow> ring" where
  "products binary me n d a b c i =
     product_in binary me (d ! (2 * i)) (d ! (2 * i + 1)) (a ! i) (b ! i) (c ! i)"

definition recv_compaction :: "gate \<Rightarrow> 'g evaluator \<Rightarrow> 'g evaluator res" where
  "recv_compaction f ev =
     (let n = ev_size ev; me = ev_id ev in
      bindr (wire_at (out_idx f) ev) (\<lambda>_.
      bindr (ev_load_triples (mult_idx f) (st_size (ev_data ev)) ev) (\<lambda>((a, b, c), ev).
      bindr (wire_at (in1_idx f) ev) (\<lambda>w.
      need n w (
      bindr (recv_pairs False n ev) (\<lambda>(d, ev).
      need n a (need n b (need n c (
        let s_0 = zero_ranks me n w;
            out = map (\<lambda>i. let z = products False me n d a b c i + s_0 ! i
                           in if me = P0 then z - 1 else z) [0..<n]
        in bindr (set_wire (out_idx f) out ev) (update_wire (in1_idx f)))))))))))"

definition recv_mul :: "gate \<Rightarrow> 'g evaluator \<Rightarrow> 'g evaluator res" where
  "recv_mul f ev =
     bindr (wire_at (out_idx f) ev) (\<lambda>_.
     bindr (ev_load_triples (mult_idx f) (g_size f) ev) (\<lambda>((a, b, c), ev).
     bindr (recv_pairs (g_binary f) 1 ev) (\<lambda>(d, ev).
     need 1 a (need 1 b (need 1 c (
       set_wire (out_idx f) [products (g_binary f) (ev_id ev) 1 d a b c 0] ev))))))"

text \<open>\<open>MulSIMD\<close> and the products of \<open>EQZ\<close>: the first \<open>f->size\<close> elements of the output.\<close>

definition recv_products :: "bool \<Rightarrow> (vec \<Rightarrow> vec) \<Rightarrow> gate \<Rightarrow> 'g evaluator \<Rightarrow> 'g evaluator res" where
  "recv_products binary post f ev =
     (let n = g_size f in
      bindr (out_resized f (ev_size ev) ev) (\<lambda>o'.
      bindr (ev_load_triples (mult_idx f) n ev) (\<lambda>((a, b, c), ev).
      bindr (recv_pairs binary n ev) (\<lambda>(d, ev).
      need n a (need n b (need n c (need n o' (
        set_wire (out_idx f)
          (post (scatter n (\<lambda>i. i) (products binary (ev_id ev) n d a b c) o')) ev))))))))"

definition recv_mul_SIMD :: "gate \<Rightarrow> 'g evaluator \<Rightarrow> 'g evaluator res" where
  "recv_mul_SIMD f ev = recv_products (g_binary f) (\<lambda>v. v) f ev"

text \<open>The last layer of a zero test keeps the lowest bit only.\<close>

definition lowest_bit :: "ring \<Rightarrow> ring" where
  "lowest_bit x = drop_bit 31 (push_bit 31 x)"

definition recv_eqz :: "gate \<Rightarrow> 'g evaluator \<Rightarrow> 'g evaluator res" where
  "recv_eqz f ev =
     recv_products True
       (\<lambda>v. if g_layer f = 4 then scatter (g_size f) (\<lambda>i. i) (\<lambda>i. lowest_bit (v ! i)) v else v) f ev"

definition recv_bit2A :: "gate \<Rightarrow> 'g evaluator \<Rightarrow> 'g evaluator res" where
  "recv_bit2A f ev =
     (let n = g_size f in
      bindr (out_resized f (ev_size ev) ev) (\<lambda>o'.
      bindr (ev_load_triples (mult_idx f) n ev) (\<lambda>((a, b, c), ev).
      bindr (recv_pairs False n ev) (\<lambda>(d, ev).
      bindr (wire_at (in1_idx f) ev) (\<lambda>w.
      need n a (need n b (need n c (need n w (need n o' (
        bindr (set_wire (out_idx f)
                (scatter n (\<lambda>i. i)
                   (\<lambda>i. (w ! i AND 1) - 2 * products False (ev_id ev) n d a b c i) o') ev)
              (update_wire (in1_idx f))))))))))))"

definition recv_reveal :: "gate \<Rightarrow> 'g evaluator \<Rightarrow> 'g evaluator res" where
  "recv_reveal f ev =
     bindr (read_reveal (ev_size ev) ev) (\<lambda>(v, ev). set_wire (out_idx f) v ev)"

section \<open>Local gates\<close>

text \<open>
  What a local gate computes from its inputs, for a vector of \<open>n\<close> entries: a value, or an
  access out of bounds. \<open>me\<close> is the server and \<open>k\<close> the number of nodes.
\<close>

definition permute_vec :: "nat \<Rightarrow> vec \<Rightarrow> vec \<Rightarrow> vec res" where
  "permute_vec n x p =
     need_indices n n p (need n x (
       Inr (scatter n (\<lambda>i. unat (p ! i)) (\<lambda>i. x ! i) (replicate n 0))))"

definition reverse_permute_vec :: "nat \<Rightarrow> vec \<Rightarrow> vec \<Rightarrow> vec res" where
  "reverse_permute_vec n x p =
     need_indices n (length x) p (Inr (map (\<lambda>i. x ! unat (p ! i)) [0..<n]))"

definition add_const_vec :: "party \<Rightarrow> ring \<Rightarrow> vec \<Rightarrow> vec res" where
  "add_const_vec me v x = need 1 x (Inr [if me = P0 then x ! 0 + v else x ! 0])"

definition add_const_SIMD_vec :: "party \<Rightarrow> nat \<Rightarrow> nat \<Rightarrow> ring \<Rightarrow> vec \<Rightarrow> vec res" where
  "add_const_SIMD_vec me n k v x =
     need n x (Inr (map (\<lambda>j. if me = P0 \<and> j < k then x ! j + v else x ! j) [0..<n]))"

definition mul_const_vec :: "nat \<Rightarrow> ring \<Rightarrow> vec \<Rightarrow> vec res" where
  "mul_const_vec n v x = need n x (Inr (map (\<lambda>j. x ! j * v) [0..<n]))"

definition add_vec :: "nat \<Rightarrow> vec \<Rightarrow> vec \<Rightarrow> vec res" where
  "add_vec n x y = need n x (need n y (Inr (map (\<lambda>i. x ! i + y ! i) [0..<n])))"

definition sub_vec :: "nat \<Rightarrow> vec \<Rightarrow> vec \<Rightarrow> vec res" where
  "sub_vec n x y = need n x (need n y (Inr (map (\<lambda>i. x ! i - y ! i) [0..<n])))"

definition flip_vec :: "party \<Rightarrow> nat \<Rightarrow> vec \<Rightarrow> vec res" where
  "flip_vec me n x =
     need n x (Inr (map (\<lambda>i. if me = P0 then 1 - x ! i else - (x ! i)) [0..<n]))"

text \<open>The first \<open>m\<close> entries, zeros behind them.\<close>

definition remove_edge_vec :: "nat \<Rightarrow> nat \<Rightarrow> vec \<Rightarrow> vec res" where
  "remove_edge_vec n m x =
     (if m > n then Inl Out_Of_Bounds
      else need m x (Inr (map (\<lambda>i. if i < m then x ! i else 0) [0..<n])))"

text \<open>
  The loop of \<open>Propagate1\<close> counts down from \<open>nodes - 1\<close>; with no nodes it starts at the largest
  index there is.
\<close>

definition propagate_1_vec :: "nat \<Rightarrow> nat \<Rightarrow> vec \<Rightarrow> vec res" where
  "propagate_1_vec n k x =
     (if k = 0 \<or> k > n then Inl Out_Of_Bounds
      else need n x (Inr (map (\<lambda>i. if 0 < i \<and> i < k then x ! i - x ! (i - 1) else x ! i) [0..<n])))"

definition propagate_2_vec :: "nat \<Rightarrow> vec \<Rightarrow> vec \<Rightarrow> vec res" where
  "propagate_2_vec n x y =
     need n x (need n y (Inr (vsub (prefix_sums 0 (take n x)) (take n y))))"

definition gather_1_vec :: "nat \<Rightarrow> vec \<Rightarrow> vec res" where
  "gather_1_vec n x = need n x (Inr (prefix_sums 0 (take n x)))"

primrec differences :: "ring \<Rightarrow> vec \<Rightarrow> vec" where
  "differences acc [] = []"
| "differences acc (x # xs) = (x - acc) # differences (acc + (x - acc)) xs"

definition gather_2_vec :: "nat \<Rightarrow> nat \<Rightarrow> vec \<Rightarrow> vec res" where
  "gather_2_vec n k x =
     (if k > n then Inl Out_Of_Bounds
      else need k x (Inr (differences 0 (take k x) @ replicate (n - k) 0)))"

definition dedup_sub_vec :: "nat \<Rightarrow> vec \<Rightarrow> vec res" where
  "dedup_sub_vec n x =
     (if n = 0 then Inl Out_Of_Bounds
      else need n x (Inr (map (\<lambda>i. x ! Suc i - x ! i) [0..<n - 1])))"

definition insert_vec :: "vec \<Rightarrow> vec res" where
  "insert_vec x = Inr (0 # x)"

text \<open>Entry \<open>i\<close> is the sum over the nodes of column \<open>i\<close>.\<close>

definition column_sums_vec :: "nat \<Rightarrow> nat \<Rightarrow> vec list \<Rightarrow> vec res" where
  "column_sums_vec n k cols =
     (if k > n \<or> k > length cols \<or> (\<exists>i < k. length (cols ! i) < k) then Inl Out_Of_Bounds
      else Inr (map (\<lambda>i. sum_list (take k (cols ! i))) [0..<k] @ replicate (n - k) 0))"

text \<open>\<open>f->vals\<close> is filled up with zeros and shared by \<open>P0\<close>.\<close>

definition padded :: "nat \<Rightarrow> vec \<Rightarrow> vec" where
  "padded n vals = (if length vals < n then vresize n vals else vals)"

definition recv_const_vec :: "'g prg_ops \<Rightarrow> gate \<Rightarrow> 'g evaluator \<Rightarrow> 'g evaluator res" where
  "recv_const_vec P f ev =
     (let st = ev_data ev; vals = padded (ev_size ev) (gvals f) in
      bindr (random_share_secret_vec_2P P (ev_id ev) (random_generators st) vals P0) (\<lambda>(v, r).
        set_wire (out_idx f) v (ev\<lparr>ev_data := st\<lparr>random_generators := r\<rparr>\<rparr>)))"

text \<open>One input, or two, an output that is written completely, and the readers updated.\<close>

definition local1 :: "(vec \<Rightarrow> vec res) \<Rightarrow> gate \<Rightarrow> 'g evaluator \<Rightarrow> 'g evaluator res" where
  "local1 h f ev =
     bindr (wire_at (out_idx f) ev) (\<lambda>_.
     bindr (wire_at (in1_idx f) ev) (\<lambda>x.
     bindr (h x) (\<lambda>v.
     bindr (set_wire (out_idx f) v ev) (update_wire (in1_idx f)))))"

definition local2 :: "(vec \<Rightarrow> vec \<Rightarrow> vec res) \<Rightarrow> gate \<Rightarrow> 'g evaluator \<Rightarrow> 'g evaluator res" where
  "local2 h f ev =
     bindr (wire_at (out_idx f) ev) (\<lambda>_.
     bindr (wire_at (in1_idx f) ev) (\<lambda>x.
     bindr (wire_at (in2_idx f) ev) (\<lambda>y.
     bindr (h x y) (\<lambda>v.
     bindr (set_wire (out_idx f) v ev) (update_wires (in1_idx f) (in2_idx f))))))"

text \<open>The columns are read without being counted as readers.\<close>

definition recv_column_sums :: "gate \<Rightarrow> 'g evaluator \<Rightarrow> 'g evaluator res" where
  "recv_column_sums f ev =
     bindr (foldr_res (\<lambda>cols w. bindr (wire_at w ev) (\<lambda>v. Inr (cols @ [v]))) []
              (take (ev_nodes ev) (data_parallel f))) (\<lambda>cols.
     bindr (column_sums_vec (ev_size ev) (ev_nodes ev) cols) (\<lambda>v.
       set_wire (out_idx f) v ev))"

definition evaluate_recv_gate :: "'g prg_ops \<Rightarrow> 'g evaluator \<Rightarrow> gate \<Rightarrow> 'g evaluator res" where
  "evaluate_recv_gate P ev f =
     (let n = ev_size ev; k = ev_nodes ev; me = ev_id ev in
      case gt f of
        Input \<Rightarrow> recv_input f ev
      | Output \<Rightarrow> recv_output f ev
      | Shuffle \<Rightarrow> recv_shuffle P f ev
      | MergedShuffle \<Rightarrow> recv_shuffle P f ev
      | Unshuffle \<Rightarrow> recv_unshuffle f ev
      | Compaction \<Rightarrow> recv_compaction f ev
      | Mul \<Rightarrow> recv_mul f ev
      | MulSIMD \<Rightarrow> recv_mul_SIMD f ev
      | EQZ \<Rightarrow> recv_eqz f ev
      | Bit2A \<Rightarrow> recv_bit2A f ev
      | Reveal \<Rightarrow> recv_reveal f ev
      | Permute \<Rightarrow> local2 (permute_vec n) f ev
      | ReversePermute \<Rightarrow> local2 (reverse_permute_vec n) f ev
      | AddConst \<Rightarrow> local1 (add_const_vec me (gval f)) f ev
      | AddConstSIMD \<Rightarrow> local1 (add_const_SIMD_vec me n k (gval f)) f ev
      | MulConst \<Rightarrow> local1 (mul_const_vec 1 (gval f)) f ev
      | MulConstSIMD \<Rightarrow> local1 (mul_const_vec n (gval f)) f ev
      | Add \<Rightarrow> local2 (add_vec 1) f ev
      | AddSIMD \<Rightarrow> local2 (add_vec n) f ev
      | Sub \<Rightarrow> local2 (sub_vec 1) f ev
      | SubSIMD \<Rightarrow> local2 (sub_vec n) f ev
      | SetConstVecSIMD \<Rightarrow> recv_const_vec P f ev
      | Flip \<Rightarrow> local1 (flip_vec me n) f ev
      | RemoveEdgeData \<Rightarrow> local1 (remove_edge_vec n (g_size f)) f ev
      | Propagate1 \<Rightarrow> local1 (propagate_1_vec n k) f ev
      | Propagate2 \<Rightarrow> local2 (propagate_2_vec n) f ev
      | Gather1 \<Rightarrow> local1 (gather_1_vec n) f ev
      | Gather2 \<Rightarrow> local1 (gather_2_vec n k) f ev
      | DeduplicationSub \<Rightarrow> local1 (dedup_sub_vec n) f ev
      | Insert \<Rightarrow> local1 insert_vec f ev
      | ColumnSumsToNodes \<Rightarrow> recv_column_sums f ev
      | _ \<Rightarrow> Inr ev)"

definition evaluate_recv :: "'g prg_ops \<Rightarrow> gate list \<Rightarrow> 'g evaluator \<Rightarrow> 'g evaluator res" where
  "evaluate_recv P layer ev = foldr_res (evaluate_recv_gate P) ev layer"

section \<open>The run of one server\<close>

text \<open>\<open>run\<close> up to the first layer: the wires and counters are created once.\<close>

definition run_init :: "nat \<Rightarrow> gate list list \<Rightarrow> 'g evaluator \<Rightarrow> 'g evaluator res" where
  "run_init nw layers ev =
     (let ev = (if \<not> initialized ev
                then ev\<lparr>waiting := waiting ev @ replicate (nw - length (waiting ev)) 0,
                        wires := wires ev @ replicate (nw - length (wires ev)) [],
                        initialized := True\<rparr>
                else ev)
      in bindr (init_waiting layers (waiting ev)) (\<lambda>w. Inr (ev\<lparr>waiting := w\<rparr>)))"

definition clear_vals :: "'g evaluator \<Rightarrow> 'g evaluator" where
  "clear_vals ev = ev\<lparr>mul_vals := [], and_vals := [], shuffle_vals := [], reveal_vals := []\<rparr>"

text \<open>
  One layer of both online servers: each sends, and receives what the other sent. \<open>c0\<close> and \<open>c1\<close>
  are the elements on their way to \<open>P0\<close> and to \<open>P1\<close> that no receive has taken yet.
  \<open>exchange\<close> is the sequential reading of the two concurrent calls of \<open>online_communication\<close>: the
  blocks of the partner are there when they are awaited. Theory \<open>Exchange_Steps\<close> has the
  interleavings of the two programs over bounded channels, and \<open>Exchange\<close> shows that every complete run
  of them ends in the states computed here, and when none gets stuck.
\<close>

type_synonym 'g duo = "('g evaluator \<times> vec) \<times> ('g evaluator \<times> vec)"

definition exchange :: "nat \<Rightarrow> 'g duo \<Rightarrow> 'g duo res" where
  "exchange block_size d =
     (let ((ev0, c0), (ev1, c1)) = d in
      bindr (online_communication block_size (c0 @ online_message ev1) ev0) (\<lambda>(ev0', sent0, c0').
      bindr (online_communication block_size (c1 @ sent0) ev1) (\<lambda>(ev1', sent1, c1').
        Inr ((ev0', c0'), (ev1', c1')))))"

definition run_layer :: "'g prg_ops \<Rightarrow> nat \<Rightarrow> 'g duo \<Rightarrow> gate list \<Rightarrow> 'g duo res" where
  "run_layer P block_size d layer =
     (let ((ev0, c0), (ev1, c1)) = d in
      bindr (evaluate_send P layer ev0) (\<lambda>ev0.
      bindr (evaluate_send P layer ev1) (\<lambda>ev1.
      bindr (exchange block_size ((ev0, c0), (ev1, c1))) (\<lambda>((ev0, c0), (ev1, c1)).
      bindr (evaluate_recv P layer ev0) (\<lambda>ev0.
      bindr (evaluate_recv P layer ev1) (\<lambda>ev1.
        Inr ((clear_vals ev0, c0), (clear_vals ev1, c1))))))))"

definition run_online ::
  "'g prg_ops \<Rightarrow> nat \<Rightarrow> nat \<Rightarrow> gate list list \<Rightarrow> 'g evaluator \<Rightarrow> 'g evaluator \<Rightarrow> 'g duo res" where
  "run_online P block_size nw layers ev0 ev1 =
     bindr (run_init nw layers ev0) (\<lambda>ev0.
     bindr (run_init nw layers ev1) (\<lambda>ev1.
       foldr_res (run_layer P block_size) ((ev0, []), (ev1, [])) layers))"

end
