(* ===== verification/Protocol.thy ===== *)
theory Protocol
  imports Evaluator
begin

text \<open>
  The arithmetic of the online phase, gate by gate: what the shares the two servers compute add
  up to. The two legs of a shuffle rest on the action of permutations (\<open>pv\<close>), products on the
  triples of the two sharing domains (\<open>arith\<close>, \<open>bin\<close>).
\<close>

section \<open>Shuffles\<close>

lemma shuffle_send_leg:
  assumes "perm_ok n p" "length w = n" "length R = n"
  shows "scatter n (\<lambda>j. unat (p ! j)) (\<lambda>j. w ! j + R ! j) (replicate n 0) = perm_apply p (vadd w R)"
proof (rule perm_apply_eqI[symmetric])
  show "perm_ok n p" "length (vadd w R) = n" using assms by simp_all
  show "length (scatter n (\<lambda>j. unat (p ! j)) (\<lambda>j. w ! j + R ! j) (replicate n 0)) = n" by simp
  fix i assume "i < n"
  then show "scatter n (\<lambda>j. unat (p ! j)) (\<lambda>j. w ! j + R ! j) (replicate n 0) ! unat (p ! i) = vadd w R ! i"
    using assms perm_ok_lt[OF assms(1)] scatter_nth[OF perm_ok_inj[OF assms(1)], of i "replicate n 0"]
    by simp
qed

lemma shuffle_recv_leg:
  assumes "perm_ok n p" "length t = n" "length B = n" "length o' = n"
  shows "scatter n (\<lambda>i. unat (p ! i)) (\<lambda>i. t ! i - B ! unat (p ! i)) o' = vsub (perm_apply p t) B"
proof (rule nth_equalityI)
  show "length (scatter n (\<lambda>i. unat (p ! i)) (\<lambda>i. t ! i - B ! unat (p ! i)) o') =
        length (vsub (perm_apply p t) B)"
    using assms by simp
  fix j assume "j < length (scatter n (\<lambda>i. unat (p ! i)) (\<lambda>i. t ! i - B ! unat (p ! i)) o')"
  then have "j < n" using assms by simp
  then obtain i where i: "i < n" "unat (p ! i) = j" using perm_ok_surj[OF assms(1)] by blast
  have "scatter n (\<lambda>i. unat (p ! i)) (\<lambda>i. t ! i - B ! unat (p ! i)) o' ! j = t ! i - B ! j"
    using scatter_nth[OF perm_ok_inj[OF assms(1)] i(1), of o' "\<lambda>i. t ! i - B ! unat (p ! i)"]
      perm_ok_lt[OF assms(1)] assms(4) i(2) by simp
  moreover have "perm_apply p t ! j = t ! i"
    using perm_apply_nth[OF assms(1,2) i(1)] i(2) by simp
  ultimately show "scatter n (\<lambda>i. unat (p ! i)) (\<lambda>i. t ! i - B ! unat (p ! i)) o' ! j =
      vsub (perm_apply p t) B ! j"
    using assms \<open>j < n\<close> by simp
qed

lemma unshuffle_send_leg:
  assumes "perm_ok n p" "length w = n" "length R = n"
  shows "map (\<lambda>i. w ! unat (p ! i) + R ! unat (p ! i)) [0..<n] = perm_apply (perm_inverse p) (vadd w R)"
  using assms perm_ok_lt[OF assms(1)]
  by (subst perm_apply_inverse_eq[of n]) (auto intro!: nth_equalityI)

lemma unshuffle_recv_leg:
  assumes "perm_ok n p" "length t = n" "length B = n"
  shows "map (\<lambda>i. t ! unat (p ! i) - B ! i) [0..<n] = vsub (perm_apply (perm_inverse p) t) B"
  using assms perm_ok_lt[OF assms(1)]
  by (subst perm_apply_inverse_eq[of n]) (auto intro!: nth_equalityI)

text \<open>
  The dealer's material of one shuffle: the permutation \<open>s\<close> as the product of two pairs of legs,
  one pair per direction, and the corrections of the masks.
\<close>

definition legs_ok :: "nat \<Rightarrow> permutation \<Rightarrow> permutation \<Rightarrow> permutation \<Rightarrow> permutation \<Rightarrow> permutation \<Rightarrow> bool"
  where
  "legs_ok n s p0 p1 p0p p1p \<longleftrightarrow>
     perm_ok n s \<and> perm_ok n p0 \<and> perm_ok n p1 \<and> perm_ok n p0p \<and> perm_ok n p1p \<and>
     perm_mult p0 p1 = s \<and> perm_mult p1p p0p = s"

definition corrections :: "permutation \<Rightarrow> ring \<Rightarrow> vec \<Rightarrow> vec \<Rightarrow> vec \<times> vec" where
  "corrections s R R_0 R_1 =
     (map (\<lambda>x. x - R) (perm_apply s R_1), map (\<lambda>x. x + R) (perm_apply s R_0))"

lemma shuffle_shares:
  assumes "legs_ok n s p0 p1 p0p p1p" "length x0 = n" "length x1 = n" "length R_0 = n" "length R_1 = n"
    "corrections s R R_0 R_1 = (B_0, B_1)"
  shows "vadd (vsub (perm_apply p0 (perm_apply p1 (vadd x1 R_1))) B_0)
              (vsub (perm_apply p1p (perm_apply p0p (vadd x0 R_0))) B_1) = perm_apply s (vadd x0 x1)"
  using assms unfolding legs_ok_def corrections_def
  by (intro pv.two_legs[of n p0p p1p p1 p0 s x0 x1 R_0 R_1 B_1 R B_0])
    (auto simp: perm_apply_mult[symmetric])

lemma unshuffle_shares:
  assumes "legs_ok n s p0 p1 p0p p1p" "length x0 = n" "length x1 = n" "length R_0 = n" "length R_1 = n"
    "corrections (perm_inverse s) R R_0 R_1 = (B_0, B_1)"
  shows "vadd (vsub (perm_apply (perm_inverse p0p) (perm_apply (perm_inverse p1p) (vadd x1 R_1))) B_0)
              (vsub (perm_apply (perm_inverse p1) (perm_apply (perm_inverse p0) (vadd x0 R_0))) B_1)
         = perm_apply (perm_inverse s) (vadd x0 x1)"
proof -
  have s: "perm_apply (perm_inverse s) v = perm_apply (perm_inverse p1) (perm_apply (perm_inverse p0) v)"
    "perm_apply (perm_inverse s) v = perm_apply (perm_inverse p0p) (perm_apply (perm_inverse p1p) v)"
    if "length v = n" for v
    using pv.inv_product[of n p0 p1 v] pv.inv_product[of n p1p p0p v] assms(1) that
    by (auto simp: legs_ok_def)
  show ?thesis
    using assms s unfolding legs_ok_def corrections_def
    by (intro pv.two_legs[of n "perm_inverse p0" "perm_inverse p1" "perm_inverse p1p" "perm_inverse p0p"
          "perm_inverse s" x0 x1 R_0 R_1 B_1 R B_0]) auto
qed

text \<open>How the dealer completes the legs.\<close>

lemma perm_mult_ok_inverse:
  assumes "perm_ok n s" "perm_ok n p"
  shows "perm_mult (perm_mult s (perm_inverse p)) p = s"
proof -
  have "perm_mult (perm_mult s (perm_inverse p)) p = perm_mult s (perm_mult (perm_inverse p) p)"
    using assms by (intro perm_mult_assoc) auto
  then show ?thesis using assms perm_mult_inverse_left perm_mult_iota_right by metis
qed

lemma perm_mult_inverse_cancel:
  assumes "perm_ok n s" "perm_ok n p"
  shows "perm_mult p (perm_mult (perm_inverse p) s) = s"
proof -
  have "perm_mult p (perm_mult (perm_inverse p) s) = perm_mult (perm_mult p (perm_inverse p)) s"
    using assms by (intro perm_mult_assoc[symmetric]) auto
  then show ?thesis using assms perm_mult_inverse_right perm_mult_iota_left by metis
qed

lemma legs_to_P1:
  assumes "perm_ok n p0" "perm_ok n p1" "perm_ok n p0p"
  shows "legs_ok n (perm_mult p0 p1) p0 p1 p0p (perm_mult (perm_mult p0 p1) (perm_inverse p0p))"
  using assms perm_mult_ok_inverse[of n "perm_mult p0 p1" p0p] by (auto simp: legs_ok_def)

lemma legs_to_P0:
  assumes "perm_ok n p0" "perm_ok n p1" "perm_ok n p1p"
  shows "legs_ok n (perm_mult p0 p1) p0 p1 (perm_mult (perm_mult (perm_inverse p1p) p0) p1) p1p"
proof -
  have "perm_mult (perm_mult (perm_inverse p1p) p0) p1 = perm_mult (perm_inverse p1p) (perm_mult p0 p1)"
    using assms by (intro perm_mult_assoc) auto
  then show ?thesis
    using assms perm_mult_inverse_cancel[of n "perm_mult p0 p1" p1p] by (auto simp: legs_ok_def)
qed

lemma legs_merged:
  assumes "perm_ok n m" "perm_ok n p0" "perm_ok n p1p"
  shows "legs_ok n m p0 (perm_mult (perm_inverse p0) m) (perm_mult (perm_inverse p1p) m) p1p"
  using assms perm_mult_inverse_cancel[of n m p0] perm_mult_inverse_cancel[of n m p1p]
  by (auto simp: legs_ok_def)

text \<open>The merged permutation takes the order of one shuffle to that of the other.\<close>

lemma merged_perm_ok: "perm_ok n p \<Longrightarrow> perm_ok n q \<Longrightarrow> perm_ok n (perm_apply p q)"
  by (simp add: perm_apply_as_mult)

lemma merged_perm_apply:
  assumes "perm_ok n p" "perm_ok n q" "length v = n"
  shows "perm_apply (perm_apply p q) (perm_apply p v) = perm_apply q v"
  using assms
  by (simp add: perm_apply_as_mult[of n] perm_apply_mult[of n] perm_apply_inverse_left[of n])

section \<open>Products\<close>

lemma product_share_local:
  "product_share P0 xa yb a b c = arith.local_product 0 xa yb a b c"
  "product_share P1 xa yb a b c = arith.local_product (xa * yb) xa yb a b c"
  by (simp_all add: product_share_def arith.local_product_def algebra_simps)

lemma product_share_bin_local:
  "product_share_bin P0 xa yb a b c = bin.local_product 0 xa yb a b c"
  "product_share_bin P1 xa yb a b c = bin.local_product (xa AND yb) xa yb a b c"
  by (simp_all add: product_share_bin_def bin.local_product_def xor.assoc)

text \<open>A triple, element by element, in the domain of the gate.\<close>

definition combine :: "bool \<Rightarrow> ring \<Rightarrow> ring \<Rightarrow> ring" where
  "combine binary x y = (if binary then x XOR y else x + y)"

definition times :: "bool \<Rightarrow> ring \<Rightarrow> ring \<Rightarrow> ring" where
  "times binary x y = (if binary then x AND y else x * y)"

theorem product_shares:
  assumes "combine b c0 c1 = times b (combine b a0 a1) (combine b b0 b1)"
    "xa = combine b (mask b x0 a0) (mask b x1 a1)" "yb = combine b (mask b y0 b0) (mask b y1 b1)"
  shows "combine b (product_in b P0 xa yb a0 b0 c0) (product_in b P1 xa yb a1 b1 c1) =
         times b (combine b x0 x1) (combine b y0 y1)"
proof (cases b)
  case True
  then show ?thesis
    using assms bin.triple_product[of c0 c1 a0 a1 b0 b1 xa x0 x1 yb y0 y1]
    by (simp add: combine_def times_def mask_def product_in_def product_share_bin_local)
next
  case False
  then show ?thesis
    using assms arith.triple_product[of c0 c1 a0 a1 b0 b1 xa x0 x1 yb y0 y1]
    by (simp add: combine_def times_def mask_def product_in_def product_share_local)
qed

section \<open>Conversion of bits\<close>

lemma and_1_ring: "(x :: ring) AND 1 = (if odd x then 1 else 0)"
  by (simp add: and_one_eq mod_2_eq_odd)

lemma odd_xor_ring: "odd ((x :: ring) XOR y) \<longleftrightarrow> odd x \<noteq> odd y"
  by (metis bit_0 bit_xor_iff)

text \<open>The lowest bit of \<open>x0 XOR x1\<close> is \<open>x0 + x1 - 2 x0 x1\<close> on the lowest bits.\<close>

lemma bit2A_shares:
  assumes "z0 + z1 = (x0 AND 1) * (x1 AND (1 :: ring))"
  shows "((x0 AND 1) - 2 * z0) + ((x1 AND 1) - 2 * z1) = (x0 XOR x1) AND 1"
proof -
  have "((x0 AND 1) - 2 * z0) + ((x1 AND 1) - 2 * z1) = (x0 AND 1) + (x1 AND 1) - 2 * (z0 + z1)"
    by (simp add: algebra_simps)
  also have "\<dots> = (x0 XOR x1) AND 1"
    unfolding assms and_1_ring odd_xor_ring by (cases "odd x0"; cases "odd x1") simp_all
  finally show ?thesis .
qed

section \<open>Zero tests\<close>

text \<open>The lowest \<open>m\<close> bits are all set.\<close>

definition low_ones :: "nat \<Rightarrow> ring \<Rightarrow> bool" where
  "low_ones m x \<longleftrightarrow> (\<forall>i < m. bit x i)"

lemma xor_eq_0: "(x :: ring) XOR y = 0 \<longleftrightarrow> x = y"
  by (auto simp: bit_eq_iff bit_simps)

lemma not_eq_m1: "NOT (x :: ring) = -1 \<longleftrightarrow> x = 0"
  using bit.double_compl[of x] by fastforce

lemma eqz_start: "(NOT x0) XOR (- x1) = (-1 :: ring) \<longleftrightarrow> x0 + x1 = 0"
  unfolding bit.xor_compl_left not_eq_m1 xor_eq_0 by (rule eq_neg_iff_add_eq_0)

lemma low_ones_all: "low_ones 32 (x :: ring) \<longleftrightarrow> x = -1"
  unfolding low_ones_def by (auto intro!: bit_word_eqI)

lemma eqz_step: "low_ones m (drop_bit m x AND x) \<longleftrightarrow> low_ones (2 * m) x"
  unfolding low_ones_def
proof
  assume a: "\<forall>i<m. bit (drop_bit m x AND x) i"
  show "\<forall>i<2 * m. bit x i"
  proof (intro allI impI)
    fix i assume "i < 2 * m"
    then show "bit x i"
      using a[rule_format, of i] a[rule_format, of "i - m"]
      by (cases "i < m") (simp_all add: bit_simps)
  qed
qed (simp add: bit_simps)

lemma lowest_bit_and: "lowest_bit x = x AND 1"
  unfolding lowest_bit_def
  by (rule bit_word_eqI) (auto simp: bit_simps)

lemma low_ones_1: "low_ones 1 x \<longleftrightarrow> x AND 1 = 1"
  by (simp add: low_ones_def and_1_ring bit_0)

section \<open>Compaction\<close>

text \<open>
  The position of entry \<open>i\<close> after a stable partition by the flag: the number of zeros up to it,
  minus one, for a zero, and the number of all zeros plus the ones up to it, minus one, for a one.
\<close>

definition compaction_plain :: "nat \<Rightarrow> vec \<Rightarrow> vec" where
  "compaction_plain n x =
     map (\<lambda>i. x ! i * one_ranks P0 n x ! i + zero_ranks P0 n x ! i - 1) [0..<n]"

lemma zero_flags_shares:
  assumes "n \<le> length x0" "n \<le> length x1"
  shows "vadd (zero_flags P0 n x0) (zero_flags P1 n x1) = zero_flags P0 n (vadd x0 x1)"
  using assms by (auto simp: zero_flags_def intro!: nth_equalityI)

lemma prefix_sums_vadd:
  "length u = length v \<Longrightarrow> vadd (prefix_sums s u) (prefix_sums t v) = prefix_sums (s + t) (vadd u v)"
proof (induction u v arbitrary: s t rule: list_induct2)
  case (Cons x xs y ys)
  have e: "s + x + (t + y) = s + t + (x + y)" by (simp add: algebra_simps)
  show ?case using Cons.IH[of "s + x" "t + y"] by (simp add: vadd_def e)
qed (simp add: vadd_def)

lemma sum_list_vadd: "length u = length v \<Longrightarrow> sum_list (vadd u v) = sum_list u + sum_list v"
  by (induction u v rule: list_induct2) (simp_all add: vadd_def)

lemma length_zero_flags [simp]: "length (zero_flags me n x) = n"
  by (simp add: zero_flags_def)

lemma length_zero_ranks [simp]: "length (zero_ranks me n x) = n"
  by (simp add: zero_ranks_def)

lemma length_one_ranks [simp]: "length (one_ranks me n x) = min (length x) n"
  by (simp add: one_ranks_def Let_def)

lemma zero_ranks_shares:
  assumes "n \<le> length x0" "n \<le> length x1"
  shows "vadd (zero_ranks P0 n x0) (zero_ranks P1 n x1) = zero_ranks P0 n (vadd x0 x1)"
  unfolding zero_ranks_def by (simp add: prefix_sums_vadd zero_flags_shares[OF assms])

lemma take_vadd: "take n (vadd u v) = vadd (take n u) (take n v)"
  by (simp add: vadd_def take_map take_zip)

lemma vsub_vadd_swap:
  assumes "length a = n" "length b = n" "length c = n" "length d = n"
  shows "vadd (vsub a b) (vsub c d) = vsub (vadd a c) (vadd b d)"
  by (rule nth_equalityI) (use assms in auto)

lemma one_ranks_shares:
  assumes "n \<le> length x0" "n \<le> length x1"
  shows "vadd (one_ranks P0 n x0) (one_ranks P1 n x1) = one_ranks P0 n (vadd x0 x1)"
proof -
  let ?f0 = "zero_flags P0 n x0" and ?f1 = "zero_flags P1 n x1"
  have "vadd (prefix_sums (sum_list ?f0) (take n x0)) (prefix_sums (sum_list ?f1) (take n x1)) =
        prefix_sums (sum_list (zero_flags P0 n (vadd x0 x1))) (take n (vadd x0 x1))"
    using assms sum_list_vadd[of ?f0 ?f1]
    by (simp add: prefix_sums_vadd zero_flags_shares[OF assms, symmetric] take_vadd)
  then show ?thesis
    using assms unfolding one_ranks_def Let_def
    by (subst vsub_vadd_swap[of _ n]) (simp_all add: zero_ranks_shares[OF assms])
qed

section \<open>Properties\<close>

text \<open>C6: Beaver multiplication of the evaluator, in both domains: from the opened masked factors each server
  computes a share of the product, and the shares combine to the product of the shared factors.\<close>

theorem multiplication_correct:
  assumes "combine b c0 c1 = times b (combine b a0 a1) (combine b b0 b1)"
    "xa = combine b (mask b x0 a0) (mask b x1 a1)" "yb = combine b (mask b y0 b0) (mask b y1 b1)"
  shows "combine b (product_in b P0 xa yb a0 b0 c0) (product_in b P1 xa yb a1 b1 c1) =
         times b (combine b x0 x1) (combine b y0 y1)"
  using product_shares[OF assms] .

lemma multiplication_correct_witness:
  "product_share P0 24 38 3 4 20 + product_share P1 24 38 7 8 100 = (14 :: ring) * 26"
  using multiplication_correct[of False 20 100 3 7 4 8 24 5 9 38 11 15]
  by (simp add: combine_def times_def mask_def product_in_def)

text \<open>C7: The zero test: starting from the rewritten input shares, the five layers of \<open>EQZ\<close>, each of which
  multiplies the upper with the lower half of the remaining bits, and the final selection of the
  lowest bit, give 1 exactly when the shared value is 0.\<close>

theorem zero_test_correct:
  "lowest_bit (fold (\<lambda>j v. drop_bit (eqz_width (Gate5 raw EQZ i w out n j m)) v AND v) [0..<5]
      (NOT x0 XOR - x1)) = of_bool (x0 + x1 = 0)"
proof -
  let ?v = "\<lambda>k. fold (\<lambda>j v. drop_bit (2 ^ (4 - j)) v AND v) [0..<k] (NOT x0 XOR - x1)"
  have w: "eqz_width (Gate5 raw EQZ i w out n j m) = 2 ^ (4 - j)" for j
    by (simp add: eqz_width_def Gate5_def gate0_def)
  have "low_ones (2 ^ (5 - k)) (?v k) \<longleftrightarrow> x0 + x1 = 0" if "k \<le> 5" for k
    using that
  proof (induction k)
    case 0
    then show ?case using eqz_start low_ones_all by simp
  next
    case (Suc k)
    have "5 - k = Suc (4 - k)" using Suc.prems by simp
    then have e: "(2 :: nat) ^ (5 - k) = 2 * 2 ^ (4 - k)" "5 - Suc k = 4 - k" by simp_all
    have "?v (Suc k) = drop_bit (2 ^ (4 - k)) (?v k) AND ?v k" by simp
    then have "low_ones (2 ^ (5 - Suc k)) (?v (Suc k)) \<longleftrightarrow> low_ones (2 ^ (5 - k)) (?v k)"
      using eqz_step[of "2 ^ (4 - k)" "?v k"] unfolding e by (simp only:)
    then show ?case using Suc.IH Suc.prems by simp
  qed
  from this[of 5] have "low_ones 1 (?v 5) \<longleftrightarrow> x0 + x1 = 0" by simp
  then have "?v 5 AND 1 = of_bool (x0 + x1 = 0)"
    using low_ones_1[of "?v 5"] and_1_ring[of "?v 5"] by (auto split: if_splits)
  then show ?thesis by (simp add: w lowest_bit_and)
qed

lemma count_bits:
  assumes "\<forall>b \<in> set xs. b = 0 \<or> b = (1 :: ring)"
  shows "sum_list (map (\<lambda>b. - b + 1) xs) = of_nat (length (filter (\<lambda>b. b = 0) xs))"
    and "sum_list xs = of_nat (length (filter (\<lambda>b. b = 1) xs))"
  using assms by (induction xs) auto

text \<open>The ranks are the positions of the stable partition.\<close>

lemma compaction_ranks:
  assumes "length x = n" "\<forall>b \<in> set x. b = 0 \<or> b = 1" "i < n"
  shows "compaction_plain n x ! i =
     of_nat (if x ! i = 0 then length (filter (\<lambda>b. b = 0) (take i x))
             else length (filter (\<lambda>b. b = 0) x) + length (filter (\<lambda>b. b = 1) (take i x)))"
proof -
  have i: "x ! i = 0 \<or> x ! i = 1" using assms by simp
  have zf: "zero_flags P0 n x = map (\<lambda>b. - b + 1) x"
    using assms(1) by (auto simp: zero_flags_def intro: nth_equalityI)
  have bits: "\<forall>b \<in> set (take k x). b = 0 \<or> b = 1" for k using assms(2) by (meson in_set_takeD)
  have z: "zero_ranks P0 n x ! i = of_nat (length (filter (\<lambda>b. b = 0) (take (Suc i) x)))"
    using assms count_bits(1)[OF bits] by (simp add: zero_ranks_def zf prefix_sums_nth take_map)
  have o: "one_ranks P0 n x ! i = of_nat (length (filter (\<lambda>b. b = 0) x)) +
      of_nat (length (filter (\<lambda>b. b = 1) (take (Suc i) x))) - zero_ranks P0 n x ! i"
    using assms count_bits(1)[OF assms(2)] count_bits(2)[OF bits[of "Suc i"]]
    by (simp add: one_ranks_def Let_def zf prefix_sums_nth min_absorb1)
  have tk: "take (Suc i) x = take i x @ [x ! i]" using assms by (simp add: take_Suc_conv_app_nth)
  have "compaction_plain n x ! i = x ! i * one_ranks P0 n x ! i + zero_ranks P0 n x ! i - 1"
    using assms by (simp add: compaction_plain_def)
  then show ?thesis using i unfolding o z tk by auto
qed

text \<open>C8: Compaction of a vector of bits computes the positions of the stable partition: an entry that is 0
  goes behind the zeros before it, one that is 1 behind all zeros and the ones before it.\<close>

theorem compaction_is_stable_partition:
  assumes "length x = n" "\<forall>b \<in> set x. b = 0 \<or> b = 1" "i < n"
  shows "compaction_plain n x ! i =
     of_nat (if x ! i = 0 then length (filter (\<lambda>b. b = 0) (take i x))
             else length (filter (\<lambda>b. b = 0) x) + length (filter (\<lambda>b. b = 1) (take i x)))"
  using assms by (rule compaction_ranks)

lemma compaction_is_stable_partition_witness:
  "compaction_plain 4 [1, 0, 1, 0] ! 2 = 3"
  using compaction_is_stable_partition[of "[1, 0, 1, 0]" 4 2] by simp

end
