(* ===== verification/Plain.thy ===== *)
theory Plain
  imports Protocol
begin

text \<open>
  What a circuit means: an assignment of plain vectors to the wires. Each wire has a kind, which
  says how the two servers share it, and each gate a plain operation. The online phase implements
  the assignment (theory \<open>Online\<close>).
\<close>

section \<open>Kinds of wires\<close>

text \<open>
  \<open>Part j m\<close> is the output of layer \<open>j\<close> of a zero test on \<open>m\<close> entries: the lowest
  \<open>2^(4-j)\<close> bits of the exclusive or of the shares are all set iff the tested entry is zero.
\<close>

datatype kind = Arith | Bin | Part nat nat | Public

definition rel_wire :: "kind \<Rightarrow> vec \<Rightarrow> vec \<Rightarrow> vec \<Rightarrow> bool" where
  "rel_wire K v0 v1 v \<longleftrightarrow> length v0 = length v \<and> length v1 = length v \<and>
     (case K of
        Arith \<Rightarrow> vadd v0 v1 = v
      | Bin \<Rightarrow> vxor v0 v1 = v
      | Public \<Rightarrow> v0 = v \<and> v1 = v
      | Part j m \<Rightarrow> m \<le> length v \<and>
          (\<forall>i < m. low_ones (2 ^ (4 - j)) (v0 ! i XOR v1 ! i) \<longleftrightarrow> v ! i = 0))"

definition linear_type :: "gtype \<Rightarrow> bool" where
  "linear_type t \<longleftrightarrow> t = AddConst \<or> t = AddConstSIMD \<or> t = MulConst \<or> t = MulConstSIMD \<or> t = Flip \<or>
     t = RemoveEdgeData \<or> t = Propagate1 \<or> t = Gather1 \<or> t = Gather2 \<or> t = DeduplicationSub \<or>
     t = Insert"

definition linear2_type :: "gtype \<Rightarrow> bool" where
  "linear2_type t \<longleftrightarrow> t = Add \<or> t = AddSIMD \<or> t = Sub \<or> t = SubSIMD \<or> t = Propagate2"

definition permute_type :: "gtype \<Rightarrow> bool" where
  "permute_type t \<longleftrightarrow> t = Permute \<or> t = ReversePermute"

definition product_type :: "gtype \<Rightarrow> bool" where
  "product_type t \<longleftrightarrow> t = Mul \<or> t = MulSIMD"

definition move_type :: "gtype \<Rightarrow> bool" where
  "move_type t \<longleftrightarrow> t = Shuffle \<or> t = MergedShuffle \<or> t = Unshuffle"

text \<open>The kinds a gate expects and produces.\<close>

definition typed :: "(wire_id \<Rightarrow> kind) \<Rightarrow> gate \<Rightarrow> bool" where
  "typed \<kappa> f \<longleftrightarrow>
     (let i1 = \<kappa> (in1_idx f); i2 = \<kappa> (in2_idx f); out = \<kappa> (out_idx f); t = gt f in
      (t = Input \<or> t = SetConstVecSIMD \<longrightarrow> out = Arith) \<and>
      (t = Output \<longrightarrow> i1 = Arith) \<and>
      (move_type t \<or> t = Compaction \<or> linear_type t \<longrightarrow> i1 = Arith \<and> out = Arith) \<and>
      (t = Reveal \<longrightarrow> i1 = Arith \<and> out = Public) \<and>
      (permute_type t \<longrightarrow> i1 = Arith \<and> i2 = Public \<and> out = Arith) \<and>
      (linear2_type t \<longrightarrow> i1 = Arith \<and> i2 = Arith \<and> out = Arith) \<and>
      (product_type t \<longrightarrow> (let K = (if g_binary f then Bin else Arith) in i1 = K \<and> i2 = K \<and> out = K)) \<and>
      (t = EQZ \<longrightarrow> g_layer f \<le> 4 \<and>
         i1 = (if g_layer f = 0 then Arith else Part (g_layer f - 1) (g_size f)) \<and>
         out = (if g_layer f = 4 then Bin else Part (g_layer f) (g_size f))) \<and>
      (t = Bit2A \<longrightarrow> i1 = Bin \<and> out = Arith) \<and>
      (t = ColumnSumsToNodes \<longrightarrow> (\<forall>w \<in> set (data_parallel f). \<kappa> w = Arith) \<and> out = Arith))"

section \<open>Plain operations\<close>

text \<open>The linear gates, as server \<open>me\<close> computes them; the plain operation is that of \<open>P0\<close>.\<close>

definition linear_op :: "nat \<Rightarrow> nat \<Rightarrow> gate \<Rightarrow> party \<Rightarrow> vec \<Rightarrow> vec res" where
  "linear_op n k f me x =
     (case gt f of
        AddConst \<Rightarrow> add_const_vec me (gval f) x
      | AddConstSIMD \<Rightarrow> add_const_SIMD_vec me n k (gval f) x
      | MulConst \<Rightarrow> mul_const_vec 1 (gval f) x
      | MulConstSIMD \<Rightarrow> mul_const_vec n (gval f) x
      | Flip \<Rightarrow> flip_vec me n x
      | RemoveEdgeData \<Rightarrow> remove_edge_vec n (g_size f) x
      | Propagate1 \<Rightarrow> propagate_1_vec n k x
      | Gather1 \<Rightarrow> gather_1_vec n x
      | Gather2 \<Rightarrow> gather_2_vec n k x
      | DeduplicationSub \<Rightarrow> dedup_sub_vec n x
      | _ \<Rightarrow> insert_vec x)"

definition linear2_op :: "nat \<Rightarrow> gate \<Rightarrow> vec \<Rightarrow> vec \<Rightarrow> vec res" where
  "linear2_op n f x y =
     (case gt f of
        Add \<Rightarrow> add_vec 1 x y
      | AddSIMD \<Rightarrow> add_vec n x y
      | Sub \<Rightarrow> sub_vec 1 x y
      | SubSIMD \<Rightarrow> sub_vec n x y
      | _ \<Rightarrow> propagate_2_vec n x y)"

definition permute_op :: "nat \<Rightarrow> gate \<Rightarrow> vec \<Rightarrow> vec \<Rightarrow> vec res" where
  "permute_op n f x p = (if gt f = Permute then permute_vec n x p else reverse_permute_vec n x p)"

definition pad :: "nat \<Rightarrow> nat \<Rightarrow> (nat \<Rightarrow> ring) \<Rightarrow> vec" where
  "pad n m h = map h [0..<m] @ replicate (n - m) 0"

definition product_width :: "gate \<Rightarrow> nat" where
  "product_width f = (if gt f = Mul then 1 else g_size f)"

text \<open>
  The value of the output wire. \<open>\<Pi>\<close> maps a shuffle number to its permutation, \<open>ins\<close> an input
  wire to its value.
\<close>

definition plain_op ::
  "nat \<Rightarrow> nat \<Rightarrow> (nat \<Rightarrow> permutation) \<Rightarrow> (wire_id \<Rightarrow> vec) \<Rightarrow> (wire_id \<Rightarrow> vec) \<Rightarrow> gate \<Rightarrow> vec res" where
  "plain_op n k \<Pi> ins \<rho> f =
     (let x = \<rho> (in1_idx f); y = \<rho> (in2_idx f); m = g_size f; t = gt f in
      if t = Input then Inr (ins (out_idx f))
      else if t = Output then need n x (Inr [])
      else if t = Shuffle \<or> t = MergedShuffle then
        (if length x = n then Inr (perm_apply (\<Pi> (g_shuffle_idx f)) x) else Inl Out_Of_Bounds)
      else if t = Unshuffle then
        (if length x = n then Inr (perm_apply (perm_inverse (\<Pi> (g_shuffle_idx f))) x)
         else Inl Out_Of_Bounds)
      else if t = Compaction then need n x (Inr (compaction_plain n x))
      else if product_type t then
        (let b = product_width f in
         if t = MulSIMD \<and> n < m then Inl Out_Of_Bounds
         else need b x (need b y (Inr (pad (if t = Mul then 1 else n) b
                (\<lambda>i. times (g_binary f) (x ! i) (y ! i))))))
      else if t = EQZ then
        (if g_layer f > 4 \<or> n < m then Inl Out_Of_Bounds
         else need m x (Inr (pad n m (\<lambda>i. if g_layer f = 4 then of_bool (x ! i = 0) else x ! i))))
      else if t = Bit2A then
        (if n < m then Inl Out_Of_Bounds else need m x (Inr (pad n m (\<lambda>i. x ! i AND 1))))
      else if t = Reveal then need n x (Inr (take n x))
      else if permute_type t then permute_op n f x y
      else if linear2_type t then linear2_op n f x y
      else if linear_type t then linear_op n k f P0 x
      else if t = SetConstVecSIMD then Inr (padded n (gvals f))
      else if t = ColumnSumsToNodes then
        (if length (data_parallel f) < k then Inl Out_Of_Bounds
         else column_sums_vec n k (map \<rho> (take k (data_parallel f))))
      else Inr [])"

text \<open>An assignment that satisfies every gate of a circuit.\<close>

definition assigns ::
  "nat \<Rightarrow> nat \<Rightarrow> (nat \<Rightarrow> permutation) \<Rightarrow> (wire_id \<Rightarrow> vec) \<Rightarrow> gate list \<Rightarrow> (wire_id \<Rightarrow> vec) \<Rightarrow> bool" where
  "assigns n k \<Pi> ins gs \<rho> \<longleftrightarrow>
     (\<forall>f \<in> set gs. \<exists>v. plain_op n k \<Pi> ins \<rho> f = Inr v \<and> (gt f \<noteq> Output \<longrightarrow> \<rho> (out_idx f) = v))"

definition plain_output :: "nat \<Rightarrow> gate list \<Rightarrow> (wire_id \<Rightarrow> vec) \<Rightarrow> vec" where
  "plain_output n gs \<rho> =
     concat (map (\<lambda>f. take n (\<rho> (in1_idx f))) (filter (\<lambda>f. gt f = Output) gs))"

section \<open>Linear gates act on shares\<close>

text \<open>An operation on vectors that the two servers may apply to their shares.\<close>

locale linear_gate =
  fixes h :: "party \<Rightarrow> vec \<Rightarrow> vec res"
  assumes shares: "length x0 = length x1 \<Longrightarrow> h P0 (vadd x0 x1) = Inr y \<Longrightarrow>
     \<exists>y0 y1. h P0 x0 = Inr y0 \<and> h P1 x1 = Inr y1 \<and> length y0 = length y \<and> length y1 = length y \<and>
             vadd y0 y1 = y"
begin

lemma rel:
  assumes "rel_wire Arith x0 x1 x" "h P0 x = Inr y"
  shows "\<exists>y0 y1. h P0 x0 = Inr y0 \<and> h P1 x1 = Inr y1 \<and> rel_wire Arith y0 y1 y"
  using assms shares[of x0 x1 y] by (auto simp: rel_wire_def)

end

lemma pointwise_shares:
  assumes "\<And>i. i < m \<Longrightarrow> e0 i + e1 i = e i"
  shows "vadd (map e0 [0..<m]) (map e1 [0..<m]) = map e [0..<m]"
  by (rule nth_equalityI) (use assms in auto)

lemmas linear_defs = add_const_vec_def add_const_SIMD_vec_def mul_const_vec_def flip_vec_def
  remove_edge_vec_def propagate_1_vec_def gather_1_vec_def gather_2_vec_def dedup_sub_vec_def
  insert_vec_def

lemma linear_pointwise:
  assumes "\<And>i. i < m \<Longrightarrow> e P0 x0 i + e P1 x1 i = e P0 (vadd x0 x1) i" "length x0 = length x1"
    "need b (vadd x0 x1) (Inr (map (e P0 (vadd x0 x1)) [0..<m])) = Inr y"
  shows "\<exists>y0 y1. need b x0 (Inr (map (e P0 x0) [0..<m])) = Inr y0 \<and>
     need b x1 (Inr (map (e P1 x1) [0..<m])) = Inr y1 \<and> length y0 = length y \<and> length y1 = length y \<and>
     vadd y0 y1 = y"
  using assms(2,3) pointwise_shares[of m "e P0 x0" "e P1 x1" "e P0 (vadd x0 x1)"] assms(1)
  by (auto simp: need_Inr_iff need_def)

interpretation add_const: linear_gate "\<lambda>me. add_const_vec me v" for v
  by unfold_locales (auto simp: linear_defs need_def vadd_def split: if_splits)

interpretation add_const_SIMD: linear_gate "\<lambda>me. add_const_SIMD_vec me n k v" for n k v
proof
  fix x0 x1 y :: vec
  assume "length x0 = length x1" "add_const_SIMD_vec P0 n k v (vadd x0 x1) = Inr y"
  then show "\<exists>y0 y1. add_const_SIMD_vec P0 n k v x0 = Inr y0 \<and> add_const_SIMD_vec P1 n k v x1 = Inr y1 \<and>
       length y0 = length y \<and> length y1 = length y \<and> vadd y0 y1 = y"
    unfolding add_const_SIMD_vec_def
    by (intro linear_pointwise[where e = "\<lambda>me x j. if me = P0 \<and> j < k then x ! j + v else x ! j"])
       (auto simp: need_Inr_iff)
qed

interpretation mul_const: linear_gate "\<lambda>me. mul_const_vec n v" for n v
proof
  fix x0 x1 y :: vec
  assume "length x0 = length x1" "mul_const_vec n v (vadd x0 x1) = Inr y"
  then show "\<exists>y0 y1. mul_const_vec n v x0 = Inr y0 \<and> mul_const_vec n v x1 = Inr y1 \<and>
       length y0 = length y \<and> length y1 = length y \<and> vadd y0 y1 = y"
    unfolding mul_const_vec_def
    by (intro linear_pointwise[where e = "\<lambda>me x i. x ! i * v"])
       (auto simp: need_Inr_iff algebra_simps split: if_splits)
qed

interpretation flip: linear_gate "\<lambda>me. flip_vec me n" for n
proof
  fix x0 x1 y :: vec
  assume "length x0 = length x1" "flip_vec P0 n (vadd x0 x1) = Inr y"
  then show "\<exists>y0 y1. flip_vec P0 n x0 = Inr y0 \<and> flip_vec P1 n x1 = Inr y1 \<and>
       length y0 = length y \<and> length y1 = length y \<and> vadd y0 y1 = y"
    unfolding flip_vec_def
    by (intro linear_pointwise[where e = "\<lambda>me x i. if me = P0 then 1 - x ! i else - (x ! i)"])
       (auto simp: need_Inr_iff algebra_simps split: if_splits)
qed

lemma linear_guarded:
  assumes "(if bad then Inl e else r) = Inr y" "r = Inr y \<Longrightarrow>
     \<exists>y0 y1. r0 = Inr y0 \<and> r1 = Inr y1 \<and> length y0 = length y \<and> length y1 = length y \<and> vadd y0 y1 = y"
  shows "\<exists>y0 y1. (if bad then Inl e else r0) = Inr y0 \<and> (if bad then Inl e else r1) = Inr y1 \<and>
     length y0 = length y \<and> length y1 = length y \<and> vadd y0 y1 = y"
  using assms by (auto split: if_splits)

interpretation remove_edge: linear_gate "\<lambda>me. remove_edge_vec n m" for n m
proof
  fix x0 x1 y :: vec
  assume l: "length x0 = length x1" and h: "remove_edge_vec n m (vadd x0 x1) = Inr y"
  show "\<exists>y0 y1. remove_edge_vec n m x0 = Inr y0 \<and> remove_edge_vec n m x1 = Inr y1 \<and>
       length y0 = length y \<and> length y1 = length y \<and> vadd y0 y1 = y"
    using l h[unfolded remove_edge_vec_def] unfolding remove_edge_vec_def
    by (intro linear_guarded linear_pointwise[where e = "\<lambda>me x i. if i < m then x ! i else 0"])
       (auto simp: need_Inr_iff)
qed

interpretation propagate_1: linear_gate "\<lambda>me. propagate_1_vec n k" for n k
proof
  fix x0 x1 y :: vec
  assume l: "length x0 = length x1" and h: "propagate_1_vec n k (vadd x0 x1) = Inr y"
  show "\<exists>y0 y1. propagate_1_vec n k x0 = Inr y0 \<and> propagate_1_vec n k x1 = Inr y1 \<and>
       length y0 = length y \<and> length y1 = length y \<and> vadd y0 y1 = y"
    using l h[unfolded propagate_1_vec_def] unfolding propagate_1_vec_def
    by (intro linear_guarded linear_pointwise[where
          e = "\<lambda>me x i. if 0 < i \<and> i < k then x ! i - x ! (i - 1) else x ! i"])
       (auto simp: need_Inr_iff simp del: length_greater_0_conv)
qed

interpretation dedup_sub: linear_gate "\<lambda>me. dedup_sub_vec n" for n
proof
  fix x0 x1 y :: vec
  assume l: "length x0 = length x1" and h: "dedup_sub_vec n (vadd x0 x1) = Inr y"
  show "\<exists>y0 y1. dedup_sub_vec n x0 = Inr y0 \<and> dedup_sub_vec n x1 = Inr y1 \<and>
       length y0 = length y \<and> length y1 = length y \<and> vadd y0 y1 = y"
    using l h[unfolded dedup_sub_vec_def] unfolding dedup_sub_vec_def
    by (intro linear_guarded linear_pointwise[where e = "\<lambda>me x i. x ! Suc i - x ! i"])
       (auto simp: need_Inr_iff)
qed

interpretation gather_1: linear_gate "\<lambda>me. gather_1_vec n" for n
  by unfold_locales
    (auto simp: gather_1_vec_def need_Inr_iff take_vadd prefix_sums_vadd)

lemma differences_vadd:
  "length u = length v \<Longrightarrow> vadd (differences s u) (differences t v) = differences (s + t) (vadd u v)"
proof (induction u v arbitrary: s t rule: list_induct2)
  case (Cons x xs y ys)
  have e: "s + (x - s) + (t + (y - t)) = s + t + (x + y - (s + t))" by simp
  show ?case using Cons.IH[of "s + (x - s)" "t + (y - t)"] by (simp add: vadd_def)
qed (simp add: vadd_def)

lemma length_differences [simp]: "length (differences s u) = length u"
  by (induction u arbitrary: s) auto

lemma vadd_zeros [simp]: "vadd (replicate n 0) (replicate n 0) = replicate n 0"
  by (rule nth_equalityI) auto

interpretation gather_2: linear_gate "\<lambda>me. gather_2_vec n k" for n k
  by unfold_locales
    (auto simp: gather_2_vec_def need_Inr_iff take_vadd differences_vadd vadd_append split: if_splits)

interpretation insert: linear_gate "\<lambda>me. insert_vec"
  by unfold_locales (auto simp: insert_vec_def vadd_def)

lemma linear_op_shares:
  assumes "linear_type (gt f)" "rel_wire Arith x0 x1 x" "linear_op n k f P0 x = Inr y"
  shows "\<exists>y0 y1. linear_op n k f P0 x0 = Inr y0 \<and> linear_op n k f P1 x1 = Inr y1 \<and> rel_wire Arith y0 y1 y"
  using assms unfolding linear_type_def linear_op_def
  by (elim disjE)
    (simp_all, (drule (1) add_const.rel add_const_SIMD.rel mul_const.rel flip.rel remove_edge.rel
      propagate_1.rel gather_1.rel gather_2.rel dedup_sub.rel insert.rel; blast)+)

section \<open>The other local gates\<close>

lemma vsub_vadd_distrib:
  assumes "length a = n" "length b = n" "length c = n" "length d = n"
  shows "vadd (vsub a c) (vsub b d) = vsub (vadd a b) (vadd c d)"
  by (rule nth_equalityI) (use assms in auto)

lemma rel_ArithE:
  assumes "rel_wire Arith x0 x1 x"
  obtains "length x0 = length x1" "x = vadd x0 x1"
proof (rule that)
  show "length x0 = length x1" using assms by (simp add: rel_wire_def)
  show "x = vadd x0 x1" using assms unfolding rel_wire_def by simp
qed

lemma rel_ArithI: "length y0 = length y1 \<Longrightarrow> vadd y0 y1 = y \<Longrightarrow> rel_wire Arith y0 y1 y"
  by (auto simp: rel_wire_def)

lemma add_vec_shares:
  assumes "length x0 = length x1" "length y0 = length y1" "add_vec n (vadd x0 x1) (vadd y0 y1) = Inr z"
  shows "\<exists>z0 z1. add_vec n x0 y0 = Inr z0 \<and> add_vec n x1 y1 = Inr z1 \<and> rel_wire Arith z0 z1 z"
proof -
  have n: "n \<le> length x1" "n \<le> length y1" and z: "z = map (\<lambda>i. vadd x0 x1 ! i + vadd y0 y1 ! i) [0..<n]"
    using assms by (auto simp: add_vec_def need_Inr_iff)
  have "vadd (map (\<lambda>i. x0 ! i + y0 ! i) [0..<n]) (map (\<lambda>i. x1 ! i + y1 ! i) [0..<n]) = z"
    unfolding z by (rule pointwise_shares) (use n assms(1,2) in simp)
  then show ?thesis
    using n assms(1,2) by (simp add: add_vec_def rel_ArithI)
qed

lemma sub_vec_shares:
  assumes "length x0 = length x1" "length y0 = length y1" "sub_vec n (vadd x0 x1) (vadd y0 y1) = Inr z"
  shows "\<exists>z0 z1. sub_vec n x0 y0 = Inr z0 \<and> sub_vec n x1 y1 = Inr z1 \<and> rel_wire Arith z0 z1 z"
proof -
  have n: "n \<le> length x1" "n \<le> length y1" and z: "z = map (\<lambda>i. vadd x0 x1 ! i - vadd y0 y1 ! i) [0..<n]"
    using assms by (auto simp: sub_vec_def need_Inr_iff)
  have "vadd (map (\<lambda>i. x0 ! i - y0 ! i) [0..<n]) (map (\<lambda>i. x1 ! i - y1 ! i) [0..<n]) = z"
    unfolding z by (rule pointwise_shares) (use n assms(1,2) in simp)
  then show ?thesis
    using n assms(1,2) by (simp add: sub_vec_def rel_ArithI)
qed

lemma propagate_2_shares:
  assumes "length x0 = length x1" "length y0 = length y1" "propagate_2_vec n (vadd x0 x1) (vadd y0 y1) = Inr z"
  shows "\<exists>z0 z1. propagate_2_vec n x0 y0 = Inr z0 \<and> propagate_2_vec n x1 y1 = Inr z1 \<and> rel_wire Arith z0 z1 z"
proof -
  have n: "n \<le> length x1" "n \<le> length y1"
    and z: "z = vsub (prefix_sums 0 (take n (vadd x0 x1))) (take n (vadd y0 y1))"
    using assms by (auto simp: propagate_2_vec_def need_Inr_iff)
  have "vadd (vsub (prefix_sums 0 (take n x0)) (take n y0)) (vsub (prefix_sums 0 (take n x1)) (take n y1)) = z"
    using n assms(1,2) unfolding z
    by (subst vsub_vadd_distrib[of _ n]) (simp_all add: prefix_sums_vadd take_vadd)
  then show ?thesis
    using n assms(1,2) by (simp add: propagate_2_vec_def rel_ArithI)
qed

lemma linear2_op_shares:
  assumes "linear2_type (gt f)" "rel_wire Arith x0 x1 x" "rel_wire Arith y0 y1 y"
    "linear2_op n f x y = Inr z"
  shows "\<exists>z0 z1. linear2_op n f x0 y0 = Inr z0 \<and> linear2_op n f x1 y1 = Inr z1 \<and> rel_wire Arith z0 z1 z"
proof -
  have l: "length x0 = length x1" "length y0 = length y1" and e: "x = vadd x0 x1" "y = vadd y0 y1"
    using assms(2,3) by (auto simp: rel_wire_def)
  show ?thesis
    using assms(1) assms(4) add_vec_shares[OF l] sub_vec_shares[OF l] propagate_2_shares[OF l]
    unfolding e linear2_type_def linear2_op_def by (elim disjE) auto
qed

lemma vadd_update:
  "length xs = length ys \<Longrightarrow> vadd (xs[i := a]) (ys[i := b]) = (vadd xs ys)[i := a + b]"
  by (cases "i < length ys") (auto intro!: nth_equalityI simp: nth_list_update)

lemma scatter_vadd:
  assumes "length u = length v" "\<And>i. i < n \<Longrightarrow> h0 i + h1 i = h i"
  shows "vadd (scatter n g h0 u) (scatter n g h1 v) = scatter n g h (vadd u v)"
  using assms(2)
proof (induction n)
  case (Suc n)
  have step: "scatter (Suc n) g h xs = (scatter n g h xs)[g n := h n]" for h :: "nat \<Rightarrow> ring" and xs
    by (simp add: scatter_def)
  show ?case using Suc assms(1) by (simp add: step vadd_update)
qed (simp add: scatter_def)

lemma permute_vec_shares:
  assumes "length x0 = length x1" "permute_vec n (vadd x0 x1) p = Inr z"
  shows "\<exists>z0 z1. permute_vec n x0 p = Inr z0 \<and> permute_vec n x1 p = Inr z1 \<and> rel_wire Arith z0 z1 z"
proof -
  let ?s = "\<lambda>x. scatter n (\<lambda>i. unat (p ! i)) (\<lambda>i. x ! i) (replicate n 0)"
  have n: "n \<le> length x1" "n \<le> length p" "fits n (take n p)" and z: "z = ?s (vadd x0 x1)"
    using assms by (auto simp: permute_vec_def need_indices_def need_Inr_iff split: if_splits)
  have "vadd (?s x0) (?s x1) = z"
    unfolding z by (subst scatter_vadd) (use n assms(1) in simp_all)
  then show ?thesis using n assms(1) by (simp add: permute_vec_def need_indices_def rel_ArithI)
qed

lemma reverse_permute_vec_shares:
  assumes "length x0 = length x1" "reverse_permute_vec n (vadd x0 x1) p = Inr z"
  shows "\<exists>z0 z1. reverse_permute_vec n x0 p = Inr z0 \<and> reverse_permute_vec n x1 p = Inr z1 \<and> rel_wire Arith z0 z1 z"
proof -
  have n: "n \<le> length p" "fits (length x1) (take n p)"
    and z: "z = map (\<lambda>i. vadd x0 x1 ! unat (p ! i)) [0..<n]"
    using assms by (auto simp: reverse_permute_vec_def need_indices_def split: if_splits)
  have "unat (p ! i) < length x1" if "i < n" for i
    using n that by (auto simp: fits_def list_all_length)
  then have "vadd (map (\<lambda>i. x0 ! unat (p ! i)) [0..<n]) (map (\<lambda>i. x1 ! unat (p ! i)) [0..<n]) = z"
    unfolding z by (intro pointwise_shares) (simp add: assms(1))
  then show ?thesis
    using n assms(1) by (simp add: reverse_permute_vec_def need_indices_def rel_ArithI)
qed

lemma permute_op_shares:
  assumes "rel_wire Arith x0 x1 x" "permute_op n f x p = Inr z"
  shows "\<exists>z0 z1. permute_op n f x0 p = Inr z0 \<and> permute_op n f x1 p = Inr z1 \<and> rel_wire Arith z0 z1 z"
proof -
  have l: "length x0 = length x1" and e: "x = vadd x0 x1" using assms(1) by (auto simp: rel_wire_def)
  show ?thesis
    using assms(2) permute_vec_shares[OF l] reverse_permute_vec_shares[OF l]
    unfolding e permute_op_def by auto
qed

lemma sum_list_take_vadd:
  "length u = length v \<Longrightarrow> sum_list (take k (vadd u v)) = sum_list (take k u) + sum_list (take k v)"
  by (simp add: take_vadd sum_list_vadd)

lemma column_sums_shares:
  assumes "length cs0 = length cs" "length cs1 = length cs"
    "\<And>i. i < length cs \<Longrightarrow> rel_wire Arith (cs0 ! i) (cs1 ! i) (cs ! i)"
    "column_sums_vec n k cs = Inr y"
  shows "\<exists>y0 y1. column_sums_vec n k cs0 = Inr y0 \<and> column_sums_vec n k cs1 = Inr y1 \<and> rel_wire Arith y0 y1 y"
proof -
  have k: "k \<le> n" "k \<le> length cs" "\<forall>i < k. k \<le> length (cs ! i)"
    and y: "y = map (\<lambda>i. sum_list (take k (cs ! i))) [0..<k] @ replicate (n - k) 0"
    using assms(4) by (auto simp: column_sums_vec_def split: if_splits)
  have l: "length (cs0 ! i) = length (cs ! i)" "length (cs1 ! i) = length (cs ! i)"
    "cs ! i = vadd (cs0 ! i) (cs1 ! i)" if "i < k" for i
    using assms(3)[of i] that k(2) by (auto simp: rel_wire_def)
  have "vadd (map (\<lambda>i. sum_list (take k (cs0 ! i))) [0..<k]) (map (\<lambda>i. sum_list (take k (cs1 ! i))) [0..<k]) =
        map (\<lambda>i. sum_list (take k (cs ! i))) [0..<k]"
    by (rule pointwise_shares) (metis l sum_list_take_vadd)
  note sums = this
  have c: "column_sums_vec n k cs0 = Inr (map (\<lambda>i. sum_list (take k (cs0 ! i))) [0..<k] @ replicate (n - k) 0)"
    "column_sums_vec n k cs1 = Inr (map (\<lambda>i. sum_list (take k (cs1 ! i))) [0..<k] @ replicate (n - k) 0)"
    using k l(1,2) assms(1,2) by (auto simp: column_sums_vec_def not_le)
  have "rel_wire Arith (map (\<lambda>i. sum_list (take k (cs0 ! i))) [0..<k] @ replicate (n - k) 0)
          (map (\<lambda>i. sum_list (take k (cs1 ! i))) [0..<k] @ replicate (n - k) 0) y"
    unfolding y rel_wire_def by (simp add: vadd_append sums)
  then show ?thesis using c by blast
qed

section \<open>Properties\<close>

text \<open>C10: The gates without communication compute on shares: with shares of its inputs (and a public
  permutation where it takes one) each server's result is a share of the result on the plain
  values, and no server runs out of bounds where the plain computation does not.\<close>

theorem local_gates_on_shares:
  assumes "rel_wire Arith x0 x1 x" "rel_wire Arith y0 y1 y"
  shows "(linear_type (gt f) \<and> linear_op n k f P0 x = Inr z \<longrightarrow>
      (\<exists>z0 z1. linear_op n k f P0 x0 = Inr z0 \<and> linear_op n k f P1 x1 = Inr z1 \<and> rel_wire Arith z0 z1 z)) \<and>
    (linear2_type (gt f) \<and> linear2_op n f x y = Inr z \<longrightarrow>
      (\<exists>z0 z1. linear2_op n f x0 y0 = Inr z0 \<and> linear2_op n f x1 y1 = Inr z1 \<and> rel_wire Arith z0 z1 z)) \<and>
    (permute_op n f x p = Inr z \<longrightarrow>
      (\<exists>z0 z1. permute_op n f x0 p = Inr z0 \<and> permute_op n f x1 p = Inr z1 \<and> rel_wire Arith z0 z1 z))"
  using linear_op_shares[OF _ assms(1)] linear2_op_shares[OF _ assms] permute_op_shares[OF assms(1)] by blast

lemma local_gates_on_shares_witness:
  "\<exists>z0 z1. linear_op 3 2 (Gate_unary Flip 0 0 0) P0 [5, 6, 7] = Inr z0 \<and>
     linear_op 3 2 (Gate_unary Flip 0 0 0) P1 [1, 2, 3] = Inr z1 \<and> rel_wire Arith z0 z1 [-5, -7, -9]"
  using local_gates_on_shares[of "[5, 6, 7]" "[1, 2, 3]" "[6, 8, 10]" "[5, 6, 7]" "[1, 2, 3]" "[6, 8, 10]"
      "Gate_unary Flip 0 0 0" 3 2 "[-5, -7, -9]"]
  by (simp add: rel_wire_def vadd_def linear_type_def linear_op_def Gate_unary_def gate0_def flip_vec_def
      need_def upt_rec)

end
