(* ===== verification/Levels.thy ===== *)
theory Levels
  imports Circuit "HOL-Library.Multiset"
begin

text \<open>
  \<open>Circuit::level_order\<close> and \<open>Circuit::build\<close>: the gates of a finished circuit are sorted into
  layers, such that an interactive gate reads only wires of earlier layers. The layers are the
  communication rounds of the online phase.
\<close>

section \<open>Layering\<close>

record levels =
  wire_level :: "nat list"
  function_level :: "nat list"
  lv_depth :: nat

text \<open>One pass of the first loop: the level of a gate is the highest level among its inputs, plus
  one if it is interactive. Outputs are placed later.\<close>

definition level_step :: "levels \<Rightarrow> gate \<Rightarrow> levels res" where
  "level_step l f =
     (if gt f = Output then Inr l
      else
        bindr (at_res (wire_level l) (in1_idx f)) (\<lambda>d1.
        bindr (at_res (wire_level l) (in2_idx f)) (\<lambda>d2.
          let max_depth = max (max 0 d1) d2 + (if interactive f then 1 else 0) in
          bindr (put_res (function_level l) (g_id f) max_depth) (\<lambda>fl.
          bindr (put_res (wire_level l) (out_idx f) max_depth) (\<lambda>wl.
            Inr \<lparr>wire_level = wl, function_level = fl, lv_depth = max (lv_depth l) max_depth\<rparr>)))))"

definition output_level :: "nat \<Rightarrow> nat list \<Rightarrow> gate \<Rightarrow> nat list res" where
  "output_level depth fl f = (if gt f = Output then put_res fl (g_id f) depth else Inr fl)"

text \<open>\<open>circ.resize(depth + 1)\<close> and one \<open>push_back\<close> per gate.\<close>

definition resize_layers :: "nat \<Rightarrow> gate list list \<Rightarrow> gate list list" where
  "resize_layers n ls = take n ls @ replicate (n - length ls) []"

definition push_gate :: "nat list \<Rightarrow> gate list list \<Rightarrow> gate \<Rightarrow> gate list list res" where
  "push_gate fl ls f =
     bindr (at_res fl (g_id f)) (\<lambda>k. bindr (at_res ls k) (\<lambda>l. put_res ls k (l @ [f])))"

definition levels_of :: "gate list \<Rightarrow> levels res" where
  "levels_of gs =
     bindr (foldr_res level_step
              \<lparr>wire_level = replicate (length gs) 0, function_level = replicate (length gs) 0,
               lv_depth = 0\<rparr> gs) (\<lambda>l.
     bindr (foldr_res (output_level (lv_depth l)) (function_level l) gs) (\<lambda>fl.
       Inr (l\<lparr>function_level := fl\<rparr>)))"

definition level_order :: "circuit \<Rightarrow> circuit res" where
  "level_order c =
     bindr (levels_of (gates c)) (\<lambda>l.
     bindr (foldr_res (push_gate (function_level l)) (resize_layers (lv_depth l + 1) (circ c)) (gates c))
       (\<lambda>ls. Inr (c\<lparr>circ := ls, gates := []\<rparr>)))"

text \<open>\<open>build\<close>: the construction of the gates may end in an exception.\<close>

definition build :: "algo \<Rightarrow> circuit \<Rightarrow> circuit res" where
  "build a c =
     (let c' = snd (run_state (build_gates a) c)
      in case c_raised c' of Some e \<Rightarrow> Inl e | None \<Rightarrow> level_order c')"

section \<open>What the layering guarantees\<close>

text \<open>
  A straight-line program: gate \<open>i\<close> has identifier and output wire \<open>i\<close>, and reads earlier wires,
  or its own number where the field is not used (an input gate reads nothing).
\<close>

definition gate_ok :: "nat \<Rightarrow> gate \<Rightarrow> bool" where
  "gate_ok i f \<longleftrightarrow> g_id f = i \<and> out_idx f = i \<and> in1_idx f \<le> i \<and> in2_idx f \<le> i \<and>
     (gt f \<noteq> Input \<and> gt f \<noteq> SetConstVecSIMD \<longrightarrow> in1_idx f < i)"

definition gates_ok :: "gate list \<Rightarrow> bool" where
  "gates_ok gs \<longleftrightarrow> (\<forall>i < length gs. gate_ok i (gs ! i))"

text \<open>The level of every wire, by recursion along the program.\<close>

definition next_level :: "nat list \<Rightarrow> gate \<Rightarrow> nat" where
  "next_level wl f = max (wl ! in1_idx f) (wl ! in2_idx f) + (if interactive f then 1 else 0)"

definition level_of :: "gate list \<Rightarrow> nat list" where
  "level_of gs = foldl (\<lambda>wl f. wl @ [if gt f = Output then 0 else next_level (wl @ [0]) f]) [] gs"

definition top_level :: "gate list \<Rightarrow> nat" where
  "top_level gs = fold max (level_of gs) 0"

definition layer_of :: "gate list \<Rightarrow> nat \<Rightarrow> nat" where
  "layer_of gs i = (if gt (gs ! i) = Output then top_level gs else level_of gs ! i)"

lemma level_of_snoc:
  "level_of (gs @ [f]) =
     level_of gs @ [if gt f = Output then 0 else next_level (level_of gs @ [0]) f]"
  by (simp add: level_of_def)

lemma level_of_Nil [simp]: "level_of [] = []"
  by (simp add: level_of_def)

lemma length_level_of [simp]: "length (level_of gs) = length gs"
  by (induction gs rule: rev_induct) (simp_all add: level_of_snoc)

lemma level_of_append_nth: "i < length gs \<Longrightarrow> level_of (gs @ hs) ! i = level_of gs ! i"
proof (induction hs rule: rev_induct)
  case (snoc h hs)
  have "level_of (gs @ hs @ [h]) = level_of ((gs @ hs) @ [h])" by simp
  also have "\<dots> ! i = level_of (gs @ hs) ! i"
    using snoc.prems by (simp only: level_of_snoc) (simp add: nth_append)
  finally show ?case using snoc by simp
qed simp

lemma gates_ok_snoc: "gates_ok (gs @ [f]) \<longleftrightarrow> gates_ok gs \<and> gate_ok (length gs) f"
  by (auto simp: gates_ok_def nth_append less_Suc_eq)

text \<open>The first loop computes \<open>level_of\<close>, padded with zeros to the number of gates.\<close>

lemma fold_levels:
  assumes "gates_ok gs" "length gs \<le> N"
  shows "foldr_res level_step
           \<lparr>wire_level = replicate N 0, function_level = replicate N 0, lv_depth = 0\<rparr> gs =
         Inr \<lparr>wire_level = level_of gs @ replicate (N - length gs) 0,
              function_level = level_of gs @ replicate (N - length gs) 0,
              lv_depth = top_level gs\<rparr>"
  using assms
proof (induction gs rule: rev_induct)
  case Nil
  then show ?case by (simp add: level_of_def top_level_def)
next
  case (snoc f gs)
  define L where "L = level_of gs"
  obtain m where m: "N - length gs = Suc m" using snoc.prems(2) by (cases "N - length gs") auto
  have N: "N = length gs + Suc m" using m snoc.prems(2) by simp
  have ok: "gate_ok (length gs) f" "gates_ok gs" using snoc.prems(1) by (simp_all add: gates_ok_snoc)
  have len: "length L = length gs" by (simp add: L_def)
  have IH: "foldr_res level_step
           \<lparr>wire_level = replicate N 0, function_level = replicate N 0, lv_depth = 0\<rparr> gs =
         Inr \<lparr>wire_level = L @ 0 # replicate m 0, function_level = L @ 0 # replicate m 0,
              lv_depth = top_level gs\<rparr>"
    using snoc.IH[OF ok(2)] snoc.prems(2) m by (simp add: L_def)
  have rd: "(L @ 0 # replicate m 0) ! j = (L @ [0]) ! j" if "j \<le> length gs" for j
    using that len by (auto simp: nth_append)
  define v where "v = (if gt f = Output then 0 else next_level (L @ [0]) f)"
  have top: "top_level (gs @ [f]) = max v (top_level gs)"
    by (simp add: top_level_def level_of_snoc L_def v_def)
  have "level_step \<lparr>wire_level = L @ 0 # replicate m 0, function_level = L @ 0 # replicate m 0,
              lv_depth = top_level gs\<rparr> f =
        Inr \<lparr>wire_level = L @ v # replicate m 0, function_level = L @ v # replicate m 0,
              lv_depth = max v (top_level gs)\<rparr>"
  proof (cases "gt f = Output")
    case True
    then show ?thesis by (simp add: level_step_def v_def)
  next
    case False
    then show ?thesis
      using ok(1) N len
      by (simp add: level_step_def gate_ok_def rd v_def next_level_def Let_def list_update_append max.commute)
  qed
  moreover have "level_of (gs @ [f]) = L @ [v]" by (simp add: level_of_snoc L_def v_def)
  moreover have "N - length (gs @ [f]) = m" using N by simp
  ultimately show ?case using IH top by (simp add: foldr_res_append)
qed

lemma fold_outputs:
  assumes "gates_ok (pre @ gs)" "length fl = length (pre @ gs)"
  shows "\<exists>fl'. foldr_res (output_level d) fl gs = Inr fl' \<and> length fl' = length fl \<and>
     (\<forall>i < length fl. fl' ! i =
        (if length pre \<le> i \<and> gt ((pre @ gs) ! i) = Output then d else fl ! i))"
  using assms
proof (induction gs arbitrary: pre fl)
  case Nil
  then show ?case by auto
next
  case (Cons f gs)
  have ok: "gate_ok (length pre) f"
    using Cons.prems(1) by (auto simp: gates_ok_def nth_append dest: spec[of _ "length pre"])
  define fl1 where "fl1 = (if gt f = Output then fl[length pre := d] else fl)"
  have 1: "output_level d fl f = Inr fl1"
    using ok Cons.prems(2) by (simp add: output_level_def fl1_def gate_ok_def)
  have "gates_ok ((pre @ [f]) @ gs)" "length fl1 = length ((pre @ [f]) @ gs)"
    using Cons.prems by (simp_all add: fl1_def)
  from Cons.IH[OF this] obtain fl' where
    fl': "foldr_res (output_level d) fl1 gs = Inr fl'" "length fl' = length fl1"
    "\<forall>i < length fl1. fl' ! i =
        (if length (pre @ [f]) \<le> i \<and> gt (((pre @ [f]) @ gs) ! i) = Output then d else fl1 ! i)"
    by blast
  have "fl' ! i = (if length pre \<le> i \<and> gt ((pre @ f # gs) ! i) = Output then d else fl ! i)"
    if "i < length fl" for i
    using fl'(3) that Cons.prems(2)
    by (cases "i = length pre") (auto simp: fl1_def nth_append)
  then show ?case using 1 fl' by (auto simp: fl1_def)
qed

lemma levels_of_ok:
  assumes "gates_ok gs"
  shows "levels_of gs = Inr \<lparr>wire_level = level_of gs,
     function_level = map (layer_of gs) [0..<length gs], lv_depth = top_level gs\<rparr>"
proof -
  obtain fl where fl: "foldr_res (output_level (top_level gs)) (level_of gs) gs = Inr fl"
    "length fl = length gs"
    "\<forall>i < length gs. fl ! i = (if gt (gs ! i) = Output then top_level gs else level_of gs ! i)"
    using fold_outputs[of "[]" gs "level_of gs" "top_level gs"] assms by auto
  have "fl = map (layer_of gs) [0..<length gs]"
    by (rule nth_equalityI) (use fl in \<open>auto simp: layer_of_def\<close>)
  then show ?thesis
    using fold_levels[OF assms order.refl] fl(1) by (simp add: levels_of_def)
qed

lemma fold_max_le: "x \<in> set xs \<Longrightarrow> x \<le> fold max xs (a :: nat)"
proof (induction xs arbitrary: a)
  case (Cons y ys)
  have mono: "a \<le> fold max zs a" for zs and a :: nat
  proof (induction zs arbitrary: a)
    case (Cons z zs)
    show ?case using Cons[of "max z a"] by simp
  qed simp
  show ?case using Cons mono[of "max y a" ys] by auto
qed simp

lemma layer_of_le: "i < length gs \<Longrightarrow> layer_of gs i \<le> top_level gs"
  unfolding layer_of_def top_level_def by (auto intro!: fold_max_le)

text \<open>Each layer lists its gates in the order in which they were created.\<close>

definition layer :: "gate list \<Rightarrow> nat \<Rightarrow> gate list" where
  "layer gs k = map ((!) gs) (filter (\<lambda>i. layer_of gs i = k) [0..<length gs])"

lemma push_gates:
  assumes "m \<le> length gs" "gates_ok gs" "length ls = top_level gs + 1"
  shows "foldr_res (push_gate (map (layer_of gs) [0..<length gs])) ls (take m gs) =
     Inr (map (\<lambda>k. ls ! k @ map ((!) gs) (filter (\<lambda>i. layer_of gs i = k) [0..<m]))
              [0..<top_level gs + 1])"
  using assms
proof (induction m)
  case 0
  then show ?case by (auto intro!: nth_equalityI simp del: upt_Suc)
next
  case (Suc m)
  define T where "T = top_level gs + 1"
  have m: "m < length gs" using Suc.prems(1) by simp
  have id: "g_id (gs ! m) = m" using Suc.prems(2) m by (simp add: gates_ok_def gate_ok_def)
  have k: "layer_of gs m < T" using layer_of_le[OF m] by (simp add: T_def)
  have "(map (\<lambda>k. ls ! k @ map ((!) gs) (filter (\<lambda>i. layer_of gs i = k) [0..<m])) [0..<T])
          [layer_of gs m := (ls ! layer_of gs m @
             map ((!) gs) (filter (\<lambda>i. layer_of gs i = layer_of gs m) [0..<m])) @ [gs ! m]] =
        map (\<lambda>k. ls ! k @ map ((!) gs) (filter (\<lambda>i. layer_of gs i = k) [0..<Suc m])) [0..<T]"
    using k by (intro nth_equalityI) (auto simp: nth_list_update simp del: upt_Suc_append)
  moreover have "foldr_res (push_gate (map (layer_of gs) [0..<length gs])) ls (take m gs) =
      Inr (map (\<lambda>k. ls ! k @ map ((!) gs) (filter (\<lambda>i. layer_of gs i = k) [0..<m])) [0..<T])"
    using Suc by (simp add: T_def del: upt_Suc)
  moreover have "push_gate (map (layer_of gs) [0..<length gs])
      (map (\<lambda>k. ls ! k @ map ((!) gs) (filter (\<lambda>i. layer_of gs i = k) [0..<m])) [0..<T]) (gs ! m) =
    Inr ((map (\<lambda>k. ls ! k @ map ((!) gs) (filter (\<lambda>i. layer_of gs i = k) [0..<m])) [0..<T])
          [layer_of gs m := (ls ! layer_of gs m @
             map ((!) gs) (filter (\<lambda>i. layer_of gs i = layer_of gs m) [0..<m])) @ [gs ! m]])"
    using m id k by (simp add: push_gate_def del: upt_Suc)
  ultimately show ?case
    unfolding T_def[symmetric] using m
    by (simp only: take_Suc_conv_app_nth foldr_res_append foldr_res.simps bindr_simps)
qed

theorem level_order_layers:
  assumes "gates_ok (gates c)" "circ c = []"
  shows "level_order c =
     Inr (c\<lparr>circ := map (layer (gates c)) [0..<top_level (gates c) + 1], gates := []\<rparr>)"
proof -
  have r: "resize_layers (top_level (gates c) + 1) [] ! k = []" if "k < top_level (gates c) + 1" for k
    using that by (simp add: resize_layers_def del: replicate.simps)
  have "length (resize_layers (top_level (gates c) + 1) []) = top_level (gates c) + 1"
    by (simp add: resize_layers_def)
  from push_gates[OF order.refl assms(1) this]
  have "foldr_res (push_gate (map (layer_of (gates c)) [0..<length (gates c)]))
          (resize_layers (top_level (gates c) + 1) []) (gates c) =
        Inr (map (layer (gates c)) [0..<top_level (gates c) + 1])"
    using r by (simp add: layer_def del: upt_Suc cong: map_cong)
  then show ?thesis
    using assms by (simp add: level_order_def levels_of_ok)
qed

text \<open>
  The layers partition the gates, keep their order, and respect the data flow: a gate comes no
  earlier than what it reads, and strictly later if it is interactive.
\<close>

lemma layer_of_reads:
  assumes "gates_ok gs" "i < length gs" "j = in1_idx (gs ! i) \<or> j = in2_idx (gs ! i)" "j < i"
    "gt (gs ! i) \<noteq> Output" "gt (gs ! j) \<noteq> Output"
  shows "layer_of gs j + (if interactive (gs ! i) then 1 else 0) \<le> layer_of gs i"
proof -
  have split: "gs = (take i gs @ [gs ! i]) @ drop (Suc i) gs"
    using assms(2) by (simp add: id_take_nth_drop)
  have li: "length (take i gs) = i" using assms(2) by simp
  have "level_of gs ! i = level_of (take i gs @ [gs ! i]) ! i"
    by (subst split, rule level_of_append_nth) (use assms(2) in simp)
  also have "\<dots> = next_level (level_of (take i gs) @ [0]) (gs ! i)"
    using assms(5) li by (simp add: level_of_snoc nth_append)
  finally have i: "level_of gs ! i = next_level (level_of (take i gs) @ [0]) (gs ! i)" .
  have "level_of (take i gs @ drop i gs) ! j = level_of (take i gs) ! j"
    by (rule level_of_append_nth) (use assms(2,4) in simp)
  then have "level_of gs ! j = (level_of (take i gs) @ [0]) ! j"
    using assms(2,4) by (simp add: nth_append)
  then show ?thesis
    using assms(3,5,6) by (auto simp: layer_of_def i next_level_def)
qed

lemma output_last_layer: "gt (gs ! i) = Output \<Longrightarrow> layer_of gs i = top_level gs"
  by (simp add: layer_of_def)

lemma layer_members:
  "set (layer gs k) = {gs ! i | i. i < length gs \<and> layer_of gs i = k}"
  by (auto simp: layer_def)

section \<open>Properties\<close>

lemma mset_by_key:
  "mset (concat (map (\<lambda>k. filter (\<lambda>x. f x = k) xs) [0..<K])) = mset (filter (\<lambda>x. f x < K) xs)"
proof (induction K)
  case (Suc K)
  have "mset (filter (\<lambda>x. f x < Suc K) xs) =
      mset (filter (\<lambda>x. f x < K) xs) + mset (filter (\<lambda>x. f x = K) xs)"
    by (induction xs) (auto simp: less_Suc_eq)
  then show ?case using Suc by simp
qed simp

lemma mset_layers: "mset (concat (map (layer gs) [0..<top_level gs + 1])) = mset gs"
proof -
  have "concat (map (layer gs) [0..<top_level gs + 1]) =
      map ((!) gs) (concat (map (\<lambda>k. filter (\<lambda>i. layer_of gs i = k) [0..<length gs]) [0..<top_level gs + 1]))"
    by (simp add: layer_def[abs_def] map_concat comp_def del: upt_Suc)
  moreover have "filter (\<lambda>i. layer_of gs i < top_level gs + 1) [0..<length gs] = [0..<length gs]"
    using layer_of_le by (intro filter_True) (auto simp: less_Suc_eq_le)
  ultimately have "mset (concat (map (layer gs) [0..<top_level gs + 1])) = mset (map ((!) gs) [0..<length gs])"
    by (simp only: mset_map mset_by_key)
  then show ?thesis by (simp add: map_nth)
qed

text \<open>C11: Ordering the gates into layers keeps every gate exactly once, puts each gate into the layer of
  its depth, never before a gate it reads from, and an interactive gate strictly later, so that one
  message per layer is enough; outputs come last.\<close>

theorem layers_sound:
  assumes "gates_ok (gates c)" "circ c = []"
  shows "\<exists>c'. level_order c = Inr c' \<and> mset (concat (circ c')) = mset (gates c) \<and>
     (\<forall>i < length (gates c). layer_of (gates c) i < length (circ c') \<and>
        gates c ! i \<in> set (circ c' ! layer_of (gates c) i) \<and>
        (gt (gates c ! i) = Output \<longrightarrow> layer_of (gates c) i = length (circ c') - 1) \<and>
        (\<forall>j < i. (j = in1_idx (gates c ! i) \<or> j = in2_idx (gates c ! i)) \<and>
           gt (gates c ! i) \<noteq> Output \<and> gt (gates c ! j) \<noteq> Output \<longrightarrow>
           layer_of (gates c) j + (if interactive (gates c ! i) then 1 else 0) \<le> layer_of (gates c) i))"
proof -
  let ?gs = "gates c"
  define c' where "c' = c\<lparr>circ := map (layer ?gs) [0..<top_level ?gs + 1], gates := []\<rparr>"
  have lo: "level_order c = Inr c'" unfolding c'_def by (rule level_order_layers[OF assms])
  have len: "length (circ c') = top_level ?gs + 1" by (simp add: c'_def)
  have at: "circ c' ! k = layer ?gs k" if "k \<le> top_level ?gs" for k
    unfolding c'_def using that by (simp del: upt_Suc add: nth_append)
  have ms: "mset (concat (circ c')) = mset ?gs" unfolding c'_def using mset_layers[of ?gs] by simp
  have gate: "layer_of ?gs i < length (circ c') \<and> ?gs ! i \<in> set (circ c' ! layer_of ?gs i) \<and>
      (gt (?gs ! i) = Output \<longrightarrow> layer_of ?gs i = length (circ c') - 1)" if "i < length ?gs" for i
    using layer_of_le[OF that] that len at[of "layer_of ?gs i"] output_last_layer[of ?gs i]
    by (auto simp: layer_members)
  show ?thesis
    using lo ms gate layer_of_reads[OF assms(1)] by blast
qed

lemma layers_sound_witness:
  "\<exists>c'. level_order ((tiny_circuit 1)\<lparr>gates := [Gate_in Input 0 0, Gate_unary Reveal 1 0 1]\<rparr>) = Inr c' \<and>
     mset (concat (circ c')) = mset [Gate_in Input 0 0, Gate_unary Reveal 1 0 1]"
  using layers_sound[of "(tiny_circuit 1)\<lparr>gates := [Gate_in Input 0 0, Gate_unary Reveal 1 0 1]\<rparr>"]
  by (auto simp: gates_ok_def gate_ok_def less_Suc_eq Gate_in_def Gate_unary_def gate0_def tiny_circuit_def
      new_circuit_def)

end
