(* ===== verification/Build_Logic.thy ===== *)
theory Build_Logic
  imports Levels
begin

text \<open>
  A program logic for the construction of circuits. \<open>bld k c m Q\<close> says that the computation \<open>m\<close>
  extends the circuit \<open>c\<close> to a well-formed one in which \<open>Q\<close> holds of the result. The rules for
  sequencing and for adding one gate carry all proofs about primitives, phases and algorithms.
\<close>

section \<open>Well-formed circuits under construction\<close>

definition triple_type :: "gtype \<Rightarrow> bool" where
  "triple_type t \<longleftrightarrow> t = Compaction \<or> t = MulSIMD \<or> t = EQZ \<or> t = Bit2A"

definition shuffle_type :: "gtype \<Rightarrow> bool" where
  "shuffle_type t \<longleftrightarrow> t = Shuffle \<or> t = Unshuffle \<or> t = MergedShuffle"

definition triple_gates :: "gate list \<Rightarrow> gate list" where
  "triple_gates gs = filter (\<lambda>f. triple_type (gt f)) gs"

text \<open>Multiplications are numbered in the order in which they were created.\<close>

definition triples_numbered :: "gate list \<Rightarrow> bool" where
  "triples_numbered gs \<longleftrightarrow> map mult_idx (triple_gates gs) = [0..<length (triple_gates gs)]"

definition shuffles_within :: "nat \<Rightarrow> gate \<Rightarrow> bool" where
  "shuffles_within b f \<longleftrightarrow> (shuffle_type (gt f) \<longrightarrow> g_shuffle_idx f \<le> b) \<and>
     (gt f = MergedShuffle \<longrightarrow> pi_idx f \<le> b \<and> omega_idx f \<le> b)"

definition good :: "nat \<Rightarrow> circuit \<Rightarrow> bool" where
  "good k c \<longleftrightarrow> gates_ok (gates c) \<and> n_wires c = length (gates c) \<and>
     triples_numbered (gates c) \<and> n_mults c = length (triple_gates (gates c)) \<and>
     list_all (shuffles_within (shuffle_idx c + k)) (gates c)"

text \<open>What a step of the construction leaves alone.\<close>

definition ext :: "circuit \<Rightarrow> circuit \<Rightarrow> bool" where
  "ext c c' \<longleftrightarrow> (\<exists>gs. gates c' = gates c @ gs) \<and> n_wires c \<le> n_wires c' \<and>
     shuffle_idx c \<le> shuffle_idx c' \<and> inp c' = inp c \<and> ctx c' = ctx c \<and>
     c_size c' = c_size c \<and> c_nodes c' = c_nodes c \<and> c_bits c' = c_bits c \<and>
     c_depth c' = c_depth c \<and> columns c' = columns c \<and> circ c' = circ c \<and>
     outputs_in_input_order c' = outputs_in_input_order c \<and>
     reverse_passing c' = reverse_passing c \<and> deduplication c' = deduplication c \<and>
     can_enable_outputs_in_input_order c' = can_enable_outputs_in_input_order c \<and>
     can_enable_reverse_passing c' = can_enable_reverse_passing c \<and>
     can_enable_deduplication c' = can_enable_deduplication c"

lemma ext_refl [simp]: "ext c c"
  by (simp add: ext_def)

lemma ext_trans: "ext c c' \<Longrightarrow> ext c' c'' \<Longrightarrow> ext c c''"
  unfolding ext_def by auto

definition bld :: "nat \<Rightarrow> circuit \<Rightarrow> 'a build \<Rightarrow> ('a \<Rightarrow> circuit \<Rightarrow> bool) \<Rightarrow> bool" where
  "bld k c m Q \<longleftrightarrow>
     (good k c \<longrightarrow> (case run_state m c of (r, c') \<Rightarrow> good k c' \<and> ext c c' \<and> Q r c'))"

section \<open>Rules\<close>

lemma bld_return: "Q x c \<Longrightarrow> bld k c (State_Monad.return x) Q"
  by (simp add: bld_def State_Monad.return_def)

lemma bld_bind:
  assumes "bld k c m Q"
    and "\<And>r c'. good k c' \<Longrightarrow> ext c c' \<Longrightarrow> Q r c' \<Longrightarrow> bld k c' (f r) (\<lambda>x c''. ext c c'' \<longrightarrow> R x c'')"
  shows "bld k c (State_Monad.bind m f) R"
proof -
  obtain r c' where m: "run_state m c = (r, c')" by fastforce
  obtain x c'' where f: "run_state (f r) c' = (x, c'')" by fastforce
  have "run_state (State_Monad.bind m f) c = (x, c'')"
    by (simp add: State_Monad.bind_def m f)
  then show ?thesis
    using assms(1) assms(2)[of c' r] m f unfolding bld_def by (auto intro: ext_trans)
qed

lemma bld_get: "Q (f c) c \<Longrightarrow> bld k c (get_c f) Q"
  by (simp add: bld_def get_c_def)

lemma bld_conseq: "bld k c m Q \<Longrightarrow> (\<And>r c'. good k c' \<Longrightarrow> ext c c' \<Longrightarrow> Q r c' \<Longrightarrow> R r c') \<Longrightarrow> bld k c m R"
  by (auto simp: bld_def split: prod.splits)

lemma bld_update:
  assumes "good k c \<Longrightarrow> good k (f c) \<and> ext c (f c) \<and> Q () (f c)"
  shows "bld k c (update_c f) Q"
  using assms by (simp add: bld_def update_c_def)

lemma bld_then_guard:
  "(\<And>r. bld k (c\<lparr>c_raised := r\<rparr>) (f ()) R) \<Longrightarrow> bld k c (State_Monad.bind (guard_c p e) f) R"
  unfolding bld_def guard_c_def update_c_def State_Monad.bind_def
  by (simp add: good_def ext_def)

text \<open>The condition a gate meets when it is created.\<close>

definition gate_new :: "nat \<Rightarrow> nat \<Rightarrow> gate \<Rightarrow> bool" where
  "gate_new k n f \<longleftrightarrow> gate_ok n f \<and> shuffles_within k f"

lemma triple_gates_snoc:
  "triple_gates (gs @ [f]) = triple_gates gs @ (if triple_type (gt f) then [f] else [])"
  by (simp add: triple_gates_def)

lemma ext_append:
  "ext c (c\<lparr>n_wires := Suc (n_wires c), gates := gates c @ [f], n_mults := m, n_shuffles := s\<rparr>)"
  by (simp add: ext_def)

lemma good_append:
  assumes "good k c" "gate_new (shuffle_idx c + k) (n_wires c) f"
    "if triple_type (gt f) then mult_idx f = n_mults c \<and> m = Suc (n_mults c) else m = n_mults c"
  shows "good k (c\<lparr>n_wires := Suc (n_wires c), gates := gates c @ [f], n_mults := m, n_shuffles := s\<rparr>)"
  using assms
  by (auto simp: good_def gate_new_def gates_ok_snoc triples_numbered_def triple_gates_snoc
      split: if_splits)

lemma bld_new_gate:
  assumes "good k c \<Longrightarrow> gate_new (shuffle_idx c + k) (n_wires c) (mk c (n_wires c) (n_wires c))"
    "\<not> triple_type (gt (mk c (n_wires c) (n_wires c)))"
  shows "bld k c (new_gate mk) (\<lambda>r c'. r < n_wires c')"
  unfolding bld_def
proof
  assume g: "good k c"
  then have n: "length (gates c) = n_wires c" by (simp add: good_def)
  let ?f = "mk c (n_wires c) (n_wires c)"
  have "good k (c\<lparr>n_wires := Suc (n_wires c), gates := gates c @ [?f], n_mults := n_mults c, n_shuffles := n_shuffles c\<rparr>)"
    using g assms by (intro good_append) auto
  moreover have "ext c (c\<lparr>n_wires := Suc (n_wires c), gates := gates c @ [?f], n_mults := n_mults c, n_shuffles := n_shuffles c\<rparr>)"
    by (rule ext_append)
  ultimately show "case run_state (new_gate mk) c of (r, c') \<Rightarrow> good k c' \<and> ext c c' \<and> r < n_wires c'"
    by (simp add: new_gate_def n Let_def)
qed

lemma bld_new_shuffle:
  assumes "good k c \<Longrightarrow> gate_new (shuffle_idx c + k) (n_wires c) (mk c (n_wires c) (n_wires c))"
    "\<not> triple_type (gt (mk c (n_wires c) (n_wires c)))"
  shows "bld k c (do { out \<leftarrow> new_gate mk; bump_shuffles; State_Monad.return out })
           (\<lambda>r c'. r < n_wires c')"
  unfolding bld_def
proof
  assume g: "good k c"
  then have n: "length (gates c) = n_wires c" by (simp add: good_def)
  let ?f = "mk c (n_wires c) (n_wires c)"
  let ?c = "c\<lparr>n_wires := Suc (n_wires c), gates := gates c @ [?f], n_mults := n_mults c,
              n_shuffles := n_shuffles c + 1\<rparr>"
  have "good k ?c" using g assms by (intro good_append) auto
  moreover have "ext c ?c" by (rule ext_append)
  ultimately show "case run_state (do { out \<leftarrow> new_gate mk; bump_shuffles; State_Monad.return out }) c
      of (r, c') \<Rightarrow> good k c' \<and> ext c c' \<and> r < n_wires c'"
    by (simp add: State_Monad.bind_def State_Monad.return_def new_gate_def bump_shuffles_def
        update_c_def n Let_def)
qed

lemma bld_new_triple:
  assumes "good k c \<Longrightarrow> gate_new (shuffle_idx c + k) (n_wires c) (mk c (n_wires c) (n_wires c))"
    "triple_type (gt (mk c (n_wires c) (n_wires c)))"
    "mult_idx (mk c (n_wires c) (n_wires c)) = n_mults c"
  shows "bld k c (do { out \<leftarrow> new_gate mk; bump_mults; State_Monad.return out })
           (\<lambda>r c'. r < n_wires c')"
  unfolding bld_def
proof
  assume g: "good k c"
  then have n: "length (gates c) = n_wires c" by (simp add: good_def)
  let ?f = "mk c (n_wires c) (n_wires c)"
  let ?c = "c\<lparr>n_wires := Suc (n_wires c), gates := gates c @ [?f], n_mults := n_mults c + 1,
              n_shuffles := n_shuffles c\<rparr>"
  have "good k ?c" using g assms by (intro good_append) auto
  moreover have "ext c ?c" by (rule ext_append)
  ultimately show "case run_state (do { out \<leftarrow> new_gate mk; bump_mults; State_Monad.return out }) c
      of (r, c') \<Rightarrow> good k c' \<and> ext c c' \<and> r < n_wires c'"
    by (simp add: State_Monad.bind_def State_Monad.return_def new_gate_def bump_mults_def
        update_c_def n Let_def)
qed

section \<open>The primitives\<close>

named_theorems bld_rules \<open>specifications of the operations that construct circuits\<close>

lemmas gate_new_simps = gate_new_def gate_ok_def gate_ctors shuffles_within_def shuffle_type_def
  triple_type_def

lemma bld_input [bld_rules]: "bld k c c_input (\<lambda>r c'. r < n_wires c')"
  unfolding c_input_def by (rule bld_new_gate) (simp_all add: gate_new_simps)

lemma bld_output [bld_rules]: "w < n_wires c \<Longrightarrow> bld k c (c_output w) (\<lambda>_ _. True)"
  unfolding c_output_def
  by (rule bld_bind[OF bld_new_gate]) (auto simp: gate_new_simps intro: bld_return)

lemma bld_unary:
  assumes "w < n_wires c" "\<not> triple_type t" "\<not> shuffle_type t"
  shows "bld k c (new_gate (\<lambda>c i out. Gate_unary t i w out)) (\<lambda>r c'. r < n_wires c')"
  using assms by (intro bld_new_gate) (simp_all add: gate_new_simps)

lemma bld_const:
  assumes "w < n_wires c" "\<not> triple_type t" "\<not> shuffle_type t"
  shows "bld k c (new_gate (\<lambda>c i out. Gate_const t i w v out)) (\<lambda>r c'. r < n_wires c')"
  using assms by (intro bld_new_gate) (simp_all add: gate_new_simps)

lemma bld_binary:
  assumes "w1 < n_wires c" "w2 < n_wires c"
    "t \<in> {Propagate2, Permute, ReversePermute, AddSIMD, SubSIMD, Add, Sub}"
  shows "bld k c (new_gate (\<lambda>c i out. Gate3 (c_raw c) t i w1 w2 out)) (\<lambda>r c'. r < n_wires c')"
  using assms by (intro bld_new_gate) (auto simp: gate_new_simps)

lemma bld_locals [bld_rules]:
  "w < n_wires c \<Longrightarrow> bld k c (propagate_1 w) (\<lambda>r c'. r < n_wires c')"
  "w < n_wires c \<Longrightarrow> bld k c (gather_1 w) (\<lambda>r c'. r < n_wires c')"
  "w < n_wires c \<Longrightarrow> bld k c (gather_2 w) (\<lambda>r c'. r < n_wires c')"
  "w < n_wires c \<Longrightarrow> bld k c (c_reveal w) (\<lambda>r c'. r < n_wires c')"
  "w < n_wires c \<Longrightarrow> bld k c (deduplication_sub w) (\<lambda>r c'. r < n_wires c')"
  "w < n_wires c \<Longrightarrow> bld k c (deduplication_insert w) (\<lambda>r c'. r < n_wires c')"
  "w < n_wires c \<Longrightarrow> bld k c (flip_SIMD w) (\<lambda>r c'. r < n_wires c')"
  "w < n_wires c \<Longrightarrow> bld k c (mul_const_SIMD w v) (\<lambda>r c'. r < n_wires c')"
  "w < n_wires c \<Longrightarrow> bld k c (add_const_SIMD w v) (\<lambda>r c'. r < n_wires c')"
  unfolding propagate_1_def gather_1_def gather_2_def c_reveal_def deduplication_sub_def
    deduplication_insert_def flip_SIMD_def mul_const_SIMD_def add_const_SIMD_def
  by (simp_all add: bld_unary bld_const triple_type_def shuffle_type_def)

lemma bld_locals2 [bld_rules]:
  "w1 < n_wires c \<Longrightarrow> w2 < n_wires c \<Longrightarrow> bld k c (propagate_2 w1 w2) (\<lambda>r c'. r < n_wires c')"
  "w1 < n_wires c \<Longrightarrow> w2 < n_wires c \<Longrightarrow> bld k c (permute w1 w2) (\<lambda>r c'. r < n_wires c')"
  "w1 < n_wires c \<Longrightarrow> w2 < n_wires c \<Longrightarrow> bld k c (reverse_permute w1 w2) (\<lambda>r c'. r < n_wires c')"
  "w1 < n_wires c \<Longrightarrow> w2 < n_wires c \<Longrightarrow> bld k c (add_SIMD w1 w2) (\<lambda>r c'. r < n_wires c')"
  "w1 < n_wires c \<Longrightarrow> w2 < n_wires c \<Longrightarrow> bld k c (sub_SIMD w1 w2) (\<lambda>r c'. r < n_wires c')"
  unfolding propagate_2_def permute_def reverse_permute_def add_SIMD_def sub_SIMD_def
  by (simp_all add: bld_binary)

lemma bld_const_vec [bld_rules]: "bld k c (set_const_vec_SIMD vs) (\<lambda>r c'. r < n_wires c')"
  unfolding set_const_vec_SIMD_def by (rule bld_new_gate) (simp_all add: gate_new_simps)

lemma bld_column_sums [bld_rules]:
  "ws \<noteq> [] \<Longrightarrow> \<forall>w \<in> set ws. w < n_wires c \<Longrightarrow>
     bld k c (lib_column_sums_to_nodes ws) (\<lambda>r c'. r < n_wires c')"
  unfolding lib_column_sums_to_nodes_def column_sums_to_nodes_internal_def
  by (rule bld_new_gate) (simp_all add: gate_new_simps less_imp_le)

lemma bld_shuffles [bld_rules]:
  "w < n_wires c \<Longrightarrow> s \<le> shuffle_idx c + k \<Longrightarrow> bld k c (c_shuffle w s) (\<lambda>r c'. r < n_wires c')"
  "w < n_wires c \<Longrightarrow> s \<le> shuffle_idx c + k \<Longrightarrow> bld k c (c_unshuffle w s) (\<lambda>r c'. r < n_wires c')"
  "w < n_wires c \<Longrightarrow> s \<le> shuffle_idx c + k \<Longrightarrow> p \<le> shuffle_idx c + k \<Longrightarrow> q \<le> shuffle_idx c + k \<Longrightarrow>
     bld k c (merged_shuffle w s p q) (\<lambda>r c'. r < n_wires c')"
  unfolding c_shuffle_def c_unshuffle_def merged_shuffle_def
  by (rule bld_new_shuffle; simp add: gate_new_simps)+

lemma bld_triples [bld_rules]:
  "w < n_wires c \<Longrightarrow> bld k c (compaction w) (\<lambda>r c'. r < n_wires c')"
  "w < n_wires c \<Longrightarrow> bld k c (equals_zero_layer w sz l) (\<lambda>r c'. r < n_wires c')"
  "w < n_wires c \<Longrightarrow> bld k c (bit2A w sz) (\<lambda>r c'. r < n_wires c')"
  "w1 < n_wires c \<Longrightarrow> w2 < n_wires c \<Longrightarrow> bld k c (mul_SIMD w1 w2 sz b) (\<lambda>r c'. r < n_wires c')"
  unfolding compaction_def equals_zero_layer_def bit2A_def mul_SIMD_def
  by (rule bld_new_triple; simp add: gate_new_simps)+

text \<open>Wires stay valid as the circuit grows.\<close>

lemma ext_wires: "ext c c' \<Longrightarrow> w < n_wires c \<Longrightarrow> w < n_wires c'"
  by (simp add: ext_def)

lemma ext_shuffle_idx: "ext c c' \<Longrightarrow> s \<le> shuffle_idx c + k \<Longrightarrow> s \<le> shuffle_idx c' + k"
  by (simp add: ext_def)

lemma ext_le: "ext c c' \<Longrightarrow> n_wires c \<le> n_wires c' \<and> shuffle_idx c \<le> shuffle_idx c'"
  by (simp add: ext_def)

lemma ext_fields:
  "ext c c' \<Longrightarrow> c_size c' = c_size c \<and> c_nodes c' = c_nodes c \<and> c_bits c' = c_bits c \<and>
     c_depth c' = c_depth c \<and> columns c' = columns c \<and> circ c' = circ c"
  by (simp add: ext_def)

section \<open>Valid wires\<close>

definition valid :: "circuit \<Rightarrow> wire_id list \<Rightarrow> bool" where
  "valid c ws \<longleftrightarrow> (\<forall>w \<in> set ws. w < n_wires c)"

lemma valid_mono: "n_wires c \<le> n_wires c' \<Longrightarrow> valid c ws \<Longrightarrow> valid c' ws"
  unfolding valid_def by (meson order_less_le_trans)

lemma valid_ext: "ext c c' \<Longrightarrow> valid c ws \<Longrightarrow> valid c' ws"
  using ext_wires unfolding valid_def by blast

lemma valid_simps [simp]:
  "valid c []" "valid c (w # ws) \<longleftrightarrow> w < n_wires c \<and> valid c ws"
  "valid c (us @ ws) \<longleftrightarrow> valid c us \<and> valid c ws"
  by (auto simp: valid_def)

lemma valid_nth: "valid c ws \<Longrightarrow> i < length ws \<Longrightarrow> ws ! i < n_wires c"
  by (simp add: valid_def)

lemma ext_leE:
  "ext c c' \<Longrightarrow> (n_wires c \<le> n_wires c' \<Longrightarrow> shuffle_idx c \<le> shuffle_idx c' \<Longrightarrow> P) \<Longrightarrow> P"
  by (simp add: ext_def)

section \<open>Composition\<close>

lemma bld_seq:
  assumes "bld k c m Q"
    and "\<And>r c'. good k c' \<Longrightarrow> ext c c' \<Longrightarrow> Q r c' \<Longrightarrow> bld k c' (f r) R"
  shows "bld k c (State_Monad.bind m f) R"
  using assms by (intro bld_bind[OF assms(1)] bld_conseq[OF assms(2)]) auto

lemma bld_get_shuffle_idx [bld_rules]:
  "bld k c get_shuffle_idx (\<lambda>s c'. c' = c \<and> s = shuffle_idx c)"
  unfolding get_shuffle_idx_def by (rule bld_get) simp

lemma bld_get_c [bld_rules]: "bld k c (get_c f) (\<lambda>r c'. c' = c \<and> r = f c)"
  by (rule bld_get) simp

lemma shuffles_within_mono: "shuffles_within b f \<Longrightarrow> b \<le> b' \<Longrightarrow> shuffles_within b' f"
  by (auto simp: shuffles_within_def)

lemma good_more: "good k c \<Longrightarrow> k \<le> k' \<Longrightarrow> good k' c"
  unfolding good_def list_all_iff by (auto intro: shuffles_within_mono)

lemma good_bump: "good k c \<Longrightarrow> good k (c\<lparr>shuffle_idx := shuffle_idx c + 1\<rparr>)"
  by (auto simp: good_def list_all_iff shuffles_within_def le_SucI)

lemma bld_next_shuffle_idx [bld_rules]:
  "bld k c next_shuffle_idx (\<lambda>_ c'. shuffle_idx c' = shuffle_idx c + 1)"
  unfolding next_shuffle_idx_def by (rule bld_update) (use good_bump[of k c] in \<open>simp add: ext_def\<close>)

text \<open>Reading a field is no step: the value is substituted.\<close>

lemma bld_then_get: "bld k c (f (g c)) R \<Longrightarrow> bld k c (State_Monad.bind (get_c g) f) R"
  by (rule bld_seq[OF bld_get_c]) simp

lemma bld_then_shuffle_idx:
  "bld k c (f (shuffle_idx c)) R \<Longrightarrow> bld k c (State_Monad.bind get_shuffle_idx f) R"
  unfolding get_shuffle_idx_def by (rule bld_then_get)

text \<open>The rules as steps of a sequence.\<close>

lemmas bld_steps = bld_input[THEN bld_seq] bld_output[THEN bld_seq] bld_locals[THEN bld_seq]
  bld_locals2[THEN bld_seq] bld_const_vec[THEN bld_seq] bld_column_sums[THEN bld_seq]
  bld_shuffles[THEN bld_seq] bld_triples[THEN bld_seq] bld_then_shuffle_idx
  bld_then_get bld_next_shuffle_idx[THEN bld_seq]

lemma bld_fold:
  assumes "I b c" "\<And>x b c'. x \<in> set xs \<Longrightarrow> ext c c' \<Longrightarrow> I b c' \<Longrightarrow> bld k c' (f x b) I"
  shows "bld k c (fold_build f xs b) I"
  using assms
proof (induction xs arbitrary: b c)
  case Nil
  then show ?case by (simp add: bld_return)
next
  case (Cons x xs)
  have "bld k c (State_Monad.bind (f x b) (fold_build f xs)) I"
  proof (rule bld_seq)
    show "bld k c (f x b) I" using Cons.prems by simp
    fix r c' assume "ext c c'" "I r c'"
    then show "bld k c' (fold_build f xs r) I"
      using Cons.IH[of r c'] Cons.prems(2) ext_trans by (metis list.set_intros(2))
  qed
  then show ?case by simp
qed

lemma bld_sort_iteration [bld_rules]:
  assumes "perm < n_wires c" "keys < n_wires c"
  shows "bld k c (sort_iteration perm keys) (\<lambda>r c'. r < n_wires c')"
  unfolding sort_iteration_def
  by (intro bld_steps bld_return) (use assms in \<open>auto dest!: ext_le\<close>)

lemma bld_equals_zero [bld_rules]:
  "w < n_wires c \<Longrightarrow> bld k c (equals_zero w sz) (\<lambda>r c'. r < n_wires c')"
  unfolding equals_zero_def
  by (intro bld_steps bld_return) auto

lemma bld_clip [bld_rules]:
  "w < n_wires c \<Longrightarrow> bld k c (clip_SIMD w) (\<lambda>(r, w') c'. r < n_wires c' \<and> w' < n_wires c')"
  unfolding clip_SIMD_def
  by (intro bld_steps bld_equals_zero[THEN bld_seq] bld_return) (auto dest!: ext_le)

lemma bld_sort_fold [bld_rules]:
  assumes "valid c keys" "nb \<le> length keys" "perm < n_wires c"
  shows "bld k c (fold_build (\<lambda>bit p. sort_iteration p (keys ! bit)) [1..<nb] perm)
           (\<lambda>r c'. r < n_wires c')"
proof (rule bld_fold)
  fix b p c' assume b: "b \<in> set [1..<nb]" "ext c c'" "p < n_wires c'"
  then have "keys ! b < n_wires c'"
    using assms valid_ext[OF b(2) assms(1)] by (intro valid_nth) auto
  then show "bld k c' (sort_iteration p (keys ! b)) (\<lambda>r c'. r < n_wires c')"
    using b by (intro bld_sort_iteration)
qed (rule assms(3))

lemma bld_sort [bld_rules]:
  assumes "valid c keys" "nb \<le> length keys" "0 < nb"
  shows "bld k c (c_sort keys nb) (\<lambda>r c'. r < n_wires c')"
  unfolding c_sort_def
proof (rule bld_triples(1)[THEN bld_seq])
  show "keys ! 0 < n_wires c" using assms by (intro valid_nth) auto
  fix r c' assume "ext c c'" "r < n_wires c'"
  then show "bld k c' (fold_build (\<lambda>bit perm. sort_iteration perm (keys ! bit)) [1..<nb] r)
          (\<lambda>r c'. r < n_wires c')"
    using assms valid_ext by (intro bld_sort_fold) auto
qed

lemmas bld_steps' = bld_steps bld_sort_iteration[THEN bld_seq] bld_equals_zero[THEN bld_seq]
  bld_sort[THEN bld_seq] bld_sort_fold[THEN bld_seq]

lemma bld_input_list [bld_rules]:
  "bld k c (input_list n) (\<lambda>ws c'. length ws = n \<and> valid c' ws)"
proof -
  have "bld k c (fold_build (\<lambda>_ ws. do { w \<leftarrow> c_input; State_Monad.return (ws @ [w]) }) xs ws)
          (\<lambda>ws' c'. length ws' = length ws + length xs \<and> valid c' ws')"
    if "valid c ws" for xs :: "nat list" and ws c
    using that
  proof (induction xs arbitrary: ws c)
    case Nil
    then show ?case by (simp add: bld_return)
  next
    case (Cons x xs)
    have "bld k c (do { w \<leftarrow> c_input; State_Monad.return (ws @ [w]) })
            (\<lambda>ws' c'. length ws' = Suc (length ws) \<and> valid c' ws')"
      by (intro bld_steps bld_return) (use Cons.prems in \<open>auto dest: valid_ext\<close>)
    then have "bld k c (State_Monad.bind (do { w \<leftarrow> c_input; State_Monad.return (ws @ [w]) })
        (fold_build (\<lambda>_ ws. do { w \<leftarrow> c_input; State_Monad.return (ws @ [w]) }) xs))
        (\<lambda>ws' c'. length ws' = length ws + length (x # xs) \<and> valid c' ws')"
      by (rule bld_seq) (use bld_conseq[OF Cons.IH] in auto)
    then show ?case by simp
  qed
  from this[of c "[]" "[0..<n]"] show ?thesis by (simp add: input_list_def)
qed

end
