(* ===== verification/Dealer.thy ===== *)
theory Dealer
  imports Plain Build_Logic
begin

text \<open>
  The abstract specification of the offline phase: what the dealer hands out, as a pure function
  over the gates, without stores, buffers and their failures. For each online server \<open>p\<close> there
  are three streams it has in common with the dealer, a table of the legs it applies first when
  it sends (\<open>d_snd p\<close>) and of those it applies second (\<open>d_rcv p\<close>), and what the dealer sends.
\<close>

section \<open>The state of the dealer\<close>

record 'g dealer =
  d_send :: "party \<Rightarrow> 'g"
  d_recv :: "party \<Rightarrow> 'g"
  d_prep :: "party \<Rightarrow> 'g"
  d_self :: 'g
  d_snd :: "party \<Rightarrow> nat \<Rightarrow> permutation"
  d_rcv :: "party \<Rightarrow> nat \<Rightarrow> permutation"
  d_snd_given :: "party \<Rightarrow> nat \<Rightarrow> bool"
  d_rcv_given :: "party \<Rightarrow> nat \<Rightarrow> bool"
  d_to :: party
  d_pre :: "party \<Rightarrow> vec"
  d_corr :: "party \<Rightarrow> vec"
  d_mask :: "party \<Rightarrow> wire_id \<Rightarrow> vec"
  d_B :: "party \<Rightarrow> wire_id \<Rightarrow> vec"
  d_triple :: "party \<Rightarrow> nat \<Rightarrow> vec \<times> vec \<times> vec"

text \<open>The permutation of a shuffle, and whether it has been chosen.\<close>

definition d_perm :: "'g dealer \<Rightarrow> nat \<Rightarrow> permutation" where
  "d_perm \<delta> i = perm_mult (d_rcv \<delta> P0 i) (d_snd \<delta> P1 i)"

definition chosen :: "'g dealer \<Rightarrow> nat \<Rightarrow> bool" where
  "chosen \<delta> i \<longleftrightarrow> d_rcv \<delta> P0 i \<noteq> []"

definition upd2 :: "(party \<Rightarrow> 'k \<Rightarrow> 'a) \<Rightarrow> party \<Rightarrow> 'k \<Rightarrow> 'a \<Rightarrow> party \<Rightarrow> 'k \<Rightarrow> 'a" where
  "upd2 h p i x = h(p := (h p)(i := x))"

lemma upd2_apply [simp]: "upd2 h p i x q j = (if q = p \<and> j = i then x else h q j)"
  by (simp add: upd2_def)

section \<open>The steps\<close>

definition deal_masks :: "'g prg_ops \<Rightarrow> nat \<Rightarrow> wire_id \<Rightarrow> 'g dealer \<Rightarrow> 'g dealer" where
  "deal_masks P n w \<delta> =
     (let (R0, g0) = draw_vec P n (d_send \<delta> P0); (R1, g1) = draw_vec P n (d_send \<delta> P1)
      in \<delta>\<lparr>d_send := (d_send \<delta>)(P0 := g0, P1 := g1),
           d_mask := upd2 (upd2 (d_mask \<delta>) P0 w R0) P1 w R1\<rparr>)"

definition deal_corrections :: "'g prg_ops \<Rightarrow> bool \<Rightarrow> nat \<Rightarrow> wire_id \<Rightarrow> 'g dealer \<Rightarrow> 'g dealer" where
  "deal_corrections P inverted i w \<delta> =
     (let (R, g) = draw_ring P (d_self \<delta>);
          s = (if inverted then perm_inverse (d_perm \<delta> i) else d_perm \<delta> i);
          (B0, B1) = corrections s R (d_mask \<delta> P0 w) (d_mask \<delta> P1 w)
      in \<delta>\<lparr>d_self := g, d_B := upd2 (upd2 (d_B \<delta>) P0 w B0) P1 w B1,
           d_corr := (d_corr \<delta>)(P0 := d_corr \<delta> P0 @ B0, P1 := d_corr \<delta> P1 @ B1)\<rparr>)"

definition choose_legs :: "'g prg_ops \<Rightarrow> nat \<Rightarrow> nat \<Rightarrow> 'g dealer \<Rightarrow> 'g dealer" where
  "choose_legs P n i \<delta> =
     (let rand = random_loop P n in
      if d_to \<delta> = P1 then
        let (s0, g0) = rand (d_send \<delta> P0); (r0, h0) = rand (d_recv \<delta> P0);
            (s1, g1) = rand (d_send \<delta> P1);
            r1 = perm_mult (perm_mult r0 s1) (perm_inverse s0)
        in \<delta>\<lparr>d_send := (d_send \<delta>)(P0 := g0, P1 := g1), d_recv := (d_recv \<delta>)(P0 := h0),
             d_snd := upd2 (upd2 (d_snd \<delta>) P0 i s0) P1 i s1,
             d_rcv := upd2 (upd2 (d_rcv \<delta>) P0 i r0) P1 i r1,
             d_rcv_given := upd2 (d_rcv_given \<delta>) P1 i True,
             d_pre := (d_pre \<delta>)(P1 := d_pre \<delta> P1 @ r1)\<rparr>
      else
        let (s1, g1) = rand (d_send \<delta> P1); (r1, h1) = rand (d_recv \<delta> P1);
            (r0, h0) = rand (d_recv \<delta> P0);
            s0 = perm_mult (perm_mult (perm_inverse r1) r0) s1
        in \<delta>\<lparr>d_send := (d_send \<delta>)(P1 := g1), d_recv := (d_recv \<delta>)(P0 := h0, P1 := h1),
             d_snd := upd2 (upd2 (d_snd \<delta>) P0 i s0) P1 i s1,
             d_rcv := upd2 (upd2 (d_rcv \<delta>) P0 i r0) P1 i r1,
             d_snd_given := upd2 (d_snd_given \<delta>) P0 i True,
             d_pre := (d_pre \<delta>)(P0 := d_pre \<delta> P0 @ s0)\<rparr>)"

definition choose_merged :: "'g prg_ops \<Rightarrow> nat \<Rightarrow> gate \<Rightarrow> 'g dealer \<Rightarrow> 'g dealer" where
  "choose_merged P n f \<delta> =
     (let i = g_shuffle_idx f;
          m = perm_apply (d_perm \<delta> (pi_idx f)) (d_perm \<delta> (omega_idx f));
          (r0, h0) = random_loop P n (d_recv \<delta> P0); (r1, h1) = random_loop P n (d_recv \<delta> P1);
          s0 = perm_mult (perm_inverse r1) m; s1 = perm_mult (perm_inverse r0) m
      in \<delta>\<lparr>d_recv := (d_recv \<delta>)(P0 := h0, P1 := h1),
           d_snd := upd2 (upd2 (d_snd \<delta>) P0 i s0) P1 i s1,
           d_rcv := upd2 (upd2 (d_rcv \<delta>) P0 i r0) P1 i r1,
           d_snd_given := upd2 (upd2 (d_snd_given \<delta>) P0 i True) P1 i True,
           d_pre := (d_pre \<delta>)(P0 := d_pre \<delta> P0 @ s0, P1 := d_pre \<delta> P1 @ s1)\<rparr>)"

definition deal_shuffle :: "'g prg_ops \<Rightarrow> nat \<Rightarrow> gate \<Rightarrow> 'g dealer \<Rightarrow> 'g dealer" where
  "deal_shuffle P n f \<delta> =
     (let i = g_shuffle_idx f; w = out_idx f;
          \<delta>1 = deal_masks P n w \<delta>;
          \<delta>2 = (if chosen \<delta>1 i then \<delta>1 else choose_legs P n i \<delta>1);
          \<delta>3 = deal_corrections P False i w \<delta>2
      in \<delta>3\<lparr>d_to := other_recv (d_to \<delta>3)\<rparr>)"

definition deal_merged :: "'g prg_ops \<Rightarrow> nat \<Rightarrow> gate \<Rightarrow> 'g dealer \<Rightarrow> 'g dealer" where
  "deal_merged P n f \<delta> =
     (let i = g_shuffle_idx f; w = out_idx f;
          \<delta>1 = deal_masks P n w \<delta>;
          \<delta>2 = (if chosen \<delta>1 i then \<delta>1 else choose_merged P n f \<delta>1)
      in deal_corrections P False i w \<delta>2)"

definition deal_unshuffle :: "'g prg_ops \<Rightarrow> nat \<Rightarrow> gate \<Rightarrow> 'g dealer \<Rightarrow> 'g dealer" where
  "deal_unshuffle P n f \<delta> =
     deal_corrections P True (g_shuffle_idx f) (out_idx f) (deal_masks P n (out_idx f) \<delta>)"

definition join :: "bool \<Rightarrow> vec \<Rightarrow> vec \<Rightarrow> vec" where
  "join binary u v = (if binary then vxor u v else vadd u v)"

definition triple_width :: "nat \<Rightarrow> gate \<Rightarrow> nat" where
  "triple_width n f = (if gt f \<noteq> Compaction then g_size f else n)"

text \<open>
  A triple: the factors are random on both sides, the product is shared with one more random
  vector for the server that does not receive.
\<close>

definition deal_triple :: "'g prg_ops \<Rightarrow> nat \<Rightarrow> gate \<Rightarrow> 'g dealer \<Rightarrow> 'g dealer" where
  "deal_triple P n f \<delta> =
     (let b = g_binary f; m = triple_width n f;
          (a0, g0) = draw_vec P m (d_prep \<delta> P0); (a1, g1) = draw_vec P m (d_prep \<delta> P1);
          (b0, g0) = draw_vec P m g0; (b1, g1) = draw_vec P m g1;
          c = vmul b (join b a0 a1) (join b b0 b1);
          to = d_to \<delta>; q = other_recv to;
          (cq, gq) = draw_vec P m (if q = P0 then g0 else g1);
          ct = (if b then vxor c cq else vsub c cq);
          c0 = (if to = P0 then ct else cq); c1 = (if to = P0 then cq else ct)
      in \<delta>\<lparr>d_prep := (d_prep \<delta>)(P0 := (if q = P0 then gq else g0), P1 := (if q = P0 then g1 else gq)),
           d_triple := upd2 (upd2 (d_triple \<delta>) P0 (mult_idx f) (a0, b0, c0)) P1 (mult_idx f) (a1, b1, c1),
           d_pre := (d_pre \<delta>)(to := d_pre \<delta> to @ ct),
           d_to := q\<rparr>)"

definition deal_gate :: "'g prg_ops \<Rightarrow> nat \<Rightarrow> gate \<Rightarrow> 'g dealer \<Rightarrow> 'g dealer" where
  "deal_gate P n f \<delta> =
     (case gt f of
        Shuffle \<Rightarrow> deal_shuffle P n f \<delta>
      | MergedShuffle \<Rightarrow> deal_merged P n f \<delta>
      | Unshuffle \<Rightarrow> deal_unshuffle P n f \<delta>
      | Compaction \<Rightarrow> deal_triple P n f \<delta>
      | MulSIMD \<Rightarrow> deal_triple P n f \<delta>
      | EQZ \<Rightarrow> deal_triple P n f \<delta>
      | Bit2A \<Rightarrow> deal_triple P n f \<delta>
      | _ \<Rightarrow> \<delta>)"

definition deal :: "'g prg_ops \<Rightarrow> nat \<Rightarrow> gate list \<Rightarrow> 'g dealer \<Rightarrow> 'g dealer" where
  "deal P n gs \<delta> = fold (deal_gate P n) gs \<delta>"

lemma deal_Nil [simp]: "deal P n [] \<delta> = \<delta>"
  by (simp add: deal_def)

lemma deal_snoc: "deal P n (gs @ [f]) \<delta> = deal_gate P n f (deal P n gs \<delta>)"
  by (simp add: deal_def)

lemma deal_append: "deal P n (gs @ hs) \<delta> = deal P n hs (deal P n gs \<delta>)"
  by (simp add: deal_def)

text \<open>At the start nothing has been chosen.\<close>

definition deal_init :: "'g rngs \<Rightarrow> 'g dealer" where
  "deal_init r = \<lparr>d_send = (\<lambda>p. if p = P0 then rng_with_P0_send r else rng_with_P1_send r),
     d_recv = (\<lambda>p. if p = P0 then rng_with_P0_recv r else rng_with_P1_recv r),
     d_prep = (\<lambda>p. if p = P0 then rng_with_P0_prep r else rng_with_P1_prep r),
     d_self = rng_self r, d_snd = (\<lambda>_ _. []), d_rcv = (\<lambda>_ _. []),
     d_snd_given = (\<lambda>_ _. False), d_rcv_given = (\<lambda>_ _. False), d_to = P0,
     d_pre = (\<lambda>_. []), d_corr = (\<lambda>_. []), d_mask = (\<lambda>_ _. []), d_B = (\<lambda>_ _. []),
     d_triple = (\<lambda>_ _. ([], [], []))\<rparr>"

section \<open>Invariants\<close>

text \<open>Whatever has been chosen factors the permutation in both ways.\<close>

definition legs_inv :: "nat \<Rightarrow> 'g dealer \<Rightarrow> bool" where
  "legs_inv n \<delta> \<longleftrightarrow> d_to \<delta> \<noteq> D \<and>
     (\<forall>i. if chosen \<delta> i
          then legs_ok n (d_perm \<delta> i) (d_rcv \<delta> P0 i) (d_snd \<delta> P1 i) (d_snd \<delta> P0 i) (d_rcv \<delta> P1 i)
          else (\<forall>p. d_snd \<delta> p i = [] \<and> d_rcv \<delta> p i = [] \<and> \<not> d_snd_given \<delta> p i \<and> \<not> d_rcv_given \<delta> p i))"

lemma legs_inv_init: "legs_inv n (deal_init r)"
  by (simp add: legs_inv_def deal_init_def chosen_def)

text \<open>A gate can be dealt when the permutations it refers to have been chosen.\<close>

definition ready_gate :: "'g dealer \<Rightarrow> gate \<Rightarrow> bool" where
  "ready_gate \<delta> f \<longleftrightarrow> (gt f = Unshuffle \<longrightarrow> chosen \<delta> (g_shuffle_idx f)) \<and>
     (gt f = MergedShuffle \<longrightarrow> chosen \<delta> (pi_idx f) \<and> chosen \<delta> (omega_idx f))"

text \<open>The tables, which is all the invariant is about.\<close>

definition tables :: "'g dealer \<Rightarrow> _" where
  "tables \<delta> = (d_snd \<delta>, d_rcv \<delta>, d_snd_given \<delta>, d_rcv_given \<delta>)"

lemma tables_masks [simp]: "tables (deal_masks P n w \<delta>) = tables \<delta>" "d_to (deal_masks P n w \<delta>) = d_to \<delta>"
  by (simp_all add: deal_masks_def tables_def Let_def split_beta)

lemma tables_corrections [simp]:
  "tables (deal_corrections P b i w \<delta>) = tables \<delta>" "d_to (deal_corrections P b i w \<delta>) = d_to \<delta>"
  by (simp_all add: deal_corrections_def tables_def Let_def split_beta)

lemma tables_triple [simp]: "tables (deal_triple P n f \<delta>) = tables \<delta>"
  by (simp add: deal_triple_def tables_def Let_def split_beta)

lemma tables_to [simp]: "tables (\<delta>\<lparr>d_to := q\<rparr>) = tables \<delta>"
  by (simp add: tables_def)

lemma chosen_tables: "tables \<delta> = tables \<delta>' \<Longrightarrow> chosen \<delta> = chosen \<delta>' \<and> d_perm \<delta> = d_perm \<delta>'"
  by (auto simp: tables_def chosen_def d_perm_def)

lemma legs_inv_tables:
  "tables \<delta> = tables \<delta>' \<Longrightarrow> d_to \<delta>' \<noteq> D \<Longrightarrow> legs_inv n \<delta> \<Longrightarrow> legs_inv n \<delta>'"
  by (simp add: legs_inv_def tables_def chosen_def d_perm_def cong: if_cong)

lemma other_recv_D [simp]: "other_recv p \<noteq> D"
  by (simp add: other_recv_def)

text \<open>Choosing at one index.\<close>

definition chooses :: "nat \<Rightarrow> nat \<Rightarrow> 'g dealer \<Rightarrow> 'g dealer \<Rightarrow> bool" where
  "chooses n i \<delta> \<delta>' \<longleftrightarrow>
     legs_ok n (d_perm \<delta>' i) (d_rcv \<delta>' P0 i) (d_snd \<delta>' P1 i) (d_snd \<delta>' P0 i) (d_rcv \<delta>' P1 i) \<and>
     (\<forall>j p. j \<noteq> i \<longrightarrow> d_snd \<delta>' p j = d_snd \<delta> p j \<and> d_rcv \<delta>' p j = d_rcv \<delta> p j \<and>
        d_snd_given \<delta>' p j = d_snd_given \<delta> p j \<and> d_rcv_given \<delta>' p j = d_rcv_given \<delta> p j)"

lemma chooses_perm: "chooses n i \<delta> \<delta>' \<Longrightarrow> j \<noteq> i \<Longrightarrow> d_perm \<delta>' j = d_perm \<delta> j \<and> chosen \<delta>' j = chosen \<delta> j"
  by (simp add: chooses_def d_perm_def chosen_def)

lemma chooses_chosen: "chooses n i \<delta> \<delta>' \<Longrightarrow> 0 < n \<Longrightarrow> chosen \<delta>' i"
  using perm_ok_length[of n "d_rcv \<delta>' P0 i"] unfolding chooses_def chosen_def legs_ok_def by fastforce

lemma chooses_inv:
  assumes "chooses n i \<delta> \<delta>'" "legs_inv n \<delta>" "0 < n" "d_to \<delta>' \<noteq> D"
  shows "legs_inv n \<delta>'"
  unfolding legs_inv_def
proof (intro conjI allI)
  fix j
  show "if chosen \<delta>' j
        then legs_ok n (d_perm \<delta>' j) (d_rcv \<delta>' P0 j) (d_snd \<delta>' P1 j) (d_snd \<delta>' P0 j) (d_rcv \<delta>' P1 j)
        else (\<forall>p. d_snd \<delta>' p j = [] \<and> d_rcv \<delta>' p j = [] \<and> \<not> d_snd_given \<delta>' p j \<and> \<not> d_rcv_given \<delta>' p j)"
  proof (cases "j = i")
    case True
    then show ?thesis using assms chooses_chosen by (auto simp: chooses_def)
  next
    case False
    then show ?thesis
      using assms chooses_perm[OF assms(1) False] unfolding chooses_def legs_inv_def by metis
  qed
qed (rule assms(4))

lemma choose_legs_chooses:
  assumes "n < 2 ^ 31"
  shows "chooses n i \<delta> (choose_legs P n i \<delta>)" "d_to (choose_legs P n i \<delta>) = d_to \<delta>"
  using assms legs_to_P1[of n] legs_to_P0[of n] random_loop_ok[of n P]
  by (auto simp: choose_legs_def chooses_def d_perm_def Let_def split_beta)

lemma choose_merged_chooses:
  assumes "n < 2 ^ 31" "legs_inv n \<delta>" "chosen \<delta> (pi_idx f)" "chosen \<delta> (omega_idx f)"
  shows "chooses n (g_shuffle_idx f) \<delta> (choose_merged P n f \<delta>)" "d_to (choose_merged P n f \<delta>) = d_to \<delta>"
    and "d_perm (choose_merged P n f \<delta>) (g_shuffle_idx f) =
           perm_apply (d_perm \<delta> (pi_idx f)) (d_perm \<delta> (omega_idx f))"
proof -
  define m where "m = perm_apply (d_perm \<delta> (pi_idx f)) (d_perm \<delta> (omega_idx f))"
  have p: "perm_ok n (d_perm \<delta> (pi_idx f))" "perm_ok n (d_perm \<delta> (omega_idx f))"
    using assms(2-4) unfolding legs_inv_def legs_ok_def by metis+
  then have m: "perm_ok n m" unfolding m_def by (rule merged_perm_ok)
  define r0 where "r0 = fst (random_loop P n (d_recv \<delta> P0))"
  define r1 where "r1 = fst (random_loop P n (d_recv \<delta> P1))"
  have r: "perm_ok n r0" "perm_ok n r1" using random_loop_ok[OF assms(1)] by (simp_all add: r0_def r1_def)
  have l: "legs_ok n m r0 (perm_mult (perm_inverse r0) m) (perm_mult (perm_inverse r1) m) r1"
    using legs_merged[OF m r] .
  then have e: "perm_mult r0 (perm_mult (perm_inverse r0) m) = m" by (simp add: legs_ok_def)
  show "chooses n (g_shuffle_idx f) \<delta> (choose_merged P n f \<delta>)"
    using l e
    by (auto simp: choose_merged_def chooses_def d_perm_def Let_def split_beta m_def[symmetric, unfolded d_perm_def]
        r0_def r1_def)
  show "d_perm (choose_merged P n f \<delta>) (g_shuffle_idx f) =
           perm_apply (d_perm \<delta> (pi_idx f)) (d_perm \<delta> (omega_idx f))"
    using e by (simp add: choose_merged_def d_perm_def Let_def split_beta m_def[unfolded d_perm_def] r0_def)
  show "d_to (choose_merged P n f \<delta>) = d_to \<delta>"
    by (simp add: choose_merged_def Let_def split_beta)
qed

definition uses :: "gate \<Rightarrow> nat \<Rightarrow> bool" where
  "uses f i \<longleftrightarrow> (gt f = Shuffle \<or> gt f = MergedShuffle) \<and> g_shuffle_idx f = i"

text \<open>The legs that the dealer's state has for one index.\<close>

definition legs_at :: "'g dealer \<Rightarrow> nat \<Rightarrow> _" where
  "legs_at \<delta> i = (d_snd \<delta> P0 i, d_snd \<delta> P1 i, d_rcv \<delta> P0 i, d_rcv \<delta> P1 i, d_snd_given \<delta> P0 i,
     d_snd_given \<delta> P1 i, d_rcv_given \<delta> P0 i, d_rcv_given \<delta> P1 i)"

lemma legs_at_tables: "tables \<delta> = tables \<delta>' \<Longrightarrow> legs_at \<delta> i = legs_at \<delta>' i"
  by (simp add: tables_def legs_at_def)

lemma legs_at_chooses: "chooses n i \<delta> \<delta>' \<Longrightarrow> j \<noteq> i \<Longrightarrow> legs_at \<delta>' j = legs_at \<delta> j"
  by (simp add: chooses_def legs_at_def)

lemma legs_at_chosen: "legs_at \<delta> i = legs_at \<delta>' i \<Longrightarrow> chosen \<delta> i = chosen \<delta>' i \<and> d_perm \<delta> i = d_perm \<delta>' i"
  by (simp add: legs_at_def chosen_def d_perm_def)

text \<open>The effect of one gate on the tables: nothing, or a choice at its index.\<close>

lemma deal_gate_cases:
  assumes "legs_inv n \<delta>" "ready_gate \<delta> f" "n < 2 ^ 31"
  shows "d_to (deal_gate P n f \<delta>) \<noteq> D \<and>
     (tables (deal_gate P n f \<delta>) = tables \<delta> \<and> (\<forall>i. uses f i \<longrightarrow> chosen \<delta> i) \<or>
      uses f (g_shuffle_idx f) \<and> \<not> chosen \<delta> (g_shuffle_idx f) \<and>
      chooses n (g_shuffle_idx f) \<delta> (deal_gate P n f \<delta>) \<and>
      (gt f = MergedShuffle \<longrightarrow> d_perm (deal_gate P n f \<delta>) (g_shuffle_idx f) =
           perm_apply (d_perm \<delta> (pi_idx f)) (d_perm \<delta> (omega_idx f))))"
proof -
  let ?i = "g_shuffle_idx f" and ?w = "out_idx f"
  define \<delta>1 where "\<delta>1 = deal_masks P n ?w \<delta>"
  have t1: "tables \<delta>1 = tables \<delta>" "d_to \<delta>1 = d_to \<delta>" by (simp_all add: \<delta>1_def)
  have i1: "legs_inv n \<delta>1"
    using legs_inv_tables[OF t1(1)[symmetric] _ assms(1)] t1(2) assms(1) by (simp add: legs_inv_def)
  have c1: "chosen \<delta>1 = chosen \<delta>" "d_perm \<delta>1 = d_perm \<delta>" using chosen_tables[OF t1(1)] by auto
  have tr: "chooses n i \<delta> \<delta>'" if "chooses n i \<delta>1 \<delta>2" "tables \<delta>' = tables \<delta>2" for i \<delta>2 \<delta>' 
    using that t1(1) chosen_tables[OF that(2)] unfolding chooses_def tables_def by simp
  have D: "d_to \<delta> \<noteq> D" using assms(1) by (simp add: legs_inv_def)
  consider (sh) "gt f = Shuffle" | (me) "gt f = MergedShuffle" | (un) "gt f = Unshuffle"
    | (tri) "triple_type (gt f)" | (oth) "deal_gate P n f \<delta> = \<delta>" "\<forall>i. \<not> uses f i"
    by (cases "gt f") (auto simp: triple_type_def deal_gate_def uses_def)
  then show ?thesis
  proof cases
    case sh
    show ?thesis
    proof (cases "chosen \<delta> ?i")
      case True
      then have "tables (deal_gate P n f \<delta>) = tables \<delta>"
        using sh t1 c1 by (simp add: deal_gate_def deal_shuffle_def Let_def \<delta>1_def[symmetric])
      then show ?thesis using sh True D
        by (auto simp: uses_def deal_gate_def deal_shuffle_def Let_def)
    next
      case False
      define \<delta>2 where "\<delta>2 = choose_legs P n ?i \<delta>1"
      have e: "deal_gate P n f \<delta> = (let \<delta>3 = deal_corrections P False ?i ?w \<delta>2 in \<delta>3\<lparr>d_to := other_recv (d_to \<delta>3)\<rparr>)"
        using sh False c1 by (simp add: deal_gate_def deal_shuffle_def Let_def \<delta>1_def[symmetric] \<delta>2_def)
      have "tables (deal_gate P n f \<delta>) = tables \<delta>2"
        unfolding e Let_def using tables_corrections(1)[of P False ?i ?w \<delta>2] by (simp add: tables_def)
      then show ?thesis
        using tr[OF choose_legs_chooses(1)[OF assms(3), of ?i \<delta>1 P]] sh False
        unfolding \<delta>2_def by (simp add: uses_def e Let_def \<delta>2_def)
    qed
  next
    case me
    show ?thesis
    proof (cases "chosen \<delta> ?i")
      case True
      then have "tables (deal_gate P n f \<delta>) = tables \<delta>"
        using me t1 c1 by (simp add: deal_gate_def deal_merged_def Let_def \<delta>1_def[symmetric])
      then show ?thesis using me True D
        by (auto simp: uses_def deal_gate_def deal_merged_def Let_def t1 c1 \<delta>1_def[symmetric])
    next
      case False
      define \<delta>2 where "\<delta>2 = choose_merged P n f \<delta>1"
      have e: "deal_gate P n f \<delta> = deal_corrections P False ?i ?w \<delta>2"
        using me False c1 by (simp add: deal_gate_def deal_merged_def Let_def \<delta>1_def[symmetric] \<delta>2_def)
      have ch: "chosen \<delta>1 (pi_idx f)" "chosen \<delta>1 (omega_idx f)"
        using assms(2) me c1 by (simp_all add: ready_gate_def)
      note cm = choose_merged_chooses[OF assms(3) i1 ch, of P]
      have t: "tables (deal_gate P n f \<delta>) = tables \<delta>2" unfolding e by simp
      show ?thesis
        using tr[OF cm(1) t[unfolded \<delta>2_def]] cm(2,3) chosen_tables[OF t] me False D t1(2) c1
        by (simp add: uses_def e \<delta>2_def)
    qed
  next
    case un
    then have "tables (deal_gate P n f \<delta>) = tables \<delta>" "d_to (deal_gate P n f \<delta>) = d_to \<delta>"
      by (simp_all add: deal_gate_def deal_unshuffle_def)
    then show ?thesis using un D by (simp add: uses_def)
  next
    case tri
    then have e: "deal_gate P n f \<delta> = deal_triple P n f \<delta>"
      by (auto simp: triple_type_def deal_gate_def)
    have "d_to (deal_triple P n f \<delta>) \<noteq> D" by (simp add: deal_triple_def Let_def split_beta)
    then show ?thesis using tri unfolding e by (auto simp: uses_def triple_type_def)
  next
    case oth
    then show ?thesis using D by simp
  qed
qed

lemma deal_gate_inv:
  assumes "legs_inv n \<delta>" "ready_gate \<delta> f" "0 < n" "n < 2 ^ 31"
  shows "legs_inv n (deal_gate P n f \<delta>)"
    and "chosen (deal_gate P n f \<delta>) i \<longleftrightarrow> chosen \<delta> i \<or> uses f i"
    and "chosen \<delta> i \<or> \<not> uses f i \<Longrightarrow> legs_at (deal_gate P n f \<delta>) i = legs_at \<delta> i"
proof -
  let ?\<delta> = "deal_gate P n f \<delta>"
  have c: "d_to ?\<delta> \<noteq> D" "tables ?\<delta> = tables \<delta> \<and> (\<forall>i. uses f i \<longrightarrow> chosen \<delta> i) \<or>
      uses f (g_shuffle_idx f) \<and> \<not> chosen \<delta> (g_shuffle_idx f) \<and> chooses n (g_shuffle_idx f) \<delta> ?\<delta>"
    using deal_gate_cases[OF assms(1,2,4), of P] by auto
  show "legs_inv n ?\<delta>"
    using c legs_inv_tables[of \<delta> ?\<delta> n] chooses_inv[of n _ \<delta> ?\<delta>] assms(1,3) by metis
  show "chosen ?\<delta> i \<longleftrightarrow> chosen \<delta> i \<or> uses f i"
  proof (cases "tables ?\<delta> = tables \<delta> \<and> (\<forall>i. uses f i \<longrightarrow> chosen \<delta> i)")
    case True
    then show ?thesis using chosen_tables[of ?\<delta> \<delta>] by auto
  next
    case False
    then have "chooses n (g_shuffle_idx f) \<delta> ?\<delta>" "uses f (g_shuffle_idx f)" using c(2) by auto
    then show ?thesis
      using chooses_chosen[OF _ assms(3)] chooses_perm by (metis uses_def)
  qed
  show "legs_at ?\<delta> i = legs_at \<delta> i" if "chosen \<delta> i \<or> \<not> uses f i"
    using c(2) that legs_at_tables[of ?\<delta> \<delta> i] legs_at_chooses[of n "g_shuffle_idx f" \<delta> ?\<delta> i]
    by (metis uses_def)
qed

end
