(* ===== verification/Dealer_Refine.thy ===== *)
theory Dealer_Refine
  imports Dealer
begin

text \<open>
  The dealer's run of \<open>Preprocessor::preprocess\<close> refines the specification: whatever the store
  (memory or files), the tables, streams and outgoing buffers of the object are those of the
  abstract dealer, and no step fails.
\<close>

section \<open>The refinement relation\<close>

definition out_pre :: "party \<Rightarrow> 'g storage \<Rightarrow> vec" where
  "out_pre p s = (if st_ssd s then fw_content (preproc_disk s ! party_num p) else preproc s ! party_num p)"

definition out_B :: "party \<Rightarrow> 'g storage \<Rightarrow> vec" where
  "out_B p s = (if st_ssd s then fw_content (B_disk s ! party_num p) else st_B s ! party_num p)"

definition fw_unread :: "file_writer \<Rightarrow> bool" where
  "fw_unread f \<longleftrightarrow> fw_size f = length (fw_content f) \<and> fw_read_idx f = 0"

definition out_ok :: "'g storage \<Rightarrow> bool" where
  "out_ok s \<longleftrightarrow> (if st_ssd s then length (preproc_disk s) = 2 \<and> length (B_disk s) = 2 \<and>
                     list_all fw_unread (preproc_disk s) \<and> list_all fw_unread (B_disk s)
                else length (preproc s) = 2 \<and> length (st_B s) = 2)"

definition D_streams :: "'g rngs \<Rightarrow> 'g dealer \<Rightarrow> bool" where
  "D_streams r \<delta> \<longleftrightarrow> i_am_D r \<and>
     d_send \<delta> P0 = rng_with_P0_send r \<and> d_send \<delta> P1 = rng_with_P1_send r \<and>
     d_recv \<delta> P0 = rng_with_P0_recv r \<and> d_recv \<delta> P1 = rng_with_P1_recv r \<and>
     d_prep \<delta> P0 = rng_with_P0_prep r \<and> d_prep \<delta> P1 = rng_with_P1_prep r \<and> d_self \<delta> = rng_self r"

definition D_rel :: "nat \<Rightarrow> nat \<Rightarrow> 'g storage \<Rightarrow> 'g dealer \<Rightarrow> bool" where
  "D_rel n K s \<delta> \<longleftrightarrow> st_id s = D \<and> st_size s = n \<and> D_streams (random_generators s) \<delta> \<and>
     pi_0 s = map (d_rcv \<delta> P0) [0..<K] \<and> pi_1 s = map (d_snd \<delta> P1) [0..<K] \<and>
     length (preprocessed s) = K \<and> out_ok s \<and>
     (\<forall>p. p \<noteq> D \<longrightarrow> out_pre p s = d_pre \<delta> p \<and> out_B p s = d_corr \<delta> p)"

section \<open>Appending to the buffers\<close>

lemma party_num_online: "p \<noteq> D \<Longrightarrow> party_num p < 2"
  by (cases p) auto

lemma party_num_inj: "p \<noteq> D \<Longrightarrow> q \<noteq> D \<Longrightarrow> party_num p = party_num q \<longleftrightarrow> p = q"
  by (cases p; cases q) auto

lemma fw_unread_write [simp]: "fw_unread f \<Longrightarrow> fw_unread (fw_write f v)"
  by (simp add: fw_unread_def fw_write_def)

lemma store_vec_out:
  assumes "out_ok s" "p \<noteq> D"
  shows "\<exists>s'. store_vec p v s = Inr s' \<and> out_ok s' \<and>
     (\<forall>q. q \<noteq> D \<longrightarrow> out_pre q s' = (if q = p then out_pre p s @ v else out_pre q s) \<and>
                    out_B q s' = out_B q s) \<and>
     s' = s\<lparr>preproc := preproc s', preproc_disk := preproc_disk s'\<rparr>"
proof (cases "st_ssd s")
  case True
  then show ?thesis
    using assms party_num_online[OF assms(2)]
    by (auto simp: store_vec_def append_preproc_def out_ok_def out_pre_def out_B_def fw_write_def
        nth_list_update party_num_inj list_all_length fw_unread_def)
next
  case False
  then show ?thesis
    using assms party_num_online[OF assms(2)]
    by (auto simp: store_vec_def append_preproc_def out_ok_def out_pre_def out_B_def
        nth_list_update party_num_inj)
qed

lemma store_B_out:
  assumes "out_ok s" "p \<noteq> D"
  shows "\<exists>s'. store_B p v s = Inr s' \<and> out_ok s' \<and>
     (\<forall>q. q \<noteq> D \<longrightarrow> out_B q s' = (if q = p then out_B p s @ v else out_B q s) \<and>
                    out_pre q s' = out_pre q s) \<and>
     s' = s\<lparr>st_B := st_B s', B_disk := B_disk s'\<rparr>"
proof (cases "st_ssd s")
  case True
  then show ?thesis
    using assms party_num_online[OF assms(2)]
    by (auto simp: store_B_def append_B_def out_ok_def out_pre_def out_B_def fw_write_def
        nth_list_update party_num_inj list_all_length fw_unread_def)
next
  case False
  then show ?thesis
    using assms party_num_online[OF assms(2)]
    by (auto simp: store_B_def append_B_def out_ok_def out_pre_def out_B_def
        nth_list_update party_num_inj)
qed

text \<open>The fields the relation does not mention may change; the streams are replaced together.\<close>

lemma D_rel_store_vec:
  assumes "D_rel n K s \<delta>" "p \<noteq> D"
  shows "\<exists>s'. store_vec p v s = Inr s' \<and> D_rel n K s' (\<delta>\<lparr>d_pre := (d_pre \<delta>)(p := d_pre \<delta> p @ v)\<rparr>)"
proof -
  obtain s' where s': "store_vec p v s = Inr s'" "out_ok s'"
    "\<forall>q. q \<noteq> D \<longrightarrow> out_pre q s' = (if q = p then out_pre p s @ v else out_pre q s) \<and> out_B q s' = out_B q s"
    and e: "s' = s\<lparr>preproc := preproc s', preproc_disk := preproc_disk s'\<rparr>"
    using store_vec_out[of s p v] assms by (auto simp: D_rel_def)
  have f: "st_id s' = st_id s" "st_size s' = st_size s" "random_generators s' = random_generators s"
    "pi_0 s' = pi_0 s" "pi_1 s' = pi_1 s" "preprocessed s' = preprocessed s"
    by (subst e, simp)+
  show ?thesis
    using assms s' f unfolding D_rel_def D_streams_def by auto
qed

lemma D_rel_store_B:
  assumes "D_rel n K s \<delta>" "p \<noteq> D"
  shows "\<exists>s'. store_B p v s = Inr s' \<and> D_rel n K s' (\<delta>\<lparr>d_corr := (d_corr \<delta>)(p := d_corr \<delta> p @ v)\<rparr>)"
proof -
  obtain s' where s': "store_B p v s = Inr s'" "out_ok s'"
    "\<forall>q. q \<noteq> D \<longrightarrow> out_B q s' = (if q = p then out_B p s @ v else out_B q s) \<and> out_pre q s' = out_pre q s"
    and e: "s' = s\<lparr>st_B := st_B s', B_disk := B_disk s'\<rparr>"
    using store_B_out[of s p v] assms by (auto simp: D_rel_def)
  have f: "st_id s' = st_id s" "st_size s' = st_size s" "random_generators s' = random_generators s"
    "pi_0 s' = pi_0 s" "pi_1 s' = pi_1 s" "preprocessed s' = preprocessed s"
    by (subst e, simp)+
  show ?thesis
    using assms s' f unfolding D_rel_def D_streams_def by auto
qed

lemma D_rel_rngs:
  assumes "D_rel n K s \<delta>" "D_streams r (\<delta>\<lparr>d_send := a, d_recv := b, d_prep := c, d_self := e\<rparr>)"
  shows "D_rel n K (s\<lparr>random_generators := r\<rparr>) (\<delta>\<lparr>d_send := a, d_recv := b, d_prep := c, d_self := e\<rparr>)"
  using assms by (auto simp: D_rel_def out_ok_def out_pre_def out_B_def)

text \<open>Ghost fields of the specification do not matter for the relation.\<close>

definition concrete :: "'g dealer \<Rightarrow> _" where
  "concrete \<delta> = ((d_send \<delta> P0, d_send \<delta> P1), (d_recv \<delta> P0, d_recv \<delta> P1), (d_prep \<delta> P0, d_prep \<delta> P1),
     d_self \<delta>, d_rcv \<delta> P0, d_snd \<delta> P1, (d_pre \<delta> P0, d_pre \<delta> P1), (d_corr \<delta> P0, d_corr \<delta> P1))"

lemma D_rel_concrete: "concrete \<delta> = concrete \<delta>' \<Longrightarrow> D_rel n K s \<delta> \<Longrightarrow> D_rel n K s \<delta>'"
  unfolding D_rel_def D_streams_def concrete_def by (auto elim!: party.exhaust)
     (metis party.exhaust)+

section \<open>Draws\<close>

lemmas D_unfold = with_rng_def Let_def split_beta D_rel_def D_streams_def out_ok_def out_pre_def out_B_def

lemma D_draws:
  assumes "D_rel n K s \<delta>"
  shows "\<exists>s'. from_P0_send f s = Inr (fst (f (d_send \<delta> P0)), s') \<and>
      D_rel n K s' (\<delta>\<lparr>d_send := (d_send \<delta>)(P0 := snd (f (d_send \<delta> P0)))\<rparr>)"
    "\<exists>s'. from_P1_send f s = Inr (fst (f (d_send \<delta> P1)), s') \<and>
      D_rel n K s' (\<delta>\<lparr>d_send := (d_send \<delta>)(P1 := snd (f (d_send \<delta> P1)))\<rparr>)"
    "\<exists>s'. from_P0_recv f s = Inr (fst (f (d_recv \<delta> P0)), s') \<and>
      D_rel n K s' (\<delta>\<lparr>d_recv := (d_recv \<delta>)(P0 := snd (f (d_recv \<delta> P0)))\<rparr>)"
    "\<exists>s'. from_P1_recv f s = Inr (fst (f (d_recv \<delta> P1)), s') \<and>
      D_rel n K s' (\<delta>\<lparr>d_recv := (d_recv \<delta>)(P1 := snd (f (d_recv \<delta> P1)))\<rparr>)"
    "\<exists>s'. from_P0_prep f s = Inr (fst (f (d_prep \<delta> P0)), s') \<and>
      D_rel n K s' (\<delta>\<lparr>d_prep := (d_prep \<delta>)(P0 := snd (f (d_prep \<delta> P0)))\<rparr>)"
    "\<exists>s'. from_P1_prep f s = Inr (fst (f (d_prep \<delta> P1)), s') \<and>
      D_rel n K s' (\<delta>\<lparr>d_prep := (d_prep \<delta>)(P1 := snd (f (d_prep \<delta> P1)))\<rparr>)"
    "\<exists>s'. from_self f s = Inr (fst (f (d_self \<delta>)), s') \<and>
      D_rel n K s' (\<delta>\<lparr>d_self := snd (f (d_self \<delta>))\<rparr>)"
  using assms by (auto simp: D_unfold)

lemma D_draw_masks:
  assumes "D_rel n K s \<delta>"
  shows "\<exists>s'. draw_masks P s = Inr ((d_mask (deal_masks P n w \<delta>) P0 w, d_mask (deal_masks P n w \<delta>) P1 w), s') \<and>
     D_rel n K s' (deal_masks P n w \<delta>)"
proof -
  let ?f = "draw_vec P n"
  have n: "st_size s = n" using assms by (simp add: D_rel_def)
  obtain s1 where 1: "from_P0_send ?f s = Inr (fst (?f (d_send \<delta> P0)), s1)"
    "D_rel n K s1 (\<delta>\<lparr>d_send := (d_send \<delta>)(P0 := snd (?f (d_send \<delta> P0)))\<rparr>)"
    using D_draws(1)[OF assms] by blast
  have n1: "st_size s1 = n" using 1(2) by (simp add: D_rel_def)
  obtain s2 where 2: "from_P1_send ?f s1 = Inr (fst (?f (d_send \<delta> P1)), s2)"
    "D_rel n K s2 (\<delta>\<lparr>d_send := (d_send \<delta>)(P0 := snd (?f (d_send \<delta> P0)), P1 := snd (?f (d_send \<delta> P1)))\<rparr>)"
    using D_draws(2)[OF 1(2), of ?f] by auto
  have "D_rel n K s2 (deal_masks P n w \<delta>)"
    by (rule D_rel_concrete[OF _ 2(2)]) (simp add: concrete_def deal_masks_def Let_def split_beta)
  then show ?thesis
    using 1(1) 2(1) n n1 by (simp add: draw_masks_def deal_masks_def Let_def split_beta)
qed

section \<open>Tables\<close>

lemma legs_inv_chosen:
  "legs_inv n \<delta> \<Longrightarrow> chosen \<delta> i \<Longrightarrow>
     legs_ok n (d_perm \<delta> i) (d_rcv \<delta> P0 i) (d_snd \<delta> P1 i) (d_snd \<delta> P0 i) (d_rcv \<delta> P1 i)"
  unfolding legs_inv_def by presburger

lemma map_upt_update: "(map h [0..<K])[i := x] = map (h(i := x)) [0..<K]"
  by (rule nth_equalityI) (auto simp: nth_list_update)

lemma upd2_row: "upd2 h p i x q = (if q = p then (h q)(i := x) else h q)"
  by (simp add: upd2_def)

lemma D_rel_choose:
  assumes "D_rel n K s \<delta>"
  shows "D_rel n K (s\<lparr>pi_0 := (pi_0 s)[i := p], pi_1 := (pi_1 s)[i := q]\<rparr>)
     (\<delta>\<lparr>d_rcv := upd2 (d_rcv \<delta>) P0 i p, d_snd := upd2 (d_snd \<delta>) P1 i q\<rparr>)"
  using assms by (auto simp: D_rel_def D_streams_def out_ok_def out_pre_def out_B_def map_upt_update upd2_def)

lemma D_rel_tables:
  assumes "D_rel n K s \<delta>" "i < K"
  shows "at_res (pi_0 s) i = Inr (d_rcv \<delta> P0 i)" "at_res (pi_1 s) i = Inr (d_snd \<delta> P1 i)"
    "i < length (pi_0 s)" "i < length (pi_1 s)"
  using assms by (auto simp: D_rel_def)

lemma D_mark:
  assumes "D_rel n K s \<delta>" "i < K"
  shows "\<exists>s'. mark_preprocessed i s = Inr s' \<and> D_rel n K s' \<delta>"
  using assms by (auto simp: mark_preprocessed_def D_rel_def D_streams_def out_ok_def out_pre_def out_B_def)

lemma D_sample_shuffle:
  assumes "D_rel n K s \<delta>" "i < K" "n < 2 ^ 31" "d_to \<delta> \<noteq> D"
  shows "\<exists>s'. sample_shuffle P i (d_to \<delta>) s = Inr s' \<and> D_rel n K s' (choose_legs P n i \<delta>)"
proof -
  let ?f = "random_loop P n"
  have n: "st_size s = n" using assms(1) by (simp add: D_rel_def)
  note small = draw_perm_small[OF assms(3)]
  note ok = random_loop_ok[OF assms(3), of P]
  have fin: "\<exists>s'. (bindr (put_res (pi_0 s4) i p0) (\<lambda>q0. bindr (put_res (pi_1 s4) i p1) (\<lambda>q1.
        Inr (s4\<lparr>pi_0 := q0, pi_1 := q1\<rparr>)))) = Inr s' \<and> D_rel n K s' (choose_legs P n i \<delta>)"
    if "D_rel n K s4 \<delta>4"
      "concrete (\<delta>4\<lparr>d_rcv := upd2 (d_rcv \<delta>4) P0 i p0, d_snd := upd2 (d_snd \<delta>4) P1 i p1\<rparr>) =
       concrete (choose_legs P n i \<delta>)" for s4 \<delta>4 p0 p1
    using D_rel_concrete[OF that(2) D_rel_choose[OF that(1)]] D_rel_tables[OF that(1) assms(2)] by simp
  show ?thesis
  proof (cases "d_to \<delta> = P1")
    case True
    obtain s1 where 1: "from_P0_send ?f s = Inr (fst (?f (d_send \<delta> P0)), s1)"
      "D_rel n K s1 (\<delta>\<lparr>d_send := (d_send \<delta>)(P0 := snd (?f (d_send \<delta> P0)))\<rparr>)" (is "D_rel n K s1 ?\<delta>1")
      using D_draws(1)[OF assms(1)] by blast
    obtain s2 where 2: "from_P0_recv ?f s1 = Inr (fst (?f (d_recv \<delta> P0)), s2)"
      "D_rel n K s2 (?\<delta>1\<lparr>d_recv := (d_recv \<delta>)(P0 := snd (?f (d_recv \<delta> P0)))\<rparr>)" (is "D_rel n K s2 ?\<delta>2")
      using D_draws(3)[OF 1(2), of ?f] by auto
    obtain s3 where 3: "from_P1_send ?f s2 = Inr (fst (?f (d_send \<delta> P1)), s3)"
      "D_rel n K s3 (?\<delta>2\<lparr>d_send := (d_send ?\<delta>2)(P1 := snd (?f (d_send \<delta> P1)))\<rparr>)" (is "D_rel n K s3 ?\<delta>3")
      using D_draws(2)[OF 2(2), of ?f] by auto
    let ?p1p = "perm_mult (perm_mult (fst (?f (d_recv \<delta> P0))) (fst (?f (d_send \<delta> P1))))
        (perm_inverse (fst (?f (d_send \<delta> P0))))"
    obtain s4 where 4: "store_vec P1 ?p1p s3 = Inr s4"
      "D_rel n K s4 (?\<delta>3\<lparr>d_pre := (d_pre ?\<delta>3)(P1 := d_pre ?\<delta>3 P1 @ ?p1p)\<rparr>)" (is "D_rel n K s4 ?\<delta>4")
      using D_rel_store_vec[OF 3(2), of P1 ?p1p] by auto
    have "sample_shuffle P i (d_to \<delta>) s =
        bindr (put_res (pi_0 s4) i (fst (?f (d_recv \<delta> P0)))) (\<lambda>q0.
        bindr (put_res (pi_1 s4) i (fst (?f (d_send \<delta> P1)))) (\<lambda>q1.
          Inr (s4\<lparr>pi_0 := q0, pi_1 := q1\<rparr>)))"
      using True by (simp add: sample_shuffle_def n small 1(1) 2(1) 3(1) 4(1) ok inverse_res_ok[of n] mult_res_ok[of n] Let_def)
    moreover have "concrete (?\<delta>4\<lparr>d_rcv := upd2 (d_rcv ?\<delta>4) P0 i (fst (?f (d_recv \<delta> P0))),
        d_snd := upd2 (d_snd ?\<delta>4) P1 i (fst (?f (d_send \<delta> P1)))\<rparr>) = concrete (choose_legs P n i \<delta>)"
      using True by (simp add: concrete_def choose_legs_def Let_def split_beta upd2_row)
    ultimately show ?thesis using fin[OF 4(2)] by simp
  next
    case False
    then have P0: "d_to \<delta> = P0" using assms(4) by (cases "d_to \<delta>") auto
    obtain s1 where 1: "from_P1_send ?f s = Inr (fst (?f (d_send \<delta> P1)), s1)"
      "D_rel n K s1 (\<delta>\<lparr>d_send := (d_send \<delta>)(P1 := snd (?f (d_send \<delta> P1)))\<rparr>)" (is "D_rel n K s1 ?\<delta>1")
      using D_draws(2)[OF assms(1)] by blast
    obtain s2 where 2: "from_P1_recv ?f s1 = Inr (fst (?f (d_recv \<delta> P1)), s2)"
      "D_rel n K s2 (?\<delta>1\<lparr>d_recv := (d_recv \<delta>)(P1 := snd (?f (d_recv \<delta> P1)))\<rparr>)" (is "D_rel n K s2 ?\<delta>2")
      using D_draws(4)[OF 1(2), of ?f] by auto
    obtain s3 where 3: "from_P0_recv ?f s2 = Inr (fst (?f (d_recv \<delta> P0)), s3)"
      "D_rel n K s3 (?\<delta>2\<lparr>d_recv := (d_recv ?\<delta>2)(P0 := snd (?f (d_recv \<delta> P0)))\<rparr>)" (is "D_rel n K s3 ?\<delta>3")
      using D_draws(3)[OF 2(2), of ?f] by auto
    let ?p0p = "perm_mult (perm_mult (perm_inverse (fst (?f (d_recv \<delta> P1)))) (fst (?f (d_recv \<delta> P0))))
        (fst (?f (d_send \<delta> P1)))"
    obtain s4 where 4: "store_vec P0 ?p0p s3 = Inr s4"
      "D_rel n K s4 (?\<delta>3\<lparr>d_pre := (d_pre ?\<delta>3)(P0 := d_pre ?\<delta>3 P0 @ ?p0p)\<rparr>)" (is "D_rel n K s4 ?\<delta>4")
      using D_rel_store_vec[OF 3(2), of P0 ?p0p] by auto
    have "sample_shuffle P i (d_to \<delta>) s =
        bindr (put_res (pi_0 s4) i (fst (?f (d_recv \<delta> P0)))) (\<lambda>q0.
        bindr (put_res (pi_1 s4) i (fst (?f (d_send \<delta> P1)))) (\<lambda>q1.
          Inr (s4\<lparr>pi_0 := q0, pi_1 := q1\<rparr>)))"
      using P0 by (simp add: sample_shuffle_def n small 1(1) 2(1) 3(1) 4(1) ok inverse_res_ok[of n] mult_res_ok[of n] Let_def)
    moreover have "concrete (?\<delta>4\<lparr>d_rcv := upd2 (d_rcv ?\<delta>4) P0 i (fst (?f (d_recv \<delta> P0))),
        d_snd := upd2 (d_snd ?\<delta>4) P1 i (fst (?f (d_send \<delta> P1)))\<rparr>) = concrete (choose_legs P n i \<delta>)"
      using P0 by (simp add: concrete_def choose_legs_def Let_def split_beta upd2_row)
    ultimately show ?thesis using fin[OF 4(2)] by simp
  qed
qed

lemma D_sample_merged:
  assumes "D_rel n K s \<delta>" "legs_inv n \<delta>" "n < 2 ^ 31"
    "g_shuffle_idx f < K" "pi_idx f < K" "omega_idx f < K" "chosen \<delta> (pi_idx f)" "chosen \<delta> (omega_idx f)"
  shows "\<exists>s'. sample_merged P f s = Inr s' \<and> D_rel n K s' (choose_merged P n f \<delta>)"
proof -
  let ?f = "random_loop P n"
  have n: "st_size s = n" using assms(1) by (simp add: D_rel_def)
  note small = draw_perm_small[OF assms(3)]
  note ok = random_loop_ok[OF assms(3), of P]
  have legs: "perm_ok n (d_rcv \<delta> P0 i)" "perm_ok n (d_snd \<delta> P1 i)" "perm_ok n (d_perm \<delta> i)"
    if "chosen \<delta> i" for i
    using legs_inv_chosen[OF assms(2) that] by (simp_all add: legs_ok_def)
  define a where "a = d_perm \<delta> (pi_idx f)"
  define b where "b = d_perm \<delta> (omega_idx f)"
  define m where "m = perm_apply a b"
  have ab: "perm_ok n a" "perm_ok n b" using legs(3) assms(7,8) by (simp_all add: a_def b_def)
  then have m: "perm_ok n m" unfolding m_def by (rule merged_perm_ok)
  let ?p0 = "fst (?f (d_recv \<delta> P0))" and ?p1p = "fst (?f (d_recv \<delta> P1))"
  let ?p0p = "perm_mult (perm_inverse ?p1p) m" and ?p1 = "perm_mult (perm_inverse ?p0) m"
  obtain s1 where 1: "from_P0_recv ?f s = Inr (?p0, s1)"
    "D_rel n K s1 (\<delta>\<lparr>d_recv := (d_recv \<delta>)(P0 := snd (?f (d_recv \<delta> P0)))\<rparr>)" (is "D_rel n K s1 ?\<delta>1")
    using D_draws(3)[OF assms(1)] by blast
  obtain s2 where 2: "from_P1_recv ?f s1 = Inr (?p1p, s2)"
    "D_rel n K s2 (?\<delta>1\<lparr>d_recv := (d_recv ?\<delta>1)(P1 := snd (?f (d_recv \<delta> P1)))\<rparr>)" (is "D_rel n K s2 ?\<delta>2")
    using D_draws(4)[OF 1(2), of ?f] by auto
  let ?i = "g_shuffle_idx f"
  define s3 where "s3 = s2\<lparr>pi_0 := (pi_0 s2)[?i := ?p0], pi_1 := (pi_1 s2)[?i := ?p1]\<rparr>"
  obtain \<delta>3 where 3: "\<delta>3 = ?\<delta>2\<lparr>d_rcv := upd2 (d_rcv ?\<delta>2) P0 ?i ?p0, d_snd := upd2 (d_snd ?\<delta>2) P1 ?i ?p1\<rparr>"
    "D_rel n K s3 \<delta>3" using D_rel_choose[OF 2(2)] unfolding s3_def by blast
  obtain s4 where 4: "store_vec P0 ?p0p s3 = Inr s4"
    "D_rel n K s4 (\<delta>3\<lparr>d_pre := (d_pre \<delta>3)(P0 := d_pre \<delta>3 P0 @ ?p0p)\<rparr>)" (is "D_rel n K s4 ?\<delta>4")
    using D_rel_store_vec[OF 3(2), of P0 ?p0p] by auto
  obtain s5 where 5: "store_vec P1 ?p1 s4 = Inr s5"
    "D_rel n K s5 (?\<delta>4\<lparr>d_pre := (d_pre ?\<delta>4)(P1 := d_pre ?\<delta>4 P1 @ ?p1)\<rparr>)" (is "D_rel n K s5 ?\<delta>5")
    using D_rel_store_vec[OF 4(2), of P1 ?p1] by auto
  have "D_rel n K s5 (choose_merged P n f \<delta>)"
    by (rule D_rel_concrete[OF _ 5(2)])
      (simp add: 3(1) concrete_def choose_merged_def Let_def split_beta upd2_row m_def a_def b_def)
  moreover have ap: "apply_res a b = Inr m"
    unfolding m_def by (rule apply_res_ok[OF ab(1) perm_ok_length[OF ab(2)]])
  have "sample_merged P f s = Inr s5"
    using D_rel_tables[OF assms(1)] D_rel_tables(3,4)[OF 2(2) assms(4)] assms(4-8) legs ok m
    by (simp add: sample_merged_def n small 1(1) 2(1) mult_res_ok[of n] inverse_res_ok[of n] ap
        4(1)[unfolded s3_def] 5(1) a_def[symmetric] b_def[symmetric] d_perm_def[symmetric] Let_def)
  ultimately show ?thesis by blast
qed

section \<open>Corrections and triples\<close>

lemma D_store_corrections:
  assumes "D_rel n K s \<delta>" "legs_inv n \<delta>" "i < K" "chosen \<delta> i"
    "length (d_mask \<delta> P0 w) = n" "length (d_mask \<delta> P1 w) = n"
  shows "\<exists>s'. store_corrections P inverted i (d_mask \<delta> P0 w) (d_mask \<delta> P1 w) s = Inr s' \<and>
     D_rel n K s' (deal_corrections P inverted i w \<delta>)"
proof -
  define m where "m = d_perm \<delta> i"
  have l: "perm_ok n (d_rcv \<delta> P0 i)" "perm_ok n (d_snd \<delta> P1 i)" "perm_ok n m"
    using legs_inv_chosen[OF assms(2,4)] by (simp_all add: legs_ok_def m_def)
  define pi where "pi = (if inverted then perm_inverse m else m)"
  have pi: "perm_ok n pi" using l(3) by (simp add: pi_def)
  obtain s1 where 1: "from_self (draw_ring P) s = Inr (fst (draw_ring P (d_self \<delta>)), s1)"
    "D_rel n K s1 (\<delta>\<lparr>d_self := snd (draw_ring P (d_self \<delta>))\<rparr>)" (is "D_rel n K s1 ?\<delta>1")
    using D_draws(7)[OF assms(1)] by blast
  let ?R = "fst (draw_ring P (d_self \<delta>))"
  let ?B0 = "map (\<lambda>x. x - ?R) (perm_apply pi (d_mask \<delta> P1 w))"
  let ?B1 = "map (\<lambda>x. x + ?R) (perm_apply pi (d_mask \<delta> P0 w))"
  obtain s2 where 2: "store_B P0 ?B0 s1 = Inr s2"
    "D_rel n K s2 (?\<delta>1\<lparr>d_corr := (d_corr ?\<delta>1)(P0 := d_corr ?\<delta>1 P0 @ ?B0)\<rparr>)" (is "D_rel n K s2 ?\<delta>2")
    using D_rel_store_B[OF 1(2), of P0 ?B0] by auto
  obtain s3 where 3: "store_B P1 ?B1 s2 = Inr s3"
    "D_rel n K s3 (?\<delta>2\<lparr>d_corr := (d_corr ?\<delta>2)(P1 := d_corr ?\<delta>2 P1 @ ?B1)\<rparr>)" (is "D_rel n K s3 ?\<delta>3")
    using D_rel_store_B[OF 2(2), of P1 ?B1] by auto
  have "D_rel n K s3 (deal_corrections P inverted i w \<delta>)"
    by (rule D_rel_concrete[OF _ 3(2)])
      (simp add: concrete_def deal_corrections_def corrections_def Let_def split_beta pi_def m_def)
  moreover have "(if inverted then inverse_res m else Inr m) = Inr pi"
    using l(3) by (simp add: pi_def inverse_res_ok)
  then have "store_corrections P inverted i (d_mask \<delta> P0 w) (d_mask \<delta> P1 w) s = Inr s3"
    using D_rel_tables[OF 1(2) assms(3)] l pi assms(5,6)
    by (simp add: store_corrections_def 1(1) 2(1) 3(1) mult_res_ok[of n] apply_res_ok[of n]
        d_perm_def[symmetric] m_def[symmetric])
  ultimately show ?thesis by blast
qed

lemma join_eq: "join b u v = (if b then vxor u v else vadd u v)"
  by (simp add: join_def)

lemma D_share_vec_3P:
  assumes "D_rel n K s \<delta>"
  shows "\<exists>s'. share_vec_3P P m b s =
      Inr (join b (fst (draw_vec P m (d_prep \<delta> P0))) (fst (draw_vec P m (d_prep \<delta> P1))), s') \<and>
     D_rel n K s' (\<delta>\<lparr>d_prep := (d_prep \<delta>)(P0 := snd (draw_vec P m (d_prep \<delta> P0)),
                                        P1 := snd (draw_vec P m (d_prep \<delta> P1)))\<rparr>)"
  using assms
  by (auto simp: share_vec_3P_def random_share_vec_3P_def asserted_def Let_def split_beta join_eq D_unfold)

lemma D_prep_triple:
  assumes "D_rel n K s \<delta>" "d_to \<delta> \<noteq> D"
  shows "\<exists>s'. prep_triple P f (d_to \<delta>) s = Inr s' \<and> D_rel n K s' (deal_triple P n f \<delta>)"
proof -
  let ?b = "g_binary f" and ?m = "triple_width n f"
  let ?f = "draw_vec P ?m"
  have D: "st_id x = D" "st_size x = n" if "D_rel n K x y" for x :: "'a storage" and y
    using that by (simp_all add: D_rel_def)
  obtain s1 \<delta>1 where 1: "share_vec_3P P ?m ?b s = Inr (join ?b (fst (?f (d_prep \<delta> P0))) (fst (?f (d_prep \<delta> P1))), s1)"
    "\<delta>1 = \<delta>\<lparr>d_prep := (d_prep \<delta>)(P0 := snd (?f (d_prep \<delta> P0)), P1 := snd (?f (d_prep \<delta> P1)))\<rparr>"
    "D_rel n K s1 \<delta>1"
    using D_share_vec_3P[OF assms(1), of P ?m ?b] by blast
  obtain s2 \<delta>2 where 2: "share_vec_3P P ?m ?b s1 = Inr (join ?b (fst (?f (d_prep \<delta>1 P0))) (fst (?f (d_prep \<delta>1 P1))), s2)"
    "\<delta>2 = \<delta>1\<lparr>d_prep := (d_prep \<delta>1)(P0 := snd (?f (d_prep \<delta>1 P0)), P1 := snd (?f (d_prep \<delta>1 P1)))\<rparr>"
    "D_rel n K s2 \<delta>2"
    using D_share_vec_3P[OF 1(3), of P ?m ?b] by blast
  define q where "q = other_recv (d_to \<delta>)"
  define c where "c = vmul ?b (join ?b (fst (?f (d_prep \<delta> P0))) (fst (?f (d_prep \<delta> P1))))
     (join ?b (fst (?f (d_prep \<delta>1 P0))) (fst (?f (d_prep \<delta>1 P1))))"
  have lc: "length c = ?m" by (simp add: c_def vmul_def join_def)
  define cq where "cq = fst (?f (d_prep \<delta>2 q))"
  obtain s3 \<delta>3 where 3: "(if d_to \<delta> = P1 then from_P0_prep ?f s2 else from_P1_prep ?f s2) = Inr (cq, s3)"
    "\<delta>3 = \<delta>2\<lparr>d_prep := (d_prep \<delta>2)(q := snd (?f (d_prep \<delta>2 q)))\<rparr>" "D_rel n K s3 \<delta>3"
    using D_draws(5,6)[OF 2(3), of ?f] assms(2) unfolding cq_def q_def other_recv_def
    by (cases "d_to \<delta>") auto
  define ct where "ct = (if ?b then vxor c cq else vsub c cq)"
  obtain s4 where 4: "store_vec (d_to \<delta>) ct s3 = Inr s4"
    "D_rel n K s4 (\<delta>3\<lparr>d_pre := (d_pre \<delta>3)(d_to \<delta> := d_pre \<delta>3 (d_to \<delta>) @ ct)\<rparr>)"
    using D_rel_store_vec[OF 3(3) assms(2), of ct] by auto
  have "concrete (\<delta>3\<lparr>d_pre := (d_pre \<delta>3)(d_to \<delta> := d_pre \<delta>3 (d_to \<delta>) @ ct)\<rparr>) = concrete (deal_triple P n f \<delta>)"
    using assms(2) unfolding 3(2) 2(2) 1(2)
    by (cases "d_to \<delta>")
      (simp_all add: concrete_def deal_triple_def Let_def split_beta q_def other_recv_def cq_def ct_def c_def
        1(2) 2(2))
  from D_rel_concrete[OF this 4(2)] have "D_rel n K s4 (deal_triple P n f \<delta>)" .
  moreover have sh: "random_share_secret_vec_3P P (d_to \<delta>) c ?b s2 = Inr (c, s4)"
  proof (cases "d_to \<delta> = P1")
    case True
    then show ?thesis
      using 3(1) 4(1) D(1)[OF 2(3)] by (simp add: random_share_secret_vec_3P_def lc ct_def Let_def)
  next
    case False
    then show ?thesis
      using 3(1) 4(1) D(1)[OF 2(3)] by (simp add: random_share_secret_vec_3P_def lc ct_def Let_def)
  qed
  have tw: "(if gt f \<noteq> Compaction then g_size f else st_size s) = ?m"
    using D(2)[OF assms(1)] by (simp add: triple_width_def)
  have "prep_triple P f (d_to \<delta>) s = Inr s4"
    unfolding prep_triple_def tw Let_def
    using 1(1) 2(1) sh D(1)[OF 4(2)] by (simp add: c_def)
  ultimately show ?thesis by blast
qed

section \<open>One gate\<close>

lemma D_rel_to [simp]: "D_rel n K s (\<delta>\<lparr>d_to := q\<rparr>) = D_rel n K s \<delta>"
  by (simp add: D_rel_def D_streams_def)

lemma d_to_choose [simp]:
  "d_to (choose_legs P n i \<delta>) = d_to \<delta>" "d_to (choose_merged P n f \<delta>) = d_to \<delta>"
  by (simp_all add: choose_legs_def choose_merged_def Let_def split_beta)

lemma d_to_triple [simp]: "d_to (deal_triple P n f \<delta>) = other_recv (d_to \<delta>)"
  by (simp add: deal_triple_def Let_def split_beta)

lemma d_mask_choose [simp]:
  "d_mask (choose_legs P n i \<delta>) = d_mask \<delta>" "d_mask (choose_merged P n f \<delta>) = d_mask \<delta>"
  by (simp_all add: choose_legs_def choose_merged_def Let_def split_beta)

lemma length_masks [simp]:
  "length (d_mask (deal_masks P n w \<delta>) P0 w) = n" "length (d_mask (deal_masks P n w \<delta>) P1 w) = n"
  by (simp_all add: deal_masks_def Let_def split_beta)

text \<open>The permutation an index has in the store says whether it has been chosen.\<close>

lemma D_rel_chosen:
  assumes "D_rel n K s \<delta>" "i < K"
  shows "\<exists>p. at_res (pi_0 s) i = Inr p \<and> (length p = 0 \<longleftrightarrow> \<not> chosen \<delta> i)"
  using D_rel_tables(1)[OF assms] by (simp add: chosen_def)

lemma masks_legs_inv: "legs_inv n \<delta> \<Longrightarrow> legs_inv n (deal_masks P n w \<delta>)"
  by (rule legs_inv_tables[OF tables_masks(1)[symmetric]]) (simp_all add: legs_inv_def)

lemma masks_chosen [simp]: "chosen (deal_masks P n w \<delta>) = chosen \<delta>" "d_perm (deal_masks P n w \<delta>) = d_perm \<delta>"
  using chosen_tables[OF tables_masks(1)[of P n w \<delta>]] by simp_all

lemma D_shuffle:
  assumes "D_rel n K s \<delta>" "legs_inv n \<delta>" "g_shuffle_idx f < K" "0 < n" "n < 2 ^ 31"
  shows "\<exists>s'. bindr (prep_shuffle_D P f (d_to \<delta>) s) (mark_preprocessed (g_shuffle_idx f)) = Inr s' \<and>
     D_rel n K s' (deal_shuffle P n f \<delta>)"
proof -
  let ?i = "g_shuffle_idx f" and ?w = "out_idx f"
  define \<delta>1 where "\<delta>1 = deal_masks P n ?w \<delta>"
  obtain s1 where 1: "draw_masks P s = Inr ((d_mask \<delta>1 P0 ?w, d_mask \<delta>1 P1 ?w), s1)" "D_rel n K s1 \<delta>1"
    using D_draw_masks[OF assms(1), of P ?w] unfolding \<delta>1_def by blast
  have i1: "legs_inv n \<delta>1" unfolding \<delta>1_def by (rule masks_legs_inv[OF assms(2)])
  have to: "d_to \<delta>1 = d_to \<delta>" "d_to \<delta> \<noteq> D" using assms(2) by (simp_all add: \<delta>1_def legs_inv_def)
  define \<delta>2 where "\<delta>2 = (if chosen \<delta>1 ?i then \<delta>1 else choose_legs P n ?i \<delta>1)"
  have m2: "d_mask \<delta>2 = d_mask \<delta>1" "d_to \<delta>2 = d_to \<delta>" by (simp_all add: \<delta>2_def to)
  obtain p where p: "at_res (pi_0 s1) ?i = Inr p" "length p = 0 \<longleftrightarrow> \<not> chosen \<delta>1 ?i"
    using D_rel_chosen[OF 1(2) assms(3)] by blast
  have "\<exists>s2. (if length p = 0 then sample_shuffle P ?i (d_to \<delta>) s1 else Inr s1) = Inr s2 \<and> D_rel n K s2 \<delta>2"
    using 1(2) D_sample_shuffle[OF 1(2) assms(3,5), of P] to p(2) by (simp add: \<delta>2_def)
  then obtain s2 where 2: "(if length p = 0 then sample_shuffle P ?i (d_to \<delta>) s1 else Inr s1) = Inr s2" "D_rel n K s2 \<delta>2"
    by blast
  have i2: "legs_inv n \<delta>2" "chosen \<delta>2 ?i"
    using i1 choose_legs_chooses(1)[OF assms(5), of ?i \<delta>1 P] chooses_inv[OF _ i1 assms(4)] chooses_chosen[OF _ assms(4)] to
    by (auto simp: \<delta>2_def)
  have l: "length (d_mask \<delta>2 P0 ?w) = n" "length (d_mask \<delta>2 P1 ?w) = n"
    unfolding m2(1) by (simp_all add: \<delta>1_def)
  obtain s3 where 3: "store_corrections P False ?i (d_mask \<delta>2 P0 ?w) (d_mask \<delta>2 P1 ?w) s2 = Inr s3"
    "D_rel n K s3 (deal_corrections P False ?i ?w \<delta>2)"
    using D_store_corrections[OF 2(2) i2(1) assms(3) i2(2) l] by blast
  obtain s4 where 4: "mark_preprocessed ?i s3 = Inr s4" "D_rel n K s4 (deal_corrections P False ?i ?w \<delta>2)"
    using D_mark[OF 3(2) assms(3)] by blast
  have "prep_shuffle_D P f (d_to \<delta>) s = Inr s3"
    unfolding prep_shuffle_D_def 1(1) using p(1) 2(1) 3(1) m2 by simp
  moreover have "deal_shuffle P n f \<delta> = (deal_corrections P False ?i ?w \<delta>2)\<lparr>d_to := other_recv (d_to \<delta>)\<rparr>"
    unfolding m2(2)[symmetric] by (simp add: deal_shuffle_def Let_def \<delta>1_def \<delta>2_def)
  ultimately show ?thesis using 4 by simp
qed

lemma D_merged:
  assumes "D_rel n K s \<delta>" "legs_inv n \<delta>" "g_shuffle_idx f < K" "0 < n" "n < 2 ^ 31"
    "pi_idx f < K" "omega_idx f < K" "chosen \<delta> (pi_idx f)" "chosen \<delta> (omega_idx f)"
  shows "\<exists>s'. bindr (prep_merged_D P f s) (mark_preprocessed (g_shuffle_idx f)) = Inr s' \<and>
     D_rel n K s' (deal_merged P n f \<delta>)"
proof -
  let ?i = "g_shuffle_idx f" and ?w = "out_idx f"
  define \<delta>1 where "\<delta>1 = deal_masks P n ?w \<delta>"
  obtain s1 where 1: "draw_masks P s = Inr ((d_mask \<delta>1 P0 ?w, d_mask \<delta>1 P1 ?w), s1)" "D_rel n K s1 \<delta>1"
    using D_draw_masks[OF assms(1), of P ?w] unfolding \<delta>1_def by blast
  have i1: "legs_inv n \<delta>1" unfolding \<delta>1_def by (rule masks_legs_inv[OF assms(2)])
  have c1: "chosen \<delta>1 (pi_idx f)" "chosen \<delta>1 (omega_idx f)" using assms(8,9) by (simp_all add: \<delta>1_def)
  have to: "d_to \<delta>1 \<noteq> D" using i1 by (simp add: legs_inv_def)
  define \<delta>2 where "\<delta>2 = (if chosen \<delta>1 ?i then \<delta>1 else choose_merged P n f \<delta>1)"
  have m2: "d_mask \<delta>2 = d_mask \<delta>1" by (simp add: \<delta>2_def)
  obtain p where p: "at_res (pi_0 s1) ?i = Inr p" "length p = 0 \<longleftrightarrow> \<not> chosen \<delta>1 ?i"
    using D_rel_chosen[OF 1(2) assms(3)] by blast
  have "\<exists>s2. (if length p = 0 then sample_merged P f s1 else Inr s1) = Inr s2 \<and> D_rel n K s2 \<delta>2"
    using 1(2) D_sample_merged[OF 1(2) i1 assms(5,3,6,7) c1, of P] p(2) by (simp add: \<delta>2_def)
  then obtain s2 where 2: "(if length p = 0 then sample_merged P f s1 else Inr s1) = Inr s2" "D_rel n K s2 \<delta>2"
    by blast
  have i2: "legs_inv n \<delta>2" "chosen \<delta>2 ?i"
    using i1 choose_merged_chooses(1,2)[OF assms(5) i1 c1, of P] chooses_inv[OF _ i1 assms(4)] chooses_chosen[OF _ assms(4)] to
    by (auto simp: \<delta>2_def)
  have l: "length (d_mask \<delta>2 P0 ?w) = n" "length (d_mask \<delta>2 P1 ?w) = n"
    unfolding m2(1) by (simp_all add: \<delta>1_def)
  obtain s3 where 3: "store_corrections P False ?i (d_mask \<delta>2 P0 ?w) (d_mask \<delta>2 P1 ?w) s2 = Inr s3"
    "D_rel n K s3 (deal_corrections P False ?i ?w \<delta>2)"
    using D_store_corrections[OF 2(2) i2(1) assms(3) i2(2) l] by blast
  obtain s4 where 4: "mark_preprocessed ?i s3 = Inr s4" "D_rel n K s4 (deal_corrections P False ?i ?w \<delta>2)"
    using D_mark[OF 3(2) assms(3)] by blast
  have "prep_merged_D P f s = Inr s3"
    unfolding prep_merged_D_def 1(1) using p(1) 2(1) 3(1) m2 by simp
  moreover have "deal_merged P n f \<delta> = deal_corrections P False ?i ?w \<delta>2"
    by (simp add: deal_merged_def Let_def \<delta>1_def \<delta>2_def)
  ultimately show ?thesis using 4 by simp
qed

lemma D_unshuffle:
  assumes "D_rel n K s \<delta>" "legs_inv n \<delta>" "g_shuffle_idx f < K" "chosen \<delta> (g_shuffle_idx f)"
  shows "\<exists>s'. prep_unshuffle_D P f s = Inr s' \<and> D_rel n K s' (deal_unshuffle P n f \<delta>)"
proof -
  let ?i = "g_shuffle_idx f" and ?w = "out_idx f"
  define \<delta>1 where "\<delta>1 = deal_masks P n ?w \<delta>"
  obtain s1 where 1: "draw_masks P s = Inr ((d_mask \<delta>1 P0 ?w, d_mask \<delta>1 P1 ?w), s1)" "D_rel n K s1 \<delta>1"
    using D_draw_masks[OF assms(1), of P ?w] unfolding \<delta>1_def by blast
  have i1: "legs_inv n \<delta>1" "chosen \<delta>1 ?i"
    using masks_legs_inv[OF assms(2)] assms(4) by (simp_all add: \<delta>1_def)
  have l: "length (d_mask \<delta>1 P0 ?w) = n" "length (d_mask \<delta>1 P1 ?w) = n" by (simp_all add: \<delta>1_def)
  show ?thesis
    using D_store_corrections[OF 1(2) i1(1) assms(3) i1(2) l, of P True]
    by (simp add: prep_unshuffle_D_def 1(1) deal_unshuffle_def \<delta>1_def)
qed

text \<open>The gate's shuffle numbers have slots in the tables.\<close>

definition slots_ok :: "nat \<Rightarrow> gate \<Rightarrow> bool" where
  "slots_ok K f \<longleftrightarrow> (shuffle_type (gt f) \<longrightarrow> g_shuffle_idx f < K) \<and>
     (gt f = MergedShuffle \<longrightarrow> pi_idx f < K \<and> omega_idx f < K)"

lemma slots_ok_within: "slots_ok (Suc k) f \<longleftrightarrow> shuffles_within k f"
  by (simp add: slots_ok_def shuffles_within_def less_Suc_eq_le)

lemma preprocess_gate_triple:
  "triple_type (gt f) \<Longrightarrow>
     preprocess_gate P (s, recv) f = bindr (prep_triple P f recv s) (\<lambda>s. Inr (s, other_recv recv))"
  by (auto simp: triple_type_def preprocess_gate_def)

lemma deal_gate_triple: "triple_type (gt f) \<Longrightarrow> deal_gate P n f \<delta> = deal_triple P n f \<delta>"
  by (auto simp: triple_type_def deal_gate_def)

lemma bindr_pair: "(\<exists>s'. bindr m g = Inr s' \<and> Q s') \<Longrightarrow> \<exists>s'. bindr m (\<lambda>s. bindr (g s) (\<lambda>s. Inr (s, r))) = Inr (s', r) \<and> Q s'"
  by (cases m) auto

lemma D_gate:
  assumes "D_rel n K s \<delta>" "legs_inv n \<delta>" "ready_gate \<delta> f" "slots_ok K f" "0 < n" "n < 2 ^ 31"
  shows "\<exists>s'. preprocess_gate P (s, d_to \<delta>) f = Inr (s', d_to (deal_gate P n f \<delta>)) \<and>
     D_rel n K s' (deal_gate P n f \<delta>)"
proof -
  have D: "st_id s = D" using assms(1) by (simp add: D_rel_def)
  have to: "d_to \<delta> \<noteq> D" using assms(2) by (simp add: legs_inv_def)
  consider (sh) "gt f = Shuffle" | (me) "gt f = MergedShuffle" | (un) "gt f = Unshuffle"
    | (tri) "triple_type (gt f)"
    | (oth) "deal_gate P n f \<delta> = \<delta>" "preprocess_gate P (s, d_to \<delta>) f = Inr (s, d_to \<delta>)"
    by (cases "gt f") (auto simp: triple_type_def deal_gate_def preprocess_gate_def)
  then show ?thesis
  proof cases
    case sh
    have i: "g_shuffle_idx f < K" using assms(4) sh by (simp add: slots_ok_def shuffle_type_def)
    have "d_to (deal_gate P n f \<delta>) = other_recv (d_to \<delta>)"
      using sh by (simp add: deal_gate_def deal_shuffle_def Let_def)
    then show ?thesis
      using bindr_pair[OF D_shuffle[OF assms(1,2) i assms(5,6), of P], of "other_recv (d_to \<delta>)"] sh D
      by (simp add: preprocess_gate_def deal_gate_def)
  next
    case me
    have i: "g_shuffle_idx f < K" "pi_idx f < K" "omega_idx f < K"
      using assms(4) me by (simp_all add: slots_ok_def shuffle_type_def)
    have c: "chosen \<delta> (pi_idx f)" "chosen \<delta> (omega_idx f)" using assms(3) me by (simp_all add: ready_gate_def)
    have "d_to (deal_gate P n f \<delta>) = d_to \<delta>"
      using me by (simp add: deal_gate_def deal_merged_def Let_def)
    then show ?thesis
      using bindr_pair[OF D_merged[OF assms(1,2) i(1) assms(5,6) i(2,3) c, of P], of "d_to \<delta>"] me D
      by (simp add: preprocess_gate_def deal_gate_def)
  next
    case un
    have i: "g_shuffle_idx f < K" using assms(4) un by (simp add: slots_ok_def shuffle_type_def)
    have c: "chosen \<delta> (g_shuffle_idx f)" using assms(3) un by (simp add: ready_gate_def)
    show ?thesis
      using D_unshuffle[OF assms(1,2) i c, of P] un D
      by (auto simp: preprocess_gate_def deal_gate_def deal_unshuffle_def)
  next
    case tri
    show ?thesis
      using D_prep_triple[OF assms(1) to, of P f]
      by (auto simp: preprocess_gate_triple[OF tri] deal_gate_triple[OF tri])
  next
    case oth
    then show ?thesis using assms(1) by simp
  qed
qed

section \<open>The whole walk\<close>

text \<open>A shuffle is chosen before it is undone or merged with another.\<close>

primrec shuffles_first :: "nat list \<Rightarrow> gate list \<Rightarrow> bool" where
  "shuffles_first seen [] = True"
| "shuffles_first seen (f # gs) \<longleftrightarrow>
     (gt f = Unshuffle \<longrightarrow> g_shuffle_idx f \<in> set seen) \<and>
     (gt f = MergedShuffle \<longrightarrow> pi_idx f \<in> set seen \<and> omega_idx f \<in> set seen) \<and>
     shuffles_first (if gt f = Shuffle \<or> gt f = MergedShuffle then g_shuffle_idx f # seen else seen) gs"

lemma deal_Cons: "deal P n (f # gs) \<delta> = deal P n gs (deal_gate P n f \<delta>)"
  by (simp add: deal_def)

lemma D_gates:
  assumes "D_rel n K s \<delta>" "legs_inv n \<delta>" "\<And>i. i \<in> set seen \<Longrightarrow> chosen \<delta> i" "shuffles_first seen gs"
    "list_all (slots_ok K) gs" "0 < n" "n < 2 ^ 31"
  shows "\<exists>s'. foldr_res (preprocess_gate P) (s, d_to \<delta>) gs = Inr (s', d_to (deal P n gs \<delta>)) \<and>
     D_rel n K s' (deal P n gs \<delta>) \<and> legs_inv n (deal P n gs \<delta>)"
  using assms
proof (induction gs arbitrary: s \<delta> seen)
  case (Cons f gs)
  have ready: "ready_gate \<delta> f" using Cons.prems(3,4) by (simp add: ready_gate_def)
  obtain s1 where 1: "preprocess_gate P (s, d_to \<delta>) f = Inr (s1, d_to (deal_gate P n f \<delta>))"
    "D_rel n K s1 (deal_gate P n f \<delta>)"
    using D_gate[OF Cons.prems(1,2) ready _ Cons.prems(6,7), of P] Cons.prems(5) by auto
  note inv = deal_gate_inv[OF Cons.prems(2) ready Cons.prems(6,7), where P = P]
  let ?seen = "if gt f = Shuffle \<or> gt f = MergedShuffle then g_shuffle_idx f # seen else seen"
  have "\<And>i. i \<in> set ?seen \<Longrightarrow> chosen (deal_gate P n f \<delta>) i"
    using inv(2) Cons.prems(3) by (auto simp: uses_def split: if_splits)
  from Cons.IH[OF 1(2) inv(1) this] Cons.prems(4-7) show ?case
    by (simp add: 1(1) deal_Cons)
qed (simp add: deal_def)

lemma preprocess_concat: "preprocess P layers sr = foldr_res (preprocess_gate P) sr (concat layers)"
  unfolding preprocess_def
  by (induction layers arbitrary: sr) (simp_all add: foldr_res_append)

lemma D_rel_init:
  assumes "conf_id conf = D" "i_am_D r"
  shows "D_rel (conf_size conf) (shuffle_idx ci + 1) (new_storage conf ci r) (deal_init r)"
proof -
  have "out_pre p (new_storage conf ci r) = [] \<and> out_B p (new_storage conf ci r) = []" if "p \<noteq> D" for p
    using that assms(1) by (cases p) (simp_all add: new_storage_def out_pre_def out_B_def fw_new_def Let_def)
  moreover have "out_ok (new_storage conf ci r)"
    using assms(1) by (simp add: new_storage_def out_ok_def fw_unread_def fw_new_def Let_def list_all_iff)
  ultimately show ?thesis
    using assms
    by (simp add: D_rel_def D_streams_def new_storage_def deal_init_def Let_def map_replicate_const
        del: replicate.simps upt_Suc)
qed

end
