(* ===== verification/Server_Refine.thy ===== *)
theory Server_Refine
  imports Dealer_Refine
begin

text \<open>
  The run of \<open>Preprocessor::preprocess\<close> on an online server refines the specification as well: it
  ends with the legs and the triples the abstract dealer has for that server, and has read exactly
  the part of the dealer's message that is meant for it.
\<close>

section \<open>The refinement relation\<close>

definition snd_tab :: "party \<Rightarrow> 'g storage \<Rightarrow> permutation list" where
  "snd_tab p s = (if p = P0 then pi_0_p s else pi_1 s)"

definition rcv_tab :: "party \<Rightarrow> 'g storage \<Rightarrow> permutation list" where
  "rcv_tab p s = (if p = P0 then pi_0 s else pi_1_p s)"

text \<open>What the server knows of a leg before the online phase: nothing, unless it was handed out.\<close>

definition given_leg :: "(party \<Rightarrow> nat \<Rightarrow> bool) \<Rightarrow> (party \<Rightarrow> nat \<Rightarrow> permutation) \<Rightarrow> party \<Rightarrow> nat \<Rightarrow> permutation"
  where "given_leg g h p i = (if g p i then h p i else [])"

text \<open>
  The legs and flags, the triples, the position in the dealer's message, and the generators: \<open>gh\<close>
  holds the three streams the phase does not touch.
\<close>

definition legs_rel :: "party \<Rightarrow> nat \<Rightarrow> 'g storage \<Rightarrow> 'g dealer \<Rightarrow> bool" where
  "legs_rel p K s \<delta> \<longleftrightarrow>
     snd_tab p s = map (given_leg (d_snd_given \<delta>) (d_snd \<delta>) p) [0..<K] \<and>
     rcv_tab p s = map (given_leg (d_rcv_given \<delta>) (d_rcv \<delta>) p) [0..<K] \<and>
     preprocessed s = map (chosen \<delta>) [0..<K]"

definition triples_rel :: "party \<Rightarrow> nat \<Rightarrow> nat set \<Rightarrow> 'g storage \<Rightarrow> 'g dealer \<Rightarrow> bool" where
  "triples_rel p M done s \<delta> \<longleftrightarrow>
     (\<forall>j < M. if j \<in> done then (case d_triple \<delta> p j of (a, b, c) \<Rightarrow> triple_at j a b c s)
             else triple_slot j s)"

definition message_rel :: "party \<Rightarrow> vec \<Rightarrow> 'g storage \<Rightarrow> 'g dealer \<Rightarrow> bool" where
  "message_rel p data s \<delta> \<longleftrightarrow>
     pre_ok s \<and> pre_data s = data \<and> pre_pos s = length (d_pre \<delta> p) mod length data"

definition stream_rel :: "party \<Rightarrow> 'g \<times> 'g \<times> 'g \<Rightarrow> 'g storage \<Rightarrow> 'g dealer \<Rightarrow> bool" where
  "stream_rel p gh s \<delta> \<longleftrightarrow> online_role (random_generators s) \<and>
     rng_with_D_prep (random_generators s) = d_prep \<delta> p \<and>
     gh = (rng_with_D_send (random_generators s), rng_with_D_recv (random_generators s),
           rng_01 (random_generators s))"

definition S_rel ::
  "party \<Rightarrow> nat \<Rightarrow> nat \<Rightarrow> nat \<Rightarrow> 'g \<times> 'g \<times> 'g \<Rightarrow> vec \<Rightarrow> nat set \<Rightarrow> 'g storage \<Rightarrow> 'g dealer \<Rightarrow> bool" where
  "S_rel p n K M gh data done s \<delta> \<longleftrightarrow> st_id s = p \<and> p \<noteq> D \<and> st_size s = n \<and>
     legs_rel p K s \<delta> \<and> triples_rel p M done s \<delta> \<and> message_rel p data s \<delta> \<and> stream_rel p gh s \<delta>"

lemmas S_defs = S_rel_def legs_rel_def triples_rel_def message_rel_def stream_rel_def

section \<open>Reading from the message\<close>

lemma triple_at_cong:
  "triples_disk s' = triples_disk s \<Longrightarrow> triples_a s' = triples_a s \<Longrightarrow> triples_b s' = triples_b s \<Longrightarrow>
   triples_c s' = triples_c s \<Longrightarrow> st_ssd s' = st_ssd s \<Longrightarrow>
     triple_at j a b c s' = triple_at j a b c s \<and> triple_slot j s' = triple_slot j s"
  by (simp add: triple_at_def triple_slot_def)

lemma read_at:
  assumes "pre_ok s" "pre_data s = data" "pre_pos s = k mod length data" "data = u @ v @ rest"
    "length u = k" "length v = m"
  shows "\<exists>s'. read_preproc m s = Inr (v, s') \<and> pre_ok s' \<and> pre_data s' = data \<and>
     pre_pos s' = (k + m) mod length data \<and> s' = s\<lparr>preproc_disk := preproc_disk s', read_idx := read_idx s'\<rparr>"
proof -
  let ?L = "length data"
  have le: "k + m \<le> ?L" using assms(4-6) by simp
  have pos: "pre_pos s = (if k = ?L then 0 else k)" unfolding assms(3) using le by simp
  have inside: "pre_pos s + m \<le> length (pre_data s)" unfolding pos assms(2) using le by simp
  obtain s' where s': "read_preproc m s = Inr (take m (drop (pre_pos s) (pre_data s)), s')" "pre_ok s'"
    "pre_data s' = pre_data s"
    "pre_pos s' = (if pre_pos s + m \<ge> length (pre_data s) then 0 else pre_pos s + m)"
    "s' = s\<lparr>preproc_disk := preproc_disk s', read_idx := read_idx s'\<rparr>"
    using read_preproc_inside[OF assms(1) inside] by blast
  have "take m (drop (pre_pos s) (pre_data s)) = v"
  proof (cases "k = ?L")
    case True
    then show ?thesis using le assms(6) by simp
  next
    case False
    then have "pre_pos s = length u" using pos assms(5) by simp
    then have "drop (pre_pos s) (pre_data s) = v @ rest"
      unfolding assms(2) assms(4) by simp
    then show ?thesis using assms(6) by simp
  qed
  moreover have "pre_pos s' = (k + m) mod ?L"
  proof (cases "k = ?L")
    case True
    then have "m = 0" using le by simp
    then show ?thesis using True s'(4) pos by simp
  next
    case False
    then have "pre_pos s' = (if k + m \<ge> ?L then 0 else k + m)" using s'(4) unfolding pos assms(2) by simp
    moreover have "k + m \<ge> ?L \<Longrightarrow> k + m = ?L" using le by simp
    ultimately show ?thesis using le by (cases "k + m = ?L") simp_all
  qed
  ultimately show ?thesis using s' assms(2) by auto
qed

lemma S_read:
  assumes "S_rel p n K M gh data done s \<delta>" "data = d_pre \<delta> p @ v @ rest" "length v = m"
  shows "\<exists>s'. read_preproc m s = Inr (v, s') \<and>
     S_rel p n K M gh data done s' (\<delta>\<lparr>d_pre := (d_pre \<delta>)(p := d_pre \<delta> p @ v)\<rparr>)"
proof -
  have ok: "pre_ok s" "pre_data s = data" "pre_pos s = length (d_pre \<delta> p) mod length data"
    using assms(1) by (simp_all add: S_defs)
  obtain s' where s': "read_preproc m s = Inr (v, s')" "pre_ok s'" "pre_data s' = data"
    "pre_pos s' = (length (d_pre \<delta> p) + m) mod length data"
    and fr: "s' = s\<lparr>preproc_disk := preproc_disk s', read_idx := read_idx s'\<rparr>"
    using read_at[OF ok assms(2) refl assms(3)] by blast
  have f: "st_id s' = st_id s" "st_size s' = st_size s" "random_generators s' = random_generators s"
    "pi_0 s' = pi_0 s" "pi_1 s' = pi_1 s" "pi_0_p s' = pi_0_p s" "pi_1_p s' = pi_1_p s"
    "preprocessed s' = preprocessed s" "triples_disk s' = triples_disk s" "triples_a s' = triples_a s"
    "triples_b s' = triples_b s" "triples_c s' = triples_c s" "st_ssd s' = st_ssd s"
    by (subst fr, simp)+
  note tr = triple_at_cong[OF f(9-13)]
  have "S_rel p n K M gh data done s' (\<delta>\<lparr>d_pre := (d_pre \<delta>)(p := d_pre \<delta> p @ v)\<rparr>)"
    using assms(1,3) s'(2-4) f tr unfolding S_defs snd_tab_def rcv_tab_def
    by (simp add: chosen_def[abs_def] cong: if_cong)
  then show ?thesis using s'(1) by simp
qed

section \<open>Storing triples\<close>

lemma store_triples_frame:
  assumes "triple_slot i s"
  shows "\<exists>s'. store_triples a b c i s = Inr s' \<and> triple_at i a b c s' \<and>
     (\<forall>j a b c. j \<noteq> i \<longrightarrow> triple_at j a b c s' = triple_at j a b c s \<and> triple_slot j s' = triple_slot j s) \<and>
     s' = s\<lparr>triples_disk := triples_disk s', triples_a := triples_a s',
            triples_b := triples_b s', triples_c := triples_c s'\<rparr>"
proof -
  obtain s' where s': "store_triples a b c i s = Inr s'" "triple_at i a b c s'"
     "s' = s\<lparr>triples_disk := triples_disk s', triples_a := triples_a s',
            triples_b := triples_b s', triples_c := triples_c s'\<rparr>"
    using store_triples_at[OF assms, of a b c] by blast
  have "triple_at j a' b' c' s' = triple_at j a' b' c' s \<and> triple_slot j s' = triple_slot j s" if "j \<noteq> i" for j a' b' c'
    using s'(1) that assms
    by (cases "st_ssd s") (auto simp: store_triples_def triple_slot_def triple_at_def bindr_Inr_iff
        at_res_Inr_iff put_res_Inr_iff)
  then show ?thesis using s' by blast
qed

lemma S_store_triples:
  assumes "S_rel p n K M gh data done s \<delta>" "i < M" "i \<notin> done" "d_triple \<delta>' p i = (a, b, c)"
    "\<And>j. j \<noteq> i \<Longrightarrow> d_triple \<delta>' p j = d_triple \<delta> p j" "tables \<delta>' = tables \<delta>" "d_pre \<delta>' p = d_pre \<delta> p"
    "d_prep \<delta>' p = d_prep \<delta> p"
  shows "\<exists>s'. store_triples a b c i s = Inr s' \<and> S_rel p n K M gh data (insert i done) s' \<delta>'"
proof -
  have "triple_slot i s" using assms(1-3) by (simp add: S_defs)
  from store_triples_frame[OF this, of a b c] obtain s' where s': "store_triples a b c i s = Inr s'" "triple_at i a b c s'"
     "\<And>j a b c. j \<noteq> i \<Longrightarrow> triple_at j a b c s' = triple_at j a b c s \<and> triple_slot j s' = triple_slot j s"
     "s' = s\<lparr>triples_disk := triples_disk s', triples_a := triples_a s',
            triples_b := triples_b s', triples_c := triples_c s'\<rparr>" by blast
  have f: "st_id s' = st_id s" "st_size s' = st_size s" "random_generators s' = random_generators s"
    "pi_0 s' = pi_0 s" "pi_1 s' = pi_1 s" "pi_0_p s' = pi_0_p s" "pi_1_p s' = pi_1_p s"
    "preprocessed s' = preprocessed s" "preproc_disk s' = preproc_disk s" "preproc s' = preproc s"
    "read_idx s' = read_idx s" "st_ssd s' = st_ssd s"
    by (subst s'(4), simp)+
  have "pre_ok s' = pre_ok s" "pre_data s' = pre_data s" "pre_pos s' = pre_pos s"
    using f by (simp_all add: pre_defs)
  then have m: "message_rel p data s' \<delta>'" using assms(1,7) by (simp add: S_rel_def message_rel_def)
  have old: "\<forall>j < M. if j \<in> done then (case d_triple \<delta> p j of (a, b, c) \<Rightarrow> triple_at j a b c s) else triple_slot j s"
    using assms(1) by (simp add: S_rel_def triples_rel_def)
  have "if j \<in> insert i done then (case d_triple \<delta>' p j of (a, b, c) \<Rightarrow> triple_at j a b c s') else triple_slot j s'"
    if "j < M" for j
    using old[rule_format, OF that] s'(2,3) assms(4,5) by (cases "j = i") (auto split: prod.splits)
  then have "triples_rel p M (insert i done) s' \<delta>'" by (simp add: triples_rel_def)
  moreover have "legs_rel p K s' \<delta>'"
    using assms(1,6) f chosen_tables[OF assms(6)]
    by (simp add: S_defs snd_tab_def rcv_tab_def tables_def cong: if_cong)
  ultimately show ?thesis using s'(1) m assms(1,8) f by (auto simp: S_rel_def stream_rel_def)
qed


section \<open>Legs\<close>

definition server_part :: "party \<Rightarrow> 'g dealer \<Rightarrow> _" where
  "server_part p \<delta> = (tables \<delta>, d_pre \<delta> p, d_prep \<delta> p, d_triple \<delta> p)"

lemma S_rel_cong:
  assumes "server_part p \<delta> = server_part p \<delta>'"
  shows "S_rel p n K M gh data done s \<delta> = S_rel p n K M gh data done s \<delta>'"
proof -
  have "tables \<delta> = tables \<delta>'" using assms by (simp add: server_part_def)
  with chosen_tables[OF this] show ?thesis
    using assms by (simp add: S_defs server_part_def tables_def)
qed

lemma server_part_masks [simp]: "server_part p (deal_masks P n w \<delta>) = server_part p \<delta>"
  by (simp add: server_part_def) (simp add: deal_masks_def Let_def split_beta)

lemma server_part_corrections [simp]: "server_part p (deal_corrections P b i w \<delta>) = server_part p \<delta>"
  by (simp add: server_part_def) (simp add: deal_corrections_def Let_def split_beta)

lemma server_part_to [simp]: "server_part p (\<delta>\<lparr>d_to := q\<rparr>) = server_part p \<delta>"
  by (simp add: server_part_def)

lemma legs_after:
  assumes "legs_rel p K s \<delta>" "chooses n i \<delta> \<delta>'" "0 < n" "\<not> chosen \<delta> i" "legs_inv n \<delta>" "i < K"
    "snd_tab p s' = (if d_snd_given \<delta>' p i then (snd_tab p s)[i := d_snd \<delta>' p i] else snd_tab p s)"
    "rcv_tab p s' = (if d_rcv_given \<delta>' p i then (rcv_tab p s)[i := d_rcv \<delta>' p i] else rcv_tab p s)"
    "preprocessed s' = (preprocessed s)[i := True]"
  shows "legs_rel p K s' \<delta>'"
proof -
  have ng: "\<not> d_snd_given \<delta> p i" "\<not> d_rcv_given \<delta> p i"
    using assms(4,5) unfolding legs_inv_def by presburger+
  have oth: "d_snd \<delta>' p j = d_snd \<delta> p j" "d_rcv \<delta>' p j = d_rcv \<delta> p j"
    "d_snd_given \<delta>' p j = d_snd_given \<delta> p j" "d_rcv_given \<delta>' p j = d_rcv_given \<delta> p j" if "j \<noteq> i" for j
    using assms(2) that by (simp_all add: chooses_def)
  note ch = chooses_chosen[OF assms(2,3)] chooses_perm[OF assms(2)]
  note L = assms(1)[unfolded legs_rel_def]
  have 1: "snd_tab p s' = map (given_leg (d_snd_given \<delta>') (d_snd \<delta>') p) [0..<K]"
  proof (rule nth_equalityI)
    fix j assume "j < length (snd_tab p s')"
    then have "j < K" using L assms(7) by (simp split: if_splits)
    then show "snd_tab p s' ! j = map (given_leg (d_snd_given \<delta>') (d_snd \<delta>') p) [0..<K] ! j"
      using L assms(6,7) ng oth by (cases "j = i") (auto simp: given_leg_def)
  qed (use L assms(7) in simp)
  have 2: "rcv_tab p s' = map (given_leg (d_rcv_given \<delta>') (d_rcv \<delta>') p) [0..<K]"
  proof (rule nth_equalityI)
    fix j assume "j < length (rcv_tab p s')"
    then have "j < K" using L assms(8) by (simp split: if_splits)
    then show "rcv_tab p s' ! j = map (given_leg (d_rcv_given \<delta>') (d_rcv \<delta>') p) [0..<K] ! j"
      using L assms(6,8) ng oth by (cases "j = i") (auto simp: given_leg_def)
  qed (use L assms(8) in simp)
  have 3: "preprocessed s' = map (chosen \<delta>') [0..<K]"
    using L assms(6,9) ch by (intro nth_equalityI) (auto simp: nth_list_update)
  show ?thesis using 1 2 3 by (simp add: legs_rel_def)
qed

lemma S_rel_legs:
  assumes "S_rel p n K M gh data done s \<delta>" "legs_rel p K s' \<delta>'"
    "s' = s\<lparr>pi_0 := pi_0 s', pi_1 := pi_1 s', pi_0_p := pi_0_p s', pi_1_p := pi_1_p s', preprocessed := preprocessed s'\<rparr>"
    "d_pre \<delta>' p = d_pre \<delta> p" "d_prep \<delta>' p = d_prep \<delta> p" "d_triple \<delta>' p = d_triple \<delta> p"
  shows "S_rel p n K M gh data done s' \<delta>'"
proof -
  have f: "st_id s' = st_id s" "st_size s' = st_size s" "random_generators s' = random_generators s"
    "triples_disk s' = triples_disk s" "triples_a s' = triples_a s" "triples_b s' = triples_b s"
    "triples_c s' = triples_c s" "preproc_disk s' = preproc_disk s" "preproc s' = preproc s"
    "read_idx s' = read_idx s" "st_ssd s' = st_ssd s"
    by (subst assms(3), simp)+
  have "pre_ok s' = pre_ok s" "pre_data s' = pre_data s" "pre_pos s' = pre_pos s"
    using f by (simp_all add: pre_defs)
  then show ?thesis
    using assms(1,2,4-6) f triple_at_cong[of s' s] by (simp add: S_defs)
qed

text \<open>Saving the leg that was handed out, and marking the shuffle.\<close>

lemma S_mark_chosen:
  assumes "S_rel p n K M gh data done s \<delta>" "i < K" "chosen \<delta> i"
  shows "mark_preprocessed i s = Inr s"
proof -
  have "(preprocessed s)[i := True] = preprocessed s" "i < length (preprocessed s)"
    using assms by (auto simp: S_defs intro!: list_update_same_conv[THEN iffD2])
  then show ?thesis by (simp add: mark_preprocessed_def)
qed

lemma S_choose:
  assumes "S_rel p n K M gh data done s \<delta>" "chooses n i \<delta> \<delta>'" "0 < n" "\<not> chosen \<delta> i" "legs_inv n \<delta>" "i < K"
    "d_pre \<delta>' p = d_pre \<delta> p" "d_prep \<delta>' p = d_prep \<delta> p" "d_triple \<delta>' p = d_triple \<delta> p"
  shows "\<not> d_snd_given \<delta>' p i \<Longrightarrow> \<not> d_rcv_given \<delta>' p i \<Longrightarrow>
       \<exists>s'. mark_preprocessed i s = Inr s' \<and> S_rel p n K M gh data done s' \<delta>'"
    and "d_snd_given \<delta>' p i \<Longrightarrow> \<not> d_rcv_given \<delta>' p i \<Longrightarrow>
       \<exists>s'. bindr (if p = P0 then set_pi_0_p i (d_snd \<delta>' p i) s else set_pi_1 i (d_snd \<delta>' p i) s)
              (mark_preprocessed i) = Inr s' \<and> S_rel p n K M gh data done s' \<delta>'"
    and "\<not> d_snd_given \<delta>' p i \<Longrightarrow> d_rcv_given \<delta>' p i \<Longrightarrow> p = P1 \<Longrightarrow>
       \<exists>s'. bindr (set_pi_1_p i (d_rcv \<delta>' p i) s) (mark_preprocessed i) = Inr s' \<and>
            S_rel p n K M gh data done s' \<delta>'"
proof -
  have "p \<noteq> D" using assms(1) by (simp add: S_rel_def)
  then have L: "legs_rel p K s \<delta>" "p = P0 \<or> p = P1"
    using assms(1) by (simp add: S_rel_def, cases p) auto
  have len: "i < length (preprocessed s)" "i < length (snd_tab p s)" "i < length (rcv_tab p s)"
    using L assms(6) by (simp_all add: legs_rel_def)
  note after = legs_after[OF L(1) assms(2-6)]
  note rel = S_rel_legs[OF assms(1) _ _ assms(7-9)]
  show "\<exists>s'. mark_preprocessed i s = Inr s' \<and> S_rel p n K M gh data done s' \<delta>'"
    if "\<not> d_snd_given \<delta>' p i" "\<not> d_rcv_given \<delta>' p i"
  proof -
    let ?s = "s\<lparr>preprocessed := (preprocessed s)[i := True]\<rparr>"
    have "legs_rel p K ?s \<delta>'" by (rule after) (use that in \<open>simp_all add: snd_tab_def rcv_tab_def\<close>)
    from rel[OF this] len show ?thesis by (simp add: mark_preprocessed_def)
  qed
  show "\<exists>s'. bindr (if p = P0 then set_pi_0_p i (d_snd \<delta>' p i) s else set_pi_1 i (d_snd \<delta>' p i) s)
              (mark_preprocessed i) = Inr s' \<and> S_rel p n K M gh data done s' \<delta>'"
    if "d_snd_given \<delta>' p i" "\<not> d_rcv_given \<delta>' p i"
    using L(2)
  proof
    assume p: "p = P0"
    let ?s = "s\<lparr>pi_0_p := (pi_0_p s)[i := d_snd \<delta>' p i], preprocessed := (preprocessed s)[i := True]\<rparr>"
    have "legs_rel p K ?s \<delta>'" by (rule after) (use that p in \<open>simp_all add: snd_tab_def rcv_tab_def\<close>)
    from rel[OF this] len p show ?thesis by (simp add: mark_preprocessed_def set_perm_def snd_tab_def)
  next
    assume p: "p = P1"
    let ?s = "s\<lparr>pi_1 := (pi_1 s)[i := d_snd \<delta>' p i], preprocessed := (preprocessed s)[i := True]\<rparr>"
    have "legs_rel p K ?s \<delta>'" by (rule after) (use that p in \<open>simp_all add: snd_tab_def rcv_tab_def\<close>)
    from rel[OF this] len p show ?thesis by (simp add: mark_preprocessed_def set_perm_def snd_tab_def)
  qed
  show "\<exists>s'. bindr (set_pi_1_p i (d_rcv \<delta>' p i) s) (mark_preprocessed i) = Inr s' \<and>
            S_rel p n K M gh data done s' \<delta>'"
    if "\<not> d_snd_given \<delta>' p i" "d_rcv_given \<delta>' p i" "p = P1"
  proof -
    let ?s = "s\<lparr>pi_1_p := (pi_1_p s)[i := d_rcv \<delta>' p i], preprocessed := (preprocessed s)[i := True]\<rparr>"
    have "legs_rel p K ?s \<delta>'" by (rule after) (use that in \<open>simp_all add: snd_tab_def rcv_tab_def\<close>)
    from rel[OF this] len that show ?thesis by (simp add: mark_preprocessed_def set_perm_def rcv_tab_def)
  qed
qed

section \<open>Gates\<close>

text \<open>What a choice hands out to whom.\<close>

lemma choose_legs_given:
  assumes "legs_inv n \<delta>" "\<not> chosen \<delta> i" "p \<noteq> D"
  shows "d_snd_given (choose_legs P n i \<delta>) p i \<longleftrightarrow> p = P0 \<and> d_to \<delta> = P0"
    "d_rcv_given (choose_legs P n i \<delta>) p i \<longleftrightarrow> p = P1 \<and> d_to \<delta> = P1"
    "d_pre (choose_legs P n i \<delta>) p = d_pre \<delta> p @
       (if p \<noteq> d_to \<delta> then [] else if p = P0 then d_snd (choose_legs P n i \<delta>) p i
        else d_rcv (choose_legs P n i \<delta>) p i)"
    "d_prep (choose_legs P n i \<delta>) = d_prep \<delta>" "d_triple (choose_legs P n i \<delta>) = d_triple \<delta>"
proof -
  have ng: "\<not> d_snd_given \<delta> p i" "\<not> d_rcv_given \<delta> p i" "d_to \<delta> \<noteq> D"
    using assms(1,2) unfolding legs_inv_def by presburger+
  then have to: "d_to \<delta> = P0 \<or> d_to \<delta> = P1" by (cases "d_to \<delta>") auto
  have p: "p = P0 \<or> p = P1" using assms(3) by (cases p) auto
  show "d_snd_given (choose_legs P n i \<delta>) p i \<longleftrightarrow> p = P0 \<and> d_to \<delta> = P0"
    "d_rcv_given (choose_legs P n i \<delta>) p i \<longleftrightarrow> p = P1 \<and> d_to \<delta> = P1"
    "d_prep (choose_legs P n i \<delta>) = d_prep \<delta>" "d_triple (choose_legs P n i \<delta>) = d_triple \<delta>"
    "d_pre (choose_legs P n i \<delta>) p = d_pre \<delta> p @
       (if p \<noteq> d_to \<delta> then [] else if p = P0 then d_snd (choose_legs P n i \<delta>) p i
        else d_rcv (choose_legs P n i \<delta>) p i)"
    using ng to p by (auto simp: choose_legs_def Let_def split_beta)
qed

lemma choose_merged_given:
  assumes "legs_inv n \<delta>" "\<not> chosen \<delta> (g_shuffle_idx f)" "p \<noteq> D"
  shows "d_snd_given (choose_merged P n f \<delta>) p (g_shuffle_idx f)"
    "\<not> d_rcv_given (choose_merged P n f \<delta>) p (g_shuffle_idx f)"
    "d_pre (choose_merged P n f \<delta>) p = d_pre \<delta> p @ d_snd (choose_merged P n f \<delta>) p (g_shuffle_idx f)"
    "d_prep (choose_merged P n f \<delta>) = d_prep \<delta>" "d_triple (choose_merged P n f \<delta>) = d_triple \<delta>"
proof -
  have ng: "\<not> d_rcv_given \<delta> p (g_shuffle_idx f)"
    using assms(1,2) unfolding legs_inv_def by presburger
  have p: "p = P0 \<or> p = P1" using assms(3) by (cases p) auto
  show "d_snd_given (choose_merged P n f \<delta>) p (g_shuffle_idx f)"
    "\<not> d_rcv_given (choose_merged P n f \<delta>) p (g_shuffle_idx f)"
    "d_pre (choose_merged P n f \<delta>) p = d_pre \<delta> p @ d_snd (choose_merged P n f \<delta>) p (g_shuffle_idx f)"
    "d_prep (choose_merged P n f \<delta>) = d_prep \<delta>" "d_triple (choose_merged P n f \<delta>) = d_triple \<delta>"
    using ng p by (auto simp: choose_merged_def Let_def split_beta)
qed

lemma chooses_tables: "tables \<delta> = tables \<delta>1 \<Longrightarrow> chooses n i \<delta> \<delta>' = chooses n i \<delta>1 \<delta>'"
  by (simp add: chooses_def tables_def)

lemma tables_pre [simp]: "tables (\<delta>\<lparr>d_pre := x\<rparr>) = tables \<delta>"
  by (simp add: tables_def)

text \<open>Reading the leg the message holds, in a state that differs from \<open>\<delta>\<close> only in the message.\<close>

lemma S_read_leg:
  assumes "S_rel p n K M gh data done s \<delta>" "data = d_pre \<delta> p @ v @ rest" "length v = n"
    "chooses n i \<delta> \<delta>'" "\<not> chosen \<delta> i" "legs_inv n \<delta>" "d_pre \<delta>' p = d_pre \<delta> p @ v"
    "d_prep \<delta>' = d_prep \<delta>" "d_triple \<delta>' = d_triple \<delta>"
  shows "\<exists>s' \<delta>1. read_preproc n s = Inr (v, s') \<and> S_rel p n K M gh data done s' \<delta>1 \<and> chooses n i \<delta>1 \<delta>' \<and>
     \<not> chosen \<delta>1 i \<and> legs_inv n \<delta>1 \<and> d_pre \<delta>' p = d_pre \<delta>1 p \<and> d_prep \<delta>' p = d_prep \<delta>1 p \<and>
     d_triple \<delta>' p = d_triple \<delta>1 p"
proof -
  let ?\<delta>1 = "\<delta>\<lparr>d_pre := (d_pre \<delta>)(p := d_pre \<delta> p @ v)\<rparr>"
  have t: "tables \<delta> = tables ?\<delta>1" by simp
  obtain s' where "read_preproc n s = Inr (v, s')" "S_rel p n K M gh data done s' ?\<delta>1"
    using S_read[OF assms(1-3)] by blast
  moreover have "legs_inv n ?\<delta>1"
    using assms(6) by (intro legs_inv_tables[OF t]) (simp_all add: legs_inv_def)
  ultimately show ?thesis
    using assms(4,5,7-9) chooses_tables[OF t] chosen_tables[OF t]
    by (intro exI[where x = s'] exI[where x = ?\<delta>1]) simp
qed

lemma S_at_preprocessed:
  "S_rel p n K M gh data done s \<delta> \<Longrightarrow> i < K \<Longrightarrow> at_res (preprocessed s) i = Inr (chosen \<delta> i)"
  by (simp add: S_defs)

lemma S_shuffle:
  assumes "S_rel p n K M gh data done s \<delta>" "legs_inv n \<delta>" "g_shuffle_idx f < K" "0 < n" "n < 2 ^ 31"
    "data = d_pre (deal_shuffle P n f \<delta>) p @ rest"
  shows "\<exists>s'. bindr (prep_shuffle_online f (d_to \<delta>) s) (mark_preprocessed (g_shuffle_idx f)) = Inr s' \<and>
     S_rel p n K M gh data done s' (deal_shuffle P n f \<delta>)"
proof -
  let ?i = "g_shuffle_idx f"
  have me: "st_id s = p" "st_size s = n" "p \<noteq> D" using assms(1) by (simp_all add: S_rel_def)
  define \<delta>1 where "\<delta>1 = deal_masks P n (out_idx f) \<delta>"
  have 1: "S_rel p n K M gh data done s \<delta>1"
    using assms(1) by (simp add: \<delta>1_def S_rel_cong[OF server_part_masks])
  have i1: "legs_inv n \<delta>1" "chosen \<delta>1 = chosen \<delta>" "d_to \<delta>1 = d_to \<delta>"
    using masks_legs_inv[OF assms(2)] by (simp_all add: \<delta>1_def)
  define \<delta>2 where "\<delta>2 = (if chosen \<delta>1 ?i then \<delta>1 else choose_legs P n ?i \<delta>1)"
  have sp: "server_part p (deal_shuffle P n f \<delta>) = server_part p \<delta>2"
    by (simp add: deal_shuffle_def Let_def \<delta>1_def[symmetric] \<delta>2_def i1)
  then have dat: "data = d_pre \<delta>2 p @ rest" using assms(6) by (simp add: server_part_def)
  have seen: "at_res (preprocessed s) ?i = Inr (chosen \<delta> ?i)" by (rule S_at_preprocessed[OF assms(1,3)])
  have "\<exists>s'. bindr (prep_shuffle_online f (d_to \<delta>) s) (mark_preprocessed ?i) = Inr s' \<and>
     S_rel p n K M gh data done s' \<delta>2"
  proof (cases "chosen \<delta> ?i")
    case True
    then show ?thesis
      using S_mark_chosen[OF 1 assms(3)] 1 i1(2) seen by (simp add: prep_shuffle_online_def \<delta>2_def)
  next
    case False
    then have d2: "\<delta>2 = choose_legs P n ?i \<delta>1" "\<not> chosen \<delta>1 ?i" by (simp_all add: \<delta>2_def i1(2))
    have ch: "chooses n ?i \<delta>1 \<delta>2" unfolding d2(1) by (rule choose_legs_chooses(1)[OF assms(5)])
    note g = choose_legs_given[OF i1(1) d2(2) me(3), of P, folded d2(1), unfolded i1(3)]
    show ?thesis
    proof (cases "d_to \<delta> = p")
      case other: False
      then have "prep_shuffle_online f (d_to \<delta>) s = Inr s" using seen me by (simp add: prep_shuffle_online_def)
      then show ?thesis
        using S_choose(1)[OF 1 ch assms(4) d2(2) i1(1) assms(3)] g other by auto
    next
      case mine: True
      define v where "v = (if p = P0 then d_snd \<delta>2 p ?i else d_rcv \<delta>2 p ?i)"
      have pv: "d_pre \<delta>2 p = d_pre \<delta>1 p @ v" using g(3) mine by (simp add: v_def)
      have p01: "p = P0 \<or> p = P1" using me(3) by (cases p) auto
      have lv: "length v = n"
        using ch p01 perm_ok_length unfolding v_def chooses_def legs_ok_def by auto
      obtain s1 \<delta>3 where r: "read_preproc n s = Inr (v, s1)" and S3: "S_rel p n K M gh data done s1 \<delta>3"
        "chooses n ?i \<delta>3 \<delta>2" "\<not> chosen \<delta>3 ?i" "legs_inv n \<delta>3" "d_pre \<delta>2 p = d_pre \<delta>3 p"
        "d_prep \<delta>2 p = d_prep \<delta>3 p" "d_triple \<delta>2 p = d_triple \<delta>3 p"
        using S_read_leg[OF 1 _ lv ch d2(2) i1(1) pv g(4,5), of rest] dat pv by auto
      have me1: "st_id s1 = p" using S3(1) by (simp add: S_rel_def)
      note c = S_choose[OF S3(1,2) assms(4) S3(3,4) assms(3) S3(5-7)]
      have "prep_shuffle_online f (d_to \<delta>) s = (if p = P0 then set_pi_0_p ?i v s1 else set_pi_1_p ?i v s1)"
        using seen False mine me me1 r by (simp add: prep_shuffle_online_def)
      then show ?thesis using c(2,3) g(1,2) mine p01 v_def by auto
    qed
  qed
  then show ?thesis using S_rel_cong[OF sp] by metis
qed

lemma S_merged:
  assumes "S_rel p n K M gh data done s \<delta>" "legs_inv n \<delta>" "g_shuffle_idx f < K" "0 < n" "n < 2 ^ 31"
    "data = d_pre (deal_merged P n f \<delta>) p @ rest" "chosen \<delta> (pi_idx f)" "chosen \<delta> (omega_idx f)"
  shows "\<exists>s'. bindr (prep_merged_online f s) (mark_preprocessed (g_shuffle_idx f)) = Inr s' \<and>
     S_rel p n K M gh data done s' (deal_merged P n f \<delta>)"
proof -
  let ?i = "g_shuffle_idx f"
  have me: "st_id s = p" "st_size s = n" "p \<noteq> D" using assms(1) by (simp_all add: S_rel_def)
  define \<delta>1 where "\<delta>1 = deal_masks P n (out_idx f) \<delta>"
  have 1: "S_rel p n K M gh data done s \<delta>1"
    using assms(1) by (simp add: \<delta>1_def S_rel_cong[OF server_part_masks])
  have i1: "legs_inv n \<delta>1" "chosen \<delta>1 = chosen \<delta>"
    using masks_legs_inv[OF assms(2)] by (simp_all add: \<delta>1_def)
  define \<delta>2 where "\<delta>2 = (if chosen \<delta>1 ?i then \<delta>1 else choose_merged P n f \<delta>1)"
  have sp: "server_part p (deal_merged P n f \<delta>) = server_part p \<delta>2"
    by (simp add: deal_merged_def Let_def \<delta>1_def[symmetric] \<delta>2_def i1)
  then have dat: "data = d_pre \<delta>2 p @ rest" using assms(6) by (simp add: server_part_def)
  have seen: "at_res (preprocessed s) ?i = Inr (chosen \<delta> ?i)" by (rule S_at_preprocessed[OF assms(1,3)])
  have "\<exists>s'. bindr (prep_merged_online f s) (mark_preprocessed ?i) = Inr s' \<and>
     S_rel p n K M gh data done s' \<delta>2"
  proof (cases "chosen \<delta> ?i")
    case True
    then show ?thesis
      using S_mark_chosen[OF 1 assms(3)] 1 i1(2) seen by (simp add: prep_merged_online_def \<delta>2_def)
  next
    case False
    then have d2: "\<delta>2 = choose_merged P n f \<delta>1" "\<not> chosen \<delta>1 ?i" by (simp_all add: \<delta>2_def i1(2))
    have ch: "chooses n ?i \<delta>1 \<delta>2"
      unfolding d2(1) using choose_merged_chooses(1)[OF assms(5) i1(1)] assms(7,8) i1(2) by simp
    note g = choose_merged_given[OF i1(1) d2(2) me(3), of P, folded d2(1)]
    have p01: "p = P0 \<or> p = P1" using me(3) by (cases p) auto
    let ?v = "d_snd \<delta>2 p ?i"
    have lv: "length ?v = n"
      using ch p01 perm_ok_length unfolding chooses_def legs_ok_def by auto
    obtain s1 \<delta>3 where r: "read_preproc n s = Inr (?v, s1)" and S3: "S_rel p n K M gh data done s1 \<delta>3"
      "chooses n ?i \<delta>3 \<delta>2" "\<not> chosen \<delta>3 ?i" "legs_inv n \<delta>3" "d_pre \<delta>2 p = d_pre \<delta>3 p"
      "d_prep \<delta>2 p = d_prep \<delta>3 p" "d_triple \<delta>2 p = d_triple \<delta>3 p"
      using S_read_leg[OF 1 _ lv ch d2(2) i1(1) g(3-5), of rest] dat g(3) by auto
    have me1: "st_id s1 = p" using S3(1) by (simp add: S_rel_def)
    have "prep_merged_online f s = (if p = P0 then set_pi_0_p ?i ?v s1 else set_pi_1 ?i ?v s1)"
      using seen False me me1 r by (simp add: prep_merged_online_def)
    then show ?thesis using S_choose(2)[OF S3(1,2) assms(4) S3(3,4) assms(3) S3(5-7) g(1,2)] by simp
  qed
  then show ?thesis using S_rel_cong[OF sp] by metis
qed

section \<open>Triples\<close>

lemma S_draw_prep:
  assumes "S_rel p n K M gh data done s \<delta>"
  shows "\<exists>s'. from_D_prep f s = Inr (fst (f (d_prep \<delta> p)), s') \<and>
     S_rel p n K M gh data done s' (\<delta>\<lparr>d_prep := (d_prep \<delta>)(p := snd (f (d_prep \<delta> p)))\<rparr>)"
    (is "\<exists>s'. _ \<and> S_rel _ _ _ _ _ _ _ s' ?\<delta>")
proof -
  let ?r = "random_generators s"
  let ?s = "s\<lparr>random_generators := ?r\<lparr>rng_with_D_prep := snd (f (d_prep \<delta> p))\<rparr>\<rparr>"
  have r: "online_role ?r" "rng_with_D_prep ?r = d_prep \<delta> p" using assms by (simp_all add: S_defs)
  then have "from_D_prep f s = Inr (fst (f (d_prep \<delta> p)), ?s)"
    by (simp add: with_rng_def Let_def split_beta)
  moreover have "pre_ok ?s = pre_ok s" "pre_data ?s = pre_data s" "pre_pos ?s = pre_pos s"
    by (simp_all add: pre_defs)
  then have "S_rel p n K M gh data done ?s ?\<delta>"
    using assms triple_at_cong[of ?s s] chosen_tables[of ?\<delta> \<delta>]
    by (simp add: S_defs snd_tab_def rcv_tab_def online_role_def tables_def cong: if_cong)
  ultimately show ?thesis by blast
qed

lemma S_share_vec_3P:
  assumes "S_rel p n K M gh data done s \<delta>"
  shows "\<exists>s'. share_vec_3P P m b s = Inr (fst (draw_vec P m (d_prep \<delta> p)), s') \<and>
     S_rel p n K M gh data done s' (\<delta>\<lparr>d_prep := (d_prep \<delta>)(p := snd (draw_vec P m (d_prep \<delta> p)))\<rparr>)"
proof -
  have "st_id s \<noteq> D" "online_role (random_generators s)" using assms by (auto simp: S_defs)
  then have "share_vec_3P P m b s = from_D_prep (draw_vec P m) s"
    by (simp add: share_vec_3P_def share_3P_runs with_rng_def Let_def split_beta)
  then show ?thesis using S_draw_prep[OF assms, of "draw_vec P m"] by simp
qed

lemma S_triple:
  assumes "S_rel p n K M gh data done s \<delta>" "d_to \<delta> \<noteq> D" "mult_idx f < M" "mult_idx f \<notin> done"
    "data = d_pre (deal_triple P n f \<delta>) p @ rest"
  shows "\<exists>s'. prep_triple P f (d_to \<delta>) s = Inr s' \<and>
     S_rel p n K M gh data (insert (mult_idx f) done) s' (deal_triple P n f \<delta>)"
proof -
  let ?b = "g_binary f" and ?m = "triple_width n f" and ?i = "mult_idx f"
  let ?f = "draw_vec P ?m"
  let ?\<delta>' = "deal_triple P n f \<delta>"
  have p01: "p = P0 \<or> p = P1" using assms(1) by (cases p) (auto simp: S_rel_def)
  have to01: "d_to \<delta> = P0 \<or> d_to \<delta> = P1" using assms(2) by (cases "d_to \<delta>") auto
  have me: "st_id s = p" "st_size s = n" if "S_rel p n K M gh data done s \<delta>" for s :: "'a storage" and \<delta>
    using that by (simp_all add: S_rel_def)
  obtain a b c where abc: "d_triple ?\<delta>' p ?i = (a, b, c)" by (metis prod_cases3)
  define g1 where "g1 = snd (?f (d_prep \<delta> p))"
  obtain s1 \<delta>1 where 1: "share_vec_3P P ?m ?b s = Inr (fst (?f (d_prep \<delta> p)), s1)"
    "\<delta>1 = \<delta>\<lparr>d_prep := (d_prep \<delta>)(p := g1)\<rparr>" "S_rel p n K M gh data done s1 \<delta>1"
    using S_share_vec_3P[OF assms(1), of P ?m ?b] unfolding g1_def by blast
  have p1: "d_prep \<delta>1 p = g1" by (simp add: 1(2))
  define g2 where "g2 = snd (?f g1)"
  obtain s2 \<delta>2 where 2: "share_vec_3P P ?m ?b s1 = Inr (fst (?f g1), s2)"
    "\<delta>2 = \<delta>1\<lparr>d_prep := (d_prep \<delta>1)(p := g2)\<rparr>" "S_rel p n K M gh data done s2 \<delta>2"
    using S_share_vec_3P[OF 1(3), of P ?m ?b] unfolding g2_def p1 by blast
  have ab: "a = fst (?f (d_prep \<delta> p))" "b = fst (?f g1)"
    using abc p01 by (auto simp: deal_triple_def Let_def split_beta g1_def)
  have d2: "d_pre \<delta>2 = d_pre \<delta>" "d_prep \<delta>2 p = g2" "tables \<delta>2 = tables \<delta>" "d_triple \<delta>2 = d_triple \<delta>"
    by (simp_all add: 1(2) 2(2) tables_def)
  have other: "d_triple ?\<delta>' p j = d_triple \<delta> p j" if "j \<noteq> ?i" for j
    using that by (simp add: deal_triple_def Let_def split_beta)
  have "\<exists>s3 \<delta>3. random_share_secret_vec_3P P (d_to \<delta>) (vmul ?b a b) ?b s2 = Inr (c, s3) \<and>
     S_rel p n K M gh data done s3 \<delta>3 \<and> d_pre \<delta>3 p = d_pre ?\<delta>' p \<and> d_prep \<delta>3 p = d_prep ?\<delta>' p \<and>
     tables \<delta>3 = tables \<delta> \<and> d_triple \<delta>3 = d_triple \<delta>"
  proof -
    have l: "length (vmul ?b a b) = ?m" by (simp add: vmul_def ab)
    have id: "st_id s2 = p" "p \<noteq> D" using me(1)[OF 2(3)] 2(3) by (simp_all add: S_rel_def)
    show ?thesis
    proof (cases "d_to \<delta> = p")
      case True
      have c: "d_pre ?\<delta>' p = d_pre \<delta> p @ c" "length c = ?m" "d_prep ?\<delta>' p = g2"
        using abc True p01 by (auto simp: deal_triple_def Let_def split_beta other_recv_def g1_def g2_def vmul_def join_def)
      obtain s3 where "read_preproc ?m s2 = Inr (c, s3)"
        "S_rel p n K M gh data done s3 (\<delta>2\<lparr>d_pre := (d_pre \<delta>2)(p := d_pre \<delta>2 p @ c)\<rparr>)"
        using S_read[OF 2(3) _ c(2), of rest] assms(5) c(1) d2(1) by auto
      then show ?thesis
        using True id l c d2
        by (intro exI[where x = s3] exI[where x = "\<delta>2\<lparr>d_pre := (d_pre \<delta>2)(p := d_pre \<delta>2 p @ c)\<rparr>"])
          (simp add: random_share_secret_vec_3P_def Let_def)
    next
      case False
      have c: "d_pre ?\<delta>' p = d_pre \<delta> p" "c = fst (?f g2)" "d_prep ?\<delta>' p = snd (?f g2)"
        using abc False p01 to01 by (auto simp: deal_triple_def Let_def split_beta other_recv_def g1_def g2_def)
      obtain s3 \<delta>3 where "from_D_prep ?f s2 = Inr (fst (?f g2), s3)"
        "\<delta>3 = \<delta>2\<lparr>d_prep := (d_prep \<delta>2)(p := snd (?f g2))\<rparr>" "S_rel p n K M gh data done s3 \<delta>3"
        using S_draw_prep[OF 2(3), of ?f] unfolding d2(2) by blast
      then show ?thesis
        using False id l c d2
        by (intro exI[where x = s3] exI[where x = \<delta>3])
          (simp add: random_share_secret_vec_3P_def Let_def tables_def)
    qed
  qed
  then obtain s3 \<delta>3 where 3: "random_share_secret_vec_3P P (d_to \<delta>) (vmul ?b a b) ?b s2 = Inr (c, s3)"
     "S_rel p n K M gh data done s3 \<delta>3" "d_pre \<delta>3 p = d_pre ?\<delta>' p" "d_prep \<delta>3 p = d_prep ?\<delta>' p"
     "tables \<delta>3 = tables \<delta>" "d_triple \<delta>3 = d_triple \<delta>" by blast
  obtain s4 where 4: "store_triples a b c ?i s3 = Inr s4"
    "S_rel p n K M gh data (insert ?i done) s4 ?\<delta>'"
    using S_store_triples[OF 3(2) assms(3,4) abc _ _ _ _] other 3(3-6) by auto
  have id: "st_id s3 = p" "p \<noteq> D" using 3(2) by (simp_all add: S_rel_def)
  have tw: "(if gt f \<noteq> Compaction then g_size f else st_size s) = ?m"
    using me(2)[OF assms(1)] by (simp add: triple_width_def)
  have "prep_triple P f (d_to \<delta>) s = Inr s4"
    unfolding prep_triple_def tw Let_def
    using 1(1) 2(1) 3(1) 4(1) id ab by simp
  then show ?thesis using 4(2) by blast
qed

section \<open>One gate and the whole walk\<close>

lemma S_gate:
  assumes "S_rel p n K M gh data done s \<delta>" "legs_inv n \<delta>" "ready_gate \<delta> f" "slots_ok K f" "0 < n" "n < 2 ^ 31"
    "data = d_pre (deal_gate P n f \<delta>) p @ rest"
    "triple_type (gt f) \<Longrightarrow> mult_idx f < M \<and> mult_idx f \<notin> done"
  shows "\<exists>s'. preprocess_gate P (s, d_to \<delta>) f = Inr (s', d_to (deal_gate P n f \<delta>)) \<and>
     S_rel p n K M gh data (if triple_type (gt f) then insert (mult_idx f) done else done) s' (deal_gate P n f \<delta>)"
proof -
  have me: "st_id s \<noteq> D" using assms(1) by (auto simp: S_rel_def)
  have to: "d_to \<delta> \<noteq> D" using assms(2) by (simp add: legs_inv_def)
  consider (sh) "gt f = Shuffle" | (mg) "gt f = MergedShuffle" | (un) "gt f = Unshuffle"
    | (tri) "triple_type (gt f)"
    | (oth) "deal_gate P n f \<delta> = \<delta>" "preprocess_gate P (s, d_to \<delta>) f = Inr (s, d_to \<delta>)" "\<not> triple_type (gt f)"
    by (cases "gt f") (auto simp: triple_type_def deal_gate_def preprocess_gate_def)
  then show ?thesis
  proof cases
    case sh
    have i: "g_shuffle_idx f < K" using assms(4) sh by (simp add: slots_ok_def shuffle_type_def)
    have e: "deal_gate P n f \<delta> = deal_shuffle P n f \<delta>" using sh by (simp add: deal_gate_def)
    have "d_to (deal_gate P n f \<delta>) = other_recv (d_to \<delta>)"
      by (simp add: e deal_shuffle_def Let_def)
    then show ?thesis
      using bindr_pair[OF S_shuffle[OF assms(1,2) i assms(5,6) assms(7)[unfolded e]], of "other_recv (d_to \<delta>)"] sh me e
      by (simp add: preprocess_gate_def triple_type_def)
  next
    case mg
    have i: "g_shuffle_idx f < K" using assms(4) mg by (simp add: slots_ok_def shuffle_type_def)
    have c: "chosen \<delta> (pi_idx f)" "chosen \<delta> (omega_idx f)" using assms(3) mg by (simp_all add: ready_gate_def)
    have e: "deal_gate P n f \<delta> = deal_merged P n f \<delta>" using mg by (simp add: deal_gate_def)
    have "d_to (deal_gate P n f \<delta>) = d_to \<delta>"
      by (simp add: e deal_merged_def Let_def)
    then show ?thesis
      using bindr_pair[OF S_merged[OF assms(1,2) i assms(5,6) assms(7)[unfolded e] c], of "d_to \<delta>"] mg me e
      by (simp add: preprocess_gate_def triple_type_def)
  next
    case un
    have e: "deal_gate P n f \<delta> = deal_unshuffle P n f \<delta>" using un by (simp add: deal_gate_def)
    have "server_part p (deal_gate P n f \<delta>) = server_part p \<delta>" by (simp add: e deal_unshuffle_def)
    then have "S_rel p n K M gh data done s (deal_gate P n f \<delta>)" using S_rel_cong assms(1) by blast
    moreover have "d_to (deal_gate P n f \<delta>) = d_to \<delta>" by (simp add: e deal_unshuffle_def)
    ultimately show ?thesis
      using un me by (simp add: preprocess_gate_def triple_type_def)
  next
    case tri
    note e = deal_gate_triple[OF tri]
    show ?thesis
      using S_triple[OF assms(1) to _ _ assms(7)[unfolded e[of P n \<delta>]]] assms(8)[OF tri] tri
      by (auto simp: preprocess_gate_triple e)
  next
    case oth
    then show ?thesis using assms(1) by simp
  qed
qed

text \<open>The message only grows.\<close>

lemma d_pre_masks [simp]: "d_pre (deal_masks P n w \<delta>) = d_pre \<delta>"
  by (simp add: deal_masks_def Let_def split_beta)

lemma d_pre_corrections [simp]: "d_pre (deal_corrections P b i w \<delta>) = d_pre \<delta>"
  by (simp add: deal_corrections_def Let_def split_beta)

lemma deal_gate_pre: "\<exists>v. d_pre (deal_gate P n f \<delta>) p = d_pre \<delta> p @ v"
proof -
  have l: "\<exists>v. d_pre (choose_legs P n i \<delta>) p = d_pre \<delta> p @ v" for i and \<delta> :: "'a dealer"
    by (simp add: choose_legs_def Let_def split_beta)
  have m: "\<exists>v. d_pre (choose_merged P n f \<delta>) p = d_pre \<delta> p @ v" for \<delta> :: "'a dealer"
    by (simp add: choose_merged_def Let_def split_beta)
  have t: "\<exists>v. d_pre (deal_triple P n f \<delta>) p = d_pre \<delta> p @ v"
    by (simp add: deal_triple_def Let_def split_beta)
  have "\<exists>v. d_pre (deal_shuffle P n f \<delta>) p = d_pre \<delta> p @ v" "\<exists>v. d_pre (deal_merged P n f \<delta>) p = d_pre \<delta> p @ v"
    using l[of "g_shuffle_idx f" "deal_masks P n (out_idx f) \<delta>"] m[of "deal_masks P n (out_idx f) \<delta>"]
    by (simp_all add: deal_shuffle_def deal_merged_def Let_def)
  then show ?thesis
    using t by (cases "gt f") (simp_all add: deal_gate_def deal_unshuffle_def)
qed

lemma deal_pre: "\<exists>v. d_pre (deal P n gs \<delta>) p = d_pre \<delta> p @ v"
proof (induction gs arbitrary: \<delta>)
  case (Cons f gs)
  then show ?case using deal_gate_pre[of P n f \<delta> p] unfolding deal_Cons by (metis append.assoc)
qed simp

lemma S_gates:
  assumes "S_rel p n K M gh data done s \<delta>" "legs_inv n \<delta>" "\<And>i. i \<in> set seen \<Longrightarrow> chosen \<delta> i" "shuffles_first seen gs"
    "list_all (slots_ok K) gs" "0 < n" "n < 2 ^ 31" "data = d_pre (deal P n gs \<delta>) p @ rest"
    "distinct (map mult_idx (triple_gates gs))" "\<And>f. f \<in> set (triple_gates gs) \<Longrightarrow> mult_idx f < M \<and> mult_idx f \<notin> done"
  shows "\<exists>s'. foldr_res (preprocess_gate P) (s, d_to \<delta>) gs = Inr (s', d_to (deal P n gs \<delta>)) \<and>
     S_rel p n K M gh data (done \<union> mult_idx ` set (triple_gates gs)) s' (deal P n gs \<delta>)"
  using assms
proof (induction gs arbitrary: s \<delta> seen "done")
  case Nil
  then show ?case by (simp add: triple_gates_def)
next
  case (Cons f gs)
  have ready: "ready_gate \<delta> f" using Cons.prems(3,4) by (simp add: ready_gate_def)
  have K: "slots_ok K f" "list_all (slots_ok K) gs" using Cons.prems(5) by simp_all
  obtain v where v: "d_pre (deal P n gs (deal_gate P n f \<delta>)) p = d_pre (deal_gate P n f \<delta>) p @ v"
    using deal_pre by blast
  define done' where "done' = (if triple_type (gt f) then insert (mult_idx f) done else done)"
  have tg: "triple_gates (f # gs) = (if triple_type (gt f) then [f] else []) @ triple_gates gs"
    by (simp add: triple_gates_def)
  have M: "mult_idx f < M \<and> mult_idx f \<notin> done" if "triple_type (gt f)"
    using Cons.prems(10) that by (simp add: tg)
  have dat: "data = d_pre (deal_gate P n f \<delta>) p @ (v @ rest)" using Cons.prems(8) by (simp add: deal_Cons v)
  obtain s1 where 1: "preprocess_gate P (s, d_to \<delta>) f = Inr (s1, d_to (deal_gate P n f \<delta>))"
    "S_rel p n K M gh data done' s1 (deal_gate P n f \<delta>)"
    using S_gate[OF Cons.prems(1,2) ready K(1) Cons.prems(6,7) dat M] unfolding done'_def by blast
  note inv = deal_gate_inv[OF Cons.prems(2) ready Cons.prems(6,7), where P = P]
  let ?seen = "if gt f = Shuffle \<or> gt f = MergedShuffle then g_shuffle_idx f # seen else seen"
  have ch: "\<And>i. i \<in> set ?seen \<Longrightarrow> chosen (deal_gate P n f \<delta>) i"
    using inv(2) Cons.prems(3) by (auto simp: uses_def split: if_splits)
  have sf: "shuffles_first ?seen gs" using Cons.prems(4) by simp
  have dat': "data = d_pre (deal P n gs (deal_gate P n f \<delta>)) p @ rest" using Cons.prems(8) by (simp add: deal_Cons)
  have dis: "distinct (map mult_idx (triple_gates gs))" using Cons.prems(9) by (simp add: tg split: if_splits)
  have M': "mult_idx g < M \<and> mult_idx g \<notin> done'" if "g \<in> set (triple_gates gs)" for g
    using Cons.prems(9,10) that by (auto simp: tg done'_def image_iff split: if_splits)
  obtain s2 where 2: "foldr_res (preprocess_gate P) (s1, d_to (deal_gate P n f \<delta>)) gs =
      Inr (s2, d_to (deal P n gs (deal_gate P n f \<delta>)))"
    "S_rel p n K M gh data (done' \<union> mult_idx ` set (triple_gates gs)) s2 (deal P n gs (deal_gate P n f \<delta>))"
    using Cons.IH[OF 1(2) inv(1) ch sf K(2) Cons.prems(6,7) dat' dis M'] by blast
  have "done' \<union> mult_idx ` set (triple_gates gs) = done \<union> mult_idx ` set (triple_gates (f # gs))"
    by (auto simp: tg done'_def)
  then show ?case using 1(1) 2 by (simp add: deal_Cons)
qed

end
