(* ===== verification/Offline.thy ===== *)
theory Offline
  imports Server_Refine
begin

text \<open>
  \<open>Preprocessor::run\<close> on the three servers: seeds are handed out, the dealer walks over the
  circuit and sends each online server one message, with what that server cannot sample itself in
  front and the corrections of its shuffles behind; the online servers then walk over the circuit
  themselves. The theorem composes the refinements of the dealer and of the servers.
\<close>

section \<open>The message of the dealer\<close>

definition dealer_message :: "party \<Rightarrow> 'g storage \<Rightarrow> (vec \<times> 'g storage) res" where
  "dealer_message p s =
     (let i = party_num p in
      if st_ssd s then
        bindr (at_res (preproc_disk s) i) (\<lambda>pre_disk.
        bindr (at_res (B_disk s) i) (\<lambda>B_file.
          let (data_send, pre_disk) = fw_read pre_disk (replicate (fw_size pre_disk) 0) (fw_size pre_disk);
              (B, B_file) = fw_read B_file (replicate (fw_size B_file) 0) (fw_size B_file)
          in Inr (data_send @ B, s\<lparr>preproc_disk := (preproc_disk s)[i := fw_reset pre_disk],
                                  B_disk := (B_disk s)[i := fw_reset B_file]\<rparr>)))
      else
        bindr (at_res (preproc s) i) (\<lambda>data_send.
        bindr (at_res (st_B s) i) (\<lambda>B.
          Inr (data_send @ B, s\<lparr>preproc := (preproc s)[i := []], st_B := (st_B s)[i := []]\<rparr>))))"

text \<open>The number of elements goes first, then the elements in blocks.\<close>

definition dealer_send :: "nat \<Rightarrow> party \<Rightarrow> 'g storage \<Rightarrow> ((nat \<times> vec) \<times> 'g storage) res" where
  "dealer_send block_size p s =
     bindr (dealer_message p s) (\<lambda>(data_send, s).
     bindr (send_vec block_size data_send (length data_send) []) (\<lambda>chan.
       Inr ((length data_send, chan), s)))"

definition server_receive :: "nat \<Rightarrow> nat \<times> vec \<Rightarrow> 'g storage \<Rightarrow> ('g storage \<times> vec) res" where
  "server_receive block_size msg s =
     (let (n_recv, chan) = msg; me = party_num (st_id s) in
      if st_ssd s then
        bindr (at_res (preproc_disk s) me) (\<lambda>disk.
        bindr (recv_vec_disk block_size disk n_recv chan) (\<lambda>(disk, chan).
          Inr (s\<lparr>preproc_disk := (preproc_disk s)[me := disk]\<rparr>, chan)))
      else
        bindr (recv_vec block_size n_recv chan) (\<lambda>(v, chan).
        bindr (put_res (preproc s) me v) (\<lambda>ps. Inr (s\<lparr>preproc := ps\<rparr>, chan))))"

text \<open>
  The run of the three servers; every receive comes after the send it waits for. \<open>recv\<close> is the
  member of the preprocessor, which keeps its value between two runs.
\<close>

definition run_offline ::
  "'g prg_ops \<Rightarrow> nat \<Rightarrow> gate list list \<Rightarrow> party \<Rightarrow> 'g storage \<times> 'g storage \<times> 'g storage \<Rightarrow>
     (('g storage \<times> 'g storage \<times> 'g storage) \<times> party \<times> vec \<times> vec) res" where
  "run_offline P block_size layers recv ss =
     (let (sD, s0, s1) = ss in
      bindr (setup_rngs P (random_generators sD) (random_generators s0) (random_generators s1))
        (\<lambda>(rD, r0, r1).
      bindr (preprocess P layers (sD\<lparr>random_generators := rD\<rparr>, recv)) (\<lambda>(sD, recv_D).
      bindr (dealer_send block_size P0 sD) (\<lambda>(msg0, sD).
      bindr (dealer_send block_size P1 sD) (\<lambda>(msg1, sD).
      bindr (server_receive block_size msg0 (s0\<lparr>random_generators := r0\<rparr>)) (\<lambda>(s0, chan0).
      bindr (server_receive block_size msg1 (s1\<lparr>random_generators := r1\<rparr>)) (\<lambda>(s1, chan1).
      bindr (preprocess P layers (s0, recv)) (\<lambda>(s0, recv_0).
      bindr (preprocess P layers (s1, recv)) (\<lambda>(s1, recv_1).
        Inr ((sD, s0, s1), recv_D, chan0, chan1))))))))))"

section \<open>Sending and receiving\<close>

lemma fw_read_all:
  assumes "fw_unread f"
  shows "fst (fw_read f (replicate (fw_size f) 0) (fw_size f)) = fw_content f"
proof -
  have "fw_ok f" using assms by (simp add: fw_ok_def fw_unread_def)
  from fw_read_inside[OF this, of "fw_size f" "replicate (fw_size f) 0"] show ?thesis
    using assms by (simp add: fw_unread_def)
qed

lemma dealer_message_out:
  assumes "out_ok s" "p \<noteq> D"
  shows "\<exists>s'. dealer_message p s = Inr (out_pre p s @ out_B p s, s') \<and> out_ok s' \<and>
     (\<forall>q. q \<noteq> D \<longrightarrow> q \<noteq> p \<longrightarrow> out_pre q s' = out_pre q s \<and> out_B q s' = out_B q s)"
proof (cases "st_ssd s")
  case True
  let ?f = "preproc_disk s ! party_num p" and ?g = "B_disk s ! party_num p"
  have i: "party_num p < length (preproc_disk s)" "party_num p < length (B_disk s)"
    "list_all fw_unread (preproc_disk s)" "list_all fw_unread (B_disk s)"
    using assms True party_num_online[OF assms(2)] by (simp_all add: out_ok_def)
  then have u: "fw_unread ?f" "fw_unread ?g" by (simp_all add: list_all_length)
  obtain f' where f': "fw_read ?f (replicate (fw_size ?f) 0) (fw_size ?f) = (fw_content ?f, f')"
    using fw_read_all[OF u(1)] by (metis prod.collapse)
  obtain g' where g': "fw_read ?g (replicate (fw_size ?g) 0) (fw_size ?g) = (fw_content ?g, g')"
    using fw_read_all[OF u(2)] by (metis prod.collapse)
  have r: "fw_unread (fw_reset f)" for f by (simp add: fw_unread_def fw_reset_def)
  show ?thesis
    using True i f' g' assms r
    by (auto simp: dealer_message_def out_pre_def out_B_def out_ok_def Let_def list_all_length
        nth_list_update party_num_inj)
next
  case False
  then show ?thesis
    using assms party_num_online[OF assms(2)]
    by (auto simp: dealer_message_def out_pre_def out_B_def out_ok_def Let_def party_num_inj)
qed

lemma dealer_send_out:
  assumes "out_ok s" "p \<noteq> D" "0 < b"
  shows "\<exists>s'. dealer_send b p s = Inr ((length (out_pre p s @ out_B p s), out_pre p s @ out_B p s), s') \<and>
     out_ok s' \<and> (\<forall>q. q \<noteq> D \<longrightarrow> q \<noteq> p \<longrightarrow> out_pre q s' = out_pre q s \<and> out_B q s' = out_B q s)"
proof -
  obtain s' where s': "dealer_message p s = Inr (out_pre p s @ out_B p s, s')" "out_ok s'"
     "\<forall>q. q \<noteq> D \<longrightarrow> q \<noteq> p \<longrightarrow> out_pre q s' = out_pre q s \<and> out_B q s' = out_B q s"
    using dealer_message_out[OF assms(1,2)] by blast
  then show ?thesis
    using send_vec_stream[OF assms(3), of "length (out_pre p s @ out_B p s)" "out_pre p s @ out_B p s" "[]"]
    by (simp add: dealer_send_def)
qed

text \<open>What an online server holds after it has received \<open>v\<close>: nothing else has changed.\<close>

lemma server_receive_ok:
  assumes "pre_ok s" "pre_data s = []" "0 < b"
  shows "\<exists>s'. server_receive b (length v, v) s = Inr (s', []) \<and> pre_ok s' \<and> pre_data s' = v \<and> pre_pos s' = 0 \<and>
     s' = s\<lparr>preproc := preproc s', preproc_disk := preproc_disk s'\<rparr>"
proof (cases "st_ssd s")
  case True
  let ?i = "party_num (st_id s)"
  have i: "?i < length (preproc_disk s)" "fw_ok (preproc_disk s ! ?i)" "fw_content (preproc_disk s ! ?i) = []"
    using assms True by (simp_all add: pre_defs)
  obtain d where d: "recv_vec_disk b (preproc_disk s ! ?i) (length v) v = Inr (d, [])"
    "fw_content d = v" "fw_size d = length v" "fw_read_idx d = 0"
    using recv_vec_disk_stream[OF assms(3) order.refl, where chan = v and disk = "preproc_disk s ! ?i"] i(2,3)
    by (auto simp: fw_ok_def)
  then show ?thesis using True i d by (simp add: server_receive_def pre_defs fw_ok_def)
next
  case False
  then show ?thesis
    using assms recv_vec_stream[OF assms(3) order.refl, of v] by (simp add: server_receive_def pre_defs)
qed

section \<open>The online servers at the start\<close>

lemma new_storage_pre:
  assumes "conf_id conf \<noteq> D"
  shows "pre_ok (new_storage conf ci r)" "pre_data (new_storage conf ci r) = []"
proof -
  have "conf_id conf = P0 \<or> conf_id conf = P1" using assms by (cases "conf_id conf") auto
  then show "pre_ok (new_storage conf ci r)" "pre_data (new_storage conf ci r) = []"
    by (auto simp: new_storage_def pre_defs Let_def fw_ok_def fw_new_def)
qed

lemma S_rel_init:
  assumes "conf_id conf = p" "p \<noteq> D" "online_role r'"
    "rng_with_D_prep r' = d_prep (deal_init rD) p" "gh = (rng_with_D_send r', rng_with_D_recv r', rng_01 r')"
    "pre_ok s" "pre_data s = data" "pre_pos s = 0"
    "s = (new_storage conf ci r)\<lparr>random_generators := r', preproc := preproc s, preproc_disk := preproc_disk s\<rparr>"
  shows "S_rel p (conf_size conf) (shuffle_idx ci + 1) (n_mults ci) gh data {} s (deal_init rD)"
proof -
  let ?s = "new_storage conf ci r"
  have p: "p = P0 \<or> p = P1" using assms(2) by (cases p) auto
  have f: "st_id s = p" "st_size s = conf_size conf" "random_generators s = r'"
    "pi_0 s = pi_0 ?s" "pi_1 s = pi_1 ?s" "pi_0_p s = pi_0_p ?s" "pi_1_p s = pi_1_p ?s"
    "preprocessed s = preprocessed ?s" "triples_disk s = triples_disk ?s" "triples_a s = triples_a ?s"
    "triples_b s = triples_b ?s" "triples_c s = triples_c ?s" "st_ssd s = st_ssd ?s"
    by (subst assms(9), simp add: new_storage_def Let_def assms(1))+
  have none: "given_leg (d_snd_given (deal_init rD)) (d_snd (deal_init rD)) p = (\<lambda>_. [])"
    "given_leg (d_rcv_given (deal_init rD)) (d_rcv (deal_init rD)) p = (\<lambda>_. [])"
    "chosen (deal_init rD) = (\<lambda>_. False)"
    by (auto simp: given_leg_def deal_init_def chosen_def)
  have legs: "legs_rel p (shuffle_idx ci + 1) s (deal_init rD)"
    unfolding legs_rel_def none snd_tab_def rcv_tab_def f
    using p assms(1)
    by (auto simp: new_storage_def Let_def map_replicate_const simp del: replicate.simps upt_Suc)
  have slots: "triple_slot j s" if "j < n_mults ci" for j
    using that by (simp add: triple_slot_def f new_storage_def Let_def fw_ok_def fw_new_def)
  have pos: "pre_pos s = length (d_pre (deal_init rD) p) mod length data"
    using assms(8) by (simp add: deal_init_def)
  show ?thesis
    using assms(2-7) legs slots pos f(1-3)
    by (simp add: S_rel_def triples_rel_def message_rel_def stream_rel_def)
qed

section \<open>The offline phase\<close>

text \<open>The circuits the phase is run on.\<close>

definition dealable :: "circuit \<Rightarrow> gate list \<Rightarrow> bool" where
  "dealable ci gs \<longleftrightarrow> shuffles_first [] gs \<and> list_all (shuffles_within (shuffle_idx ci)) gs \<and>
     distinct (map mult_idx (triple_gates gs)) \<and> list_all (\<lambda>f. mult_idx f < n_mults ci) (triple_gates gs)"

definition conf_of :: "party \<Rightarrow> protocol_config \<Rightarrow> protocol_config" where
  "conf_of p conf = conf\<lparr>conf_id := p\<rparr>"

text \<open>The three storages before the phase; each server chooses where it keeps its values.\<close>

definition start_storages ::
  "(party \<Rightarrow> protocol_config) \<Rightarrow> circuit \<Rightarrow> 'g rngs \<times> 'g rngs \<times> 'g rngs \<Rightarrow> 'g storage \<times> 'g storage \<times> 'g storage"
  where
  "start_storages conf ci rs =
     (case rs of (rD, r0, r1) \<Rightarrow>
        (new_storage (conf D) ci rD, new_storage (conf P0) ci r0, new_storage (conf P1) ci r1))"

definition same_confs :: "(party \<Rightarrow> protocol_config) \<Rightarrow> nat \<Rightarrow> bool" where
  "same_confs conf n \<longleftrightarrow> (\<forall>p. conf_id (conf p) = p \<and> conf_size (conf p) = n)"

lemma new_storage_rngs [simp]:
  "random_generators (new_storage conf ci r) = r" "(new_storage conf ci r)\<lparr>random_generators := r'\<rparr> = new_storage conf ci r'"
  by (simp_all add: new_storage_def Let_def)

definition triple_indices :: "gate list \<Rightarrow> nat set" where
  "triple_indices gs = mult_idx ` set (triple_gates gs)"

text \<open>The message for one server in the specification.\<close>

definition d_message :: "'g dealer \<Rightarrow> party \<Rightarrow> vec" where
  "d_message \<delta> p = d_pre \<delta> p @ d_corr \<delta> p"

lemma run_offline_rel:
  assumes "same_confs conf n" "0 < n" "n < 2 ^ 31" "0 < b" "dealable ci (concat layers)"
    "fresh_flags rD" "fresh_flags r0" "fresh_flags r1"
  shows "\<exists>rD' g sD s0 s1 recv. run_offline P b layers P0 (start_storages conf ci (rD, r0, r1)) =
       Inr ((sD, s0, s1), recv, [], []) \<and>
     (let \<delta> = deal P n (concat layers) (deal_init rD');
          S = \<lambda>p. S_rel p n (shuffle_idx ci + 1) (n_mults ci) (d_send (deal_init rD') p, d_recv (deal_init rD') p, g)
            (d_message \<delta> p) (triple_indices (concat layers))
      in S P0 s0 \<delta> \<and> S P1 s1 \<delta>)"
proof -
  let ?gs = "concat layers" and ?K = "shuffle_idx ci + 1" and ?M = "n_mults ci"
  have cf: "conf_id (conf p) = p" "conf_size (conf p) = n" for p using assms(1) by (simp_all add: same_confs_def)
  have ok: "shuffles_first [] ?gs" "list_all (slots_ok ?K) ?gs" "distinct (map mult_idx (triple_gates ?gs))"
    "\<And>f. f \<in> set (triple_gates ?gs) \<Longrightarrow> mult_idx f < ?M \<and> mult_idx f \<notin> {}"
    using assms(5) by (auto simp: dealable_def slots_ok_within list_all_iff)
  obtain rD' r0' r1' where rs: "setup_rngs P rD r0 r1 = Inr (rD', r0', r1')"
    "synced0 rD' r0'" "synced1 rD' r1'" "rng_01 r0' = rng_01 r1'" "i_am_D rD'" "i_am_P0 r0'" "i_am_P1 r1'"
    using setup_rngs_ok[OF assms(6-8), of P] by blast
  define \<delta>0 where "\<delta>0 = deal_init rD'"
  define \<delta> where "\<delta> = deal P n ?gs \<delta>0"
  have i0: "legs_inv n \<delta>0" "d_to \<delta>0 = P0" by (simp_all add: \<delta>0_def legs_inv_init) (simp add: deal_init_def)
  have "D_rel n ?K (new_storage (conf D) ci rD') \<delta>0"
    using D_rel_init[of "conf D" rD' ci] cf rs(5) unfolding \<delta>0_def by simp
  from D_gates[OF this i0(1) _ ok(1,2) assms(2,3), of P] obtain sD where
    sD: "preprocess P layers (new_storage (conf D) ci rD', P0) = Inr (sD, d_to \<delta>)" "D_rel n ?K sD \<delta>"
    by (auto simp: i0(2) \<delta>_def preprocess_concat)
  have out: "out_ok sD" "out_pre p sD @ out_B p sD = d_message \<delta> p" if "p \<noteq> D" for p
    using sD(2) that by (simp_all add: D_rel_def d_message_def)
  obtain sD1 where sD1: "dealer_send b P0 sD = Inr ((length (d_message \<delta> P0), d_message \<delta> P0), sD1)" "out_ok sD1"
     "out_pre P1 sD1 @ out_B P1 sD1 = d_message \<delta> P1"
    using dealer_send_out[OF out(1)[of P0] _ assms(4), of P0] out(2) by auto
  obtain sD2 where sD2: "dealer_send b P1 sD1 = Inr ((length (d_message \<delta> P1), d_message \<delta> P1), sD2)"
    using dealer_send_out[OF sD1(2) _ assms(4), of P1] sD1(3) by auto
  have server: "\<exists>s' s. server_receive b (length (d_message \<delta> p), d_message \<delta> p) (new_storage (conf p) ci r') = Inr (s, []) \<and>
      preprocess P layers (s, P0) = Inr (s', d_to \<delta>) \<and>
      S_rel p n ?K ?M (d_send \<delta>0 p, d_recv \<delta>0 p, rng_01 r') (d_message \<delta> p) (triple_indices ?gs) s' \<delta>"
    if p: "p \<noteq> D" "online_role r'" "rng_with_D_prep r' = d_prep \<delta>0 p" "rng_with_D_send r' = d_send \<delta>0 p"
      "rng_with_D_recv r' = d_recv \<delta>0 p" for p r'
  proof -
    obtain s where s: "server_receive b (length (d_message \<delta> p), d_message \<delta> p) (new_storage (conf p) ci r') = Inr (s, [])"
      "pre_ok s" "pre_data s = d_message \<delta> p" "pre_pos s = 0"
      "s = (new_storage (conf p) ci r')\<lparr>preproc := preproc s, preproc_disk := preproc_disk s\<rparr>"
      using server_receive_ok[OF new_storage_pre[of "conf p" ci r'] assms(4)] cf p(1) by metis
    have "S_rel p (conf_size (conf p)) ?K ?M (d_send \<delta>0 p, d_recv \<delta>0 p, rng_01 r') (d_message \<delta> p) {} s (deal_init rD')"
    proof (rule S_rel_init)
      show "s = (new_storage (conf p) ci r')\<lparr>random_generators := r', preproc := preproc s,
          preproc_disk := preproc_disk s\<rparr>" using s(5) by simp
    qed (use cf p s in \<open>simp_all add: \<delta>0_def\<close>)
    then have S0: "S_rel p n ?K ?M (d_send \<delta>0 p, d_recv \<delta>0 p, rng_01 r') (d_message \<delta> p) {} s \<delta>0"
      by (simp add: cf \<delta>0_def)
    have "d_message \<delta> p = d_pre (deal P n ?gs \<delta>0) p @ d_corr \<delta> p" by (simp add: d_message_def \<delta>_def)
    from S_gates[OF S0 i0(1) _ ok(1,2) assms(2,3) this ok(3,4)] obtain s' where
      "foldr_res (preprocess_gate P) (s, d_to \<delta>0) ?gs = Inr (s', d_to (deal P n ?gs \<delta>0))"
      "S_rel p n ?K ?M (d_send \<delta>0 p, d_recv \<delta>0 p, rng_01 r') (d_message \<delta> p) ({} \<union> mult_idx ` set (triple_gates ?gs)) s' (deal P n ?gs \<delta>0)"
      by auto
    then show ?thesis using s(1) by (auto simp: preprocess_concat i0(2) \<delta>_def triple_indices_def)
  qed
  have str0: "online_role r0'" "rng_with_D_prep r0' = d_prep \<delta>0 P0" "rng_with_D_send r0' = d_send \<delta>0 P0"
      "rng_with_D_recv r0' = d_recv \<delta>0 P0"
    using rs(2,6) by (simp_all add: online_role_def synced0_def \<delta>0_def deal_init_def)
  have str1: "online_role r1'" "rng_with_D_prep r1' = d_prep \<delta>0 P1" "rng_with_D_send r1' = d_send \<delta>0 P1"
      "rng_with_D_recv r1' = d_recv \<delta>0 P1"
    using rs(3,4,7) by (simp_all add: online_role_def synced1_def \<delta>0_def deal_init_def)
  obtain t0 s0 where 0: "server_receive b (length (d_message \<delta> P0), d_message \<delta> P0) (new_storage (conf P0) ci r0') = Inr (t0, [])"
      "preprocess P layers (t0, P0) = Inr (s0, d_to \<delta>)"
      "S_rel P0 n ?K ?M (d_send \<delta>0 P0, d_recv \<delta>0 P0, rng_01 r0') (d_message \<delta> P0) (triple_indices ?gs) s0 \<delta>"
    using server[of P0 r0', OF _ str0] by blast
  obtain t1 s1 where 1: "server_receive b (length (d_message \<delta> P1), d_message \<delta> P1) (new_storage (conf P1) ci r1') = Inr (t1, [])"
      "preprocess P layers (t1, P0) = Inr (s1, d_to \<delta>)"
      "S_rel P1 n ?K ?M (d_send \<delta>0 P1, d_recv \<delta>0 P1, rng_01 r1') (d_message \<delta> P1) (triple_indices ?gs) s1 \<delta>"
    using server[of P1 r1', OF _ str1] by blast
  have "run_offline P b layers P0 (start_storages conf ci (rD, r0, r1)) = Inr ((sD2, s0, s1), d_to \<delta>, [], [])"
    using rs(1) sD(1) sD1(1) sD2 0(1,2) 1(1,2) by (simp add: run_offline_def start_storages_def)
  then show ?thesis using 0(3) 1(3) unfolding Let_def \<delta>_def \<delta>0_def rs(4)[symmetric] by blast
qed

section \<open>Triples of the two servers\<close>

text \<open>Two triples of width \<open>m\<close> that combine to factors and their product, entry by entry.\<close>

definition triple_ok :: "nat \<Rightarrow> bool \<Rightarrow> vec \<times> vec \<times> vec \<Rightarrow> vec \<times> vec \<times> vec \<Rightarrow> bool" where
  "triple_ok m b t0 t1 \<longleftrightarrow>
     (case t0 of (a0, b0, c0) \<Rightarrow> case t1 of (a1, b1, c1) \<Rightarrow>
        list_all (\<lambda>v. length v = m) [a0, b0, c0, a1, b1, c1] \<and>
        (\<forall>i < m. combine b (c0 ! i) (c1 ! i) =
           times b (combine b (a0 ! i) (a1 ! i)) (combine b (b0 ! i) (b1 ! i))))"

lemma join_nth: "i < length u \<Longrightarrow> i < length v \<Longrightarrow> join b u v ! i = combine b (u ! i) (v ! i)"
  by (simp add: join_def combine_def)

lemma vmul_nth: "i < length u \<Longrightarrow> i < length v \<Longrightarrow> vmul b u v ! i = times b (u ! i) (v ! i)"
  by (simp add: vmul_def times_def)

lemma shared_product:
  fixes u0 u1 v0 v1 r :: vec
  assumes "length u0 = m" "length u1 = m" "length v0 = m" "length v1 = m" "length r = m"
    "c = vmul b (join b u0 u1) (join b v0 v1)" "t = (if b then vxor c r else vsub c r)"
  shows "triple_ok m b (u0, v0, t) (u1, v1, r)" "triple_ok m b (u0, v0, r) (u1, v1, t)"
proof -
  have l: "length c = m" "length t = m" using assms by (auto simp: vmul_def join_def)
  have p: "c ! i = times b (combine b (u0 ! i) (u1 ! i)) (combine b (v0 ! i) (v1 ! i))" if "i < m" for i
  proof -
    have "length (join b u0 u1) = m" "length (join b v0 v1) = m" using assms by (simp_all add: join_def)
    then show ?thesis using that assms(1-4) by (simp add: assms(6) vmul_nth join_nth)
  qed
  have s: "combine b (t ! i) (r ! i) = c ! i" "combine b (r ! i) (t ! i) = c ! i" if "i < m" for i
    using that l assms(5) by (simp_all add: assms(7) combine_def xor.assoc xor.left_commute)
  show "triple_ok m b (u0, v0, t) (u1, v1, r)" "triple_ok m b (u0, v0, r) (u1, v1, t)"
    using assms(1-5) l s p by (simp_all add: triple_ok_def)
qed

lemma deal_triple_ok:
  "triple_ok (triple_width n f) (g_binary f) (d_triple (deal_triple P n f \<delta>) P0 (mult_idx f))
     (d_triple (deal_triple P n f \<delta>) P1 (mult_idx f))"
proof (cases "d_to \<delta> = P0")
  case True
  then show ?thesis
    by (simp add: deal_triple_def Let_def split_beta other_recv_def shared_product(1))
next
  case False
  then show ?thesis
    by (simp add: deal_triple_def Let_def split_beta other_recv_def shared_product(2))
qed

lemma deal_gate_triple_other:
  assumes "\<not> (triple_type (gt f) \<and> mult_idx f = j)"
  shows "d_triple (deal_gate P n f \<delta>) p j = d_triple \<delta> p j"
proof -
  have "d_triple (deal_shuffle P n f \<delta>) = d_triple \<delta>" "d_triple (deal_merged P n f \<delta>) = d_triple \<delta>"
    "d_triple (deal_unshuffle P n f \<delta>) = d_triple \<delta>"
    by (simp_all add: deal_shuffle_def deal_merged_def deal_unshuffle_def deal_masks_def deal_corrections_def
        choose_legs_def choose_merged_def Let_def split_beta)
  moreover have "d_triple (deal_triple P n f \<delta>) p j = d_triple \<delta> p j" if "mult_idx f \<noteq> j"
    using that by (simp add: deal_triple_def Let_def split_beta)
  ultimately show ?thesis
    using assms by (cases "gt f") (auto simp: deal_gate_def triple_type_def)
qed

lemma deal_triples_ok:
  assumes "distinct (map mult_idx (triple_gates gs))" "f \<in> set (triple_gates gs)"
  shows "triple_ok (triple_width n f) (g_binary f) (d_triple (deal P n gs \<delta>) P0 (mult_idx f))
     (d_triple (deal P n gs \<delta>) P1 (mult_idx f))"
  using assms
proof (induction gs rule: rev_induct)
  case (snoc g gs)
  have tg: "triple_gates (gs @ [g]) = triple_gates gs @ (if triple_type (gt g) then [g] else [])"
    by (rule triple_gates_snoc)
  show ?case
  proof (cases "triple_type (gt g) \<and> mult_idx g = mult_idx f")
    case True
    then have "f = g" using snoc.prems tg by auto
    then show ?thesis using True by (simp add: deal_snoc deal_gate_triple deal_triple_ok)
  next
    case False
    then have "f \<in> set (triple_gates gs)" using snoc.prems tg by (auto split: if_splits)
    then show ?thesis
      using snoc.IH snoc.prems(1) tg
      by (simp add: deal_snoc deal_gate_triple_other[OF False] split: if_splits)
  qed
qed (simp add: triple_gates_def)

text \<open>Loading a triple after the phase.\<close>

lemma S_rel_load:
  assumes "S_rel p n K M gh data done s \<delta>" "j < M" "j \<in> done" "d_triple \<delta> p j = (a, b, c)"
    "length a = m" "length b = m" "length c = m"
  shows "load_triples_sized j m s = Inr ((a, b, c), s)"
proof -
  have "triple_at j a b c s" using assms(1-4) by (force simp: S_rel_def triples_rel_def)
  then show ?thesis by (rule load_triple_at) (rule assms(5-7))+
qed

section \<open>Properties\<close>

text \<open>C13: The offline phase of the three servers, whichever of them keep their values on disk and for any
  block size: no step fails, every message is received completely, and afterwards the triples the
  two online servers load for a multiplication combine to two factors and their product.\<close>

theorem offline_hands_out_triples:
  assumes "same_confs conf n" "0 < n" "n < 2 ^ 31" "0 < b" "dealable ci (concat layers)"
    "fresh_flags rD" "fresh_flags r0" "fresh_flags r1"
  shows "\<exists>sD s0 s1 recv. run_offline P b layers P0 (start_storages conf ci (rD, r0, r1)) =
       Inr ((sD, s0, s1), recv, [], []) \<and>
     (\<forall>f \<in> set (triple_gates (concat layers)). \<exists>t0 t1.
        load_triples_sized (mult_idx f) (triple_width n f) s0 = Inr (t0, s0) \<and>
        load_triples_sized (mult_idx f) (triple_width n f) s1 = Inr (t1, s1) \<and>
        triple_ok (triple_width n f) (g_binary f) t0 t1)"
proof -
  let ?gs = "concat layers"
  obtain rD' g sD s0 s1 recv where r: "run_offline P b layers P0 (start_storages conf ci (rD, r0, r1)) =
       Inr ((sD, s0, s1), recv, [], [])" and S: "(let \<delta> = deal P n ?gs (deal_init rD');
          S = \<lambda>p. S_rel p n (shuffle_idx ci + 1) (n_mults ci) (d_send (deal_init rD') p, d_recv (deal_init rD') p, g)
            (d_message \<delta> p) (triple_indices ?gs)
      in S P0 s0 \<delta> \<and> S P1 s1 \<delta>)"
    using run_offline_rel[OF assms, of P] by blast
  define \<delta> where "\<delta> = deal P n ?gs (deal_init rD')"
  have "\<exists>t0 t1. load_triples_sized (mult_idx f) (triple_width n f) s0 = Inr (t0, s0) \<and>
        load_triples_sized (mult_idx f) (triple_width n f) s1 = Inr (t1, s1) \<and>
        triple_ok (triple_width n f) (g_binary f) t0 t1" if f: "f \<in> set (triple_gates ?gs)" for f
  proof -
    obtain a0 b0 c0 a1 b1 c1 where t: "d_triple \<delta> P0 (mult_idx f) = (a0, b0, c0)"
      "d_triple \<delta> P1 (mult_idx f) = (a1, b1, c1)" by (metis prod_cases3)
    have j: "mult_idx f < n_mults ci" "mult_idx f \<in> triple_indices ?gs" "distinct (map mult_idx (triple_gates ?gs))"
      using assms(5) f by (auto simp: dealable_def list_all_iff triple_indices_def)
    have ok: "triple_ok (triple_width n f) (g_binary f) (a0, b0, c0) (a1, b1, c1)"
      using deal_triples_ok[OF j(3) f, of n P "deal_init rD'"] t by (simp add: \<delta>_def)
    then show ?thesis
      using S_rel_load[OF _ j(1,2) t(1), of _ _ _ _ s0 "triple_width n f"]
        S_rel_load[OF _ j(1,2) t(2), of _ _ _ _ s1 "triple_width n f"] S
      unfolding Let_def \<delta>_def[symmetric] by (simp add: triple_ok_def) blast
  qed
  then show ?thesis using r by blast
qed

definition tiny_layers :: "gate list list" where
  "tiny_layers = (let raw = Gate_in Input 0 0 in
     [[Gate_in Input 0 0], [Gate3 raw Shuffle 1 0 1 0, Gate_mul raw MulSIMD 2 0 0 2 2 0 False],
      [Gate3 raw Unshuffle 3 1 3 0]])"

definition tiny_confs :: "party \<Rightarrow> protocol_config" where
  "tiny_confs p = tiny_conf p (p = P1)"

lemma tiny_dealable:
  "same_confs tiny_confs (conf_size (tiny_conf P0 False))" "dealable ((tiny_circuit 1)\<lparr>n_mults := 1\<rparr>) (concat tiny_layers)"
  by (simp_all add: same_confs_def tiny_confs_def tiny_conf_def dealable_def tiny_layers_def Let_def
      shuffles_within_def shuffle_type_def triple_gates_def triple_type_def Gate_in_def Gate3_def Gate_mul_def gate0_def)

lemma offline_hands_out_triples_witness:
  "\<exists>sD s0 s1 recv t0 t1.
     run_offline lcg_ops 2 tiny_layers P0 (start_storages tiny_confs ((tiny_circuit 1)\<lparr>n_mults := 1\<rparr>)
       (lcg_rngs 1, lcg_rngs 2, lcg_rngs 3)) = Inr ((sD, s0, s1), recv, [], []) \<and>
     load_triples_sized 0 2 s0 = Inr (t0, s0) \<and> load_triples_sized 0 2 s1 = Inr (t1, s1) \<and> triple_ok 2 False t0 t1"
proof -
  have f: "fresh_flags (lcg_rngs x)" for x by (simp add: fresh_flags_def lcg_rngs_def)
  have s: "0 < conf_size (tiny_conf P0 False)" "conf_size (tiny_conf P0 False) < 2 ^ 31" "(0 :: nat) < 2"
    by (simp_all add: tiny_conf_def)
  define g where "g = Gate_mul (Gate_in Input 0 0) MulSIMD 2 0 0 2 2 0 False"
  have g: "g \<in> set (triple_gates (concat tiny_layers))" "mult_idx g = 0" "triple_width n g = 2" "\<not> g_binary g" for n
    by (simp_all add: tiny_layers_def triple_gates_def triple_type_def Gate_in_def Gate3_def Gate_mul_def gate0_def
        g_def Let_def triple_width_def)
  from offline_hands_out_triples[OF tiny_dealable(1) s(1,2,3) tiny_dealable(2) f f f, of lcg_ops 1 2 3] g show ?thesis
    by fastforce
qed

end
