(* ===== verification/Trace.thy ===== *)
theory Trace
  imports Offline
begin

text \<open>
  What the online phase will find: the streams, legs, masks and corrections of the abstract dealer
  as seen from one gate of the walk, and that later gates do not change them.
\<close>

section \<open>One step\<close>

text \<open>The moves draw a mask and have a correction; shuffles and merged shuffles may choose legs.\<close>

definition picks :: "gate \<Rightarrow> bool" where
  "picks f \<longleftrightarrow> gt f = Shuffle \<or> gt f = MergedShuffle"

lemma uses_picks: "uses f i \<longleftrightarrow> picks f \<and> g_shuffle_idx f = i"
  by (auto simp: uses_def picks_def)

lemma move_picks: "move_type (gt f) \<longleftrightarrow> picks f \<or> gt f = Unshuffle"
  by (auto simp: move_type_def picks_def)

text \<open>The dealer's state of a move after the masks and after the legs.\<close>

definition after_legs :: "'g prg_ops \<Rightarrow> nat \<Rightarrow> gate \<Rightarrow> 'g dealer \<Rightarrow> 'g dealer" where
  "after_legs P n f \<delta> =
     (let \<delta>1 = deal_masks P n (out_idx f) \<delta>
      in if \<not> picks f \<or> chosen \<delta>1 (g_shuffle_idx f) then \<delta>1
         else if gt f = Shuffle then choose_legs P n (g_shuffle_idx f) \<delta>1 else choose_merged P n f \<delta>1)"

lemma deal_move:
  assumes "move_type (gt f)"
  shows "\<exists>q. deal_gate P n f \<delta> =
     (deal_corrections P (gt f = Unshuffle) (g_shuffle_idx f) (out_idx f) (after_legs P n f \<delta>))\<lparr>d_to := q\<rparr>"
proof -
  have e: "x = x\<lparr>d_to := q\<rparr>" if "d_to x = q" for x :: "'a dealer" and q using that by simp
  consider (sh) "gt f = Shuffle" | (ot) "gt f = MergedShuffle \<or> gt f = Unshuffle"
    using assms by (auto simp: move_type_def)
  then show ?thesis
  proof cases
    case sh
    then have "deal_gate P n f \<delta> = (deal_corrections P (gt f = Unshuffle) (g_shuffle_idx f) (out_idx f)
        (after_legs P n f \<delta>))\<lparr>d_to := other_recv (d_to (after_legs P n f \<delta>))\<rparr>"
      by (simp add: deal_gate_def deal_shuffle_def after_legs_def picks_def Let_def)
    then show ?thesis by blast
  next
    case ot
    then have "deal_gate P n f \<delta> = deal_corrections P (gt f = Unshuffle) (g_shuffle_idx f) (out_idx f)
        (after_legs P n f \<delta>)"
      by (auto simp: deal_gate_def deal_merged_def deal_unshuffle_def after_legs_def picks_def Let_def)
    then show ?thesis using e by metis
  qed
qed

lemma deal_no_move:
  assumes "\<not> move_type (gt f)"
  shows "d_send (deal_gate P n f \<delta>) = d_send \<delta>" "d_recv (deal_gate P n f \<delta>) = d_recv \<delta>"
    "d_corr (deal_gate P n f \<delta>) = d_corr \<delta>" "d_mask (deal_gate P n f \<delta>) = d_mask \<delta>"
    "d_B (deal_gate P n f \<delta>) = d_B \<delta>"
proof -
  have "deal_gate P n f \<delta> = \<delta> \<or> deal_gate P n f \<delta> = deal_triple P n f \<delta>"
    using assms by (cases "gt f") (auto simp: deal_gate_def move_type_def)
  then show "d_send (deal_gate P n f \<delta>) = d_send \<delta>" "d_recv (deal_gate P n f \<delta>) = d_recv \<delta>"
    "d_corr (deal_gate P n f \<delta>) = d_corr \<delta>" "d_mask (deal_gate P n f \<delta>) = d_mask \<delta>"
    "d_B (deal_gate P n f \<delta>) = d_B \<delta>"
    by (auto simp: deal_triple_def Let_def split_beta)
qed

lemma corrections_fields [simp]:
  "d_send (deal_corrections P b i w \<delta>) = d_send \<delta>" "d_recv (deal_corrections P b i w \<delta>) = d_recv \<delta>"
  "d_mask (deal_corrections P b i w \<delta>) = d_mask \<delta>" "d_snd (deal_corrections P b i w \<delta>) = d_snd \<delta>"
  "d_rcv (deal_corrections P b i w \<delta>) = d_rcv \<delta>" "d_snd_given (deal_corrections P b i w \<delta>) = d_snd_given \<delta>"
  "d_rcv_given (deal_corrections P b i w \<delta>) = d_rcv_given \<delta>"
  by (simp_all add: deal_corrections_def Let_def split_beta)

lemma masks_fields [simp]:
  "d_recv (deal_masks P n w \<delta>) = d_recv \<delta>" "d_corr (deal_masks P n w \<delta>) = d_corr \<delta>"
  "d_B (deal_masks P n w \<delta>) = d_B \<delta>" "d_snd (deal_masks P n w \<delta>) = d_snd \<delta>"
  "d_rcv (deal_masks P n w \<delta>) = d_rcv \<delta>" "d_snd_given (deal_masks P n w \<delta>) = d_snd_given \<delta>"
  "d_rcv_given (deal_masks P n w \<delta>) = d_rcv_given \<delta>"
  by (simp_all add: deal_masks_def Let_def split_beta)

lemma masks_of:
  assumes "p \<noteq> D"
  shows "d_mask (deal_masks P n w \<delta>) p v = (if v = w then fst (draw_vec P n (d_send \<delta> p)) else d_mask \<delta> p v)"
    "d_send (deal_masks P n w \<delta>) p = snd (draw_vec P n (d_send \<delta> p))"
  using assms by (cases p; simp add: deal_masks_def Let_def split_beta)+

lemma choose_corr [simp]:
  "d_corr (choose_legs P n i \<delta>) = d_corr \<delta>" "d_corr (choose_merged P n f \<delta>) = d_corr \<delta>"
  "d_B (choose_legs P n i \<delta>) = d_B \<delta>" "d_B (choose_merged P n f \<delta>) = d_B \<delta>"
  by (simp_all add: choose_legs_def choose_merged_def Let_def split_beta)

text \<open>Which streams a choice draws from: the leg that is not handed out is sampled.\<close>

lemma choose_legs_streams:
  assumes "legs_inv n \<delta>" "\<not> chosen \<delta> i" "p \<noteq> D"
  shows "if d_snd_given (choose_legs P n i \<delta>) p i then d_send (choose_legs P n i \<delta>) p = d_send \<delta> p
         else random_loop P n (d_send \<delta> p) = (d_snd (choose_legs P n i \<delta>) p i, d_send (choose_legs P n i \<delta>) p)"
    "if d_rcv_given (choose_legs P n i \<delta>) p i then d_recv (choose_legs P n i \<delta>) p = d_recv \<delta> p
         else random_loop P n (d_recv \<delta> p) = (d_rcv (choose_legs P n i \<delta>) p i, d_recv (choose_legs P n i \<delta>) p)"
proof -
  have ng: "\<not> d_snd_given \<delta> p i" "\<not> d_rcv_given \<delta> p i" "d_to \<delta> \<noteq> D"
    using assms(1,2) unfolding legs_inv_def by presburger+
  then have to: "d_to \<delta> = P0 \<or> d_to \<delta> = P1" by (cases "d_to \<delta>") auto
  have p: "p = P0 \<or> p = P1" using assms(3) by (cases p) auto
  show "if d_snd_given (choose_legs P n i \<delta>) p i then d_send (choose_legs P n i \<delta>) p = d_send \<delta> p
         else random_loop P n (d_send \<delta> p) = (d_snd (choose_legs P n i \<delta>) p i, d_send (choose_legs P n i \<delta>) p)"
    "if d_rcv_given (choose_legs P n i \<delta>) p i then d_recv (choose_legs P n i \<delta>) p = d_recv \<delta> p
         else random_loop P n (d_recv \<delta> p) = (d_rcv (choose_legs P n i \<delta>) p i, d_recv (choose_legs P n i \<delta>) p)"
    using ng to p by (auto simp: choose_legs_def Let_def split_beta)
qed

lemma choose_merged_streams:
  assumes "legs_inv n \<delta>" "\<not> chosen \<delta> (g_shuffle_idx f)" "p \<noteq> D"
  shows "d_snd_given (choose_merged P n f \<delta>) p (g_shuffle_idx f) \<and> d_send (choose_merged P n f \<delta>) p = d_send \<delta> p"
    "\<not> d_rcv_given (choose_merged P n f \<delta>) p (g_shuffle_idx f) \<and>
     random_loop P n (d_recv \<delta> p) = (d_rcv (choose_merged P n f \<delta>) p (g_shuffle_idx f), d_recv (choose_merged P n f \<delta>) p)"
proof -
  have ng: "\<not> d_rcv_given \<delta> p (g_shuffle_idx f)"
    using assms(1,2) unfolding legs_inv_def by presburger
  have p: "p = P0 \<or> p = P1" using assms(3) by (cases p) auto
  show "d_snd_given (choose_merged P n f \<delta>) p (g_shuffle_idx f) \<and> d_send (choose_merged P n f \<delta>) p = d_send \<delta> p"
    "\<not> d_rcv_given (choose_merged P n f \<delta>) p (g_shuffle_idx f) \<and>
     random_loop P n (d_recv \<delta> p) = (d_rcv (choose_merged P n f \<delta>) p (g_shuffle_idx f), d_recv (choose_merged P n f \<delta>) p)"
    using ng p by (auto simp: choose_merged_def Let_def split_beta)
qed

text \<open>The streams of the server \<open>p\<close> across a move.\<close>

definition send_step :: "'g prg_ops \<Rightarrow> nat \<Rightarrow> gate \<Rightarrow> party \<Rightarrow> 'g dealer \<Rightarrow> 'g dealer \<Rightarrow> bool" where
  "send_step P n f p \<delta> \<delta>' \<longleftrightarrow>
     (let (R, g) = draw_vec P n (d_send \<delta> p)
      in d_mask \<delta>' p (out_idx f) = R \<and>
         (if \<not> picks f \<or> chosen \<delta> (g_shuffle_idx f) \<or> d_snd_given \<delta>' p (g_shuffle_idx f) then d_send \<delta>' p = g
          else random_loop P n g = (d_snd \<delta>' p (g_shuffle_idx f), d_send \<delta>' p)))"

definition recv_step :: "'g prg_ops \<Rightarrow> nat \<Rightarrow> gate \<Rightarrow> party \<Rightarrow> 'g dealer \<Rightarrow> 'g dealer \<Rightarrow> bool" where
  "recv_step P n f p \<delta> \<delta>' \<longleftrightarrow>
     d_corr \<delta>' p = d_corr \<delta> p @ d_B \<delta>' p (out_idx f) \<and> length (d_B \<delta>' p (out_idx f)) = n \<and>
     (if \<not> picks f \<or> chosen \<delta> (g_shuffle_idx f) \<or> d_rcv_given \<delta>' p (g_shuffle_idx f) then d_recv \<delta>' p = d_recv \<delta> p
      else random_loop P n (d_recv \<delta> p) = (d_rcv \<delta>' p (g_shuffle_idx f), d_recv \<delta>' p))"

lemma after_legs_fields:
  "d_mask (after_legs P n f \<delta>) = d_mask (deal_masks P n (out_idx f) \<delta>)" "d_corr (after_legs P n f \<delta>) = d_corr \<delta>"
  "d_B (after_legs P n f \<delta>) = d_B \<delta>"
  by (simp_all add: after_legs_def Let_def)

lemma length_corrections:
  "length R_0 = n \<Longrightarrow> length R_1 = n \<Longrightarrow>
     length (fst (corrections s R R_0 R_1)) = n \<and> length (snd (corrections s R R_0 R_1)) = n"
  by (simp add: corrections_def)

lemma move_steps:
  assumes "legs_inv n \<delta>" "move_type (gt f)" "p \<noteq> D"
  shows "send_step P n f p \<delta> (deal_gate P n f \<delta>)" "recv_step P n f p \<delta> (deal_gate P n f \<delta>)"
proof -
  let ?\<delta>1 = "deal_masks P n (out_idx f) \<delta>" and ?\<delta>2 = "after_legs P n f \<delta>" and ?i = "g_shuffle_idx f"
  obtain q where q: "deal_gate P n f \<delta> =
     (deal_corrections P (gt f = Unshuffle) ?i (out_idx f) ?\<delta>2)\<lparr>d_to := q\<rparr>"
    using deal_move[OF assms(2)] by blast
  have i1: "legs_inv n ?\<delta>1" by (rule masks_legs_inv[OF assms(1)])
  have p: "p = P0 \<or> p = P1" using assms(3) by (cases p) auto
  have sr: "(if \<not> picks f \<or> chosen \<delta> ?i \<or> d_snd_given ?\<delta>2 p ?i then d_send ?\<delta>2 p = d_send ?\<delta>1 p
      else random_loop P n (d_send ?\<delta>1 p) = (d_snd ?\<delta>2 p ?i, d_send ?\<delta>2 p)) \<and>
     (if \<not> picks f \<or> chosen \<delta> ?i \<or> d_rcv_given ?\<delta>2 p ?i then d_recv ?\<delta>2 p = d_recv \<delta> p
      else random_loop P n (d_recv \<delta> p) = (d_rcv ?\<delta>2 p ?i, d_recv ?\<delta>2 p))"
  proof (cases "\<not> picks f \<or> chosen \<delta> ?i")
    case True
    then have "?\<delta>2 = ?\<delta>1" by (auto simp: after_legs_def Let_def)
    then show ?thesis using True by simp
  next
    case False
    then have nc: "\<not> chosen ?\<delta>1 ?i" by simp
    show ?thesis
    proof (cases "gt f = Shuffle")
      case True
      then have "?\<delta>2 = choose_legs P n ?i ?\<delta>1" using False by (simp add: after_legs_def Let_def)
      then show ?thesis using False choose_legs_streams[OF i1 nc assms(3), of P] by (simp cong: if_cong)
    next
      case sh: False
      then have "?\<delta>2 = choose_merged P n f ?\<delta>1" using False by (simp add: after_legs_def Let_def)
      then show ?thesis using False choose_merged_streams[OF i1 nc assms(3), of P] by (simp cong: if_cong)
    qed
  qed
  note s = conjunct1[OF sr] and r = conjunct2[OF sr]
  have m: "d_mask ?\<delta>2 p (out_idx f) = fst (draw_vec P n (d_send \<delta> p))" "d_send ?\<delta>1 p = snd (draw_vec P n (d_send \<delta> p))"
    using masks_of[OF assms(3), of P n "out_idx f" \<delta>] by (simp_all add: after_legs_fields)
  show "send_step P n f p \<delta> (deal_gate P n f \<delta>)"
    using s m unfolding send_step_def q by (simp add: split_beta Let_def cong: if_cong)
  have "length (d_mask ?\<delta>2 P0 (out_idx f)) = n" "length (d_mask ?\<delta>2 P1 (out_idx f)) = n"
    by (simp_all add: after_legs_fields)
  then have "d_corr (deal_gate P n f \<delta>) p = d_corr \<delta> p @ d_B (deal_gate P n f \<delta>) p (out_idx f)"
    "length (d_B (deal_gate P n f \<delta>) p (out_idx f)) = n"
    using p length_corrections[of "d_mask ?\<delta>2 P0 (out_idx f)" n "d_mask ?\<delta>2 P1 (out_idx f)"] unfolding q
    by (auto simp: deal_corrections_def Let_def split_beta after_legs_fields)
  then show "recv_step P n f p \<delta> (deal_gate P n f \<delta>)"
    using r unfolding recv_step_def by (simp add: q)
qed

text \<open>The corrections of a move belong to its permutation.\<close>

definition corrected :: "gate \<Rightarrow> 'g dealer \<Rightarrow> bool" where
  "corrected f \<delta> \<longleftrightarrow>
     (\<exists>R. corrections (if gt f = Unshuffle then perm_inverse (d_perm \<delta> (g_shuffle_idx f)) else d_perm \<delta> (g_shuffle_idx f))
            R (d_mask \<delta> P0 (out_idx f)) (d_mask \<delta> P1 (out_idx f)) =
          (d_B \<delta> P0 (out_idx f), d_B \<delta> P1 (out_idx f)))"

lemma move_corrected:
  assumes "move_type (gt f)"
  shows "corrected f (deal_gate P n f \<delta>)"
proof -
  obtain q where q: "deal_gate P n f \<delta> =
     (deal_corrections P (gt f = Unshuffle) (g_shuffle_idx f) (out_idx f) (after_legs P n f \<delta>))\<lparr>d_to := q\<rparr>"
    using deal_move[OF assms] by blast
  show ?thesis
    unfolding corrected_def q
    by (rule exI[where x = "fst (draw_ring P (d_self (after_legs P n f \<delta>)))"])
      (simp add: deal_corrections_def d_perm_def Let_def split_beta)
qed

section \<open>Later gates\<close>

lemma deal_gate_other_wire:
  assumes "out_idx f \<noteq> w" "p \<noteq> D"
  shows "d_mask (deal_gate P n f \<delta>) p w = d_mask \<delta> p w" "d_B (deal_gate P n f \<delta>) p w = d_B \<delta> p w"
proof -
  have "d_mask (deal_gate P n f \<delta>) p w = d_mask \<delta> p w \<and> d_B (deal_gate P n f \<delta>) p w = d_B \<delta> p w"
  proof (cases "move_type (gt f)")
    case True
    obtain q where q: "deal_gate P n f \<delta> =
       (deal_corrections P (gt f = Unshuffle) (g_shuffle_idx f) (out_idx f) (after_legs P n f \<delta>))\<lparr>d_to := q\<rparr>"
      using deal_move[OF True] by blast
    have "d_B (deal_corrections P b i (out_idx f) \<delta>') p w = d_B \<delta>' p w" for b i and \<delta>' :: "'a dealer"
      using assms by (simp add: deal_corrections_def Let_def split_beta)
    then show ?thesis
      using assms unfolding q by (simp add: after_legs_fields masks_of)
  qed (simp add: deal_no_move)
  then show "d_mask (deal_gate P n f \<delta>) p w = d_mask \<delta> p w" "d_B (deal_gate P n f \<delta>) p w = d_B \<delta> p w"
    by simp_all
qed

lemma deal_other_wire:
  assumes "w \<notin> out_idx ` set gs" "p \<noteq> D"
  shows "d_mask (deal P n gs \<delta>) p w = d_mask \<delta> p w" "d_B (deal P n gs \<delta>) p w = d_B \<delta> p w"
  using assms(1)
  by (induction gs arbitrary: \<delta>) (simp_all add: deal_Cons deal_gate_other_wire[OF _ assms(2)])

lemma deal_gate_corr: "\<exists>v. d_corr (deal_gate P n f \<delta>) p = d_corr \<delta> p @ v"
proof (cases "move_type (gt f)")
  case True
  obtain q where q: "deal_gate P n f \<delta> =
     (deal_corrections P (gt f = Unshuffle) (g_shuffle_idx f) (out_idx f) (after_legs P n f \<delta>))\<lparr>d_to := q\<rparr>"
    using deal_move[OF True] by blast
  show ?thesis unfolding q by (simp add: deal_corrections_def Let_def split_beta after_legs_fields)
qed (simp add: deal_no_move)

lemma deal_corr: "\<exists>v. d_corr (deal P n gs \<delta>) p = d_corr \<delta> p @ v"
proof (induction gs arbitrary: \<delta>)
  case (Cons f gs)
  then show ?case using deal_gate_corr[of P n f \<delta> p] unfolding deal_Cons by (metis append.assoc)
qed simp

text \<open>A walk in which every gate finds what it refers to.\<close>

lemma deal_inv:
  assumes "legs_inv n \<delta>" "\<And>i. i \<in> set seen \<Longrightarrow> chosen \<delta> i" "shuffles_first seen gs" "0 < n" "n < 2 ^ 31"
  shows "legs_inv n (deal P n gs \<delta>)"
    "chosen (deal P n gs \<delta>) i \<longleftrightarrow> chosen \<delta> i \<or> (\<exists>f \<in> set gs. uses f i)"
    "chosen \<delta> i \<or> \<not> (\<exists>f \<in> set gs. uses f i) \<Longrightarrow> legs_at (deal P n gs \<delta>) i = legs_at \<delta> i"
  using assms
proof (induction gs arbitrary: \<delta> seen)
  case (Cons f gs)
  {
    case 1
    have ready: "ready_gate \<delta> f" using 1(2,3) by (simp add: ready_gate_def)
    note inv = deal_gate_inv[OF 1(1) ready 1(4,5), where P = P]
    let ?seen = "if gt f = Shuffle \<or> gt f = MergedShuffle then g_shuffle_idx f # seen else seen"
    have ch: "\<And>i. i \<in> set ?seen \<Longrightarrow> chosen (deal_gate P n f \<delta>) i"
      using inv(2) 1(2) by (auto simp: uses_def split: if_splits)
    show ?case using Cons.IH(1)[OF inv(1) ch] 1 by (simp add: deal_Cons)
  next
    case 2
    have ready: "ready_gate \<delta> f" using 2(2,3) by (simp add: ready_gate_def)
    note inv = deal_gate_inv[OF 2(1) ready 2(4,5), where P = P]
    let ?seen = "if gt f = Shuffle \<or> gt f = MergedShuffle then g_shuffle_idx f # seen else seen"
    have ch: "\<And>i. i \<in> set ?seen \<Longrightarrow> chosen (deal_gate P n f \<delta>) i"
      using inv(2) 2(2) by (auto simp: uses_def split: if_splits)
    show ?case using Cons.IH(2)[OF inv(1) ch] inv(2)[of i] 2 by (auto simp: deal_Cons)
  next
    case 3
    have ready: "ready_gate \<delta> f" using 3(3,4) by (simp add: ready_gate_def)
    note inv = deal_gate_inv[OF 3(2) ready 3(5,6), where P = P]
    let ?seen = "if gt f = Shuffle \<or> gt f = MergedShuffle then g_shuffle_idx f # seen else seen"
    have ch: "\<And>i. i \<in> set ?seen \<Longrightarrow> chosen (deal_gate P n f \<delta>) i"
      using inv(2) 3(3) by (auto simp: uses_def split: if_splits)
    have "legs_at (deal P n gs (deal_gate P n f \<delta>)) i = legs_at (deal_gate P n f \<delta>) i"
      using Cons.IH(3)[OF _ inv(1) ch] inv(2)[of i] 3 by auto
    then show ?case using inv(3)[of i] 3(1) by (auto simp: deal_Cons)
  }
qed simp_all

end
