(* ===== verification/Online_Store.thy ===== *)
theory Online_Store
  imports Trace
begin

text \<open>
  The store of an online server during the online phase, against the abstract dealer: \<open>\<delta>N\<close> is the
  dealer after the whole walk, \<open>\<delta>s\<close> and \<open>\<delta>r\<close> its states at the gate the server sends for and at
  the gate it receives for. A server samples a leg when it first needs it and it was not handed
  out, and takes the corrections from the message in the order of the walk.
\<close>

section \<open>The relation\<close>

definition known_leg :: "(nat \<Rightarrow> bool) \<Rightarrow> (nat \<Rightarrow> bool) \<Rightarrow> (nat \<Rightarrow> permutation) \<Rightarrow> nat \<Rightarrow> permutation" where
  "known_leg ch g h i = (if ch i \<or> g i then h i else [])"

definition O_legs :: "party \<Rightarrow> nat \<Rightarrow> 'g dealer \<Rightarrow> (nat \<Rightarrow> bool) \<Rightarrow> (nat \<Rightarrow> bool) \<Rightarrow> 'g storage \<Rightarrow> bool" where
  "O_legs p K \<delta>N cs cr s \<longleftrightarrow>
     snd_tab p s = map (known_leg cs (d_snd_given \<delta>N p) (d_snd \<delta>N p)) [0..<K] \<and>
     rcv_tab p s = map (known_leg cr (d_rcv_given \<delta>N p) (d_rcv \<delta>N p)) [0..<K]"

definition O_message :: "party \<Rightarrow> 'g dealer \<Rightarrow> 'g dealer \<Rightarrow> 'g storage \<Rightarrow> bool" where
  "O_message p \<delta>N \<delta>r s \<longleftrightarrow> pre_ok s \<and> pre_data s = d_message \<delta>N p \<and>
     pre_pos s = (length (d_pre \<delta>N p) + length (d_corr \<delta>r p)) mod length (d_message \<delta>N p)"

definition O_streams :: "'g \<Rightarrow> 'g \<Rightarrow> 'g \<Rightarrow> 'g storage \<Rightarrow> bool" where
  "O_streams gs gr g01 s \<longleftrightarrow> online_role (random_generators s) \<and>
     rng_with_D_send (random_generators s) = gs \<and> rng_with_D_recv (random_generators s) = gr \<and>
     rng_01 (random_generators s) = g01"

definition O_rel ::
  "party \<Rightarrow> nat \<Rightarrow> nat \<Rightarrow> nat \<Rightarrow> nat set \<Rightarrow> 'g dealer \<Rightarrow> 'g dealer \<Rightarrow> 'g dealer \<Rightarrow> 'g \<Rightarrow> 'g storage \<Rightarrow> bool" where
  "O_rel p n K M done \<delta>N \<delta>s \<delta>r g01 s \<longleftrightarrow> st_id s = p \<and> p \<noteq> D \<and> st_size s = n \<and>
     O_legs p K \<delta>N (chosen \<delta>s) (chosen \<delta>r) s \<and> triples_rel p M done s \<delta>N \<and> O_message p \<delta>N \<delta>r s \<and>
     O_streams (d_send \<delta>s p) (d_recv \<delta>r p) g01 s"

lemmas O_defs = O_rel_def O_legs_def O_message_def O_streams_def

lemma O_rel_start:
  assumes "S_rel p n K M (d_send \<delta>0 p, d_recv \<delta>0 p, g01) (d_message \<delta>N p) done s \<delta>N"
    "\<And>i. \<not> chosen \<delta>0 i" "d_corr \<delta>0 p = []"
  shows "O_rel p n K M done \<delta>N \<delta>0 \<delta>0 g01 s"
proof -
  have e: "known_leg (chosen \<delta>0) (d_snd_given \<delta>N p) (d_snd \<delta>N p) = given_leg (d_snd_given \<delta>N) (d_snd \<delta>N) p"
    "known_leg (chosen \<delta>0) (d_rcv_given \<delta>N p) (d_rcv \<delta>N p) = given_leg (d_rcv_given \<delta>N) (d_rcv \<delta>N) p"
    using assms(2) by (auto simp: known_leg_def given_leg_def)
  show ?thesis using assms by (simp add: O_defs S_defs e)
qed

section \<open>What an update of a leg changes\<close>

text \<open>Everything but the legs and the generators.\<close>

definition rest_eq :: "'g storage \<Rightarrow> 'g storage \<Rightarrow> bool" where
  "rest_eq s s' \<longleftrightarrow> s' = s\<lparr>pi_0 := pi_0 s', pi_1 := pi_1 s', pi_0_p := pi_0_p s', pi_1_p := pi_1_p s',
     random_generators := random_generators s'\<rparr>"

lemma rest_eqD:
  assumes "rest_eq s s'"
  shows "st_id s' = st_id s" "st_size s' = st_size s" "triples_rel p M done s' \<delta> = triples_rel p M done s \<delta>"
    "O_message p \<delta>N \<delta>r s' = O_message p \<delta>N \<delta>r s"
proof -
  note e = assms[unfolded rest_eq_def]
  have f: "st_id s' = st_id s" "st_size s' = st_size s" "triples_disk s' = triples_disk s"
    "triples_a s' = triples_a s" "triples_b s' = triples_b s" "triples_c s' = triples_c s"
    "preproc_disk s' = preproc_disk s" "preproc s' = preproc s" "read_idx s' = read_idx s"
    "st_ssd s' = st_ssd s"
    by (subst e, simp)+
  have "pre_ok s' = pre_ok s" "pre_data s' = pre_data s" "pre_pos s' = pre_pos s"
    using f by (simp_all add: pre_defs)
  then show "st_id s' = st_id s" "st_size s' = st_size s" "triples_rel p M done s' \<delta> = triples_rel p M done s \<delta>"
    "O_message p \<delta>N \<delta>r s' = O_message p \<delta>N \<delta>r s"
    using f triple_at_cong[OF f(3-6,10)] by (simp_all add: triples_rel_def O_message_def)
qed

lemma known_leg_update:
  assumes "\<And>j. cs' j \<longleftrightarrow> cs j \<or> j = i" "i < K" "h i = x"
  shows "(map (known_leg cs g h) [0..<K])[i := x] = map (known_leg cs' g h) [0..<K]"
  using assms by (intro nth_equalityI) (auto simp: nth_list_update known_leg_def)

lemma known_leg_same:
  assumes "\<And>j. cs' j \<longleftrightarrow> cs j \<or> j = i" "cs i \<or> g i"
  shows "known_leg cs' g h = known_leg cs g h"
  using assms by (auto simp: known_leg_def fun_eq_iff)

section \<open>Sending\<close>

text \<open>The state \<open>\<delta>'\<close> of the dealer after the gate agrees with the final one on the gate's leg, and the
  size is one for which the servers can sample permutations.\<close>

definition settled :: "nat \<Rightarrow> 'g dealer \<Rightarrow> 'g dealer \<Rightarrow> 'g dealer \<Rightarrow> nat \<Rightarrow> bool" where
  "settled n \<delta>N \<delta> \<delta>' i \<longleftrightarrow> n < 2 ^ 31 \<and> (\<forall>j. chosen \<delta>' j \<longleftrightarrow> chosen \<delta> j \<or> j = i) \<and> legs_at \<delta>N i = legs_at \<delta>' i \<and>
     legs_ok n (d_perm \<delta>N i) (d_rcv \<delta>N P0 i) (d_snd \<delta>N P1 i) (d_snd \<delta>N P0 i) (d_rcv \<delta>N P1 i)"

lemma settledD:
  assumes "settled n \<delta>N \<delta> \<delta>' i" "p \<noteq> D"
  shows "chosen \<delta>' j \<longleftrightarrow> chosen \<delta> j \<or> j = i" "d_snd \<delta>' p i = d_snd \<delta>N p i" "d_rcv \<delta>' p i = d_rcv \<delta>N p i"
    "d_snd_given \<delta>' p i = d_snd_given \<delta>N p i" "d_rcv_given \<delta>' p i = d_rcv_given \<delta>N p i"
    "perm_ok n (d_snd \<delta>N p i)" "perm_ok n (d_rcv \<delta>N p i)" "n < 2 ^ 31"
  using assms by (cases p; auto simp: settled_def legs_at_def legs_ok_def)+

lemma O_send_pick:
  assumes "O_rel p n K M done \<delta>N \<delta>s \<delta>r g01 s" "send_step P n f p \<delta>s \<delta>s'" "picks f" "g_shuffle_idx f < K"
    "settled n \<delta>N \<delta>s \<delta>s' (g_shuffle_idx f)" "0 < n"
  shows "\<exists>s1 s2. from_D_send (draw_vec P n) s = Inr (d_mask \<delta>s' p (out_idx f), s1) \<and>
     send_perm P (g_shuffle_idx f) s1 = Inr (d_snd \<delta>N p (g_shuffle_idx f), s2) \<and>
     O_rel p n K M done \<delta>N \<delta>s' \<delta>r g01 s2"
proof -
  let ?i = "g_shuffle_idx f" and ?r = "random_generators s"
  have p: "p \<noteq> D" "st_id s = p" "st_size s = n" using assms(1) by (simp_all add: O_rel_def)
  have p01: "p = P0 \<or> p = P1" using p(1) by (cases p) auto
  note S = settledD[OF assms(5) p(1)]
  note small = draw_perm_small[OF S(8)]
  obtain R g where Rg: "draw_vec P n (d_send \<delta>s p) = (R, g)" by fastforce
  have mask: "d_mask \<delta>s' p (out_idx f) = R" and
    step: "if chosen \<delta>s ?i \<or> d_snd_given \<delta>N p ?i then d_send \<delta>s' p = g
           else random_loop P n g = (d_snd \<delta>N p ?i, d_send \<delta>s' p)"
    using assms(2,3) S(2,4) by (simp_all add: send_step_def Rg cong: if_cong)
  define s1 where "s1 = s\<lparr>random_generators := ?r\<lparr>rng_with_D_send := g\<rparr>\<rparr>"
  have role: "online_role ?r" "rng_with_D_send ?r = d_send \<delta>s p" using assms(1) by (simp_all add: O_defs)
  have draw: "from_D_send (draw_vec P n) s = Inr (R, s1)"
    using role Rg by (simp add: with_rng_def s1_def)
  have tab: "snd_tab p s = map (known_leg (chosen \<delta>s) (d_snd_given \<delta>N p) (d_snd \<delta>N p)) [0..<K]"
    using assms(1) by (simp add: O_defs)
  have s1: "snd_tab p s1 = snd_tab p s" "st_id s1 = p" "st_size s1 = n" "rest_eq s s1"
    using p by (simp_all add: s1_def snd_tab_def rest_eq_def)
  have s1r: "rcv_tab p s1 = rcv_tab p s" by (simp add: s1_def rcv_tab_def)
  have at: "at_res (snd_tab p s1) ?i = Inr (known_leg (chosen \<delta>s) (d_snd_given \<delta>N p) (d_snd \<delta>N p) ?i)"
    using tab assms(4) s1(1) by simp
  have l: "length (d_snd \<delta>N p ?i) = n" by (rule perm_ok_length[OF S(6)])
  show ?thesis
  proof (cases "chosen \<delta>s ?i \<or> d_snd_given \<delta>N p ?i")
    case True
    then have k: "known_leg (chosen \<delta>s) (d_snd_given \<delta>N p) (d_snd \<delta>N p) ?i = d_snd \<delta>N p ?i"
      by (simp add: known_leg_def)
    have "send_perm P ?i s1 = Inr (d_snd \<delta>N p ?i, s1)"
      using at[unfolded k] l assms(6) p01 s1(2) by (auto simp: send_perm_def snd_tab_def)
    moreover have "known_leg (chosen \<delta>s') (d_snd_given \<delta>N p) (d_snd \<delta>N p) =
        known_leg (chosen \<delta>s) (d_snd_given \<delta>N p) (d_snd \<delta>N p)"
      by (rule known_leg_same[where i = ?i]) (use S(1) True in auto)
    then have "O_rel p n K M done \<delta>N \<delta>s' \<delta>r g01 s1"
      using assms(1) rest_eqD[OF s1(4)] step True
      using s1r s1(1) by (simp add: O_rel_def O_legs_def O_streams_def) (simp add: s1_def online_role_def)
    ultimately show ?thesis using draw mask by blast
  next
    case False
    then have k: "known_leg (chosen \<delta>s) (d_snd_given \<delta>N p) (d_snd \<delta>N p) ?i = []"
      by (simp add: known_leg_def)
    have pr: "random_loop P n g = (d_snd \<delta>N p ?i, d_send \<delta>s' p)" using step False by simp
    define s2 where "s2 = s1\<lparr>random_generators := (random_generators s1)\<lparr>rng_with_D_send := d_send \<delta>s' p\<rparr>\<rparr>"
    have draw2: "from_D_send (random_loop P n) s1 = Inr (d_snd \<delta>N p ?i, s2)"
      using role pr by (simp add: with_rng_def s1_def s2_def online_role_def)
    have t2: "snd_tab p s2 = snd_tab p s" "rcv_tab p s2 = rcv_tab p s"
      by (simp_all add: s2_def s1_def snd_tab_def rcv_tab_def)
    have len: "?i < length (snd_tab p s)" using tab assms(4) by simp
    define s3 where "s3 = (if p = P0 then s2\<lparr>pi_0_p := (pi_0_p s2)[?i := d_snd \<delta>N p ?i]\<rparr>
        else s2\<lparr>pi_1 := (pi_1 s2)[?i := d_snd \<delta>N p ?i]\<rparr>)"
    have "send_perm P ?i s1 = Inr (d_snd \<delta>N p ?i, s3)"
      using at[unfolded k] draw2[folded small] p01 s1(2,3) len t2 unfolding s3_def
      by (auto simp: send_perm_def snd_tab_def set_perm_def s2_def)
    moreover have tab3: "snd_tab p s3 = map (known_leg (chosen \<delta>s') (d_snd_given \<delta>N p) (d_snd \<delta>N p)) [0..<K]"
      using known_leg_update[of "chosen \<delta>s'" "chosen \<delta>s" ?i K "d_snd \<delta>N p" "d_snd \<delta>N p ?i" "d_snd_given \<delta>N p"]
        S(1) assms(4) tab t2(1) by (simp add: s3_def snd_tab_def split: if_splits)
    have rcv3: "rcv_tab p s3 = rcv_tab p s" using t2(2) by (simp add: s3_def rcv_tab_def split: if_splits)
    have re: "rest_eq s s3" by (simp add: rest_eq_def s3_def s2_def s1_def)
    have rg: "random_generators s3 = (random_generators s1)\<lparr>rng_with_D_send := d_send \<delta>s' p\<rparr>"
      by (simp add: s3_def s2_def)
    have "O_rel p n K M done \<delta>N \<delta>s' \<delta>r g01 s3"
      using assms(1) rest_eqD[OF re] tab3 rcv3 rg
      by (simp add: O_rel_def O_legs_def O_streams_def s1_def online_role_def)
    ultimately show ?thesis using draw mask by blast
  qed
qed

lemma O_send_undo:
  assumes "O_rel p n K M done \<delta>N \<delta>s \<delta>r g01 s" "send_step P n f p \<delta>s \<delta>s'" "\<not> picks f" "g_shuffle_idx f < K"
    "chosen \<delta>s' = chosen \<delta>s" "chosen \<delta>r (g_shuffle_idx f)"
  shows "\<exists>s1. from_D_send (draw_vec P n) s = Inr (d_mask \<delta>s' p (out_idx f), s1) \<and>
     at_res (rcv_tab p s1) (g_shuffle_idx f) = Inr (d_rcv \<delta>N p (g_shuffle_idx f)) \<and>
     O_rel p n K M done \<delta>N \<delta>s' \<delta>r g01 s1"
proof -
  let ?i = "g_shuffle_idx f" and ?r = "random_generators s"
  obtain R g where Rg: "draw_vec P n (d_send \<delta>s p) = (R, g)" by fastforce
  have mask: "d_mask \<delta>s' p (out_idx f) = R" and step: "d_send \<delta>s' p = g"
    using assms(2,3) by (simp_all add: send_step_def Rg)
  define s1 where "s1 = s\<lparr>random_generators := ?r\<lparr>rng_with_D_send := g\<rparr>\<rparr>"
  have role: "online_role ?r" "rng_with_D_send ?r = d_send \<delta>s p" using assms(1) by (simp_all add: O_defs)
  have draw: "from_D_send (draw_vec P n) s = Inr (R, s1)"
    using role Rg by (simp add: with_rng_def s1_def)
  have re: "rest_eq s s1" by (simp add: rest_eq_def s1_def)
  have t: "snd_tab p s1 = snd_tab p s" "rcv_tab p s1 = rcv_tab p s"
    by (simp_all add: s1_def snd_tab_def rcv_tab_def)
  have O: "O_rel p n K M done \<delta>N \<delta>s' \<delta>r g01 s1"
    using assms(1,5) rest_eqD[OF re] step t
    by (simp add: O_rel_def O_legs_def O_streams_def) (simp add: s1_def online_role_def)
  then have "at_res (rcv_tab p s1) ?i = Inr (d_rcv \<delta>N p ?i)"
    using assms(4,6) by (simp add: O_defs known_leg_def)
  then show ?thesis using draw mask O by blast
qed

lemma O_send_skip:
  assumes "O_rel p n K M done \<delta>N \<delta>s \<delta>r g01 s" "d_send \<delta>s' = d_send \<delta>s" "chosen \<delta>s' = chosen \<delta>s"
  shows "O_rel p n K M done \<delta>N \<delta>s' \<delta>r g01 s"
  using assms by (simp add: O_rel_def)

section \<open>Receiving\<close>

lemma O_read:
  assumes "O_rel p n K M done \<delta>N \<delta>s \<delta>r g01 s" "d_message \<delta>N p = d_pre \<delta>N p @ d_corr \<delta>r p @ v @ rest"
    "length v = m" "d_corr \<delta>r' p = d_corr \<delta>r p @ v" "chosen \<delta>r' = chosen \<delta>r" "d_recv \<delta>r' p = d_recv \<delta>r p"
  shows "\<exists>s'. read_preproc m s = Inr (v, s') \<and> snd_tab p s' = snd_tab p s \<and>
     O_rel p n K M done \<delta>N \<delta>s \<delta>r' g01 s'"
proof -
  have ok: "pre_ok s" "pre_data s = d_message \<delta>N p"
    "pre_pos s = (length (d_pre \<delta>N p) + length (d_corr \<delta>r p)) mod length (d_message \<delta>N p)"
    using assms(1) by (simp_all add: O_rel_def O_message_def)
  have d: "d_message \<delta>N p = (d_pre \<delta>N p @ d_corr \<delta>r p) @ v @ rest" using assms(2) by simp
  obtain s' where s': "read_preproc m s = Inr (v, s')" "pre_ok s'" "pre_data s' = d_message \<delta>N p"
    "pre_pos s' = (length (d_pre \<delta>N p) + length (d_corr \<delta>r p) + m) mod length (d_message \<delta>N p)"
    and fr: "s' = s\<lparr>preproc_disk := preproc_disk s', read_idx := read_idx s'\<rparr>"
    using read_at[OF ok d _ assms(3)] by auto
  have f: "st_id s' = st_id s" "st_size s' = st_size s" "random_generators s' = random_generators s"
    "pi_0 s' = pi_0 s" "pi_1 s' = pi_1 s" "pi_0_p s' = pi_0_p s" "pi_1_p s' = pi_1_p s"
    "triples_disk s' = triples_disk s" "triples_a s' = triples_a s"
    "triples_b s' = triples_b s" "triples_c s' = triples_c s" "st_ssd s' = st_ssd s"
    by (subst fr, simp)+
  have t: "snd_tab p s' = snd_tab p s" "rcv_tab p s' = rcv_tab p s"
    "triples_rel p M done s' \<delta>N = triples_rel p M done s \<delta>N"
    using f(4-7) triple_at_cong[OF f(8-12)] by (simp_all add: snd_tab_def rcv_tab_def triples_rel_def)
  have "O_message p \<delta>N \<delta>r' s'" using s'(2-4) assms(3,4) by (simp add: O_message_def add.assoc)
  then have "O_rel p n K M done \<delta>N \<delta>s \<delta>r' g01 s'"
    using assms(1,5,6) t f(1-3) by (simp add: O_rel_def O_legs_def O_streams_def)
  then show ?thesis using s'(1) t(1) by blast
qed

lemma O_recv_pick:
  assumes "O_rel p n K M done \<delta>N \<delta>s \<delta>r g01 s" "recv_step P n f p \<delta>r \<delta>r'" "picks f" "g_shuffle_idx f < K"
    "settled n \<delta>N \<delta>r \<delta>r' (g_shuffle_idx f)" "0 < n" "d_corr \<delta>N p = d_corr \<delta>r' p @ rest"
  shows "\<exists>s1 s2. recv_perm P (g_shuffle_idx f) s = Inr (d_rcv \<delta>N p (g_shuffle_idx f), s1) \<and>
     read_preproc n s1 = Inr (d_B \<delta>r' p (out_idx f), s2) \<and> O_rel p n K M done \<delta>N \<delta>s \<delta>r' g01 s2"
proof -
  let ?i = "g_shuffle_idx f" and ?r = "random_generators s" and ?B = "d_B \<delta>r' p (out_idx f)"
  have p: "p \<noteq> D" "st_id s = p" "st_size s = n" using assms(1) by (simp_all add: O_rel_def)
  have p01: "p = P0 \<or> p = P1" using p(1) by (cases p) auto
  note S = settledD[OF assms(5) p(1)]
  note small = draw_perm_small[OF S(8)]
  have B: "d_corr \<delta>r' p = d_corr \<delta>r p @ ?B" "length ?B = n" and
    step: "if chosen \<delta>r ?i \<or> d_rcv_given \<delta>N p ?i then d_recv \<delta>r' p = d_recv \<delta>r p
           else random_loop P n (d_recv \<delta>r p) = (d_rcv \<delta>N p ?i, d_recv \<delta>r' p)"
    using assms(2,3) S(3,5) by (simp_all add: recv_step_def cong: if_cong)
  have msg: "d_message \<delta>N p = d_pre \<delta>N p @ d_corr \<delta>r p @ ?B @ rest"
    unfolding d_message_def assms(7) B(1) by simp
  have role: "online_role ?r" "rng_with_D_recv ?r = d_recv \<delta>r p" using assms(1) by (simp_all add: O_defs)
  have tab: "rcv_tab p s = map (known_leg (chosen \<delta>r) (d_rcv_given \<delta>N p) (d_rcv \<delta>N p)) [0..<K]"
    using assms(1) by (simp add: O_defs)
  then have at: "at_res (rcv_tab p s) ?i = Inr (known_leg (chosen \<delta>r) (d_rcv_given \<delta>N p) (d_rcv \<delta>N p) ?i)"
    using assms(4) by simp
  have l: "length (d_rcv \<delta>N p ?i) = n" by (rule perm_ok_length[OF S(7)])
  define \<delta>1 where "\<delta>1 = \<delta>r'\<lparr>d_corr := (d_corr \<delta>r')(p := d_corr \<delta>r p)\<rparr>"
  have c1: "chosen \<delta>1 = chosen \<delta>r'" "d_recv \<delta>1 = d_recv \<delta>r'" "d_corr \<delta>1 p = d_corr \<delta>r p"
    by (simp_all add: \<delta>1_def chosen_def[abs_def])
  have "\<exists>s1. recv_perm P ?i s = Inr (d_rcv \<delta>N p ?i, s1) \<and> O_rel p n K M done \<delta>N \<delta>s \<delta>1 g01 s1"
  proof (cases "chosen \<delta>r ?i \<or> d_rcv_given \<delta>N p ?i")
    case True
    then have k: "known_leg (chosen \<delta>r) (d_rcv_given \<delta>N p) (d_rcv \<delta>N p) ?i = d_rcv \<delta>N p ?i"
      by (simp add: known_leg_def)
    have "recv_perm P ?i s = Inr (d_rcv \<delta>N p ?i, s)"
      using at[unfolded k] l assms(6) p01 p(2) by (auto simp: recv_perm_def rcv_tab_def)
    moreover have "known_leg (chosen \<delta>r') (d_rcv_given \<delta>N p) (d_rcv \<delta>N p) =
        known_leg (chosen \<delta>r) (d_rcv_given \<delta>N p) (d_rcv \<delta>N p)"
      by (rule known_leg_same[where i = ?i]) (use S(1) True in auto)
    then have "O_rel p n K M done \<delta>N \<delta>s \<delta>1 g01 s"
      using assms(1) step True c1 by (simp add: O_defs)
    ultimately show ?thesis by blast
  next
    case False
    then have k: "known_leg (chosen \<delta>r) (d_rcv_given \<delta>N p) (d_rcv \<delta>N p) ?i = []"
      by (simp add: known_leg_def)
    have pr: "random_loop P n (d_recv \<delta>r p) = (d_rcv \<delta>N p ?i, d_recv \<delta>r' p)" using step False by simp
    define s2 where "s2 = s\<lparr>random_generators := ?r\<lparr>rng_with_D_recv := d_recv \<delta>r' p\<rparr>\<rparr>"
    have draw: "from_D_recv (random_loop P n) s = Inr (d_rcv \<delta>N p ?i, s2)"
      using role pr by (simp add: with_rng_def s2_def)
    have t2: "snd_tab p s2 = snd_tab p s" "rcv_tab p s2 = rcv_tab p s"
      by (simp_all add: s2_def snd_tab_def rcv_tab_def)
    have len: "?i < length (rcv_tab p s)" using tab assms(4) by simp
    define s3 where "s3 = (if p = P0 then s2\<lparr>pi_0 := (pi_0 s2)[?i := d_rcv \<delta>N p ?i]\<rparr>
        else s2\<lparr>pi_1_p := (pi_1_p s2)[?i := d_rcv \<delta>N p ?i]\<rparr>)"
    have "recv_perm P ?i s = Inr (d_rcv \<delta>N p ?i, s3)"
      using at[unfolded k] draw[folded small] p01 p(2,3) len t2 unfolding s3_def
      by (auto simp: recv_perm_def rcv_tab_def set_perm_def s2_def)
    moreover have tab3: "rcv_tab p s3 = map (known_leg (chosen \<delta>r') (d_rcv_given \<delta>N p) (d_rcv \<delta>N p)) [0..<K]"
      using known_leg_update[of "chosen \<delta>r'" "chosen \<delta>r" ?i K "d_rcv \<delta>N p" "d_rcv \<delta>N p ?i" "d_rcv_given \<delta>N p"]
        S(1) assms(4) tab t2(2) by (simp add: s3_def rcv_tab_def split: if_splits)
    have snd3: "snd_tab p s3 = snd_tab p s" using t2(1) by (simp add: s3_def snd_tab_def split: if_splits)
    have re: "rest_eq s s3" by (simp add: rest_eq_def s3_def s2_def)
    have rg: "random_generators s3 = ?r\<lparr>rng_with_D_recv := d_recv \<delta>r' p\<rparr>"
      by (simp add: s3_def s2_def)
    have msg1: "O_message p \<delta>N \<delta>1 s3"
      using assms(1) rest_eqD(4)[OF re] c1(3) by (simp add: O_rel_def O_message_def)
    have "O_rel p n K M done \<delta>N \<delta>s \<delta>1 g01 s3"
      using assms(1) rest_eqD(1-3)[OF re] tab3 snd3 rg c1 msg1
      by (simp add: O_rel_def O_legs_def O_streams_def online_role_def)
    ultimately show ?thesis by blast
  qed
  then obtain s1 where s1: "recv_perm P ?i s = Inr (d_rcv \<delta>N p ?i, s1)" "O_rel p n K M done \<delta>N \<delta>s \<delta>1 g01 s1"
    by blast
  have "d_message \<delta>N p = d_pre \<delta>N p @ d_corr \<delta>1 p @ ?B @ rest" using msg c1(3) by simp
  from O_read[OF s1(2) this B(2), of \<delta>r'] show ?thesis using s1(1) B(1) c1 by auto
qed

lemma O_recv_undo:
  assumes "O_rel p n K M done \<delta>N \<delta>s \<delta>r g01 s" "recv_step P n f p \<delta>r \<delta>r'" "\<not> picks f" "g_shuffle_idx f < K"
    "chosen \<delta>r' = chosen \<delta>r" "chosen \<delta>s (g_shuffle_idx f)" "d_corr \<delta>N p = d_corr \<delta>r' p @ rest"
  shows "\<exists>s1. at_res (snd_tab p s) (g_shuffle_idx f) = Inr (d_snd \<delta>N p (g_shuffle_idx f)) \<and>
     read_preproc n s = Inr (d_B \<delta>r' p (out_idx f), s1) \<and> O_rel p n K M done \<delta>N \<delta>s \<delta>r' g01 s1"
proof -
  let ?B = "d_B \<delta>r' p (out_idx f)"
  have B: "d_corr \<delta>r' p = d_corr \<delta>r p @ ?B" "length ?B = n" "d_recv \<delta>r' p = d_recv \<delta>r p"
    using assms(2,3) by (simp_all add: recv_step_def)
  have "d_message \<delta>N p = d_pre \<delta>N p @ d_corr \<delta>r p @ ?B @ rest"
    unfolding d_message_def assms(7) B(1) by simp
  moreover have "at_res (snd_tab p s) (g_shuffle_idx f) = Inr (d_snd \<delta>N p (g_shuffle_idx f))"
    using assms(1,4,6) by (simp add: O_defs known_leg_def)
  ultimately show ?thesis using O_read[OF assms(1) _ B(2,1) assms(5) B(3)] by blast
qed

lemma O_recv_skip:
  assumes "O_rel p n K M done \<delta>N \<delta>s \<delta>r g01 s" "d_recv \<delta>r' = d_recv \<delta>r" "chosen \<delta>r' = chosen \<delta>r"
    "d_corr \<delta>r' = d_corr \<delta>r"
  shows "O_rel p n K M done \<delta>N \<delta>s \<delta>r' g01 s"
  using assms by (simp add: O_rel_def O_message_def)

text \<open>Loading a triple.\<close>

lemma O_load:
  assumes "O_rel p n K M done \<delta>N \<delta>s \<delta>r g01 s" "j < M" "j \<in> done" "d_triple \<delta>N p j = (a, b, c)"
    "length a = m" "length b = m" "length c = m"
  shows "load_triples_sized j m s = Inr ((a, b, c), s)"
proof -
  have "triple_at j a b c s" using assms(1-4) by (force simp: O_rel_def triples_rel_def)
  then show ?thesis by (rule load_triple_at) (rule assms(5-7))+
qed

end
