(* ===== verification/Online_Wires.thy ===== *)
theory Online_Wires
  imports Online_Store
begin

text \<open>
  The wires of an evaluator and the counters of their readers: a wire keeps its value as long as
  it has a reader, is freed by the last one, and is empty before it is written.
\<close>

section \<open>Readers\<close>

definition two_inputs :: "gtype \<Rightarrow> bool" where
  "two_inputs t \<longleftrightarrow> linear2_type t \<or> permute_type t \<or> product_type t"

text \<open>What \<open>init_waiting\<close> counts, and which counters the two halves of a gate decrement.\<close>

definition counted :: "gate \<Rightarrow> wire_id list" where
  "counted f = in1_idx f # (if in2_idx f \<noteq> 0 then [in2_idx f] else [])"

definition send_drops :: "gate \<Rightarrow> wire_id list" where
  "send_drops f = (if move_type (gt f) \<or> gt f = EQZ then [in1_idx f]
     else if product_type (gt f) then [in1_idx f, in2_idx f] else [])"

definition recv_drops :: "gate \<Rightarrow> wire_id list" where
  "recv_drops f = (if gt f = Output \<or> gt f = Compaction \<or> gt f = Bit2A \<or> linear_type (gt f) then [in1_idx f]
     else if linear2_type (gt f) \<or> permute_type (gt f) then [in1_idx f, in2_idx f] else [])"

definition readers :: "gate list \<Rightarrow> nat \<Rightarrow> nat" where
  "readers gs w = count_list (concat (map counted gs)) w"

definition bump :: "wire_id list \<Rightarrow> (nat \<Rightarrow> nat) \<Rightarrow> nat \<Rightarrow> nat" where
  "bump ws c w = c w + count_list ws w"

lemma bump_simps [simp]: "bump [] c = c" "bump (w # ws) c = bump ws (c(w := c w + 1))"
  by (auto simp: bump_def fun_eq_iff)

lemma bump_append: "bump (xs @ ys) c = bump ys (bump xs c)"
  by (simp add: bump_def fun_eq_iff)

lemma inc_waiting_ok: "w < length wt \<Longrightarrow> inc_waiting wt w = Inr (wt[w := wt ! w + 1])"
  by (simp add: inc_waiting_def)

lemma foldr_res_concat: "foldr_res (foldr_res f) s xss = foldr_res f s (concat xss)"
  by (induction xss arbitrary: s) (simp_all add: foldr_res_append)

lemma init_waiting_ok:
  assumes "list_all (\<lambda>f. in1_idx f < length wt \<and> in2_idx f < length wt) (concat layers)"
  shows "\<exists>wt'. init_waiting layers wt = Inr wt' \<and> length wt' = length wt \<and>
     (\<forall>w < length wt. wt' ! w = wt ! w + readers (concat layers) w)"
proof -
  define step where "step = (\<lambda>wt (f :: gate). bindr (inc_waiting wt (in1_idx f)) (\<lambda>wt.
         if in2_idx f \<noteq> 0 then inc_waiting wt (in2_idx f) else Inr wt))"
  have "\<exists>wt'. foldr_res step wt gs = Inr wt' \<and> length wt' = length wt \<and>
     (\<forall>w < length wt. wt' ! w = wt ! w + readers gs w)"
    if "list_all (\<lambda>f. in1_idx f < length wt \<and> in2_idx f < length wt) gs" for gs :: "gate list" and wt
    using that
  proof (induction gs arbitrary: wt)
    case Nil
    then show ?case by (simp add: readers_def)
  next
    case (Cons f gs)
    obtain wt1 where 1: "step wt f = Inr wt1" "length wt1 = length wt"
      "\<forall>w < length wt. wt1 ! w = wt ! w + count_list (counted f) w"
      using Cons.prems unfolding step_def
      by (cases "in2_idx f = 0") (auto simp: inc_waiting_ok counted_def nth_list_update)
    obtain wt2 where 2: "foldr_res step wt1 gs = Inr wt2" "length wt2 = length wt1"
      "\<forall>w < length wt1. wt2 ! w = wt1 ! w + readers gs w"
      using Cons.IH[of wt1] Cons.prems 1(2) by auto
    then show ?case using 1 by (auto simp: readers_def)
  qed
  from this[OF assms] show ?thesis
    unfolding init_waiting_def foldr_res_concat step_def .
qed

section \<open>The relation\<close>

definition W_rel ::
  "nat \<Rightarrow> (nat \<Rightarrow> nat) \<Rightarrow> nat set \<Rightarrow> (nat \<Rightarrow> nat) \<Rightarrow> (nat \<Rightarrow> vec) \<Rightarrow> 'g evaluator \<Rightarrow> bool" where
  "W_rel nw rd W c \<sigma> ev \<longleftrightarrow> length (wires ev) = nw \<and> length (waiting ev) = nw \<and>
     (\<forall>w < nw. c w \<le> rd w \<and> waiting ev ! w = rd w - c w \<and>
        (w \<in> W \<and> (c w < rd w \<or> c w = 0) \<longrightarrow> wires ev ! w = \<sigma> w) \<and> (w \<notin> W \<longrightarrow> wires ev ! w = []))"

lemma W_relD:
  assumes "W_rel nw rd W c \<sigma> ev" "w < nw"
  shows "c w \<le> rd w" "waiting ev ! w = rd w - c w"
    "w \<in> W \<Longrightarrow> c w < rd w \<or> c w = 0 \<Longrightarrow> wires ev ! w = \<sigma> w" "w \<notin> W \<Longrightarrow> wires ev ! w = []"
    "w < length (wires ev)" "w < length (waiting ev)"
  using assms by (simp_all add: W_rel_def)

lemma W_rel_cong:
  "wires ev' = wires ev \<Longrightarrow> waiting ev' = waiting ev \<Longrightarrow> W_rel nw rd W c \<sigma> ev' = W_rel nw rd W c \<sigma> ev"
  by (simp add: W_rel_def)

lemma W_read:
  assumes "W_rel nw rd W c \<sigma> ev" "w < nw" "w \<in> W" "c w < rd w \<or> c w = 0"
  shows "wire_at w ev = Inr (\<sigma> w)"
  using W_relD[OF assms(1,2)] assms(3,4) by (simp add: wire_at_def)

text \<open>Only wires change.\<close>

definition wires_only :: "'g evaluator \<Rightarrow> 'g evaluator \<Rightarrow> bool" where
  "wires_only ev ev' \<longleftrightarrow> ev'\<lparr>wires := [], waiting := []\<rparr> = ev\<lparr>wires := [], waiting := []\<rparr>"

lemma wires_only_trans: "wires_only ev ev' \<Longrightarrow> wires_only ev' ev'' \<Longrightarrow> wires_only ev ev''"
  by (simp add: wires_only_def)

lemma wires_onlyD:
  assumes "wires_only ev ev'"
  shows "ev_id ev' = ev_id ev" "ev_size ev' = ev_size ev" "ev_nodes ev' = ev_nodes ev"
    "input_to_val ev' = input_to_val ev" "ev_output ev' = ev_output ev" "mul_vals ev' = mul_vals ev"
    "and_vals ev' = and_vals ev" "shuffle_vals ev' = shuffle_vals ev" "reveal_vals ev' = reveal_vals ev"
    "mul_pos ev' = mul_pos ev" "and_pos ev' = and_pos ev" "shuffle_pos ev' = shuffle_pos ev"
    "reveal_pos ev' = reveal_pos ev" "ev_data ev' = ev_data ev"
  using assms by (cases ev; cases ev'; simp add: wires_only_def)+

lemma W_drop:
  assumes "W_rel nw rd W c \<sigma> ev" "w < nw" "c w < rd w"
  shows "\<exists>ev1. drop_reader w ev = Inr ev1 \<and> ev1 = ev\<lparr>waiting := (waiting ev)[w := rd w - (c w + 1)]\<rparr>"
proof -
  have "waiting ev ! w = rd w - c w" "w < length (waiting ev)" using W_relD[OF assms(1,2)] by simp_all
  then show ?thesis using assms(3) by (simp add: drop_reader_def dec64_def)
qed

text \<open>Freeing, once the counter has been decremented; the content of a wire without readers does not matter.\<close>

lemma W_free:
  assumes "length (wires ev) = nw" "length (waiting ev) = nw" "w < nw"
    "\<forall>v < nw. c v \<le> rd v \<and> waiting ev ! v = rd v - c v \<and>
        (v \<in> W \<and> (c v < rd v \<or> c v = 0) \<longrightarrow> wires ev ! v = \<sigma> v) \<and> (v \<notin> W \<longrightarrow> wires ev ! v = [])"
    "0 < c w"
  shows "\<exists>ev'. free_if_done w ev = Inr ev' \<and> wires_only ev ev' \<and> W_rel nw rd W c \<sigma> ev'"
proof (cases "c w = rd w")
  case True
  let ?ev = "ev\<lparr>wires := (wires ev)[w := []]\<rparr>"
  have "free_if_done w ev = Inr ?ev" using assms(1-4) True by (simp add: free_if_done_def)
  moreover have "W_rel nw rd W c \<sigma> ?ev"
    using assms True by (auto simp: W_rel_def nth_list_update)
  ultimately show ?thesis by (simp add: wires_only_def)
next
  case False
  then have "c w < rd w" using assms(3,4) by (simp add: le_neq_implies_less)
  then have "free_if_done w ev = Inr ev" using assms(2-4) by (simp add: free_if_done_def)
  then show ?thesis using assms(1,2,4) by (simp add: wires_only_def W_rel_def)
qed

lemma W_update:
  assumes "W_rel nw rd W c \<sigma> ev" "w < nw" "c w < rd w"
  shows "\<exists>ev'. update_wire w ev = Inr ev' \<and> wires_only ev ev' \<and> W_rel nw rd W (bump [w] c) \<sigma> ev'"
proof -
  let ?ev1 = "ev\<lparr>waiting := (waiting ev)[w := rd w - (c w + 1)]\<rparr>"
  have d: "drop_reader w ev = Inr ?ev1" using W_drop[OF assms] by simp
  have "\<exists>ev'. free_if_done w ?ev1 = Inr ev' \<and> wires_only ?ev1 ev' \<and> W_rel nw rd W (bump [w] c) \<sigma> ev'"
    by (rule W_free) (use assms in \<open>auto simp: W_rel_def nth_list_update\<close>)
  then obtain ev' where "free_if_done w ?ev1 = Inr ev'" "wires_only ?ev1 ev'" "W_rel nw rd W (bump [w] c) \<sigma> ev'"
    by blast
  moreover have "wires_only ev ?ev1" by (simp add: wires_only_def)
  ultimately show ?thesis using d wires_only_trans by (auto simp: update_wire_def)
qed

lemma W_updates:
  assumes "W_rel nw rd W c \<sigma> ev" "w1 < nw" "w2 < nw"
    "bump [w1, w2] c w1 \<le> rd w1" "bump [w1, w2] c w2 \<le> rd w2"
  shows "\<exists>ev'. update_wires w1 w2 ev = Inr ev' \<and> wires_only ev ev' \<and> W_rel nw rd W (bump [w1, w2] c) \<sigma> ev'"
proof -
  let ?c = "bump [w1, w2] c"
  let ?ev1 = "ev\<lparr>waiting := (waiting ev)[w1 := rd w1 - (c w1 + 1)]\<rparr>"
  have c1: "c w1 < rd w1" using assms(4) by (simp split: if_splits)
  have d1: "drop_reader w1 ev = Inr ?ev1" using W_drop[OF assms(1,2) c1] by simp
  have wt: "waiting ev ! w = rd w - c w" "w < length (waiting ev)" if "w < nw" for w
    using W_relD[OF assms(1) that] by simp_all
  let ?ev2 = "?ev1\<lparr>waiting := (waiting ?ev1)[w2 := rd w2 - ?c w2]\<rparr>"
  have d2: "drop_reader w2 ?ev1 = Inr ?ev2"
    using wt[OF assms(2)] wt[OF assms(3)] assms(2,3,5) by (auto simp: drop_reader_def dec64_def nth_list_update)
  have inv: "length (wires ?ev2) = nw" "length (waiting ?ev2) = nw"
    "\<forall>v < nw. ?c v \<le> rd v \<and> waiting ?ev2 ! v = rd v - ?c v \<and>
        (v \<in> W \<and> (?c v < rd v \<or> ?c v = 0) \<longrightarrow> wires ?ev2 ! v = \<sigma> v) \<and> (v \<notin> W \<longrightarrow> wires ?ev2 ! v = [])"
    using assms by (auto simp: W_rel_def nth_list_update)
  have pos: "0 < ?c w1" "0 < ?c w2" by (simp_all add: bump_def del: bump_simps)
  obtain ev3 where 3: "free_if_done w1 ?ev2 = Inr ev3" "wires_only ?ev2 ev3" "W_rel nw rd W ?c \<sigma> ev3"
    using W_free[OF inv(1,2) assms(2) inv(3) pos(1)] by blast
  obtain ev4 where 4: "free_if_done w2 ev3 = Inr ev4" "wires_only ev3 ev4" "W_rel nw rd W ?c \<sigma> ev4"
    using W_free[where ev = ev3 and nw = nw and w = w2 and c = ?c and rd = rd and W = W and \<sigma> = \<sigma>] 3(3)
      assms(3) pos(2) unfolding W_rel_def by blast
  have "wires_only ev ?ev2" by (simp add: wires_only_def)
  then have "wires_only ev ev4" using 3(2) 4(2) wires_only_trans by blast
  then show ?thesis using d1 d2 3(1) 4(1,3) by (auto simp: update_wires_def)
qed

text \<open>Writing a new wire, and rewriting a wire that is about to be freed.\<close>

lemma W_write:
  assumes "W_rel nw rd W c \<sigma> ev" "w < nw" "w \<notin> W"
  shows "\<exists>ev'. set_wire w v ev = Inr ev' \<and> wires_only ev ev' \<and> W_rel nw rd (insert w W) c (\<sigma>(w := v)) ev'"
proof -
  let ?ev = "ev\<lparr>wires := (wires ev)[w := v]\<rparr>"
  have "set_wire w v ev = Inr ?ev" using W_relD[OF assms(1,2)] by (simp add: set_wire_def)
  moreover have "W_rel nw rd (insert w W) c (\<sigma>(w := v)) ?ev"
    using assms by (auto simp: W_rel_def nth_list_update)
  ultimately show ?thesis by (simp add: wires_only_def)
qed

lemma W_rewrite:
  assumes "W_rel nw rd W c \<sigma> ev" "w < nw" "w \<in> W" "c w + 1 = rd w \<or> v = \<sigma> w" "c w < rd w"
  shows "\<exists>ev'. bindr (set_wire w v ev) (update_wire w) = Inr ev' \<and> wires_only ev ev' \<and>
     W_rel nw rd W (bump [w] c) \<sigma> ev'"
proof -
  let ?ev = "ev\<lparr>wires := (wires ev)[w := v]\<rparr>"
  let ?ev1 = "?ev\<lparr>waiting := (waiting ev)[w := rd w - (c w + 1)]\<rparr>"
  have s: "set_wire w v ev = Inr ?ev" using W_relD[OF assms(1,2)] by (simp add: set_wire_def)
  have d: "drop_reader w ?ev = Inr ?ev1"
    using W_relD(2,6)[OF assms(1,2)] assms(5) by (simp add: drop_reader_def dec64_def)
  have "\<exists>ev'. free_if_done w ?ev1 = Inr ev' \<and> wires_only ?ev1 ev' \<and> W_rel nw rd W (bump [w] c) \<sigma> ev'"
    by (rule W_free) (use assms in \<open>auto simp: W_rel_def nth_list_update\<close>)
  then obtain ev' where "free_if_done w ?ev1 = Inr ev'" "wires_only ?ev1 ev'" "W_rel nw rd W (bump [w] c) \<sigma> ev'"
    by blast
  moreover have "wires_only ev ?ev1" by (simp add: wires_only_def)
  ultimately show ?thesis using s d wires_only_trans by (auto simp: update_wire_def)
qed

end
