(* ===== verification/Online_Send.thy ===== *)
theory Online_Send
  imports Online_Wires
begin

text \<open>
  The first half of a layer on one server: what each interactive gate adds to the buffers, as a
  function of the server's share of its inputs and of the dealer's values.
\<close>

section \<open>What a gate contributes\<close>

definition left_factor :: "party \<Rightarrow> gate \<Rightarrow> vec \<Rightarrow> nat \<Rightarrow> ring" where
  "left_factor p f x i =
     (if gt f = EQZ then drop_bit (eqz_width f) (eqz_prepare p f x ! i)
      else if gt f = Bit2A then (if p = P0 then 1 else 0) * (x ! i AND 1)
      else x ! i)"

definition right_factor :: "nat \<Rightarrow> party \<Rightarrow> gate \<Rightarrow> vec \<Rightarrow> vec \<Rightarrow> nat \<Rightarrow> ring" where
  "right_factor n p f x y i =
     (if gt f = EQZ then eqz_prepare p f x ! i
      else if gt f = Bit2A then (if p = P0 then 0 else 1) * (x ! i AND 1)
      else if gt f = Compaction then one_ranks p n x ! i
      else y ! i)"

definition pair_part :: "nat \<Rightarrow> 'g dealer \<Rightarrow> party \<Rightarrow> (wire_id \<Rightarrow> vec) \<Rightarrow> gate \<Rightarrow> vec" where
  "pair_part n \<delta>N p \<sigma> f =
     (case d_triple \<delta>N p (mult_idx f) of (a, b, c) \<Rightarrow>
        interleave (triple_width n f)
          (\<lambda>i. mask (g_binary f) (left_factor p f (\<sigma> (in1_idx f)) i) (a ! i))
          (\<lambda>i. mask (g_binary f) (right_factor n p f (\<sigma> (in1_idx f)) (\<sigma> (in2_idx f)) i) (b ! i)))"

definition mul_part :: "nat \<Rightarrow> 'g dealer \<Rightarrow> party \<Rightarrow> (wire_id \<Rightarrow> vec) \<Rightarrow> gate \<Rightarrow> vec" where
  "mul_part n \<delta>N p \<sigma> f = (if triple_type (gt f) \<and> \<not> g_binary f then pair_part n \<delta>N p \<sigma> f else [])"

definition and_part :: "nat \<Rightarrow> 'g dealer \<Rightarrow> party \<Rightarrow> (wire_id \<Rightarrow> vec) \<Rightarrow> gate \<Rightarrow> vec" where
  "and_part n \<delta>N p \<sigma> f = (if triple_type (gt f) \<and> g_binary f then pair_part n \<delta>N p \<sigma> f else [])"

definition masked :: "'g dealer \<Rightarrow> party \<Rightarrow> (wire_id \<Rightarrow> vec) \<Rightarrow> gate \<Rightarrow> vec" where
  "masked \<delta>N p \<sigma> f = vadd (\<sigma> (in1_idx f)) (d_mask \<delta>N p (out_idx f))"

definition shuffle_part :: "'g dealer \<Rightarrow> party \<Rightarrow> (wire_id \<Rightarrow> vec) \<Rightarrow> gate \<Rightarrow> vec" where
  "shuffle_part \<delta>N p \<sigma> f =
     (if picks f then perm_apply (d_snd \<delta>N p (g_shuffle_idx f)) (masked \<delta>N p \<sigma> f)
      else if gt f = Unshuffle then perm_apply (perm_inverse (d_rcv \<delta>N p (g_shuffle_idx f))) (masked \<delta>N p \<sigma> f)
      else [])"

definition reveal_part :: "nat \<Rightarrow> (wire_id \<Rightarrow> vec) \<Rightarrow> gate \<Rightarrow> vec" where
  "reveal_part n \<sigma> f = (if gt f = Reveal then take n (\<sigma> (in1_idx f)) else [])"

section \<open>When a gate can run\<close>

text \<open>Static conditions on the fields, and the sizes of the inputs of the first half.\<close>

definition fields_ok :: "nat \<Rightarrow> gate \<Rightarrow> bool" where
  "fields_ok n f \<longleftrightarrow> gt f \<noteq> Mul \<and> (two_inputs (gt f) \<longrightarrow> in2_idx f \<noteq> 0) \<and>
     (triple_type (gt f) \<longrightarrow> triple_width n f \<le> n) \<and>
     (gt f = EQZ \<longrightarrow> g_layer f \<le> 4 \<and> g_binary f) \<and>
     (gt f = Compaction \<or> gt f = Bit2A \<longrightarrow> \<not> g_binary f)"

definition sizes_ok :: "nat \<Rightarrow> gate \<Rightarrow> (wire_id \<Rightarrow> vec) \<Rightarrow> bool" where
  "sizes_ok n f \<sigma> \<longleftrightarrow>
     (move_type (gt f) \<longrightarrow> length (\<sigma> (in1_idx f)) = n) \<and>
     (triple_type (gt f) \<longrightarrow> triple_width n f \<le> length (\<sigma> (in1_idx f))) \<and>
     (gt f = MulSIMD \<longrightarrow> triple_width n f \<le> length (\<sigma> (in2_idx f))) \<and>
     (gt f = Reveal \<longrightarrow> n \<le> length (\<sigma> (in1_idx f)))"

text \<open>The inputs have been written and their readers are not used up.\<close>

definition inputs_alive ::
  "nat \<Rightarrow> (nat \<Rightarrow> nat) \<Rightarrow> nat set \<Rightarrow> (nat \<Rightarrow> nat) \<Rightarrow> gate \<Rightarrow> bool" where
  "inputs_alive nw rd W c f \<longleftrightarrow>
     in1_idx f \<in> W \<and> in1_idx f < nw \<and> c (in1_idx f) < rd (in1_idx f) \<and>
     (two_inputs (gt f) \<longrightarrow> in2_idx f \<in> W \<and> in2_idx f < nw \<and>
        bump [in1_idx f, in2_idx f] c (in1_idx f) \<le> rd (in1_idx f) \<and>
        bump [in1_idx f, in2_idx f] c (in2_idx f) \<le> rd (in2_idx f)) \<and>
     (gt f = EQZ \<and> g_layer f = 0 \<longrightarrow> rd (in1_idx f) = 1)"

text \<open>What the dealer's walk says about the gate.\<close>

definition dealt ::
  "'g prg_ops \<Rightarrow> nat \<Rightarrow> nat \<Rightarrow> nat \<Rightarrow> nat set \<Rightarrow> 'g dealer \<Rightarrow> gate \<Rightarrow> 'g dealer \<Rightarrow> 'g dealer \<Rightarrow> bool" where
  "dealt P n K M done \<delta>N f \<delta> \<delta>' \<longleftrightarrow>
     (\<forall>p. p \<noteq> D \<longrightarrow>
        (move_type (gt f) \<longrightarrow> send_step P n f p \<delta> \<delta>' \<and> recv_step P n f p \<delta> \<delta>' \<and>
           d_mask \<delta>N p (out_idx f) = d_mask \<delta>' p (out_idx f) \<and> d_B \<delta>N p (out_idx f) = d_B \<delta>' p (out_idx f)) \<and>
        (\<exists>rest. d_corr \<delta>N p = d_corr \<delta>' p @ rest)) \<and>
     (move_type (gt f) \<longrightarrow> g_shuffle_idx f < K \<and> settled n \<delta>N \<delta> \<delta>' (g_shuffle_idx f) \<and> corrected f \<delta>N) \<and>
     (\<not> picks f \<longrightarrow> chosen \<delta>' = chosen \<delta>) \<and>
     (\<not> move_type (gt f) \<longrightarrow> d_send \<delta>' = d_send \<delta> \<and> d_recv \<delta>' = d_recv \<delta> \<and> d_corr \<delta>' = d_corr \<delta>) \<and>
     (triple_type (gt f) \<longrightarrow> mult_idx f < M \<and> mult_idx f \<in> done \<and>
        triple_ok (triple_width n f) (g_binary f) (d_triple \<delta>N P0 (mult_idx f)) (d_triple \<delta>N P1 (mult_idx f)))"

text \<open>The fields of an evaluator that the first half of a layer leaves alone, and the four buffers.\<close>

definition send_frame :: "'g evaluator \<Rightarrow> 'g evaluator \<Rightarrow> bool" where
  "send_frame ev ev' \<longleftrightarrow> ev_id ev' = ev_id ev \<and> ev_size ev' = ev_size ev \<and> ev_nodes ev' = ev_nodes ev \<and>
     input_to_val ev' = input_to_val ev \<and> ev_output ev' = ev_output ev \<and> mul_pos ev' = mul_pos ev \<and>
     and_pos ev' = and_pos ev \<and> shuffle_pos ev' = shuffle_pos ev \<and> reveal_pos ev' = reveal_pos ev"

definition appended ::
  "nat \<Rightarrow> 'g dealer \<Rightarrow> party \<Rightarrow> (wire_id \<Rightarrow> vec) \<Rightarrow> gate list \<Rightarrow> 'g evaluator \<Rightarrow> 'g evaluator \<Rightarrow> bool" where
  "appended n \<delta>N p \<sigma> fs ev ev' \<longleftrightarrow>
     mul_vals ev' = mul_vals ev @ concat (map (mul_part n \<delta>N p \<sigma>) fs) \<and>
     and_vals ev' = and_vals ev @ concat (map (and_part n \<delta>N p \<sigma>) fs) \<and>
     shuffle_vals ev' = shuffle_vals ev @ concat (map (shuffle_part \<delta>N p \<sigma>) fs) \<and>
     reveal_vals ev' = reveal_vals ev @ concat (map (reveal_part n \<sigma>) fs)"

lemma no_parts:
  assumes "\<not> interactive f" shows "mul_part n \<delta>N p \<sigma> f = []" "and_part n \<delta>N p \<sigma> f = []"
    "shuffle_part \<delta>N p \<sigma> f = []" "reveal_part n \<sigma> f = []"
  using assms by (auto simp: interactive_def interactive_type_def mul_part_def and_part_def shuffle_part_def
      reveal_part_def triple_type_def picks_def)

lemma send_result:
  assumes "wires_only ev1 ev'" "send_frame ev ev1" "appended n \<delta>N p \<sigma> fs ev ev1"
  shows "send_frame ev ev'" "appended n \<delta>N p \<sigma> fs ev ev'" "ev_data ev' = ev_data ev1"
  using assms(2,3) wires_onlyD[OF assms(1)] by (simp_all add: send_frame_def appended_def)

section \<open>Moves\<close>

lemma perm_ok_need: "perm_ok n p \<Longrightarrow> need_indices n n p m = m"
  using perm_ok_fits[of n p] perm_ok_length[of n p] by (simp add: need_indices_def)

lemma send_move:
  assumes "ev_id ev = p" "ev_size ev = n" "W_rel nw rd W c \<sigma> ev" "O_rel p n K M done \<delta>N \<delta>s \<delta>r g01 (ev_data ev)"
    "inputs_alive nw rd W c f" "sizes_ok n f \<sigma>" "dealt P n K M done \<delta>N f \<delta>s \<delta>s'" "move_type (gt f)" "0 < n"
    "gt f = Unshuffle \<longrightarrow> chosen \<delta>r (g_shuffle_idx f)"
  shows "\<exists>ev'. evaluate_send_gate P ev f = Inr ev' \<and> W_rel nw rd W (bump (send_drops f) c) \<sigma> ev' \<and>
     O_rel p n K M done \<delta>N \<delta>s' \<delta>r g01 (ev_data ev') \<and> send_frame ev ev' \<and> appended n \<delta>N p \<sigma> [f] ev ev'"
proof -
  let ?i = "g_shuffle_idx f" and ?x = "\<sigma> (in1_idx f)" and ?R = "d_mask \<delta>N p (out_idx f)"
  have p: "p \<noteq> D" using assms(4) by (simp add: O_rel_def)
  have st: "send_step P n f p \<delta>s \<delta>s'" "d_mask \<delta>s' p (out_idx f) = ?R" "?i < K" "settled n \<delta>N \<delta>s \<delta>s' ?i"
    using assms(7,8) p by (auto simp: dealt_def)
  have lR: "length ?R = n"
    using st(1,2) by (simp add: send_step_def split_beta Let_def)
  have lx: "length ?x = n" using assms(6,8) by (simp add: sizes_ok_def)
  have in1: "in1_idx f < nw" "in1_idx f \<in> W" "c (in1_idx f) < rd (in1_idx f)"
    using assms(5) by (simp_all add: inputs_alive_def)
  have w: "wire_at (in1_idx f) ev = Inr ?x" by (rule W_read[OF assms(3) in1(1,2)]) (use in1(3) in simp)
  have ok: "perm_ok n (d_snd \<delta>N p ?i)" "perm_ok n (d_rcv \<delta>N p ?i)" using settledD[OF st(4) p] by simp_all
  have sd: "send_drops f = [in1_idx f]" using assms(8) by (simp add: send_drops_def)
  have fin: "\<exists>ev'. update_wire (in1_idx f) (ev\<lparr>ev_data := s2, shuffle_vals := shuffle_vals ev @ shuffle_part \<delta>N p \<sigma> f\<rparr>) = Inr ev' \<and>
     W_rel nw rd W (bump (send_drops f) c) \<sigma> ev' \<and> O_rel p n K M done \<delta>N \<delta>s' \<delta>r g01 (ev_data ev') \<and>
     send_frame ev ev' \<and> appended n \<delta>N p \<sigma> [f] ev ev'"
    if "O_rel p n K M done \<delta>N \<delta>s' \<delta>r g01 s2" for s2
  proof -
    let ?ev1 = "ev\<lparr>ev_data := s2, shuffle_vals := shuffle_vals ev @ shuffle_part \<delta>N p \<sigma> f\<rparr>"
    have W1: "W_rel nw rd W c \<sigma> ?ev1" using assms(3) by (simp add: W_rel_def)
    obtain ev' where ev': "update_wire (in1_idx f) ?ev1 = Inr ev'" "wires_only ?ev1 ev'"
      "W_rel nw rd W (bump [in1_idx f] c) \<sigma> ev'"
      using W_update[OF W1 in1(1,3)] by blast
    have "send_frame ev ?ev1" by (simp add: send_frame_def)
    moreover have "appended n \<delta>N p \<sigma> [f] ev ?ev1"
      using assms(8) by (auto simp: appended_def mul_part_def and_part_def reveal_part_def move_type_def triple_type_def)
    ultimately show ?thesis
      using ev' send_result[OF ev'(2)] that sd by auto
  qed
  show ?thesis
  proof (cases "picks f")
    case True
    obtain s1 s2 where s: "from_D_send (draw_vec P n) (ev_data ev) = Inr (?R, s1)"
      "send_perm P ?i s1 = Inr (d_snd \<delta>N p ?i, s2)" "O_rel p n K M done \<delta>N \<delta>s' \<delta>r g01 s2"
      using O_send_pick[OF assms(4) st(1) True st(3,4) assms(9)] st(2) by auto
    have "scatter n (\<lambda>j. unat (d_snd \<delta>N p ?i ! j)) (\<lambda>j. ?x ! j + ?R ! j) (replicate n 0) = shuffle_part \<delta>N p \<sigma> f"
      using shuffle_send_leg[OF ok(1) lx lR] True by (simp add: shuffle_part_def masked_def)
    then have "evaluate_send_gate P ev f =
        update_wire (in1_idx f) (ev\<lparr>ev_data := s2, shuffle_vals := shuffle_vals ev @ shuffle_part \<delta>N p \<sigma> f\<rparr>)"
      using True s(1,2) w lx assms(2) perm_ok_need[OF ok(1)]
      by (auto simp: evaluate_send_gate_def send_shuffle_def picks_def Let_def)
    then show ?thesis using fin[OF s(3)] by simp
  next
    case False
    then have un: "gt f = Unshuffle" using assms(8) by (simp add: move_picks)
    have ch: "chosen \<delta>s' = chosen \<delta>s" "chosen \<delta>r ?i" using assms(7,10) False un by (auto simp: dealt_def)
    obtain s1 where s: "from_D_send (draw_vec P n) (ev_data ev) = Inr (?R, s1)"
      "at_res (rcv_tab p s1) ?i = Inr (d_rcv \<delta>N p ?i)" "O_rel p n K M done \<delta>N \<delta>s' \<delta>r g01 s1"
      using O_send_undo[OF assms(4) st(1) False st(3) ch] st(2) by auto
    have "map (\<lambda>i. ?x ! unat (d_rcv \<delta>N p ?i ! i) + ?R ! unat (d_rcv \<delta>N p ?i ! i)) [0..<n] = shuffle_part \<delta>N p \<sigma> f"
      using unshuffle_send_leg[OF ok(2) lx lR] False un by (simp add: shuffle_part_def masked_def)
    then have "evaluate_send_gate P ev f =
        update_wire (in1_idx f) (ev\<lparr>ev_data := s1, shuffle_vals := shuffle_vals ev @ shuffle_part \<delta>N p \<sigma> f\<rparr>)"
      using un s(1,2) w lx assms(1,2) perm_ok_need[OF ok(2)]
      by (simp add: evaluate_send_gate_def send_unshuffle_def rcv_tab_def Let_def cong: if_cong)
    then show ?thesis using fin[OF s(3)] by simp
  qed
qed

section \<open>Products\<close>

lemma triple_okD:
  assumes "triple_ok m b t0 t1" "p = P0 \<and> t = t0 \<or> p = P1 \<and> t = t1" "t = (u, v, w)"
  shows "length u = m" "length v = m" "length w = m"
  using assms by (auto simp: triple_ok_def)

lemma dealt_triple:
  assumes "dealt P n K M done \<delta>N f \<delta> \<delta>'" "triple_type (gt f)" "O_rel p n K M done \<delta>N \<delta>s \<delta>r g01 s"
    "d_triple \<delta>N p (mult_idx f) = (u, v, w)"
  shows "load_triples_sized (mult_idx f) (triple_width n f) s = Inr ((u, v, w), s)"
    "length u = triple_width n f" "length v = triple_width n f" "length w = triple_width n f"
proof -
  have "p = P0 \<or> p = P1" using assms(3) by (cases p) (auto simp: O_rel_def)
  then have l: "length u = triple_width n f" "length v = triple_width n f" "length w = triple_width n f"
    using assms(1,2,4) triple_okD[of "triple_width n f" "g_binary f" _ _ p "(u, v, w)"] unfolding dealt_def by metis+
  then show "length u = triple_width n f" "length v = triple_width n f" "length w = triple_width n f"
    by simp_all
  show "load_triples_sized (mult_idx f) (triple_width n f) s = Inr ((u, v, w), s)"
    using O_load[OF assms(3) _ _ assms(4) l] assms(1,2) by (simp add: dealt_def)
qed

lemma send_triple:
  assumes "ev_id ev = p" "ev_size ev = n" "W_rel nw rd W c \<sigma> ev" "O_rel p n K M done \<delta>N \<delta>s \<delta>r g01 (ev_data ev)"
    "inputs_alive nw rd W c f" "sizes_ok n f \<sigma>" "dealt P n K M done \<delta>N f \<delta>s \<delta>s'" "triple_type (gt f)"
    "fields_ok n f"
  shows "\<exists>ev'. evaluate_send_gate P ev f = Inr ev' \<and> W_rel nw rd W (bump (send_drops f) c) \<sigma> ev' \<and>
     ev_data ev' = ev_data ev \<and> send_frame ev ev' \<and> appended n \<delta>N p \<sigma> [f] ev ev'"
proof -
  let ?x = "\<sigma> (in1_idx f)" and ?y = "\<sigma> (in2_idx f)" and ?m = "triple_width n f"
  obtain u v w where t: "d_triple \<delta>N p (mult_idx f) = (u, v, w)" by (metis prod_cases3)
  note T = dealt_triple[OF assms(7,8,4) t]
  have sz: "st_size (ev_data ev) = n" using assms(4) by (simp add: O_rel_def)
  have in1: "in1_idx f < nw" "in1_idx f \<in> W" "c (in1_idx f) < rd (in1_idx f)"
    using assms(5) by (simp_all add: inputs_alive_def)
  have wx: "wire_at (in1_idx f) ev = Inr ?x" by (rule W_read[OF assms(3) in1(1,2)]) (use in1(3) in simp)
  have lx: "?m \<le> length ?x" using assms(6,8) by (simp add: sizes_ok_def)
  let ?ev1 = "push_vals (g_binary f) (pair_part n \<delta>N p \<sigma> f) ev"
  have push: "send_frame ev ?ev1" "appended n \<delta>N p \<sigma> [f] ev ?ev1" "W_rel nw rd W c \<sigma> ?ev1"
    "ev_data ?ev1 = ev_data ev"
    using assms(3,8) by (auto simp: push_vals_def send_frame_def appended_def mul_part_def and_part_def
        shuffle_part_def reveal_part_def picks_def triple_type_def W_rel_def)
  have pp: "pair_part n \<delta>N p \<sigma> f = interleave ?m (\<lambda>i. mask (g_binary f) (left_factor p f ?x i) (u ! i))
      (\<lambda>i. mask (g_binary f) (right_factor n p f ?x ?y i) (v ! i))"
    by (simp add: pair_part_def t)
  have fin: "\<exists>ev'. Inr ev2 = Inr ev' \<and> W_rel nw rd W (bump (send_drops f) c) \<sigma> ev' \<and>
     ev_data ev' = ev_data ev \<and> send_frame ev ev' \<and> appended n \<delta>N p \<sigma> [f] ev ev'"
    if "wires_only ?ev1 ev2" "W_rel nw rd W (bump (send_drops f) c) \<sigma> ev2" for ev2
    using that send_result[OF that(1) push(1,2)] push(4) by simp
  have idem: "ev\<lparr>ev_data := ev_data ev\<rparr> = ev" by simp
  consider (co) "gt f = Compaction" | (mu) "gt f = MulSIMD" | (eq) "gt f = EQZ" | (bi) "gt f = Bit2A"
    using assms(8) by (auto simp: triple_type_def)
  then show ?thesis
  proof cases
    case co
    then have m: "?m = n" "\<not> g_binary f" using assms(9) by (simp_all add: triple_width_def fields_ok_def)
    have "evaluate_send_gate P ev f = Inr ?ev1"
      using co m T wx lx assms(1,2) sz
      by (simp add: evaluate_send_gate_def send_compaction_def load_triples_def pp push_vals_def mask_def
          left_factor_def right_factor_def Let_def)
    then show ?thesis using fin[of ?ev1] push(3) co by (simp add: wires_only_def send_drops_def move_type_def product_type_def)
  next
    case mu
    then have m: "?m = g_size f" by (simp add: triple_width_def)
    have in2: "in2_idx f < nw" "in2_idx f \<in> W" "bump [in1_idx f, in2_idx f] c (in1_idx f) \<le> rd (in1_idx f)"
      "bump [in1_idx f, in2_idx f] c (in2_idx f) \<le> rd (in2_idx f)"
      using assms(5) mu by (simp_all add: inputs_alive_def two_inputs_def product_type_def del: bump_simps)
    have "c (in2_idx f) < rd (in2_idx f)" using in2(4) by (simp split: if_splits)
    then have wy: "wire_at (in2_idx f) ev = Inr ?y" using W_read[OF assms(3) in2(1,2)] by simp
    have ly: "?m \<le> length ?y" using assms(6) mu by (simp add: sizes_ok_def)
    obtain ev2 where 2: "update_wires (in1_idx f) (in2_idx f) ?ev1 = Inr ev2" "wires_only ?ev1 ev2"
      "W_rel nw rd W (bump [in1_idx f, in2_idx f] c) \<sigma> ev2"
      using W_updates[OF push(3) in1(1) in2(1,3,4)] by blast
    have "evaluate_send_gate P ev f = Inr ev2"
      using mu m T wx wy lx ly 2(1)
      by (simp add: evaluate_send_gate_def send_mul_SIMD_def send_product_def pp
          left_factor_def right_factor_def Let_def)
    then show ?thesis using fin[OF 2(2)] 2(3) mu by (simp add: send_drops_def move_type_def product_type_def del: bump_simps)
  next
    case eq
    then have m: "?m = g_size f" "g_binary f" "g_layer f \<le> 4" using assms(9) by (simp_all add: triple_width_def fields_ok_def)
    have rw: "c (in1_idx f) + 1 = rd (in1_idx f) \<or> eqz_prepare p f ?x = ?x"
      using assms(5) eq in1(3) by (cases "g_layer f = 0") (simp_all add: inputs_alive_def eqz_prepare_def)
    obtain ev2 where 2: "bindr (set_wire (in1_idx f) (eqz_prepare p f ?x) ?ev1) (update_wire (in1_idx f)) = Inr ev2"
      "wires_only ?ev1 ev2" "W_rel nw rd W (bump [in1_idx f] c) \<sigma> ev2"
      using W_rewrite[OF push(3) in1(1,2) rw in1(3)] by blast
    have "evaluate_send_gate P ev f = Inr ev2"
      using eq m T wx lx assms(1) 2(1)
      by (simp add: evaluate_send_gate_def send_eqz_def pp push_vals_def mask_def left_factor_def right_factor_def Let_def)
    then show ?thesis using fin[OF 2(2)] 2(3) eq by (simp add: send_drops_def)
  next
    case bi
    then have m: "?m = g_size f" "\<not> g_binary f" using assms(9) by (simp_all add: triple_width_def fields_ok_def)
    have "evaluate_send_gate P ev f = Inr ?ev1"
      using bi m T wx lx assms(1)
      by (simp add: evaluate_send_gate_def send_bit2A_def pp push_vals_def mask_def left_factor_def right_factor_def Let_def)
    then show ?thesis using fin[of ?ev1] push(3) bi by (simp add: wires_only_def send_drops_def move_type_def product_type_def)
  qed
qed

lemma send_reveal_gate:
  assumes "ev_size ev = n" "W_rel nw rd W c \<sigma> ev" "inputs_alive nw rd W c f" "sizes_ok n f \<sigma>" "gt f = Reveal"
  shows "\<exists>ev'. evaluate_send_gate P ev f = Inr ev' \<and> W_rel nw rd W (bump (send_drops f) c) \<sigma> ev' \<and>
     ev_data ev' = ev_data ev \<and> send_frame ev ev' \<and> appended n \<delta>N p \<sigma> [f] ev ev'"
proof -
  have in1: "in1_idx f < nw" "in1_idx f \<in> W" "c (in1_idx f) < rd (in1_idx f)"
    using assms(3) by (simp_all add: inputs_alive_def)
  have "wire_at (in1_idx f) ev = Inr (\<sigma> (in1_idx f))" by (rule W_read[OF assms(2) in1(1,2)]) (use in1(3) in simp)
  then show ?thesis
    using assms by (simp add: evaluate_send_gate_def send_reveal_def sizes_ok_def send_drops_def move_type_def
        product_type_def send_frame_def appended_def mul_part_def and_part_def shuffle_part_def reveal_part_def
        triple_type_def picks_def W_rel_def)
qed

section \<open>A layer\<close>

text \<open>One gate of either sort.\<close>

lemma send_gate:
  assumes "ev_id ev = p" "ev_size ev = n" "W_rel nw rd W c \<sigma> ev" "O_rel p n K M done \<delta>N \<delta>s \<delta>r g01 (ev_data ev)"
    "interactive f \<longrightarrow> inputs_alive nw rd W c f \<and> sizes_ok n f \<sigma>" "dealt P n K M done \<delta>N f \<delta>s \<delta>s'"
    "fields_ok n f" "0 < n" "gt f = Unshuffle \<longrightarrow> chosen \<delta>r (g_shuffle_idx f)"
  shows "\<exists>ev'. evaluate_send_gate P ev f = Inr ev' \<and> W_rel nw rd W (bump (send_drops f) c) \<sigma> ev' \<and>
     O_rel p n K M done \<delta>N \<delta>s' \<delta>r g01 (ev_data ev') \<and> send_frame ev ev' \<and> appended n \<delta>N p \<sigma> [f] ev ev'"
proof -
  have skip: "O_rel p n K M done \<delta>N \<delta>s' \<delta>r g01 (ev_data ev)" if "\<not> move_type (gt f)"
    using assms(6) that by (intro O_send_skip[OF assms(4)]) (auto simp: dealt_def move_picks)
  consider (mv) "move_type (gt f)" "interactive f" | (tr) "triple_type (gt f)" "\<not> move_type (gt f)" "interactive f"
    | (re) "gt f = Reveal" "\<not> move_type (gt f)" "interactive f"
    | (no) "\<not> interactive f" "\<not> move_type (gt f)" "evaluate_send_gate P ev f = Inr ev" "send_drops f = []"
    using assms(7) by (cases "gt f") (auto simp: move_type_def triple_type_def interactive_def interactive_type_def
        evaluate_send_gate_def send_drops_def product_type_def fields_ok_def)
  then show ?thesis
  proof cases
    case mv
    then show ?thesis using send_move[OF assms(1-4) _ _ assms(6) mv(1) assms(8,9)] assms(5) by blast
  next
    case tr
    then show ?thesis using send_triple[OF assms(1-4) _ _ assms(6) tr(1) assms(7)] assms(5) skip by fastforce
  next
    case re
    then show ?thesis using send_reveal_gate[OF assms(2,3) _ _ re(1)] assms(5) skip by fastforce
  next
    case no
    then show ?thesis using assms(3) skip by (simp add: send_frame_def appended_def no_parts)
  qed
qed

end
