(* ===== verification/Online_Recv.thy ===== *)
theory Online_Recv
  imports Online_Send
begin

text \<open>
  The second half of a layer on one server: what every gate computes from the opened buffers, the
  server's shares and the dealer's values, and that the evaluator computes it.
\<close>

section \<open>The value of the output wire\<close>

text \<open>The share of a public vector, and the common stream behind it.\<close>

definition const_share :: "'g prg_ops \<Rightarrow> nat \<Rightarrow> gate \<Rightarrow> party \<Rightarrow> 'g \<Rightarrow> vec" where
  "const_share P n f p g =
     (let vals = padded n (gvals f); share = fst (draw_vec P (length vals) g)
      in if p = P0 then vsub vals share else share)"

definition const_next :: "'g prg_ops \<Rightarrow> nat \<Rightarrow> gate \<Rightarrow> 'g \<Rightarrow> 'g" where
  "const_next P n f g =
     (if gt f = SetConstVecSIMD then snd (draw_vec P (length (padded n (gvals f))) g) else g)"

text \<open>Element \<open>i\<close> of a product gate, from the opened factors \<open>d\<close>.\<close>

definition product_at :: "nat \<Rightarrow> 'g dealer \<Rightarrow> party \<Rightarrow> gate \<Rightarrow> vec \<Rightarrow> nat \<Rightarrow> ring" where
  "product_at n \<delta>N p f d i =
     (case d_triple \<delta>N p (mult_idx f) of (a, b, c) \<Rightarrow> products (g_binary f) p (triple_width n f) d a b c i)"

definition triple_value :: "nat \<Rightarrow> 'g dealer \<Rightarrow> party \<Rightarrow> (wire_id \<Rightarrow> vec) \<Rightarrow> gate \<Rightarrow> vec \<Rightarrow> vec" where
  "triple_value n \<delta>N p \<sigma> f d =
     (let x = \<sigma> (in1_idx f); m = triple_width n f; z = product_at n \<delta>N p f d in
      if gt f = Compaction then map (\<lambda>i. let y = z i + zero_ranks p n x ! i in if p = P0 then y - 1 else y) [0..<n]
      else if gt f = MulSIMD then pad n m z
      else if gt f = EQZ then pad n m (\<lambda>i. if g_layer f = 4 then lowest_bit (z i) else z i)
      else pad n m (\<lambda>i. (x ! i AND 1) - 2 * z i))"

definition move_value :: "'g dealer \<Rightarrow> party \<Rightarrow> gate \<Rightarrow> vec \<Rightarrow> vec" where
  "move_value \<delta>N p f t =
     vsub (perm_apply (if picks f then d_rcv \<delta>N p (g_shuffle_idx f)
                       else perm_inverse (d_snd \<delta>N p (g_shuffle_idx f))) t) (d_B \<delta>N p (out_idx f))"

definition local_value ::
  "nat \<Rightarrow> nat \<Rightarrow> party \<Rightarrow> (wire_id \<Rightarrow> vec) \<Rightarrow> gate \<Rightarrow> vec res" where
  "local_value n k p \<sigma> f =
     (let x = \<sigma> (in1_idx f); y = \<sigma> (in2_idx f) in
      if permute_type (gt f) then permute_op n f x y
      else if linear2_type (gt f) then linear2_op n f x y
      else linear_op n k f p x)"

text \<open>Types the evaluator has a case for.\<close>

definition local_type :: "gtype \<Rightarrow> bool" where
  "local_type t \<longleftrightarrow> permute_type t \<or> linear2_type t \<or> linear_type t"

definition known_type :: "gtype \<Rightarrow> bool" where
  "known_type t \<longleftrightarrow> t = Input \<or> t = Output \<or> move_type t \<or> triple_type t \<or> t = Reveal \<or> local_type t \<or>
     t = SetConstVecSIMD \<or> t = ColumnSumsToNodes"

section \<open>The opened buffers\<close>

text \<open>What the whole layer leaves in the buffers, gate by gate, and the positions after \<open>dn\<close>.\<close>

record parts =
  p_mul :: "gate \<Rightarrow> vec"
  p_and :: "gate \<Rightarrow> vec"
  p_shuffle :: "gate \<Rightarrow> vec"
  p_reveal :: "gate \<Rightarrow> vec"

definition buf_rel :: "(gate \<Rightarrow> vec) \<Rightarrow> gate list \<Rightarrow> gate list \<Rightarrow> vec \<Rightarrow> nat \<Rightarrow> bool" where
  "buf_rel part dn fs buf pos \<longleftrightarrow> buf = concat (map part (dn @ fs)) \<and>
     pos = length (concat (map part dn)) mod length buf"

definition B_rel :: "parts \<Rightarrow> gate list \<Rightarrow> gate list \<Rightarrow> 'g evaluator \<Rightarrow> bool" where
  "B_rel pt dn fs ev \<longleftrightarrow> buf_rel (p_mul pt) dn fs (mul_vals ev) (mul_pos ev) \<and>
     buf_rel (p_and pt) dn fs (and_vals ev) (and_pos ev) \<and>
     buf_rel (p_shuffle pt) dn fs (shuffle_vals ev) (shuffle_pos ev) \<and>
     buf_rel (p_reveal pt) dn fs (reveal_vals ev) (reveal_pos ev)"

lemma buf_read:
  assumes "buf_rel part dn (f # fs) buf pos" "length (part f) = m"
  shows "\<exists>pos'. read_online buf m pos = Inr (part f, pos') \<and> buf_rel part (dn @ [f]) fs buf pos'"
proof -
  let ?u = "concat (map part dn)" and ?L = "length buf"
  have b: "buf = ?u @ part f @ concat (map part fs)" and pos: "pos = length ?u mod ?L"
    using assms(1) by (simp_all add: buf_rel_def)
  have L: "?L = length ?u + m + length (concat (map part fs))"
    using arg_cong[OF b, of length] assms(2) by simp
  show ?thesis
  proof (cases "length ?u = ?L")
    case True
    then have m: "m = 0" "part f = []" using L assms(2) by simp_all
    note m = m trans[OF pos[unfolded True] mod_self]
    have "read_online buf m pos = Inr (part f, 0)" using m by (simp add: read_online_def)
    moreover have "buf_rel part (dn @ [f]) fs buf 0"
      using assms(1) m(2,3) pos by (simp add: buf_rel_def)
    ultimately show ?thesis by blast
  next
    case False
    then have p: "pos = length ?u" using L pos by simp
    have tk: "take m (drop pos buf) = part f" unfolding p by (subst b) (simp add: assms(2))
    have pos': "(if pos + m \<ge> ?L then 0 else pos + m) = (length ?u + m) mod ?L"
    proof (cases "length ?u + m = ?L")
      case True
      then show ?thesis using p by simp
    next
      case False
      then have "length ?u + m < ?L" using L by linarith
      then show ?thesis using p by simp
    qed
    have "m \<le> ?L" "pos + m \<le> ?L" using L p by simp_all
    then have "read_online buf m pos = Inr (part f, (length ?u + m) mod ?L)"
      unfolding read_online_def Let_def tk pos' by simp
    moreover have "buf_rel part (dn @ [f]) fs buf ((length ?u + m) mod ?L)"
      using assms by (simp add: buf_rel_def)
    ultimately show ?thesis by blast
  qed
qed

lemma buf_skip:
  assumes "buf_rel part dn (f # fs) buf pos" "part f = []"
  shows "buf_rel part (dn @ [f]) fs buf pos"
  using assms by (simp add: buf_rel_def)

section \<open>Frames\<close>

text \<open>The fields that the second half of a layer leaves alone.\<close>

definition recv_frame :: "'g evaluator \<Rightarrow> 'g evaluator \<Rightarrow> bool" where
  "recv_frame ev ev' \<longleftrightarrow> ev_id ev' = ev_id ev \<and> ev_size ev' = ev_size ev \<and> ev_nodes ev' = ev_nodes ev \<and>
     input_to_val ev' = input_to_val ev"

lemma wires_only_recv:
  assumes "wires_only ev ev'"
  shows "recv_frame ev ev'" "B_rel pt dn fs ev' = B_rel pt dn fs ev" "ev_data ev' = ev_data ev"
    "ev_output ev' = ev_output ev"
  using wires_onlyD[OF assms] by (simp_all add: recv_frame_def B_rel_def)

text \<open>Writing the output, then counting the readers.\<close>

lemma write_drop1:
  assumes "W_rel nw rd W c \<sigma> ev" "w < nw" "w \<notin> W" "v < nw" "c v < rd v"
  shows "\<exists>ev'. bindr (set_wire w x ev) (update_wire v) = Inr ev' \<and> wires_only ev ev' \<and>
     W_rel nw rd (insert w W) (bump [v] c) (\<sigma>(w := x)) ev'"
proof -
  obtain ev1 where 1: "set_wire w x ev = Inr ev1" "wires_only ev ev1" "W_rel nw rd (insert w W) c (\<sigma>(w := x)) ev1"
    using W_write[OF assms(1-3)] by blast
  obtain ev2 where 2: "update_wire v ev1 = Inr ev2" "wires_only ev1 ev2"
    "W_rel nw rd (insert w W) (bump [v] c) (\<sigma>(w := x)) ev2"
    using W_update[OF 1(3) assms(4,5)] by blast
  show ?thesis using 1(1) 2(1,3) wires_only_trans[OF 1(2) 2(2)] by simp
qed

lemma write_drop2:
  assumes "W_rel nw rd W c \<sigma> ev" "w < nw" "w \<notin> W" "v1 < nw" "v2 < nw"
    "bump [v1, v2] c v1 \<le> rd v1" "bump [v1, v2] c v2 \<le> rd v2"
  shows "\<exists>ev'. bindr (set_wire w x ev) (update_wires v1 v2) = Inr ev' \<and> wires_only ev ev' \<and>
     W_rel nw rd (insert w W) (bump [v1, v2] c) (\<sigma>(w := x)) ev'"
proof -
  obtain ev1 where 1: "set_wire w x ev = Inr ev1" "wires_only ev ev1" "W_rel nw rd (insert w W) c (\<sigma>(w := x)) ev1"
    using W_write[OF assms(1-3)] by blast
  obtain ev2 where 2: "update_wires v1 v2 ev1 = Inr ev2" "wires_only ev1 ev2"
    "W_rel nw rd (insert w W) (bump [v1, v2] c) (\<sigma>(w := x)) ev2"
    using W_updates[OF 1(3) assms(4-7)] by blast
  show ?thesis using 1(1) 2(1,3) wires_only_trans[OF 1(2) 2(2)] by (simp del: bump_simps)
qed

section \<open>Local gates\<close>

lemma out_at: "W_rel nw rd W c \<sigma> ev \<Longrightarrow> w < nw \<Longrightarrow> w \<notin> W \<Longrightarrow> wire_at w ev = Inr []"
  by (simp add: wire_at_def W_rel_def)

lemma recv_local:
  assumes "ev_id ev = p" "ev_size ev = n" "ev_nodes ev = k" "W_rel nw rd W c \<sigma> ev" "inputs_alive nw rd W c f"
    "out_idx f < nw" "out_idx f \<notin> W" "local_type (gt f)" "local_value n k p \<sigma> f = Inr v"
  shows "\<exists>ev'. evaluate_recv_gate P ev f = Inr ev' \<and> wires_only ev ev' \<and>
     W_rel nw rd (insert (out_idx f) W) (bump (recv_drops f) c) (\<sigma>(out_idx f := v)) ev'"
proof -
  let ?x = "\<sigma> (in1_idx f)" and ?y = "\<sigma> (in2_idx f)"
  have in1: "in1_idx f < nw" "in1_idx f \<in> W" "c (in1_idx f) < rd (in1_idx f)"
    using assms(5) by (simp_all add: inputs_alive_def)
  have wx: "wire_at (in1_idx f) ev = Inr ?x" by (rule W_read[OF assms(4) in1(1,2)]) (use in1(3) in simp)
  note wo = out_at[OF assms(4,6,7)]
  show ?thesis
  proof (cases "linear_type (gt f)")
    case True
    then have n2: "\<not> permute_type (gt f)" "\<not> linear2_type (gt f)"
      by (auto simp: linear_type_def permute_type_def linear2_type_def)
    have e: "evaluate_recv_gate P ev f = local1 (linear_op n k f p) f ev"
      using True assms(1-3) unfolding linear_type_def
      by (elim disjE) (simp_all add: evaluate_recv_gate_def linear_op_def[abs_def] Let_def)
    have "linear_op n k f p ?x = Inr v" using assms(9) n2 by (simp add: local_value_def)
    then have "evaluate_recv_gate P ev f = bindr (set_wire (out_idx f) v ev) (update_wire (in1_idx f))"
      by (simp add: e local1_def wo wx)
    moreover have "recv_drops f = [in1_idx f]" using True by (simp add: recv_drops_def)
    ultimately show ?thesis using write_drop1[OF assms(4,6,7) in1(1,3), of v] by simp
  next
    case False
    then have t: "permute_type (gt f) \<or> linear2_type (gt f)" using assms(8) by (auto simp: local_type_def)
    then have in2: "in2_idx f < nw" "in2_idx f \<in> W" "bump [in1_idx f, in2_idx f] c (in1_idx f) \<le> rd (in1_idx f)"
      "bump [in1_idx f, in2_idx f] c (in2_idx f) \<le> rd (in2_idx f)"
      using assms(5) by (auto simp: inputs_alive_def two_inputs_def simp del: bump_simps)
    have "c (in2_idx f) < rd (in2_idx f)" using in2(4) by (simp split: if_splits)
    then have wy: "wire_at (in2_idx f) ev = Inr ?y" using W_read[OF assms(4) in2(1,2)] by simp
    define h where "h = (if permute_type (gt f) then permute_op n f else linear2_op n f)"
    have e: "evaluate_recv_gate P ev f = local2 h f ev"
      using t assms(1-3) unfolding linear2_type_def permute_type_def h_def
      by (elim disjE) (simp_all add: evaluate_recv_gate_def linear2_op_def[abs_def] permute_op_def[abs_def] permute_type_def Let_def)
    have "h ?x ?y = Inr v" using assms(9) t by (auto simp: local_value_def h_def)
    then have "evaluate_recv_gate P ev f = bindr (set_wire (out_idx f) v ev) (update_wires (in1_idx f) (in2_idx f))"
      by (simp add: e local2_def wo wx wy)
    moreover have "recv_drops f = [in1_idx f, in2_idx f]"
      using t by (auto simp: recv_drops_def linear_type_def permute_type_def linear2_type_def)
    ultimately show ?thesis using write_drop2[OF assms(4,6,7) in1(1) in2(1,3,4), of v] by (simp del: bump_simps)
  qed
qed

section \<open>Moves\<close>

definition parts_fit :: "nat \<Rightarrow> parts \<Rightarrow> gate \<Rightarrow> bool" where
  "parts_fit n pt f \<longleftrightarrow>
     length (p_mul pt f) = (if triple_type (gt f) \<and> \<not> g_binary f then 2 * triple_width n f else 0) \<and>
     length (p_and pt f) = (if triple_type (gt f) \<and> g_binary f then 2 * triple_width n f else 0) \<and>
     length (p_shuffle pt f) = (if move_type (gt f) then n else 0) \<and>
     length (p_reveal pt f) = (if gt f = Reveal then n else 0)"

lemma B_skip:
  assumes "B_rel pt dn (f # fs) ev" "parts_fit n pt f" "\<not> interactive f"
  shows "B_rel pt (dn @ [f]) fs ev"
proof -
  have "\<not> triple_type (gt f)" "\<not> move_type (gt f)" "gt f \<noteq> Reveal"
    using assms(3) by (auto simp: interactive_def interactive_type_def triple_type_def move_type_def)
  then show ?thesis using assms(1,2) by (simp add: B_rel_def parts_fit_def buf_skip)
qed

lemma B_move:
  assumes "B_rel pt dn (f # fs) ev" "parts_fit n pt f" "move_type (gt f)"
  shows "\<exists>pos. read_shuffle n ev = Inr (p_shuffle pt f, ev\<lparr>shuffle_pos := pos\<rparr>) \<and>
     B_rel pt (dn @ [f]) fs (ev\<lparr>shuffle_pos := pos\<rparr>)"
proof -
  have t: "\<not> triple_type (gt f)" "gt f \<noteq> Reveal" "length (p_shuffle pt f) = n"
    using assms(2,3) by (auto simp: move_type_def triple_type_def parts_fit_def)
  obtain pos where "read_online (shuffle_vals ev) n (shuffle_pos ev) = Inr (p_shuffle pt f, pos)"
    "buf_rel (p_shuffle pt) (dn @ [f]) fs (shuffle_vals ev) pos"
    using buf_read[of "p_shuffle pt" dn f fs "shuffle_vals ev" "shuffle_pos ev" n] assms(1) t(3)
    by (auto simp: B_rel_def)
  then show ?thesis
    using assms(1,2) t by (auto simp: B_rel_def read_vals_def parts_fit_def buf_skip)
qed

lemma recv_move:
  assumes "ev_id ev = p" "ev_size ev = n" "W_rel nw rd W c \<sigma> ev" "O_rel p n K M done \<delta>N \<delta>s \<delta>r g01 (ev_data ev)"
    "dealt P n K M done \<delta>N f \<delta>r \<delta>r'" "move_type (gt f)" "0 < n" "out_idx f < nw" "out_idx f \<notin> W"
    "gt f = Unshuffle \<longrightarrow> chosen \<delta>s (g_shuffle_idx f)" "B_rel pt dn (f # fs) ev" "parts_fit n pt f"
  shows "\<exists>ev'. evaluate_recv_gate P ev f = Inr ev' \<and>
     W_rel nw rd (insert (out_idx f) W) c (\<sigma>(out_idx f := move_value \<delta>N p f (p_shuffle pt f))) ev' \<and>
     O_rel p n K M done \<delta>N \<delta>s \<delta>r' g01 (ev_data ev') \<and> recv_frame ev ev' \<and> ev_output ev' = ev_output ev \<and>
     B_rel pt (dn @ [f]) fs ev'"
proof -
  let ?i = "g_shuffle_idx f" and ?B = "d_B \<delta>N p (out_idx f)" and ?t = "p_shuffle pt f"
  have p: "p \<noteq> D" using assms(4) by (simp add: O_rel_def)
  have st: "recv_step P n f p \<delta>r \<delta>r'" "d_B \<delta>r' p (out_idx f) = ?B" "?i < K" "settled n \<delta>N \<delta>r \<delta>r' ?i"
    using assms(5,6) p by (auto simp: dealt_def)
  obtain rest where rest: "d_corr \<delta>N p = d_corr \<delta>r' p @ rest" using assms(5) p by (auto simp: dealt_def)
  have lB: "length ?B = n" using st(1,2) by (simp add: recv_step_def)
  have lt: "length ?t = n" using assms(6,12) by (simp add: parts_fit_def)
  have ok: "perm_ok n (d_snd \<delta>N p ?i)" "perm_ok n (d_rcv \<delta>N p ?i)" using settledD[OF st(4) p] by simp_all
  have wo: "out_resized f n ev = Inr (replicate n 0)"
    using out_at[OF assms(3,8,9)] by (simp add: out_resized_def)
  have fin: "\<exists>ev'. set_wire (out_idx f) (move_value \<delta>N p f ?t) (ev\<lparr>shuffle_pos := pos, ev_data := s2\<rparr>) = Inr ev' \<and>
     W_rel nw rd (insert (out_idx f) W) c (\<sigma>(out_idx f := move_value \<delta>N p f ?t)) ev' \<and>
     O_rel p n K M done \<delta>N \<delta>s \<delta>r' g01 (ev_data ev') \<and> recv_frame ev ev' \<and> ev_output ev' = ev_output ev \<and>
     B_rel pt (dn @ [f]) fs ev'"
    if "O_rel p n K M done \<delta>N \<delta>s \<delta>r' g01 s2" "B_rel pt (dn @ [f]) fs (ev\<lparr>shuffle_pos := pos\<rparr>)" for s2 pos
  proof -
    let ?ev1 = "ev\<lparr>shuffle_pos := pos, ev_data := s2\<rparr>"
    have W1: "W_rel nw rd W c \<sigma> ?ev1" using assms(3) by (simp add: W_rel_def)
    obtain ev' where ev': "set_wire (out_idx f) (move_value \<delta>N p f ?t) ?ev1 = Inr ev'" "wires_only ?ev1 ev'"
      "W_rel nw rd (insert (out_idx f) W) c (\<sigma>(out_idx f := move_value \<delta>N p f ?t)) ev'"
      using W_write[OF W1 assms(8,9)] by blast
    have "B_rel pt (dn @ [f]) fs ?ev1" using that(2) by (simp add: B_rel_def)
    then show ?thesis
      using ev' that(1) wires_only_recv[OF ev'(2)] by (simp add: recv_frame_def)
  qed
  show ?thesis
  proof (cases "picks f")
    case True
    obtain s1 s2 where s: "recv_perm P ?i (ev_data ev) = Inr (d_rcv \<delta>N p ?i, s1)"
      "read_preproc n s1 = Inr (?B, s2)" "O_rel p n K M done \<delta>N \<delta>s \<delta>r' g01 s2"
      using O_recv_pick[OF assms(4) st(1) True st(3,4) assms(7) rest] st(2) by auto
    have "B_rel pt dn (f # fs) (ev\<lparr>ev_data := s1\<rparr>)" using assms(11) by (simp add: B_rel_def)
    from B_move[OF this assms(12,6)] obtain pos where
      rd: "read_shuffle n (ev\<lparr>ev_data := s1\<rparr>) = Inr (?t, ev\<lparr>ev_data := s1, shuffle_pos := pos\<rparr>)" and
      B: "B_rel pt (dn @ [f]) fs (ev\<lparr>ev_data := s1, shuffle_pos := pos\<rparr>)" by auto
    have B': "B_rel pt (dn @ [f]) fs (ev\<lparr>shuffle_pos := pos\<rparr>)" using B by (simp add: B_rel_def)
    have "scatter n (\<lambda>i. unat (d_rcv \<delta>N p ?i ! i)) (\<lambda>i. ?t ! i - ?B ! unat (d_rcv \<delta>N p ?i ! i)) (replicate n 0) =
        move_value \<delta>N p f ?t"
      using shuffle_recv_leg[OF ok(2) lt lB, of "replicate n 0"] True by (simp add: move_value_def)
    then have "evaluate_recv_gate P ev f =
        set_wire (out_idx f) (move_value \<delta>N p f ?t) (ev\<lparr>shuffle_pos := pos, ev_data := s2\<rparr>)"
      using True[unfolded picks_def] wo s(1,2) rd lB assms(2)
      by (elim disjE) (simp_all add: evaluate_recv_gate_def recv_shuffle_def ev_read_preproc_def Let_def
          perm_ok_need[OF ok(2)])
    then show ?thesis using fin[OF s(3) B'] by simp
  next
    case False
    then have un: "gt f = Unshuffle" using assms(6) by (simp add: move_picks)
    have ch: "chosen \<delta>r' = chosen \<delta>r" "chosen \<delta>s ?i" using assms(5,10) False un by (auto simp: dealt_def)
    obtain s1 where s: "at_res (snd_tab p (ev_data ev)) ?i = Inr (d_snd \<delta>N p ?i)"
      "read_preproc n (ev_data ev) = Inr (?B, s1)" "O_rel p n K M done \<delta>N \<delta>s \<delta>r' g01 s1"
      using O_recv_undo[OF assms(4) st(1) False st(3) ch rest] st(2) by auto
    obtain pos where rd: "read_shuffle n ev = Inr (?t, ev\<lparr>shuffle_pos := pos\<rparr>)" and
      B: "B_rel pt (dn @ [f]) fs (ev\<lparr>shuffle_pos := pos\<rparr>)" using B_move[OF assms(11,12,6)] by blast
    have "map (\<lambda>i. ?t ! unat (d_snd \<delta>N p ?i ! i) - ?B ! i) [0..<n] = move_value \<delta>N p f ?t"
      using unshuffle_recv_leg[OF ok(1) lt lB] False by (simp add: move_value_def)
    then have "evaluate_recv_gate P ev f =
        set_wire (out_idx f) (move_value \<delta>N p f ?t) (ev\<lparr>shuffle_pos := pos, ev_data := s1\<rparr>)"
      using un wo s(1,2) rd lB assms(1,2)
      by (simp add: evaluate_recv_gate_def recv_unshuffle_def ev_read_preproc_def snd_tab_def Let_def
          perm_ok_need[OF ok(1)] cong: if_cong)
    then show ?thesis using fin[OF s(3) B] by simp
  qed
qed

section \<open>Products\<close>

lemma B_pairs:
  assumes "B_rel pt dn (f # fs) ev" "parts_fit n pt f" "triple_type (gt f)"
  shows "\<exists>pm pa. recv_pairs (g_binary f) (triple_width n f) ev =
       Inr (if g_binary f then p_and pt f else p_mul pt f, ev\<lparr>mul_pos := pm, and_pos := pa\<rparr>) \<and>
     B_rel pt (dn @ [f]) fs (ev\<lparr>mul_pos := pm, and_pos := pa\<rparr>)"
proof -
  have t: "\<not> move_type (gt f)" "gt f \<noteq> Reveal"
    using assms(3) by (auto simp: move_type_def triple_type_def)
  show ?thesis
  proof (cases "g_binary f")
    case True
    then have l: "length (p_and pt f) = 2 * triple_width n f" "p_mul pt f = []"
      using assms(2,3) by (simp_all add: parts_fit_def)
    obtain pos where "read_online (and_vals ev) (2 * triple_width n f) (and_pos ev) = Inr (p_and pt f, pos)"
      "buf_rel (p_and pt) (dn @ [f]) fs (and_vals ev) pos"
      using buf_read[of "p_and pt" dn f fs "and_vals ev" "and_pos ev", OF _ l(1)] assms(1) unfolding B_rel_def by blast
    then show ?thesis
      using assms(1,2) t l True
      by (intro exI[where x = "mul_pos ev"] exI[where x = pos])
        (auto simp: B_rel_def read_vals_def recv_pairs_def parts_fit_def buf_skip)
  next
    case False
    then have l: "length (p_mul pt f) = 2 * triple_width n f" "p_and pt f = []"
      using assms(2,3) by (simp_all add: parts_fit_def)
    obtain pos where "read_online (mul_vals ev) (2 * triple_width n f) (mul_pos ev) = Inr (p_mul pt f, pos)"
      "buf_rel (p_mul pt) (dn @ [f]) fs (mul_vals ev) pos"
      using buf_read[of "p_mul pt" dn f fs "mul_vals ev" "mul_pos ev", OF _ l(1)] assms(1) unfolding B_rel_def by blast
    then show ?thesis
      using assms(1,2) t l False
      by (intro exI[where x = pos] exI[where x = "and_pos ev"])
        (auto simp: B_rel_def read_vals_def recv_pairs_def parts_fit_def buf_skip)
  qed
qed

lemma scatter_pad: "m \<le> n \<Longrightarrow> scatter m (\<lambda>i. i) h (replicate n 0) = pad n m h"
  by (simp add: scatter_prefix pad_def)

lemma pad_nth: "i < m \<Longrightarrow> pad n m h ! i = h i"
  by (simp add: pad_def nth_append)

lemma scatter_lowest:
  assumes "m \<le> n"
  shows "scatter m (\<lambda>i. i) (\<lambda>i. lowest_bit (pad n m h ! i)) (pad n m h) = pad n m (\<lambda>i. lowest_bit (h i))"
proof -
  have "scatter m (\<lambda>i. i) (\<lambda>i. lowest_bit (pad n m h ! i)) (pad n m h) =
      map (\<lambda>i. lowest_bit (pad n m h ! i)) [0..<m] @ drop m (pad n m h)"
    by (rule scatter_prefix) (use assms in \<open>simp add: pad_def\<close>)
  then show ?thesis by (simp add: pad_def nth_append cong: map_cong)
qed

lemma recv_triple:
  assumes "ev_id ev = p" "ev_size ev = n" "W_rel nw rd W c \<sigma> ev" "O_rel p n K M done \<delta>N \<delta>s \<delta>r g01 (ev_data ev)"
    "dealt P n K M done \<delta>N f \<delta>r \<delta>r'" "triple_type (gt f)" "fields_ok n f" "out_idx f < nw" "out_idx f \<notin> W"
    "recv_drops f \<noteq> [] \<longrightarrow> inputs_alive nw rd W c f" "sizes_ok n f \<sigma>" "B_rel pt dn (f # fs) ev" "parts_fit n pt f"
  shows "\<exists>ev'. evaluate_recv_gate P ev f = Inr ev' \<and>
     W_rel nw rd (insert (out_idx f) W) (bump (recv_drops f) c)
       (\<sigma>(out_idx f := triple_value n \<delta>N p \<sigma> f (if g_binary f then p_and pt f else p_mul pt f))) ev' \<and>
     ev_data ev' = ev_data ev \<and> recv_frame ev ev' \<and> ev_output ev' = ev_output ev \<and> B_rel pt (dn @ [f]) fs ev'"
proof -
  let ?x = "\<sigma> (in1_idx f)" and ?m = "triple_width n f" and ?d = "if g_binary f then p_and pt f else p_mul pt f"
  let ?v = "triple_value n \<delta>N p \<sigma> f ?d"
  obtain u v w where t: "d_triple \<delta>N p (mult_idx f) = (u, v, w)" by (metis prod_cases3)
  note T = dealt_triple[OF assms(5,6,4) t]
  have sz: "st_size (ev_data ev) = n" using assms(4) by (simp add: O_rel_def)
  have le: "?m \<le> n" using assms(6,7) by (simp add: fields_ok_def)
  have lx: "?m \<le> length ?x" using assms(6,11) by (simp add: sizes_ok_def)
  obtain pm pa where pr: "recv_pairs (g_binary f) ?m ev = Inr (?d, ev\<lparr>mul_pos := pm, and_pos := pa\<rparr>)"
    and B: "B_rel pt (dn @ [f]) fs (ev\<lparr>mul_pos := pm, and_pos := pa\<rparr>)"
    using B_pairs[OF assms(12,13,6)] by blast
  let ?ev1 = "ev\<lparr>mul_pos := pm, and_pos := pa\<rparr>"
  have W1: "W_rel nw rd W c \<sigma> ?ev1" using assms(3) by (simp add: W_rel_def)
  note wo = out_at[OF assms(3,8,9)]
  have ld: "ev_load_triples (mult_idx f) ?m ev = Inr ((u, v, w), ev)"
    using T(1) by (simp add: ev_load_triples_def)
  have pa: "product_at n \<delta>N p f d = products (g_binary f) p ?m d u v w" for d
    by (simp add: product_at_def[abs_def] t fun_eq_iff)
  have fin: "\<exists>ev'. Inr ev2 = Inr ev' \<and> W_rel nw rd (insert (out_idx f) W) (bump (recv_drops f) c) (\<sigma>(out_idx f := ?v)) ev' \<and>
     ev_data ev' = ev_data ev \<and> recv_frame ev ev' \<and> ev_output ev' = ev_output ev \<and> B_rel pt (dn @ [f]) fs ev'"
    if "wires_only ?ev1 ev2" "W_rel nw rd (insert (out_idx f) W) (bump (recv_drops f) c) (\<sigma>(out_idx f := ?v)) ev2" for ev2
    using that wires_only_recv[OF that(1)] B by (simp add: recv_frame_def)
  have plain: "recv_products (g_binary f) post f ev = set_wire (out_idx f) (post (pad n ?m (product_at n \<delta>N p f ?d))) ?ev1"
    if "?m = g_size f" for post
    using that pr ld T wo le assms(1,2)
    by (simp add: recv_products_def out_resized_def Let_def pa scatter_pad)
  obtain ev2 where w2: "set_wire (out_idx f) ?v ?ev1 = Inr ev2" "wires_only ?ev1 ev2"
    "W_rel nw rd (insert (out_idx f) W) c (\<sigma>(out_idx f := ?v)) ev2"
    using W_write[OF W1 assms(8,9)] by blast
  have drop: "\<exists>ev3. bindr (set_wire (out_idx f) ?v ?ev1) (update_wire (in1_idx f)) = Inr ev3 \<and> wires_only ?ev1 ev3 \<and>
      W_rel nw rd (insert (out_idx f) W) (bump [in1_idx f] c) (\<sigma>(out_idx f := ?v)) ev3 \<and> wire_at (in1_idx f) ev = Inr ?x"
    if "inputs_alive nw rd W c f"
  proof -
    have in1: "in1_idx f < nw" "in1_idx f \<in> W" "c (in1_idx f) < rd (in1_idx f)"
      using that by (simp_all add: inputs_alive_def)
    have "wire_at (in1_idx f) ev = Inr ?x" by (rule W_read[OF assms(3) in1(1,2)]) (use in1(3) in simp)
    then show ?thesis using write_drop1[OF W1 assms(8,9) in1(1,3), of ?v] by blast
  qed
  consider (co) "gt f = Compaction" | (mu) "gt f = MulSIMD" | (eq) "gt f = EQZ" | (bi) "gt f = Bit2A"
    using assms(6) by (auto simp: triple_type_def)
  then show ?thesis
  proof cases
    case co
    then have m: "?m = n" "\<not> g_binary f" "recv_drops f = [in1_idx f]"
      using assms(7) by (simp_all add: triple_width_def fields_ok_def recv_drops_def)
    obtain ev3 where 3: "bindr (set_wire (out_idx f) ?v ?ev1) (update_wire (in1_idx f)) = Inr ev3" "wires_only ?ev1 ev3"
      "W_rel nw rd (insert (out_idx f) W) (bump [in1_idx f] c) (\<sigma>(out_idx f := ?v)) ev3" "wire_at (in1_idx f) ev = Inr ?x"
      using drop assms(10) m(3) by auto
    have v: "?v = map (\<lambda>i. let y = product_at n \<delta>N p f ?d i + zero_ranks p n ?x ! i in if p = P0 then y - 1 else y) [0..<n]"
      using co by (simp add: triple_value_def Let_def)
    have "evaluate_recv_gate P ev f = Inr ev3"
      using co m pr ld T wo lx assms(1,2) sz 3(1,4) unfolding v
      by (simp add: evaluate_recv_gate_def recv_compaction_def Let_def pa)
    then show ?thesis using fin[OF 3(2)] 3(3) m(3) by simp
  next
    case mu
    then have m: "?m = g_size f" "recv_drops f = []"
      by (simp_all add: triple_width_def recv_drops_def linear_type_def linear2_type_def permute_type_def)
    have "?v = pad n ?m (product_at n \<delta>N p f ?d)" using mu by (simp add: triple_value_def Let_def)
    then have "evaluate_recv_gate P ev f = Inr ev2"
      using mu plain[OF m(1), of "\<lambda>v. v"] w2(1) by (simp add: evaluate_recv_gate_def recv_mul_SIMD_def)
    then show ?thesis using fin[OF w2(2)] w2(3) m(2) by simp
  next
    case eq
    then have m: "?m = g_size f" "g_binary f" "recv_drops f = []"
      using assms(7) by (simp_all add: triple_width_def fields_ok_def recv_drops_def linear_type_def linear2_type_def permute_type_def)
    define post where "post = (\<lambda>v. if g_layer f = 4 then scatter (g_size f) (\<lambda>i. i) (\<lambda>i. lowest_bit (v ! i)) v else v)"
    have v: "?v = post (pad n ?m (product_at n \<delta>N p f ?d))"
      using eq le scatter_lowest[of ?m n "product_at n \<delta>N p f ?d"] m(1)
      by (auto simp: triple_value_def post_def Let_def)
    have "evaluate_recv_gate P ev f = recv_products (g_binary f) post f ev"
      using eq m(2) by (simp add: evaluate_recv_gate_def recv_eqz_def post_def Let_def)
    then have "evaluate_recv_gate P ev f = Inr ev2"
      using plain[OF m(1), of post] w2(1) unfolding v by (simp only:)
    then show ?thesis using fin[OF w2(2)] w2(3) m(3) by simp
  next
    case bi
    then have m: "?m = g_size f" "\<not> g_binary f" "recv_drops f = [in1_idx f]"
      using assms(7) by (simp_all add: triple_width_def fields_ok_def recv_drops_def)
    obtain ev3 where 3: "bindr (set_wire (out_idx f) ?v ?ev1) (update_wire (in1_idx f)) = Inr ev3" "wires_only ?ev1 ev3"
      "W_rel nw rd (insert (out_idx f) W) (bump [in1_idx f] c) (\<sigma>(out_idx f := ?v)) ev3" "wire_at (in1_idx f) ev = Inr ?x"
      using drop assms(10) m(3) by auto
    have v: "?v = pad n ?m (\<lambda>i. (?x ! i AND 1) - 2 * product_at n \<delta>N p f ?d i)"
      using bi by (simp add: triple_value_def Let_def)
    have wx: "wire_at (in1_idx f) ?ev1 = Inr ?x" using 3(4) by (simp add: wire_at_def)
    have "evaluate_recv_gate P ev f = Inr ev3"
      using bi m pr ld T wo wx lx le assms(1,2) 3(1) unfolding v
      by (simp add: evaluate_recv_gate_def recv_bit2A_def out_resized_def Let_def pa scatter_pad)
    then show ?thesis using fin[OF 3(2)] 3(3) m(3) by simp
  qed
qed

section \<open>The other gates\<close>

lemma recv_reveal_gate:
  assumes "ev_size ev = n" "W_rel nw rd W c \<sigma> ev" "gt f = Reveal" "out_idx f < nw" "out_idx f \<notin> W"
    "B_rel pt dn (f # fs) ev" "parts_fit n pt f"
  shows "\<exists>ev'. evaluate_recv_gate P ev f = Inr ev' \<and>
     W_rel nw rd (insert (out_idx f) W) c (\<sigma>(out_idx f := p_reveal pt f)) ev' \<and>
     ev_data ev' = ev_data ev \<and> recv_frame ev ev' \<and> ev_output ev' = ev_output ev \<and> B_rel pt (dn @ [f]) fs ev'"
proof -
  have t: "p_mul pt f = []" "p_and pt f = []" "p_shuffle pt f = []" "length (p_reveal pt f) = n"
    using assms(3,7) by (simp_all add: parts_fit_def triple_type_def move_type_def)
  obtain pos where pos: "read_online (reveal_vals ev) n (reveal_pos ev) = Inr (p_reveal pt f, pos)"
    "buf_rel (p_reveal pt) (dn @ [f]) fs (reveal_vals ev) pos"
    using buf_read[of "p_reveal pt" dn f fs "reveal_vals ev" "reveal_pos ev", OF _ t(4)] assms(6)
    unfolding B_rel_def by blast
  let ?ev1 = "ev\<lparr>reveal_pos := pos\<rparr>"
  have W1: "W_rel nw rd W c \<sigma> ?ev1" using assms(2) by (simp add: W_rel_def)
  have B: "B_rel pt (dn @ [f]) fs ?ev1" using assms(6) pos(2) t by (simp add: B_rel_def buf_skip)
  obtain ev2 where w2: "set_wire (out_idx f) (p_reveal pt f) ?ev1 = Inr ev2" "wires_only ?ev1 ev2"
    "W_rel nw rd (insert (out_idx f) W) c (\<sigma>(out_idx f := p_reveal pt f)) ev2"
    using W_write[OF W1 assms(4,5)] by blast
  have "evaluate_recv_gate P ev f = Inr ev2"
    using assms(1,3) pos(1) w2(1) by (simp add: evaluate_recv_gate_def recv_reveal_def read_vals_def)
  then show ?thesis using w2(3) wires_only_recv[OF w2(2)] B by (simp add: recv_frame_def)
qed

lemma recv_output_gate:
  assumes "ev_size ev = n" "W_rel nw rd W c \<sigma> ev" "gt f = Output" "inputs_alive nw rd W c f"
    "n \<le> length (\<sigma> (in1_idx f))"
  shows "\<exists>ev'. evaluate_recv_gate P ev f = Inr ev' \<and> W_rel nw rd W (bump (recv_drops f) c) \<sigma> ev' \<and>
     ev_data ev' = ev_data ev \<and> recv_frame ev ev' \<and> ev_output ev' = ev_output ev @ take n (\<sigma> (in1_idx f)) \<and>
     B_rel pt dn fs ev' = B_rel pt dn fs ev"
proof -
  have in1: "in1_idx f < nw" "in1_idx f \<in> W" "c (in1_idx f) < rd (in1_idx f)"
    using assms(4) by (simp_all add: inputs_alive_def)
  have wx: "wire_at (in1_idx f) ev = Inr (\<sigma> (in1_idx f))"
    by (rule W_read[OF assms(2) in1(1,2)]) (use in1(3) in simp)
  let ?ev1 = "ev\<lparr>ev_output := ev_output ev @ take n (\<sigma> (in1_idx f))\<rparr>"
  have W1: "W_rel nw rd W c \<sigma> ?ev1" using assms(2) by (simp add: W_rel_def)
  obtain ev2 where 2: "update_wire (in1_idx f) ?ev1 = Inr ev2" "wires_only ?ev1 ev2"
    "W_rel nw rd W (bump [in1_idx f] c) \<sigma> ev2"
    using W_update[OF W1 in1(1,3)] by blast
  have "evaluate_recv_gate P ev f = Inr ev2"
    using assms(1,3,5) wx 2(1) by (simp add: evaluate_recv_gate_def recv_output_def)
  moreover have "recv_drops f = [in1_idx f]" using assms(3) by (simp add: recv_drops_def)
  ultimately show ?thesis using 2(3) wires_only_recv[OF 2(2)] by (simp add: recv_frame_def B_rel_def)
qed

lemma O_rel_rng_01:
  assumes "O_rel p n K M done \<delta>N \<delta>s \<delta>r g01 s"
  shows "O_rel p n K M done \<delta>N \<delta>s \<delta>r g (s\<lparr>random_generators := (random_generators s)\<lparr>rng_01 := g\<rparr>\<rparr>)"
    (is "O_rel p n K M done \<delta>N \<delta>s \<delta>r g ?s")
proof -
  have re: "rest_eq s ?s" by (simp add: rest_eq_def)
  have t: "snd_tab p ?s = snd_tab p s" "rcv_tab p ?s = rcv_tab p s" by (simp_all add: snd_tab_def rcv_tab_def)
  show ?thesis
    using assms rest_eqD[OF re] t
    by (simp add: O_rel_def O_legs_def O_streams_def) (simp add: online_role_def)
qed

lemma recv_const_gate:
  assumes "ev_id ev = p" "ev_size ev = n" "W_rel nw rd W c \<sigma> ev" "O_rel p n K M done \<delta>N \<delta>s \<delta>r g01 (ev_data ev)"
    "gt f = SetConstVecSIMD" "out_idx f < nw" "out_idx f \<notin> W"
  shows "\<exists>ev'. evaluate_recv_gate P ev f = Inr ev' \<and>
     W_rel nw rd (insert (out_idx f) W) c (\<sigma>(out_idx f := const_share P n f p g01)) ev' \<and>
     O_rel p n K M done \<delta>N \<delta>s \<delta>r (const_next P n f g01) (ev_data ev') \<and> recv_frame ev ev' \<and>
     ev_output ev' = ev_output ev \<and> B_rel pt dn fs ev' = B_rel pt dn fs ev"
proof -
  let ?st = "ev_data ev" and ?vals = "padded n (gvals f)"
  let ?r = "(random_generators ?st)\<lparr>rng_01 := const_next P n f g01\<rparr>"
  have p: "p \<noteq> D" "online_role (random_generators ?st)" "rng_01 (random_generators ?st) = g01"
    using assms(4) by (simp_all add: O_defs)
  have e: "random_share_secret_vec_2P P p (random_generators ?st) ?vals P0 = Inr (const_share P n f p g01, ?r)"
    using p assms(5) by (simp add: share_2P_runs const_share_def const_next_def Let_def split_beta)
  let ?ev1 = "ev\<lparr>ev_data := ?st\<lparr>random_generators := ?r\<rparr>\<rparr>"
  have W1: "W_rel nw rd W c \<sigma> ?ev1" using assms(3) by (simp add: W_rel_def)
  obtain ev2 where w2: "set_wire (out_idx f) (const_share P n f p g01) ?ev1 = Inr ev2" "wires_only ?ev1 ev2"
    "W_rel nw rd (insert (out_idx f) W) c (\<sigma>(out_idx f := const_share P n f p g01)) ev2"
    using W_write[OF W1 assms(6,7)] by blast
  have "evaluate_recv_gate P ev f = Inr ev2"
    using assms(1,2,5) p(2) e w2(1) by (simp add: evaluate_recv_gate_def recv_const_vec_def)
  then show ?thesis
    using w2(3) wires_only_recv[OF w2(2)] O_rel_rng_01[OF assms(4)] by (simp add: recv_frame_def B_rel_def)
qed

lemma columns_read:
  assumes "W_rel nw rd W c \<sigma> ev" "\<forall>w \<in> set ws. w < nw \<and> w \<in> W \<and> (c w < rd w \<or> c w = 0)"
  shows "foldr_res (\<lambda>cols w. bindr (wire_at w ev) (\<lambda>v. Inr (cols @ [v]))) acc ws = Inr (acc @ map \<sigma> ws)"
  using assms(2)
proof (induction ws arbitrary: acc)
  case (Cons w ws)
  have "wire_at w ev = Inr (\<sigma> w)" using Cons.prems W_read[OF assms(1)] by simp
  then show ?case using Cons by simp
qed simp

lemma recv_columns_gate:
  assumes "ev_size ev = n" "ev_nodes ev = k" "W_rel nw rd W c \<sigma> ev" "gt f = ColumnSumsToNodes"
    "out_idx f < nw" "out_idx f \<notin> W"
    "\<forall>w \<in> set (take k (data_parallel f)). w < nw \<and> w \<in> W \<and> (c w < rd w \<or> c w = 0)"
    "column_sums_vec n k (map \<sigma> (take k (data_parallel f))) = Inr v"
  shows "\<exists>ev'. evaluate_recv_gate P ev f = Inr ev' \<and> wires_only ev ev' \<and>
     W_rel nw rd (insert (out_idx f) W) c (\<sigma>(out_idx f := v)) ev'"
proof -
  obtain ev2 where w2: "set_wire (out_idx f) v ev = Inr ev2" "wires_only ev ev2"
    "W_rel nw rd (insert (out_idx f) W) c (\<sigma>(out_idx f := v)) ev2"
    using W_write[OF assms(3,5,6)] by blast
  have "evaluate_recv_gate P ev f = Inr ev2"
    using assms(1,2,4,8) columns_read[OF assms(3,7), of "[]"] w2(1)
    by (simp add: evaluate_recv_gate_def recv_column_sums_def)
  then show ?thesis using w2(2,3) by blast
qed

section \<open>Any gate\<close>

definition gate_value ::
  "'g prg_ops \<Rightarrow> nat \<Rightarrow> nat \<Rightarrow> (wire_id \<Rightarrow> vec) \<Rightarrow> 'g dealer \<Rightarrow> party \<Rightarrow> (wire_id \<Rightarrow> vec) \<Rightarrow> parts \<Rightarrow> 'g \<Rightarrow> gate \<Rightarrow> vec res"
  where
  "gate_value P n k inputs \<delta>N p \<sigma> pt g01 f =
     (if gt f = Input then Inr (inputs (out_idx f))
      else if move_type (gt f) then Inr (move_value \<delta>N p f (p_shuffle pt f))
      else if triple_type (gt f) then Inr (triple_value n \<delta>N p \<sigma> f (if g_binary f then p_and pt f else p_mul pt f))
      else if gt f = Reveal then Inr (p_reveal pt f)
      else if gt f = SetConstVecSIMD then Inr (const_share P n f p g01)
      else if gt f = ColumnSumsToNodes then column_sums_vec n k (map \<sigma> (take k (data_parallel f)))
      else local_value n k p \<sigma> f)"

lemma recv_gate:
  assumes "ev_id ev = p" "ev_size ev = n" "ev_nodes ev = k" "input_to_val ev = inputs" "W_rel nw rd W c \<sigma> ev"
    "O_rel p n K M done \<delta>N \<delta>s \<delta>r g01 (ev_data ev)" "dealt P n K M done \<delta>N f \<delta>r \<delta>r'" "fields_ok n f"
    "known_type (gt f)" "gt f \<noteq> Output" "0 < n" "out_idx f < nw" "out_idx f \<notin> W"
    "recv_drops f \<noteq> [] \<longrightarrow> inputs_alive nw rd W c f" "sizes_ok n f \<sigma>"
    "gt f = ColumnSumsToNodes \<longrightarrow> (\<forall>w \<in> set (take k (data_parallel f)). w < nw \<and> w \<in> W \<and> (c w < rd w \<or> c w = 0))"
    "gt f = Unshuffle \<longrightarrow> chosen \<delta>s (g_shuffle_idx f)" "B_rel pt dn (f # fs) ev" "parts_fit n pt f"
    "gate_value P n k inputs \<delta>N p \<sigma> pt g01 f = Inr v"
  shows "\<exists>ev'. evaluate_recv_gate P ev f = Inr ev' \<and>
     W_rel nw rd (insert (out_idx f) W) (bump (recv_drops f) c) (\<sigma>(out_idx f := v)) ev' \<and>
     O_rel p n K M done \<delta>N \<delta>s \<delta>r' (const_next P n f g01) (ev_data ev') \<and> recv_frame ev ev' \<and>
     ev_output ev' = ev_output ev \<and> B_rel pt (dn @ [f]) fs ev'"
proof -
  have skip: "O_rel p n K M done \<delta>N \<delta>s \<delta>r' g (ev_data ev)"
    if "\<not> move_type (gt f)" "O_rel p n K M done \<delta>N \<delta>s \<delta>r g (ev_data ev)" for g and ev :: "'a evaluator"
    using assms(7) that(1) by (intro O_recv_skip[OF that(2)]) (auto simp: dealt_def move_picks)
  have g01: "const_next P n f g01 = g01" if "gt f \<noteq> SetConstVecSIMD" using that by (simp add: const_next_def)
  consider (mv) "move_type (gt f)" | (tr) "triple_type (gt f)" "\<not> move_type (gt f)"
    | (re) "gt f = Reveal" | (inp) "gt f = Input" | (cv) "gt f = SetConstVecSIMD" | (cs) "gt f = ColumnSumsToNodes"
    | (lo) "local_type (gt f)" using assms(9,10) by (auto simp: known_type_def)
  then show ?thesis
  proof cases
    case mv
    then have t: "gt f \<noteq> Input" "gt f \<noteq> SetConstVecSIMD" "recv_drops f = []"
      by (auto simp: move_type_def recv_drops_def linear_type_def linear2_type_def permute_type_def)
    then have v: "v = move_value \<delta>N p f (p_shuffle pt f)" using assms(20) mv by (simp add: gate_value_def)
    show ?thesis
      using recv_move[OF assms(1,2,5,6,7) mv assms(11,12,13,17,18,19)] t(3) g01[OF t(2)] unfolding v by simp
  next
    case tr
    then have t: "gt f \<noteq> Input" "gt f \<noteq> SetConstVecSIMD" by (auto simp: triple_type_def)
    then have v: "v = triple_value n \<delta>N p \<sigma> f (if g_binary f then p_and pt f else p_mul pt f)"
      using assms(20) tr by (simp add: gate_value_def)
    show ?thesis
      using recv_triple[OF assms(1,2,5,6,7) tr(1) assms(8,12,13,14,15,18,19)] skip[OF tr(2)] assms(6) g01[OF t(2)]
      unfolding v by fastforce
  next
    case re
    then have t: "\<not> move_type (gt f)" "gt f \<noteq> SetConstVecSIMD" "recv_drops f = []" "v = p_reveal pt f"
      using assms(20) by (auto simp: move_type_def recv_drops_def linear_type_def linear2_type_def permute_type_def
          gate_value_def triple_type_def)
    show ?thesis
      using recv_reveal_gate[OF assms(2,5) re assms(12,13,18,19)] skip[OF t(1)] assms(6) g01[OF t(2)] t(3,4) by fastforce
  next
    case inp
    then have t: "\<not> move_type (gt f)" "gt f \<noteq> SetConstVecSIMD" "recv_drops f = []" "v = inputs (out_idx f)" "\<not> interactive f"
      using assms(20) by (auto simp: move_type_def recv_drops_def linear_type_def linear2_type_def permute_type_def
          gate_value_def interactive_def interactive_type_def)
    obtain ev2 where w2: "set_wire (out_idx f) v ev = Inr ev2" "wires_only ev ev2"
      "W_rel nw rd (insert (out_idx f) W) c (\<sigma>(out_idx f := v)) ev2"
      using W_write[OF assms(5,12,13)] by blast
    have "evaluate_recv_gate P ev f = Inr ev2"
      using inp w2(1) t(4) assms(4) by (simp add: evaluate_recv_gate_def recv_input_def)
    then show ?thesis
      using w2(3) wires_only_recv[OF w2(2)] skip[OF t(1) assms(6)] g01[OF t(2)] t(3) B_skip[OF assms(18,19) t(5)] by simp
  next
    case cv
    then have t: "\<not> move_type (gt f)" "recv_drops f = []" "v = const_share P n f p g01" "\<not> interactive f"
      using assms(20) by (auto simp: move_type_def recv_drops_def linear_type_def linear2_type_def permute_type_def
          gate_value_def triple_type_def interactive_def interactive_type_def)
    show ?thesis
      using recv_const_gate[where P = P and pt = pt and dn = "dn @ [f]" and fs = fs, OF assms(1,2,5,6) cv assms(12,13)]
        skip[OF t(1)] t(2,3)
        B_skip[OF assms(18,19) t(4)] by fastforce
  next
    case cs
    then have t: "\<not> move_type (gt f)" "gt f \<noteq> SetConstVecSIMD" "recv_drops f = []" "\<not> interactive f"
      "column_sums_vec n k (map \<sigma> (take k (data_parallel f))) = Inr v"
      using assms(20) by (auto simp: move_type_def recv_drops_def linear_type_def linear2_type_def permute_type_def
          gate_value_def triple_type_def interactive_def interactive_type_def)
    obtain ev2 where 2: "evaluate_recv_gate P ev f = Inr ev2" "wires_only ev ev2"
      "W_rel nw rd (insert (out_idx f) W) c (\<sigma>(out_idx f := v)) ev2"
      using recv_columns_gate[OF assms(2,3,5) cs assms(12,13) _ t(5)] assms(16) cs by blast
    then show ?thesis
      using wires_only_recv[OF 2(2)] skip[OF t(1) assms(6)] g01[OF t(2)] t(3) B_skip[OF assms(18,19) t(4)] by simp
  next
    case lo
    then have t: "\<not> move_type (gt f)" "gt f \<noteq> SetConstVecSIMD" "recv_drops f \<noteq> []" "\<not> interactive f"
      "local_value n k p \<sigma> f = Inr v"
      using assms(20) by (auto simp: move_type_def recv_drops_def linear_type_def linear2_type_def permute_type_def
          gate_value_def triple_type_def interactive_def interactive_type_def local_type_def)
    obtain ev2 where 2: "evaluate_recv_gate P ev f = Inr ev2" "wires_only ev ev2"
      "W_rel nw rd (insert (out_idx f) W) (bump (recv_drops f) c) (\<sigma>(out_idx f := v)) ev2"
      using recv_local[OF assms(1-3,5) _ assms(12,13) lo t(5)] assms(14) t(3) by blast
    then show ?thesis
      using wires_only_recv[OF 2(2)] skip[OF t(1) assms(6)] g01[OF t(2)] B_skip[OF assms(18,19) t(4)] by simp
  qed
qed

end
