(* ===== verification/Online_Values.thy ===== *)
theory Online_Values
  imports Online_Recv
begin

text \<open>
  What the two servers compute together: for every gate, if their shares of the inputs belong to
  plain values, their shares of the output belong to the plain output of the gate.
\<close>

section \<open>The opened buffers of both servers\<close>

definition partner_of :: "party \<Rightarrow> party" where
  "partner_of p = (if p = P0 then P1 else P0)"

definition both_parts :: "nat \<Rightarrow> 'g dealer \<Rightarrow> (party \<Rightarrow> wire_id \<Rightarrow> vec) \<Rightarrow> party \<Rightarrow> parts" where
  "both_parts n \<delta>N \<sigma> p =
     \<lparr>p_mul = (\<lambda>f. vadd (mul_part n \<delta>N P0 (\<sigma> P0) f) (mul_part n \<delta>N P1 (\<sigma> P1) f)),
      p_and = (\<lambda>f. vxor (and_part n \<delta>N P0 (\<sigma> P0) f) (and_part n \<delta>N P1 (\<sigma> P1) f)),
      p_shuffle = (\<lambda>f. shuffle_part \<delta>N (partner_of p) (\<sigma> (partner_of p)) f),
      p_reveal = (\<lambda>f. vadd (reveal_part n (\<sigma> P0) f) (reveal_part n (\<sigma> P1) f))\<rparr>"

text \<open>The opened pairs of a product gate.\<close>

definition opened_pairs :: "nat \<Rightarrow> 'g dealer \<Rightarrow> (party \<Rightarrow> wire_id \<Rightarrow> vec) \<Rightarrow> gate \<Rightarrow> vec" where
  "opened_pairs n \<delta>N \<sigma> f =
     join (g_binary f) (pair_part n \<delta>N P0 (\<sigma> P0) f) (pair_part n \<delta>N P1 (\<sigma> P1) f)"

lemma both_parts_pairs:
  "triple_type (gt f) \<Longrightarrow> (if g_binary f then p_and (both_parts n \<delta>N \<sigma> p) f else p_mul (both_parts n \<delta>N \<sigma> p) f) =
     opened_pairs n \<delta>N \<sigma> f"
  by (simp add: both_parts_def opened_pairs_def join_def mul_part_def and_part_def)

lemma length_interleave [simp]: "length (interleave m u v) = 2 * m"
  by (induction m) (simp_all add: interleave_def)

lemma interleave_nth:
  assumes "i < m"
  shows "interleave m u v ! (2 * i) = u i" "interleave m u v ! (2 * i + 1) = v i"
proof -
  have "interleave m u v ! (2 * i) = u i \<and> interleave m u v ! (2 * i + 1) = v i"
    using assms
  proof (induction m)
    case (Suc m)
    have e: "interleave (Suc m) u v = interleave m u v @ [u m, v m]" by (simp add: interleave_def)
    show ?case using Suc by (cases "i = m") (auto simp: e nth_append)
  qed simp
  then show "interleave m u v ! (2 * i) = u i" "interleave m u v ! (2 * i + 1) = v i" by simp_all
qed

lemma length_pair_part [simp]: "length (pair_part n \<delta>N p \<sigma> f) = 2 * triple_width n f"
  by (simp add: pair_part_def split: prod.split)

section \<open>Products\<close>

lemma product_at_shares:
  assumes "triple_ok (triple_width n f) (g_binary f) (d_triple \<delta>N P0 (mult_idx f)) (d_triple \<delta>N P1 (mult_idx f))"
    "i < triple_width n f"
  shows "combine (g_binary f) (product_at n \<delta>N P0 f (opened_pairs n \<delta>N \<sigma> f) i)
       (product_at n \<delta>N P1 f (opened_pairs n \<delta>N \<sigma> f) i) =
     times (g_binary f)
       (combine (g_binary f) (left_factor P0 f (\<sigma> P0 (in1_idx f)) i) (left_factor P1 f (\<sigma> P1 (in1_idx f)) i))
       (combine (g_binary f) (right_factor n P0 f (\<sigma> P0 (in1_idx f)) (\<sigma> P0 (in2_idx f)) i)
          (right_factor n P1 f (\<sigma> P1 (in1_idx f)) (\<sigma> P1 (in2_idx f)) i))"
proof -
  let ?m = "triple_width n f" and ?b = "g_binary f" and ?d = "opened_pairs n \<delta>N \<sigma> f"
  obtain a0 b0 c0 a1 b1 c1 where t: "d_triple \<delta>N P0 (mult_idx f) = (a0, b0, c0)"
    "d_triple \<delta>N P1 (mult_idx f) = (a1, b1, c1)" by (metis prod_cases3)
  have ok: "combine ?b (c0 ! i) (c1 ! i) =
      times ?b (combine ?b (a0 ! i) (a1 ! i)) (combine ?b (b0 ! i) (b1 ! i))"
    using assms t by (simp add: triple_ok_def)
  have i: "2 * i < 2 * ?m" "2 * i + 1 < 2 * ?m" using assms(2) by simp_all
  have d: "?d ! (2 * i) = combine ?b (mask ?b (left_factor P0 f (\<sigma> P0 (in1_idx f)) i) (a0 ! i))
        (mask ?b (left_factor P1 f (\<sigma> P1 (in1_idx f)) i) (a1 ! i))"
    "?d ! (2 * i + 1) = combine ?b (mask ?b (right_factor n P0 f (\<sigma> P0 (in1_idx f)) (\<sigma> P0 (in2_idx f)) i) (b0 ! i))
        (mask ?b (right_factor n P1 f (\<sigma> P1 (in1_idx f)) (\<sigma> P1 (in2_idx f)) i) (b1 ! i))"
    unfolding opened_pairs_def using i interleave_nth[OF assms(2)] t
    by (simp_all add: join_nth pair_part_def del: One_nat_def)
  show ?thesis
    using product_shares[OF ok d] t by (simp add: product_at_def products_def)
qed

text \<open>The value of a product gate, kind by kind.\<close>

lemma length_pad [simp]: "m \<le> n \<Longrightarrow> length (pad n m h) = n"
  by (simp add: pad_def)

lemma pad_nth_out: "m \<le> i \<Longrightarrow> i < n \<Longrightarrow> pad n m h ! i = 0"
  by (simp add: pad_def nth_append)

lemma pad_vadd: "vadd (pad n m h0) (pad n m h1) = pad n m (\<lambda>i. h0 i + h1 i)"
  by (rule nth_equalityI) (auto simp: pad_def nth_append)

lemma pad_vxor: "vxor (pad n m h0) (pad n m h1) = pad n m (\<lambda>i. h0 i XOR h1 i)"
  by (rule nth_equalityI) (auto simp: pad_def nth_append)

lemma pad_cong: "(\<And>i. i < m \<Longrightarrow> h i = h' i) \<Longrightarrow> pad n m h = pad n m h'"
  by (simp add: pad_def)

lemma rel_pad:
  assumes "m \<le> n" "\<And>i. i < m \<Longrightarrow> combine b (h0 i) (h1 i) = h i"
  shows "rel_wire (if b then Bin else Arith) (pad n m h0) (pad n m h1) (pad n m h)"
proof (cases b)
  case True
  then have "pad n m (\<lambda>i. h0 i XOR h1 i) = pad n m h" using assms(2) by (intro pad_cong) (simp add: combine_def)
  then show ?thesis using True assms(1) by (simp add: rel_wire_def pad_vxor)
next
  case False
  then have "pad n m (\<lambda>i. h0 i + h1 i) = pad n m h" using assms(2) by (intro pad_cong) (simp add: combine_def)
  then show ?thesis using False assms(1) by (simp add: rel_wire_def pad_vadd)
qed

lemma rel_wire_lengths: "rel_wire K v0 v1 v \<Longrightarrow> length v0 = length v \<and> length v1 = length v"
  by (simp add: rel_wire_def)

lemma rel_combine:
  assumes "rel_wire (if b then Bin else Arith) x0 x1 x" "i < length x"
  shows "combine b (x0 ! i) (x1 ! i) = x ! i"
proof -
  have l: "i < length x0" "i < length x1" using assms by (simp_all add: rel_wire_def)
  have "x = (if b then vxor x0 x1 else vadd x0 x1)" using assms(1) unfolding rel_wire_def by (cases b) simp_all
  then show ?thesis using l by (simp add: combine_def)
qed

definition product_shares_ok :: "nat \<Rightarrow> 'g dealer \<Rightarrow> gate \<Rightarrow> bool" where
  "product_shares_ok n \<delta>N f \<longleftrightarrow>
     triple_ok (triple_width n f) (g_binary f) (d_triple \<delta>N P0 (mult_idx f)) (d_triple \<delta>N P1 (mult_idx f))"

lemma mul_SIMD_shares:
  assumes "product_shares_ok n \<delta>N f" "gt f = MulSIMD" "typed \<kappa> f"
    "rel_wire (\<kappa> (in1_idx f)) (\<sigma> P0 (in1_idx f)) (\<sigma> P1 (in1_idx f)) (\<rho> (in1_idx f))"
    "rel_wire (\<kappa> (in2_idx f)) (\<sigma> P0 (in2_idx f)) (\<sigma> P1 (in2_idx f)) (\<rho> (in2_idx f))"
    "plain_op n k \<Pi> ins \<rho> f = Inr v"
  shows "rel_wire (\<kappa> (out_idx f)) (triple_value n \<delta>N P0 (\<sigma> P0) f (opened_pairs n \<delta>N \<sigma> f))
     (triple_value n \<delta>N P1 (\<sigma> P1) f (opened_pairs n \<delta>N \<sigma> f)) v"
proof -
  let ?b = "g_binary f" and ?x = "in1_idx f" and ?y = "in2_idx f" and ?z = "\<lambda>p. product_at n \<delta>N p f (opened_pairs n \<delta>N \<sigma> f)"
  have w: "triple_width n f = g_size f" using assms(2) by (simp add: triple_width_def)
  have K: "\<kappa> ?x = (if ?b then Bin else Arith)" "\<kappa> ?y = (if ?b then Bin else Arith)" "\<kappa> (out_idx f) = (if ?b then Bin else Arith)"
    using assms(2,3) by (simp_all add: typed_def product_type_def Let_def)
  have m: "g_size f \<le> n" "g_size f \<le> length (\<rho> ?x)" "g_size f \<le> length (\<rho> ?y)"
    and v: "v = pad n (g_size f) (\<lambda>i. times ?b (\<rho> ?x ! i) (\<rho> ?y ! i))"
    using assms(2,6) by (auto simp: plain_op_def product_type_def product_width_def need_Inr_iff Let_def not_less
        split: if_splits)
  have "combine ?b (?z P0 i) (?z P1 i) = times ?b (\<rho> ?x ! i) (\<rho> ?y ! i)" if "i < g_size f" for i
    using product_at_shares[OF assms(1)[unfolded product_shares_ok_def], of i \<sigma>] that w assms(2) m
      rel_combine[OF assms(4)[unfolded K], of i] rel_combine[OF assms(5)[unfolded K], of i]
    by (simp add: left_factor_def right_factor_def)
  from rel_pad[OF m(1) this] show ?thesis
    using assms(2) K(3) by (simp add: triple_value_def v w Let_def)
qed

lemma bit2A_value_shares:
  assumes "product_shares_ok n \<delta>N f" "gt f = Bit2A" "typed \<kappa> f" "\<not> g_binary f"
    "rel_wire (\<kappa> (in1_idx f)) (\<sigma> P0 (in1_idx f)) (\<sigma> P1 (in1_idx f)) (\<rho> (in1_idx f))"
    "plain_op n k \<Pi> ins \<rho> f = Inr v"
  shows "rel_wire (\<kappa> (out_idx f)) (triple_value n \<delta>N P0 (\<sigma> P0) f (opened_pairs n \<delta>N \<sigma> f))
     (triple_value n \<delta>N P1 (\<sigma> P1) f (opened_pairs n \<delta>N \<sigma> f)) v"
proof -
  let ?x = "in1_idx f" and ?z = "\<lambda>p. product_at n \<delta>N p f (opened_pairs n \<delta>N \<sigma> f)"
  have w: "triple_width n f = g_size f" using assms(2) by (simp add: triple_width_def)
  have K: "\<kappa> ?x = Bin" "\<kappa> (out_idx f) = Arith" using assms(2,3) by (simp_all add: typed_def Let_def)
  have m: "g_size f \<le> n" "g_size f \<le> length (\<rho> ?x)" and v: "v = pad n (g_size f) (\<lambda>i. \<rho> ?x ! i AND 1)"
    using assms(2,6) by (auto simp: plain_op_def product_type_def move_type_def need_Inr_iff Let_def not_less
        split: if_splits)
  have x: "\<rho> ?x ! i = (\<sigma> P0 ?x ! i) XOR (\<sigma> P1 ?x ! i)" if "i < g_size f" for i
    using rel_combine[of True "\<sigma> P0 ?x" "\<sigma> P1 ?x" "\<rho> ?x" i] assms(5) K m that by (simp add: combine_def)
  have "((\<sigma> P0 ?x ! i AND 1) - 2 * ?z P0 i) + ((\<sigma> P1 ?x ! i AND 1) - 2 * ?z P1 i) = \<rho> ?x ! i AND 1"
    if "i < g_size f" for i
    unfolding x[OF that]
    using product_at_shares[OF assms(1)[unfolded product_shares_ok_def], of i \<sigma>] that w assms(2,4)
    by (intro bit2A_shares) (simp add: left_factor_def right_factor_def combine_def times_def)
  then have "rel_wire Arith (pad n (g_size f) (\<lambda>i. (\<sigma> P0 ?x ! i AND 1) - 2 * ?z P0 i))
      (pad n (g_size f) (\<lambda>i. (\<sigma> P1 ?x ! i AND 1) - 2 * ?z P1 i)) v"
    unfolding v using rel_pad[OF m(1), of False] by (simp add: combine_def)
  then show ?thesis using assms(2) K(2) by (simp add: triple_value_def w Let_def)
qed

text \<open>Zero tests: the lowest bits after each layer.\<close>

lemma eqz_prepare_nth:
  assumes "g_layer f = 0" "g_size f \<le> length x" "i < g_size f"
  shows "eqz_prepare P0 f x ! i = NOT (x ! i)" "eqz_prepare P1 f x ! i = - (x ! i)"
  using assms by (simp_all add: eqz_prepare_def scatter_prefix nth_append)

lemma eqz_inputs:
  assumes "gt f = EQZ" "typed \<kappa> f" "rel_wire (\<kappa> (in1_idx f)) x0 x1 x" "i < g_size f" "g_size f \<le> length x"
  shows "low_ones (2 ^ (5 - g_layer f)) (eqz_prepare P0 f x0 ! i XOR eqz_prepare P1 f x1 ! i) \<longleftrightarrow> x ! i = 0"
proof (cases "g_layer f")
  case 0
  then have K: "\<kappa> (in1_idx f) = Arith" using assms(1,2) by (simp add: typed_def Let_def)
  have l: "length x0 = length x" "length x1 = length x" using assms(3) by (simp_all add: rel_wire_def)
  have s: "x ! i = x0 ! i + x1 ! i"
    using rel_combine[of False x0 x1 x i] assms(3-5) K by (simp add: combine_def)
  have p: "eqz_prepare P0 f x0 ! i = NOT (x0 ! i)" "eqz_prepare P1 f x1 ! i = - (x1 ! i)"
    using eqz_prepare_nth[OF 0] assms(4,5) l by simp_all
  show ?thesis using eqz_start[of "x0 ! i" "x1 ! i"] low_ones_all unfolding 0 p s by simp
next
  case (Suc j)
  then have K: "\<kappa> (in1_idx f) = Part j (g_size f)" using assms(1,2) by (simp add: typed_def Let_def)
  have "low_ones (2 ^ (4 - j)) (x0 ! i XOR x1 ! i) \<longleftrightarrow> x ! i = 0"
    using assms(3,4) unfolding K rel_wire_def by simp
  then show ?thesis using Suc by (simp add: eqz_prepare_def)
qed

lemma eqz_value_shares:
  assumes "product_shares_ok n \<delta>N f" "gt f = EQZ" "typed \<kappa> f" "g_binary f"
    "rel_wire (\<kappa> (in1_idx f)) (\<sigma> P0 (in1_idx f)) (\<sigma> P1 (in1_idx f)) (\<rho> (in1_idx f))"
    "plain_op n k \<Pi> ins \<rho> f = Inr v"
  shows "rel_wire (\<kappa> (out_idx f)) (triple_value n \<delta>N P0 (\<sigma> P0) f (opened_pairs n \<delta>N \<sigma> f))
     (triple_value n \<delta>N P1 (\<sigma> P1) f (opened_pairs n \<delta>N \<sigma> f)) v"
proof -
  let ?x = "in1_idx f" and ?m = "g_size f" and ?z = "\<lambda>p. product_at n \<delta>N p f (opened_pairs n \<delta>N \<sigma> f)"
  have w: "triple_width n f = ?m" using assms(2) by (simp add: triple_width_def)
  have j: "g_layer f \<le> 4" and K: "\<kappa> (out_idx f) = (if g_layer f = 4 then Bin else Part (g_layer f) ?m)"
    using assms(2,3) by (simp_all add: typed_def Let_def)
  have m: "?m \<le> n" "?m \<le> length (\<rho> ?x)"
    and v: "v = pad n ?m (\<lambda>i. if g_layer f = 4 then of_bool (\<rho> ?x ! i = 0) else \<rho> ?x ! i)"
    using assms(2,6) by (auto simp: plain_op_def product_type_def move_type_def need_Inr_iff Let_def not_less
        split: if_splits)
  have z: "low_ones (2 ^ (4 - g_layer f)) (?z P0 i XOR ?z P1 i) \<longleftrightarrow> \<rho> ?x ! i = 0" if "i < ?m" for i
  proof -
    let ?y = "eqz_prepare P0 f (\<sigma> P0 ?x) ! i XOR eqz_prepare P1 f (\<sigma> P1 ?x) ! i"
    have "?z P0 i XOR ?z P1 i = drop_bit (2 ^ (4 - g_layer f)) ?y AND ?y"
      using product_at_shares[OF assms(1)[unfolded product_shares_ok_def], of i \<sigma>] that w assms(2,4)
      by (simp add: left_factor_def right_factor_def combine_def times_def eqz_width_def)
    moreover have "(2 :: nat) * 2 ^ (4 - g_layer f) = 2 ^ (5 - g_layer f)"
      using j by (metis Suc_diff_le numeral_eq_Suc power_Suc pred_numeral_simps(3))
    ultimately show ?thesis
      using eqz_step[of "2 ^ (4 - g_layer f)" ?y] eqz_inputs[OF assms(2,3,5) that m(2)] by simp
  qed
  show ?thesis
  proof (cases "g_layer f = 4")
    case True
    have "lowest_bit (?z P0 i) XOR lowest_bit (?z P1 i) = of_bool (\<rho> ?x ! i = 0)" if "i < ?m" for i
    proof -
      have "lowest_bit (?z P0 i) XOR lowest_bit (?z P1 i) = (?z P0 i XOR ?z P1 i) AND 1"
        by (simp add: lowest_bit_and and_1_ring odd_xor_ring)
      then show ?thesis
        using z[OF that] True low_ones_1[of "?z P0 i XOR ?z P1 i"] and_1_ring[of "?z P0 i XOR ?z P1 i"]
        by (auto split: if_splits)
    qed
    then have "rel_wire Bin (pad n ?m (\<lambda>i. lowest_bit (?z P0 i))) (pad n ?m (\<lambda>i. lowest_bit (?z P1 i))) v"
      unfolding v using rel_pad[OF m(1), of True] True by (simp add: combine_def)
    then show ?thesis using assms(2) K True by (simp add: triple_value_def w Let_def)
  next
    case False
    have "rel_wire (Part (g_layer f) ?m) (pad n ?m (?z P0)) (pad n ?m (?z P1)) v"
      unfolding v rel_wire_def using m(1) z False by (simp add: pad_nth)
    then show ?thesis using assms(2) K False by (simp add: triple_value_def w Let_def)
  qed
qed

lemma compaction_value_shares:
  assumes "product_shares_ok n \<delta>N f" "gt f = Compaction" "typed \<kappa> f" "\<not> g_binary f"
    "rel_wire (\<kappa> (in1_idx f)) (\<sigma> P0 (in1_idx f)) (\<sigma> P1 (in1_idx f)) (\<rho> (in1_idx f))"
    "plain_op n k \<Pi> ins \<rho> f = Inr v"
  shows "rel_wire (\<kappa> (out_idx f)) (triple_value n \<delta>N P0 (\<sigma> P0) f (opened_pairs n \<delta>N \<sigma> f))
     (triple_value n \<delta>N P1 (\<sigma> P1) f (opened_pairs n \<delta>N \<sigma> f)) v"
proof -
  let ?x = "\<rho> (in1_idx f)" and ?xa = "\<sigma> P0 (in1_idx f)" and ?xb = "\<sigma> P1 (in1_idx f)"
    and ?z = "\<lambda>p. product_at n \<delta>N p f (opened_pairs n \<delta>N \<sigma> f)"
  have w: "triple_width n f = n" using assms(2) by (simp add: triple_width_def)
  have K: "\<kappa> (in1_idx f) = Arith" "\<kappa> (out_idx f) = Arith" using assms(2,3) by (simp_all add: typed_def Let_def)
  have m: "n \<le> length ?x" and v: "v = compaction_plain n ?x"
    using assms(2,6) by (auto simp: plain_op_def need_Inr_iff Let_def)
  have l: "length ?xa = length ?x" "length ?xb = length ?x" and x: "vadd ?xa ?xb = ?x"
    using assms(5) unfolding K by (simp_all add: rel_wire_def)
  have n: "n \<le> length ?xa" "n \<le> length ?xb" using m l by simp_all
  have zr: "zero_ranks P0 n ?xa ! i + zero_ranks P1 n ?xb ! i = zero_ranks P0 n ?x ! i" if "i < n" for i
    using arg_cong[OF zero_ranks_shares[OF n], of "\<lambda>u. u ! i"] that x by simp
  have one: "one_ranks P0 n ?xa ! i + one_ranks P1 n ?xb ! i = one_ranks P0 n ?x ! i" if "i < n" for i
    using arg_cong[OF one_ranks_shares[OF n], of "\<lambda>u. u ! i"] that x n by simp
  have xi: "?xa ! i + ?xb ! i = ?x ! i" if "i < n" for i
    using arg_cong[OF x, of "\<lambda>u. u ! i"] that n by simp
  have z: "?z P0 i + ?z P1 i = ?x ! i * one_ranks P0 n ?x ! i" if "i < n" for i
    using product_at_shares[OF assms(1)[unfolded product_shares_ok_def], of i \<sigma>] that w assms(2,4) xi[OF that] one[OF that]
    by (simp add: left_factor_def right_factor_def combine_def times_def)
  have "rel_wire Arith (map (\<lambda>i. ?z P0 i + zero_ranks P0 n ?xa ! i - 1) [0..<n])
     (map (\<lambda>i. ?z P1 i + zero_ranks P1 n ?xb ! i) [0..<n]) v"
  proof (rule rel_ArithI)
    show "vadd (map (\<lambda>i. ?z P0 i + zero_ranks P0 n ?xa ! i - 1) [0..<n])
     (map (\<lambda>i. ?z P1 i + zero_ranks P1 n ?xb ! i) [0..<n]) = v"
      unfolding v compaction_plain_def
      by (rule pointwise_shares) (simp add: z[symmetric] zr[symmetric] algebra_simps)
  qed simp
  then show ?thesis using assms(2) K(2) by (simp add: triple_value_def w Let_def)
qed

section \<open>Moves\<close>

definition move_ok :: "nat \<Rightarrow> 'g dealer \<Rightarrow> gate \<Rightarrow> bool" where
  "move_ok n \<delta>N f \<longleftrightarrow>
     (let i = g_shuffle_idx f; w = out_idx f in
      legs_ok n (d_perm \<delta>N i) (d_rcv \<delta>N P0 i) (d_snd \<delta>N P1 i) (d_snd \<delta>N P0 i) (d_rcv \<delta>N P1 i) \<and>
      corrected f \<delta>N \<and> length (d_mask \<delta>N P0 w) = n \<and> length (d_mask \<delta>N P1 w) = n)"

lemma dealt_values:
  assumes "dealt P n K M done \<delta>N f \<delta> \<delta>'"
  shows "triple_type (gt f) \<Longrightarrow> product_shares_ok n \<delta>N f" "move_type (gt f) \<Longrightarrow> move_ok n \<delta>N f"
proof -
  have "length (d_mask \<delta>N p (out_idx f)) = n" if "move_type (gt f)" "p \<noteq> D" for p
    using assms that by (simp add: dealt_def send_step_def Let_def split_beta)
  then show "triple_type (gt f) \<Longrightarrow> product_shares_ok n \<delta>N f" "move_type (gt f) \<Longrightarrow> move_ok n \<delta>N f"
    using assms by (auto simp: dealt_def product_shares_ok_def move_ok_def settled_def Let_def)
qed

lemma move_value_shares:
  assumes "move_ok n \<delta>N f" "move_type (gt f)" "typed \<kappa> f"
    "rel_wire (\<kappa> (in1_idx f)) (\<sigma> P0 (in1_idx f)) (\<sigma> P1 (in1_idx f)) (\<rho> (in1_idx f))"
    "plain_op n k (d_perm \<delta>N) ins \<rho> f = Inr v"
  shows "rel_wire (\<kappa> (out_idx f)) (move_value \<delta>N P0 f (shuffle_part \<delta>N P1 (\<sigma> P1) f))
     (move_value \<delta>N P1 f (shuffle_part \<delta>N P0 (\<sigma> P0) f)) v"
proof -
  let ?i = "g_shuffle_idx f" and ?w = "out_idx f"
  let ?xa = "\<sigma> P0 (in1_idx f)" and ?xb = "\<sigma> P1 (in1_idx f)"
  have K: "\<kappa> (in1_idx f) = Arith" "\<kappa> ?w = Arith" using assms(2,3) by (simp_all add: typed_def Let_def)
  have l: "length (\<rho> (in1_idx f)) = n"
    and v: "v = perm_apply (if gt f = Unshuffle then perm_inverse (d_perm \<delta>N ?i) else d_perm \<delta>N ?i) (\<rho> (in1_idx f))"
    using assms(2,5) unfolding move_type_def
    by (elim disjE; auto simp: plain_op_def Let_def split: if_splits)+
  have x: "length ?xa = n" "length ?xb = n" and s: "vadd ?xa ?xb = \<rho> (in1_idx f)"
    using assms(4) l unfolding K by (simp_all add: rel_wire_def)
  have legs: "legs_ok n (d_perm \<delta>N ?i) (d_rcv \<delta>N P0 ?i) (d_snd \<delta>N P1 ?i) (d_snd \<delta>N P0 ?i) (d_rcv \<delta>N P1 ?i)"
    and R: "length (d_mask \<delta>N P0 ?w) = n" "length (d_mask \<delta>N P1 ?w) = n"
    using assms(1) by (simp_all add: move_ok_def Let_def)
  obtain R where c: "corrections (if gt f = Unshuffle then perm_inverse (d_perm \<delta>N ?i) else d_perm \<delta>N ?i) R
      (d_mask \<delta>N P0 ?w) (d_mask \<delta>N P1 ?w) = (d_B \<delta>N P0 ?w, d_B \<delta>N P1 ?w)"
    using assms(1) by (auto simp: move_ok_def corrected_def Let_def)
  have B: "length (d_B \<delta>N P0 ?w) = n" "length (d_B \<delta>N P1 ?w) = n"
    using length_corrections[OF R] c by (metis fst_conv, metis snd_conv)
  have p: "picks f \<longleftrightarrow> gt f \<noteq> Unshuffle" using assms(2) by (auto simp: picks_def move_type_def)
  show ?thesis
  proof (cases "gt f = Unshuffle")
    case True
    show ?thesis
      unfolding K(2) v
    proof (rule rel_ArithI)
      show "length (move_value \<delta>N P0 f (shuffle_part \<delta>N P1 (\<sigma> P1) f)) =
          length (move_value \<delta>N P1 f (shuffle_part \<delta>N P0 (\<sigma> P0) f))"
        using True p B R x by (simp add: move_value_def shuffle_part_def masked_def)
      show "vadd (move_value \<delta>N P0 f (shuffle_part \<delta>N P1 (\<sigma> P1) f)) (move_value \<delta>N P1 f (shuffle_part \<delta>N P0 (\<sigma> P0) f)) =
          perm_apply (if gt f = Unshuffle then perm_inverse (d_perm \<delta>N ?i) else d_perm \<delta>N ?i) (\<rho> (in1_idx f))"
        using unshuffle_shares[OF legs x R] c True p
        by (simp add: move_value_def shuffle_part_def masked_def s[symmetric])
    qed
  next
    case False
    show ?thesis
      unfolding K(2) v
    proof (rule rel_ArithI)
      show "length (move_value \<delta>N P0 f (shuffle_part \<delta>N P1 (\<sigma> P1) f)) =
          length (move_value \<delta>N P1 f (shuffle_part \<delta>N P0 (\<sigma> P0) f))"
        using False p B R x by (simp add: move_value_def shuffle_part_def masked_def)
      show "vadd (move_value \<delta>N P0 f (shuffle_part \<delta>N P1 (\<sigma> P1) f)) (move_value \<delta>N P1 f (shuffle_part \<delta>N P0 (\<sigma> P0) f)) =
          perm_apply (if gt f = Unshuffle then perm_inverse (d_perm \<delta>N ?i) else d_perm \<delta>N ?i) (\<rho> (in1_idx f))"
        using shuffle_shares[OF legs x R] c False p
        by (simp add: move_value_def shuffle_part_def masked_def s[symmetric])
    qed
  qed
qed

section \<open>Any gate\<close>

text \<open>The wires a gate reads.\<close>

definition reads :: "nat \<Rightarrow> gate \<Rightarrow> wire_id list" where
  "reads k f =
     (if gt f = Input \<or> gt f = SetConstVecSIMD then []
      else if gt f = ColumnSumsToNodes then take k (data_parallel f)
      else if two_inputs (gt f) then [in1_idx f, in2_idx f] else [in1_idx f])"

definition parts_agree :: "parts \<Rightarrow> parts \<Rightarrow> gate \<Rightarrow> bool" where
  "parts_agree pt pt' f \<longleftrightarrow> p_mul pt f = p_mul pt' f \<and> p_and pt f = p_and pt' f \<and>
     p_shuffle pt f = p_shuffle pt' f \<and> p_reveal pt f = p_reveal pt' f"

lemma const_shares:
  "rel_wire Arith (const_share P n f P0 g) (const_share P n f P1 g) (padded n (gvals f))"
proof (rule rel_ArithI)
  let ?vals = "padded n (gvals f)" and ?r = "fst (draw_vec P (length (padded n (gvals f))) g)"
  have l: "length ?r = length ?vals" by simp
  show "length (const_share P n f P0 g) = length (const_share P n f P1 g)" by (simp add: const_share_def Let_def)
  show "vadd (const_share P n f P0 g) (const_share P n f P1 g) = ?vals"
    using l by (auto intro!: nth_equalityI simp: const_share_def Let_def)
qed

lemmas type_defs = linear_type_def linear2_type_def permute_type_def product_type_def move_type_def

lemma plain_op_local:
  "linear_type (gt f) \<Longrightarrow> plain_op n k \<Pi> ins \<rho> f = linear_op n k f P0 (\<rho> (in1_idx f))"
  "linear2_type (gt f) \<Longrightarrow> plain_op n k \<Pi> ins \<rho> f = linear2_op n f (\<rho> (in1_idx f)) (\<rho> (in2_idx f))"
  "permute_type (gt f) \<Longrightarrow> plain_op n k \<Pi> ins \<rho> f = permute_op n f (\<rho> (in1_idx f)) (\<rho> (in2_idx f))"
proof -
  show "linear_type (gt f) \<Longrightarrow> plain_op n k \<Pi> ins \<rho> f = linear_op n k f P0 (\<rho> (in1_idx f))"
    unfolding linear_type_def by (elim disjE) (simp_all add: plain_op_def Let_def type_defs)
  show "linear2_type (gt f) \<Longrightarrow> plain_op n k \<Pi> ins \<rho> f = linear2_op n f (\<rho> (in1_idx f)) (\<rho> (in2_idx f))"
    unfolding linear2_type_def by (elim disjE) (simp_all add: plain_op_def Let_def type_defs)
  show "permute_type (gt f) \<Longrightarrow> plain_op n k \<Pi> ins \<rho> f = permute_op n f (\<rho> (in1_idx f)) (\<rho> (in2_idx f))"
    unfolding permute_type_def by (elim disjE) (simp_all add: plain_op_def Let_def type_defs)
qed

lemma typed_local:
  assumes "typed \<kappa> f"
  shows "local_type (gt f) \<Longrightarrow> \<kappa> (in1_idx f) = Arith \<and> \<kappa> (out_idx f) = Arith"
    "linear2_type (gt f) \<Longrightarrow> \<kappa> (in2_idx f) = Arith" "permute_type (gt f) \<Longrightarrow> \<kappa> (in2_idx f) = Public"
  using assms unfolding typed_def Let_def local_type_def by blast+

lemma local_value_shares:
  assumes "local_type (gt f)" "typed \<kappa> f" "\<And>w. w \<in> set (reads k f) \<Longrightarrow> rel_wire (\<kappa> w) (\<sigma> P0 w) (\<sigma> P1 w) (\<rho> w)"
    "plain_op n k \<Pi> ins \<rho> f = Inr v"
  shows "\<exists>va vb. local_value n k P0 (\<sigma> P0) f = Inr va \<and> local_value n k P1 (\<sigma> P1) f = Inr vb \<and>
     rel_wire (\<kappa> (out_idx f)) va vb v"
proof -
  let ?i = "in1_idx f" and ?j = "in2_idx f"
  have t: "\<not> (linear_type (gt f) \<and> (permute_type (gt f) \<or> linear2_type (gt f)))" "\<not> (permute_type (gt f) \<and> linear2_type (gt f))"
    by (auto simp: linear_type_def permute_type_def linear2_type_def)
  have r1: "rel_wire (\<kappa> ?i) (\<sigma> P0 ?i) (\<sigma> P1 ?i) (\<rho> ?i)"
    using assms(1,3) by (auto simp: reads_def local_type_def linear_type_def permute_type_def linear2_type_def
        two_inputs_def split: if_splits)
  have r2: "rel_wire (\<kappa> ?j) (\<sigma> P0 ?j) (\<sigma> P1 ?j) (\<rho> ?j)" if "permute_type (gt f) \<or> linear2_type (gt f)"
    using that assms(3) by (auto simp: reads_def permute_type_def linear2_type_def two_inputs_def)
  consider (li) "linear_type (gt f)" | (l2) "linear2_type (gt f)" | (pe) "permute_type (gt f)"
    using assms(1) by (auto simp: local_type_def)
  then show ?thesis
  proof cases
    case li
    have K: "\<kappa> ?i = Arith" "\<kappa> (out_idx f) = Arith" and v: "linear_op n k f P0 (\<rho> ?i) = Inr v"
      using typed_local(1)[OF assms(2,1)] assms(4) plain_op_local(1)[OF li] by simp_all
    show ?thesis using linear_op_shares[OF li r1[unfolded K] v] t li K by (simp add: local_value_def Let_def)
  next
    case l2
    have K: "\<kappa> ?i = Arith" "\<kappa> ?j = Arith" "\<kappa> (out_idx f) = Arith" and v: "linear2_op n f (\<rho> ?i) (\<rho> ?j) = Inr v"
      using typed_local(1)[OF assms(2,1)] typed_local(2)[OF assms(2) l2] assms(4) plain_op_local(2)[OF l2] by simp_all
    show ?thesis using linear2_op_shares[OF l2 r1[unfolded K] r2[unfolded K] v] t l2 K by (simp add: local_value_def Let_def)
  next
    case pe
    have K: "\<kappa> ?i = Arith" "\<kappa> ?j = Public" "\<kappa> (out_idx f) = Arith" and v: "permute_op n f (\<rho> ?i) (\<rho> ?j) = Inr v"
      using typed_local(1)[OF assms(2,1)] typed_local(3)[OF assms(2) pe] assms(4) plain_op_local(3)[OF pe] by simp_all
    have y: "\<sigma> P0 ?j = \<rho> ?j" "\<sigma> P1 ?j = \<rho> ?j" using r2 pe unfolding K rel_wire_def by simp_all
    show ?thesis using permute_op_shares[OF r1[unfolded K] v] t pe K y by (simp add: local_value_def Let_def)
  qed
qed

lemma columns_value_shares:
  assumes "gt f = ColumnSumsToNodes" "typed \<kappa> f" "\<And>w. w \<in> set (reads k f) \<Longrightarrow> rel_wire (\<kappa> w) (\<sigma> P0 w) (\<sigma> P1 w) (\<rho> w)"
    "plain_op n k \<Pi> ins \<rho> f = Inr v"
  shows "\<exists>va vb. column_sums_vec n k (map (\<sigma> P0) (take k (data_parallel f))) = Inr va \<and>
     column_sums_vec n k (map (\<sigma> P1) (take k (data_parallel f))) = Inr vb \<and> rel_wire (\<kappa> (out_idx f)) va vb v"
proof -
  let ?ws = "take k (data_parallel f)"
  have K: "\<And>w. w \<in> set ?ws \<Longrightarrow> \<kappa> w = Arith" "\<kappa> (out_idx f) = Arith"
    using assms(1,2) by (auto simp: typed_def Let_def dest: in_set_takeD)
  have v: "column_sums_vec n k (map \<rho> ?ws) = Inr v"
    using assms(1,4) by (simp add: plain_op_def Let_def product_type_def permute_type_def linear2_type_def
        linear_type_def split: if_splits)
  have r: "rel_wire Arith (map (\<sigma> P0) ?ws ! i) (map (\<sigma> P1) ?ws ! i) (map \<rho> ?ws ! i)" if "i < length (map \<rho> ?ws)" for i
  proof -
    have "?ws ! i \<in> set ?ws" by (rule nth_mem) (use that in simp)
    then show ?thesis using assms(1) assms(3)[of "?ws ! i"] K(1)[of "?ws ! i"] that by (simp add: reads_def)
  qed
  show ?thesis using column_sums_shares[OF _ _ r v] K(2) by simp
qed

lemma gate_shares:
  assumes "dealt P n K M done \<delta>N f \<delta> \<delta>'" "typed \<kappa> f" "fields_ok n f" "known_type (gt f)" "gt f \<noteq> Output"
    "\<And>w. w \<in> set (reads k f) \<Longrightarrow> rel_wire (\<kappa> w) (\<sigma> P0 w) (\<sigma> P1 w) (\<rho> w)"
    "plain_op n k (d_perm \<delta>N) ins \<rho> f = Inr v"
    "gt f = Input \<Longrightarrow> rel_wire Arith (inputs P0 (out_idx f)) (inputs P1 (out_idx f)) (ins (out_idx f))"
    "\<And>p. interactive f \<Longrightarrow> parts_agree (pt p) (both_parts n \<delta>N \<sigma> p) f"
  shows "\<exists>va vb. gate_value P n k (inputs P0) \<delta>N P0 (\<sigma> P0) (pt P0) g f = Inr va \<and>
     gate_value P n k (inputs P1) \<delta>N P1 (\<sigma> P1) (pt P1) g f = Inr vb \<and> rel_wire (\<kappa> (out_idx f)) va vb v"
proof -
  let ?i = "in1_idx f" and ?j = "in2_idx f"
  consider (mv) "move_type (gt f)" | (tr) "triple_type (gt f)" "\<not> move_type (gt f)"
    | (re) "gt f = Reveal" | (inp) "gt f = Input" | (cv) "gt f = SetConstVecSIMD" | (cs) "gt f = ColumnSumsToNodes"
    | (lo) "local_type (gt f)" using assms(4,5) by (auto simp: known_type_def)
  then show ?thesis
  proof cases
    case mv
    then have "interactive f" by (auto simp: interactive_def interactive_type_def move_type_def)
    then have pt: "p_shuffle (pt P0) f = shuffle_part \<delta>N P1 (\<sigma> P1) f" "p_shuffle (pt P1) f = shuffle_part \<delta>N P0 (\<sigma> P0) f"
      using assms(9)[of P0] assms(9)[of P1] by (simp_all add: parts_agree_def both_parts_def partner_of_def)
    have r: "rel_wire (\<kappa> ?i) (\<sigma> P0 ?i) (\<sigma> P1 ?i) (\<rho> ?i)"
      using assms(6) mv by (auto simp: reads_def move_type_def two_inputs_def linear2_type_def permute_type_def product_type_def)
    show ?thesis
      using move_value_shares[where \<sigma> = \<sigma> and \<rho> = \<rho>, OF dealt_values(2)[OF assms(1) mv] mv assms(2) r assms(7)] mv
      by (auto simp: gate_value_def pt move_type_def)
  next
    case tr
    then have "interactive f" by (auto simp: interactive_def interactive_type_def triple_type_def)
    then have pt: "(if g_binary f then p_and (pt p) f else p_mul (pt p) f) = opened_pairs n \<delta>N \<sigma> f" for p
      using assms(9)[of p] both_parts_pairs[OF tr(1), of n \<delta>N \<sigma> p] by (simp add: parts_agree_def split: if_splits)
    have gv: "gate_value P n k (inputs p) \<delta>N p (\<sigma> p) (pt p) g f = Inr (triple_value n \<delta>N p (\<sigma> p) f (opened_pairs n \<delta>N \<sigma> f))" for p
      unfolding gate_value_def pt using tr by (auto simp: triple_type_def)
    have r1: "rel_wire (\<kappa> ?i) (\<sigma> P0 ?i) (\<sigma> P1 ?i) (\<rho> ?i)"
      using assms(6) tr by (auto simp: reads_def triple_type_def split: if_splits)
    note ok = dealt_values(1)[OF assms(1) tr(1)]
    consider (co) "gt f = Compaction" "\<not> g_binary f" | (mu) "gt f = MulSIMD" | (eq) "gt f = EQZ" "g_binary f"
      | (bi) "gt f = Bit2A" "\<not> g_binary f" using tr(1) assms(3) by (auto simp: triple_type_def fields_ok_def)
    then show ?thesis
    proof cases
      case co
      then show ?thesis using compaction_value_shares[where \<sigma> = \<sigma> and \<rho> = \<rho>, OF ok co(1) assms(2) co(2) r1 assms(7)] gv by simp
    next
      case mu
      have "rel_wire (\<kappa> ?j) (\<sigma> P0 ?j) (\<sigma> P1 ?j) (\<rho> ?j)"
        using assms(6) mu by (simp add: reads_def two_inputs_def product_type_def)
      then show ?thesis using mul_SIMD_shares[where \<sigma> = \<sigma> and \<rho> = \<rho>, OF ok mu assms(2) r1 _ assms(7)] gv by simp
    next
      case eq
      then show ?thesis using eqz_value_shares[where \<sigma> = \<sigma> and \<rho> = \<rho>, OF ok eq(1) assms(2) eq(2) r1 assms(7)] gv by simp
    next
      case bi
      then show ?thesis using bit2A_value_shares[where \<sigma> = \<sigma> and \<rho> = \<rho>, OF ok bi(1) assms(2) bi(2) r1 assms(7)] gv by simp
    qed
  next
    case re
    then have "interactive f" by (simp add: interactive_def interactive_type_def)
    then have pt: "p_reveal (pt p) f = vadd (take n (\<sigma> P0 ?i)) (take n (\<sigma> P1 ?i))" for p
      using assms(9)[of p] re by (simp add: parts_agree_def both_parts_def reveal_part_def)
    have r: "rel_wire (\<kappa> ?i) (\<sigma> P0 ?i) (\<sigma> P1 ?i) (\<rho> ?i)"
      using assms(6) re by (auto simp: reads_def two_inputs_def linear2_type_def permute_type_def product_type_def)
    have K: "\<kappa> ?i = Arith" "\<kappa> (out_idx f) = Public" using assms(2) re by (simp_all add: typed_def Let_def)
    have v: "v = take n (\<rho> ?i)" using assms(7) re
      by (auto simp: plain_op_def need_Inr_iff Let_def product_type_def)
    have "vadd (take n (\<sigma> P0 ?i)) (take n (\<sigma> P1 ?i)) = v"
      using r unfolding K v rel_wire_def by (simp add: take_vadd[symmetric])
    then show ?thesis using re K pt by (simp add: gate_value_def move_type_def triple_type_def rel_wire_def)
  next
    case inp
    then show ?thesis
      using assms(2,7) assms(8) by (simp add: gate_value_def plain_op_def typed_def Let_def)
  next
    case cv
    have K: "\<kappa> (out_idx f) = Arith" using assms(2) cv by (simp add: typed_def Let_def)
    have v: "v = padded n (gvals f)"
      using assms(7) cv by (simp add: plain_op_def Let_def product_type_def permute_type_def linear2_type_def linear_type_def)
    show ?thesis using cv K v const_shares[of P n f g] by (simp add: gate_value_def move_type_def triple_type_def)
  next
    case cs
    show ?thesis
      using columns_value_shares[OF cs assms(2,6,7)] cs by (simp add: gate_value_def move_type_def triple_type_def)
  next
    case lo
    then have t: "gt f \<noteq> Input" "\<not> move_type (gt f)" "\<not> triple_type (gt f)" "gt f \<noteq> Reveal" "gt f \<noteq> SetConstVecSIMD"
      "gt f \<noteq> ColumnSumsToNodes"
      by (auto simp: local_type_def linear_type_def linear2_type_def permute_type_def move_type_def triple_type_def)
    show ?thesis using local_value_shares[OF lo assms(2,6,7)] t by (simp add: gate_value_def)
  qed
qed

end
