(* ===== verification/Online_Plan.thy ===== *)
theory Online_Plan
  imports Online_Values
begin

text \<open>
  Which circuits the online phase runs on: the gates are in an order in which every gate finds its
  inputs, and the counters of the readers suffice. What the dealer has handed out for a gate is
  read off the walk over the circuit.
\<close>

section \<open>The walk of the dealer, seen from one gate\<close>

fun picked :: "gate list \<Rightarrow> nat list \<Rightarrow> nat list" where
  "picked [] seen = seen"
| "picked (f # gs) seen = picked gs (if gt f = Shuffle \<or> gt f = MergedShuffle then g_shuffle_idx f # seen else seen)"

lemma set_picked: "i \<in> set (picked gs seen) \<longleftrightarrow> i \<in> set seen \<or> (\<exists>f \<in> set gs. uses f i)"
  by (induction gs seen rule: picked.induct) (auto simp: uses_def)

lemma shuffles_first_append:
  "shuffles_first seen (gs @ hs) \<longleftrightarrow> shuffles_first seen gs \<and> shuffles_first (picked gs seen) hs"
  by (induction gs seen rule: picked.induct) auto

lemma deal_other_move:
  assumes "\<forall>g \<in> set gs. move_type (gt g) \<longrightarrow> out_idx g \<noteq> w" "p \<noteq> D"
  shows "d_mask (deal P n gs \<delta>) p w = d_mask \<delta> p w" "d_B (deal P n gs \<delta>) p w = d_B \<delta> p w"
proof -
  have step: "d_mask (deal_gate P n g \<delta>) p w = d_mask \<delta> p w \<and> d_B (deal_gate P n g \<delta>) p w = d_B \<delta> p w"
    if "move_type (gt g) \<longrightarrow> out_idx g \<noteq> w" for g and \<delta> :: "'a dealer"
    using that deal_no_move[of g P n \<delta>] deal_gate_other_wire[of g w p P n \<delta>] assms(2) by (cases "move_type (gt g)") simp_all
  have "d_mask (deal P n gs \<delta>) p w = d_mask \<delta> p w \<and> d_B (deal P n gs \<delta>) p w = d_B \<delta> p w"
    using assms(1)
  proof (induction gs arbitrary: \<delta>)
    case (Cons g gs)
    then show ?case using step[of g \<delta>] by (simp add: deal_Cons)
  qed simp
  then show "d_mask (deal P n gs \<delta>) p w = d_mask \<delta> p w" "d_B (deal P n gs \<delta>) p w = d_B \<delta> p w" by simp_all
qed

lemma dealt_at:
  assumes "gs = a @ f # b" "dealable ci gs" "legs_inv n \<delta>0" "\<And>i. \<not> chosen \<delta>0 i" "0 < n" "n < 2 ^ 31"
    "\<forall>g \<in> set b. move_type (gt f) \<longrightarrow> move_type (gt g) \<longrightarrow> out_idx g \<noteq> out_idx f"
  shows "dealt P n (shuffle_idx ci + 1) (n_mults ci) (triple_indices gs) (deal P n gs \<delta>0) f
     (deal P n a \<delta>0) (deal P n (a @ [f]) \<delta>0)"
proof -
  let ?d = "deal P n a \<delta>0" and ?d' = "deal P n (a @ [f]) \<delta>0" and ?dN = "deal P n gs \<delta>0" and ?i = "g_shuffle_idx f"
  have sf: "shuffles_first [] a" "shuffles_first (picked a []) (f # b)" "shuffles_first [] (a @ [f])"
    using assms(1,2) by (simp_all add: dealable_def shuffles_first_append)
  have sb: "shuffles_first (picked (a @ [f]) []) b"
    using assms(1,2) shuffles_first_append[of "[]" "a @ [f]" b] by (simp add: dealable_def)
  note I = deal_inv[OF assms(3) _ sf(1) assms(5,6), where P = P, simplified assms(4)]
  note I' = deal_inv[OF assms(3) _ sf(3) assms(5,6), where P = P, simplified assms(4)]
  have e: "?d' = deal_gate P n f ?d" "?dN = deal P n b ?d'" by (simp_all add: deal_snoc assms(1) deal_append deal_Cons)
  have inv: "legs_inv n ?d" "legs_inv n ?d'" using I(1) I'(1) by simp_all
  have ch: "chosen ?d' j \<longleftrightarrow> chosen ?d j \<or> uses f j" for j using I(2) I'(2) by auto
  have seen: "\<And>j. j \<in> set (picked (a @ [f]) []) \<Longrightarrow> chosen ?d' j" using I'(2) by (auto simp: set_picked)
  note N = deal_inv[OF inv(2) seen sb assms(5,6), where P = P, folded e(2)]
  have un: "chosen ?d ?i" if "gt f = Unshuffle"
    using that sf(2) I(2)[of ?i] by (auto simp: set_picked)
  have mv: "settled n ?dN ?d ?d' ?i \<and> corrected f ?dN \<and> ?i < shuffle_idx ci + 1" if "move_type (gt f)"
  proof -
    have ci: "chosen ?d' ?i" using that un ch[of ?i] by (auto simp: move_picks uses_picks)
    have legs: "legs_at ?dN ?i = legs_at ?d' ?i" by (rule N(3)[OF _ disjI1[OF ci]])
    have pm: "d_perm ?dN ?i = d_perm ?d' ?i" "chosen ?dN ?i" using legs_at_chosen[OF legs] ci by simp_all
    have "\<forall>j. chosen ?d' j \<longleftrightarrow> chosen ?d j \<or> j = ?i"
      using ch that un by (auto simp: move_picks uses_picks)
    moreover have "legs_ok n (d_perm ?dN ?i) (d_rcv ?dN P0 ?i) (d_snd ?dN P1 ?i) (d_snd ?dN P0 ?i) (d_rcv ?dN P1 ?i)"
      using N(1) pm(2) unfolding legs_inv_def by metis
    moreover have "corrected f ?dN"
      using move_corrected[OF that, of P n ?d] deal_other_move[where gs = b and w = "out_idx f" and P = P and n = n and \<delta> = ?d']
        assms(7) that pm(1) unfolding corrected_def e(2)[symmetric] e(1)[symmetric] by (cases "gt f = Unshuffle") simp_all
    moreover have "?i < shuffle_idx ci + 1"
      using assms(1,2) that by (auto simp: dealable_def shuffles_within_def move_type_def shuffle_type_def)
    ultimately show ?thesis using legs assms(6) by (simp add: settled_def)
  qed
  have tr: "mult_idx f < n_mults ci \<and> mult_idx f \<in> triple_indices gs \<and> triple_ok (triple_width n f) (g_binary f)
      (d_triple ?dN P0 (mult_idx f)) (d_triple ?dN P1 (mult_idx f))" if "triple_type (gt f)"
  proof -
    have f: "f \<in> set (triple_gates gs)" using assms(1) that by (simp add: triple_gates_def)
    have "distinct (map mult_idx (triple_gates gs))" "mult_idx f < n_mults ci"
      using assms(2) f by (simp_all add: dealable_def list_all_iff)
    then show ?thesis using deal_triples_ok[OF _ f] f by (simp add: triple_indices_def)
  qed
  have ot: "d_mask ?dN p (out_idx f) = d_mask ?d' p (out_idx f) \<and> d_B ?dN p (out_idx f) = d_B ?d' p (out_idx f)"
    if "move_type (gt f)" "p \<noteq> D" for p
    using deal_other_move[OF _ that(2), where gs = b and w = "out_idx f" and P = P and n = n and \<delta> = ?d'] assms(7) that(1)
    unfolding e(2) by simp
  have co: "\<exists>rest. d_corr ?dN p = d_corr ?d' p @ rest" for p unfolding e(2) by (rule deal_corr)
  have np: "chosen ?d' = chosen ?d" if "\<not> picks f" using that ch by (simp add: fun_eq_iff uses_picks)
  have nm: "d_send ?d' = d_send ?d \<and> d_recv ?d' = d_recv ?d \<and> d_corr ?d' = d_corr ?d" if "\<not> move_type (gt f)"
    unfolding e(1) using deal_no_move[OF that, of P n ?d] by simp
  have st: "send_step P n f p ?d ?d' \<and> recv_step P n f p ?d ?d'" if "move_type (gt f)" "p \<noteq> D" for p
    unfolding e(1) using move_steps[OF inv(1) that, of P] by simp
  show ?thesis unfolding dealt_def using mv tr ot co np nm st by blast
qed

section \<open>Readers\<close>

definition drops :: "gate \<Rightarrow> wire_id list" where
  "drops f = send_drops f @ recv_drops f"

definition dropped :: "gate list \<Rightarrow> wire_id list" where
  "dropped gs = concat (map drops gs)"

definition sent :: "gate list \<Rightarrow> wire_id list" where
  "sent gs = concat (map send_drops gs)"

lemma lists_append [simp]:
  "dropped (a @ b) = dropped a @ dropped b" "sent (a @ b) = sent a @ sent b"
  "dropped (f # b) = drops f @ dropped b" "sent (f # b) = send_drops f @ sent b"
  "dropped [] = []" "sent [] = []"
  by (simp_all add: dropped_def sent_def)

lemma readers_append [simp]:
  "readers (a @ b) w = readers a w + readers b w" "readers (f # b) w = count_list (counted f) w + readers b w"
  "readers [] w = 0"
  by (simp_all add: readers_def)

lemma one_half: "recv_drops f \<noteq> [] \<Longrightarrow> send_drops f = []"
  by (auto simp: recv_drops_def send_drops_def type_defs split: if_splits)

lemma drops_le:
  assumes "fields_ok n f"
  shows "count_list (drops f) w \<le> count_list (counted f) w"
proof -
  have two: "in2_idx f \<noteq> 0" if "product_type (gt f) \<or> linear2_type (gt f) \<or> permute_type (gt f)"
    using assms that by (auto simp: fields_ok_def two_inputs_def)
  show ?thesis
  proof (cases "recv_drops f = []")
    case True
    then show ?thesis using two by (auto simp: drops_def send_drops_def counted_def)
  next
    case False
    then show ?thesis using two one_half[OF False] by (auto simp: drops_def recv_drops_def counted_def)
  qed
qed

lemma dropped_le: "list_all (fields_ok n) gs \<Longrightarrow> count_list (dropped gs) w \<le> readers gs w"
  by (induction gs) (auto intro: add_mono drops_le)

lemma sent_le: "count_list (sent gs) w \<le> count_list (dropped gs) w"
  by (induction gs) (auto simp: drops_def)

text \<open>What has been counted down when a gate of the layer \<open>l\<close> receives, after the gates \<open>a\<close>.\<close>

definition spent :: "gate list \<Rightarrow> gate list \<Rightarrow> wire_id list \<Rightarrow> bool" where
  "spent a l ex \<longleftrightarrow> (\<forall>w. count_list ex w \<le> count_list (dropped a) w + count_list (sent l) w)"

lemma budget:
  assumes "gs = a @ f # b" "list_all (fields_ok n) gs" "\<forall>w. count_list ex w \<le> count_list (dropped a) w + count_list (dropped b) w"
  shows "count_list ex w + count_list (counted f) w \<le> readers gs w"
proof -
  have "count_list (dropped a) w \<le> readers a w" "count_list (dropped b) w \<le> readers b w"
    using dropped_le[of n a w] dropped_le[of n b w] assms(1,2) by simp_all
  then show ?thesis using assms(3)[rule_format, of w] by (simp add: assms(1))
qed

lemma alive:
  assumes "gs = a @ f # b" "list_all (fields_ok n) gs" "\<forall>w. count_list ex w \<le> count_list (dropped a) w + count_list (dropped b) w"
    "set (reads k f) \<subseteq> W" "W \<subseteq> {..<nw}" "gt f = EQZ \<and> g_layer f = 0 \<longrightarrow> readers gs (in1_idx f) = 1"
    "interactive f \<or> recv_drops f \<noteq> []"
  shows "inputs_alive nw (readers gs) W (count_list ex) f"
proof -
  note b = budget[OF assms(1-3)]
  have t: "gt f \<noteq> Input" "gt f \<noteq> SetConstVecSIMD" "gt f \<noteq> ColumnSumsToNodes"
    using assms(7) by (auto simp: interactive_def interactive_type_def recv_drops_def type_defs split: if_splits)
  have in1: "in1_idx f \<in> W" using assms(4) t by (auto simp: reads_def split: if_splits)
  have c1: "count_list ex (in1_idx f) < readers gs (in1_idx f)" using b[of "in1_idx f"] by (simp add: counted_def)
  have two: "in2_idx f \<in> W \<and> bump [in1_idx f, in2_idx f] (count_list ex) (in1_idx f) \<le> readers gs (in1_idx f) \<and>
      bump [in1_idx f, in2_idx f] (count_list ex) (in2_idx f) \<le> readers gs (in2_idx f)" if "two_inputs (gt f)"
  proof -
    have "counted f = [in1_idx f, in2_idx f]"
      using assms(1,2) that by (simp add: counted_def fields_ok_def)
    then show ?thesis
      using b[of "in1_idx f"] b[of "in2_idx f"] assms(4) t that by (simp add: reads_def bump_def del: bump_simps)
  qed
  show ?thesis using in1 c1 two assms(5,6) unfolding inputs_alive_def by blast
qed

lemma bump_count: "bump ws (count_list ex) = count_list (ex @ ws)"
  by (simp add: bump_def fun_eq_iff)

section \<open>Order\<close>

definition outs :: "gate \<Rightarrow> wire_id list" where
  "outs f = (if gt f = Output then [] else [out_idx f])"

definition written :: "gate list \<Rightarrow> wire_id list" where
  "written gs = concat (map outs gs)"

lemma written_append [simp]:
  "written (a @ b) = written a @ written b" "written (f # b) = outs f @ written b" "written [] = []"
  by (simp_all add: written_def)

text \<open>
  \<open>a\<close> are the gates of the layers before. A gate with communication reads wires of earlier layers,
  any other gate may also read those written earlier in its own layer.
\<close>

fun in_order :: "nat \<Rightarrow> gate list \<Rightarrow> gate list \<Rightarrow> bool" where
  "in_order k a [] \<longleftrightarrow> True"
| "in_order k a (f # fs) \<longleftrightarrow> list_all (\<lambda>w. w \<in> set (written a)) (reads k f) \<and> in_order k (a @ [f]) fs"

definition layer_start :: "nat \<Rightarrow> gate list \<Rightarrow> gate \<Rightarrow> bool" where
  "layer_start k a f \<longleftrightarrow> (interactive f \<longrightarrow> list_all (\<lambda>w. w \<in> set (written a)) (reads k f)) \<and>
     (gt f = Unshuffle \<longrightarrow> list_ex (\<lambda>g. uses g (g_shuffle_idx f)) a)"

fun order_ok :: "nat \<Rightarrow> gate list \<Rightarrow> gate list list \<Rightarrow> bool" where
  "order_ok k a [] \<longleftrightarrow> True"
| "order_ok k a (l # ls) \<longleftrightarrow> list_all (layer_start k a) l \<and> in_order k a l \<and> order_ok k (a @ l) ls"

text \<open>Static conditions on one gate of the circuit \<open>gs\<close>; a column that is counted down keeps a reader.\<close>

definition gate_runs :: "nat \<Rightarrow> nat \<Rightarrow> nat \<Rightarrow> gate list \<Rightarrow> gate \<Rightarrow> bool" where
  "gate_runs n k nw gs f \<longleftrightarrow> fields_ok n f \<and> known_type (gt f) \<and>
     in1_idx f < nw \<and> in2_idx f < nw \<and> list_all (\<lambda>w. w < nw) (outs f) \<and>
     (gt f = EQZ \<and> g_layer f = 0 \<longrightarrow> readers gs (in1_idx f) = 1) \<and>
     (gt f = ColumnSumsToNodes \<longrightarrow>
        list_all (\<lambda>w. count_list (dropped gs) w = 0 \<or> count_list (dropped gs) w < readers gs w)
          (take k (data_parallel f)))"

definition circuit_runs :: "nat \<Rightarrow> nat \<Rightarrow> nat \<Rightarrow> gate list list \<Rightarrow> bool" where
  "circuit_runs n k nw layers \<longleftrightarrow>
     (let gs = concat layers in
      list_all (gate_runs n k nw gs) gs \<and> distinct (written gs) \<and> order_ok k [] layers)"

end
