(* ===== verification/Online_Layers.thy ===== *)
theory Online_Layers
  imports Online_Plan
begin

text \<open>
  A whole layer on one server, and the run over all layers on both: the values that the gates of a
  layer compute, as a function of the shares before the layer and the opened buffers, and that the
  evaluator computes them with every read inside its buffers and every counter in range.
\<close>

section \<open>The setting\<close>

definition setting ::
  "'g prg_ops \<Rightarrow> nat \<Rightarrow> nat \<Rightarrow> nat \<Rightarrow> circuit \<Rightarrow> gate list \<Rightarrow> 'g dealer \<Rightarrow> bool" where
  "setting P n k nw ci gs \<delta>0 \<longleftrightarrow> list_all (gate_runs n k nw gs) gs \<and> distinct (written gs) \<and> dealable ci gs \<and>
     legs_inv n \<delta>0 \<and> (\<forall>i. \<not> chosen \<delta>0 i) \<and> 0 < n \<and> n < 2 ^ 31"

abbreviation O_at ::
  "'g prg_ops \<Rightarrow> nat \<Rightarrow> circuit \<Rightarrow> gate list \<Rightarrow> 'g dealer \<Rightarrow> party \<Rightarrow> gate list \<Rightarrow> gate list \<Rightarrow> 'g \<Rightarrow> 'g storage \<Rightarrow> bool"
  where
  "O_at P n ci gs \<delta>0 p s r g \<equiv>
     O_rel p n (shuffle_idx ci + 1) (n_mults ci) (triple_indices gs) (deal P n gs \<delta>0) (deal P n s \<delta>0) (deal P n r \<delta>0) g"

lemma setting_gate:
  assumes "setting P n k nw ci gs \<delta>0" "f \<in> set gs"
  shows "gate_runs n k nw gs f" "fields_ok n f" "known_type (gt f)" "in1_idx f < nw" "in2_idx f < nw"
    "gt f \<noteq> Output \<Longrightarrow> out_idx f < nw"
    "gt f = EQZ \<and> g_layer f = 0 \<longrightarrow> readers gs (in1_idx f) = 1"
proof -
  show g: "gate_runs n k nw gs f" using assms by (simp add: setting_def list_all_iff)
  then show "fields_ok n f" "known_type (gt f)" "in1_idx f < nw" "in2_idx f < nw" "gt f \<noteq> Output \<Longrightarrow> out_idx f < nw"
    "gt f = EQZ \<and> g_layer f = 0 \<longrightarrow> readers gs (in1_idx f) = 1"
    by (simp_all add: gate_runs_def outs_def)
qed

lemma setting_fields: "setting P n k nw ci gs \<delta>0 \<Longrightarrow> list_all (fields_ok n) gs"
  by (auto simp: setting_def list_all_iff gate_runs_def)

lemma setting_fresh:
  assumes "setting P n k nw ci gs \<delta>0" "gs = a @ f # b" "gt f \<noteq> Output"
  shows "out_idx f \<notin> set (written a)" "out_idx f \<notin> set (written b)"
proof -
  have "distinct (written a @ out_idx f # written b)" using assms by (simp add: setting_def outs_def)
  then show "out_idx f \<notin> set (written a)" "out_idx f \<notin> set (written b)" by auto
qed

lemma written_lt:
  assumes "setting P n k nw ci gs \<delta>0" "set a \<subseteq> set gs"
  shows "set (written a) \<subseteq> {..<nw}"
proof
  fix w assume "w \<in> set (written a)"
  then obtain f where "f \<in> set a" "gt f \<noteq> Output" "w = out_idx f" by (auto simp: written_def outs_def split: if_splits)
  then show "w \<in> {..<nw}" using setting_gate(6)[OF assms(1), of f] assms(2) by auto
qed

lemma setting_dealt:
  assumes "setting P n k nw ci gs \<delta>0" "gs = a @ f # b"
  shows "dealt P n (shuffle_idx ci + 1) (n_mults ci) (triple_indices gs) (deal P n gs \<delta>0) f
     (deal P n a \<delta>0) (deal P n (a @ [f]) \<delta>0)"
proof -
  have "out_idx g \<noteq> out_idx f" if "g \<in> set b" "move_type (gt f)" "move_type (gt g)" for g
  proof -
    have "gt f \<noteq> Output" "gt g \<noteq> Output" using that by (auto simp: move_type_def)
    moreover from this(2) have "out_idx g \<in> set (written b)" using that(1) by (auto simp: written_def outs_def)
    ultimately show ?thesis using setting_fresh(2)[OF assms] by auto
  qed
  then show ?thesis
    using assms by (intro dealt_at) (auto simp: setting_def)
qed

section \<open>Sending\<close>

lemma send_layer:
  assumes "setting P n k nw ci gs \<delta>0" "gs = a @ l @ b" "ev_id ev = p" "ev_size ev = n"
    "W_rel nw (readers gs) W (count_list ex) \<sigma> ev" "O_at P n ci gs \<delta>0 p a r g (ev_data ev)"
    "W \<subseteq> {..<nw}" "\<forall>w. count_list ex w \<le> count_list (dropped a) w"
    "\<forall>f \<in> set l. interactive f \<longrightarrow> set (reads k f) \<subseteq> W \<and> sizes_ok n f \<sigma>"
    "\<forall>f \<in> set l. gt f = Unshuffle \<longrightarrow> chosen (deal P n r \<delta>0) (g_shuffle_idx f)"
  shows "\<exists>ev'. evaluate_send P l ev = Inr ev' \<and> W_rel nw (readers gs) W (count_list (ex @ sent l)) \<sigma> ev' \<and>
     O_at P n ci gs \<delta>0 p (a @ l) r g (ev_data ev') \<and> send_frame ev ev' \<and>
     appended n (deal P n gs \<delta>0) p \<sigma> l ev ev'"
  using assms(2-)
proof (induction l arbitrary: a ex ev)
  case Nil
  then show ?case by (simp add: evaluate_send_def send_frame_def appended_def)
next
  case (Cons f l)
  have gs: "gs = a @ f # (l @ b)" using Cons.prems(1) by simp
  have f: "f \<in> set gs" using gs by simp
  have d: "dealt P n (shuffle_idx ci + 1) (n_mults ci) (triple_indices gs) (deal P n gs \<delta>0) f
     (deal P n a \<delta>0) (deal P n (a @ [f]) \<delta>0)" by (rule setting_dealt[OF assms(1) gs])
  have al: "inputs_alive nw (readers gs) W (count_list ex) f \<and> sizes_ok n f \<sigma>" if "interactive f"
  proof -
    have "inputs_alive nw (readers gs) W (count_list ex) f"
      using alive[OF gs setting_fields[OF assms(1)], of ex k W nw] that Cons.prems(6-8) setting_gate(7)[OF assms(1) f]
      by (simp add: trans_le_add1)
    then show ?thesis using that Cons.prems(8) by simp
  qed
  have n: "0 < n" using assms(1) by (simp add: setting_def)
  obtain ev1 where 1: "evaluate_send_gate P ev f = Inr ev1"
    "W_rel nw (readers gs) W (bump (send_drops f) (count_list ex)) \<sigma> ev1"
    "O_at P n ci gs \<delta>0 p (a @ [f]) r g (ev_data ev1)" "send_frame ev ev1" "appended n (deal P n gs \<delta>0) p \<sigma> [f] ev ev1"
    using send_gate[OF Cons.prems(2-5) _ d setting_gate(2)[OF assms(1) f] n] al Cons.prems(9) by auto
  have le: "\<forall>w. count_list (ex @ send_drops f) w \<le> count_list (dropped (a @ [f])) w"
    using Cons.prems(7) by (auto simp: drops_def intro: add_mono trans_le_add1)
  have "ev_id ev1 = p" "ev_size ev1 = n" using 1(4) Cons.prems(2,3) by (simp_all add: send_frame_def)
  moreover have "gs = (a @ [f]) @ l @ b" using gs by simp
  moreover have "\<forall>f \<in> set l. interactive f \<longrightarrow> set (reads k f) \<subseteq> W \<and> sizes_ok n f \<sigma>"
    "\<forall>f \<in> set l. gt f = Unshuffle \<longrightarrow> chosen (deal P n r \<delta>0) (g_shuffle_idx f)" using Cons.prems(8,9) by simp_all
  ultimately obtain ev2 where
    2: "evaluate_send P l ev1 = Inr ev2" "W_rel nw (readers gs) W (count_list ((ex @ send_drops f) @ sent l)) \<sigma> ev2"
    "O_at P n ci gs \<delta>0 p ((a @ [f]) @ l) r g (ev_data ev2)" "send_frame ev1 ev2" "appended n (deal P n gs \<delta>0) p \<sigma> l ev1 ev2"
    using Cons.IH[of "a @ [f]" ev1 "ex @ send_drops f", OF _ _ _ 1(2)[unfolded bump_count] 1(3) Cons.prems(6) le] by blast
  have "send_frame ev ev2" "appended n (deal P n gs \<delta>0) p \<sigma> (f # l) ev ev2"
    using 1(4,5) 2(4,5) by (simp_all add: send_frame_def appended_def)
  moreover have "evaluate_send P (f # l) ev = Inr ev2" using 1(1) 2(1) by (simp add: evaluate_send_def)
  moreover have "(ex @ send_drops f) @ sent l = ex @ sent (f # l)" "(a @ [f]) @ l = a @ f # l" by simp_all
  ultimately show ?case using 2(2,3) by metis
qed

section \<open>Receiving\<close>

text \<open>What one server computes for a layer: the shares of its wires, the common stream and its output.\<close>

definition value_step ::
  "'g prg_ops \<Rightarrow> nat \<Rightarrow> nat \<Rightarrow> (wire_id \<Rightarrow> vec) \<Rightarrow> 'g dealer \<Rightarrow> party \<Rightarrow> parts \<Rightarrow>
     (wire_id \<Rightarrow> vec) \<times> 'g \<times> vec \<Rightarrow> gate \<Rightarrow> ((wire_id \<Rightarrow> vec) \<times> 'g \<times> vec) res" where
  "value_step P n k inputs \<delta>N p pt st f =
     (case st of (\<sigma>, g, res) \<Rightarrow>
        if gt f = Output then need n (\<sigma> (in1_idx f)) (Inr (\<sigma>, g, res @ take n (\<sigma> (in1_idx f))))
        else if interactive f \<and> \<not> sizes_ok n f \<sigma> then Inl Out_Of_Bounds
        else bindr (gate_value P n k inputs \<delta>N p \<sigma> pt g f) (\<lambda>v. Inr (\<sigma>(out_idx f := v), const_next P n f g, res)))"

definition layer_values ::
  "'g prg_ops \<Rightarrow> nat \<Rightarrow> nat \<Rightarrow> (wire_id \<Rightarrow> vec) \<Rightarrow> 'g dealer \<Rightarrow> party \<Rightarrow> parts \<Rightarrow>
     gate list \<Rightarrow> (wire_id \<Rightarrow> vec) \<times> 'g \<times> vec \<Rightarrow> ((wire_id \<Rightarrow> vec) \<times> 'g \<times> vec) res" where
  "layer_values P n k inputs \<delta>N p pt l st = foldr_res (value_step P n k inputs \<delta>N p pt) st l"

lemma columns_alive:
  assumes "setting P n k nw ci gs \<delta>0" "gs = a @ f # b" "gt f = ColumnSumsToNodes" "w \<in> set (take k (data_parallel f))"
    "\<forall>v. count_list ex v \<le> count_list (dropped gs) v"
  shows "count_list ex w < readers gs w \<or> count_list ex w = 0"
proof -
  have "gate_runs n k nw gs f" using setting_gate(1)[OF assms(1), of f] assms(2) by simp
  then have "count_list (dropped gs) w = 0 \<or> count_list (dropped gs) w < readers gs w"
    using assms(3,4) by (auto simp: gate_runs_def list_all_iff)
  then show ?thesis using assms(5)[rule_format, of w] by linarith
qed

lemma spent_le: "spent a l ex \<Longrightarrow> count_list ex w \<le> count_list (dropped (a @ l @ b)) w"
  using sent_le[of l w] unfolding spent_def by (simp add: add_mono) (meson add_left_mono order_trans trans_le_add1)

lemma spent_step: "spent a (f # l) ex \<Longrightarrow> spent (a @ [f]) l (ex @ recv_drops f)"
  unfolding spent_def by (simp add: drops_def)

lemma spent_alive:
  assumes "setting P n k nw ci gs \<delta>0" "gs = a @ f # l @ b" "spent a (f # l) ex" "set (reads k f) \<subseteq> W" "W \<subseteq> {..<nw}"
    "recv_drops f \<noteq> []"
  shows "inputs_alive nw (readers gs) W (count_list ex) f"
proof (rule alive)
  show "gs = a @ f # (l @ b)" using assms(2) .
  show "list_all (fields_ok n) gs" by (rule setting_fields[OF assms(1)])
  have "count_list ex w \<le> count_list (dropped a) w + count_list (sent l) w" for w
    using assms(3) one_half[OF assms(6)] by (simp add: spent_def)
  then show "\<forall>w. count_list ex w \<le> count_list (dropped a) w + count_list (dropped (l @ b)) w"
    using sent_le[of l] by (simp add: add_mono) (meson add_left_mono order_trans trans_le_add1)
  show "gt f = EQZ \<and> g_layer f = 0 \<longrightarrow> readers gs (in1_idx f) = 1"
    using setting_gate(7)[OF assms(1)] assms(2) by simp
qed (use assms(4-6) in simp_all)

lemma recv_layer:
  assumes "setting P n k nw ci gs \<delta>0" "gs = a @ l @ b" "ev_id ev = p" "ev_size ev = n" "ev_nodes ev = k"
    "input_to_val ev = inputs" "W_rel nw (readers gs) (set (written a)) (count_list ex) \<sigma> ev"
    "O_at P n ci gs \<delta>0 p s a g (ev_data ev)" "spent a l ex" "in_order k a l"
    "\<forall>f \<in> set l. gt f = Unshuffle \<longrightarrow> chosen (deal P n s \<delta>0) (g_shuffle_idx f)"
    "B_rel pt dn l ev" "\<forall>f \<in> set l. parts_fit n pt f"
    "layer_values P n k inputs (deal P n gs \<delta>0) p pt l (\<sigma>, g, ev_output ev) = Inr (\<sigma>', g', res)"
  shows "\<exists>ev' ex'. evaluate_recv P l ev = Inr ev' \<and>
     W_rel nw (readers gs) (set (written (a @ l))) (count_list ex') \<sigma>' ev' \<and>
     O_at P n ci gs \<delta>0 p s (a @ l) g' (ev_data ev') \<and> spent (a @ l) [] ex' \<and> recv_frame ev ev' \<and>
     ev_output ev' = res \<and> B_rel pt (dn @ l) [] ev'"
  using assms(2-)
proof (induction l arbitrary: a ex ev \<sigma> g dn)
  case Nil
  then show ?case by (auto simp: evaluate_recv_def layer_values_def recv_frame_def)
next
  case (Cons f l)
  note pr = Cons.prems
  have gs: "gs = a @ f # l @ b" using pr(1) by simp
  have f: "f \<in> set gs" using gs by simp
  let ?W = "set (written a)"
  have d: "dealt P n (shuffle_idx ci + 1) (n_mults ci) (triple_indices gs) (deal P n gs \<delta>0) f
     (deal P n a \<delta>0) (deal P n (a @ [f]) \<delta>0)" by (rule setting_dealt[OF assms(1) gs])
  have W: "?W \<subseteq> {..<nw}" by (rule written_lt[OF assms(1)]) (use gs in auto)
  have rd: "set (reads k f) \<subseteq> ?W" using pr(9) by (auto simp: list_all_iff)
  have n: "0 < n" using assms(1) by (simp add: setting_def)
  have al: "recv_drops f \<noteq> [] \<Longrightarrow> inputs_alive nw (readers gs) ?W (count_list ex) f"
    by (rule spent_alive[OF assms(1) gs pr(8) rd W])
  have fit: "parts_fit n pt f" using pr(12) by simp
  obtain \<sigma>1 g1 res1 where st: "value_step P n k inputs (deal P n gs \<delta>0) p pt (\<sigma>, g, ev_output ev) f = Inr (\<sigma>1, g1, res1)"
    and rest: "layer_values P n k inputs (deal P n gs \<delta>0) p pt l (\<sigma>1, g1, res1) = Inr (\<sigma>', g', res)"
    using pr(13) by (auto simp: layer_values_def bindr_Inr_iff)
  have step: "\<exists>ev1. evaluate_recv_gate P ev f = Inr ev1 \<and>
      W_rel nw (readers gs) (set (written (a @ [f]))) (count_list (ex @ recv_drops f)) \<sigma>1 ev1 \<and>
      O_at P n ci gs \<delta>0 p s (a @ [f]) g1 (ev_data ev1) \<and> recv_frame ev ev1 \<and> ev_output ev1 = res1 \<and>
      B_rel pt (dn @ [f]) l ev1"
  proof (cases "gt f = Output")
    case True
    have v: "n \<le> length (\<sigma> (in1_idx f))" "\<sigma>1 = \<sigma>" "g1 = g" "res1 = ev_output ev @ take n (\<sigma> (in1_idx f))"
      using st True by (auto simp: value_step_def need_Inr_iff)
    have t: "recv_drops f \<noteq> []" "\<not> interactive f" "\<not> move_type (gt f)" "outs f = []"
      using True by (auto simp: recv_drops_def interactive_def interactive_type_def move_type_def outs_def)
    obtain ev1 where 1: "evaluate_recv_gate P ev f = Inr ev1"
      "W_rel nw (readers gs) ?W (bump (recv_drops f) (count_list ex)) \<sigma> ev1" "ev_data ev1 = ev_data ev" "recv_frame ev ev1"
      "ev_output ev1 = ev_output ev @ take n (\<sigma> (in1_idx f))" "B_rel pt dn (f # l) ev1 = B_rel pt dn (f # l) ev"
      using recv_output_gate[OF pr(3,6) True al[OF t(1)] v(1), where P = P and pt = pt and dn = dn and fs = "f # l"] by blast
    have nm: "d_recv (deal P n (a @ [f]) \<delta>0) = d_recv (deal P n a \<delta>0)" "chosen (deal P n (a @ [f]) \<delta>0) = chosen (deal P n a \<delta>0)"
      "d_corr (deal P n (a @ [f]) \<delta>0) = d_corr (deal P n a \<delta>0)"
      using d t(3) by (auto simp: dealt_def move_picks)
    have "B_rel pt (dn @ [f]) l ev1" using B_skip[OF _ fit t(2)] pr(11) 1(6) by simp
    moreover have "O_at P n ci gs \<delta>0 p s (a @ [f]) g (ev_data ev1)"
      using O_recv_skip[OF pr(7) nm] 1(3) by simp
    ultimately show ?thesis using 1 v t(4) by (simp add: bump_count)
  next
    case False
    obtain v where v: "gate_value P n k inputs (deal P n gs \<delta>0) p \<sigma> pt g f = Inr v" "\<sigma>1 = \<sigma>(out_idx f := v)"
      "g1 = const_next P n f g" "res1 = ev_output ev" "interactive f \<longrightarrow> sizes_ok n f \<sigma>"
      using st False by (auto simp: value_step_def bindr_Inr_iff split: if_splits)
    have sz: "sizes_ok n f \<sigma>"
      using v(5) by (cases "interactive f") (auto simp: sizes_ok_def interactive_def interactive_type_def move_type_def triple_type_def)
    have co: "gt f = ColumnSumsToNodes \<longrightarrow> (\<forall>w \<in> set (take k (data_parallel f)). w < nw \<and> w \<in> ?W \<and>
        (count_list ex w < readers gs w \<or> count_list ex w = 0))"
    proof (intro impI ballI)
      fix w assume c: "gt f = ColumnSumsToNodes" "w \<in> set (take k (data_parallel f))"
      then have w: "w \<in> ?W" using rd by (auto simp: reads_def)
      have "\<forall>v. count_list ex v \<le> count_list (dropped gs) v"
        using spent_le[OF pr(8), of _ b] gs by simp
      then show "w < nw \<and> w \<in> ?W \<and> (count_list ex w < readers gs w \<or> count_list ex w = 0)"
        using columns_alive[OF assms(1) gs c] w W by auto
    qed
    have un: "gt f = Unshuffle \<longrightarrow> chosen (deal P n s \<delta>0) (g_shuffle_idx f)" using pr(10) by simp
    have "set (written (a @ [f])) = insert (out_idx f) ?W" using False by (auto simp: outs_def)
    moreover obtain ev1 where "evaluate_recv_gate P ev f = Inr ev1"
      "W_rel nw (readers gs) (insert (out_idx f) ?W) (bump (recv_drops f) (count_list ex)) \<sigma>1 ev1"
      "O_at P n ci gs \<delta>0 p s (a @ [f]) g1 (ev_data ev1)" "recv_frame ev ev1"
      "ev_output ev1 = ev_output ev" "B_rel pt (dn @ [f]) l ev1"
      using recv_gate[where P = P and \<sigma> = \<sigma> and c = "count_list ex" and pt = pt and f = f,
          OF pr(2-7) d setting_gate(2,3)[OF assms(1) f] False n setting_gate(6)[OF assms(1) f False]
          setting_fresh(1)[OF assms(1) gs False] _ sz co un pr(11) fit v(1)] al v(2,3) by auto
    ultimately show ?thesis using v(4) by (auto simp: bump_count)
  qed
  then obtain ev1 where 1: "evaluate_recv_gate P ev f = Inr ev1"
    "W_rel nw (readers gs) (set (written (a @ [f]))) (count_list (ex @ recv_drops f)) \<sigma>1 ev1"
    "O_at P n ci gs \<delta>0 p s (a @ [f]) g1 (ev_data ev1)" "recv_frame ev ev1" "ev_output ev1 = res1" "B_rel pt (dn @ [f]) l ev1"
    by blast
  have fr: "ev_id ev1 = p" "ev_size ev1 = n" "ev_nodes ev1 = k" "input_to_val ev1 = inputs"
    using 1(4) pr(2-5) by (simp_all add: recv_frame_def)
  have gs1: "gs = (a @ [f]) @ l @ b" using gs by simp
  have un: "\<forall>f \<in> set l. gt f = Unshuffle \<longrightarrow> chosen (deal P n s \<delta>0) (g_shuffle_idx f)" "\<forall>f \<in> set l. parts_fit n pt f"
    "in_order k (a @ [f]) l"
    using pr(9,10,12) by simp_all
  obtain ev2 ex2 where 2: "evaluate_recv P l ev1 = Inr ev2"
    "W_rel nw (readers gs) (set (written ((a @ [f]) @ l))) (count_list ex2) \<sigma>' ev2"
    "O_at P n ci gs \<delta>0 p s ((a @ [f]) @ l) g' (ev_data ev2)" "spent ((a @ [f]) @ l) [] ex2" "recv_frame ev1 ev2"
    "ev_output ev2 = res" "B_rel pt ((dn @ [f]) @ l) [] ev2"
    using Cons.IH[OF gs1 fr 1(2,3) spent_step[OF pr(8)] un(3,1) 1(6) un(2) rest[folded 1(5)]] by blast
  have "evaluate_recv P (f # l) ev = Inr ev2" using 1(1) 2(1) by (simp add: evaluate_recv_def)
  moreover have "recv_frame ev ev2" using 1(4) 2(5) by (simp add: recv_frame_def)
  moreover have "(a @ [f]) @ l = a @ f # l" "(dn @ [f]) @ l = dn @ f # l" by simp_all
  ultimately show ?case using 2(2-4,6,7) by metis
qed

end
