(* ===== verification/Exchange_Steps.thy ===== *)
theory Exchange_Steps
  imports Evaluator
begin

text \<open>
  The messages of one exchange between the online servers, under every interleaving: both servers run
  the loop of \<open>Evaluator::online_communication\<close>, which sends a block and then waits for the block of the
  partner. A channel holds a bounded number of elements; sending waits for space, receiving for an
  element. (\<open>NetIOMP::send\<close> writes into the buffer of the connection and flushes it before it
  returns, so what is sent is in the channel, whose capacity is that of the system below, when a
  server starts to receive.) The programs never block each other if a block fits into a channel, and
  they can if it does not.
\<close>

section \<open>The program of a server\<close>

text \<open>\<open>Send_at k\<close> writes \<open>data_send[k]\<close> to the connection, \<open>Recv_at k\<close> reads \<open>data_recv[k]\<close>.\<close>

datatype comm_op = Send_at nat | Recv_at nat

definition block_ops :: "nat \<Rightarrow> nat \<Rightarrow> comm_op list" where
  "block_ops pos len = map Send_at [pos..<pos + len] @ map Recv_at [pos..<pos + len]"

definition online_ops :: "nat \<Rightarrow> nat \<Rightarrow> comm_op list" where
  "online_ops n_comm block_size =
     (if n_comm = 0 then []
      else
        let n_msgs = n_comm div block_size; last_msg = n_comm mod block_size
        in concat (map (\<lambda>i. block_ops (i * block_size) block_size) [0..<n_msgs]) @
           block_ops (n_msgs * block_size) last_msg)"

section \<open>Two servers and two channels\<close>

definition partner :: "party \<Rightarrow> party" where
  "partner p = (if p = P0 then P1 else P0)"

record traffic =
  ops_left :: "party \<Rightarrow> comm_op list"
  arrived :: "party \<Rightarrow> vec"
  in_flight :: "party \<Rightarrow> vec"

definition exchange_start :: "nat \<Rightarrow> (party \<Rightarrow> vec) \<Rightarrow> traffic" where
  "exchange_start b msg =
     \<lparr>ops_left = (\<lambda>p. if p = D then [] else online_ops (length (msg p)) b),
      arrived = (\<lambda>p. replicate (length (msg p)) 0), in_flight = (\<lambda>p. [])\<rparr>"

text \<open>A channel carries what \<open>p\<close> sends, in order, and at most \<open>cap\<close> elements at a time.\<close>

inductive exchange_step :: "nat \<Rightarrow> (party \<Rightarrow> vec) \<Rightarrow> traffic \<Rightarrow> traffic \<Rightarrow> bool" for cap msg where
  send_one: "ops_left s p = Send_at k # ops \<Longrightarrow> length (in_flight s p) < cap \<Longrightarrow>
     exchange_step cap msg s (s\<lparr>ops_left := (ops_left s)(p := ops),
       in_flight := (in_flight s)(p := in_flight s p @ [msg p ! k])\<rparr>)"
| recv_one: "ops_left s p = Recv_at k # ops \<Longrightarrow> in_flight s (partner p) = x # xs \<Longrightarrow>
     exchange_step cap msg s (s\<lparr>ops_left := (ops_left s)(p := ops),
       arrived := (arrived s)(p := (arrived s p)[k := x]),
       in_flight := (in_flight s)(partner p := xs)\<rparr>)"

definition exchanged :: "traffic \<Rightarrow> bool" where
  "exchanged s \<longleftrightarrow> (\<forall>p. ops_left s p = [])"

lemma partner_simps [simp]: "partner P0 = P1" "partner P1 = P0" "p \<noteq> D \<Longrightarrow> partner (partner p) = p"
  "partner p \<noteq> D" "p \<noteq> D \<Longrightarrow> partner p \<noteq> p"
  by (cases p; simp add: partner_def)+

section \<open>What is left of the program\<close>

text \<open>The program after \<open>s\<close> elements have been sent and \<open>r\<close> received.\<close>

function ops_from :: "nat \<Rightarrow> nat \<Rightarrow> nat \<Rightarrow> nat \<Rightarrow> comm_op list" where
  "ops_from n b s r =
     (if s < n \<and> r = s div b * b then Send_at s # ops_from n b (s + 1) r
      else if r < s then Recv_at r # ops_from n b s (r + 1) else [])"
  by pat_completeness auto
termination
proof (relation "measure (\<lambda>(n, b, s, r). (n - s) + (n - s) + (s - r))", goal_cases)
  case (2 n b s r)
  then have "s < n" "r \<le> s" using div_times_less_eq_dividend[of s b] by simp_all
  then have "(n - (s + 1)) + (n - (s + 1)) + (s + 1 - r) < (n - s) + (n - s) + (s - r)" by linarith
  then show ?case by (simp only: in_measure case_prod_conv)
qed auto

declare ops_from.simps [simp del]

lemma ops_send: "s < n \<Longrightarrow> r = s div b * b \<Longrightarrow> ops_from n b s r = Send_at s # ops_from n b (s + 1) r"
  by (subst ops_from.simps) simp

lemma ops_recv: "\<not> (s < n \<and> r = s div b * b) \<Longrightarrow> r < s \<Longrightarrow> ops_from n b s r = Recv_at r # ops_from n b s (r + 1)"
  by (subst ops_from.simps) simp

lemma ops_sends:
  assumes "j * b \<le> s" "s + len \<le> n" "s + len \<le> j * b + b"
  shows "ops_from n b s (j * b) = map Send_at [s..<s + len] @ ops_from n b (s + len) (j * b)"
  using assms
proof (induction len arbitrary: s)
  case (Suc len)
  have "s div b = j" using Suc.prems by (intro div_nat_eqI) (simp_all add: algebra_simps)
  then have "ops_from n b s (j * b) = Send_at s # ops_from n b (s + 1) (j * b)"
    using Suc.prems by (intro ops_send) simp_all
  then show ?case using Suc.IH[of "s + 1"] Suc.prems by (simp add: upt_conv_Cons del: upt_Suc)
qed simp

lemma ops_recvs:
  assumes "n \<le> s \<or> s div b * b = s" "r + len \<le> s"
  shows "ops_from n b s r = map Recv_at [r..<r + len] @ ops_from n b s (r + len)"
  using assms(2)
proof (induction len arbitrary: r)
  case (Suc len)
  then have "ops_from n b s r = Recv_at r # ops_from n b s (r + 1)"
    using assms(1) by (intro ops_recv) auto
  then show ?case using Suc.IH[of "r + 1"] Suc.prems by (simp add: upt_conv_Cons del: upt_Suc)
qed simp

lemma ops_done: "ops_from n b n n = []"
  by (subst ops_from.simps) simp

lemma ops_block:
  assumes "0 < b" "j * b + len \<le> n" "len = b \<or> n = j * b + len \<and> len < b"
  shows "ops_from n b (j * b) (j * b) = block_ops (j * b) len @ ops_from n b (j * b + len) (j * b + len)"
proof -
  have "n \<le> j * b + len \<or> (j * b + len) div b * b = j * b + len"
    using assms(1,3) by auto
  then have "ops_from n b (j * b + len) (j * b) =
      map Recv_at [j * b..<j * b + len] @ ops_from n b (j * b + len) (j * b + len)"
    by (rule ops_recvs) simp
  moreover have "ops_from n b (j * b) (j * b) = map Send_at [j * b..<j * b + len] @ ops_from n b (j * b + len) (j * b)"
    using assms(2,3) by (intro ops_sends) auto
  ultimately show ?thesis by (simp add: block_ops_def)
qed

lemma ops_from_start:
  assumes "0 < b"
  shows "online_ops n b = ops_from n b 0 0"
proof (cases "n = 0")
  case False
  have "ops_from n b 0 0 = concat (map (\<lambda>i. block_ops (i * b) b) [0..<j]) @ ops_from n b (j * b) (j * b)"
    if "j * b \<le> n" for j
    using that
  proof (induction j)
    case (Suc j)
    have "ops_from n b (j * b) (j * b) = block_ops (j * b) b @ ops_from n b (j * b + b) (j * b + b)"
      using Suc.prems by (intro ops_block[OF assms]) auto
    then show ?case using Suc by (simp add: add.commute)
  qed simp
  from this[of "n div b"]
  have "ops_from n b 0 0 = concat (map (\<lambda>i. block_ops (i * b) b) [0..<n div b]) @ ops_from n b (n div b * b) (n div b * b)"
    by simp
  also have "ops_from n b (n div b * b) (n div b * b) =
      block_ops (n div b * b) (n mod b) @ ops_from n b (n div b * b + n mod b) (n div b * b + n mod b)"
    using assms by (intro ops_block) auto
  also have "n div b * b + n mod b = n" by simp
  finally show ?thesis using False by (simp add: online_ops_def Let_def ops_done)
next
  case True
  then show ?thesis using ops_done[of 0 b] by (simp add: online_ops_def)
qed

section \<open>The invariant\<close>

text \<open>How far a server can be: less than a block ahead, and receiving only when its block is out.\<close>

definition pace :: "nat \<Rightarrow> nat \<Rightarrow> nat \<Rightarrow> nat \<Rightarrow> bool" where
  "pace n b s r \<longleftrightarrow> r \<le> s \<and> s \<le> n \<and> s \<le> r div b * b + b \<and> (b dvd r \<or> s = min n (r div b * b + b))"

lemma pace_cases:
  assumes "0 < b" "pace n b s r"
  obtains (sending) "s < n" "r = s div b * b" "s < r + b"
  | (receiving) "r < s" "\<not> (s < n \<and> r = s div b * b)" "s = min n (r div b * b + b)"
  | (over) "s = n" "r = n"
proof -
  consider "s < n \<and> r = s div b * b" | "\<not> (s < n \<and> r = s div b * b)" "r < s"
    | "\<not> (s < n \<and> r = s div b * b)" "s \<le> r" by linarith
  then show thesis
  proof cases
    case 1
    have "s < s div b * b + b" using assms(1) by (simp add: dividend_less_div_times add.commute)
    then show thesis using 1 sending by auto
  next
    case 2
    have "s = min n (r div b * b + b)"
    proof (rule ccontr)
      assume no: "s \<noteq> min n (r div b * b + b)"
      then have d: "b dvd r" "s < n" "s < r div b * b + b" using assms(2) by (auto simp: pace_def)
      then have r: "r div b * b = r" by simp
      have "s div b = r div b" using d(3) 2(2) r by (intro div_nat_eqI) (simp_all add: algebra_simps)
      then show False using 2(1) d(2) r by simp
    qed
    then show thesis using 2 receiving by blast
  next
    case 3
    then have rs: "r = s" using assms(2) by (simp add: pace_def)
    have "s = n"
    proof (rule ccontr)
      assume "s \<noteq> n"
      then have n: "s < n" using assms(2) by (simp add: pace_def)
      then have "r \<noteq> r div b * b" using 3(1) rs by simp
      then have "\<not> b dvd r" by auto
      then have "s = r div b * b + b" using assms(2) n by (auto simp: pace_def)
      then show False using rs assms(1) by (metis \<open>\<not> b dvd r\<close> dvd_triv_right dvd_add_triv_right_iff)
    qed
    then show thesis using rs over by simp
  qed
qed

lemma pace_send: "0 < b \<Longrightarrow> s < n \<Longrightarrow> r = s div b * b \<Longrightarrow> pace n b s r \<Longrightarrow> pace n b (s + 1) r"
  using dividend_less_div_times[of b s] le_SucI[OF div_times_less_eq_dividend[of s b]] by (auto simp: pace_def)

lemma pace_recv:
  assumes "0 < b" "pace n b s r" "r < s" "s = min n (r div b * b + b)"
  shows "pace n b s (r + 1)"
proof (cases "(r + 1) div b = r div b")
  case True
  then show ?thesis using assms unfolding pace_def True by simp
next
  case False
  have "b dvd r + 1"
    using False by (metis Suc_eq_plus1 div_Suc dvd_eq_mod_eq_0)
  moreover have "s \<le> r + 1"
  proof -
    have "(r + 1) div b = Suc (r div b)" using False by (metis Suc_eq_plus1 div_Suc)
    then have "(r + 1) div b * b = r div b * b + b" by simp
    moreover have "(r + 1) div b * b = r + 1" using \<open>b dvd r + 1\<close> by simp
    ultimately show ?thesis using assms(2) by (simp add: pace_def)
  qed
  ultimately show ?thesis using assms(1-3) by (simp add: pace_def)
qed

definition exchange_inv ::
  "nat \<Rightarrow> nat \<Rightarrow> (party \<Rightarrow> vec) \<Rightarrow> (party \<Rightarrow> nat) \<Rightarrow> (party \<Rightarrow> nat) \<Rightarrow> traffic \<Rightarrow> bool" where
  "exchange_inv n b msg sn rc s \<longleftrightarrow> ops_left s D = [] \<and> (\<forall>p. p \<noteq> D \<longrightarrow>
     ops_left s p = ops_from n b (sn p) (rc p) \<and> pace n b (sn p) (rc p) \<and> rc (partner p) \<le> sn p \<and>
     in_flight s p = drop (rc (partner p)) (take (sn p) (msg p)) \<and>
     arrived s p = take (rc p) (msg (partner p)) @ replicate (n - rc p) 0)"

lemma inv_start:
  assumes "0 < b" "length (msg P0) = n" "length (msg P1) = n"
  shows "exchange_inv n b msg (\<lambda>_. 0) (\<lambda>_. 0) (exchange_start b msg)"
proof -
  have "length (msg p) = n" if "p \<noteq> D" for p using assms(2,3) that by (cases p) auto
  then show ?thesis
    by (simp add: exchange_inv_def exchange_start_def ops_from_start[OF assms(1)] pace_def)
qed

lemma inv_step:
  assumes "0 < b" "length (msg P0) = n" "length (msg P1) = n" "exchange_inv n b msg sn rc s"
    "exchange_step cap msg s s'"
  shows "\<exists>sn' rc'. exchange_inv n b msg sn' rc' s' \<and>
     sn' P0 + rc' P0 + sn' P1 + rc' P1 = Suc (sn P0 + rc P0 + sn P1 + rc P1)"
proof -
  have len: "length (msg p) = n" if "p \<noteq> D" for p using assms(2,3) that by (cases p) auto
  have I: "ops_left s p = ops_from n b (sn p) (rc p)" "pace n b (sn p) (rc p)" "rc (partner p) \<le> sn p"
     "in_flight s p = drop (rc (partner p)) (take (sn p) (msg p))"
     "arrived s p = take (rc p) (msg (partner p)) @ replicate (n - rc p) 0" if "p \<noteq> D" for p
    using assms(4) that unfolding exchange_inv_def by blast+
  have D: "ops_left s D = []" using assms(4) by (simp add: exchange_inv_def)
  show ?thesis
    using assms(5)
  proof cases
    case (send_one p k ops)
    have p: "p \<noteq> D" using send_one(2) D by auto
    have q: "partner p \<noteq> D" "partner (partner p) = p" "partner p \<noteq> p" using p by simp_all
    show ?thesis
    proof (cases rule: pace_cases[OF assms(1) I(2)[OF p]])
      case 1
      then have o': "k = sn p" "ops = ops_from n b (sn p + 1) (rc p)"
        using send_one(2) I(1)[OF p] ops_send[of "sn p" n "rc p" b] by auto
      have fl: "drop (rc (partner p)) (take (sn p) (msg p)) @ [msg p ! sn p] =
          drop (rc (partner p)) (take (Suc (sn p)) (msg p))"
        using I(3)[OF p] 1(1) len[OF p] by (simp add: take_Suc_conv_app_nth)
      have "pace n b (sn p + 1) (rc p)" using pace_send[OF assms(1) 1(1,2) I(2)[OF p]] .
      then have "exchange_inv n b msg (sn(p := sn p + 1)) rc s'"
        using I D fl o' p q unfolding exchange_inv_def send_one(1)
        by (auto simp: le_SucI)
      moreover have "(sn(p := sn p + 1)) P0 + rc P0 + (sn(p := sn p + 1)) P1 + rc P1 = Suc (sn P0 + rc P0 + sn P1 + rc P1)"
        using p by (cases p) simp_all
      ultimately show ?thesis by blast
    next
      case 2
      then show ?thesis using send_one(2) I(1)[OF p] ops_recv[of "sn p" n "rc p" b] by auto
    next
      case 3
      then show ?thesis using send_one(2) I(1)[OF p] ops_done by auto
    qed
  next
    case (recv_one p k ops x xs)
    have p: "p \<noteq> D" using recv_one(2) D by auto
    have q: "partner p \<noteq> D" "partner (partner p) = p" "partner p \<noteq> p" using p by simp_all
    show ?thesis
    proof (cases rule: pace_cases[OF assms(1) I(2)[OF p]])
      case 1
      then show ?thesis using recv_one(2) I(1)[OF p] ops_send[of "sn p" n "rc p" b] by auto
    next
      case 2
      then have o': "k = rc p" "ops = ops_from n b (sn p) (rc p + 1)"
        using recv_one(2) I(1)[OF p] ops_recv[of "sn p" n "rc p" b] by auto
      have fl: "drop (rc p) (take (sn (partner p)) (msg (partner p))) = x # xs"
        using I(4)[OF q(1)] recv_one(3) q(2) by simp
      then have "rc p < length (take (sn (partner p)) (msg (partner p)))"
        by (metis drop_eq_Nil list.distinct(1) not_le)
      then have lt: "rc p < sn (partner p)" "rc p < n"
        and hd: "drop (rc p) (take (sn (partner p)) (msg (partner p))) =
          msg (partner p) ! rc p # drop (Suc (rc p)) (take (sn (partner p)) (msg (partner p)))"
        using len[OF q(1)] by (auto simp: Cons_nth_drop_Suc[symmetric])
      have x: "x = msg (partner p) ! rc p" "xs = drop (Suc (rc p)) (take (sn (partner p)) (msg (partner p)))"
        using fl hd by simp_all
      have ar: "(take (rc p) (msg (partner p)) @ replicate (n - rc p) 0)[rc p := x] =
          take (Suc (rc p)) (msg (partner p)) @ replicate (n - Suc (rc p)) 0"
      proof -
        have "replicate (n - rc p) (0 :: ring) = 0 # replicate (n - Suc (rc p)) 0"
          using lt(2) by (metis Suc_diff_Suc replicate_Suc)
        then show ?thesis using lt(2) len[OF q(1)] x(1)
          by (simp add: list_update_append take_Suc_conv_app_nth)
      qed
      have "pace n b (sn p) (rc p + 1)" using pace_recv[OF assms(1) I(2)[OF p] 2(1,3)] .
      then have "exchange_inv n b msg sn (rc(p := rc p + 1)) s'"
        using I D x(2) lt ar o' p q q(3)[symmetric] unfolding exchange_inv_def recv_one(1)
        by (auto simp: Suc_le_eq)
      moreover have "sn P0 + (rc(p := rc p + 1)) P0 + sn P1 + (rc(p := rc p + 1)) P1 = Suc (sn P0 + rc P0 + sn P1 + rc P1)"
        using p by (cases p) simp_all
      ultimately show ?thesis by blast
    next
      case 3
      then show ?thesis using recv_one(2) I(1)[OF p] ops_done by auto
    qed
  qed
qed


lemma inv_reach:
  assumes "0 < b" "length (msg P0) = n" "length (msg P1) = n"
    "(exchange_step cap msg ^^ m) (exchange_start b msg) s"
  shows "\<exists>sn rc. exchange_inv n b msg sn rc s \<and> sn P0 + rc P0 + sn P1 + rc P1 = m"
  using assms(4)
proof (induction m arbitrary: s)
  case 0
  then show ?case using inv_start[of b msg n] assms(1-3) by fastforce
next
  case (Suc m)
  then obtain s1 where s1: "(exchange_step cap msg ^^ m) (exchange_start b msg) s1" "exchange_step cap msg s1 s" by auto
  obtain sn rc where I: "exchange_inv n b msg sn rc s1" "sn P0 + rc P0 + sn P1 + rc P1 = m"
    using Suc.IH[OF s1(1)] by blast
  show ?case using inv_step[OF assms(1-3) I(1) s1(2)] I(2) by simp
qed

section \<open>No server waits forever\<close>

lemma inv_progress:
  assumes "0 < b" "min b n \<le> cap" "length (msg P0) = n" "length (msg P1) = n" "exchange_inv n b msg sn rc s"
  shows "exchanged s \<or> (\<exists>s'. exchange_step cap msg s s')"
proof -
  have len: "length (msg p) = n" if "p \<noteq> D" for p using assms(3,4) that by (cases p) auto
  have I: "ops_left s p = ops_from n b (sn p) (rc p)" "pace n b (sn p) (rc p)" "rc (partner p) \<le> sn p"
     "in_flight s p = drop (rc (partner p)) (take (sn p) (msg p))" "sn p \<le> n" if "p \<noteq> D" for p
    using assms(5) that unfolding exchange_inv_def pace_def by blast+
  have fl: "length (in_flight s p) = sn p - rc (partner p)" if "p \<noteq> D" for p
    using I(4,5)[OF that] len[OF that] by simp
  have may_send: "\<exists>s'. exchange_step cap msg s s'"
    if p: "p \<noteq> D" and "sn p < n" "rc p = sn p div b * b" "sn p - rc (partner p) < cap" for p
    using exchange_step.send_one[of s p "sn p" "ops_from n b (sn p + 1) (rc p)" cap msg] I(1)[OF p] fl[OF p]
      ops_send[of "sn p" n "rc p" b] that by auto
  have may_recv: "\<exists>s'. exchange_step cap msg s s'"
    if p: "p \<noteq> D" and r: "rc p < sn p" "\<not> (sn p < n \<and> rc p = sn p div b * b)" "rc p < sn (partner p)" for p
  proof -
    have "in_flight s (partner p) \<noteq> []" using fl[of "partner p"] r(3) p by auto
    then obtain x xs where "in_flight s (partner p) = x # xs" by (cases "in_flight s (partner p)") auto
    then show ?thesis
      using exchange_step.recv_one[of s p "rc p" "ops_from n b (sn p) (rc p + 1)" x xs cap msg] I(1)[OF p]
        ops_recv[OF r(2,1)] by auto
  qed
  show ?thesis
  proof (cases "\<forall>p. p \<noteq> D \<longrightarrow> sn p = n \<and> rc p = n")
    case True
    then have "ops_left s p = []" for p
      using I(1)[of p] ops_done[of n b] assms(5) by (cases "p = D") (simp_all add: exchange_inv_def)
    then show ?thesis by (simp add: exchanged_def)
  next
    case False
    then obtain p where p: "p \<noteq> D" "\<not> (sn p = n \<and> rc p = n)" by blast
    let ?q = "partner p"
    have q: "?q \<noteq> D" "partner ?q = p" using p(1) by simp_all
    show ?thesis
    proof (cases rule: pace_cases[OF assms(1) I(2)[OF p(1)]])
      case 1
      show ?thesis
      proof (cases "sn p - rc ?q < cap")
        case True
        then show ?thesis using may_send[OF p(1) 1(1,2)] by blast
      next
        case full: False
        then have b: "b \<le> cap" using assms(2) 1(1) by linarith
        then have lt: "rc ?q < rc p" using full 1(3) assms(1) by linarith
        have rs: "rc p \<le> sn ?q" using I(3)[OF q(1)] q(2) by simp
        have le: "rc p \<le> sn p" using I(2)[OF p(1)] by (simp add: pace_def)
        show ?thesis
        proof (cases rule: pace_cases[OF assms(1) I(2)[OF q(1)]])
          case s: 1
          have "rc p div b * b \<le> sn ?q div b * b" using rs by (intro mult_le_mono1 div_le_mono)
          then show ?thesis using lt s(2) 1(2) by simp
        next
          case r: 2
          have "rc ?q < sn p" using lt le by linarith
          then show ?thesis using may_recv[OF q(1) r(1,2)] q(2) by simp
        next
          case 3
          then show ?thesis using lt le 1(1) by linarith
        qed
      qed
    next
      case 2
      show ?thesis
      proof (cases "rc p < sn ?q")
        case True
        then show ?thesis using may_recv[OF p(1) 2(1,2)] by blast
      next
        case False
        then have e: "sn ?q = rc p" using I(3)[OF q(1)] q(2) by simp
        have n: "sn p \<le> n" by (rule I(5)[OF p(1)])
        show ?thesis
        proof (cases rule: pace_cases[OF assms(1) I(2)[OF q(1)]])
          case s: 1
          have "0 < cap" using assms(1,2) s(1) by linarith
          then show ?thesis using may_send[OF q(1) s(1,2)] q(2) e by simp
        next
          case r: 2
          have "rc ?q < sn p" using r(1) e 2(1) by linarith
          then show ?thesis using may_recv[OF q(1) r(1,2)] q(2) by simp
        next
          case 3
          then show ?thesis using e 2(1) n by linarith
        qed
      qed
    next
      case 3
      then show ?thesis using p(2) by blast
    qed
  qed
qed

lemma inv_exchanged:
  assumes "0 < b" "length (msg P0) = n" "length (msg P1) = n" "exchange_inv n b msg sn rc s" "p \<noteq> D"
    "ops_left s p = []"
  shows "sn p = n \<and> rc p = n \<and> arrived s p = msg (partner p)"
proof -
  have len: "length (msg p) = n" if "p \<noteq> D" for p using assms(2,3) that by (cases p) auto
  have I: "ops_from n b (sn p) (rc p) = []" "pace n b (sn p) (rc p)"
     "arrived s p = take (rc p) (msg (partner p)) @ replicate (n - rc p) 0"
    using assms(4-6) unfolding exchange_inv_def by simp_all
  have "sn p = n \<and> rc p = n"
    using pace_cases[OF assms(1) I(2)] I(1) ops_send[of "sn p" n "rc p" b] ops_recv[of "sn p" n "rc p" b]
    by (metis list.distinct(1))
  then show ?thesis using I(3) len[of "partner p"] by simp
qed

text \<open>
  What the steps amount to: a state is stuck only when both servers are done, every run has as many steps
  as there are operations, and at its end each server has the message of the other.
\<close>

lemma exchange_runs:
  assumes "0 < b" "min b n \<le> cap" "length (msg P0) = n" "length (msg P1) = n"
    "(exchange_step cap msg ^^ m) (exchange_start b msg) s"
  shows "exchanged s \<or> (\<exists>s'. exchange_step cap msg s s')" "m \<le> 4 * n" "exchanged s \<longleftrightarrow> m = 4 * n"
    "p \<noteq> D \<Longrightarrow> ops_left s p = [] \<Longrightarrow> arrived s p = msg (partner p)"
    "exchanged s \<Longrightarrow> p \<noteq> D \<Longrightarrow> in_flight s p = []"
proof -
  obtain sn rc where I: "exchange_inv n b msg sn rc s" "sn P0 + rc P0 + sn P1 + rc P1 = m"
    using inv_reach[OF assms(1,3,4,5)] by blast
  show "exchanged s \<or> (\<exists>s'. exchange_step cap msg s s')" by (rule inv_progress[OF assms(1-4) I(1)])
  have P: "pace n b (sn p) (rc p)" "ops_left s p = ops_from n b (sn p) (rc p)" if "p \<noteq> D" for p
    using I(1) that by (simp_all add: exchange_inv_def)
  then have le: "sn p \<le> n" "rc p \<le> sn p" if "p \<noteq> D" for p using that by (simp_all add: pace_def)
  from le[of P0] le[of P1] show "m \<le> 4 * n" using I(2) by simp
  have D: "ops_left s D = []" using I(1) by (simp add: exchange_inv_def)
  note E = inv_exchanged[OF assms(1,3,4) I(1)]
  show "p \<noteq> D \<Longrightarrow> ops_left s p = [] \<Longrightarrow> arrived s p = msg (partner p)" using E by blast
  show "exchanged s \<longleftrightarrow> m = 4 * n"
  proof
    assume "exchanged s"
    then show "m = 4 * n" using E[of P0] E[of P1] I(2) by (simp add: exchanged_def)
  next
    assume "m = 4 * n"
    then have "sn P0 = n" "rc P0 = n" "sn P1 = n" "rc P1 = n" using le[of P0] le[of P1] I(2) by simp_all
    then have "ops_left s p = []" for p using P(2)[of p] D ops_done by (cases p) simp_all
    then show "exchanged s" by (simp add: exchanged_def)
  qed
  show "in_flight s p = []" if "exchanged s" "p \<noteq> D"
  proof -
    have "rc (partner p) = n" "sn p = n" using E[of p] E[of "partner p"] that by (simp_all add: exchanged_def)
    then show ?thesis using I(1) that(2) assms(3,4) by (cases p) (simp_all add: exchange_inv_def)
  qed
qed

section \<open>A block that does not fit\<close>

definition both_at :: "nat \<Rightarrow> nat \<Rightarrow> (party \<Rightarrow> vec) \<Rightarrow> nat \<Rightarrow> nat \<Rightarrow> traffic" where
  "both_at n b msg i j =
     \<lparr>ops_left = case_party (ops_from n b i 0) (ops_from n b j 0) [],
      arrived = (\<lambda>p. replicate (length (msg p)) 0),
      in_flight = case_party (take i (msg P0)) (take j (msg P1)) []\<rparr>"

lemma case_party_upd:
  "(case_party x y z)(P0 := v) = case_party v y z" "(case_party x y z)(P1 := v) = case_party x v z"
  by (rule ext, simp split: party.splits)+

lemma both_start:
  assumes "0 < b" "length (msg P0) = n" "length (msg P1) = n"
  shows "exchange_start b msg = both_at n b msg 0 0"
  using assms by (auto simp: exchange_start_def both_at_def ops_from_start fun_eq_iff split: party.splits)

lemma both_step:
  assumes "i < cap" "cap < b" "cap < n" "length (msg P0) = n" "length (msg P1) = n"
  shows "exchange_step cap msg (both_at n b msg i j) (both_at n b msg (Suc i) j)"
    "exchange_step cap msg (both_at n b msg j i) (both_at n b msg j (Suc i))"
proof -
  have s: "ops_from n b i 0 = Send_at i # ops_from n b (Suc i) 0" using assms(1-3) by (subst ops_send) simp_all
  have t: "take i (msg p) @ [msg p ! i] = take (Suc i) (msg p)" if "p \<noteq> D" for p
    using assms that by (cases p) (simp_all add: take_Suc_conv_app_nth)
  show "exchange_step cap msg (both_at n b msg i j) (both_at n b msg (Suc i) j)"
    using exchange_step.send_one[of "both_at n b msg i j" P0 i "ops_from n b (Suc i) 0" cap msg] s assms t[of P0]
    by (simp add: both_at_def case_party_upd)
  show "exchange_step cap msg (both_at n b msg j i) (both_at n b msg j (Suc i))"
    using exchange_step.send_one[of "both_at n b msg j i" P1 i "ops_from n b (Suc i) 0" cap msg] s assms t[of P1]
    by (simp add: both_at_def case_party_upd)
qed

text \<open>Both servers fill their channel and then wait for space that no one makes.\<close>

lemma both_full:
  assumes "cap < b" "cap < n" "length (msg P0) = n" "length (msg P1) = n"
  shows "(exchange_step cap msg)\<^sup>*\<^sup>* (exchange_start b msg) (both_at n b msg cap cap)"
    "\<not> exchange_step cap msg (both_at n b msg cap cap) s'" "\<not> exchanged (both_at n b msg cap cap)"
proof -
  have first: "i \<le> cap \<Longrightarrow> (exchange_step cap msg)\<^sup>*\<^sup>* (both_at n b msg 0 0) (both_at n b msg i 0)" for i
    by (induction i) (use both_step(1)[OF _ assms] in \<open>auto intro: rtranclp.rtrancl_into_rtrancl\<close>)
  have second: "j \<le> cap \<Longrightarrow> (exchange_step cap msg)\<^sup>*\<^sup>* (both_at n b msg cap 0) (both_at n b msg cap j)" for j
    by (induction j) (use both_step(2)[OF _ assms] in \<open>auto intro: rtranclp.rtrancl_into_rtrancl\<close>)
  have "exchange_start b msg = both_at n b msg 0 0" using assms by (intro both_start) auto
  then show "(exchange_step cap msg)\<^sup>*\<^sup>* (exchange_start b msg) (both_at n b msg cap cap)"
    using rtranclp_trans[OF first[OF order_refl] second[OF order_refl]] by simp
  have ops: "ops_from n b cap 0 = Send_at cap # ops_from n b (Suc cap) 0"
    using assms(1,2) by (subst ops_send) simp_all
  show "\<not> exchange_step cap msg (both_at n b msg cap cap) s'"
  proof
    assume "exchange_step cap msg (both_at n b msg cap cap) s'"
    then show False
      by cases (use assms ops in \<open>auto simp: both_at_def split: party.splits\<close>)
  qed
  show "\<not> exchanged (both_at n b msg cap cap)"
    using ops by (auto simp: exchanged_def both_at_def intro!: exI[of _ P0])
qed

end
