(* ===== verification/Exchange.thy ===== *)
theory Exchange
  imports Exchange_Steps
begin

text \<open>
  The exchange of one layer (\<open>Evaluator::online_communication\<close> on both online servers): the blocks
  of a message add up to the message, no interleaving of the two programs gets stuck if a block
  fits into a channel, and afterwards the two hold the same opened values and each the other's
  shuffled vectors, as in the sequential \<open>exchange\<close>, which the online phase is built on.
\<close>

section \<open>Blocks\<close>

lemma exchange_blocks:
  assumes "m * b \<le> length inn"
  shows "foldr_res (\<lambda>s i. exchange_block d (i * b) b s) ([], [], inn) [0..<m] =
         Inr (take (m * b) d, take (m * b) inn, drop (m * b) inn)"
  using assms
proof (induction m)
  case (Suc m)
  then have "m * b \<le> length inn" "b \<le> length (drop (m * b) inn)" by auto
  with Suc.IH show ?case
    by (simp add: foldr_res_append exchange_block_def net_recv_def take_block)
qed simp

lemma online_communication_stream:
  assumes "0 < b" "length (online_message ev) \<le> length inn"
  shows "online_communication b inn ev =
    Inr (combine_vals (take (length (online_message ev)) inn) ev, online_message ev,
         drop (length (online_message ev)) inn)"
proof (cases "online_message ev = []")
  case True
  then show ?thesis by (simp add: online_communication_def combine_vals_def online_message_def)
next
  case False
  define d where "d = online_message ev"
  define n where "n = length d"
  have le: "n div b * b \<le> length inn" using assms(2) div_times_less_eq_dividend le_trans
    unfolding n_def d_def by blast
  have sum: "n div b * b + n mod b = n" by simp
  have r: "n mod b \<le> length (drop (n div b * b) inn)"
    using assms(2) sum unfolding n_def d_def by (simp add: minus_div_mult_eq_mod[symmetric])
  have t: "take (n div b * b) xs @ take (n mod b) (drop (n div b * b) xs) = take n xs" for xs :: vec
    using sum by (metis take_add)
  have "n \<noteq> 0" using False by (simp add: n_def d_def)
  then show ?thesis
    using assms(1) exchange_blocks[OF le, of d] r sum t[of d] t[of inn]
    by (simp add: online_communication_def exchange_block_def net_recv_def d_def[symmetric]
        n_def[symmetric] add.commute) (simp add: n_def)
qed

section \<open>What the two servers hold afterwards\<close>

definition same_widths :: "'g evaluator \<Rightarrow> 'g evaluator \<Rightarrow> bool" where
  "same_widths ev0 ev1 \<longleftrightarrow>
     length (mul_vals ev0) = length (mul_vals ev1) \<and> length (and_vals ev0) = length (and_vals ev1) \<and>
     length (shuffle_vals ev0) = length (shuffle_vals ev1) \<and>
     length (reveal_vals ev0) = length (reveal_vals ev1)"

definition opened :: "'g evaluator \<Rightarrow> 'g evaluator \<Rightarrow> 'g evaluator" where
  "opened ev other = ev\<lparr>mul_vals := vadd (mul_vals ev) (mul_vals other),
     and_vals := vxor (and_vals ev) (and_vals other), shuffle_vals := shuffle_vals other,
     reveal_vals := vadd (reveal_vals ev) (reveal_vals other)\<rparr>"

lemma pointwise_vadd: "length w = length v \<Longrightarrow> map (\<lambda>i. v ! i + (pre @ w @ post) ! (length pre + i)) [0..<length v] = vadd v w"
  by (rule nth_equalityI) (auto simp: nth_append)

lemma pointwise_vxor: "length w = length v \<Longrightarrow> map (\<lambda>i. v ! i XOR (pre @ w @ post) ! (length pre + i)) [0..<length v] = vxor v w"
  by (rule nth_equalityI) (auto simp: nth_append)

lemma pointwise_copy: "map (\<lambda>i. (pre @ w @ post) ! (length pre + i)) [0..<length w] = w"
  by (rule nth_equalityI) (auto simp: nth_append)

lemma combine_message:
  assumes "same_widths ev other"
  shows "combine_vals (online_message other) ev = opened ev other"
proof -
  let ?m = "mul_vals other" and ?a = "and_vals other" and ?s = "shuffle_vals other" and ?r = "reveal_vals other"
  have l: "length (mul_vals ev) = length ?m" "length (and_vals ev) = length ?a"
    "length (shuffle_vals ev) = length ?s" "length (reveal_vals ev) = length ?r"
    using assms by (simp_all add: same_widths_def)
  have "map (\<lambda>i. mul_vals ev ! i + online_message other ! i) [0..<length (mul_vals ev)] = vadd (mul_vals ev) ?m"
    using pointwise_vadd[of ?m "mul_vals ev" "[]" "?a @ ?s @ ?r"] l by (simp add: online_message_def)
  moreover have "map (\<lambda>i. and_vals ev ! i XOR online_message other ! (length ?m + i)) [0..<length (and_vals ev)]
      = vxor (and_vals ev) ?a"
    using pointwise_vxor[of ?a "and_vals ev" ?m "?s @ ?r"] l by (simp add: online_message_def)
  moreover have "map (\<lambda>i. online_message other ! (length ?m + length ?a + i)) [0..<length ?s] = ?s"
    using pointwise_copy[of "?m @ ?a" ?s ?r] by (simp add: online_message_def)
  moreover have "map (\<lambda>i. reveal_vals ev ! i + online_message other ! (length ?m + length ?a + length ?s + i))
      [0..<length (reveal_vals ev)] = vadd (reveal_vals ev) ?r"
    using pointwise_vadd[of ?r "reveal_vals ev" "?m @ ?a @ ?s" "[]"] l by (simp add: online_message_def add.assoc)
  ultimately show ?thesis
    using l by (simp add: combine_vals_def opened_def Let_def)
qed

lemma exchange_opens:
  assumes "same_widths ev0 ev1" "0 < b"
  shows "exchange b ((ev0, []), (ev1, [])) = Inr ((opened ev0 ev1, []), (opened ev1 ev0, []))"
proof -
  have l: "length (online_message ev0) = length (online_message ev1)"
    using assms(1) by (simp add: same_widths_def online_message_def)
  have w: "same_widths ev1 ev0" using assms(1) by (simp add: same_widths_def)
  show ?thesis
    using online_communication_stream[OF assms(2), of ev0 "online_message ev1"]
      online_communication_stream[OF assms(2), of ev1 "online_message ev0"] l
      combine_message[OF assms(1)] combine_message[OF w]
    by (simp add: exchange_def)
qed

section \<open>Properties\<close>

definition online_msgs :: "'g evaluator \<Rightarrow> 'g evaluator \<Rightarrow> party \<Rightarrow> vec" where
  "online_msgs ev0 ev1 = case_party (online_message ev0) (online_message ev1) []"

lemma opened_values:
  assumes "same_widths ev0 ev1"
  shows "mul_vals (opened ev1 ev0) = mul_vals (opened ev0 ev1)"
    "and_vals (opened ev1 ev0) = and_vals (opened ev0 ev1)"
    "reveal_vals (opened ev1 ev0) = reveal_vals (opened ev0 ev1)"
proof -
  have comm: "vadd u v = vadd v u" "vxor u v = vxor v u" if "length u = length v" for u v :: vec
    using that by (auto intro!: nth_equalityI simp: add.commute xor.commute)
  show "mul_vals (opened ev1 ev0) = mul_vals (opened ev0 ev1)"
    "and_vals (opened ev1 ev0) = and_vals (opened ev0 ev1)"
    "reveal_vals (opened ev1 ev0) = reveal_vals (opened ev0 ev1)"
    using assms comm by (simp_all add: same_widths_def opened_def)
qed

text \<open>C4: One exchange between the online servers, over channels that hold at most \<open>cap\<close> elements each
  way, with buffers of the same sizes and a block size such that a block fits into a channel: under
  every interleaving of the two programs no state is stuck before both servers are done, every run is
  finite and done after exactly one send and one receive of each element on each side; then the channels
  are empty, both servers hold the sums of the masked factors, the exclusive ors of the binary ones and
  the revealed values, each holds what the other shuffled, and these are the states that the
  sequential \<open>exchange\<close> of the online phase computes.\<close>

theorem exchange_correct:
  assumes "same_widths ev0 ev1" "0 < b" "min b (length (online_message ev0)) \<le> cap"
    "(exchange_step cap (online_msgs ev0 ev1) ^^ m) (exchange_start b (online_msgs ev0 ev1)) s"
  shows "(exchanged s \<or> (\<exists>s'. exchange_step cap (online_msgs ev0 ev1) s s')) \<and>
    m \<le> 4 * length (online_message ev0) \<and>
    (exchanged s \<longleftrightarrow> m = 4 * length (online_message ev0)) \<and>
    (exchanged s \<longrightarrow> in_flight s P0 = [] \<and> in_flight s P1 = [] \<and>
      (\<exists>ev0' ev1'. combine_vals (arrived s P0) ev0 = ev0' \<and> combine_vals (arrived s P1) ev1 = ev1' \<and>
        exchange b ((ev0, []), (ev1, [])) = Inr ((ev0', []), (ev1', [])) \<and>
        mul_vals ev0' = vadd (mul_vals ev0) (mul_vals ev1) \<and> mul_vals ev1' = mul_vals ev0' \<and>
        and_vals ev0' = vxor (and_vals ev0) (and_vals ev1) \<and> and_vals ev1' = and_vals ev0' \<and>
        shuffle_vals ev0' = shuffle_vals ev1 \<and> shuffle_vals ev1' = shuffle_vals ev0 \<and>
        reveal_vals ev0' = vadd (reveal_vals ev0) (reveal_vals ev1) \<and> reveal_vals ev1' = reveal_vals ev0'))"
proof -
  let ?msg = "online_msgs ev0 ev1"
  have l: "length (?msg P0) = length (online_message ev0)" "length (?msg P1) = length (online_message ev0)"
    using assms(1) by (simp_all add: online_msgs_def same_widths_def online_message_def)
  note R = exchange_runs[OF assms(2,3) l assms(4)]
  have w: "same_widths ev1 ev0" using assms(1) by (simp add: same_widths_def)
  have fin: "combine_vals (arrived s P0) ev0 = opened ev0 ev1 \<and> combine_vals (arrived s P1) ev1 = opened ev1 ev0"
    if "exchanged s"
    using that R(4)[of P0] R(4)[of P1] combine_message[OF assms(1)] combine_message[OF w]
    by (simp add: exchanged_def online_msgs_def)
  show ?thesis
    using R(1-3) R(5)[of P0] R(5)[of P1] fin exchange_opens[OF assms(1,2)] opened_values[OF assms(1)]
    by (simp add: opened_def)
qed

definition tiny_evaluator :: "party \<Rightarrow> vec \<Rightarrow> vec \<Rightarrow> 64 word evaluator" where
  "tiny_evaluator me m s =
     (new_evaluator (tiny_circuit 1) (tiny_conf me False) (tiny_storage me False) graph_empty)
       \<lparr>mul_vals := m, shuffle_vals := s\<rparr>"

lemma tiny_evaluator_vals:
  "mul_vals (tiny_evaluator me m s) = m" "and_vals (tiny_evaluator me m s) = []"
  "shuffle_vals (tiny_evaluator me m s) = s" "reveal_vals (tiny_evaluator me m s) = []"
  by (simp_all add: tiny_evaluator_def new_evaluator_def Let_def)

lemma runs_to_the_end:
  assumes "0 < b" "min b n \<le> cap" "length (msg P0) = n" "length (msg P1) = n"
  shows "\<exists>s. (exchange_step cap msg ^^ (4 * n)) (exchange_start b msg) s \<and> exchanged s"
proof -
  have "\<exists>s. (exchange_step cap msg ^^ k) (exchange_start b msg) s" if "k \<le> 4 * n" for k
    using that
  proof (induction k)
    case (Suc k)
    then obtain s where s: "(exchange_step cap msg ^^ k) (exchange_start b msg) s" by auto
    then show ?case using exchange_runs(1,3)[OF assms s] Suc.prems by auto
  qed simp
  then obtain s where s: "(exchange_step cap msg ^^ (4 * n)) (exchange_start b msg) s" by blast
  then show ?thesis using exchange_runs(3)[OF assms s] by blast
qed

lemma exchange_correct_witness:
  "\<exists>s. (exchange_step 2 (online_msgs (tiny_evaluator P0 [1, 2] [3]) (tiny_evaluator P1 [10, 20] [30])) ^^ 12)
       (exchange_start 2 (online_msgs (tiny_evaluator P0 [1, 2] [3]) (tiny_evaluator P1 [10, 20] [30]))) s \<and>
     exchanged s \<and> mul_vals (combine_vals (arrived s P1) (tiny_evaluator P1 [10, 20] [30])) = [11, 22] \<and>
     shuffle_vals (combine_vals (arrived s P0) (tiny_evaluator P0 [1, 2] [3])) = [30]"
proof -
  let ?a = "tiny_evaluator P0 [1, 2] [3]" and ?b = "tiny_evaluator P1 [10, 20] [30]"
  have l: "length (online_message ?a) = 3" "length (online_message ?b) = 3"
    by (simp_all add: online_message_def tiny_evaluator_vals)
  have w: "same_widths ?a ?b" by (simp add: same_widths_def tiny_evaluator_vals)
  obtain s where s: "(exchange_step 2 (online_msgs ?a ?b) ^^ 12) (exchange_start 2 (online_msgs ?a ?b)) s" "exchanged s"
    using runs_to_the_end[of 2 3 2 "online_msgs ?a ?b"] l by (auto simp: online_msgs_def)
  then show ?thesis
    using exchange_correct[OF w _ _ s(1)] l by (auto simp: tiny_evaluator_vals vadd_def)
qed

text \<open>C5: If a block and the message are larger than what a channel holds, the exchange can deadlock: both
  servers send first, so there is a run to a state in which both wait for space in a channel that only
  the other could empty, and no step is possible although neither has received anything.\<close>

theorem exchange_deadlocks:
  assumes "same_widths ev0 ev1" "cap < b" "cap < length (online_message ev0)"
  shows "\<exists>s. (exchange_step cap (online_msgs ev0 ev1))\<^sup>*\<^sup>* (exchange_start b (online_msgs ev0 ev1)) s \<and>
     (\<nexists>s'. exchange_step cap (online_msgs ev0 ev1) s s') \<and> \<not> exchanged s \<and>
     length (in_flight s P0) = cap \<and> length (in_flight s P1) = cap"
proof -
  let ?n = "length (online_message ev0)" and ?msg = "online_msgs ev0 ev1"
  have l: "length (?msg P0) = ?n" "length (?msg P1) = ?n"
    using assms(1) by (simp_all add: online_msgs_def same_widths_def online_message_def)
  show ?thesis
    using both_full[OF assms(2,3) l] assms(3) l
    by (intro exI[of _ "both_at ?n b ?msg cap cap"]) (simp add: both_at_def)
qed

lemma exchange_deadlocks_witness:
  "\<exists>s. (exchange_step 1 (online_msgs (tiny_evaluator P0 [1, 2] []) (tiny_evaluator P1 [3, 4] [])))\<^sup>*\<^sup>*
       (exchange_start 2 (online_msgs (tiny_evaluator P0 [1, 2] []) (tiny_evaluator P1 [3, 4] []))) s \<and>
     (\<nexists>s'. exchange_step 1 (online_msgs (tiny_evaluator P0 [1, 2] []) (tiny_evaluator P1 [3, 4] [])) s s') \<and>
     \<not> exchanged s"
  using exchange_deadlocks[of "tiny_evaluator P0 [1, 2] []" "tiny_evaluator P1 [3, 4] []" 1 2]
  by (auto simp: same_widths_def online_message_def tiny_evaluator_vals)

end
