(* ===== verification/Online.thy ===== *)
theory Online
  imports Online_Layers Exchange
begin

text \<open>
  The online phase of both servers, layer after layer, against the plain semantics of the circuit:
  the run returns, and the outputs of the servers add up to the plain output.
\<close>

section \<open>The values of a layer on both servers\<close>

lemma parts_cong:
  assumes "interactive f" "\<And>q w. q \<noteq> D \<Longrightarrow> w \<in> set (reads k f) \<Longrightarrow> \<sigma> q w = \<sigma>' q w"
  shows "parts_agree (both_parts n \<delta>N \<sigma> p) (both_parts n \<delta>N \<sigma>' p) f"
proof -
  have t: "gt f \<noteq> Input" "gt f \<noteq> SetConstVecSIMD" "gt f \<noteq> ColumnSumsToNodes"
    using assms(1) by (auto simp: interactive_def interactive_type_def)
  have 1: "\<sigma> q (in1_idx f) = \<sigma>' q (in1_idx f)" if "q \<noteq> D" for q using assms(2)[OF that, of "in1_idx f"] t by (simp add: reads_def)
  have 2: "\<sigma> q (in2_idx f) = \<sigma>' q (in2_idx f)" if "gt f = MulSIMD" "q \<noteq> D" for q
    using assms(2)[OF that(2), of "in2_idx f"] that(1) by (simp add: reads_def two_inputs_def product_type_def)
  have r: "right_factor n q f (\<sigma> q (in1_idx f)) (\<sigma> q (in2_idx f)) = right_factor n q f (\<sigma>' q (in1_idx f)) (\<sigma>' q (in2_idx f))"
    if "triple_type (gt f)" "q \<noteq> D" for q
    using 1[OF that(2)] 2[OF _ that(2)] that(1) unfolding right_factor_def triple_type_def by auto
  have pp: "pair_part n \<delta>N q (\<sigma> q) f = pair_part n \<delta>N q (\<sigma>' q) f" if "triple_type (gt f)" "q \<noteq> D" for q
    using 1[OF that(2)] r[OF that] by (simp add: pair_part_def)
  have q: "partner_of p \<noteq> D" by (simp add: partner_of_def)
  show ?thesis
    using pp 1 1[OF q] by (auto simp: parts_agree_def both_parts_def mul_part_def and_part_def shuffle_part_def
        masked_def reveal_part_def)
qed

lemma plain_sizes:
  assumes "plain_op n k \<Pi> ins \<rho> f = Inr v" "fields_ok n f" "known_type (gt f)" "interactive f"
    "\<And>w. w \<in> set (reads k f) \<Longrightarrow> length (\<sigma> w) = length (\<rho> w)"
  shows "sizes_ok n f \<sigma>"
proof -
  have t: "gt f \<noteq> Input" "gt f \<noteq> SetConstVecSIMD" "gt f \<noteq> ColumnSumsToNodes"
    using assms(4) by (auto simp: interactive_def interactive_type_def)
  have 1: "length (\<sigma> (in1_idx f)) = length (\<rho> (in1_idx f))" using assms(5)[of "in1_idx f"] t by (simp add: reads_def)
  have 2: "length (\<sigma> (in2_idx f)) = length (\<rho> (in2_idx f))" if "gt f = MulSIMD"
    using assms(5)[of "in2_idx f"] that by (simp add: reads_def two_inputs_def product_type_def)
  consider "move_type (gt f)" | "gt f = Compaction" | "gt f = MulSIMD" | "gt f = EQZ" | "gt f = Bit2A" | "gt f = Reveal"
    using assms(2,4) by (auto simp: interactive_def interactive_type_def move_type_def fields_ok_def)
  then show ?thesis
  proof cases
    case 1
    then show ?thesis
      using assms(1) \<open>length (\<sigma> (in1_idx f)) = _\<close> unfolding move_type_def
      by (elim disjE) (auto simp: plain_op_def Let_def sizes_ok_def triple_type_def split: if_splits)
  qed (use assms(1) 1 2 in \<open>auto simp: plain_op_def Let_def sizes_ok_def triple_type_def move_type_def product_type_def
      product_width_def triple_width_def need_Inr_iff split: if_splits\<close>)
qed

text \<open>What the servers hold of the wires that have been written.\<close>

definition shares_of :: "(wire_id \<Rightarrow> kind) \<Rightarrow> (wire_id \<Rightarrow> vec) \<Rightarrow> gate list \<Rightarrow> (party \<Rightarrow> wire_id \<Rightarrow> vec) \<Rightarrow> bool" where
  "shares_of \<kappa> \<rho> a \<sigma> \<longleftrightarrow> (\<forall>w \<in> set (written a). rel_wire (\<kappa> w) (\<sigma> P0 w) (\<sigma> P1 w) (\<rho> w))"

definition input_shares :: "gate list \<Rightarrow> (party \<Rightarrow> wire_id \<Rightarrow> vec) \<Rightarrow> (wire_id \<Rightarrow> vec) \<Rightarrow> bool" where
  "input_shares gs inputs ins \<longleftrightarrow>
     (\<forall>f \<in> set gs. gt f = Input \<longrightarrow> rel_wire Arith (inputs P0 (out_idx f)) (inputs P1 (out_idx f)) (ins (out_idx f)))"

text \<open>The plain semantics of the circuit under the permutations that the dealer has drawn.\<close>

definition plain_run ::
  "'g prg_ops \<Rightarrow> nat \<Rightarrow> nat \<Rightarrow> nat \<Rightarrow> circuit \<Rightarrow> gate list \<Rightarrow> 'g dealer \<Rightarrow> (wire_id \<Rightarrow> kind) \<Rightarrow>
     (party \<Rightarrow> wire_id \<Rightarrow> vec) \<Rightarrow> (wire_id \<Rightarrow> vec) \<Rightarrow> (wire_id \<Rightarrow> vec) \<Rightarrow> bool" where
  "plain_run P n k nw ci gs \<delta>0 \<kappa> inputs ins \<rho> \<longleftrightarrow> setting P n k nw ci gs \<delta>0 \<and> list_all (typed \<kappa>) gs \<and>
     assigns n k (d_perm (deal P n gs \<delta>0)) ins gs \<rho> \<and> input_shares gs inputs ins"

lemma plain_runD:
  assumes "plain_run P n k nw ci gs \<delta>0 \<kappa> inputs ins \<rho>" "f \<in> set gs"
  shows "setting P n k nw ci gs \<delta>0" "typed \<kappa> f"
    "gt f = Input \<Longrightarrow> rel_wire Arith (inputs P0 (out_idx f)) (inputs P1 (out_idx f)) (ins (out_idx f))"
    "\<exists>v. plain_op n k (d_perm (deal P n gs \<delta>0)) ins \<rho> f = Inr v \<and> (gt f \<noteq> Output \<longrightarrow> \<rho> (out_idx f) = v)"
  using assms by (auto simp: plain_run_def list_all_iff assigns_def input_shares_def)

definition pair_of :: "(wire_id \<Rightarrow> vec) \<Rightarrow> (wire_id \<Rightarrow> vec) \<Rightarrow> party \<Rightarrow> wire_id \<Rightarrow> vec" where
  "pair_of s0 s1 p = (if p = P0 then s0 else s1)"

lemma pair_of_simps [simp]: "pair_of s0 s1 P0 = s0" "pair_of s0 s1 P1 = s1"
  by (simp_all add: pair_of_def)

lemma party_online: "p \<noteq> D \<Longrightarrow> p = P0 \<or> p = P1"
  by (cases p) auto

lemma shares_lengths:
  assumes "shares_of \<kappa> \<rho> a \<sigma>" "w \<in> set (written a)" "p \<noteq> D"
  shows "length (\<sigma> p w) = length (\<rho> w)"
  using assms party_online[OF assms(3)] by (auto simp: shares_of_def rel_wire_def)

lemma one_gate:
  assumes R: "plain_run P n k nw ci gs \<delta>0 \<kappa> inputs ins \<rho>" and gs: "gs = a @ f # b"
    and sh: "shares_of \<kappa> \<rho> a \<sigma>" and rd: "set (reads k f) \<subseteq> set (written a)"
    and pt: "\<And>p. interactive f \<Longrightarrow> parts_agree (pt p) (both_parts n (deal P n gs \<delta>0) \<sigma> p) f"
  shows "\<exists>\<sigma>' g' ua ub. (\<forall>p. p \<noteq> D \<longrightarrow>
        value_step P n k (inputs p) (deal P n gs \<delta>0) p (pt p) (\<sigma> p, g, r p) f =
          Inr (\<sigma>' p, g', r p @ (if p = P0 then ua else ub)) \<and>
        (\<forall>w \<in> set (written a). \<sigma>' p w = \<sigma> p w)) \<and>
     shares_of \<kappa> \<rho> (a @ [f]) \<sigma>' \<and> length ua = length ub \<and> vadd ua ub = plain_output n [f] \<rho>"
proof -
  have f: "f \<in> set gs" using gs by simp
  note D = plain_runD[OF R f]
  obtain v where v: "plain_op n k (d_perm (deal P n gs \<delta>0)) ins \<rho> f = Inr v" "gt f \<noteq> Output \<Longrightarrow> \<rho> (out_idx f) = v"
    using D(4) by blast
  show ?thesis
  proof (cases "gt f = Output")
    case True
    let ?w = "in1_idx f"
    have w: "?w \<in> set (written a)" using rd True by (auto simp: reads_def two_inputs_def type_defs)
    have K: "\<kappa> ?w = Arith" using D(2) True by (simp add: typed_def Let_def)
    have l: "n \<le> length (\<rho> ?w)" using v(1) True by (simp add: plain_op_def Let_def need_Inr_iff)
    have s: "vadd (\<sigma> P0 ?w) (\<sigma> P1 ?w) = \<rho> ?w" using bspec[OF sh[unfolded shares_of_def] w] K by (simp add: rel_wire_def)
    have ls: "length (\<sigma> p ?w) = length (\<rho> ?w)" if "p \<noteq> D" for p using shares_lengths[OF sh w that] .
    have st: "value_step P n k (inputs p) (deal P n gs \<delta>0) p (pt p) (\<sigma> p, g, r p) f =
        Inr (\<sigma> p, g, r p @ (if p = P0 then take n (\<sigma> P0 ?w) else take n (\<sigma> P1 ?w)))" if "p \<noteq> D" for p
      using True l ls[OF that] party_online[OF that] by (auto simp: value_step_def)
    have "shares_of \<kappa> \<rho> (a @ [f]) \<sigma>" using sh True by (simp add: shares_of_def outs_def)
    moreover have "length (take n (\<sigma> P0 ?w)) = length (take n (\<sigma> P1 ?w))" using ls[of P0] ls[of P1] by simp
    moreover have "vadd (take n (\<sigma> P0 ?w)) (take n (\<sigma> P1 ?w)) = plain_output n [f] \<rho>"
      using True s by (simp add: plain_output_def take_vadd[symmetric])
    ultimately show ?thesis using st by blast
  next
    case False
    have r: "\<And>w. w \<in> set (reads k f) \<Longrightarrow> rel_wire (\<kappa> w) (\<sigma> P0 w) (\<sigma> P1 w) (\<rho> w)"
      using sh rd by (auto simp: shares_of_def)
    obtain va vb where g: "gate_value P n k (inputs P0) (deal P n gs \<delta>0) P0 (\<sigma> P0) (pt P0) g f = Inr va"
      "gate_value P n k (inputs P1) (deal P n gs \<delta>0) P1 (\<sigma> P1) (pt P1) g f = Inr vb" "rel_wire (\<kappa> (out_idx f)) va vb v"
      using gate_shares[where \<sigma> = \<sigma> and \<rho> = \<rho> and pt = pt and inputs = inputs and g = g,
          OF setting_dealt[OF D(1) gs] D(2) setting_gate(2,3)[OF D(1) f] False r v(1) D(3) pt] by blast
    let ?s = "pair_of ((\<sigma> P0)(out_idx f := va)) ((\<sigma> P1)(out_idx f := vb))"
    have sz: "sizes_ok n f (\<sigma> p)" if "interactive f" "p \<noteq> D" for p
      using plain_sizes[OF v(1) setting_gate(2,3)[OF D(1) f] that(1)] shares_lengths[OF sh _ that(2)] rd by blast
    have st: "value_step P n k (inputs p) (deal P n gs \<delta>0) p (pt p) (\<sigma> p, g, r p) f =
        Inr (?s p, const_next P n f g, r p @ (if p = P0 then [] else []))" if "p \<noteq> D" for p
      using party_online[OF that] False g sz[OF _ that] by (auto simp: value_step_def)
    have ni: "out_idx f \<notin> set (written a)" by (rule setting_fresh(1)[OF D(1) gs False])
    have "\<forall>w \<in> set (written a). ?s p w = \<sigma> p w" if "p \<noteq> D" for p
      using ni party_online[OF that] by auto
    moreover have "shares_of \<kappa> \<rho> (a @ [f]) ?s"
      using sh ni False g(3) v(2) by (auto simp: shares_of_def outs_def)
    moreover have "vadd [] [] = plain_output n [f] \<rho>" using False by (simp add: plain_output_def vadd_def)
    ultimately show ?thesis using st by blast
  qed
qed

lemma plain_output_append: "plain_output n (a @ b) \<rho> = plain_output n a \<rho> @ plain_output n b \<rho>"
  by (simp add: plain_output_def)

lemma one_layer:
  assumes R: "plain_run P n k nw ci gs \<delta>0 \<kappa> inputs ins \<rho>" and gs: "gs = a @ l @ b"
    and sh: "shares_of \<kappa> \<rho> a \<sigma>" and ord: "in_order k a l"
    and a0: "set (written a0) \<subseteq> set (written a)" "\<forall>f \<in> set l. interactive f \<longrightarrow> set (reads k f) \<subseteq> set (written a0)"
      "\<And>p w. p \<noteq> D \<Longrightarrow> w \<in> set (written a0) \<Longrightarrow> \<sigma> p w = \<sigma>0 p w"
  shows "\<exists>\<sigma>' g' ua ub. (\<forall>p. p \<noteq> D \<longrightarrow>
        layer_values P n k (inputs p) (deal P n gs \<delta>0) p (both_parts n (deal P n gs \<delta>0) \<sigma>0 p) l (\<sigma> p, g, r p) =
          Inr (\<sigma>' p, g', r p @ (if p = P0 then ua else ub))) \<and>
     shares_of \<kappa> \<rho> (a @ l) \<sigma>' \<and> length ua = length ub \<and> vadd ua ub = plain_output n l \<rho>"
  using gs sh ord a0
proof (induction l arbitrary: a \<sigma> g r)
  case Nil
  have "length [] = length []" "vadd [] [] = plain_output n [] \<rho>" by (simp_all add: plain_output_def vadd_def)
  moreover have "layer_values P n k (inputs p) (deal P n gs \<delta>0) p (both_parts n (deal P n gs \<delta>0) \<sigma>0 p) [] (\<sigma> p, g, r p) =
      Inr (\<sigma> p, g, r p @ (if p = P0 then [] else []))" for p by (simp add: layer_values_def)
  moreover have "shares_of \<kappa> \<rho> (a @ []) \<sigma>" using Nil(2) by simp
  ultimately show ?case by blast
next
  case (Cons f l)
  let ?dN = "deal P n gs \<delta>0"
  have gs: "gs = a @ f # (l @ b)" using Cons.prems(1) by simp
  have rd: "set (reads k f) \<subseteq> set (written a)" using Cons.prems(3) by (auto simp: list_all_iff)
  have pt: "parts_agree (both_parts n ?dN \<sigma>0 p) (both_parts n ?dN \<sigma> p) f" if "interactive f" for p
    by (rule parts_cong[OF that]) (use that Cons.prems(5,6) in fastforce)
  obtain \<sigma>1 g1 ua ub where 1: "\<And>p. p \<noteq> D \<Longrightarrow>
        value_step P n k (inputs p) ?dN p (both_parts n ?dN \<sigma>0 p) (\<sigma> p, g, r p) f =
          Inr (\<sigma>1 p, g1, r p @ (if p = P0 then ua else ub))"
      "\<And>p w. p \<noteq> D \<Longrightarrow> w \<in> set (written a) \<Longrightarrow> \<sigma>1 p w = \<sigma> p w"
      "shares_of \<kappa> \<rho> (a @ [f]) \<sigma>1" "length ua = length ub" "vadd ua ub = plain_output n [f] \<rho>"
    using one_gate[where pt = "both_parts n ?dN \<sigma>0" and g = g and r = r, OF R gs Cons.prems(2) rd pt] by blast
  have gs1: "gs = (a @ [f]) @ l @ b" using gs by simp
  have a1: "set (written a0) \<subseteq> set (written (a @ [f]))" "\<forall>f \<in> set l. interactive f \<longrightarrow> set (reads k f) \<subseteq> set (written a0)"
    "in_order k (a @ [f]) l"
    using Cons.prems(3-5) by auto
  have s1: "\<sigma>1 p w = \<sigma>0 p w" if "p \<noteq> D" "w \<in> set (written a0)" for p w
    using 1(2)[OF that(1)] Cons.prems(4,6) that by (metis subsetD)
  let ?r1 = "\<lambda>p. r p @ (if p = P0 then ua else ub)"
  obtain \<sigma>2 g2 va vb where 2: "\<And>p. p \<noteq> D \<Longrightarrow>
        layer_values P n k (inputs p) ?dN p (both_parts n ?dN \<sigma>0 p) l (\<sigma>1 p, g1, ?r1 p) =
          Inr (\<sigma>2 p, g2, ?r1 p @ (if p = P0 then va else vb))"
      "shares_of \<kappa> \<rho> ((a @ [f]) @ l) \<sigma>2" "length va = length vb" "vadd va vb = plain_output n l \<rho>"
    using Cons.IH[OF gs1 1(3) a1(3,1,2) s1, of g1 ?r1] by blast
  have "layer_values P n k (inputs p) ?dN p (both_parts n ?dN \<sigma>0 p) (f # l) (\<sigma> p, g, r p) =
      Inr (\<sigma>2 p, g2, r p @ (if p = P0 then ua @ va else ub @ vb))" if "p \<noteq> D" for p
    using 1(1)[OF that] 2(1)[OF that] by (simp add: layer_values_def)
  moreover have "length (ua @ va) = length (ub @ vb)" "vadd (ua @ va) (ub @ vb) = plain_output n (f # l) \<rho>"
    using 1(4,5) 2(3,4) plain_output_append[of n "[f]" l \<rho>] by (simp_all add: vadd_append)
  moreover have "shares_of \<kappa> \<rho> (a @ f # l) \<sigma>2" using 2(2) by simp
  ultimately show ?case by blast
qed

section \<open>A server between two layers and inside one\<close>

definition buffers_empty :: "'g evaluator \<Rightarrow> bool" where
  "buffers_empty ev \<longleftrightarrow> mul_vals ev = [] \<and> and_vals ev = [] \<and> shuffle_vals ev = [] \<and> reveal_vals ev = []"

definition at_start :: "'g evaluator \<Rightarrow> bool" where
  "at_start ev \<longleftrightarrow> mul_pos ev = 0 \<and> and_pos ev = 0 \<and> shuffle_pos ev = 0 \<and> reveal_pos ev = 0"

definition identity_ok :: "party \<Rightarrow> nat \<Rightarrow> nat \<Rightarrow> (wire_id \<Rightarrow> vec) \<Rightarrow> 'g evaluator \<Rightarrow> bool" where
  "identity_ok p n k inputs ev \<longleftrightarrow> ev_id ev = p \<and> ev_size ev = n \<and> ev_nodes ev = k \<and> input_to_val ev = inputs"

definition server_at ::
  "'g prg_ops \<Rightarrow> nat \<Rightarrow> nat \<Rightarrow> nat \<Rightarrow> circuit \<Rightarrow> gate list \<Rightarrow> 'g dealer \<Rightarrow> (wire_id \<Rightarrow> vec) \<Rightarrow> party \<Rightarrow>
     gate list \<Rightarrow> (wire_id \<Rightarrow> vec) \<Rightarrow> 'g \<Rightarrow> vec \<Rightarrow> 'g evaluator \<Rightarrow> bool" where
  "server_at P n k nw ci gs \<delta>0 inputs p a \<sigma> g res ev \<longleftrightarrow> identity_ok p n k inputs ev \<and> buffers_empty ev \<and> at_start ev \<and>
     (\<exists>ex. W_rel nw (readers gs) (set (written a)) (count_list ex) \<sigma> ev \<and> spent a [] ex) \<and>
     O_at P n ci gs \<delta>0 p a a g (ev_data ev) \<and> ev_output ev = res"

definition server_sent ::
  "'g prg_ops \<Rightarrow> nat \<Rightarrow> nat \<Rightarrow> nat \<Rightarrow> circuit \<Rightarrow> gate list \<Rightarrow> 'g dealer \<Rightarrow> (wire_id \<Rightarrow> vec) \<Rightarrow> party \<Rightarrow>
     gate list \<Rightarrow> gate list \<Rightarrow> (wire_id \<Rightarrow> vec) \<Rightarrow> 'g \<Rightarrow> vec \<Rightarrow> 'g evaluator \<Rightarrow> bool" where
  "server_sent P n k nw ci gs \<delta>0 inputs p a l \<sigma> g res ev \<longleftrightarrow> identity_ok p n k inputs ev \<and> at_start ev \<and>
     (\<exists>ex. W_rel nw (readers gs) (set (written a)) (count_list ex) \<sigma> ev \<and> spent a l ex) \<and>
     O_at P n ci gs \<delta>0 p (a @ l) a g (ev_data ev) \<and> ev_output ev = res \<and>
     mul_vals ev = concat (map (mul_part n (deal P n gs \<delta>0) p \<sigma>) l) \<and>
     and_vals ev = concat (map (and_part n (deal P n gs \<delta>0) p \<sigma>) l) \<and>
     shuffle_vals ev = concat (map (shuffle_part (deal P n gs \<delta>0) p \<sigma>) l) \<and>
     reveal_vals ev = concat (map (reveal_part n \<sigma>) l)"

lemma chosen_at:
  assumes "setting P n k nw ci gs \<delta>0" "gs = a @ b"
  shows "chosen (deal P n a \<delta>0) i \<longleftrightarrow> (\<exists>f \<in> set a. uses f i)"
proof -
  have "shuffles_first [] a" using assms by (simp add: setting_def dealable_def shuffles_first_append)
  then show ?thesis using deal_inv(2)[of n \<delta>0 "[]" a P i] assms(1) by (simp add: setting_def)
qed

lemma server_send:
  assumes "setting P n k nw ci gs \<delta>0" "gs = a @ l @ b" "server_at P n k nw ci gs \<delta>0 inputs p a \<sigma> g res ev"
    "list_all (layer_start k a) l" "\<forall>f \<in> set l. interactive f \<longrightarrow> sizes_ok n f \<sigma>"
  shows "\<exists>ev'. evaluate_send P l ev = Inr ev' \<and> server_sent P n k nw ci gs \<delta>0 inputs p a l \<sigma> g res ev'"
proof -
  obtain ex where ex: "W_rel nw (readers gs) (set (written a)) (count_list ex) \<sigma> ev" "spent a [] ex"
    using assms(3) by (auto simp: server_at_def)
  have id: "ev_id ev = p" "ev_size ev = n" and O: "O_at P n ci gs \<delta>0 p a a g (ev_data ev)"
    using assms(3) by (simp_all add: server_at_def identity_ok_def)
  have W: "set (written a) \<subseteq> {..<nw}" by (rule written_lt[OF assms(1)]) (use assms(2) in auto)
  have le: "\<forall>w. count_list ex w \<le> count_list (dropped a) w" using ex(2) by (simp add: spent_def)
  have rd: "\<forall>f \<in> set l. interactive f \<longrightarrow> set (reads k f) \<subseteq> set (written a) \<and> sizes_ok n f \<sigma>"
    using assms(4,5) by (auto simp: list_all_iff layer_start_def)
  have un: "\<forall>f \<in> set l. gt f = Unshuffle \<longrightarrow> chosen (deal P n a \<delta>0) (g_shuffle_idx f)"
    using assms(4) chosen_at[OF assms(1,2)] by (auto simp: list_all_iff list_ex_iff layer_start_def)
  obtain ev' where e: "evaluate_send P l ev = Inr ev'" "W_rel nw (readers gs) (set (written a)) (count_list (ex @ sent l)) \<sigma> ev'"
    "O_at P n ci gs \<delta>0 p (a @ l) a g (ev_data ev')" "send_frame ev ev'" "appended n (deal P n gs \<delta>0) p \<sigma> l ev ev'"
    using send_layer[OF assms(1,2) id ex(1) O W le rd un] by blast
  have "spent a l (ex @ sent l)" using ex(2) by (simp add: spent_def)
  moreover have "identity_ok p n k inputs ev'" "at_start ev'" "ev_output ev' = res"
    using e(4) assms(3) by (simp_all add: send_frame_def server_at_def identity_ok_def at_start_def)
  ultimately show ?thesis
    using e assms(3) unfolding server_sent_def appended_def server_at_def buffers_empty_def by auto
qed

lemma buf_rel_start: "buf = concat (map part l) \<Longrightarrow> pos = 0 \<Longrightarrow> buf_rel part [] l buf pos"
  by (simp add: buf_rel_def)

lemma buf_rel_end: "buf_rel part l [] buf pos \<Longrightarrow> pos = 0"
  by (simp add: buf_rel_def)

lemma server_recv:
  assumes "setting P n k nw ci gs \<delta>0" "gs = a @ l @ b" "server_sent P n k nw ci gs \<delta>0 inputs p a l \<sigma> g res ev"
    "list_all (layer_start k a) l" "in_order k a l" "\<forall>f \<in> set l. parts_fit n pt f"
    "mul_vals (opened ev other) = concat (map (p_mul pt) l)" "and_vals (opened ev other) = concat (map (p_and pt) l)"
    "shuffle_vals (opened ev other) = concat (map (p_shuffle pt) l)"
    "reveal_vals (opened ev other) = concat (map (p_reveal pt) l)"
    "layer_values P n k inputs (deal P n gs \<delta>0) p pt l (\<sigma>, g, res) = Inr (\<sigma>', g', res')"
  shows "\<exists>ev'. evaluate_recv P l (opened ev other) = Inr ev' \<and>
     server_at P n k nw ci gs \<delta>0 inputs p (a @ l) \<sigma>' g' res' (clear_vals ev')"
proof -
  let ?ev = "opened ev other"
  obtain ex where ex: "W_rel nw (readers gs) (set (written a)) (count_list ex) \<sigma> ev" "spent a l ex"
    using assms(3) by (auto simp: server_sent_def)
  have W: "W_rel nw (readers gs) (set (written a)) (count_list ex) \<sigma> ?ev" using ex(1) by (simp add: W_rel_def opened_def)
  have id: "ev_id ?ev = p" "ev_size ?ev = n" "ev_nodes ?ev = k" "input_to_val ?ev = inputs"
    and O: "O_at P n ci gs \<delta>0 p (a @ l) a g (ev_data ?ev)" and out: "ev_output ?ev = res"
    using assms(3) by (simp_all add: server_sent_def identity_ok_def opened_def)
  have gs: "gs = (a @ l) @ b" using assms(2) by simp
  have un: "\<forall>f \<in> set l. gt f = Unshuffle \<longrightarrow> chosen (deal P n (a @ l) \<delta>0) (g_shuffle_idx f)"
    using assms(4) chosen_at[OF assms(1) gs] by (auto simp: list_all_iff list_ex_iff layer_start_def)
  have pos: "mul_pos ?ev = 0" "and_pos ?ev = 0" "shuffle_pos ?ev = 0" "reveal_pos ?ev = 0"
    using assms(3) by (simp_all add: server_sent_def at_start_def opened_def)
  have B: "B_rel pt [] l ?ev" unfolding B_rel_def using assms(7-10) pos by (intro conjI buf_rel_start) simp_all
  obtain ev' ex' where e: "evaluate_recv P l ?ev = Inr ev'"
    "W_rel nw (readers gs) (set (written (a @ l))) (count_list ex') \<sigma>' ev'" "O_at P n ci gs \<delta>0 p (a @ l) (a @ l) g' (ev_data ev')"
    "spent (a @ l) [] ex'" "recv_frame ?ev ev'" "ev_output ev' = res'" "B_rel pt l [] ev'"
    using recv_layer[OF assms(1,2) id W O ex(2) assms(5) un B assms(6) assms(11)[folded out]] by auto
  have "at_start (clear_vals ev')"
    using e(7) unfolding B_rel_def by (auto simp: at_start_def clear_vals_def dest: buf_rel_end)
  moreover have "identity_ok p n k inputs (clear_vals ev')"
    using e(5) id by (simp add: identity_ok_def recv_frame_def clear_vals_def)
  moreover have "W_rel nw (readers gs) (set (written (a @ l))) (count_list ex') \<sigma>' (clear_vals ev')"
    using e(2) by (simp add: W_rel_def clear_vals_def)
  moreover have "buffers_empty (clear_vals ev')" "ev_output (clear_vals ev') = res'" "ev_data (clear_vals ev') = ev_data ev'"
    using e(6) by (simp_all add: buffers_empty_def clear_vals_def)
  ultimately show ?thesis using e(1,3,4) unfolding server_at_def by auto
qed

section \<open>One layer of the run\<close>

lemma concat_vadd:
  assumes "\<And>f. f \<in> set l \<Longrightarrow> length (u f) = length (v f)"
  shows "vadd (concat (map u l)) (concat (map v l)) = concat (map (\<lambda>f. vadd (u f) (v f)) l)"
  using assms by (induction l) (simp_all add: vadd_append vadd_def)

lemma concat_vxor:
  assumes "\<And>f. f \<in> set l \<Longrightarrow> length (u f) = length (v f)"
  shows "vxor (concat (map u l)) (concat (map v l)) = concat (map (\<lambda>f. vxor (u f) (v f)) l)"
  using assms by (induction l) (simp_all add: vxor_def)

lemma length_concat_eq:
  assumes "\<And>f. f \<in> set l \<Longrightarrow> length (u f) = length (v f)"
  shows "length (concat (map u l)) = length (concat (map v l))"
  using assms by (induction l) simp_all

lemma part_lengths:
  assumes "setting P n k nw ci gs \<delta>0" "f \<in> set gs" "interactive f \<longrightarrow> sizes_ok n f \<sigma>" "p \<noteq> D"
  shows "length (mul_part n (deal P n gs \<delta>0) p \<sigma> f) = (if triple_type (gt f) \<and> \<not> g_binary f then 2 * triple_width n f else 0)"
    "length (and_part n (deal P n gs \<delta>0) p \<sigma> f) = (if triple_type (gt f) \<and> g_binary f then 2 * triple_width n f else 0)"
    "length (shuffle_part (deal P n gs \<delta>0) p \<sigma> f) = (if move_type (gt f) then n else 0)"
    "length (reveal_part n \<sigma> f) = (if gt f = Reveal then n else 0)"
proof -
  obtain a b where gs: "gs = a @ f # b" using assms(2) by (meson split_list)
  have m: "length (d_mask (deal P n gs \<delta>0) p (out_idx f)) = n" if "move_type (gt f)"
    using dealt_values(2)[OF setting_dealt[OF assms(1) gs] that] party_online[OF assms(4)] by (auto simp: move_ok_def Let_def)
  have x: "length (\<sigma> (in1_idx f)) = n" if "move_type (gt f)"
    using assms(3) that by (auto simp: sizes_ok_def interactive_def interactive_type_def move_type_def)
  show "length (shuffle_part (deal P n gs \<delta>0) p \<sigma> f) = (if move_type (gt f) then n else 0)"
    using m x by (auto simp: shuffle_part_def masked_def picks_def move_type_def)
  show "length (reveal_part n \<sigma> f) = (if gt f = Reveal then n else 0)"
    using assms(3) by (auto simp: reveal_part_def sizes_ok_def interactive_def interactive_type_def)
qed (simp_all add: mul_part_def and_part_def)

lemma duo_layer:
  assumes R: "plain_run P n k nw ci gs \<delta>0 \<kappa> inputs ins \<rho>" and gs: "gs = a @ l @ b" and b: "0 < bl"
    and sv: "server_at P n k nw ci gs \<delta>0 (inputs P0) P0 a (\<sigma> P0) g ua ev0"
      "server_at P n k nw ci gs \<delta>0 (inputs P1) P1 a (\<sigma> P1) g ub ev1"
    and sh: "shares_of \<kappa> \<rho> a \<sigma>" and ord: "list_all (layer_start k a) l" "in_order k a l"
    and out: "length ua = length ub" "vadd ua ub = plain_output n a \<rho>"
  shows "\<exists>ev0' ev1' \<sigma>' g' ua' ub'. run_layer P bl ((ev0, []), (ev1, [])) l = Inr ((ev0', []), (ev1', [])) \<and>
     server_at P n k nw ci gs \<delta>0 (inputs P0) P0 (a @ l) (\<sigma>' P0) g' ua' ev0' \<and>
     server_at P n k nw ci gs \<delta>0 (inputs P1) P1 (a @ l) (\<sigma>' P1) g' ub' ev1' \<and>
     shares_of \<kappa> \<rho> (a @ l) \<sigma>' \<and> length ua' = length ub' \<and> vadd ua' ub' = plain_output n (a @ l) \<rho>"
proof -
  let ?dN = "deal P n gs \<delta>0" and ?pt = "both_parts n (deal P n gs \<delta>0) \<sigma>"
  have S: "setting P n k nw ci gs \<delta>0" using R by (simp add: plain_run_def)
  have sub: "f \<in> set gs" if "f \<in> set l" for f using that gs by simp
  have rd: "\<forall>f \<in> set l. interactive f \<longrightarrow> set (reads k f) \<subseteq> set (written a)"
    using ord(1) by (auto simp: list_all_iff layer_start_def)
  have sz: "\<forall>f \<in> set l. interactive f \<longrightarrow> sizes_ok n f (\<sigma> p)" if "p \<noteq> D" for p
  proof (intro ballI impI)
    fix f assume f: "f \<in> set l" "interactive f"
    obtain v where v: "plain_op n k (d_perm ?dN) ins \<rho> f = Inr v" using plain_runD(4)[OF R sub[OF f(1)]] by blast
    show "sizes_ok n f (\<sigma> p)"
      by (rule plain_sizes[OF v setting_gate(2,3)[OF S sub[OF f(1)]] f(2)]) (use shares_lengths[OF sh _ that] rd f in blast)
  qed
  have len: "length (mul_part n ?dN P0 (\<sigma> P0) f) = length (mul_part n ?dN P1 (\<sigma> P1) f)"
    "length (and_part n ?dN P0 (\<sigma> P0) f) = length (and_part n ?dN P1 (\<sigma> P1) f)"
    "length (shuffle_part ?dN P0 (\<sigma> P0) f) = length (shuffle_part ?dN P1 (\<sigma> P1) f)"
    "length (reveal_part n (\<sigma> P0) f) = length (reveal_part n (\<sigma> P1) f)"
    and fit: "parts_fit n (?pt p) f" if "f \<in> set l" for f p
    using part_lengths[OF S sub[OF that], of "\<sigma> P0" P0] part_lengths[OF S sub[OF that], of "\<sigma> P1" P1] sz[of P0] sz[of P1] that
    by (auto simp: parts_fit_def both_parts_def partner_of_def)
  obtain e0 where 0: "evaluate_send P l ev0 = Inr e0" "server_sent P n k nw ci gs \<delta>0 (inputs P0) P0 a l (\<sigma> P0) g ua e0"
    using server_send[OF S gs sv(1) ord(1)] sz[of P0] by auto
  obtain e1 where 1: "evaluate_send P l ev1 = Inr e1" "server_sent P n k nw ci gs \<delta>0 (inputs P1) P1 a l (\<sigma> P1) g ub e1"
    using server_send[OF S gs sv(2) ord(1)] sz[of P1] by auto
  note buf0 = 0(2)[unfolded server_sent_def] and buf1 = 1(2)[unfolded server_sent_def]
  have sw: "same_widths e0 e1"
    using buf0 buf1 length_concat_eq[where l = l, OF len(1)] length_concat_eq[where l = l, OF len(2)]
      length_concat_eq[where l = l, OF len(3)] length_concat_eq[where l = l, OF len(4)] by (simp add: same_widths_def)
  have ex: "exchange bl ((e0, []), (e1, [])) = Inr ((opened e0 e1, []), (opened e1 e0, []))"
    by (rule exchange_opens[OF sw b])
  obtain \<sigma>' g' va vb where V: "\<And>p. p \<noteq> D \<Longrightarrow>
        layer_values P n k (inputs p) ?dN p (?pt p) l (\<sigma> p, g, if p = P0 then ua else ub) =
          Inr (\<sigma>' p, g', (if p = P0 then ua else ub) @ (if p = P0 then va else vb))"
     "shares_of \<kappa> \<rho> (a @ l) \<sigma>'" "length va = length vb" "vadd va vb = plain_output n l \<rho>"
    using one_layer[where g = g and r = "\<lambda>p. if p = P0 then ua else ub", OF R gs sh ord(2) order.refl rd] by blast
  have o0: "mul_vals (opened e0 e1) = concat (map (p_mul (?pt P0)) l)" "and_vals (opened e0 e1) = concat (map (p_and (?pt P0)) l)"
    "shuffle_vals (opened e0 e1) = concat (map (p_shuffle (?pt P0)) l)"
    "reveal_vals (opened e0 e1) = concat (map (p_reveal (?pt P0)) l)"
    using buf0 buf1 len by (simp_all add: opened_def both_parts_def partner_of_def concat_vadd concat_vxor)
  have o1: "mul_vals (opened e1 e0) = concat (map (p_mul (?pt P1)) l)" "and_vals (opened e1 e0) = concat (map (p_and (?pt P1)) l)"
    "shuffle_vals (opened e1 e0) = concat (map (p_shuffle (?pt P1)) l)"
    "reveal_vals (opened e1 e0) = concat (map (p_reveal (?pt P1)) l)"
  proof -
    have c: "vadd u v = vadd v u" "vxor u v = vxor v u" for u v :: vec
      by (rule vadd_commute) (auto intro!: nth_equalityI simp: xor.commute)
    show "mul_vals (opened e1 e0) = concat (map (p_mul (?pt P1)) l)" "and_vals (opened e1 e0) = concat (map (p_and (?pt P1)) l)"
      "reveal_vals (opened e1 e0) = concat (map (p_reveal (?pt P1)) l)"
      using o0(1,2,4) c(1)[of "mul_vals e0" "mul_vals e1"] c(2)[of "and_vals e0" "and_vals e1"]
        c(1)[of "reveal_vals e0" "reveal_vals e1"] by (simp_all add: opened_def both_parts_def)
    show "shuffle_vals (opened e1 e0) = concat (map (p_shuffle (?pt P1)) l)"
      using buf0 by (simp add: opened_def both_parts_def partner_of_def)
  qed
  obtain r0 where r0: "evaluate_recv P l (opened e0 e1) = Inr r0"
    "server_at P n k nw ci gs \<delta>0 (inputs P0) P0 (a @ l) (\<sigma>' P0) g' (ua @ va) (clear_vals r0)"
    using server_recv[OF S gs 0(2) ord _ o0, of "\<sigma>' P0" g' "ua @ va"] fit V(1)[of P0] by auto
  obtain r1 where r1: "evaluate_recv P l (opened e1 e0) = Inr r1"
    "server_at P n k nw ci gs \<delta>0 (inputs P1) P1 (a @ l) (\<sigma>' P1) g' (ub @ vb) (clear_vals r1)"
    using server_recv[OF S gs 1(2) ord _ o1, of "\<sigma>' P1" g' "ub @ vb"] fit V(1)[of P1] by auto
  have "run_layer P bl ((ev0, []), (ev1, [])) l = Inr ((clear_vals r0, []), (clear_vals r1, []))"
    using 0(1) 1(1) ex r0(1) r1(1) by (simp add: run_layer_def)
  moreover have "length (ua @ va) = length (ub @ vb)" "vadd (ua @ va) (ub @ vb) = plain_output n (a @ l) \<rho>"
    using out V(3,4) by (simp_all add: vadd_append plain_output_append)
  ultimately show ?thesis using r0(2) r1(2) V(2) by blast
qed

lemma duo_layers:
  assumes R: "plain_run P n k nw ci gs \<delta>0 \<kappa> inputs ins \<rho>" and b: "0 < bl"
    and gs: "gs = a @ concat ls" and ord: "order_ok k a ls"
    and sv: "server_at P n k nw ci gs \<delta>0 (inputs P0) P0 a (\<sigma> P0) g ua ev0"
      "server_at P n k nw ci gs \<delta>0 (inputs P1) P1 a (\<sigma> P1) g ub ev1"
    and sh: "shares_of \<kappa> \<rho> a \<sigma>" and out: "length ua = length ub" "vadd ua ub = plain_output n a \<rho>"
  shows "\<exists>ev0' ev1'. foldr_res (run_layer P bl) ((ev0, []), (ev1, [])) ls = Inr ((ev0', []), (ev1', [])) \<and>
     length (ev_output ev0') = length (ev_output ev1') \<and> vadd (ev_output ev0') (ev_output ev1') = plain_output n gs \<rho>"
  using gs ord sv sh out
proof (induction ls arbitrary: a \<sigma> g ua ub ev0 ev1)
  case Nil
  have "ev_output ev0 = ua" "ev_output ev1 = ub" using Nil(3,4) by (simp_all add: server_at_def)
  then show ?case using Nil by simp
next
  case (Cons l ls)
  have gs1: "gs = a @ l @ concat ls" "gs = (a @ l) @ concat ls" using Cons.prems(1) by simp_all
  have o: "list_all (layer_start k a) l" "in_order k a l" "order_ok k (a @ l) ls" using Cons.prems(2) by simp_all
  from duo_layer[OF R gs1(1) b Cons.prems(3,4,5) o(1,2) Cons.prems(6,7)]
  obtain f0 f1 \<sigma>' g' ua' ub' where 1: "run_layer P bl ((ev0, []), (ev1, [])) l = Inr ((f0, []), (f1, []))"
    "server_at P n k nw ci gs \<delta>0 (inputs P0) P0 (a @ l) (\<sigma>' P0) g' ua' f0"
    "server_at P n k nw ci gs \<delta>0 (inputs P1) P1 (a @ l) (\<sigma>' P1) g' ub' f1"
    "shares_of \<kappa> \<rho> (a @ l) \<sigma>'" "length ua' = length ub'" "vadd ua' ub' = plain_output n (a @ l) \<rho>"
    by blast
  from Cons.IH[OF gs1(2) o(3) 1(2-6)] show ?case using 1(1) by auto
qed

end
