(* ===== verification/Servers.thy ===== *)
theory Servers
  imports Online
begin

text \<open>
  The three servers of \<open>src/run_server.cpp\<close> from the built circuit to the shares of the result:
  the offline phase, then the online phase on what it has stored. The reference is an evaluation
  of the circuit on plain vectors, under the permutations that the dealer has drawn.
\<close>

section \<open>The run of the servers\<close>

text \<open>\<open>conf\<close> and \<open>shares\<close> are what each server has: its configuration and its share of the graph.\<close>

definition run_servers ::
  "'g prg_ops \<Rightarrow> nat \<Rightarrow> circuit \<Rightarrow> (party \<Rightarrow> protocol_config) \<Rightarrow> 'g rngs \<times> 'g rngs \<times> 'g rngs \<Rightarrow>
     (party \<Rightarrow> graph) \<Rightarrow> 'g duo res" where
  "run_servers P block_size ci conf rs shares =
     bindr (run_offline P block_size (circ ci) P0 (start_storages conf ci rs)) (\<lambda>((sD, s0, s1), _).
       run_online P block_size (n_wires ci) (circ ci)
         (new_evaluator ci (conf P0) s0 (shares P0)) (new_evaluator ci (conf P1) s1 (shares P1)))"

section \<open>The reference\<close>

definition plain_step ::
  "nat \<Rightarrow> nat \<Rightarrow> (nat \<Rightarrow> permutation) \<Rightarrow> (wire_id \<Rightarrow> vec) \<Rightarrow> (wire_id \<Rightarrow> vec) \<times> vec \<Rightarrow> gate \<Rightarrow>
     ((wire_id \<Rightarrow> vec) \<times> vec) res" where
  "plain_step n k \<Pi> ins st f =
     (case st of (\<rho>, out) \<Rightarrow>
        bindr (plain_op n k \<Pi> ins \<rho> f) (\<lambda>v.
          Inr (if gt f = Output then (\<rho>, out @ take n (\<rho> (in1_idx f))) else (\<rho>(out_idx f := v), out))))"

definition plain_eval ::
  "nat \<Rightarrow> nat \<Rightarrow> (nat \<Rightarrow> permutation) \<Rightarrow> (wire_id \<Rightarrow> vec) \<Rightarrow> gate list \<Rightarrow> vec res" where
  "plain_eval n k \<Pi> ins gs = bindr (foldr_res (plain_step n k \<Pi> ins) (\<lambda>_. [], []) gs) (\<lambda>(\<rho>, out). Inr out)"

lemma plain_op_cong:
  assumes "known_type (gt f)" "\<And>w. w \<in> set (reads k f) \<Longrightarrow> \<rho> w = \<rho>' w"
  shows "plain_op n k \<Pi> ins \<rho> f = plain_op n k \<Pi> ins \<rho>' f"
proof (cases "gt f = Input \<or> gt f = SetConstVecSIMD \<or> gt f = ColumnSumsToNodes")
  case True
  have c: "map \<rho> (take k (data_parallel f)) = map \<rho>' (take k (data_parallel f))" if "gt f = ColumnSumsToNodes"
    by (rule map_cong[OF refl]) (use assms(2) that in \<open>simp add: reads_def\<close>)
  show ?thesis
    using True
  proof (elim disjE)
    assume "gt f = ColumnSumsToNodes"
    then show ?thesis by (simp add: plain_op_def Let_def type_defs c)
  qed (simp_all add: plain_op_def Let_def type_defs)
next
  case False
  have 1: "\<rho> (in1_idx f) = \<rho>' (in1_idx f)" using assms(2)[of "in1_idx f"] False by (simp add: reads_def)
  have 2: "\<rho> (in2_idx f) = \<rho>' (in2_idx f)" if "two_inputs (gt f)"
    using assms(2)[of "in2_idx f"] False that by (simp add: reads_def)
  show ?thesis
  proof (cases "two_inputs (gt f)")
    case True
    show ?thesis using False by (simp add: plain_op_def Let_def 1 2[OF True])
  next
    case n: False
    then have "\<not> product_type (gt f)" "\<not> permute_type (gt f)" "\<not> linear2_type (gt f)" by (simp_all add: two_inputs_def)
    then show ?thesis using False by (simp add: plain_op_def Let_def 1)
  qed
qed

lemma plain_fold:
  assumes "list_all (\<lambda>f. known_type (gt f)) (a @ gs)" "in_order k a gs" "distinct (written (a @ gs))"
    "foldr_res (plain_step n k \<Pi> ins) (\<rho>, out) gs = Inr (\<rho>', out')"
  shows "(\<forall>w \<in> set (written a). \<rho>' w = \<rho> w) \<and> assigns n k \<Pi> ins gs \<rho>' \<and> out' = out @ plain_output n gs \<rho>'"
  using assms
proof (induction gs arbitrary: a \<rho> out)
  case Nil
  then show ?case by (simp add: assigns_def plain_output_def)
next
  case (Cons f gs)
  obtain st where st: "plain_step n k \<Pi> ins (\<rho>, out) f = Inr st" "foldr_res (plain_step n k \<Pi> ins) st gs = Inr (\<rho>', out')"
    using Cons.prems(4) by (auto simp: bindr_Inr_iff)
  obtain v where v: "plain_op n k \<Pi> ins \<rho> f = Inr v"
    and e: "st = (if gt f = Output then (\<rho>, out @ take n (\<rho> (in1_idx f))) else (\<rho>(out_idx f := v), out))"
    using st(1) by (auto simp: plain_step_def bindr_Inr_iff)
  let ?r = "if gt f = Output then \<rho> else \<rho>(out_idx f := v)" and ?o = "if gt f = Output then out @ take n (\<rho> (in1_idx f)) else out"
  have rest: "foldr_res (plain_step n k \<Pi> ins) (?r, ?o) gs = Inr (\<rho>', out')" using st(2) e by (simp split: if_splits)
  have pre: "list_all (\<lambda>f. known_type (gt f)) ((a @ [f]) @ gs)" "in_order k (a @ [f]) gs" "distinct (written ((a @ [f]) @ gs))"
    using Cons.prems(1-3) by simp_all
  note IH = Cons.IH[OF pre rest]
  have keep: "\<rho>' w = \<rho> w" if "w \<in> set (written a)" for w
  proof -
    have "?r w = \<rho> w" using that Cons.prems(3) by (auto simp: outs_def)
    then show ?thesis using IH that by simp
  qed
  have rd: "w \<in> set (written a)" if "w \<in> set (reads k f)" for w using Cons.prems(2) that by (auto simp: list_all_iff)
  have op: "plain_op n k \<Pi> ins \<rho>' f = Inr v"
    using plain_op_cong[of f k \<rho>' \<rho> n \<Pi> ins] keep rd v Cons.prems(1) by simp
  have out: "gt f \<noteq> Output \<Longrightarrow> \<rho>' (out_idx f) = v" using IH by (auto simp: outs_def)
  have as: "assigns n k \<Pi> ins (f # gs) \<rho>'" using IH op out by (auto simp: assigns_def)
  have "in1_idx f \<in> set (written a)" if "gt f = Output"
    using rd[of "in1_idx f"] that by (simp add: reads_def two_inputs_def type_defs)
  then have "?o = out @ plain_output n [f] \<rho>'" using keep by (auto simp: plain_output_def)
  then have "out' = out @ plain_output n (f # gs) \<rho>'" using IH plain_output_append[of n "[f]" gs \<rho>'] by simp
  then show ?case using keep as by simp
qed

lemma in_order_append: "in_order k a (l @ ls) \<longleftrightarrow> in_order k a l \<and> in_order k (a @ l) ls"
  by (induction l arbitrary: a) auto

lemma order_ok_in_order: "order_ok k a ls \<Longrightarrow> in_order k a (concat ls)"
  by (induction ls arbitrary: a) (auto simp: in_order_append)

lemma plain_eval_assigns:
  assumes "circuit_runs n k nw layers" "plain_eval n k \<Pi> ins (concat layers) = Inr out"
  shows "\<exists>\<rho>. assigns n k \<Pi> ins (concat layers) \<rho> \<and> out = plain_output n (concat layers) \<rho>"
proof -
  obtain \<rho> where "foldr_res (plain_step n k \<Pi> ins) (\<lambda>_. [], []) (concat layers) = Inr (\<rho>, out)"
    using assms(2) by (auto simp: plain_eval_def bindr_Inr_iff)
  moreover have "list_all (\<lambda>f. known_type (gt f)) ([] @ concat layers)" "in_order k [] (concat layers)"
    "distinct (written ([] @ concat layers))"
    using assms(1) order_ok_in_order by (auto simp: circuit_runs_def Let_def list_all_iff gate_runs_def)
  ultimately show ?thesis using plain_fold[of "[]" "concat layers" k n \<Pi> ins "\<lambda>_. []" "[]" \<rho> out] by auto
qed

section \<open>The start\<close>

definition input_at :: "circuit \<Rightarrow> graph \<Rightarrow> wire_id \<Rightarrow> vec" where
  "input_at ci g i = (let ins = input_vectors g (columns ci) in if i < length ins then ins ! i else [])"

lemma online_starts:
  assumes "conf_id conf = p" "p \<noteq> D" "conf_size conf = n" "conf_nodes conf = k"
    "list_all (\<lambda>f. in1_idx f < nw \<and> in2_idx f < nw) (concat layers)"
    "O_at P n ci (concat layers) \<delta>0 p [] [] g st"
  shows "\<exists>ev. run_init nw layers (new_evaluator ci conf st gr) = Inr ev \<and>
     server_at P n k nw ci (concat layers) \<delta>0 (input_at ci gr) p [] \<sigma> g [] ev"
proof -
  let ?ev = "(new_evaluator ci conf st gr)\<lparr>waiting := replicate nw 0, wires := replicate nw [], initialized := True\<rparr>"
  obtain wt where wt: "init_waiting layers (replicate nw 0) = Inr wt" "length wt = nw"
    "\<forall>w < nw. wt ! w = readers (concat layers) w"
    using init_waiting_ok[of "replicate nw 0" layers] assms(5) by auto
  let ?ev1 = "?ev\<lparr>waiting := wt\<rparr>"
  have r: "run_init nw layers (new_evaluator ci conf st gr) = Inr ?ev1"
    using wt(1) by (simp add: run_init_def new_evaluator_def Let_def)
  have W: "W_rel nw (readers (concat layers)) (set (written [])) (count_list []) \<sigma> ?ev1"
    using wt(2,3) by (simp add: W_rel_def)
  have "identity_ok p n k (input_at ci gr) ?ev1"
    using assms(1-4) by (simp add: identity_ok_def new_evaluator_def Let_def input_at_def fun_eq_iff)
  moreover have "buffers_empty ?ev1" "at_start ?ev1" "ev_output ?ev1 = []" "ev_data ?ev1 = st"
    by (simp_all add: buffers_empty_def at_start_def new_evaluator_def Let_def)
  moreover have "spent [] [] []" by (simp add: spent_def)
  ultimately have "server_at P n k nw ci (concat layers) \<delta>0 (input_at ci gr) p [] \<sigma> g [] ?ev1"
    using W assms(6) unfolding server_at_def by auto
  then show ?thesis using r by blast
qed

text \<open>The permutations of the dealer, and how a merged one belongs to the two it is merged from.\<close>

definition merged_ok :: "(nat \<Rightarrow> permutation) \<Rightarrow> gate list \<Rightarrow> bool" where
  "merged_ok \<Pi> gs \<longleftrightarrow>
     (\<forall>a f b. gs = a @ f # b \<and> gt f = MergedShuffle \<and> \<not> list_ex (\<lambda>g. uses g (g_shuffle_idx f)) a \<longrightarrow>
        \<Pi> (g_shuffle_idx f) = perm_apply (\<Pi> (pi_idx f)) (\<Pi> (omega_idx f)))"

lemma deal_perms:
  assumes "legs_inv n \<delta>0" "\<And>i. \<not> chosen \<delta>0 i" "shuffles_first [] gs" "0 < n" "n < 2 ^ 31"
  shows "\<forall>f \<in> set gs. picks f \<longrightarrow> perm_ok n (d_perm (deal P n gs \<delta>0) (g_shuffle_idx f))"
    "merged_ok (d_perm (deal P n gs \<delta>0)) gs"
proof -
  let ?dN = "deal P n gs \<delta>0"
  note N = deal_inv[OF assms(1) _ assms(3-5), where P = P, simplified assms(2)]
  show "\<forall>f \<in> set gs. picks f \<longrightarrow> perm_ok n (d_perm ?dN (g_shuffle_idx f))"
  proof (intro ballI impI)
    fix f assume "f \<in> set gs" "picks f"
    then have "chosen ?dN (g_shuffle_idx f)" using N(2) by (auto simp: uses_picks)
    then show "perm_ok n (d_perm ?dN (g_shuffle_idx f))"
      using N(1)[simplified] unfolding legs_inv_def legs_ok_def by metis
  qed
  show "merged_ok (d_perm ?dN) gs"
    unfolding merged_ok_def
  proof (intro allI impI, elim conjE)
    fix a f b assume gs: "gs = a @ f # b" and m: "gt f = MergedShuffle" "\<not> list_ex (\<lambda>g. uses g (g_shuffle_idx f)) a"
    let ?d = "deal P n a \<delta>0" and ?d' = "deal P n (a @ [f]) \<delta>0" and ?i = "g_shuffle_idx f"
    have sf: "shuffles_first [] a" "shuffles_first (picked a []) (f # b)" "shuffles_first (picked (a @ [f]) []) b"
      using assms(3) gs shuffles_first_append[of "[]" "a @ [f]" b] by (simp_all add: shuffles_first_append)
    note A = deal_inv[OF assms(1) _ sf(1) assms(4,5), where P = P, simplified assms(2)]
    have ch: "chosen ?d (pi_idx f)" "chosen ?d (omega_idx f)" "\<not> chosen ?d ?i"
      using sf(2) m A(2) by (auto simp: set_picked list_ex_iff)
    have u: "uses f ?i" using m by (simp add: uses_def)
    have e: "?d' = deal_gate P n f ?d" by (simp add: deal_snoc)
    have rdy: "ready_gate ?d f" using m ch by (simp add: ready_gate_def)
    have g: "chooses n ?i ?d ?d' \<and> d_perm ?d' ?i = perm_apply (d_perm ?d (pi_idx f)) (d_perm ?d (omega_idx f))"
      using deal_gate_cases[OF A(1)[simplified] rdy assms(5), of P] u ch(3) m(1) unfolding e by auto
    have inv: "legs_inv n ?d'" unfolding e by (rule deal_gate_inv(1)[OF A(1)[simplified] rdy assms(4,5)])
    have ne: "pi_idx f \<noteq> ?i" "omega_idx f \<noteq> ?i" using ch by auto
    have p: "d_perm ?d' (pi_idx f) = d_perm ?d (pi_idx f)" "d_perm ?d' (omega_idx f) = d_perm ?d (omega_idx f)"
      "chosen ?d' (pi_idx f)" "chosen ?d' (omega_idx f)" "chosen ?d' ?i"
      using chooses_perm[OF conjunct1[OF g] ne(1)] chooses_perm[OF conjunct1[OF g] ne(2)] ch
        chooses_chosen[OF conjunct1[OF g] assms(4)] by simp_all
    have seen: "\<And>j. j \<in> set (picked (a @ [f]) []) \<Longrightarrow> chosen ?d' j"
      using A(2) deal_gate_inv(2)[OF A(1)[simplified] rdy assms(4,5), of P] unfolding e by (auto simp: set_picked)
    have "d_perm ?dN j = d_perm ?d' j" if "chosen ?d' j" for j
    proof -
      have "legs_at (deal P n b ?d') j = legs_at ?d' j"
        by (rule deal_inv(3)[OF inv seen sf(3) assms(4,5)]) (use that in simp_all)
      moreover have "deal P n b ?d' = ?dN" using gs by (simp add: deal_append deal_Cons)
      ultimately show ?thesis using legs_at_chosen by metis
    qed
    then show "d_perm ?dN ?i = perm_apply (d_perm ?dN (pi_idx f)) (d_perm ?dN (omega_idx f))"
      using p g by simp
  qed
qed

lemma servers_compute:
  assumes "same_confs conf n" "\<forall>p. conf_nodes (conf p) = k" "0 < n" "n < 2 ^ 31" "0 < b"
    "dealable ci (concat (circ ci))" "circuit_runs n k (n_wires ci) (circ ci)" "list_all (typed \<kappa>) (concat (circ ci))"
    "input_shares (concat (circ ci)) (\<lambda>p. input_at ci (shares p)) ins"
    "fresh_flags rD" "fresh_flags r0" "fresh_flags r1"
  shows "\<exists>\<Pi>. (\<forall>f \<in> set (concat (circ ci)). picks f \<longrightarrow> perm_ok n (\<Pi> (g_shuffle_idx f))) \<and>
     merged_ok \<Pi> (concat (circ ci)) \<and>
     (\<forall>out. plain_eval n k \<Pi> ins (concat (circ ci)) = Inr out \<longrightarrow>
       (\<exists>ev0 ev1. run_servers P b ci conf (rD, r0, r1) shares = Inr ((ev0, []), (ev1, [])) \<and>
          length (ev_output ev0) = length (ev_output ev1) \<and> vadd (ev_output ev0) (ev_output ev1) = out))"
proof -
  let ?gs = "concat (circ ci)" and ?in = "\<lambda>p. input_at ci (shares p)"
  obtain rD' g sD s0 s1 recv where off: "run_offline P b (circ ci) P0 (start_storages conf ci (rD, r0, r1)) =
       Inr ((sD, s0, s1), recv, [], [])" and S: "(let \<delta> = deal P n ?gs (deal_init rD');
          S = \<lambda>p. S_rel p n (shuffle_idx ci + 1) (n_mults ci) (d_send (deal_init rD') p, d_recv (deal_init rD') p, g)
            (d_message \<delta> p) (triple_indices ?gs)
      in S P0 s0 \<delta> \<and> S P1 s1 \<delta>)"
    using run_offline_rel[OF assms(1,3-6,10-12), of P] by blast
  define \<delta>0 where "\<delta>0 = deal_init rD'"
  have d0: "legs_inv n \<delta>0" "\<And>i. \<not> chosen \<delta>0 i" "\<And>p. d_corr \<delta>0 p = []"
    unfolding \<delta>0_def by (rule legs_inv_init) (simp_all add: deal_init_def chosen_def)
  have sf: "shuffles_first [] ?gs" using assms(6) by (simp add: dealable_def)
  let ?\<Pi> = "d_perm (deal P n ?gs \<delta>0)"
  have set: "setting P n k (n_wires ci) ci ?gs \<delta>0"
    using assms(3,4,6,7) d0 by (simp add: setting_def circuit_runs_def Let_def)
  have nw: "list_all (\<lambda>f. in1_idx f < n_wires ci \<and> in2_idx f < n_wires ci) ?gs"
    using setting_gate(4,5)[OF set] by (simp add: list_all_iff)
  have cf: "conf_id (conf p) = p" "conf_size (conf p) = n" "conf_nodes (conf p) = k" for p
    using assms(1,2) by (simp_all add: same_confs_def)
  have O: "O_at P n ci ?gs \<delta>0 P0 [] [] g s0" "O_at P n ci ?gs \<delta>0 P1 [] [] g s1"
    using S d0 unfolding Let_def \<delta>0_def[symmetric] by (simp_all add: O_rel_start)
  have run: "\<exists>ev0 ev1. run_servers P b ci conf (rD, r0, r1) shares = Inr ((ev0, []), (ev1, [])) \<and>
      length (ev_output ev0) = length (ev_output ev1) \<and> vadd (ev_output ev0) (ev_output ev1) = out"
    if pe: "plain_eval n k ?\<Pi> ins ?gs = Inr out" for out
  proof -
    obtain \<rho> where \<rho>: "assigns n k ?\<Pi> ins ?gs \<rho>" "out = plain_output n ?gs \<rho>"
      using plain_eval_assigns[OF assms(7) pe] by blast
    have R: "plain_run P n k (n_wires ci) ci ?gs \<delta>0 \<kappa> ?in ins \<rho>"
      using set assms(8,9) \<rho>(1) by (simp add: plain_run_def)
    let ?\<sigma> = "\<lambda>_ _. [] :: vec"
    obtain ev0 where 0: "run_init (n_wires ci) (circ ci) (new_evaluator ci (conf P0) s0 (shares P0)) = Inr ev0"
      "server_at P n k (n_wires ci) ci ?gs \<delta>0 (?in P0) P0 [] (?\<sigma> P0) g [] ev0"
      using online_starts[OF cf(1) _ cf(2,3) nw O(1)] by blast
    obtain ev1 where 1: "run_init (n_wires ci) (circ ci) (new_evaluator ci (conf P1) s1 (shares P1)) = Inr ev1"
      "server_at P n k (n_wires ci) ci ?gs \<delta>0 (?in P1) P1 [] (?\<sigma> P1) g [] ev1"
      using online_starts[OF cf(1) _ cf(2,3) nw O(2)] by blast
    have sh: "shares_of \<kappa> \<rho> [] ?\<sigma>" by (simp add: shares_of_def)
    have ord: "order_ok k [] (circ ci)" using assms(7) by (simp add: circuit_runs_def Let_def)
    obtain f0 f1 where "foldr_res (run_layer P b) ((ev0, []), (ev1, [])) (circ ci) = Inr ((f0, []), (f1, []))"
      "length (ev_output f0) = length (ev_output f1)" "vadd (ev_output f0) (ev_output f1) = plain_output n ?gs \<rho>"
      using duo_layers[OF R assms(5) _ ord 0(2) 1(2) sh] by (auto simp: plain_output_def vadd_def)
    then show ?thesis using off 0(1) 1(1) \<rho>(2) by (simp add: run_servers_def run_online_def)
  qed
  show ?thesis using deal_perms[OF d0(1,2) sf assms(3,4), of P] run by blast
qed

section \<open>Properties\<close>

text \<open>C1: The protocol computes the circuit. Take three servers with the same configuration whose graphs are
  shares of plain inputs, and a circuit whose gates are in order and well typed. Then there are
  permutations, one for each shuffle and merged as the circuit says, such that whenever the
  evaluation of the circuit on the plain inputs under these permutations gives a result, the
  offline and the online phase run through without any error, no message is left in a channel, and
  the outputs of the two online servers add up to that result, for any generator, block size and
  choice of storage.\<close>

theorem protocol_correct:
  assumes "same_confs conf n" "\<forall>p. conf_nodes (conf p) = k" "0 < n" "n < 2 ^ 31" "0 < b"
    "dealable ci (concat (circ ci))" "circuit_runs n k (n_wires ci) (circ ci)" "list_all (typed \<kappa>) (concat (circ ci))"
    "input_shares (concat (circ ci)) (\<lambda>p. input_at ci (shares p)) ins"
    "fresh_flags rD" "fresh_flags r0" "fresh_flags r1"
  shows "\<exists>\<Pi>. (\<forall>f \<in> set (concat (circ ci)). picks f \<longrightarrow> perm_ok n (\<Pi> (g_shuffle_idx f))) \<and>
     merged_ok \<Pi> (concat (circ ci)) \<and>
     (\<forall>out. plain_eval n k \<Pi> ins (concat (circ ci)) = Inr out \<longrightarrow>
       (\<exists>ev0 ev1. run_servers P b ci conf (rD, r0, r1) shares = Inr ((ev0, []), (ev1, [])) \<and>
          length (ev_output ev0) = length (ev_output ev1) \<and> vadd (ev_output ev0) (ev_output ev1) = out))"
  using servers_compute[OF assms] .

text \<open>A circuit with a shuffle that is undone again, and a multiplication.\<close>

definition small_circuit :: circuit where
  "small_circuit =
     (let raw = Gate_in Input 0 0 in
      (tiny_circuit 1)\<lparr>n_wires := 7, n_mults := 1,
        circ := [[Gate_in Input 0 0, Gate_in Input 1 1],
                 [Gate3 raw Shuffle 2 0 2 0, Gate_mul raw MulSIMD 3 0 1 3 4 0 False],
                 [Gate3 raw Unshuffle 4 2 4 0, Gate_unary Output 5 3 5, Gate_unary Output 6 4 6]]\<rparr>)"

definition small_graph :: "party \<Rightarrow> graph" where
  "small_graph p = graph_empty\<lparr>src_bits := (if p = P0 then [[1, 2, 3, 4], [5, 5, 5, 5]] else [[9, 8, 7, 6], [0, 1, 0, 1]])\<rparr>"

definition small_inputs :: "wire_id \<Rightarrow> vec" where
  "small_inputs w = (if w = 0 then [10, 10, 10, 10] else [5, 6, 5, 6])"

lemma small_circuit_gates:
  "concat (circ small_circuit) = (let raw = Gate_in Input 0 0 in
     [Gate_in Input 0 0, Gate_in Input 1 1, Gate3 raw Shuffle 2 0 2 0, Gate_mul raw MulSIMD 3 0 1 3 4 0 False,
      Gate3 raw Unshuffle 4 2 4 0, Gate_unary Output 5 3 5, Gate_unary Output 6 4 6])"
  by (simp add: small_circuit_def Let_def)

lemma small_eval:
  assumes "perm_ok 4 (\<Pi> 0)"
  shows "plain_eval 4 2 \<Pi> small_inputs (concat (circ small_circuit)) = Inr [50, 60, 50, 60, 10, 10, 10, 10]"
proof -
  have u: "perm_apply (perm_inverse (\<Pi> 0)) (perm_apply (\<Pi> 0) [10, 10, 10, 10]) = [10, 10, 10, 10]"
    using perm_apply_inverse_left[OF assms, of "[10, 10, 10, 10]"] by simp
  show ?thesis
    unfolding plain_eval_def small_circuit_gates Let_def
    by (simp add: plain_step_def plain_op_def Gate_in_def Gate3_def Gate_mul_def Gate_unary_def gate0_def
        type_defs product_width_def pad_def times_def small_inputs_def u upt_rec)
qed

lemma small_runs:
  "circuit_runs 4 2 (n_wires small_circuit) (circ small_circuit)" "dealable small_circuit (concat (circ small_circuit))"
  "list_all (typed (\<lambda>_. Arith)) (concat (circ small_circuit))"
  by code_simp+

lemma protocol_correct_witness:
  "\<exists>ev0 ev1. run_servers lcg_ops 2 small_circuit tiny_confs (lcg_rngs 1, lcg_rngs 2, lcg_rngs 3) small_graph =
     Inr ((ev0, []), (ev1, [])) \<and> vadd (ev_output ev0) (ev_output ev1) = [50, 60, 50, 60, 10, 10, 10, 10]"
proof -
  have fr: "fresh_flags (lcg_rngs x)" for x by (simp add: fresh_flags_def lcg_rngs_def)
  have cf: "same_confs tiny_confs 4" "\<forall>p. conf_nodes (tiny_confs p) = 2"
    by (simp_all add: same_confs_def tiny_confs_def tiny_conf_def)
  have sh: "input_shares (concat (circ small_circuit)) (\<lambda>p. input_at small_circuit (small_graph p)) small_inputs"
    unfolding small_circuit_gates input_shares_def Let_def
    by (auto simp: Gate_in_def Gate3_def Gate_mul_def Gate_unary_def gate0_def input_at_def input_vectors_def
        small_graph_def small_inputs_def rel_wire_def vadd_def)
  have pk: "\<exists>f \<in> set (concat (circ small_circuit)). picks f \<and> g_shuffle_idx f = 0"
    unfolding small_circuit_gates Let_def by (simp add: picks_def Gate_in_def Gate3_def gate0_def)
  from protocol_correct[OF cf _ _ _ small_runs(2,1,3) sh fr fr fr, of 2 lcg_ops 1 2 3] pk small_eval show ?thesis
    by fastforce
qed

end
