(* ===== verification/Typing.thy ===== *)
theory Typing
  imports Servers
begin

text \<open>
  A type system for circuits. The type of a wire says what kind of vector it carries (anything,
  bits, a permutation), its length, and by which shuffle it is currently masked; \<open>checked\<close> decides
  whether every gate of a straight-line program respects the types. A checked program has all
  properties the protocol needs, and its evaluation on plain vectors never fails.
\<close>

section \<open>Types of wires\<close>

datatype elem = Any | Bit | Prm

datatype tag = Ar elem nat "nat option" | Pub nat | Bn | Pt nat nat | Nothing

text \<open>The inputs are the bits of the sources, the bits of the targets, sources, targets, node flags, data.\<close>

definition bit_input :: "nat \<Rightarrow> wire_id \<Rightarrow> bool" where
  "bit_input nb w \<longleftrightarrow> w < 2 * nb \<or> w = 2 * nb + 2"

definition is_ar :: "nat \<Rightarrow> tag \<Rightarrow> bool" where
  "is_ar l t = (case t of Ar e l' m \<Rightarrow> l' = l | _ \<Rightarrow> False)"

definition elem_of :: "tag \<Rightarrow> elem" where
  "elem_of t = (case t of Ar e l m \<Rightarrow> e | _ \<Rightarrow> Any)"

definition bits_only :: "elem \<Rightarrow> elem" where
  "bits_only e = (if e = Bit then Bit else Any)"

definition tag_at :: "tag list \<Rightarrow> wire_id \<Rightarrow> tag" where
  "tag_at ts w = (if w < length ts then ts ! w else Nothing)"

definition tag_of :: "nat \<Rightarrow> nat \<Rightarrow> tag list \<Rightarrow> gate \<Rightarrow> tag" where
  "tag_of nb n ts f =
     (let t1 = tag_at ts (in1_idx f); t2 = tag_at ts (in2_idx f); e = elem_of t1 in
      case gt f of
        Input \<Rightarrow> Ar (if bit_input nb (out_idx f) then Bit else Any) n None
      | Output \<Rightarrow> Nothing
      | Shuffle \<Rightarrow> Ar e n (Some (g_shuffle_idx f))
      | MergedShuffle \<Rightarrow> Ar e n (Some (omega_idx f))
      | Unshuffle \<Rightarrow> Ar e n None
      | Compaction \<Rightarrow> Ar Prm n None
      | Reveal \<Rightarrow> (case t1 of Ar _ _ (Some s) \<Rightarrow> Pub s | _ \<Rightarrow> Nothing)
      | Permute \<Rightarrow> Ar (bits_only e) n None
      | ReversePermute \<Rightarrow> (case t2 of Pub s \<Rightarrow> Ar e n (Some s) | _ \<Rightarrow> Nothing)
      | MulSIMD \<Rightarrow> (if g_binary f then Bn else Ar Any n None)
      | EQZ \<Rightarrow> (if g_layer f = 4 then Bn else Pt (g_layer f) (g_size f))
      | Bit2A \<Rightarrow> Ar Bit n None
      | Flip \<Rightarrow> Ar (bits_only e) n None
      | DeduplicationSub \<Rightarrow> Ar Any (n - 1) None
      | Insert \<Rightarrow> (case t1 of Ar _ l _ \<Rightarrow> Ar (bits_only e) (l + 1) None | _ \<Rightarrow> Nothing)
      | _ \<Rightarrow> Ar Any n None)"

definition tags :: "nat \<Rightarrow> nat \<Rightarrow> gate list \<Rightarrow> tag list" where
  "tags nb n gs = foldl (\<lambda>ts f. ts @ [tag_of nb n ts f]) [] gs"

text \<open>What a gate asks of its inputs, given the types and the levels of the wires before it.\<close>

definition check :: "nat \<Rightarrow> nat \<Rightarrow> tag list \<Rightarrow> nat list \<Rightarrow> gate \<Rightarrow> bool" where
  "check n k ts lv f =
     (let t1 = tag_at ts (in1_idx f); t2 = tag_at ts (in2_idx f) in
      case gt f of
        Input \<Rightarrow> True
      | SetConstVecSIMD \<Rightarrow> length (gvals f) \<le> n
      | Output \<Rightarrow> is_ar n t1
      | Shuffle \<Rightarrow> is_ar n t1
      | Unshuffle \<Rightarrow> (case t1 of Ar e l m \<Rightarrow> l = n \<and> m = Some (g_shuffle_idx f) | _ \<Rightarrow> False)
      | MergedShuffle \<Rightarrow>
          (case t1 of Ar e l m \<Rightarrow> l = n \<and> m = Some (pi_idx f) | _ \<Rightarrow> False) \<and>
          (\<exists>w \<in> set [0..<length ts]. ts ! w = Pub (omega_idx f) \<and> lv ! w \<le> lv ! in1_idx f)
      | Compaction \<Rightarrow> is_ar n t1 \<and> elem_of t1 = Bit \<and> \<not> g_binary f
      | Reveal \<Rightarrow> (case t1 of Ar Prm l (Some s) \<Rightarrow> l = n | _ \<Rightarrow> False)
      | Permute \<Rightarrow> is_ar n t1 \<and> (case t2 of Pub s \<Rightarrow> True | _ \<Rightarrow> False)
      | ReversePermute \<Rightarrow> (case t1 of Ar e l m \<Rightarrow> n \<le> l \<and> (e = Prm \<longrightarrow> l = n) | _ \<Rightarrow> False) \<and>
          (case t2 of Pub s \<Rightarrow> True | _ \<Rightarrow> False)
      | MulSIMD \<Rightarrow> g_size f \<le> n \<and>
          (if g_binary f then t1 = Bn \<and> t2 = Bn else is_ar n t1 \<and> is_ar n t2 \<and> in2_idx f \<noteq> 0)
      | EQZ \<Rightarrow> g_layer f \<le> 4 \<and> g_binary f \<and> g_size f \<le> n \<and>
          (if g_layer f = 0 then (case t1 of Ar e l m \<Rightarrow> g_size f \<le> l | _ \<Rightarrow> False)
           else t1 = Pt (g_layer f - 1) (g_size f))
      | Bit2A \<Rightarrow> \<not> g_binary f \<and> g_size f \<le> n \<and> t1 = Bn
      | AddConstSIMD \<Rightarrow> is_ar n t1
      | MulConstSIMD \<Rightarrow> is_ar n t1
      | Flip \<Rightarrow> is_ar n t1
      | Gather1 \<Rightarrow> is_ar n t1
      | Gather2 \<Rightarrow> is_ar n t1 \<and> k \<le> n
      | Propagate1 \<Rightarrow> is_ar n t1 \<and> 0 < k \<and> k \<le> n
      | RemoveEdgeData \<Rightarrow> is_ar n t1 \<and> g_size f \<le> n
      | DeduplicationSub \<Rightarrow> is_ar n t1 \<and> 0 < n
      | Insert \<Rightarrow> (case t1 of Ar e l m \<Rightarrow> True | _ \<Rightarrow> False)
      | AddSIMD \<Rightarrow> is_ar n t1 \<and> is_ar n t2 \<and> in2_idx f \<noteq> 0
      | SubSIMD \<Rightarrow> is_ar n t1 \<and> is_ar n t2 \<and> in2_idx f \<noteq> 0
      | Propagate2 \<Rightarrow> is_ar n t1 \<and> is_ar n t2 \<and> in2_idx f \<noteq> 0
      | ColumnSumsToNodes \<Rightarrow> k \<le> n \<and> k \<le> length (data_parallel f) \<and>
          list_all (\<lambda>w. is_ar n (tag_at ts w) \<and> lv ! w \<le> lv ! in1_idx f) (data_parallel f)
      | _ \<Rightarrow> False)"

definition checked :: "nat \<Rightarrow> nat \<Rightarrow> nat \<Rightarrow> gate list \<Rightarrow> bool" where
  "checked nb n k gs \<longleftrightarrow>
     list_all (\<lambda>i. check n k (tags nb n (take i gs)) (level_of (take i gs)) (gs ! i)) [0..<length gs]"

text \<open>The wires that only one gate may read: the input of a zero test is overwritten by it, and the
  columns of a sum are read without being counted.\<close>

definition taken_by :: "gate \<Rightarrow> wire_id list" where
  "taken_by f = (if gt f = EQZ \<and> g_layer f = 0 then [in1_idx f]
     else if gt f = ColumnSumsToNodes then data_parallel f else [])"

definition single_reader :: "gate list \<Rightarrow> bool" where
  "single_reader gs \<longleftrightarrow> list_all (\<lambda>f. (gt f = EQZ \<and> g_layer f = 0 \<longrightarrow> readers gs (in1_idx f) = 1) \<and>
     (gt f = ColumnSumsToNodes \<longrightarrow> list_all (\<lambda>w. count_list (dropped gs) w = 0) (data_parallel f))) gs"


section \<open>Values of a type\<close>

definition val_ok :: "nat \<Rightarrow> tag \<Rightarrow> vec \<Rightarrow> bool" where
  "val_ok n t v \<longleftrightarrow> (case t of
     Ar e l m \<Rightarrow> length v = l \<and> (e = Bit \<longrightarrow> (\<forall>x \<in> set v. x = 0 \<or> x = 1)) \<and> (e = Prm \<longrightarrow> perm_ok n v)
   | Pub s \<Rightarrow> perm_ok n v
   | Bn \<Rightarrow> length v = n
   | Pt j m \<Rightarrow> length v = n
   | Nothing \<Rightarrow> True)"

text \<open>Sorting bits by their ranks is a permutation.\<close>

lemma count_take_less:
  assumes "i < j" "j \<le> length xs" "P (xs ! i)"
  shows "length (filter P (take i xs)) < length (filter P (take j xs))"
proof -
  obtain m where m: "j = i + Suc m" using assms(1) less_iff_Suc_add by auto
  have "drop i xs = xs ! i # drop (Suc i) xs" using assms(1,2) by (simp add: Cons_nth_drop_Suc)
  then have "take j xs = take i xs @ xs ! i # take m (drop (Suc i) xs)" unfolding m take_add by simp
  then show ?thesis using assms(3) by simp
qed

lemma compaction_perm:
  assumes "length x = n" "\<forall>b \<in> set x. b = 0 \<or> b = 1" "n \<le> 2 ^ 32"
  shows "perm_ok n (compaction_plain n x)"
proof -
  let ?z = "length (filter (\<lambda>b. b = 0) x)" and ?o = "length (filter (\<lambda>b. b = 1) x)"
  define r where "r i = (if x ! i = 0 then length (filter (\<lambda>b. b = 0) (take i x))
      else ?z + length (filter (\<lambda>b. b = 1) (take i x)))" for i
  have bit: "x ! i = 0 \<or> x ! i = 1" if "i < n" for i using assms(1,2) that by simp
  have tot: "?z + ?o = n"
  proof -
    have "length (filter (\<lambda>b. b = 0) ys) + length (filter (\<lambda>b. b = 1) ys) = length ys"
      if "\<forall>b \<in> set ys. b = 0 \<or> b = (1 :: ring)" for ys
      using that by (induction ys) auto
    from this[OF assms(2)] show ?thesis using assms(1) by simp
  qed
  have lt: "r i < n \<and> (x ! i = 0 \<longleftrightarrow> r i < ?z)" if i: "i < n" for i
  proof (cases "x ! i = 0")
    case True
    then show ?thesis using count_take_less[of i "length x" x "\<lambda>b. b = 0"] i assms(1) tot by (simp add: r_def)
  next
    case False
    then have "x ! i = 1" using bit[OF i] by simp
    then show ?thesis using count_take_less[of i "length x" x "\<lambda>b. b = 1"] i assms(1) tot by (simp add: r_def)
  qed
  have ne: "r i \<noteq> r j" if "i < j" "j < n" for i j
  proof (cases "x ! i = 0 \<longleftrightarrow> x ! j = 0")
    case True
    then show ?thesis
      using count_take_less[of i j x "\<lambda>b. b = 0"] count_take_less[of i j x "\<lambda>b. b = 1"] that assms(1)
        bit[of i] bit[of j] by (auto simp: r_def)
  next
    case False
    then show ?thesis using lt[of i] lt[of j] that by auto
  qed
  have at: "unat (compaction_plain n x ! i) = r i" if "i < n" for i
  proof -
    have "compaction_plain n x ! i = of_nat (r i)"
      unfolding r_def by (rule compaction_ranks[OF assms(1,2) that])
    moreover have "r i < 2 ^ 32" using lt[OF that] assms(3) by linarith
    ultimately show ?thesis by (simp add: unat_of_nat_ring)
  qed
  show ?thesis
  proof (rule perm_okI)
    show "length (compaction_plain n x) = n" by (simp add: compaction_plain_def)
    show "inj_on (\<lambda>i. unat (compaction_plain n x ! i)) {..<n}"
      using at ne by (intro inj_onI) (metis lessThan_iff linorder_neqE_nat)
    show "unat (compaction_plain n x ! i) < n" if "i < n" for i using at[OF that] lt[OF that] by simp
  qed
qed

text \<open>Moving entries around keeps their type.\<close>

lemma set_perm_apply:
  assumes "perm_ok n p" "length v = n"
  shows "set (perm_apply p v) = set v"
proof -
  have "perm_apply p v ! j \<in> set v" if "j < n" for j
    using perm_ok_surj[OF assms(1) that] perm_apply_nth[OF assms] assms(2) by (metis nth_mem)
  moreover have "v ! i \<in> set (perm_apply p v)" if "i < n" for i
    using perm_apply_nth[OF assms that] perm_ok_lt[OF assms(1) that] assms(2) by (metis length_perm_apply nth_mem)
  ultimately show ?thesis using assms(2) by (force simp: in_set_conv_nth)
qed

lemma perm_apply_typed:
  assumes "perm_ok n p" "val_ok n (Ar e n m) v"
  shows "val_ok n (Ar e n m') (perm_apply p v)"
proof -
  have l: "length v = n" using assms(2) by (simp add: val_ok_def)
  have "perm_ok n v \<Longrightarrow> perm_ok n (perm_apply p v)"
    using perm_apply_as_mult[OF assms(1)] perm_ok_mult perm_ok_inverse[OF assms(1)] by metis
  then show ?thesis using assms(2) set_perm_apply[OF assms(1) l] by (simp add: val_ok_def)
qed

lemma permute_typed:
  assumes "perm_ok n p" "length v = n"
  shows "permute_vec n v p = Inr (perm_apply p v)"
  using assms perm_ok_fits[OF assms(1)] by (simp add: permute_vec_def need_indices_def perm_apply_def)

lemma reverse_permute_typed:
  assumes "perm_ok n p" "val_ok n (Ar e l m) v" "n \<le> l" "e = Prm \<longrightarrow> l = n"
  shows "\<exists>w. reverse_permute_vec n v p = Inr w \<and> val_ok n (Ar e n m') w"
proof -
  let ?w = "map (\<lambda>i. v ! unat (p ! i)) [0..<n]"
  have l: "length v = l" using assms(2) by (simp add: val_ok_def)
  have "fits (length v) p" using perm_ok_fits[OF assms(1)] l assms(3) by (auto simp: fits_def list_all_iff)
  then have "reverse_permute_vec n v p = Inr ?w"
    using assms(1) by (simp add: reverse_permute_vec_def need_indices_def)
  moreover have "x \<in> set v" if "x \<in> set ?w" for x
    using that perm_ok_lt[OF assms(1)] l assms(3) by fastforce
  moreover have "perm_ok n ?w" if "e = Prm"
  proof -
    have "perm_ok n v" using assms(2) that by (simp add: val_ok_def)
    moreover from this have "?w = perm_mult v p" by (simp add: perm_mult_def)
    ultimately show ?thesis using assms(1) by simp
  qed
  ultimately show ?thesis using assms(2) by (auto simp: val_ok_def)
qed


section \<open>A checked gate can be evaluated\<close>

lemma val_len: "is_ar l t \<Longrightarrow> val_ok n t v \<Longrightarrow> length v = l"
  by (auto simp: is_ar_def val_ok_def split: tag.splits)

lemma differences_len: "length (differences a xs) = length xs"
  by (induction xs arbitrary: a) simp_all

lemma length_propagate: "length (vsub (prefix_sums 0 xs) ys) = min (length xs) (length ys)"
  by simp

lemma op_input:
  assumes "gt f = Input" "val_ok n (tag_of nb n ts f) (ins (out_idx f))"
  shows "\<exists>v. plain_op n k \<Pi> ins \<rho> f = Inr v \<and> val_ok n (tag_of nb n ts f) v"
  using assms by (simp add: plain_op_def)

lemma op_move:
  assumes "move_type (gt f)" "check n k ts lv f" "perm_ok n (\<Pi> (g_shuffle_idx f))"
    "val_ok n (tag_at ts (in1_idx f)) (\<rho> (in1_idx f))"
  shows "\<exists>v. plain_op n k \<Pi> ins \<rho> f = Inr v \<and> val_ok n (tag_of nb n ts f) v"
proof -
  let ?x = "\<rho> (in1_idx f)" and ?t = "tag_at ts (in1_idx f)"
  obtain e m where t: "?t = Ar e n m"
    using assms(1,2) by (auto simp: move_type_def check_def Let_def is_ar_def split: tag.splits)
  have l: "length ?x = n" using assms(4) by (simp add: t val_ok_def)
  have "val_ok n (Ar e n m') (perm_apply (\<Pi> (g_shuffle_idx f)) ?x)"
    "val_ok n (Ar e n m') (perm_apply (perm_inverse (\<Pi> (g_shuffle_idx f))) ?x)" for m'
    using perm_apply_typed[OF assms(3), of e m ?x m'] perm_apply_typed[OF perm_ok_inverse[OF assms(3)], of e m ?x m']
      assms(4) unfolding t by blast+
  note v = this
  consider "gt f = Shuffle" | "gt f = MergedShuffle" | "gt f = Unshuffle"
    using assms(1) by (auto simp: move_type_def)
  then show ?thesis by cases (simp_all add: plain_op_def tag_of_def Let_def t elem_of_def l v)
qed

lemma op_triple:
  assumes "triple_type (gt f)" "check n k ts lv f" "n \<le> 2 ^ 32"
    "val_ok n (tag_at ts (in1_idx f)) (\<rho> (in1_idx f))"
    "gt f = MulSIMD \<Longrightarrow> val_ok n (tag_at ts (in2_idx f)) (\<rho> (in2_idx f))"
  shows "\<exists>v. plain_op n k \<Pi> ins \<rho> f = Inr v \<and> val_ok n (tag_of nb n ts f) v"
proof -
  let ?x = "\<rho> (in1_idx f)" and ?t = "tag_at ts (in1_idx f)"
  consider "gt f = Compaction" | "gt f = MulSIMD" | "gt f = EQZ" | "gt f = Bit2A"
    using assms(1) by (auto simp: triple_type_def)
  then show ?thesis
  proof cases
    case 1
    then obtain m where t: "?t = Ar Bit n m"
      using assms(2) by (cases ?t) (auto simp: check_def Let_def is_ar_def elem_of_def)
    have x: "length ?x = n" "\<forall>b \<in> set ?x. b = 0 \<or> b = 1" using assms(4) by (simp_all add: t val_ok_def)
    have "length (compaction_plain n ?x) = n" by (simp add: compaction_plain_def)
    then show ?thesis using 1 x compaction_perm[OF x assms(3)]
      by (simp add: plain_op_def tag_of_def val_ok_def)
  next
    case 2
    then have "n = length ?x" "n = length (\<rho> (in2_idx f))" "g_size f \<le> n"
      using assms(2,4) assms(5)[OF 2]
      by (auto simp: check_def Let_def is_ar_def val_ok_def split: if_splits tag.splits)
    then show ?thesis using 2
      by (simp add: plain_op_def tag_of_def val_ok_def product_type_def product_width_def pad_def need_def Let_def)
  next
    case 3
    then have "g_size f \<le> length ?x" "g_size f \<le> n" "g_layer f \<le> 4"
      using assms(2,4) by (auto simp: check_def Let_def val_ok_def split: if_splits tag.splits)
    then show ?thesis using 3
      by (simp add: plain_op_def tag_of_def val_ok_def product_type_def pad_def Let_def)
  next
    case 4
    then have "n = length ?x" "g_size f \<le> n" using assms(2,4) by (auto simp: check_def Let_def val_ok_def)
    then show ?thesis using 4 and_1_ring
      by (auto simp: plain_op_def tag_of_def val_ok_def product_type_def pad_def Let_def)
  qed
qed

lemma op_permute:
  assumes "permute_type (gt f)" "check n k ts lv f"
    "val_ok n (tag_at ts (in1_idx f)) (\<rho> (in1_idx f))" "val_ok n (tag_at ts (in2_idx f)) (\<rho> (in2_idx f))"
  shows "\<exists>v. plain_op n k \<Pi> ins \<rho> f = Inr v \<and> val_ok n (tag_of nb n ts f) v"
proof -
  let ?x = "\<rho> (in1_idx f)" and ?p = "\<rho> (in2_idx f)"
  obtain s where s: "tag_at ts (in2_idx f) = Pub s"
    using assms(1,2) by (auto simp: permute_type_def check_def Let_def split: tag.splits)
  have p: "perm_ok n ?p" using assms(4) by (simp add: s val_ok_def)
  show ?thesis
  proof (cases "gt f = Permute")
    case True
    then obtain e m where t: "tag_at ts (in1_idx f) = Ar e n m"
      using assms(2) by (auto simp: check_def Let_def is_ar_def split: tag.splits)
    have "val_ok n (Ar (bits_only e) n None) (perm_apply ?p ?x)"
      using perm_apply_typed[OF p, of e m ?x None] assms(3) unfolding t
      by (auto simp: val_ok_def bits_only_def)
    then show ?thesis using True permute_typed[OF p] assms(3)
      by (simp add: plain_op_def product_type_def permute_type_def permute_op_def tag_of_def t elem_of_def val_ok_def Let_def)
  next
    case False
    then have g: "gt f = ReversePermute" using assms(1) by (simp add: permute_type_def)
    then obtain e l m where t: "tag_at ts (in1_idx f) = Ar e l m" "n \<le> l" "e = Prm \<longrightarrow> l = n"
      using assms(2) by (auto simp: check_def Let_def split: tag.splits)
    obtain w where "reverse_permute_vec n ?x ?p = Inr w" "val_ok n (Ar e n (Some s)) w"
      using reverse_permute_typed[OF p _ t(2,3)] assms(3) unfolding t(1) by blast
    then show ?thesis using g
      by (simp add: plain_op_def product_type_def permute_type_def permute_op_def tag_of_def t(1) s elem_of_def Let_def)
  qed
qed


lemma check_not:
  assumes "check n k ts lv f"
  shows "gt f \<notin> {Add, Sub, Mul, AddConst, MulConst, And, AndSIMD, Xor, XorSIMD}"
proof
  assume "gt f \<in> {Add, Sub, Mul, AddConst, MulConst, And, AndSIMD, Xor, XorSIMD}"
  then show False using assms by (elim insertE emptyE) (simp_all add: check_def Let_def)
qed

lemma tag_of_plain:
  assumes "gt f \<in> {AddConstSIMD, MulConstSIMD, RemoveEdgeData, Propagate1, Gather1, Gather2, AddSIMD, SubSIMD,
     Propagate2, SetConstVecSIMD, ColumnSumsToNodes}"
  shows "tag_of nb n ts f = Ar Any n None"
  using assms by (elim insertE emptyE) (simp_all add: tag_of_def)

lemma val_any: "val_ok n (Ar Any l m) v \<longleftrightarrow> length v = l"
  by (simp add: val_ok_def)

lemma check_linear:
  assumes "linear_type (gt f)" "check n k ts lv f"
  shows "\<exists>e l m. tag_at ts (in1_idx f) = Ar e l m \<and> (gt f \<noteq> Insert \<longrightarrow> l = n)"
proof -
  have "gt f \<in> {AddConstSIMD, MulConstSIMD, Flip, RemoveEdgeData, Propagate1, Gather1, Gather2, DeduplicationSub, Insert}"
    using assms(1) check_not[OF assms(2)] by (auto simp: linear_type_def)
  then show ?thesis using assms(2)
    by (elim insertE emptyE) (simp_all add: check_def Let_def is_ar_def split: tag.splits)
qed

lemma op_linear:
  assumes "linear_type (gt f)" "check n k ts lv f"
    "val_ok n (tag_at ts (in1_idx f)) (\<rho> (in1_idx f))"
  shows "\<exists>v. plain_op n k \<Pi> ins \<rho> f = Inr v \<and> val_ok n (tag_of nb n ts f) v"
proof -
  let ?x = "\<rho> (in1_idx f)" and ?t = "tag_at ts (in1_idx f)"
  have op: "plain_op n k \<Pi> ins \<rho> f = linear_op n k f P0 ?x"
    using assms(1)[unfolded linear_type_def] by (elim disjE) (simp_all add: plain_op_def type_defs Let_def)
  obtain e l m where t: "?t = Ar e l m" "gt f \<noteq> Insert \<Longrightarrow> l = n"
    using check_linear[OF assms(1,2)] by blast
  have x: "length ?x = l" "e = Bit \<Longrightarrow> \<forall>b \<in> set ?x. b = 0 \<or> b = 1"
    using assms(3) by (simp_all add: t val_ok_def)
  consider (a) "gt f = AddConstSIMD" | (m) "gt f = MulConstSIMD" | (r) "gt f = RemoveEdgeData"
    | (p) "gt f = Propagate1" | (g) "gt f = Gather1" | (g2) "gt f = Gather2"
    | (f) "gt f = Flip" | (d) "gt f = DeduplicationSub" | (i) "gt f = Insert"
    using assms(1) check_not[OF assms(2)] by (auto simp: linear_type_def)
  then show ?thesis
  proof cases
    case a
    have "l = n" using t a by simp
    then show ?thesis using x(1)
      by (simp add: op linear_op_def a add_const_SIMD_vec_def tag_of_plain val_any need_def)
  next
    case m
    have "l = n" using t m by simp
    then show ?thesis using x(1) by (simp add: op linear_op_def m mul_const_vec_def tag_of_plain val_any need_def)
  next
    case r
    have "l = n" "g_size f \<le> n" using t r assms(2) by (simp_all add: check_def Let_def)
    then show ?thesis using x(1) by (simp add: op linear_op_def r remove_edge_vec_def tag_of_plain val_any need_def)
  next
    case p
    have "l = n" "0 < k" "k \<le> n" using t p assms(2) by (simp_all add: check_def Let_def)
    then show ?thesis using x(1)
      by (simp add: op linear_op_def p propagate_1_vec_def tag_of_plain val_any need_def)
  next
    case g
    have "l = n" using t g by simp
    then show ?thesis using x(1) by (simp add: op linear_op_def g gather_1_vec_def tag_of_plain val_any need_def)
  next
    case g2
    have "l = n" "k \<le> n" using t g2 assms(2) by (simp_all add: check_def Let_def)
    then show ?thesis using x(1)
      by (simp add: op linear_op_def g2 gather_2_vec_def tag_of_plain val_any need_def differences_len)
  next
    case f
    have "l = n" using t f by simp
    moreover have "?x ! i = 1" if "e = Bit" "i < l" "?x ! i \<noteq> 0" for i using x that by (metis nth_mem)
    ultimately show ?thesis using x(1)
      by (auto simp: op linear_op_def f flip_vec_def tag_of_def Let_def t(1) elem_of_def bits_only_def val_ok_def need_def)
  next
    case d
    have "l = n" "0 < n" using t d assms(2) by (simp_all add: check_def Let_def)
    then show ?thesis using x(1)
      by (simp add: op linear_op_def d dedup_sub_vec_def tag_of_def Let_def val_ok_def need_def)
  next
    case i
    then show ?thesis using x
      by (simp add: op linear_op_def insert_vec_def tag_of_def Let_def t(1) elem_of_def bits_only_def val_ok_def)
  qed
qed

lemma op_linear2:
  assumes "linear2_type (gt f)" "check n k ts lv f"
    "val_ok n (tag_at ts (in1_idx f)) (\<rho> (in1_idx f))" "val_ok n (tag_at ts (in2_idx f)) (\<rho> (in2_idx f))"
  shows "\<exists>v. plain_op n k \<Pi> ins \<rho> f = Inr v \<and> val_ok n (tag_of nb n ts f) v"
proof -
  have op: "plain_op n k \<Pi> ins \<rho> f = linear2_op n f (\<rho> (in1_idx f)) (\<rho> (in2_idx f))"
    using assms(1)[unfolded linear2_type_def] by (elim disjE) (simp_all add: plain_op_def type_defs Let_def)
  have c: "gt f = AddSIMD \<or> gt f = SubSIMD \<or> gt f = Propagate2"
    using assms(1) check_not[OF assms(2)] by (auto simp: linear2_type_def)
  then have "is_ar n (tag_at ts (in1_idx f))" "is_ar n (tag_at ts (in2_idx f))"
    using assms(2) by (elim disjE; simp add: check_def Let_def)+
  then have "length (\<rho> (in1_idx f)) = n" "length (\<rho> (in2_idx f)) = n" using val_len assms(3,4) by blast+
  then show ?thesis using c
    by (elim disjE) (simp_all add: op linear2_op_def add_vec_def sub_vec_def propagate_2_vec_def tag_of_plain val_any need_def)
qed

lemma op_columns:
  assumes "gt f = ColumnSumsToNodes" "check n k ts lv f"
    "\<And>w. w \<in> set (take k (data_parallel f)) \<Longrightarrow> val_ok n (tag_at ts w) (\<rho> w)"
  shows "\<exists>v. plain_op n k \<Pi> ins \<rho> f = Inr v \<and> val_ok n (tag_of nb n ts f) v"
proof -
  have c: "k \<le> n" "k \<le> length (data_parallel f)"
    "\<And>w. w \<in> set (data_parallel f) \<Longrightarrow> is_ar n (tag_at ts w)"
    using assms(1,2) by (auto simp: check_def Let_def list_all_iff)
  have "length (\<rho> (data_parallel f ! i)) = n" if "i < k" for i
  proof -
    have "data_parallel f ! i \<in> set (take k (data_parallel f))"
      using that c(2) by (auto simp: set_conv_nth intro!: exI[of _ i])
    then show ?thesis using val_len c(3) assms(3) in_set_takeD by metis
  qed
  then have "column_sums_vec n k (map \<rho> (take k (data_parallel f))) =
      Inr (map (\<lambda>i. sum_list (take k (map \<rho> (take k (data_parallel f)) ! i))) [0..<k] @ replicate (n - k) 0)"
    using c(1,2) by (auto simp: column_sums_vec_def)
  then show ?thesis using assms(1) c(1,2)
    by (simp add: plain_op_def product_type_def permute_type_def linear2_type_def linear_type_def tag_of_plain val_any
        Let_def)
qed

lemma checked_types:
  assumes "check n k ts lv f"
  obtains "gt f = Input" | "gt f = Output" | "move_type (gt f)" | "triple_type (gt f)" | "gt f = Reveal"
    | "permute_type (gt f)" | "linear_type (gt f)" | "linear2_type (gt f)" | "gt f = SetConstVecSIMD"
    | "gt f = ColumnSumsToNodes"
proof -
  show ?thesis using check_not[OF assms] that
    by (cases "gt f") (simp_all add: move_type_def triple_type_def permute_type_def linear_type_def linear2_type_def)
qed

lemma op_typed:
  assumes "check n k ts lv f" "n \<le> 2 ^ 32"
    "\<And>w. w \<in> set (reads k f) \<Longrightarrow> val_ok n (tag_at ts w) (\<rho> w)"
    "gt f = Input \<Longrightarrow> val_ok n (tag_of nb n ts f) (ins (out_idx f))"
    "move_type (gt f) \<Longrightarrow> perm_ok n (\<Pi> (g_shuffle_idx f))"
  shows "\<exists>v. plain_op n k \<Pi> ins \<rho> f = Inr v \<and> val_ok n (tag_of nb n ts f) v"
proof -
  have r1: "val_ok n (tag_at ts (in1_idx f)) (\<rho> (in1_idx f))"
    if "gt f \<noteq> Input" "gt f \<noteq> SetConstVecSIMD" "gt f \<noteq> ColumnSumsToNodes"
    using assms(3)[of "in1_idx f"] that by (simp add: reads_def)
  have r2: "val_ok n (tag_at ts (in2_idx f)) (\<rho> (in2_idx f))" if "two_inputs (gt f)"
    using assms(3)[of "in2_idx f"] that
    by (auto simp: reads_def two_inputs_def linear2_type_def permute_type_def product_type_def)
  consider "gt f = Input" | "gt f = Output" | "move_type (gt f)" | "triple_type (gt f)" | "gt f = Reveal"
    | "permute_type (gt f)" | "linear_type (gt f)" | "linear2_type (gt f)" | "gt f = SetConstVecSIMD"
    | "gt f = ColumnSumsToNodes"
    using assms(1) by (rule checked_types)
  then show ?thesis
  proof cases
    case 1
    then show ?thesis using op_input assms(4) by blast
  next
    case 2
    then have "length (\<rho> (in1_idx f)) = n" using val_len r1 assms(1) by (simp add: check_def Let_def)
    then show ?thesis using 2 by (simp add: plain_op_def tag_of_def Let_def val_ok_def)
  next
    case 3
    have "val_ok n (tag_at ts (in1_idx f)) (\<rho> (in1_idx f))" using r1 3 by (auto simp: move_type_def)
    then show ?thesis by (rule op_move[where \<Pi> = \<Pi>, OF 3 assms(1) assms(5)[OF 3]])
  next
    case 4
    have "val_ok n (tag_at ts (in2_idx f)) (\<rho> (in2_idx f))" if "gt f = MulSIMD"
      using r2 that by (simp add: two_inputs_def product_type_def)
    moreover have "val_ok n (tag_at ts (in1_idx f)) (\<rho> (in1_idx f))" using r1 4 by (auto simp: triple_type_def)
    ultimately show ?thesis using op_triple[where \<rho> = \<rho>, OF 4 assms(1,2)] by blast
  next
    case 5
    then obtain s where t: "tag_at ts (in1_idx f) = Ar Prm n (Some s)"
      using assms(1) by (auto simp: check_def Let_def split: tag.splits elem.splits option.splits)
    then have "perm_ok n (\<rho> (in1_idx f))" "length (\<rho> (in1_idx f)) = n" using r1 5 by (simp_all add: val_ok_def)
    then show ?thesis using 5
      by (simp add: plain_op_def product_type_def tag_of_def Let_def t val_ok_def)
  next
    case 6
    then show ?thesis using op_permute[OF 6 assms(1)] r1 r2 by (auto simp: permute_type_def two_inputs_def)
  next
    case 7
    then show ?thesis using op_linear[OF 7 assms(1)] r1 by (auto simp: linear_type_def)
  next
    case 8
    then show ?thesis using op_linear2[OF 8 assms(1)] r1 r2 by (auto simp: linear2_type_def two_inputs_def)
  next
    case 9
    then show ?thesis using assms(1)
      by (simp add: plain_op_def product_type_def permute_type_def linear2_type_def linear_type_def tag_of_def
          Let_def val_ok_def padded_def check_def)
  next
    case 10
    then show ?thesis using op_columns[OF 10 assms(1)] assms(3) by (simp add: reads_def)
  qed
qed

end
