(* ===== verification/Phases.thy ===== *)
theory Phases
  imports Build_Logic
begin

text \<open>
  The phases of \<open>Circuit::build\<close> keep the circuit well-formed, for every algorithm that keeps the
  contract of the locale \<open>algorithm\<close>: its methods only append well-formed gates and return wires
  that exist.
\<close>

section \<open>Phases\<close>

text \<open>A phase may also record wires in the object, which a primitive never does.\<close>

definition keeps :: "circuit \<Rightarrow> circuit \<Rightarrow> bool" where
  "keeps c c' \<longleftrightarrow> (\<exists>gs. gates c' = gates c @ gs) \<and> n_wires c \<le> n_wires c' \<and>
     shuffle_idx c \<le> shuffle_idx c' \<and>
     c_size c' = c_size c \<and> c_nodes c' = c_nodes c \<and> c_bits c' = c_bits c \<and>
     c_depth c' = c_depth c \<and> columns c' = columns c \<and> circ c' = circ c \<and>
     deduplication c' = deduplication c \<and>
     can_enable_outputs_in_input_order c' = can_enable_outputs_in_input_order c \<and>
     can_enable_reverse_passing c' = can_enable_reverse_passing c \<and>
     can_enable_deduplication c' = can_enable_deduplication c"

lemma keeps_refl [simp]: "keeps c c"
  by (simp add: keeps_def)

lemma keeps_trans: "keeps c c' \<Longrightarrow> keeps c' c'' \<Longrightarrow> keeps c c''"
  unfolding keeps_def by auto

lemma ext_keeps: "ext c c' \<Longrightarrow> keeps c c'"
  unfolding keeps_def ext_def by blast

definition phase :: "nat \<Rightarrow> circuit \<Rightarrow> 'a build \<Rightarrow> ('a \<Rightarrow> circuit \<Rightarrow> bool) \<Rightarrow> bool" where
  "phase k c m Q \<longleftrightarrow>
     (good k c \<longrightarrow> (case run_state m c of (r, c') \<Rightarrow> good k c' \<and> keeps c c' \<and> Q r c'))"

lemma phase_bld: "bld k c m Q \<Longrightarrow> phase k c m (\<lambda>r c'. ext c c' \<and> Q r c')"
  unfolding phase_def bld_def by (auto split: prod.splits intro: ext_keeps)

lemma phase_conseq:
  "phase k c m Q \<Longrightarrow> (\<And>r c'. good k c' \<Longrightarrow> keeps c c' \<Longrightarrow> Q r c' \<Longrightarrow> R r c') \<Longrightarrow> phase k c m R"
  by (auto simp: phase_def split: prod.splits)

lemma phase_bind:
  assumes "phase k c m Q"
    and "\<And>r c'. good k c' \<Longrightarrow> keeps c c' \<Longrightarrow> Q r c' \<Longrightarrow> phase k c' (f r) R"
  shows "phase k c (State_Monad.bind m f) R"
proof -
  obtain r c' where m: "run_state m c = (r, c')" by fastforce
  obtain x c'' where f: "run_state (f r) c' = (x, c'')" by fastforce
  have "run_state (State_Monad.bind m f) c = (x, c'')"
    by (simp add: State_Monad.bind_def m f)
  then show ?thesis
    using assms(1) assms(2)[of c' r] m f unfolding phase_def by (auto intro: keeps_trans)
qed

lemma phase_seq:
  assumes "bld k c m Q"
    and "\<And>r c'. good k c' \<Longrightarrow> ext c c' \<Longrightarrow> Q r c' \<Longrightarrow> phase k c' (f r) R"
  shows "phase k c (State_Monad.bind m f) R"
  by (rule phase_bind[OF phase_bld[OF assms(1)]]) (use assms(2) in blast)

lemma phase_return: "Q x c \<Longrightarrow> phase k c (State_Monad.return x) Q"
  by (simp add: phase_def State_Monad.return_def)

lemma phase_update:
  "(good k c \<Longrightarrow> good k (f c) \<and> keeps c (f c)) \<Longrightarrow> Q () (f c) \<Longrightarrow> phase k c (update_c f) Q"
  by (simp add: phase_def update_c_def)

lemma phase_fold:
  assumes "I b c" "\<And>x b c'. x \<in> set xs \<Longrightarrow> keeps c c' \<Longrightarrow> I b c' \<Longrightarrow> phase k c' (f x b) I"
  shows "phase k c (fold_build f xs b) I"
  using assms
proof (induction xs arbitrary: b c)
  case Nil
  then show ?case by (simp add: phase_return)
next
  case (Cons x xs)
  have "phase k c (State_Monad.bind (f x b) (fold_build f xs)) I"
  proof (rule phase_bind)
    show "phase k c (f x b) I" using Cons.prems by simp
    fix r c' assume "keeps c c'" "I r c'"
    then show "phase k c' (fold_build f xs r) I"
      using Cons.IH[of r c'] Cons.prems(2) keeps_trans by (metis list.set_intros(2))
  qed
  then show ?case by simp
qed

lemma phase_then_get: "phase k c (f (g c)) R \<Longrightarrow> phase k c (State_Monad.bind (get_c g) f) R"
  by (rule phase_seq[OF bld_get_c]) simp

lemma phase_then_shuffle_idx:
  "phase k c (f (shuffle_idx c)) R \<Longrightarrow> phase k c (State_Monad.bind get_shuffle_idx f) R"
  unfolding get_shuffle_idx_def by (rule phase_then_get)

lemmas phase_steps = bld_input[THEN phase_seq] bld_output[THEN phase_seq] bld_locals[THEN phase_seq]
  bld_locals2[THEN phase_seq] bld_const_vec[THEN phase_seq] bld_column_sums[THEN phase_seq]
  bld_shuffles[THEN phase_seq] bld_triples[THEN phase_seq] phase_then_shuffle_idx
  phase_then_get bld_next_shuffle_idx[THEN phase_seq]
  bld_sort_iteration[THEN phase_seq] bld_equals_zero[THEN phase_seq] bld_sort[THEN phase_seq]
  bld_input_list[THEN phase_seq] bld_sort_fold[THEN phase_seq]

lemma good_inp: "good k (c\<lparr>inp := i\<rparr>) = good k c" "good k (c\<lparr>ctx := x\<rparr>) = good k c"
  by (simp_all add: good_def)

lemma keeps_inp: "keeps c (c\<lparr>inp := i\<rparr>)" "keeps c (c\<lparr>ctx := x\<rparr>)"
  by (simp_all add: keeps_def)

lemma keeps_leE:
  "keeps c c' \<Longrightarrow> (n_wires c \<le> n_wires c' \<Longrightarrow> shuffle_idx c \<le> shuffle_idx c' \<Longrightarrow> P) \<Longrightarrow> P"
  by (simp add: keeps_def)

lemma phase_then_update:
  assumes "good k c \<Longrightarrow> good k (f c) \<and> keeps c (f c)" "phase k (f c) (g ()) R"
  shows "phase k c (State_Monad.bind (update_c f) g) R"
  by (rule phase_bind[OF phase_update[where Q = "\<lambda>_ c'. c' = f c"]]) (use assms in auto)

section \<open>Inputs\<close>

text \<open>All recorded input wires exist, with \<open>nb\<close> sorting bits for sources and targets: the node
  flag and the bits of a node id, and one more once duplicates are marked.\<close>

definition inputs_ok :: "nat \<Rightarrow> circuit \<Rightarrow> bool" where
  "inputs_ok nb c \<longleftrightarrow>
     length (i_src_order_bits (inp c)) = nb \<and> length (i_dst_order_bits (inp c)) = nb \<and>
     valid c (i_src_order_bits (inp c)) \<and> valid c (i_dst_order_bits (inp c)) \<and>
     valid c (i_data_parallel (inp c)) \<and>
     valid c [i_src (inp c), i_dst (inp c), i_isV (inp c), i_data (inp c)] \<and>
     length (i_data_parallel (inp c)) = (if columns c > 1 then columns c else 0)"

lemma inputs_okI:
  assumes "length sb = nb" "length db = nb"
    "valid c sb" "valid c db" "valid c par" "valid c [s, d, v, dt]"
    "length par = (if columns c > 1 then columns c else 0)"
  shows "inputs_ok nb (c\<lparr>inp := \<lparr>i_src_order_bits = sb, i_dst_order_bits = db, i_src = s, i_dst = d,
           i_isV = v, i_data = dt, i_data_parallel = par\<rparr>\<rparr>)"
  using assms by (auto simp: inputs_ok_def valid_def)

lemma phase_set_inputs:
  assumes "length (i_data_parallel (inp c)) = (if columns c > 1 then columns c else 0)"
  shows "phase k c set_inputs (\<lambda>_ c'. inputs_ok (c_bits c + 1) c')"
  unfolding set_inputs_def
  apply (intro phase_steps phase_update)
  subgoal by (auto dest!: ext_le)
  subgoal by (simp add: good_inp keeps_inp)
  subgoal for fb c4 sb c5 fe c6 se c7 v c8 d c9 par c10 vi c11
  proof -
    assume e: "ext c c4" "ext c4 c5" "ext c5 c6" "ext c6 c7" "ext c7 c8" "ext c8 c9" "ext c9 c10"
      "ext c10 c11"
      and len: "length fb = c_bits c \<and> valid c4 fb" "length sb = c_bits c \<and> valid c5 sb"
        "length par = length (i_data_parallel (inp c)) \<and> valid c10 par"
      and w: "fe < n_wires c6" "se < n_wires c7" "v < n_wires c8" "d < n_wires c9" "vi < n_wires c11"
    have e9: "ext c9 c11" using e(7,8) by (rule ext_trans)
    have e8: "ext c8 c11" using e(6) e9 by (rule ext_trans)
    have e7: "ext c7 c11" using e(5) e8 by (rule ext_trans)
    have e6: "ext c6 c11" using e(4) e7 by (rule ext_trans)
    have e5: "ext c5 c11" using e(3) e6 by (rule ext_trans)
    have e4: "ext c4 c11" using e(2) e5 by (rule ext_trans)
    have e0: "ext c c11" using e(1) e4 by (rule ext_trans)
    have v: "valid c11 fb" "valid c11 sb" "valid c11 par" "valid c11 [fe, se, v, d, vi]"
      using valid_ext[OF e4] valid_ext[OF e5] valid_ext[OF e(8)] len
        ext_wires[OF e6] ext_wires[OF e7] ext_wires[OF e8] ext_wires[OF e9] w by auto
    show "inputs_ok (c_bits c + 1) (c11\<lparr>inp :=
       \<lparr>i_src_order_bits = vi # (if reverse_passing c then sb else fb),
        i_dst_order_bits = v # (if reverse_passing c then fb else sb),
        i_src = (if reverse_passing c then se else fe), i_dst = (if reverse_passing c then fe else se),
        i_isV = v, i_data = d, i_data_parallel = par\<rparr>\<rparr>)"
      using v len ext_fields[OF e0] assms by (intro inputs_okI) auto
  qed
  done

section \<open>Duplicates, sorting, shuffles\<close>

lemma inputs_ok_ext: "ext c c' \<Longrightarrow> inputs_ok nb c \<Longrightarrow> inputs_ok nb c'"
  using valid_ext[of c c'] ext_wires[of c c'] unfolding inputs_ok_def by (simp add: ext_def)

lemma upd_wires:
  "w < n_wires c \<Longrightarrow> w < n_wires (c\<lparr>ctx := x\<rparr>)" "valid c ws \<Longrightarrow> valid (c\<lparr>ctx := x\<rparr>) ws"
  "inputs_ok nb c \<Longrightarrow> inputs_ok nb (c\<lparr>ctx := x\<rparr>)"
  "shuffle_idx c \<le> shuffle_idx c + k"
  by (simp_all add: valid_def inputs_ok_def)

lemma upd_dst_order: "w < n_wires c \<Longrightarrow>
    dst_order (ctx (c\<lparr>ctx := (ctx c)\<lparr>dst_order := w\<rparr>\<rparr>)) < n_wires (c\<lparr>ctx := (ctx c)\<lparr>dst_order := w\<rparr>\<rparr>)"
  by simp

lemma dst_order_ext: "ext c c' \<Longrightarrow> dst_order (ctx c) < n_wires c \<Longrightarrow> dst_order (ctx c') < n_wires c'"
  by (simp add: ext_def)

lemma push_bit_ok:
  "inputs_ok (nb + 1) c \<Longrightarrow> w < n_wires c \<Longrightarrow> inputs_ok (nb + 2) (push_order_bit w c)"
  "dst_order (ctx c) < n_wires c \<Longrightarrow> dst_order (ctx (push_order_bit w c)) < n_wires (push_order_bit w c)"
  by (simp_all add: inputs_ok_def push_order_bit_def valid_def)

lemma phase_next_ok:
  assumes "inputs_ok nb c" "dst_order (ctx c) < n_wires c"
  shows "phase k c next_shuffle_idx (\<lambda>_ c'. inputs_ok nb c' \<and> dst_order (ctx c') < n_wires c')"
  by (rule phase_conseq[OF phase_bld[OF bld_next_shuffle_idx]])
    (use assms inputs_ok_ext dst_order_ext in blast)

lemma good_push: "good k (push_order_bit w c) = good k c" "keeps c (push_order_bit w c)"
  by (simp_all add: push_order_bit_def good_def keeps_def)

lemma phase_pre_mp:
  assumes "inputs_ok (c_bits c + 1) c"
  shows "phase k c pre_mp (\<lambda>_ c'. inputs_ok (c_bits c + (if deduplication c then 2 else 1)) c' \<and>
           (deduplication c \<longrightarrow> dst_order (ctx c') < n_wires c'))"
proof (cases "deduplication c")
  case False
  then show ?thesis unfolding pre_mp_def using assms
    by (intro phase_then_get) (simp add: phase_return)
next
  case True
  have i: "valid c (i_dst_order_bits (inp c))" "valid c (i_src_order_bits (inp c))"
    "c_bits c + 1 \<le> length (i_dst_order_bits (inp c))" "c_bits c + 1 \<le> length (i_src_order_bits (inp c))"
    "i_src (inp c) < n_wires c" "i_dst (inp c) < n_wires c" "0 < c_bits c + 1"
    using assms by (simp_all add: inputs_ok_def)
  have "phase k c pre_mp (\<lambda>_ c'. inputs_ok (c_bits c + 2) c' \<and> dst_order (ctx c') < n_wires c')"
    unfolding pre_mp_def
    apply (rule phase_then_get)
    apply (simp only: True if_True)
    apply (intro phase_steps phase_then_update phase_next_ok)
    using i assms apply -
    apply (assumption | rule upd_dst_order | rule upd_wires push_bit_ok | erule dst_order_ext | erule ext_wires |
        erule ext_shuffle_idx | erule valid_ext | erule inputs_ok_ext |
        (simp only: good_inp keeps_inp good_push simp_thms; fail))+
    done
  then show ?thesis using True by simp
qed

definition orders_ok :: "circuit \<Rightarrow> bool" where
  "orders_ok c \<longleftrightarrow> valid c [vtx_order (ctx c), src_order (ctx c), dst_order (ctx c)]"

lemma phase_set_orders:
  assumes "so < n_wires c" "d < n_wires c" "vo < n_wires c" "inputs_ok nb c"
  shows "phase k c (update_c (\<lambda>c. c\<lparr>ctx := (ctx c)\<lparr>src_order := so, dst_order := d, vtx_order := vo\<rparr>\<rparr>))
           (\<lambda>_ c'. inputs_ok nb c' \<and> orders_ok c')"
  using assms by (intro phase_update) (simp_all add: good_inp keeps_inp orders_ok_def upd_wires)

lemma phase_compute_sorts:
  assumes "inputs_ok nb c" and nb: "nb = c_bits c + (if deduplication c then 2 else 1)"
    and d: "deduplication c \<Longrightarrow> dst_order (ctx c) < n_wires c"
  shows "phase k c compute_sorts (\<lambda>_ c'. inputs_ok nb c' \<and> orders_ok c')"
proof -
  have i: "valid c (i_dst_order_bits (inp c))" "valid c (i_src_order_bits (inp c))"
    "nb \<le> length (i_dst_order_bits (inp c))" "nb \<le> length (i_src_order_bits (inp c))" "0 < nb"
    "i_isV (inp c) < n_wires c" "inputs_ok nb c"
    "i_dst_order_bits (inp c) ! (length (i_dst_order_bits (inp c)) - 1) < n_wires c"
    using assms by (auto simp: inputs_ok_def intro!: valid_nth)
  show ?thesis
  proof (cases "deduplication c")
    case True
    then have b: "c_bits c + 2 = nb" using nb by simp
    show ?thesis
      unfolding compute_sorts_def
      apply (intro phase_then_get)
      apply (simp only: True if_True b)
      apply (intro phase_steps phase_set_orders)
      using i d[OF True] apply -
      apply (assumption | erule dst_order_ext | erule ext_wires | erule valid_ext | erule inputs_ok_ext)+
      done
  next
    case False
    then have b: "c_bits c + 1 = nb" using nb by simp
    show ?thesis
      unfolding compute_sorts_def
      apply (intro phase_then_get)
      apply (simp only: False if_False b)
      apply (intro phase_steps phase_set_orders)
      using i apply -
      apply (assumption | erule ext_wires | erule valid_ext | erule inputs_ok_ext)+
      done
  qed
qed

text \<open>The revealed orders and the numbers of the shuffles that message passing uses.\<close>

definition ctx_ok :: "mp_context \<Rightarrow> circuit \<Rightarrow> bool" where
  "ctx_ok k c \<longleftrightarrow> valid c [clear_shuffled_vtx_order k, clear_shuffled_src_order k,
                         clear_shuffled_dst_order k] \<and>
     vtx_shuffle_idx k \<le> shuffle_idx c \<and> src_shuffle_idx k \<le> shuffle_idx c \<and>
     dst_shuffle_idx k \<le> shuffle_idx c"

lemma phase_set_ctx:
  assumes "inputs_ok nb c" "cv < n_wires c" "cs < n_wires c" "cd < n_wires c" "v + 2 \<le> shuffle_idx c"
  shows "phase k c (update_c (\<lambda>c. c\<lparr>ctx := (ctx c)\<lparr>vtx_shuffle_idx := v, src_shuffle_idx := v + 1,
       dst_shuffle_idx := v + 2, clear_shuffled_vtx_order := cv, clear_shuffled_src_order := cs,
       clear_shuffled_dst_order := cd\<rparr>\<rparr>)) (\<lambda>_ c'. inputs_ok nb c' \<and> ctx_ok (ctx c') c')"
  using assms by (intro phase_update) (simp_all add: good_inp keeps_inp ctx_ok_def upd_wires)

lemma orders_ok_ext: "ext c c' \<Longrightarrow> orders_ok c \<Longrightarrow> orders_ok c'"
  unfolding orders_ok_def ext_def by auto

lemma orders_okD:
  "orders_ok c \<Longrightarrow> vtx_order (ctx c) < n_wires c" "orders_ok c \<Longrightarrow> src_order (ctx c) < n_wires c"
  "orders_ok c \<Longrightarrow> dst_order (ctx c) < n_wires c"
  by (simp_all add: orders_ok_def)

lemma phase_prepare_shuffles:
  assumes "inputs_ok nb c" "orders_ok c"
  shows "phase k c prepare_shuffles (\<lambda>_ c'. inputs_ok nb c' \<and> ctx_ok (ctx c') c')"
  unfolding prepare_shuffles_def
  apply (intro phase_steps phase_set_ctx)
  using assms apply -
  apply (assumption | rule orders_okD | erule orders_ok_ext | erule ext_wires | erule valid_ext |
      erule inputs_ok_ext | (auto elim!: ext_leE; fail))+
  done


section \<open>The contract of the algorithms\<close>

locale algorithm =
  fixes a :: algo
  assumes bld_init_nodes: "bld k c (a_init_nodes a col) (\<lambda>r c'. case r of Some w \<Rightarrow> w < n_wires c' | None \<Rightarrow> True)"
    and bld_prepare: "w < n_wires c \<Longrightarrow> bld k c (a_prepare a w i col) (\<lambda>r c'. r < n_wires c')"
    and bld_apply: "w < n_wires c \<Longrightarrow> u < n_wires c \<Longrightarrow>
          bld k c (call_apply a w u i col) (\<lambda>r c'. r < n_wires c')"
    and bld_post_mp: "w < n_wires c \<Longrightarrow> bld k c (a_post_mp a w col) (\<lambda>r c'. r < n_wires c')"
    and bld_aggregate: "ws \<noteq> [] \<Longrightarrow> valid c ws \<Longrightarrow>
          bld k c (a_post_mp_aggregate a ws) (\<lambda>r c'. case r of Some w \<Rightarrow> w < n_wires c' | None \<Rightarrow> True)"
begin

lemma bld_mp_iteration:
  assumes "ctx_ok x c" "base \<le> shuffle_idx c" "w < n_wires c"
  shows "bld 3 c (mp_iteration a x base col i w) (\<lambda>r c'. r < n_wires c')"
proof -
  have x: "clear_shuffled_vtx_order x < n_wires c" "clear_shuffled_src_order x < n_wires c"
    "clear_shuffled_dst_order x < n_wires c" "vtx_shuffle_idx x \<le> shuffle_idx c + 3"
    "src_shuffle_idx x \<le> shuffle_idx c + 3" "dst_shuffle_idx x \<le> shuffle_idx c + 3"
    "base + 1 \<le> shuffle_idx c + 3" "base + 2 \<le> shuffle_idx c + 3" "base + 3 \<le> shuffle_idx c + 3"
    using assms by (simp_all add: ctx_ok_def)
  show ?thesis
    unfolding mp_iteration_def
    apply (intro bld_steps' bld_prepare[THEN bld_seq] bld_apply)
    using x assms(3) apply -
    apply (assumption | erule ext_wires | erule ext_shuffle_idx)+
    done
qed

lemma ctx_ok_ext: "ext c c' \<Longrightarrow> ctx_ok x c \<Longrightarrow> ctx_ok x c'"
  unfolding ctx_ok_def by (auto elim!: ext_leE)

lemma bld_mp_loop:
  assumes "ctx_ok x c" "base \<le> shuffle_idx c" "w < n_wires c"
  shows "bld 3 c (fold_build (mp_iteration a x base col) xs w) (\<lambda>r c'. r < n_wires c')"
proof (rule bld_fold)
  fix i b c' assume c': "ext c c'" "b < n_wires c'"
  have "base \<le> shuffle_idx c'" using assms(2) c'(1) by (auto elim!: ext_leE)
  then show "bld 3 c' (mp_iteration a x base col i b) (\<lambda>r c'. r < n_wires c')"
    using ctx_ok_ext[OF c'(1) assms(1)] c'(2) by (intro bld_mp_iteration)
qed (rule assms(3))

lemma start_wire:
  "(case r of Some w \<Rightarrow> w < n | None \<Rightarrow> True) \<Longrightarrow> d < n \<Longrightarrow> (case r of Some w \<Rightarrow> w | None \<Rightarrow> d) < n"
  by (cases r) auto

lemma ext_base: "ext c c' \<Longrightarrow> s \<le> shuffle_idx c \<Longrightarrow> s \<le> shuffle_idx c'"
  by (auto elim!: ext_leE)

lemma bld_message_passing:
  assumes "ctx_ok (ctx c) c" "w < n_wires c"
  shows "bld 3 c (message_passing a w col) (\<lambda>r c'. r < n_wires c')"
proof -
  define x where "x = ctx c"
  define base where "base = shuffle_idx c"
  have x: "ctx_ok x c" "vtx_shuffle_idx x \<le> shuffle_idx c + 3" "clear_shuffled_vtx_order x < n_wires c"
    "base \<le> shuffle_idx c"
    using assms by (simp_all add: ctx_ok_def x_def base_def)
  show ?thesis
    unfolding message_passing_def
    apply (intro bld_then_get bld_then_shuffle_idx)
    unfolding x_def[symmetric] base_def[symmetric]
    apply (intro bld_steps' bld_init_nodes[THEN bld_seq] bld_mp_loop)
    using x assms(2) apply -
    apply (assumption | rule start_wire | erule ctx_ok_ext | erule ext_wires | erule ext_base | erule ext_shuffle_idx)+
    done
qed

text \<open>Every phase from here on keeps the recorded wires valid.\<close>

definition ready :: "circuit \<Rightarrow> bool" where
  "ready c \<longleftrightarrow> ctx_ok (ctx c) c \<and> valid c (i_data_parallel (inp c)) \<and> i_data (inp c) < n_wires c \<and>
     length (i_data_parallel (inp c)) = (if columns c > 1 then columns c else 0)"

lemma ready_ext: "ext c c' \<Longrightarrow> ready c \<Longrightarrow> ready c'"
  using ctx_ok_ext[of c c' "ctx c"] valid_ext[of c c'] ext_wires[of c c']
  unfolding ready_def by (simp add: ext_def)

lemma set_parallel_ok:
  "good k c \<Longrightarrow> good k (set_parallel i w c) \<and> keeps c (set_parallel i w c)"
  "ready c \<Longrightarrow> w < n_wires c \<Longrightarrow> ready (set_parallel i w c)"
  by (simp_all add: set_parallel_def good_def keeps_def ready_def ctx_ok_def valid_def)
    (auto dest!: set_update_subset_insert[THEN subsetD])

lemma phase_columns:
  assumes "ready c" "cols = columns c" "cols > 1"
    "\<And>c' w i. ready c' \<Longrightarrow> w < n_wires c' \<Longrightarrow> bld k c' (f w i) (\<lambda>r c''. r < n_wires c'')"
  shows "phase k c (fold_build (\<lambda>i _. do {
         w \<leftarrow> get_c (\<lambda>c. i_data_parallel (inp c) ! i);
         w' \<leftarrow> f w i;
         update_c (set_parallel i w') }) [0..<cols] ()) (\<lambda>_ c'. ready c')"
proof (rule phase_fold)
  fix i u c' assume i: "i \<in> set [0..<cols]" and c': "keeps c c'" "ready c'"
  have "i_data_parallel (inp c') ! i < n_wires c'"
    using i c' assms(2,3) by (intro valid_nth) (auto simp: ready_def keeps_def)
  then show "phase k c' (do {
         w \<leftarrow> get_c (\<lambda>c. i_data_parallel (inp c) ! i);
         w' \<leftarrow> f w i;
         update_c (set_parallel i w') }) (\<lambda>_ c'. ready c')"
    using c'(2)
    by (intro phase_then_get assms(4)[THEN phase_seq] phase_update)
      (auto simp: set_parallel_ok intro: set_parallel_ok ready_ext)
qed (rule assms(1))

lemma readyD:
  "ready c \<Longrightarrow> clear_shuffled_vtx_order (ctx c) < n_wires c"
  "ready c \<Longrightarrow> vtx_shuffle_idx (ctx c) \<le> shuffle_idx c + k"
  by (simp_all add: ready_def ctx_ok_def)

lemma bld_remove_edges:
  "w < n_wires c \<Longrightarrow>
     bld k c (new_gate (\<lambda>c i out. Gate3 (c_raw c) RemoveEdgeData i w out n)) (\<lambda>r c'. r < n_wires c')"
  by (rule bld_new_gate) (auto simp: gate_new_simps)

lemma bld_output_data:
  assumes "ready c" "w < n_wires c"
  shows "bld k c (output_data w) (\<lambda>_ _. True)"
  unfolding output_data_def
  apply (intro bld_then_get bld_remove_edges[THEN bld_seq])
   apply (rule assms(2))
  apply (split if_split)
  apply (intro conjI impI bld_steps bld_output)
  using assms apply -
  apply (assumption | rule readyD | erule ready_ext | erule ext_wires | erule ext_shuffle_idx)+
  done


text \<open>The three shuffles of the merged permutations become ordinary numbers after the message passing.\<close>

lemma phase_raise:
  assumes "phase (k + 3) c m Q"
    and "\<And>r c'. good k (c'\<lparr>shuffle_idx := shuffle_idx c' + 3\<rparr>) \<Longrightarrow> keeps c c' \<Longrightarrow> Q r c' \<Longrightarrow>
           phase k (c'\<lparr>shuffle_idx := shuffle_idx c' + 3\<rparr>) (g r) R"
  shows "phase k c (State_Monad.bind m (\<lambda>r.
           State_Monad.bind (update_c (\<lambda>c. c\<lparr>shuffle_idx := shuffle_idx c + 3\<rparr>)) (\<lambda>_. g r))) R"
  unfolding phase_def
proof
  assume g: "good k c"
  obtain r c' where m: "run_state m c = (r, c')" by fastforce
  define c2 where "c2 = c'\<lparr>shuffle_idx := shuffle_idx c' + 3\<rparr>"
  have *: "good (k + 3) c'" "keeps c c'" "Q r c'"
    using assms(1) m good_more[OF g, of "k + 3"] by (auto simp: phase_def)
  then have "good k c2" unfolding c2_def good_def by (simp add: algebra_simps)
  moreover have "keeps c c2" using *(2) by (simp add: keeps_def c2_def)
  moreover obtain x c'' where f: "run_state (g r) c2 = (x, c'')" by fastforce
  moreover have "phase k c2 (g r) R"
    using assms(2)[of c' r] *(2,3) \<open>good k c2\<close> by (simp add: c2_def)
  ultimately have "good k c'' \<and> keeps c c'' \<and> R x c''"
    unfolding phase_def by (auto intro: keeps_trans)
  then show "case run_state (State_Monad.bind m (\<lambda>r.
           State_Monad.bind (update_c (\<lambda>c. c\<lparr>shuffle_idx := shuffle_idx c + 3\<rparr>)) (\<lambda>_. g r))) c of
      (r, c') \<Rightarrow> good k c' \<and> keeps c c' \<and> R r c'"
    using f by (simp add: State_Monad.bind_def m update_c_def c2_def)
qed

lemma ready_raise: "ready c \<Longrightarrow> ready (c\<lparr>shuffle_idx := shuffle_idx c + 3\<rparr>)"
  by (auto simp: ready_def ctx_ok_def valid_def)

lemma phase_outputs:
  assumes "ready c" "valid c ws" "length ws = n"
  shows "phase k c (fold_build (\<lambda>i _. output_data (ws ! i)) [0..<n] ()) (\<lambda>_ _. True)"
proof -
  have "phase k c (fold_build (\<lambda>i _. output_data (ws ! i)) [0..<n] ()) (\<lambda>_ c'. ready c' \<and> valid c' ws)"
  proof (rule phase_fold)
    fix i u c' assume i: "i \<in> set [0..<n]" and c': "ready c' \<and> valid c' ws"
    have "bld k c' (output_data (ws ! i)) (\<lambda>_ _. True)"
      using i c' assms(3) by (intro bld_output_data valid_nth) auto
    then show "phase k c' (output_data (ws ! i)) (\<lambda>_ c'. ready c' \<and> valid c' ws)"
      using c' ready_ext valid_ext by (intro phase_conseq[OF phase_bld]) auto
  qed (use assms in blast)
  then show ?thesis by (rule phase_conseq) simp
qed

lemma phase_finish:
  assumes "ready c" "cols = columns c" "cols > 1"
  shows "phase k c (do {
       ws \<leftarrow> get_c (\<lambda>c. i_data_parallel (inp c));
       agg \<leftarrow> a_post_mp_aggregate a ws;
       (case agg of
          Some w \<Rightarrow> output_data w
        | None \<Rightarrow> fold_build (\<lambda>i _. output_data (ws ! i)) [0..<cols] ()) }) (\<lambda>_ _. True)"
proof (rule phase_then_get, rule bld_aggregate[THEN phase_seq])
  let ?ws = "i_data_parallel (inp c)"
  have ws: "valid c ?ws" "length ?ws = cols" using assms by (simp_all add: ready_def)
  then show "?ws \<noteq> []" "valid c ?ws" using assms(3) by auto
  fix agg c' assume c': "ext c c'" "case agg of Some w \<Rightarrow> w < n_wires c' | None \<Rightarrow> True"
  show "phase k c' (case agg of Some w \<Rightarrow> output_data w
        | None \<Rightarrow> fold_build (\<lambda>i _. output_data (?ws ! i)) [0..<cols] ()) (\<lambda>_ _. True)"
  proof (cases agg)
    case None
    then show ?thesis
      using phase_outputs[OF ready_ext[OF c'(1) assms(1)] valid_ext[OF c'(1) ws(1)] ws(2)] by simp
  next
    case (Some w)
    then show ?thesis
      using phase_bld[OF bld_output_data[OF ready_ext[OF c'(1) assms(1)], of w k]] c'(2)
      by (auto intro: phase_conseq)
  qed
qed

lemma phase_run_columns:
  assumes "ready c"
  shows "phase 0 c (run_columns a) (\<lambda>_ _. True)"
proof (cases "columns c > 1")
  case True
  show ?thesis
    unfolding run_columns_def
    apply (rule phase_then_get)
    unfolding if_P[OF True]
    apply (rule phase_raise)
     apply (simp only: add_0)
     apply (rule phase_columns[OF assms refl True])
     apply (rule bld_message_passing)
      apply (simp add: ready_def)
     apply assumption
    apply (rule phase_bind)
     apply (rule phase_columns)
        apply (erule ready_raise)
       apply (simp add: keeps_def)
      apply (rule True)
     apply (erule bld_post_mp)
    apply (rule phase_finish)
      apply assumption
     apply (simp add: keeps_def)
    apply (rule True)
    done
next
  case False
  have r: "ctx_ok (ctx c) c" "i_data (inp c) < n_wires c" using assms by (simp_all add: ready_def)
  show ?thesis
    unfolding run_columns_def
    apply (rule phase_then_get)
    unfolding if_not_P[OF False]
    apply (rule phase_then_get)
    apply (rule phase_raise)
     apply (simp only: add_0)
     apply (rule phase_bld[OF bld_message_passing[OF r]])
    apply (rule phase_seq)
     apply (rule bld_post_mp)
     apply simp
    apply (rule phase_conseq[OF phase_bld])
     apply (rule bld_output_data)
      apply (erule ready_ext)
      apply (rule ready_raise)
      apply (blast intro: ready_ext[OF _ assms])
     apply assumption
    apply simp
    done
qed

theorem build_gates_good:
  assumes "good 0 c" "length (i_data_parallel (inp c)) = (if columns c > 1 then columns c else 0)"
  shows "good 0 (snd (run_state (build_gates a) c)) \<and> keeps (lock_options c) (snd (run_state (build_gates a) c))"
proof -
  let ?c = "lock_options c"
  have l: "good 0 ?c" "length (i_data_parallel (inp ?c)) = (if columns ?c > 1 then columns ?c else 0)"
    using assms by (simp_all add: lock_options_def good_def)
  have "phase 0 ?c (do { set_inputs; pre_mp; compute_sorts; prepare_shuffles; run_columns a }) (\<lambda>_ _. True)"
    apply (rule phase_bind[OF phase_set_inputs[OF l(2)]])
    apply (rule phase_bind[OF phase_pre_mp])
     apply (simp add: keeps_def)
    apply (rule phase_bind[OF phase_compute_sorts])
       apply (erule conjunct1)
      apply (simp add: keeps_def)
     apply (simp add: keeps_def)
    apply (rule phase_bind[OF phase_prepare_shuffles])
      apply (erule conjunct1)
     apply (erule conjunct2)
    apply (rule phase_run_columns)
    apply (simp add: ready_def inputs_ok_def)
    done
  then show ?thesis
    using l(1) by (auto simp: phase_def build_gates_def update_c_def State_Monad.bind_def split: prod.splits)
qed

end

end
