(* ===== verification/Build_Errors.thy ===== *)
theory Build_Errors
  imports Phases
begin

text \<open>
  Exceptions and accesses out of bounds during the construction of a circuit. \<open>track sh A B m\<close>
  says that a computation which starts on a circuit of shape \<open>sh\<close> with one of the outcomes in \<open>A\<close>
  recorded ends with one of those in \<open>B\<close>. The core of \<open>Circuit::build\<close> raises nothing itself, so
  what a build ends with is decided by the methods of the algorithm.
\<close>

section \<open>The judgement\<close>

type_synonym shape = "nat \<times> nat \<times> nat"

definition shape_of :: "circuit \<Rightarrow> shape" where
  "shape_of c = (c_nodes c, c_depth c, columns c)"

abbreviation sh_nodes :: "shape \<Rightarrow> nat" where "sh_nodes sh \<equiv> fst sh"
abbreviation sh_depth :: "shape \<Rightarrow> nat" where "sh_depth sh \<equiv> fst (snd sh)"
abbreviation sh_columns :: "shape \<Rightarrow> nat" where "sh_columns sh \<equiv> snd (snd sh)"

definition track :: "shape \<Rightarrow> err option set \<Rightarrow> err option set \<Rightarrow> 'a build \<Rightarrow> bool" where
  "track sh A B m \<longleftrightarrow> (\<forall>c. shape_of c = sh \<longrightarrow> c_raised c \<in> A \<longrightarrow>
     (case run_state m c of (r, c') \<Rightarrow> shape_of c' = sh \<and> c_raised c' \<in> B))"

lemma track_return: "track sh A A (State_Monad.return x)"
  by (simp add: track_def State_Monad.return_def)

lemma track_bind:
  assumes "track sh A B m" "\<And>x. track sh B C (f x)"
  shows "track sh A C (State_Monad.bind m f)"
  unfolding track_def
proof (intro allI impI)
  fix c assume c: "shape_of c = sh" "c_raised c \<in> A"
  obtain r c' where m: "run_state m c = (r, c')" by fastforce
  have "shape_of c' = sh" "c_raised c' \<in> B" using assms(1) c m by (auto simp: track_def)
  then show "case run_state (State_Monad.bind m f) c of (r, c') \<Rightarrow> shape_of c' = sh \<and> c_raised c' \<in> C"
    using assms(2)[of r] m by (simp add: track_def State_Monad.bind_def)
qed

lemma track_seq: "track sh A A m \<Longrightarrow> (\<And>x. track sh A B (f x)) \<Longrightarrow> track sh A B (State_Monad.bind m f)"
  by (rule track_bind)

lemma track_get: "track sh A A (get_c g)"
  by (simp add: track_def get_c_def)

lemma track_new_gate: "track sh A A (new_gate mk)"
  by (simp add: track_def new_gate_def shape_of_def Let_def)

lemma track_update:
  "(\<And>c. shape_of (f c) = shape_of c \<and> c_raised (f c) = c_raised c) \<Longrightarrow> track sh A A (update_c f)"
  by (simp add: track_def update_c_def)

lemma track_guard:
  assumes "p \<Longrightarrow> A \<subseteq> B" "\<not> p \<Longrightarrow> (\<lambda>r. if r = None then Some e else r) ` A \<subseteq> B"
  shows "track sh A B (guard_c p e)"
  using assms by (cases p) (auto simp: track_def guard_c_def update_c_def shape_of_def split: if_splits)

lemma track_fold: "(\<And>x b. x \<in> set xs \<Longrightarrow> track sh A A (f x b)) \<Longrightarrow> track sh A A (fold_build f xs b)"
  by (induction xs arbitrary: b) (auto intro: track_return track_bind)

text \<open>One element of a loop leads from the outcomes \<open>A\<close> to \<open>B\<close>, all others keep either.\<close>

lemma track_fold_hit:
  assumes "x \<in> set xs" "\<And>b. track sh A B (f x b)"
    "\<And>y b. y \<in> set xs \<Longrightarrow> track sh A A (f y b)" "\<And>y b. y \<in> set xs \<Longrightarrow> track sh B B (f y b)"
  shows "track sh A B (fold_build f xs b)"
  using assms
proof (induction xs arbitrary: b)
  case (Cons y xs)
  show ?case
  proof (cases "x = y")
    case True
    have "track sh B B (fold_build f xs b')" for b' using Cons.prems(4) by (intro track_fold) simp
    then show ?thesis using Cons.prems(2) True by (simp add: track_bind[where B = B])
  next
    case False
    then have "track sh A B (fold_build f xs b')" for b' using Cons by simp
    then show ?thesis using Cons.prems(3)[of y b] by (simp add: track_bind[where B = A])
  qed
qed simp

text \<open>Fields of the shape have a known value.\<close>

lemma track_shape:
  "track sh A B (f (sh_nodes sh)) \<Longrightarrow> track sh A B (State_Monad.bind (get_c c_nodes) f)"
  "track sh A B (f (sh_depth sh)) \<Longrightarrow> track sh A B (State_Monad.bind (get_c c_depth) f)"
  "track sh A B (f (sh_columns sh)) \<Longrightarrow> track sh A B (State_Monad.bind (get_c columns) f)"
  by (auto simp: track_def get_c_def State_Monad.bind_def shape_of_def)

section \<open>The operations of a circuit raise nothing\<close>

named_theorems track_rules \<open>operations that neither raise an exception nor change the shape\<close>

lemmas [track_rules] = track_return track_get track_new_gate

lemma track_idx [track_rules]: "track sh A A get_shuffle_idx" "track sh A A next_shuffle_idx"
  by (simp_all add: get_shuffle_idx_def next_shuffle_idx_def track_get track_update shape_of_def)

lemma track_bump [track_rules]: "track sh A A bump_shuffles" "track sh A A bump_mults"
  unfolding bump_shuffles_def bump_mults_def by (rule track_update, simp add: shape_of_def)+

lemma track_primitives [track_rules]:
  "track sh A A c_input" "track sh A A (c_output w)" "track sh A A (propagate_1 w)"
  "track sh A A (propagate_2 w u)" "track sh A A (gather_1 w)" "track sh A A (gather_2 w)"
  "track sh A A (c_shuffle w s)" "track sh A A (c_unshuffle w s)" "track sh A A (merged_shuffle w s p q)"
  "track sh A A (compaction w)" "track sh A A (c_reveal w)" "track sh A A (permute w u)"
  "track sh A A (reverse_permute w u)" "track sh A A (equals_zero_layer w sz l)" "track sh A A (bit2A w sz)"
  "track sh A A (deduplication_sub w)" "track sh A A (deduplication_insert w)"
  "track sh A A (mul_SIMD w u sz b)" "track sh A A (add_SIMD w u)" "track sh A A (add_const_SIMD w v)"
  "track sh A A (flip_SIMD w)" "track sh A A (set_const_vec_SIMD vs)"
  "track sh A A (column_sums_to_nodes_internal ws)"
  unfolding c_input_def c_output_def propagate_1_def propagate_2_def gather_1_def gather_2_def c_shuffle_def
    c_unshuffle_def merged_shuffle_def compaction_def c_reveal_def permute_def reverse_permute_def
    equals_zero_layer_def bit2A_def deduplication_sub_def deduplication_insert_def mul_SIMD_def add_SIMD_def
    add_const_SIMD_def flip_SIMD_def set_const_vec_SIMD_def column_sums_to_nodes_internal_def
  by (rule track_seq track_rules)+

lemma track_composed [track_rules]:
  "track sh A A (equals_zero w sz)" "track sh A A (clip_SIMD w)" "track sh A A (sort_iteration p b)"
  "track sh A A (c_sort ws nb)" "track sh A A (input_list n)"
  unfolding equals_zero_def clip_SIMD_def sort_iteration_def c_sort_def input_list_def
  by (rule track_seq track_fold track_rules)+

lemma track_phases [track_rules]:
  "track sh A A set_inputs" "track sh A A pre_mp" "track sh A A compute_sorts" "track sh A A prepare_shuffles"
  "track sh A A (output_data w)"
  unfolding set_inputs_def pre_mp_def compute_sorts_def prepare_shuffles_def output_data_def push_order_bit_def
  by (rule track_seq track_fold track_rules | split if_split, intro conjI impI
      | rule track_update, simp add: shape_of_def)+

section \<open>What the methods of the algorithm decide\<close>

text \<open>The calls \<open>build\<close> makes: columns and iterations within the configuration.\<close>

abbreviation column_of :: "shape \<Rightarrow> nat \<Rightarrow> bool" where
  "column_of sh col \<equiv> col < max 1 (sh_columns sh)"

definition methods_keep :: "shape \<Rightarrow> err option set \<Rightarrow> algo \<Rightarrow> bool" where
  "methods_keep sh A a \<longleftrightarrow>
     (\<forall>col. column_of sh col \<longrightarrow> track sh A A (a_init_nodes a col)) \<and>
     (\<forall>w i col. i < sh_depth sh \<longrightarrow> track sh A A (a_prepare a w i col)) \<and>
     (\<forall>w u i col. i < sh_depth sh \<longrightarrow> track sh A A (call_apply a w u i col)) \<and>
     (\<forall>w col. track sh A A (a_post_mp a w col)) \<and> (\<forall>ws. track sh A A (a_post_mp_aggregate a ws))"

text \<open>Some call that is reached leads from \<open>A\<close> to \<open>B\<close>.\<close>

definition methods_hit :: "shape \<Rightarrow> err option set \<Rightarrow> err option set \<Rightarrow> algo \<Rightarrow> bool" where
  "methods_hit sh A B a \<longleftrightarrow>
     (\<exists>col. column_of sh col \<and> track sh A B (a_init_nodes a col)) \<or>
     (\<exists>i < sh_depth sh. \<forall>w col. track sh A B (a_prepare a w i col)) \<or>
     (\<exists>i < sh_depth sh. \<forall>w u col. track sh A B (call_apply a w u i col))"

lemma track_iteration:
  assumes "methods_keep sh A a" "i < sh_depth sh"
  shows "track sh A A (mp_iteration a x base col i w)"
  unfolding mp_iteration_def
  by (intro track_seq track_rules) (use assms in \<open>simp_all add: methods_keep_def\<close>)

lemma track_message_passing:
  assumes "methods_keep sh A a" "column_of sh col"
  shows "track sh A A (message_passing a w col)"
  unfolding message_passing_def
  apply (rule track_seq[OF track_get], rule track_seq[OF track_idx(1)], rule track_shape(2))
  apply (intro track_seq track_rules track_fold track_iteration[OF assms(1)])
  using assms by (simp_all add: methods_keep_def)

lemma iteration_hit:
  assumes "methods_keep sh A a" "methods_keep sh B a" "i < sh_depth sh"
    "(\<forall>w col. track sh A B (a_prepare a w i col)) \<or> (\<forall>w u col. track sh A B (call_apply a w u i col))"
  shows "track sh A B (mp_iteration a x base col i w)"
  using assms(4)
proof
  assume h: "\<forall>w col. track sh A B (a_prepare a w i col)"
  show ?thesis unfolding mp_iteration_def
    by (rule track_bind[OF h[rule_format]], intro track_seq track_rules) (use assms(2,3) in \<open>simp add: methods_keep_def\<close>)
next
  assume h: "\<forall>w u col. track sh A B (call_apply a w u i col)"
  have p: "track sh A A (a_prepare a w i col)" using assms(1,3) by (simp add: methods_keep_def)
  show ?thesis unfolding mp_iteration_def
    by (rule track_seq[OF p]) (intro track_seq[where A = A] track_rules h[rule_format])
qed

lemma message_passing_hit:
  assumes "methods_keep sh A a" "methods_keep sh B a" "column_of sh col"
    "track sh A B (a_init_nodes a col) \<or>
     (\<exists>i < sh_depth sh. (\<forall>w col. track sh A B (a_prepare a w i col)) \<or> (\<forall>w u col. track sh A B (call_apply a w u i col)))"
  shows "track sh A B (message_passing a w col)"
  unfolding message_passing_def
  apply (rule track_seq[OF track_get], rule track_seq[OF track_idx(1)], rule track_shape(2))
  apply (rule track_seq, rule track_rules, rule track_seq, rule track_rules)
  using assms(4)
proof
  fix k base sh' d
  assume h: "track sh A B (a_init_nodes a col)"
  show "track sh A B (State_Monad.bind (a_init_nodes a col) (\<lambda>start.
      fold_build (mp_iteration a k base col) [0..<sh_depth sh] (case start of Some w \<Rightarrow> w | None \<Rightarrow> d)))"
    by (rule track_bind[OF h], rule track_fold, rule track_iteration[OF assms(2)]) simp
next
  fix k base sh' d
  assume "\<exists>i < sh_depth sh. (\<forall>w col. track sh A B (a_prepare a w i col)) \<or> (\<forall>w u col. track sh A B (call_apply a w u i col))"
  then obtain i where i: "i < sh_depth sh" "(\<forall>w col. track sh A B (a_prepare a w i col)) \<or>
      (\<forall>w u col. track sh A B (call_apply a w u i col))" by blast
  have n: "track sh A A (a_init_nodes a col)" using assms(1,3) by (simp add: methods_keep_def)
  show "track sh A B (State_Monad.bind (a_init_nodes a col) (\<lambda>start.
      fold_build (mp_iteration a k base col) [0..<sh_depth sh] (case start of Some w \<Rightarrow> w | None \<Rightarrow> d)))"
    by (rule track_seq[OF n], rule track_fold_hit[where x = i])
      (use i iteration_hit[OF assms(1,2) i] track_iteration[OF assms(1)] track_iteration[OF assms(2)] in auto)
qed

lemma track_columns:
  assumes "\<And>i w. i < cols \<Longrightarrow> track sh A A (f w i)"
  shows "track sh A A (fold_build (\<lambda>i _. do {
         w \<leftarrow> get_c (\<lambda>c. i_data_parallel (inp c) ! i);
         w' \<leftarrow> f w i;
         update_c (set_parallel i w') }) [0..<cols] ())"
  by (intro track_fold track_seq track_rules assms track_update) (simp_all add: set_parallel_def shape_of_def)

lemma columns_hit:
  assumes "\<And>i w. i < cols \<Longrightarrow> track sh A A (f w i)" "\<And>i w. i < cols \<Longrightarrow> track sh B B (f w i)"
    "j < cols" "\<And>w. track sh A B (f w j)"
  shows "track sh A B (fold_build (\<lambda>i _. do {
         w \<leftarrow> get_c (\<lambda>c. i_data_parallel (inp c) ! i);
         w' \<leftarrow> f w i;
         update_c (set_parallel i w') }) [0..<cols] ())"
proof (rule track_fold_hit[where x = j])
  have u: "track sh C C (update_c (set_parallel i w))" for C i w
    by (rule track_update) (simp add: set_parallel_def shape_of_def)
  show "track sh A B (do { w \<leftarrow> get_c (\<lambda>c. i_data_parallel (inp c) ! j); w' \<leftarrow> f w j; update_c (set_parallel j w') })"
    by (rule track_seq[OF track_get], rule track_bind[OF assms(4) u])
  show "track sh A A (do { w \<leftarrow> get_c (\<lambda>c. i_data_parallel (inp c) ! i); w' \<leftarrow> f w i; update_c (set_parallel i w') })"
    "track sh B B (do { w \<leftarrow> get_c (\<lambda>c. i_data_parallel (inp c) ! i); w' \<leftarrow> f w i; update_c (set_parallel i w') })"
    if "i \<in> set [0..<cols]" for i
    by (intro track_seq track_get u assms(1,2), use that in simp)+
qed (use assms(3) in simp)

lemma track_tail:
  assumes "methods_keep sh A a"
  shows "track sh A A (do {
       update_c (\<lambda>c. c\<lparr>shuffle_idx := shuffle_idx c + 3\<rparr>);
       fold_build (\<lambda>i _. do {
         w \<leftarrow> get_c (\<lambda>c. i_data_parallel (inp c) ! i);
         w' \<leftarrow> a_post_mp a w i;
         update_c (set_parallel i w') }) [0..<cols] ();
       ws \<leftarrow> get_c (\<lambda>c. i_data_parallel (inp c));
       agg \<leftarrow> a_post_mp_aggregate a ws;
       (case agg of
          Some w \<Rightarrow> output_data w
        | None \<Rightarrow> fold_build (\<lambda>i _. output_data (ws ! i)) [0..<cols] ()) })"
    "track sh A A (do {
       update_c (\<lambda>c. c\<lparr>shuffle_idx := shuffle_idx c + 3\<rparr>);
       out \<leftarrow> a_post_mp a out 0;
       output_data out })"
proof -
  have u: "track sh A A (update_c (\<lambda>c. c\<lparr>shuffle_idx := shuffle_idx c + 3\<rparr>))"
    by (rule track_update) (simp add: shape_of_def)
  have m: "track sh A A (a_post_mp a w i)" "track sh A A (a_post_mp_aggregate a ws)" for w i ws
    using assms by (simp_all add: methods_keep_def)
  have o': "track sh A A (case agg of Some w \<Rightarrow> output_data w
      | None \<Rightarrow> fold_build (\<lambda>i _. output_data (ws ! i)) [0..<cols] ())" for agg ws
    by (cases agg) (auto intro: track_fold track_rules)
  show "track sh A A (do {
       update_c (\<lambda>c. c\<lparr>shuffle_idx := shuffle_idx c + 3\<rparr>);
       fold_build (\<lambda>i _. do {
         w \<leftarrow> get_c (\<lambda>c. i_data_parallel (inp c) ! i);
         w' \<leftarrow> a_post_mp a w i;
         update_c (set_parallel i w') }) [0..<cols] ();
       ws \<leftarrow> get_c (\<lambda>c. i_data_parallel (inp c));
       agg \<leftarrow> a_post_mp_aggregate a ws;
       (case agg of
          Some w \<Rightarrow> output_data w
        | None \<Rightarrow> fold_build (\<lambda>i _. output_data (ws ! i)) [0..<cols] ()) })"
    by (intro track_seq u track_columns m track_get o')
  show "track sh A A (do {
       update_c (\<lambda>c. c\<lparr>shuffle_idx := shuffle_idx c + 3\<rparr>);
       out \<leftarrow> a_post_mp a out 0;
       output_data out })"
    by (intro track_seq u m track_rules)
qed

lemma track_run_columns:
  assumes "methods_keep sh A a" "methods_keep sh B a" "methods_hit sh A B a \<or> A = B"
  shows "track sh A B (run_columns a)"
proof -
  obtain j where j: "column_of sh j" "\<And>w. track sh A B (message_passing a w j)"
  proof (cases "A = B")
    case True
    then show ?thesis using that[of 0] track_message_passing[OF assms(1)] by simp
  next
    case False
    then consider j where "column_of sh j" "track sh A B (a_init_nodes a j)"
      | i where "i < sh_depth sh" "\<forall>w col. track sh A B (a_prepare a w i col)"
      | i where "i < sh_depth sh" "\<forall>w u col. track sh A B (call_apply a w u i col)"
      using assms(3) unfolding methods_hit_def by blast
    then show ?thesis
    proof cases
      case (1 j)
      then show ?thesis using that[of j] message_passing_hit[OF assms(1,2)] by blast
    next
      case (2 i)
      then have "track sh A B (message_passing a w 0)" for w
        by (intro message_passing_hit[OF assms(1,2)]) (simp, blast)
      then show ?thesis using that[of 0] by simp
    next
      case (3 i)
      then have "track sh A B (message_passing a w 0)" for w
        by (intro message_passing_hit[OF assms(1,2)]) (simp, blast)
      then show ?thesis using that[of 0] by simp
    qed
  qed
  show ?thesis
  proof (cases "sh_columns sh > 1")
    case True
    have mp: "track sh C C (message_passing a w i)" if "methods_keep sh C a" "i < sh_columns sh" for C w i
      using track_message_passing[OF that(1)] that(2) by simp
    show ?thesis unfolding run_columns_def
      apply (rule track_shape(3))
      apply (simp only: True if_True)
      apply (rule track_bind[where B = B])
       apply (rule columns_hit[where f = "message_passing a" and j = j])
      using mp assms(1,2) j True apply auto[4]
      apply (rule track_tail(1)[OF assms(2)])
      done
  next
    case False
    then have "j = 0" using j(1) by auto
    then show ?thesis unfolding run_columns_def
      apply (intro track_shape(3))
      apply (simp only: False if_False)
      apply (rule track_seq[OF track_get])
      apply (rule track_bind[OF _ track_tail(2)[OF assms(2)]])
      using j(2) by simp
  qed
qed

lemma track_build_gates:
  assumes "methods_keep sh A a" "methods_keep sh B a" "methods_hit sh A B a \<or> A = B"
  shows "track sh A B (build_gates a)"
proof -
  have "track sh A A (update_c lock_options)" by (rule track_update) (simp add: lock_options_def shape_of_def)
  then show ?thesis unfolding build_gates_def
    by (intro track_seq track_rules track_run_columns[OF assms])
qed

lemma track_run:
  assumes "track (shape_of c) A B m" "c_raised c \<in> A"
  shows "c_raised (snd (run_state m c)) \<in> B"
  using assms unfolding track_def by (cases "run_state m c") auto

text \<open>A build raises nothing, or ends in the one error its methods can raise.\<close>

lemma build_silent:
  assumes "methods_keep (shape_of c) {None} a" "c_raised c = None"
  shows "c_raised (snd (run_state (build_gates a) c)) = None"
  using track_run[OF track_build_gates[OF assms(1,1)]] assms(2) by simp

lemma build_raises:
  assumes "methods_keep (shape_of c) {None, Some e} a" "methods_keep (shape_of c) {Some e} a"
    "methods_hit (shape_of c) {None, Some e} {Some e} a" "c_raised c = None"
  shows "build a c = Inl e"
proof -
  have "c_raised (snd (run_state (build_gates a) c)) = Some e"
    using track_run[OF track_build_gates[OF assms(1,2)]] assms(3,4) by simp
  then show ?thesis by (simp add: build_def)
qed

end
