(* ===== verification/Algorithms.thy ===== *)
theory Algorithms
  imports Build_Errors
begin

text \<open>
  \<open>src/algorithms\<close>: the graph algorithms, as the methods they override. Each interprets the
  contract of the circuit builder, so that every one of them builds a well-formed circuit.
\<close>

section \<open>Breadth-first search\<close>

definition bfs_apply :: "wire_id \<Rightarrow> wire_id \<Rightarrow> nat \<Rightarrow> nat \<Rightarrow> wire_id build" where
  "bfs_apply st upd i column = lib_add st upd"

definition bfs_post_mp :: "wire_id \<Rightarrow> nat \<Rightarrow> wire_id build" where
  "bfs_post_mp st column = do { (r, _) \<leftarrow> lib_clip st; State_Monad.return r }"

definition bfs :: algo where
  "bfs = base_algo\<lparr>a_apply := Some bfs_apply, a_post_mp := bfs_post_mp\<rparr>"

definition bfs_circuit :: "protocol_config \<Rightarrow> mp_context \<Rightarrow> inputs \<Rightarrow> gate \<Rightarrow> circuit" where
  "bfs_circuit conf raw_ctx raw_inp raw = new_circuit conf 1 raw_ctx raw_inp raw"

text \<open>
  Three sources at once, one column each; nodes 0, 1 and 2 are the sources. The constant has one
  entry per node, and the write \<open>ohv_column[column] = 1\<close> is not checked.
\<close>

definition one_hot :: "nat \<Rightarrow> nat \<Rightarrow> vec" where
  "one_hot n column = (replicate n 0)[column := 1]"

definition bfs3_init_nodes :: "nat \<Rightarrow> wire_id option build" where
  "bfs3_init_nodes column = do {
     n \<leftarrow> get_c c_nodes;
     guard_c (column < n) Out_Of_Bounds;
     w \<leftarrow> lib_set_const_vector (one_hot n column);
     State_Monad.return (Some w) }"

definition bfs3 :: algo where
  "bfs3 = base_algo\<lparr>a_init_nodes := bfs3_init_nodes, a_apply := Some bfs_apply,
                    a_post_mp := bfs_post_mp\<rparr>"

definition bfs3_circuit ::
  "protocol_config \<Rightarrow> mp_context \<Rightarrow> inputs \<Rightarrow> gate \<Rightarrow> circuit res" where
  "bfs3_circuit conf raw_ctx raw_inp raw =
     (if conf_nodes conf < 3 then Inl (Runtime_Error ''Not enough nodes (expects at least 3)!'')
      else Inr (new_circuit conf 3 raw_ctx raw_inp raw))"

section \<open>Centrality measures\<close>

definition zero_init_nodes :: "nat \<Rightarrow> wire_id option build" where
  "zero_init_nodes column = do {
     n \<leftarrow> get_c c_nodes;
     w \<leftarrow> lib_set_const_vector (replicate n 0);
     State_Monad.return (Some w) }"

text \<open>The weights are consumed from the last one to the first, by an unchecked read.\<close>

definition pi_prepare :: "vec \<Rightarrow> wire_id \<Rightarrow> nat \<Rightarrow> nat \<Rightarrow> wire_id build" where
  "pi_prepare weights st i column = do {
     guard_c (i < length weights) Out_Of_Bounds;
     lib_add_constant st (weights ! (length weights - 1 - i)) }"

definition pi_apply :: "wire_id \<Rightarrow> wire_id \<Rightarrow> nat \<Rightarrow> nat \<Rightarrow> wire_id build" where
  "pi_apply st upd i column = State_Monad.return upd"

definition pi_m :: "vec \<Rightarrow> algo" where
  "pi_m weights = base_algo\<lparr>a_init_nodes := zero_init_nodes, a_prepare := pi_prepare weights,
                           a_apply := Some pi_apply\<rparr>"

definition pi_m_circuit ::
  "protocol_config \<Rightarrow> vec \<Rightarrow> mp_context \<Rightarrow> inputs \<Rightarrow> gate \<Rightarrow> circuit res" where
  "pi_m_circuit conf weights raw_ctx raw_inp raw =
     (if length weights \<noteq> conf_depth conf
      then Inl (Runtime_Error ''Number of provided weights must match depth!'')
      else use_reverse_message_passing (new_circuit conf 1 raw_ctx raw_inp raw))"

text \<open>\<open>PiKCircuit\<close> differs from \<open>PiMCircuit\<close> in that duplicate edges count once.\<close>

definition pi_k :: "vec \<Rightarrow> algo" where
  "pi_k weights = base_algo\<lparr>a_init_nodes := zero_init_nodes, a_prepare := pi_prepare weights,
                           a_apply := Some pi_apply\<rparr>"

definition pi_k_circuit ::
  "protocol_config \<Rightarrow> vec \<Rightarrow> mp_context \<Rightarrow> inputs \<Rightarrow> gate \<Rightarrow> circuit res" where
  "pi_k_circuit conf weights raw_ctx raw_inp raw =
     (if length weights \<noteq> conf_depth conf
      then Inl (Runtime_Error ''Number of provided weights must match depth!'')
      else bindr (use_reverse_message_passing (new_circuit conf 1 raw_ctx raw_inp raw))
             use_edge_deduplication)"

text \<open>\<open>PiRCircuit\<close> runs one search per node and counts how many nodes each one reaches.\<close>

definition pi_r_aggregate :: "wire_id list \<Rightarrow> wire_id option build" where
  "pi_r_aggregate sts = do {
     w \<leftarrow> lib_column_sums_to_nodes sts;
     State_Monad.return (Some w) }"

definition pi_r :: algo where
  "pi_r = base_algo\<lparr>a_init_nodes := bfs3_init_nodes, a_apply := Some bfs_apply,
                    a_post_mp := bfs_post_mp, a_post_mp_aggregate := pi_r_aggregate\<rparr>"

definition pi_r_circuit :: "protocol_config \<Rightarrow> mp_context \<Rightarrow> inputs \<Rightarrow> gate \<Rightarrow> circuit" where
  "pi_r_circuit conf raw_ctx raw_inp raw = new_circuit conf (conf_nodes conf) raw_ctx raw_inp raw"

section \<open>A template\<close>

definition custom_apply :: "wire_id \<Rightarrow> wire_id \<Rightarrow> nat \<Rightarrow> nat \<Rightarrow> wire_id build" where
  "custom_apply st upd i column = State_Monad.return st"

definition custom :: algo where
  "custom = base_algo\<lparr>a_apply := Some custom_apply\<rparr>"

definition custom_circuit :: "protocol_config \<Rightarrow> mp_context \<Rightarrow> inputs \<Rightarrow> gate \<Rightarrow> circuit" where
  "custom_circuit conf raw_ctx raw_inp raw = new_circuit conf 1 raw_ctx raw_inp raw"

section \<open>What a finished circuit is\<close>

text \<open>A circuit nobody has built yet.\<close>

definition fresh :: "circuit \<Rightarrow> bool" where
  "fresh c \<longleftrightarrow> gates c = [] \<and> circ c = [] \<and> n_wires c = 0 \<and> n_mults c = 0 \<and>
     length (i_data_parallel (inp c)) = (if columns c > 1 then columns c else 0) \<and> c_raised c = None"

text \<open>
  A built circuit: its layers are those of a straight-line program \<open>gs\<close> with one wire per gate,
  numbered multiplications and shuffle numbers below the size of the permutation store; its
  options can no longer be changed.
\<close>

definition built_from :: "gate list \<Rightarrow> circuit \<Rightarrow> bool" where
  "built_from gs c \<longleftrightarrow>
     circ c = map (layer gs) [0..<top_level gs + 1] \<and> gates c = [] \<and> gates_ok gs \<and>
     n_wires c = length gs \<and> triples_numbered gs \<and> n_mults c = length (triple_gates gs) \<and>
     (\<forall>f \<in> set gs. shuffles_within (shuffle_idx c) f) \<and>
     \<not> can_enable_outputs_in_input_order c \<and> \<not> can_enable_reverse_passing c \<and>
     \<not> can_enable_deduplication c"

lemma fresh_new_circuit: "fresh (new_circuit conf cols x i raw)"
  by (simp add: fresh_def new_circuit_def)

context algorithm
begin

lemma build_result:
  assumes "fresh c" "c_raised (snd (run_state (build_gates a) c)) = None"
  shows "\<exists>c'. build a c = Inr c' \<and> built_from (gates (snd (run_state (build_gates a) c))) c' \<and>
     columns c' = columns c"
proof -
  let ?c = "snd (run_state (build_gates a) c)"
  have "good 0 c" using assms(1)
    by (simp add: fresh_def good_def gates_ok_def triples_numbered_def triple_gates_def)
  then have g: "good 0 ?c" "keeps (lock_options c) ?c"
    using build_gates_good assms(1) by (auto simp: fresh_def)
  then have ok: "gates_ok (gates ?c)" "circ ?c = []" "columns ?c = columns c"
    using assms(1) by (auto simp: good_def keeps_def lock_options_def fresh_def)
  have "build a c = Inr (?c\<lparr>circ := map (layer (gates ?c)) [0..<top_level (gates ?c) + 1], gates := []\<rparr>)"
    using level_order_layers[OF ok(1,2)] assms(2) by (simp add: build_def Let_def)
  moreover have "built_from (gates ?c)
      (?c\<lparr>circ := map (layer (gates ?c)) [0..<top_level (gates ?c) + 1], gates := []\<rparr>)"
    using g by (auto simp: built_from_def good_def keeps_def lock_options_def list_all_iff)
  ultimately show ?thesis using ok(3) by simp
qed

lemma build_ok:
  "fresh c \<Longrightarrow> c_raised (snd (run_state (build_gates a) c)) = None \<Longrightarrow> \<exists>gs c'. build a c = Inr c' \<and> built_from gs c'"
  using build_result by blast

lemma built: "fresh c \<Longrightarrow> build a c = Inr c' \<Longrightarrow> \<exists>gs. built_from gs c'"
  using build_ok[of c] by (auto simp: build_def Let_def split: option.splits)

end

section \<open>They keep the contract\<close>

lemmas algo_defs = base_algo_def default_init_nodes_def default_prepare_def default_post_mp_def
  default_post_mp_aggregate_def call_apply_def

lemma bld_lib:
  "w < n_wires c \<Longrightarrow> u < n_wires c \<Longrightarrow> bld k c (bfs_apply w u i col) (\<lambda>r c'. r < n_wires c')"
  "w < n_wires c \<Longrightarrow> bld k c (pi_prepare ws w i col) (\<lambda>r c'. r < n_wires c')"
  by (simp_all add: bfs_apply_def lib_add_def pi_prepare_def lib_add_constant_def bld_rules bld_then_guard)

lemma bld_bfs_post:
  assumes "w < n_wires c"
  shows "bld k c (bfs_post_mp w col) (\<lambda>r c'. r < n_wires c')"
  unfolding bfs_post_mp_def lib_clip_def
  by (rule bld_clip[OF assms, THEN bld_seq]) (auto simp: bld_return)

lemma bld_inits:
  "bld k c (bfs3_init_nodes col) (\<lambda>r c'. case r of Some w \<Rightarrow> w < n_wires c' | None \<Rightarrow> True)"
  "bld k c (zero_init_nodes col) (\<lambda>r c'. case r of Some w \<Rightarrow> w < n_wires c' | None \<Rightarrow> True)"
  unfolding bfs3_init_nodes_def zero_init_nodes_def lib_set_const_vector_def
  by (intro bld_then_guard bld_steps bld_return; simp)+

lemma bld_pi_r_aggregate:
  assumes "ws \<noteq> []" "valid c ws"
  shows "bld k c (pi_r_aggregate ws) (\<lambda>r c'. case r of Some w \<Rightarrow> w < n_wires c' | None \<Rightarrow> True)"
  unfolding pi_r_aggregate_def
  by (intro bld_steps bld_return) (use assms in \<open>auto simp: valid_def\<close>)

interpretation base: algorithm base_algo
  by unfold_locales (auto simp: algo_defs bld_return bld_then_guard)

interpretation bfs: algorithm bfs
  by unfold_locales (auto simp: bfs_def algo_defs bld_return bld_lib bld_bfs_post)

interpretation bfs3: algorithm bfs3
  by unfold_locales (auto simp: bfs3_def algo_defs bld_return bld_lib bld_bfs_post bld_inits)

interpretation pi_m: algorithm "pi_m weights" for weights
  by unfold_locales (auto simp: pi_m_def algo_defs pi_apply_def bld_return bld_lib bld_inits)

interpretation pi_k: algorithm "pi_k weights" for weights
  by unfold_locales (auto simp: pi_k_def algo_defs pi_apply_def bld_return bld_lib bld_inits)

interpretation pi_r: algorithm pi_r
  by unfold_locales
    (auto simp: pi_r_def algo_defs bld_return bld_lib bld_bfs_post bld_inits bld_pi_r_aggregate)

interpretation custom: algorithm custom
  by unfold_locales (auto simp: custom_def algo_defs custom_apply_def bld_return)

section \<open>Which accesses are within bounds\<close>

lemma guard_keeps: "p \<or> Some e \<in> A \<Longrightarrow> track sh A A (guard_c p e)"
  by (rule track_guard) auto

lemma guard_hits: "\<not> p \<Longrightarrow> track sh {None, Some e} {Some e} (guard_c p e)"
  by (rule track_guard) auto

lemma keep_methods:
  "track sh A A (bfs_apply w u i col)" "track sh A A (bfs_post_mp w col)" "track sh A A (zero_init_nodes col)"
  "track sh A A (pi_apply w u i col)" "track sh A A (pi_r_aggregate ws)" "track sh A A (custom_apply w u i col)"
  unfolding bfs_apply_def lib_add_def bfs_post_mp_def lib_clip_def zero_init_nodes_def
    lib_set_const_vector_def pi_apply_def pi_r_aggregate_def lib_column_sums_to_nodes_def custom_apply_def
  by (auto intro!: track_seq track_rules split: prod.splits)

lemma keep_one_hot:
  assumes "col < sh_nodes sh \<or> Some Out_Of_Bounds \<in> A"
  shows "track sh A A (bfs3_init_nodes col)"
  unfolding bfs3_init_nodes_def lib_set_const_vector_def
  by (rule track_shape(1), intro track_seq track_rules guard_keeps) (use assms in simp)

lemma keep_weight:
  assumes "i < length ws \<or> Some Out_Of_Bounds \<in> A"
  shows "track sh A A (pi_prepare ws w i col)"
  unfolding pi_prepare_def lib_add_constant_def
  by (intro track_seq track_rules guard_keeps) (use assms in simp)

lemma hit_one_hot:
  assumes "\<not> col < sh_nodes sh"
  shows "track sh {None, Some Out_Of_Bounds} {Some Out_Of_Bounds} (bfs3_init_nodes col)"
  unfolding bfs3_init_nodes_def lib_set_const_vector_def
  by (rule track_shape(1), rule track_bind[OF guard_hits[OF assms]], intro track_seq track_rules)

lemma hit_weight:
  assumes "\<not> i < length ws"
  shows "track sh {None, Some Out_Of_Bounds} {Some Out_Of_Bounds} (pi_prepare ws w i col)"
  unfolding pi_prepare_def lib_add_constant_def
  by (rule track_bind[OF guard_hits[OF assms]], intro track_rules)

lemmas keep_defs = methods_keep_def base_algo_def default_init_nodes_def default_prepare_def default_post_mp_def
  default_post_mp_aggregate_def call_apply_def

lemma methods_kept:
  "methods_keep sh A bfs" "methods_keep sh A custom"
  "max 1 (sh_columns sh) \<le> sh_nodes sh \<or> Some Out_Of_Bounds \<in> A \<Longrightarrow> methods_keep sh A bfs3"
  "max 1 (sh_columns sh) \<le> sh_nodes sh \<or> Some Out_Of_Bounds \<in> A \<Longrightarrow> methods_keep sh A pi_r"
  "sh_depth sh \<le> length ws \<or> Some Out_Of_Bounds \<in> A \<Longrightarrow> methods_keep sh A (pi_m ws)"
  "sh_depth sh \<le> length ws \<or> Some Out_Of_Bounds \<in> A \<Longrightarrow> methods_keep sh A (pi_k ws)"
  "sh_depth sh = 0 \<or> Some (Runtime_Error ''apply() is not specified.'') \<in> A \<Longrightarrow> methods_keep sh A base_algo"
  by (auto simp: keep_defs bfs_def custom_def bfs3_def pi_r_def pi_m_def pi_k_def
      intro!: track_return keep_methods keep_one_hot keep_weight track_seq guard_keeps)

text \<open>What each algorithm needs of the configuration, so that it writes and reads within its vectors.\<close>

definition in_bounds :: "algo \<Rightarrow> vec \<Rightarrow> circuit \<Rightarrow> bool" where
  "in_bounds a ws c \<longleftrightarrow> a \<in> {bfs, custom} \<or>
     a \<in> {bfs3, pi_r} \<and> max 1 (columns c) \<le> c_nodes c \<or> a \<in> {pi_m ws, pi_k ws} \<and> c_depth c \<le> length ws"

lemma in_bounds_silent:
  assumes "in_bounds a ws c" "c_raised c = None"
  shows "c_raised (snd (run_state (build_gates a) c)) = None"
proof (rule build_silent[OF _ assms(2)])
  show "methods_keep (shape_of c) {None} a"
    using assms(1) methods_kept by (auto simp: in_bounds_def shape_of_def)
qed

section \<open>Properties\<close>

lemma fresh_raised: "fresh c \<Longrightarrow> c_raised c = None"
  by (simp add: fresh_def)

lemma algorithm_builds:
  assumes "fresh c" "in_bounds a ws c"
  shows "\<exists>gs c'. build a c = Inr c' \<and> built_from gs c'"
proof -
  note s = in_bounds_silent[OF assms(2) fresh_raised[OF assms(1)]]
  consider "a = bfs" | "a = bfs3" | "a = pi_m ws" | "a = pi_k ws" | "a = pi_r" | "a = custom"
    using assms(2) unfolding in_bounds_def by blast
  then show ?thesis
    using s bfs.build_ok[OF assms(1)] bfs3.build_ok[OF assms(1)] pi_m.build_ok[OF assms(1)]
      pi_k.build_ok[OF assms(1)] pi_r.build_ok[OF assms(1)] custom.build_ok[OF assms(1)]
    by cases simp_all
qed

lemma algorithm_built:
  assumes "fresh c" "a \<in> {bfs, bfs3, pi_m ws, pi_k ws, pi_r, custom}" "build a c = Inr c'"
  shows "\<exists>gs. built_from gs c'"
  using assms bfs.built[OF assms(1)] bfs3.built[OF assms(1)] pi_m.built[OF assms(1)]
    pi_k.built[OF assms(1)] pi_r.built[OF assms(1)] custom.built[OF assms(1)] by blast

text \<open>C12: When a circuit builds, and what it is then. Breadth-first search and the template build for every
  configuration; the searches with constant start vectors exactly if every column has a node, and the
  centrality measures exactly if there is a weight for every iteration: otherwise they write, or read,
  past the end of a vector. An algorithm without \<open>apply\<close> builds if there is no iteration, and else its
  call throws. A circuit that builds is a layered straight-line program: one wire per gate, inputs
  defined before they are read, multiplications numbered consecutively and shuffle numbers within the
  permutation store.\<close>

theorem algorithms_build:
  assumes "fresh c" "a \<in> {bfs, custom}" "b \<in> {bfs3, pi_r}" "d \<in> {pi_m ws, pi_k ws}"
  shows "(\<exists>gs c'. build a c = Inr c' \<and> built_from gs c') \<and>
     (if max 1 (columns c) \<le> c_nodes c then \<exists>gs c'. build b c = Inr c' \<and> built_from gs c'
      else build b c = Inl Out_Of_Bounds) \<and>
     (if c_depth c \<le> length ws then \<exists>gs c'. build d c = Inr c' \<and> built_from gs c'
      else build d c = Inl Out_Of_Bounds) \<and>
     (if c_depth c = 0 then \<exists>gs c'. build base_algo c = Inr c' \<and> built_from gs c'
      else build base_algo c = Inl (Runtime_Error ''apply() is not specified.''))"
proof (intro conjI)
  let ?sh = "shape_of c"
  note n = fresh_raised[OF assms(1)]
  show "\<exists>gs c'. build a c = Inr c' \<and> built_from gs c'"
    using assms(2) by (intro algorithm_builds[OF assms(1)]) (simp add: in_bounds_def)
  show "if max 1 (columns c) \<le> c_nodes c then \<exists>gs c'. build b c = Inr c' \<and> built_from gs c'
      else build b c = Inl Out_Of_Bounds"
  proof (cases "max 1 (columns c) \<le> c_nodes c")
    case True
    then have "in_bounds b [] c" using assms(3) by (auto simp: in_bounds_def)
    then show ?thesis using algorithm_builds[OF assms(1)] True by simp
  next
    case False
    then have "c_nodes c < max 1 (columns c)" unfolding not_le .
    then have h: "\<exists>col. column_of ?sh col \<and> \<not> col < sh_nodes ?sh"
      by (intro exI[of _ "c_nodes c"]) (simp add: shape_of_def)
    then have "methods_hit ?sh {None, Some Out_Of_Bounds} {Some Out_Of_Bounds} b"
      using assms(3) hit_one_hot[of _ ?sh] by (auto simp: methods_hit_def bfs3_def pi_r_def base_algo_def)
    moreover have "methods_keep ?sh A b" if "Some Out_Of_Bounds \<in> A" for A
      using that assms(3) methods_kept(3,4)[of ?sh A] by auto
    ultimately have "build b c = Inl Out_Of_Bounds" by (intro build_raises[OF _ _ _ n]) simp_all
    then show ?thesis using False by simp
  qed
  show "if c_depth c \<le> length ws then \<exists>gs c'. build d c = Inr c' \<and> built_from gs c'
      else build d c = Inl Out_Of_Bounds"
  proof (cases "c_depth c \<le> length ws")
    case True
    then have "in_bounds d ws c" using assms(4) by (auto simp: in_bounds_def)
    then show ?thesis using algorithm_builds[OF assms(1)] True by simp
  next
    case False
    then have "length ws < sh_depth ?sh" by (simp add: shape_of_def)
    then have "methods_hit ?sh {None, Some Out_Of_Bounds} {Some Out_Of_Bounds} d"
      using assms(4) hit_weight[of "length ws" ws ?sh]
      by (auto simp: methods_hit_def pi_m_def pi_k_def base_algo_def)
    moreover have "methods_keep ?sh A d" if "Some Out_Of_Bounds \<in> A" for A
      using that assms(4) methods_kept(5,6)[of ?sh ws A] by auto
    ultimately have "build d c = Inl Out_Of_Bounds" by (intro build_raises[OF _ _ _ n]) simp_all
    then show ?thesis using False by simp
  qed
  let ?e = "Runtime_Error ''apply() is not specified.''"
  show "if c_depth c = 0 then \<exists>gs c'. build base_algo c = Inr c' \<and> built_from gs c'
      else build base_algo c = Inl ?e"
  proof (cases "c_depth c = 0")
    case True
    then have "methods_keep ?sh {None} base_algo" by (intro methods_kept(7)) (simp add: shape_of_def)
    then show ?thesis using base.build_ok[OF assms(1) build_silent[OF _ n]] True by simp
  next
    case False
    have "track ?sh {None, Some ?e} {Some ?e} (call_apply base_algo w u i col)" for w u i col
      by (simp add: call_apply_def base_algo_def track_bind[OF guard_hits track_return])
    then have "methods_hit ?sh {None, Some ?e} {Some ?e} base_algo"
      using False unfolding methods_hit_def by (auto simp: shape_of_def)
    moreover have "methods_keep ?sh A base_algo" if "Some ?e \<in> A" for A
      using that methods_kept(7)[of ?sh A] by simp
    ultimately have "build base_algo c = Inl ?e" by (intro build_raises[OF _ _ _ n]) simp_all
    then show ?thesis using False by simp
  qed
qed

lemma algorithms_build_witness:
  "(\<exists>gs c'. build pi_r (tiny_circuit 2) = Inr c' \<and> built_from gs c') \<and>
   build (pi_m []) (tiny_circuit 1) = Inl Out_Of_Bounds \<and> build bfs3 (tiny_circuit 3) = Inl Out_Of_Bounds"
proof -
  have t: "fresh (tiny_circuit k)" "columns (tiny_circuit k) = k" "c_nodes (tiny_circuit k) = 2"
    "c_depth (tiny_circuit k) = 1" for k
    by (simp_all add: tiny_circuit_def fresh_new_circuit) (simp_all add: new_circuit_def tiny_conf_def)
  show ?thesis
    using algorithms_build[OF t(1)[of 2], of bfs pi_r "pi_m []" "[]"]
      algorithms_build[OF t(1)[of 1], of bfs pi_r "pi_m []" "[]"]
      algorithms_build[OF t(1)[of 3], of bfs bfs3 "pi_m []" "[]"] t(2-4) by simp
qed

text \<open>C28: The options of a circuit can be chosen before it is built and not afterwards: a new circuit takes
  the option for the order of the outputs (the other two are set by the constructors of the centrality
  measures), a built one refuses each of the three with its own exception.\<close>

theorem options_are_locked:
  assumes "fresh c" "a \<in> {bfs, bfs3, pi_m ws, pi_k ws, pi_r, custom}" "build a c = Inr c'"
  shows "(\<exists>m. provide_outputs_in_input_order c' = Inl (Runtime_Error m)) \<and>
     (\<exists>m. use_reverse_message_passing c' = Inl (Runtime_Error m)) \<and>
     (\<exists>m. use_edge_deduplication c' = Inl (Runtime_Error m)) \<and>
     provide_outputs_in_input_order (new_circuit conf cols x i raw) =
       Inr ((new_circuit conf cols x i raw)\<lparr>outputs_in_input_order := True\<rparr>)"
proof -
  obtain gs where "built_from gs c'" using algorithm_built[OF assms] by blast
  then show ?thesis
    by (auto simp: built_from_def use_reverse_message_passing_def use_edge_deduplication_def
        provide_outputs_in_input_order_def new_circuit_def)
qed

lemma options_are_locked_witness:
  "\<exists>c' m. build bfs (tiny_circuit 1) = Inr c' \<and> use_edge_deduplication c' = Inl (Runtime_Error m)"
proof -
  have f: "fresh (tiny_circuit 1)" unfolding tiny_circuit_def by (rule fresh_new_circuit)
  obtain gs c' where b: "build bfs (tiny_circuit 1) = Inr c'"
    using algorithm_builds[OF f, of bfs "[]"] by (auto simp: in_bounds_def)
  then show ?thesis
    using options_are_locked[OF f, of bfs "[]" c' "tiny_conf P0 False" 1 zero_ctx zero_inputs "Gate_in Input 0 0"]
    by auto
qed

end
