(* ===== verification/Checked.thy ===== *)
theory Checked
  imports Typing Algorithms
begin

text \<open>
  A straight-line program that passes the type checker has, once it is ordered into layers, all
  static conditions under which the protocol computes it, and its evaluation on plain vectors
  does not fail.
\<close>

section \<open>The types of a program\<close>

lemma tags_snoc: "tags nb n (gs @ [f]) = tags nb n gs @ [tag_of nb n (tags nb n gs) f]"
  by (simp add: tags_def)

lemma tags_Nil [simp]: "tags nb n [] = []"
  by (simp add: tags_def)

lemma length_tags [simp]: "length (tags nb n gs) = length gs"
  by (induction gs rule: rev_induct) (simp_all add: tags_snoc)

lemma tags_append_nth: "i < length gs \<Longrightarrow> tags nb n (gs @ hs) ! i = tags nb n gs ! i"
proof (induction hs rule: rev_induct)
  case (snoc h hs)
  then show ?case using tags_snoc[of nb n "gs @ hs" h] by (simp add: nth_append)
qed simp

text \<open>The type of a wire of the program.\<close>

definition wtag :: "nat \<Rightarrow> nat \<Rightarrow> gate list \<Rightarrow> wire_id \<Rightarrow> tag" where
  "wtag nb n gs w = tag_at (tags nb n gs) w"

lemma wtag_append: "w < length gs \<Longrightarrow> wtag nb n (gs @ hs) w = wtag nb n gs w"
  by (simp add: wtag_def tag_at_def tags_append_nth)

lemma wtag_take: "i \<le> length gs \<Longrightarrow> w < i \<Longrightarrow> wtag nb n (take i gs) w = wtag nb n gs w"
  using wtag_append[of w "take i gs" nb n "drop i gs"] by simp

lemma wtag_beyond: "length gs \<le> w \<Longrightarrow> wtag nb n gs w = Nothing"
  by (simp add: wtag_def tag_at_def)

lemma wtag_nth: "i < length gs \<Longrightarrow> wtag nb n gs i = tag_of nb n (tags nb n (take i gs)) (gs ! i)"
proof -
  assume i: "i < length gs"
  then have "wtag nb n gs i = wtag nb n (take (Suc i) gs) i" by (simp add: wtag_take)
  also have "take (Suc i) gs = take i gs @ [gs ! i]" using i by (rule take_Suc_conv_app_nth)
  finally show ?thesis using i by (simp add: wtag_def tag_at_def tags_snoc nth_append)
qed

lemma level_take: "i \<le> length gs \<Longrightarrow> w < i \<Longrightarrow> level_of (take i gs) ! w = level_of gs ! w"
  using level_of_append_nth[of w "take i gs" "drop i gs"] by simp

lemma checked_nth:
  "checked nb n k gs \<Longrightarrow> i < length gs \<Longrightarrow>
     check n k (tags nb n (take i gs)) (level_of (take i gs)) (gs ! i)"
  by (simp add: checked_def list_all_iff)

lemma checked_snoc:
  "checked nb n k (gs @ [f]) \<longleftrightarrow> checked nb n k gs \<and> check n k (tags nb n gs) (level_of gs) f"
proof -
  have "check n k (tags nb n (take i (gs @ [f]))) (level_of (take i (gs @ [f]))) ((gs @ [f]) ! i) \<longleftrightarrow>
      check n k (tags nb n (take i gs)) (level_of (take i gs)) (gs ! i)" if "i < length gs" for i
    using that by (simp add: nth_append)
  then show ?thesis by (auto simp: checked_def list_all_iff less_Suc_eq)
qed

text \<open>A well-typed program, with its types read off the whole program.\<close>

definition sound :: "nat \<Rightarrow> nat \<Rightarrow> nat \<Rightarrow> gate list \<Rightarrow> bool" where
  "sound nb n k gs \<longleftrightarrow> gates_ok gs \<and> checked nb n k gs \<and> single_reader gs"

lemma tag_at_take:
  assumes "i < length gs" "tag_at (tags nb n (take i gs)) w \<noteq> Nothing"
  shows "w < i" "tag_at (tags nb n (take i gs)) w = wtag nb n gs w"
proof -
  show "w < i" using assms by (simp add: tag_at_def split: if_splits)
  then show "tag_at (tags nb n (take i gs)) w = wtag nb n gs w"
    using wtag_take[of i gs w nb n] assms(1) by (simp add: wtag_def)
qed

lemma level_nth:
  assumes "gates_ok gs" "i < length gs" "gt (gs ! i) \<noteq> Output"
    "j = in1_idx (gs ! i) \<or> j = in2_idx (gs ! i)" "j < i"
  shows "level_of gs ! j + (if interactive (gs ! i) then 1 else 0) \<le> level_of gs ! i"
proof -
  have "level_of gs ! i = level_of (take (Suc i) gs) ! i" using assms(2) by (simp add: level_take)
  also have "take (Suc i) gs = take i gs @ [gs ! i]" using assms(2) by (rule take_Suc_conv_app_nth)
  finally have "level_of gs ! i = next_level (level_of (take i gs) @ [0]) (gs ! i)"
    using assms(2,3) by (simp add: level_of_snoc nth_append)
  moreover have "(level_of (take i gs) @ [0]) ! j = level_of gs ! j"
    using assms(2,5) level_take[of i gs j] by (simp add: nth_append)
  ultimately show ?thesis using assms(4) by (auto simp: next_level_def)
qed

section \<open>What a checked gate reads\<close>

lemma tag_something: "is_ar l t \<Longrightarrow> t \<noteq> Nothing"
  by (auto simp: is_ar_def)

lemma check_in1:
  assumes "check n k ts lv f" "gt f \<notin> {Input, SetConstVecSIMD, ColumnSumsToNodes}"
  shows "tag_at ts (in1_idx f) \<noteq> Nothing"
proof
  assume "tag_at ts (in1_idx f) = Nothing"
  then show False using assms by (cases "gt f") (simp_all add: check_def is_ar_def split: if_splits)
qed

lemma check_in2:
  assumes "check n k ts lv f" "two_inputs (gt f)"
  shows "tag_at ts (in2_idx f) \<noteq> Nothing"
proof
  assume "tag_at ts (in2_idx f) = Nothing"
  then show False using assms
    by (cases "gt f") (simp_all add: check_def is_ar_def two_inputs_def type_defs split: if_splits)
qed

lemma check_reads:
  assumes "check n k ts lv f" "w \<in> set (reads k f)"
  shows "tag_at ts w \<noteq> Nothing"
proof (cases "gt f = ColumnSumsToNodes")
  case True
  then have "is_ar n (tag_at ts w)"
    using assms by (auto simp: check_def list_all_iff reads_def dest: in_set_takeD)
  then show ?thesis by (rule tag_something)
next
  case False
  then show ?thesis
    using assms check_in1[OF assms(1)] check_in2[OF assms(1)] by (auto simp: reads_def split: if_splits)
qed

lemma output_tag: "i < length gs \<Longrightarrow> gt (gs ! i) = Output \<Longrightarrow> wtag nb n gs i = Nothing"
  by (simp add: wtag_nth tag_of_def)

lemma reads_before:
  assumes "sound nb n k gs" "i < length gs" "w \<in> set (reads k (gs ! i))"
  shows "w < i" "gt (gs ! w) \<noteq> Output"
    "layer_of gs w + (if interactive (gs ! i) then 1 else 0) \<le> layer_of gs i"
proof -
  let ?f = "gs ! i" and ?ts = "tags nb n (take i gs)" and ?lv = "level_of (take i gs)"
  have c: "check n k ?ts ?lv ?f" using assms(1,2) checked_nth by (simp add: sound_def)
  have g: "gates_ok gs" using assms(1) by (simp add: sound_def)
  have t: "tag_at ?ts w \<noteq> Nothing" using check_reads[OF c assms(3)] .
  show w: "w < i" using tag_at_take(1)[OF assms(2) t] .
  have "wtag nb n gs w \<noteq> Nothing" using tag_at_take(2)[OF assms(2) t] t by simp
  then show no: "gt (gs ! w) \<noteq> Output" using output_tag[of w gs nb n] w assms(2) by auto
  have lw: "layer_of gs w = level_of gs ! w" using no by (simp add: layer_of_def)
  show "layer_of gs w + (if interactive ?f then 1 else 0) \<le> layer_of gs i"
  proof (cases "gt ?f = Output")
    case True
    then show ?thesis using layer_of_le[of w gs] w assms(2)
      by (simp add: layer_of_def[of gs i] interactive_def interactive_type_def)
  next
    case False
    show ?thesis
    proof (cases "gt ?f = ColumnSumsToNodes")
      case True
      then have wi: "w \<in> set (data_parallel ?f)" using assms(3) by (auto simp: reads_def dest: in_set_takeD)
      then have "?lv ! w \<le> ?lv ! in1_idx ?f" using c True by (simp add: check_def list_all_iff)
      moreover have i1: "in1_idx ?f < i" using g assms(2) True by (simp add: gates_ok_def gate_ok_def)
      ultimately have "level_of gs ! w \<le> level_of gs ! in1_idx ?f"
        using w assms(2) level_take[of i gs] by simp
      moreover have "level_of gs ! in1_idx ?f \<le> level_of gs ! i"
        using level_nth[OF g assms(2) False _ i1] by auto
      moreover have "layer_of gs i = level_of gs ! i" using False by (simp add: layer_of_def)
      moreover have "\<not> interactive ?f" using True by (simp add: interactive_def interactive_type_def)
      ultimately show ?thesis using lw by simp
    next
      case f: False
      then have "w = in1_idx ?f \<or> w = in2_idx ?f" using assms(3) by (auto simp: reads_def split: if_splits)
      then show ?thesis
        using level_nth[OF g assms(2) False _ w] lw False by (simp add: layer_of_def[of gs i])
    qed
  qed
qed

section \<open>Masks are chosen before they are needed\<close>

definition chosen_by :: "gate list \<Rightarrow> nat \<Rightarrow> nat \<Rightarrow> bool" where
  "chosen_by gs s w \<longleftrightarrow> (\<exists>j \<le> w. j < length gs \<and> uses (gs ! j) s \<and> level_of gs ! j \<le> level_of gs ! w)"

definition masked_by :: "nat \<Rightarrow> nat \<Rightarrow> gate list \<Rightarrow> nat \<Rightarrow> wire_id \<Rightarrow> bool" where
  "masked_by nb n gs s w \<longleftrightarrow> (\<exists>e l. wtag nb n gs w = Ar e l (Some s)) \<or> wtag nb n gs w = Pub s"

lemma chosen_by_later:
  "chosen_by gs s w \<Longrightarrow> w \<le> i \<Longrightarrow> level_of gs ! w \<le> level_of gs ! i \<Longrightarrow> chosen_by gs s i"
  unfolding chosen_by_def by (meson order_trans)

lemma masked_cases:
  assumes "wtag nb n gs i = tag_of nb n ts f" "masked_by nb n gs s i"
  shows "(uses f s \<and> gt f = Shuffle) \<or> (gt f = MergedShuffle \<and> omega_idx f = s) \<or>
     (gt f = Reveal \<and> (\<exists>e l. tag_at ts (in1_idx f) = Ar e l (Some s))) \<or>
     (gt f = ReversePermute \<and> tag_at ts (in2_idx f) = Pub s)"
  using assms
  by (cases "gt f") (auto simp: masked_by_def tag_of_def uses_def Let_def split: if_splits tag.splits option.splits)

lemma mask_is_chosen:
  assumes "sound nb n k gs" "i < length gs" "masked_by nb n gs s i"
  shows "chosen_by gs s i"
  using assms(2,3)
proof (induction i rule: less_induct)
  case (less i)
  let ?f = "gs ! i" and ?ts = "tags nb n (take i gs)" and ?lv = "level_of (take i gs)"
  have c: "check n k ?ts ?lv ?f" using assms(1) less.prems(1) checked_nth by (simp add: sound_def)
  have g: "gates_ok gs" using assms(1) by (simp add: sound_def)
  have step: "chosen_by gs s i" if "tag_at ?ts w \<noteq> Nothing" "tag_at ?ts w = Pub s \<or> (\<exists>e l. tag_at ?ts w = Ar e l (Some s))"
    "w = in1_idx ?f \<or> w = in2_idx ?f" "gt ?f \<noteq> Output" for w
  proof -
    have w: "w < i" "wtag nb n gs w = tag_at ?ts w" using tag_at_take[OF less.prems(1) that(1)] by simp_all
    then have "chosen_by gs s w" using less.IH[OF w(1)] less.prems(1) that(2) by (auto simp: masked_by_def)
    moreover have "level_of gs ! w \<le> level_of gs ! i" using level_nth[OF g less.prems(1) that(4,3) w(1)] by simp
    ultimately show ?thesis using chosen_by_later w(1) by (metis less_imp_le)
  qed
  from masked_cases[OF wtag_nth[OF less.prems(1)] less.prems(2)] show ?case
  proof (elim disjE conjE exE)
    assume "uses ?f s"
    then show ?thesis using less.prems(1) by (auto simp: chosen_by_def)
  next
    assume m: "gt ?f = MergedShuffle" "omega_idx ?f = s"
    then obtain w where w: "w < length ?ts" "?ts ! w = Pub s" "?lv ! w \<le> ?lv ! in1_idx ?f"
      using c by (auto simp: check_def Let_def)
    have wi: "w < i" using w(1) by simp
    have t: "wtag nb n gs w = Pub s"
      using wtag_take[OF _ wi, of gs nb n] less.prems(1) w by (simp add: wtag_def tag_at_def)
    have i1: "in1_idx ?f < i" using g less.prems(1) m by (simp add: gates_ok_def gate_ok_def)
    have "chosen_by gs s w" using less.IH[OF wi] t less.prems(1) wi by (simp add: masked_by_def)
    moreover have "level_of gs ! w \<le> level_of gs ! i"
    proof -
      have "level_of gs ! w \<le> level_of gs ! in1_idx ?f"
        using w(3) level_take[of i gs] less.prems(1) wi i1 by simp
      also have "\<dots> \<le> level_of gs ! i" using level_nth[OF g less.prems(1) _ _ i1] m by force
      finally show ?thesis .
    qed
    ultimately show ?thesis using chosen_by_later wi by (metis less_imp_le)
  next
    fix e l assume "gt ?f = Reveal" "tag_at ?ts (in1_idx ?f) = Ar e l (Some s)"
    then show ?thesis using step[of "in1_idx ?f"] by simp
  next
    assume "gt ?f = ReversePermute" "tag_at ?ts (in2_idx ?f) = Pub s"
    then show ?thesis using step[of "in2_idx ?f"] by simp
  qed
qed

text \<open>Where a gate undoes or merges a shuffle, a gate of an earlier layer has chosen it.\<close>

definition chosen_before :: "gate list \<Rightarrow> nat \<Rightarrow> nat \<Rightarrow> bool" where
  "chosen_before gs s i \<longleftrightarrow> (\<exists>j < length gs. uses (gs ! j) s \<and> layer_of gs j < layer_of gs i)"

lemma chosen_in_layer_before:
  assumes "sound nb n k gs" "i < length gs"
  shows "gt (gs ! i) = Unshuffle \<Longrightarrow> chosen_before gs (g_shuffle_idx (gs ! i)) i"
    "gt (gs ! i) = MergedShuffle \<Longrightarrow> chosen_before gs (pi_idx (gs ! i)) i \<and> chosen_before gs (omega_idx (gs ! i)) i"
proof -
  let ?f = "gs ! i" and ?ts = "tags nb n (take i gs)" and ?lv = "level_of (take i gs)"
  have c: "check n k ?ts ?lv ?f" using assms checked_nth by (simp add: sound_def)
  have g: "gates_ok gs" using assms(1) by (simp add: sound_def)
  have i1: "in1_idx ?f < i" if "gt ?f = Unshuffle \<or> gt ?f = MergedShuffle"
    using g assms(2) that by (auto simp: gates_ok_def gate_ok_def)
  have lev: "level_of gs ! in1_idx ?f < layer_of gs i" if "gt ?f = Unshuffle \<or> gt ?f = MergedShuffle"
    using level_nth[OF g assms(2) _ _ i1[OF that]] that
    by (fastforce simp: layer_of_def interactive_def interactive_type_def)
  have at: "chosen_before gs s i" if c: "chosen_by gs s w" and l: "level_of gs ! w < layer_of gs i" for s w
  proof -
    obtain j where j: "j < length gs" "uses (gs ! j) s" "level_of gs ! j \<le> level_of gs ! w"
      using c by (auto simp: chosen_by_def)
    have "layer_of gs j = level_of gs ! j" using j(2) by (auto simp: layer_of_def uses_def)
    then show ?thesis using j l unfolding chosen_before_def by (metis order_le_less_trans)
  qed
  have mask: "chosen_before gs s i" if "tag_at ?ts (in1_idx ?f) = Ar e l (Some s)"
    "gt ?f = Unshuffle \<or> gt ?f = MergedShuffle" for e l s
  proof (rule at[where w = "in1_idx ?f"])
    have "masked_by nb n gs s (in1_idx ?f)"
      using tag_at_take(2)[OF assms(2), of nb n "in1_idx ?f"] that(1) unfolding masked_by_def by (metis tag.distinct(7))
    then show "chosen_by gs s (in1_idx ?f)" using mask_is_chosen[OF assms(1)] i1[OF that(2)] assms(2) by simp
  qed (rule lev[OF that(2)])
  show "gt ?f = Unshuffle \<Longrightarrow> chosen_before gs (g_shuffle_idx ?f) i"
    using c mask by (auto simp: check_def Let_def split: tag.splits)
  show "chosen_before gs (pi_idx ?f) i \<and> chosen_before gs (omega_idx ?f) i" if m: "gt ?f = MergedShuffle"
  proof
    show "chosen_before gs (pi_idx ?f) i" using c m mask by (auto simp: check_def Let_def split: tag.splits)
    obtain w where w: "w < length ?ts" "?ts ! w = Pub (omega_idx ?f)" "?lv ! w \<le> ?lv ! in1_idx ?f"
      using c m by (auto simp: check_def Let_def)
    have wi: "w < i" using w(1) by simp
    have "masked_by nb n gs (omega_idx ?f) w"
      using wtag_take[OF _ wi, of gs nb n] assms(2) w by (simp add: masked_by_def wtag_def tag_at_def)
    then have "chosen_by gs (omega_idx ?f) w" using mask_is_chosen[OF assms(1)] wi assms(2) by simp
    moreover have "level_of gs ! w \<le> level_of gs ! in1_idx ?f"
      using w(3) level_take[of i gs] assms(2) wi i1 m by simp
    ultimately show "chosen_before gs (omega_idx ?f) i" using at lev m by (metis order_le_less_trans)
  qed
qed

section \<open>The layers are in order\<close>

definition layers_to :: "gate list \<Rightarrow> nat \<Rightarrow> gate list" where
  "layers_to gs j = concat (map (layer gs) [0..<j])"

lemma layers_to_Suc: "layers_to gs (Suc j) = layers_to gs j @ layer gs j"
  by (simp add: layers_to_def)

lemma in_layers_to: "f \<in> set (layers_to gs j) \<longleftrightarrow> (\<exists>i < length gs. f = gs ! i \<and> layer_of gs i < j)"
  by (auto simp: layers_to_def layer_members)

lemma in_layers_toI: "i < length gs \<Longrightarrow> layer_of gs i < j \<Longrightarrow> gs ! i \<in> set (layers_to gs j)"
  using in_layers_to by blast

lemma written_member: "gates_ok gs \<Longrightarrow> i < length gs \<Longrightarrow> gt (gs ! i) \<noteq> Output \<Longrightarrow> gs ! i \<in> set a \<Longrightarrow> i \<in> set (written a)"
  by (force simp: written_def outs_def gates_ok_def gate_ok_def)

lemma layer_prefix_in_order:
  assumes "sound nb n k gs" "m \<le> length gs"
  shows "in_order k (layers_to gs j) (map ((!) gs) (filter (\<lambda>i. layer_of gs i = j) [0..<m]))"
  using assms(2)
proof (induction m)
  case (Suc m)
  let ?l = "\<lambda>m. map ((!) gs) (filter (\<lambda>i. layer_of gs i = j) [0..<m])"
  have g: "gates_ok gs" using assms(1) by (simp add: sound_def)
  have rd: "w \<in> set (written (layers_to gs j @ ?l m))" if w: "w \<in> set (reads k (gs ! m))" and l: "layer_of gs m = j" for w
  proof -
    have b: "w < m" "gt (gs ! w) \<noteq> Output" "layer_of gs w \<le> j"
      using reads_before[OF assms(1) _ w] Suc.prems l by (auto split: if_splits)
    have mem: "gs ! w \<in> set (layers_to gs j @ ?l m)"
      using b Suc.prems in_layers_toI[of w gs j] by (cases "layer_of gs w = j") auto
    have "w < length gs" using b(1) Suc.prems by simp
    then show ?thesis by (rule written_member[OF g _ b(2) mem])
  qed
  show ?case using Suc.IH Suc.prems rd
    by (cases "layer_of gs m = j") (simp_all add: in_order_append list_all_iff)
qed simp

lemma layer_in_order: "sound nb n k gs \<Longrightarrow> in_order k (layers_to gs j) (layer gs j)"
  using layer_prefix_in_order[OF _ order.refl] by (simp add: layer_def)

lemma layer_starts:
  assumes "sound nb n k gs" "f \<in> set (layer gs j)"
  shows "layer_start k (layers_to gs j) f"
proof -
  obtain i where i: "i < length gs" "f = gs ! i" "layer_of gs i = j" using assms(2) by (auto simp: layer_members)
  have g: "gates_ok gs" using assms(1) by (simp add: sound_def)
  have "w \<in> set (written (layers_to gs j))" if w: "w \<in> set (reads k f)" and a: "interactive f" for w
  proof -
    have b: "w < i" "gt (gs ! w) \<noteq> Output" "layer_of gs w < j"
      using reads_before[OF assms(1) i(1), of w] w a i by auto
    then have "gs ! w \<in> set (layers_to gs j)" using i(1) in_layers_to by (metis order_less_trans)
    then show ?thesis using written_member[OF g _ b(2)] b(1) i(1) by simp
  qed
  moreover have "list_ex (\<lambda>g. uses g (g_shuffle_idx f)) (layers_to gs j)" if "gt f = Unshuffle"
    using chosen_in_layer_before(1)[OF assms(1) i(1)] that i in_layers_toI
    unfolding chosen_before_def list_ex_iff by blast
  ultimately show ?thesis by (simp add: layer_start_def list_all_iff)
qed

lemma layers_order_ok:
  assumes "sound nb n k gs"
  shows "order_ok k (layers_to gs j) (map (layer gs) [j..<j + m])"
proof (induction m arbitrary: j)
  case (Suc m)
  have "[j..<j + Suc m] = j # [Suc j..<Suc j + m]" by (simp add: upt_conv_Cons del: upt_Suc)
  then show ?case
    using Suc[of "Suc j"] layer_in_order[OF assms] layer_starts[OF assms]
    by (simp add: list_all_iff layers_to_Suc del: upt_Suc)
qed simp

section \<open>Shuffles are chosen before they are used\<close>

definition used_by :: "gate list \<Rightarrow> nat list" where
  "used_by gs = rev (map g_shuffle_idx (filter picks gs))"

lemma shuffles_first_used:
  "shuffles_first seen (xs @ ys) \<longleftrightarrow> shuffles_first seen xs \<and> shuffles_first (used_by xs @ seen) ys"
  by (induction xs arbitrary: seen) (auto simp: used_by_def picks_def)

lemma shuffles_first_all:
  assumes "\<forall>f \<in> set gs. (gt f = Unshuffle \<longrightarrow> g_shuffle_idx f \<in> set seen) \<and>
     (gt f = MergedShuffle \<longrightarrow> pi_idx f \<in> set seen \<and> omega_idx f \<in> set seen)"
  shows "shuffles_first seen gs"
  using assms
proof (induction gs arbitrary: seen)
  case (Cons f gs)
  then show ?case by (auto intro!: Cons.IH)
qed simp

lemma in_used_by: "s \<in> set (used_by gs) \<longleftrightarrow> (\<exists>f \<in> set gs. uses f s)"
  by (auto simp: used_by_def uses_picks)

lemma chosen_used:
  "chosen_before gs s i \<Longrightarrow> s \<in> set (used_by (layers_to gs (layer_of gs i)))"
  unfolding chosen_before_def in_used_by using in_layers_toI by blast

lemma layers_shuffles_first:
  assumes "sound nb n k gs"
  shows "shuffles_first [] (layers_to gs m)"
proof (induction m)
  case (Suc m)
  have "shuffles_first (used_by (layers_to gs m)) (layer gs m)"
  proof (rule shuffles_first_all, rule ballI)
    fix f assume "f \<in> set (layer gs m)"
    then obtain i where i: "i < length gs" "f = gs ! i" "layer_of gs i = m" by (auto simp: layer_members)
    show "(gt f = Unshuffle \<longrightarrow> g_shuffle_idx f \<in> set (used_by (layers_to gs m))) \<and>
       (gt f = MergedShuffle \<longrightarrow> pi_idx f \<in> set (used_by (layers_to gs m)) \<and> omega_idx f \<in> set (used_by (layers_to gs m)))"
      using chosen_in_layer_before[OF assms i(1)] chosen_used[of gs _ i] i(2,3) by auto
  qed
  then show ?case using Suc by (simp add: layers_to_Suc shuffles_first_used)
qed (simp add: layers_to_def)

section \<open>Kinds\<close>

definition kind_of :: "tag \<Rightarrow> kind" where
  "kind_of t = (case t of Pub s \<Rightarrow> Public | Bn \<Rightarrow> Bin | Pt j m \<Rightarrow> Part j m | _ \<Rightarrow> Arith)"

definition wkind :: "nat \<Rightarrow> nat \<Rightarrow> gate list \<Rightarrow> wire_id \<Rightarrow> kind" where
  "wkind nb n gs w = kind_of (wtag nb n gs w)"

lemma kind_of_simps [simp]:
  "kind_of (Ar e l a) = Arith" "kind_of (Pub s) = Public" "kind_of Bn = Bin" "kind_of (Pt j m) = Part j m"
  "kind_of Nothing = Arith"
  by (simp_all add: kind_of_def)

lemma kind_is_ar: "is_ar l t \<Longrightarrow> kind_of t = Arith"
  by (auto simp: is_ar_def split: tag.splits)

lemma check_typed:
  assumes "check n k ts lv f" "\<And>w. tag_at ts w \<noteq> Nothing \<Longrightarrow> \<kappa> w = kind_of (tag_at ts w)"
    "\<kappa> (out_idx f) = kind_of (tag_of nb n ts f)"
  shows "typed \<kappa> f"
proof (cases "gt f = ColumnSumsToNodes")
  case True
  have "\<kappa> w = Arith" if "w \<in> set (data_parallel f)" for w
  proof -
    have "is_ar n (tag_at ts w)" using assms(1) True that by (simp add: check_def list_all_iff)
    then show ?thesis using assms(2) tag_something kind_is_ar by metis
  qed
  then show ?thesis using True assms(3) by (simp add: typed_def type_defs tag_of_def)
next
  case False
  have 1: "\<kappa> (in1_idx f) = kind_of (tag_at ts (in1_idx f))" if "gt f \<noteq> Input" "gt f \<noteq> SetConstVecSIMD"
    using assms(2) check_in1[OF assms(1)] False that by auto
  have 2: "\<kappa> (in2_idx f) = kind_of (tag_at ts (in2_idx f))" if "two_inputs (gt f)"
    using assms(2) check_in2[OF assms(1) that] by auto
  show ?thesis
    using assms(1,3) 1 2 False
    by (cases "gt f")
      (auto simp: check_def typed_def type_defs tag_of_def two_inputs_def is_ar_def Let_def
        split: tag.splits if_splits elem.splits option.splits)
qed

lemma out_tag:
  assumes "gates_ok gs" "i < length gs"
  shows "wtag nb n gs (out_idx (gs ! i)) = tag_of nb n (tags nb n (take i gs)) (gs ! i)"
  using assms wtag_nth by (simp add: gates_ok_def gate_ok_def)

lemma sound_typed:
  assumes "sound nb n k gs" "f \<in> set gs"
  shows "typed (wkind nb n gs) f"
proof -
  obtain i where i: "i < length gs" "f = gs ! i" using assms(2) by (metis in_set_conv_nth)
  have g: "gates_ok gs" and c: "checked nb n k gs" using assms(1) by (simp_all add: sound_def)
  show ?thesis unfolding i(2)
    by (rule check_typed[OF checked_nth[OF c i(1)]])
      (use out_tag[OF g i(1)] tag_at_take(2)[OF i(1)] in \<open>simp_all add: wkind_def\<close>)
qed

section \<open>The static conditions\<close>

lemma wire0_tag:
  assumes "gates_ok gs" "wtag nb n gs 0 = t"
  shows "t \<noteq> Pub s" "t \<noteq> Bn"
proof -
  have "gt (gs ! 0) = Input \<or> gt (gs ! 0) = SetConstVecSIMD" if "gs \<noteq> []"
    using assms(1) that by (cases gs) (auto simp: gates_ok_def gate_ok_def)
  then have "t = Nothing \<or> (\<exists>e l m. t = Ar e l m)"
    using assms(2) wtag_nth[of 0 gs nb n] wtag_beyond[of gs 0 nb n] by (cases "gs = []") (auto simp: tag_of_def)
  then show "t \<noteq> Pub s" "t \<noteq> Bn" by auto
qed

lemma check_fields:
  assumes "check n k ts lv f" "\<And>s. tag_at ts 0 \<noteq> Pub s" "tag_at ts 0 \<noteq> Bn"
  shows "fields_ok n f" "known_type (gt f)"
proof -
  have "in2_idx f \<noteq> 0" if "two_inputs (gt f)"
  proof
    assume "in2_idx f = 0"
    then show False using assms that
      by (cases "gt f") (auto simp: check_def two_inputs_def type_defs Let_def split: if_splits tag.splits)
  qed
  then show "fields_ok n f" using assms(1) check_not[OF assms(1)]
    by (cases "gt f") (auto simp: check_def fields_ok_def triple_type_def triple_width_def Let_def split: if_splits)
  show "known_type (gt f)" using assms(1)
    by (rule checked_types) (simp_all add: known_type_def local_type_def)
qed

lemma sound_fields:
  assumes "sound nb n k gs" "f \<in> set gs"
  shows "fields_ok n f" "known_type (gt f)"
proof -
  obtain i where i: "i < length gs" "f = gs ! i" using assms(2) by (metis in_set_conv_nth)
  have g: "gates_ok gs" and c: "checked nb n k gs" using assms(1) by (simp_all add: sound_def)
  have "tag_at (tags nb n (take i gs)) 0 = wtag nb n gs 0 \<or> tag_at (tags nb n (take i gs)) 0 = Nothing"
    using tag_at_take(2)[OF i(1)] by blast
  then have "tag_at (tags nb n (take i gs)) 0 \<noteq> Pub s" "tag_at (tags nb n (take i gs)) 0 \<noteq> Bn" for s
    using wire0_tag[OF g refl] by (metis tag.distinct)+
  then show "fields_ok n f" "known_type (gt f)"
    using check_fields[OF checked_nth[OF c i(1)]] i(2) by blast+
qed

lemma layers_perm: "mset (layers_to gs (top_level gs + 1)) = mset gs"
  unfolding layers_to_def by (rule mset_layers)

lemma concat_perm: "mset xs = mset ys \<Longrightarrow> mset (concat (map h xs)) = mset (concat (map h ys))"
proof -
  assume p: "mset xs = mset ys"
  have "mset (concat (map h zs)) = sum_mset (image_mset (\<lambda>x. mset (h x)) (mset zs))" for zs
    by (induction zs) simp_all
  then show ?thesis using p by simp
qed

lemma readers_perm:
  assumes "mset xs = mset ys"
  shows "readers xs w = readers ys w" "count_list (dropped xs) w = count_list (dropped ys) w"
  using concat_perm[OF assms, of counted] concat_perm[OF assms, of drops]
  by (simp_all add: readers_def dropped_def flip: count_mset)

lemma sound_gate_runs:
  assumes "sound nb n k gs" "f \<in> set gs" "mset ls = mset gs"
  shows "gate_runs n k (length gs) ls f"
proof -
  obtain i where i: "i < length gs" "f = gs ! i" using assms(2) by (metis in_set_conv_nth)
  have g: "gate_ok i f" and s: "single_reader gs" using assms(1) i by (simp_all add: sound_def gates_ok_def)
  have w: "in1_idx f < length gs" "in2_idx f < length gs" "list_all (\<lambda>w. w < length gs) (outs f)"
    using g i(1) by (auto simp: gate_ok_def outs_def)
  show ?thesis
    using w s sound_fields[OF assms(1,2)] assms(2) readers_perm[OF assms(3)]
    by (auto simp: gate_runs_def single_reader_def list_all_iff dest: in_set_takeD)
qed

lemma distinct_written:
  assumes "gates_ok gs" "mset ls = mset gs"
  shows "distinct (written ls)"
proof -
  have "written gs = filter (\<lambda>w. gt (gs ! w) \<noteq> Output) [0..<length gs]"
    using assms(1)
  proof (induction gs rule: rev_induct)
    case (snoc f gs)
    have "filter (\<lambda>w. gt ((gs @ [f]) ! w) \<noteq> Output) [0..<length gs] = filter (\<lambda>w. gt (gs ! w) \<noteq> Output) [0..<length gs]"
      by (rule filter_cong) (simp_all add: nth_append)
    then show ?case using snoc by (simp add: gates_ok_snoc gate_ok_def outs_def)
  qed simp
  moreover have "mset (written ls) = mset (written gs)"
    unfolding written_def by (rule concat_perm[OF assms(2)])
  ultimately show ?thesis by (metis distinct_filter distinct_upt mset_eq_imp_distinct_iff)
qed

theorem sound_circuit_runs:
  assumes "sound nb n k gs"
  shows "circuit_runs n k (length gs) (map (layer gs) [0..<top_level gs + 1])"
proof -
  have p: "mset (layers_to gs (top_level gs + 1)) = mset gs" by (rule layers_perm)
  have "order_ok k [] (map (layer gs) [0..<top_level gs + 1])"
    using layers_order_ok[OF assms, of 0 "top_level gs + 1"] by (simp add: layers_to_def del: upt_Suc)
  moreover have "distinct (written (layers_to gs (top_level gs + 1)))"
    using distinct_written[OF _ p] assms by (simp add: sound_def)
  moreover have "list_all (gate_runs n k (length gs) (layers_to gs (top_level gs + 1))) (layers_to gs (top_level gs + 1))"
    using sound_gate_runs[OF assms _ p] mset_eq_setD[OF p] by (simp add: list_all_iff)
  ultimately show ?thesis unfolding circuit_runs_def Let_def layers_to_def by blast
qed

lemma built_dealable:
  assumes "sound nb n k gs" "built_from gs c"
  shows "dealable c (concat (circ c))"
proof -
  have cc: "concat (circ c) = layers_to gs (top_level gs + 1)" using assms(2) by (simp add: built_from_def layers_to_def)
  have p: "mset (concat (circ c)) = mset gs" unfolding cc by (rule layers_perm)
  have "mset (map mult_idx (triple_gates (concat (circ c)))) = mset (map mult_idx (triple_gates gs))"
    using p by (simp add: triple_gates_def)
  then have "distinct (map mult_idx (triple_gates (concat (circ c))))"
    "set (map mult_idx (triple_gates (concat (circ c)))) = set (map mult_idx (triple_gates gs))"
    using assms(2) mset_eq_imp_distinct_iff mset_eq_setD by (metis built_from_def triples_numbered_def distinct_upt)+
  moreover have "set (map mult_idx (triple_gates gs)) = {0..<n_mults c}"
    using assms(2) by (simp add: built_from_def triples_numbered_def del: set_map)
  ultimately show ?thesis
    using layers_shuffles_first[OF assms(1), of "top_level gs + 1"] assms(2) mset_eq_setD[OF p]
    unfolding dealable_def cc list_all_iff by (auto simp: built_from_def)
qed

section \<open>Evaluation\<close>

text \<open>The inputs have the size of the graph, and those that are bits are bits.\<close>

definition inputs_typed :: "nat \<Rightarrow> nat \<Rightarrow> gate list \<Rightarrow> (wire_id \<Rightarrow> vec) \<Rightarrow> bool" where
  "inputs_typed nb n gs ins \<longleftrightarrow> (\<forall>f \<in> set gs. gt f = Input \<longrightarrow> length (ins (out_idx f)) = n \<and>
     (bit_input nb (out_idx f) \<longrightarrow> (\<forall>x \<in> set (ins (out_idx f)). x = 0 \<or> x = 1)))"

definition perms_typed :: "nat \<Rightarrow> gate list \<Rightarrow> (nat \<Rightarrow> permutation) \<Rightarrow> bool" where
  "perms_typed n gs \<Pi> \<longleftrightarrow> (\<forall>f \<in> set gs. picks f \<longrightarrow> perm_ok n (\<Pi> (g_shuffle_idx f)))"

lemma sound_op:
  assumes "sound nb n k gs" "f \<in> set gs" "n \<le> 2 ^ 32" "inputs_typed nb n gs ins" "perms_typed n gs \<Pi>"
    "\<And>w. w \<in> set (reads k f) \<Longrightarrow> val_ok n (wtag nb n gs w) (\<rho> w)"
  shows "\<exists>v. plain_op n k \<Pi> ins \<rho> f = Inr v \<and> val_ok n (wtag nb n gs (out_idx f)) v"
proof -
  obtain i where i: "i < length gs" "f = gs ! i" using assms(2) by (metis in_set_conv_nth)
  have g: "gates_ok gs" and c: "checked nb n k gs" using assms(1) by (simp_all add: sound_def)
  let ?ts = "tags nb n (take i gs)"
  have e: "wtag nb n gs (out_idx f) = tag_of nb n ?ts f" using out_tag[OF g i(1)] i(2) by simp
  have "val_ok n (tag_at ?ts w) (\<rho> w)" if "w \<in> set (reads k f)" for w
    using assms(6)[OF that] tag_at_take(2)[OF i(1), of nb n w]
    by (cases "tag_at ?ts w = Nothing") (simp_all add: val_ok_def)
  moreover have "val_ok n (tag_of nb n ?ts f) (ins (out_idx f))" if "gt f = Input"
    using assms(2,4) that by (auto simp: inputs_typed_def tag_of_def val_ok_def)
  moreover have "perm_ok n (\<Pi> (g_shuffle_idx f))" if "move_type (gt f)"
  proof (cases "gt f = Unshuffle")
    case True
    then have "chosen_before gs (g_shuffle_idx f) i"
      using chosen_in_layer_before(1)[OF assms(1) i(1)] i(2) by simp
    then show ?thesis using assms(5) by (auto simp: chosen_before_def perms_typed_def uses_picks)
  next
    case False
    then show ?thesis using assms(2,5) that by (auto simp: perms_typed_def picks_def move_type_def)
  qed
  ultimately show ?thesis unfolding e
    by (rule op_typed[OF checked_nth[OF c i(1), folded i(2)] assms(3)])
qed

lemma output_full:
  assumes "sound nb n k gs" "f \<in> set gs" "gt f = Output" "val_ok n (wtag nb n gs (in1_idx f)) v"
  shows "length v = n"
proof -
  obtain i where i: "i < length gs" "f = gs ! i" using assms(2) by (metis in_set_conv_nth)
  have c: "checked nb n k gs" using assms(1) by (simp add: sound_def)
  have a: "is_ar n (tag_at (tags nb n (take i gs)) (in1_idx f))"
    using checked_nth[OF c i(1)] i(2) assms(3) by (simp add: check_def Let_def)
  then have "tag_at (tags nb n (take i gs)) (in1_idx f) = wtag nb n gs (in1_idx f)"
    using tag_at_take(2)[OF i(1), of nb n "in1_idx f"] tag_something by blast
  then show ?thesis using a assms(4) by (auto simp: val_ok_def is_ar_def split: tag.splits)
qed

lemma plain_fold_runs:
  assumes "sound nb n k gs" "n \<le> 2 ^ 32" "inputs_typed nb n gs ins" "perms_typed n gs \<Pi>"
    "in_order k a fs" "set (a @ fs) \<subseteq> set gs" "\<forall>w \<in> set (written a). val_ok n (wtag nb n gs w) (\<rho> w)"
  shows "\<exists>\<rho>' out'. foldr_res (plain_step n k \<Pi> ins) (\<rho>, out) fs = Inr (\<rho>', out') \<and>
     length out' = length out + n * length (filter (\<lambda>f. gt f = Output) fs)"
  using assms(5-)
proof (induction fs arbitrary: a \<rho> out)
  case (Cons f fs)
  have rd: "val_ok n (wtag nb n gs w) (\<rho> w)" if "w \<in> set (reads k f)" for w
    using Cons.prems that by (auto simp: list_all_iff)
  obtain v where v: "plain_op n k \<Pi> ins \<rho> f = Inr v" "val_ok n (wtag nb n gs (out_idx f)) v"
    using sound_op[OF assms(1) _ assms(2-4), of f \<rho>] Cons.prems rd by auto
  let ?r = "if gt f = Output then \<rho> else \<rho>(out_idx f := v)"
  let ?o = "if gt f = Output then out @ take n (\<rho> (in1_idx f)) else out"
  have "\<forall>w \<in> set (written (a @ [f])). val_ok n (wtag nb n gs w) (?r w)"
    using Cons.prems(3) v(2) by (auto simp: outs_def)
  moreover have "in_order k (a @ [f]) fs" "set ((a @ [f]) @ fs) \<subseteq> set gs" using Cons.prems(1,2) by simp_all
  ultimately obtain \<rho>' out' where r: "foldr_res (plain_step n k \<Pi> ins) (?r, ?o) fs = Inr (\<rho>', out')"
    "length out' = length ?o + n * length (filter (\<lambda>f. gt f = Output) fs)"
    using Cons.IH[of "a @ [f]" ?r ?o] by blast
  have "length (\<rho> (in1_idx f)) = n" if "gt f = Output"
    using output_full[OF assms(1) _ that rd] Cons.prems(2) that by (simp add: reads_def two_inputs_def type_defs)
  then have "length ?o = length out + n * length (filter (\<lambda>f. gt f = Output) [f])" by auto
  moreover have "plain_step n k \<Pi> ins (\<rho>, out) f = Inr (?r, ?o)" by (simp add: plain_step_def v(1))
  ultimately show ?case using r by auto
qed simp

theorem sound_evaluates:
  assumes "sound nb n k gs" "n \<le> 2 ^ 32" "inputs_typed nb n gs ins" "perms_typed n gs \<Pi>"
  shows "\<exists>out. plain_eval n k \<Pi> ins (concat (map (layer gs) [0..<top_level gs + 1])) = Inr out \<and>
     length out = n * length (filter (\<lambda>f. gt f = Output) gs)"
proof -
  let ?ls = "concat (map (layer gs) [0..<top_level gs + 1])"
  have p: "mset ?ls = mset gs" by (rule mset_layers)
  have "order_ok k [] (map (layer gs) [0..<top_level gs + 1])"
    using layers_order_ok[OF assms(1), of 0 "top_level gs + 1"] by (simp add: layers_to_def del: upt_Suc)
  then have "in_order k [] ?ls" by (rule order_ok_in_order)
  moreover have "set ([] @ ?ls) \<subseteq> set gs" using mset_eq_setD[OF p] by simp
  ultimately obtain \<rho>' out where "foldr_res (plain_step n k \<Pi> ins) (\<lambda>_. [], []) ?ls = Inr (\<rho>', out)"
    "length out = length [] + n * length (filter (\<lambda>f. gt f = Output) ?ls)"
    using plain_fold_runs[OF assms, of "[]" ?ls "\<lambda>_. []" "[]"] by auto
  moreover have "length (filter (\<lambda>f. gt f = Output) ?ls) = length (filter (\<lambda>f. gt f = Output) gs)"
    using arg_cong[OF p, of "\<lambda>M. size (filter_mset (\<lambda>f. gt f = Output) M)"] by (metis mset_filter size_mset)
  ultimately show ?thesis by (simp add: plain_eval_def)
qed

end
