(* ===== verification/Build_Types.thy ===== *)
theory Build_Types
  imports Checked
begin

text \<open>
  A program logic for typed circuits. \<open>tb U S c m Q\<close> says that the computation \<open>m\<close> extends a
  well-typed circuit \<open>c\<close> to a well-typed one in which \<open>Q\<close> holds of the result; it does not read
  the wires in \<open>U\<close>, and the only wires of \<open>c\<close> it uses up are those in \<open>S\<close>.
\<close>

section \<open>Well-typed circuits under construction\<close>

definition taken :: "gate list \<Rightarrow> wire_id set" where
  "taken gs = (\<Union>f \<in> set gs. set (taken_by f))"

lemma taken_simps [simp]: "taken [] = {}" "taken (gs @ hs) = taken gs \<union> taken hs" "taken [f] = set (taken_by f)"
  by (auto simp: taken_def)

text \<open>A wire that no gate reads yet.\<close>

definition free :: "circuit \<Rightarrow> wire_id \<Rightarrow> bool" where
  "free c w \<longleftrightarrow> w < n_wires c \<and> readers (gates c) w = 0 \<and> w \<notin> taken (gates c)"

text \<open>The number of inputs: node numbers by bits, both ends, node flag, data, and the columns.\<close>

definition input_count :: "nat \<Rightarrow> nat \<Rightarrow> nat" where
  "input_count nb cols = 2 * nb + 4 + (if cols > 1 then cols else 0)"

definition inputs_within :: "nat \<Rightarrow> gate list \<Rightarrow> bool" where
  "inputs_within m gs \<longleftrightarrow> (\<forall>f \<in> set gs. gt f = Input \<longrightarrow> out_idx f < m)"

definition csound :: "nat \<Rightarrow> nat \<Rightarrow> nat \<Rightarrow> wire_id set \<Rightarrow> circuit \<Rightarrow> bool" where
  "csound nb n k U c \<longleftrightarrow> sound nb n k (gates c) \<and> n_wires c = length (gates c) \<and>
     c_bits c = nb \<and> c_size c = n \<and> c_nodes c = k \<and> inputs_within (input_count nb (columns c)) (gates c) \<and>
     0 \<notin> taken (gates c) \<and> (\<forall>u \<in> U. free c u)"

text \<open>A wire that may be read, with its type and level.\<close>

definition wok :: "nat \<Rightarrow> nat \<Rightarrow> wire_id set \<Rightarrow> circuit \<Rightarrow> wire_id \<Rightarrow> tag \<Rightarrow> nat \<Rightarrow> bool" where
  "wok nb n U c w t l \<longleftrightarrow> w < n_wires c \<and> wtag nb n (gates c) w = t \<and> level_of (gates c) ! w = l \<and>
     w \<notin> U \<and> w \<notin> taken (gates c)"

definition grow :: "wire_id set \<Rightarrow> circuit \<Rightarrow> circuit \<Rightarrow> bool" where
  "grow S c c' \<longleftrightarrow> (\<exists>gs. gates c' = gates c @ gs) \<and> n_wires c \<le> n_wires c' \<and>
     (\<forall>w < n_wires c. w \<in> taken (gates c') \<longrightarrow> w \<in> taken (gates c) \<or> w \<in> S)"

lemma grow_refl [simp]: "grow S c c"
  by (simp add: grow_def)

lemma grow_trans: "grow S c c' \<Longrightarrow> grow T c' c'' \<Longrightarrow> grow (S \<union> T) c c''"
proof -
  assume a: "grow S c c'" "grow T c' c''"
  obtain gs hs where "gates c' = gates c @ gs" "gates c'' = gates c' @ hs" using a by (auto simp: grow_def)
  then have "gates c'' = gates c @ (gs @ hs)" by simp
  moreover have "n_wires c \<le> n_wires c'" "n_wires c' \<le> n_wires c''" using a by (simp_all add: grow_def)
  moreover have "w \<in> taken (gates c) \<or> w \<in> S \<union> T" if "w < n_wires c" "w \<in> taken (gates c'')" for w
    using a that calculation(2) unfolding grow_def by (meson UnCI order_less_le_trans)
  ultimately show ?thesis unfolding grow_def by (meson order_trans)
qed

lemma grow_more: "grow S c c' \<Longrightarrow> S \<subseteq> T \<Longrightarrow> grow T c c'"
  unfolding grow_def by blast

lemma wok_grow:
  assumes "grow S c c'" "w \<notin> S" "n_wires c = length (gates c)" "wok nb n U c w t l"
  shows "wok nb n U c' w t l"
proof -
  have w: "w < n_wires c" "w \<notin> taken (gates c)" using assms(4) by (simp_all add: wok_def)
  obtain gs where gs: "gates c' = gates c @ gs" using assms(1) by (auto simp: grow_def)
  have "w < n_wires c'" using assms(1) w(1) by (simp add: grow_def)
  moreover have "w \<notin> taken (gates c')" using assms(1,2) w unfolding grow_def by blast
  ultimately show ?thesis using assms(3,4) w(1)
    by (simp add: gs wok_def wtag_append level_of_append_nth)
qed

section \<open>One more gate\<close>

text \<open>What a gate has to satisfy so that it can be added.\<close>

definition adm :: "nat \<Rightarrow> nat \<Rightarrow> nat \<Rightarrow> wire_id set \<Rightarrow> circuit \<Rightarrow> gate \<Rightarrow> bool" where
  "adm nb n k U c f \<longleftrightarrow> gate_ok (n_wires c) f \<and> check n k (tags nb n (gates c)) (level_of (gates c)) f \<and>
     (if gt f = Input \<or> gt f = SetConstVecSIMD then counted f = [0]
      else \<forall>w \<in> set (counted f). w < n_wires c \<and> w \<notin> U \<and> w \<notin> taken (gates c)) \<and>
     (\<forall>w \<in> set (taken_by f). free c w \<and> w \<notin> U) \<and> (gt f = EQZ \<longrightarrow> in2_idx f = 0) \<and>
     (gt f = Input \<longrightarrow> n_wires c < input_count nb (columns c))"

lemma reads_zero: "gates_ok gs \<Longrightarrow> gs \<noteq> [] \<Longrightarrow> 0 < readers gs 0"
proof (cases gs)
  case (Cons f fs)
  assume "gates_ok gs"
  then have "in1_idx f = 0" using Cons by (auto simp: gates_ok_def gate_ok_def)
  then show ?thesis using Cons by (simp add: counted_def)
qed simp

lemma counted_bound: "gates_ok gs \<Longrightarrow> length gs \<le> w \<Longrightarrow> readers gs w = 0"
proof (induction gs rule: rev_induct)
  case (snoc f gs)
  then show ?case by (auto simp: gates_ok_snoc gate_ok_def counted_def)
qed simp

lemma taken_bound:
  assumes "sound nb n k gs" "w \<in> taken gs"
  shows "w < length gs"
proof -
  obtain i where i: "i < length gs" "w \<in> set (taken_by (gs ! i))"
    using assms(2) unfolding taken_def by (metis UN_E in_set_conv_nth)
  have g: "gates_ok gs" and c: "checked nb n k gs" using assms(1) by (simp_all add: sound_def)
  note ch = checked_nth[OF c i(1)]
  have "w < i"
  proof (cases "gt (gs ! i) = EQZ")
    case True
    then show ?thesis using i g by (auto simp: taken_by_def gates_ok_def gate_ok_def split: if_splits)
  next
    case False
    then have "is_ar n (tag_at (tags nb n (take i gs)) w)"
      using i(2) ch by (auto simp: taken_by_def check_def list_all_iff split: if_splits)
    then show ?thesis using tag_at_take(1)[OF i(1)] tag_something by blast
  qed
  then show ?thesis using i(1) by simp
qed

lemma single_reader_snoc:
  assumes "sound nb n k gs" "adm nb n k U c f" "gates c = gs" "0 \<notin> taken gs" "fields_ok n f"
  shows "single_reader (gs @ [f])"
proof -
  have s: "single_reader gs" using assms(1) by (simp add: sound_def)
  have cnt: "count_list (counted f) w = 0" if "w \<in> taken gs" for w
  proof (cases "gt f = Input \<or> gt f = SetConstVecSIMD")
    case True
    then have "counted f = [0]" using assms(2) by (simp add: adm_def)
    moreover have "w \<noteq> 0" using that assms(4) by metis
    ultimately show ?thesis by simp
  next
    case False
    then have "w \<notin> set (counted f)" using assms(2,3) that by (auto simp: adm_def)
    then show ?thesis by (simp add: count_list_0_iff)
  qed
  have old: "gt g = EQZ \<and> g_layer g = 0 \<longrightarrow> readers (gs @ [f]) (in1_idx g) = 1"
    "gt g = ColumnSumsToNodes \<longrightarrow> list_all (\<lambda>w. count_list (dropped (gs @ [f])) w = 0) (data_parallel g)"
    if g: "g \<in> set gs" for g
  proof -
    have t: "set (taken_by g) \<subseteq> taken gs" using g by (auto simp: taken_def)
    show "gt g = EQZ \<and> g_layer g = 0 \<longrightarrow> readers (gs @ [f]) (in1_idx g) = 1"
      using s g t cnt by (auto simp: single_reader_def list_all_iff taken_by_def)
    have "count_list (drops f) w = 0" if "w \<in> taken gs" for w
      using drops_le[OF assms(5), of w] cnt[OF that] by simp
    then show "gt g = ColumnSumsToNodes \<longrightarrow> list_all (\<lambda>w. count_list (dropped (gs @ [f])) w = 0) (data_parallel g)"
      using s g t by (auto simp: single_reader_def list_all_iff taken_by_def)
  qed
  have fr: "readers gs w = 0" if "w \<in> set (taken_by f)" for w
    using assms(2,3) that by (simp add: adm_def free_def)
  have "gt f = EQZ \<and> g_layer f = 0 \<longrightarrow> readers (gs @ [f]) (in1_idx f) = 1"
    using fr[of "in1_idx f"] assms(2) by (auto simp: taken_by_def adm_def counted_def)
  moreover have "count_list (dropped (gs @ [f])) w = 0" if "gt f = ColumnSumsToNodes" "w \<in> set (data_parallel f)" for w
  proof -
    have "drops f = []" using that(1) by (simp add: drops_def send_drops_def recv_drops_def type_defs)
    moreover have "count_list (dropped gs) w \<le> readers gs w"
      by (rule dropped_le[where n = n]) (use sound_fields(1)[OF assms(1)] in \<open>simp add: list_all_iff\<close>)
    ultimately show ?thesis using fr[of w] that by (simp add: taken_by_def)
  qed
  ultimately show ?thesis using old by (simp add: single_reader_def list_all_iff)
qed

lemma level_zero: "gates_ok gs \<Longrightarrow> (level_of gs @ [0]) ! 0 = 0"
proof (cases gs)
  case (Cons f fs)
  assume "gates_ok gs"
  then have f: "in1_idx f = 0" "in2_idx f = 0" "gt f = Input \<or> gt f = SetConstVecSIMD"
    using Cons by (auto simp: gates_ok_def gate_ok_def)
  have "level_of [f] = [0]"
    using f level_of_snoc[of "[]" f] by (auto simp: next_level_def interactive_def interactive_type_def)
  then show ?thesis using level_of_append_nth[of 0 "[f]" fs] Cons by (simp add: nth_append)
qed simp

definition lev :: "circuit \<Rightarrow> wire_id \<Rightarrow> nat" where
  "lev c w = (level_of (gates c) @ [0]) ! w"

lemma wok_lev: "wok nb n U c w t l \<Longrightarrow> n_wires c = length (gates c) \<Longrightarrow> lev c w = l"
  by (simp add: wok_def lev_def nth_append)

lemma csound_add:
  assumes "csound nb n k U c" "adm nb n k U c f" "gates c' = gates c @ [f]" "n_wires c' = Suc (n_wires c)"
    "c_bits c' = c_bits c" "c_size c' = c_size c" "c_nodes c' = c_nodes c" "columns c' = columns c"
  shows "csound nb n k U c'" "grow (set (taken_by f)) c c'"
    "gt f \<noteq> Output \<Longrightarrow> set (taken_by f) \<inter> {n_wires c} = {} \<Longrightarrow>
       wok nb n U c' (n_wires c) (tag_of nb n (tags nb n (gates c)) f)
       (max (lev c (in1_idx f)) (lev c (in2_idx f)) + (if interactive f then 1 else 0))"
    "0 < n_wires c \<Longrightarrow> free c' (n_wires c)"
proof -
  let ?gs = "gates c"
  have s: "sound nb n k ?gs" and len: "n_wires c = length ?gs" and z: "0 \<notin> taken ?gs"
    using assms(1) by (simp_all add: csound_def)
  have ch: "check n k (tags nb n ?gs) (level_of ?gs) f" and go: "gate_ok (length ?gs) f"
    using assms(2) len by (simp_all add: adm_def)
  have g: "gates_ok ?gs" using s by (simp add: sound_def)
  have fo: "fields_ok n f"
    using check_fields(1)[OF ch] wire0_tag[OF g, of nb n] by (simp add: wtag_def)
  have "sound nb n k (?gs @ [f])"
    using s go ch single_reader_snoc[OF s assms(2) refl z fo]
    by (simp add: sound_def gates_ok_snoc checked_snoc)
  note whole = this
  have ztf: "0 \<notin> set (taken_by f)"
    using reads_zero[OF g] assms(2) len by (auto simp: adm_def free_def)
  have tf: "w < length ?gs \<and> w \<notin> U" if "w \<in> set (taken_by f)" for w
    using that assms(2) len by (auto simp: adm_def free_def)
  have fr: "free c' u" if u: "u \<in> U" for u
  proof -
    have fu: "free c u" using assms(1) u by (simp add: csound_def)
    have "count_list (counted f) u = 0"
    proof (cases "gt f = Input \<or> gt f = SetConstVecSIMD")
      case True
      then have "counted f = [0]" using assms(2) by (simp add: adm_def)
      moreover have "u \<noteq> 0"
      proof
        assume "u = 0"
        then show False using fu reads_zero[OF g] len by (auto simp: free_def)
      qed
      ultimately show ?thesis by simp
    next
      case False
      then have "u \<notin> set (counted f)" using assms(2) u by (auto simp: adm_def)
      then show ?thesis by (simp add: count_list_0_iff)
    qed
    moreover have "u \<notin> set (taken_by f)" using tf u by blast
    ultimately show ?thesis using fu assms(3,4) by (simp add: free_def)
  qed
  have "out_idx f = n_wires c" using go len by (simp add: gate_ok_def)
  then have "inputs_within (input_count nb (columns c)) (?gs @ [f])"
    using assms(1,2) by (auto simp: csound_def adm_def inputs_within_def)
  then show "csound nb n k U c'"
    using whole fr assms(1,3-) len z ztf by (simp add: csound_def)
  show "grow (set (taken_by f)) c c'" using assms(3,4) by (simp add: grow_def)
  have nt: "n_wires c \<notin> taken ?gs" using taken_bound[OF s] len by fastforce
  show "free c' (n_wires c)" if "0 < n_wires c"
  proof -
    have "n_wires c \<notin> set (counted f)" using that assms(2) by (auto simp: adm_def split: if_splits)
    then have "count_list (counted f) (n_wires c) = 0" by (simp add: count_list_0_iff)
    then show ?thesis
      using assms(3,4) nt tf[of "n_wires c"] counted_bound[OF g, of "n_wires c"] len by (auto simp: free_def)
  qed
  assume no: "gt f \<noteq> Output"
  have "level_of (?gs @ [f]) ! length ?gs = max (lev c (in1_idx f)) (lev c (in2_idx f)) + (if interactive f then 1 else 0)"
    using no by (simp add: level_of_snoc next_level_def nth_append lev_def)
  moreover have "wtag nb n (?gs @ [f]) (length ?gs) = tag_of nb n (tags nb n ?gs) f"
    using wtag_nth[of "length ?gs" "?gs @ [f]"] by simp
  moreover have "n_wires c \<notin> U" using assms(1) by (auto simp: csound_def free_def)
  ultimately show "wok nb n U c' (n_wires c) (tag_of nb n (tags nb n ?gs) f)
       (max (lev c (in1_idx f)) (lev c (in2_idx f)) + (if interactive f then 1 else 0))"
    using assms(3,4) len nt tf[of "n_wires c"] by (auto simp: wok_def)
qed

section \<open>The judgement\<close>

definition tb ::
  "nat \<Rightarrow> nat \<Rightarrow> nat \<Rightarrow> wire_id set \<Rightarrow> wire_id set \<Rightarrow> circuit \<Rightarrow> 'a build \<Rightarrow> ('a \<Rightarrow> circuit \<Rightarrow> bool) \<Rightarrow> bool" where
  "tb nb n k U S c m Q \<longleftrightarrow>
     (csound nb n k U c \<longrightarrow>
       (case run_state m c of (r, c') \<Rightarrow> csound nb n k U c' \<and> ext c c' \<and> grow S c c' \<and> Q r c'))"

lemma tb_return: "Q x c \<Longrightarrow> tb nb n k U S c (State_Monad.return x) Q"
  by (simp add: tb_def State_Monad.return_def)

lemma tb_conseq:
  "tb nb n k U S c m Q \<Longrightarrow> S \<subseteq> S' \<Longrightarrow>
     (\<And>r c'. csound nb n k U c' \<Longrightarrow> ext c c' \<Longrightarrow> grow S c c' \<Longrightarrow> Q r c' \<Longrightarrow> R r c') \<Longrightarrow> tb nb n k U S' c m R"
  by (auto simp: tb_def split: prod.splits intro: grow_more)

lemma tb_bind:
  assumes "tb nb n k U S c m Q"
    and "\<And>r c'. csound nb n k U c \<Longrightarrow> csound nb n k U c' \<Longrightarrow> ext c c' \<Longrightarrow> grow S c c' \<Longrightarrow> Q r c' \<Longrightarrow> tb nb n k U T c' (f r) R"
  shows "tb nb n k U (S \<union> T) c (State_Monad.bind m f) R"
proof -
  obtain r c' where m: "run_state m c = (r, c')" by fastforce
  obtain x c'' where f: "run_state (f r) c' = (x, c'')" by fastforce
  have "run_state (State_Monad.bind m f) c = (x, c'')"
    by (simp add: State_Monad.bind_def m f)
  then show ?thesis
    using assms(1) assms(2)[of c' r] m f unfolding tb_def by (auto intro: ext_trans grow_trans)
qed

text \<open>The usual step: the first part uses up no wire.\<close>

definition step :: "circuit \<Rightarrow> circuit \<Rightarrow> bool" where
  "step c c' \<longleftrightarrow> ext c c' \<and> grow {} c c' \<and> n_wires c = length (gates c)"

lemma tb_seq:
  assumes "tb nb n k U {} c m Q"
    and "\<And>r c'. csound nb n k U c' \<Longrightarrow> step c c' \<Longrightarrow> Q r c' \<Longrightarrow> tb nb n k U S c' (f r) R"
  shows "tb nb n k U S c (State_Monad.bind m f) R"
  using tb_bind[OF assms(1), of S f R] assms(2) by (simp add: csound_def step_def)

lemma step_wok: "step c c' \<Longrightarrow> wok nb n U c w t l \<Longrightarrow> wok nb n U c' w t l"
  unfolding step_def using wok_grow[of "{}"] by blast

lemma step_le: "step c c' \<Longrightarrow> n_wires c \<le> n_wires c'"
  by (simp add: step_def grow_def)

lemma tb_then_get: "tb nb n k U S c (f (g c)) R \<Longrightarrow> tb nb n k U S c (State_Monad.bind (get_c g) f) R"
  by (simp add: tb_def get_c_def State_Monad.bind_def)

lemma tb_then_shuffle_idx:
  "tb nb n k U S c (f (shuffle_idx c)) R \<Longrightarrow> tb nb n k U S c (State_Monad.bind get_shuffle_idx f) R"
  unfolding get_shuffle_idx_def by (rule tb_then_get)

lemma raised_same:
  "csound nb n k U (c\<lparr>c_raised := r\<rparr>) = csound nb n k U c" "ext (c\<lparr>c_raised := r\<rparr>) c' = ext c c'"
  "grow S (c\<lparr>c_raised := r\<rparr>) c' = grow S c c'" "wok nb n U (c\<lparr>c_raised := r\<rparr>) w t l = wok nb n U c w t l"
  "free (c\<lparr>c_raised := r\<rparr>) w = free c w"
  by (simp_all add: csound_def free_def ext_def grow_def wok_def)

lemma tb_then_guard:
  "(\<And>r. tb nb n k U S (c\<lparr>c_raised := r\<rparr>) (f ()) R) \<Longrightarrow> tb nb n k U S c (State_Monad.bind (guard_c p e) f) R"
  unfolding tb_def guard_c_def update_c_def State_Monad.bind_def by (simp add: raised_same)

section \<open>Steps that add one gate\<close>

definition adds :: "circuit \<Rightarrow> wire_id build \<Rightarrow> gate \<Rightarrow> bool" where
  "adds c m f \<longleftrightarrow> (case run_state m c of (r, c') \<Rightarrow>
     r = n_wires c \<and> gates c' = gates c @ [f] \<and> n_wires c' = Suc (n_wires c) \<and> ext c c')"

lemma adds_gate:
  assumes "n_wires c = length (gates c)"
  shows "adds c (new_gate mk) (mk c (n_wires c) (n_wires c))"
    "adds c (do { out \<leftarrow> new_gate mk; bump_shuffles; State_Monad.return out }) (mk c (n_wires c) (n_wires c))"
    "adds c (do { out \<leftarrow> new_gate mk; bump_mults; State_Monad.return out }) (mk c (n_wires c) (n_wires c))"
  using assms
  by (simp_all add: adds_def new_gate_def bump_shuffles_def bump_mults_def update_c_def State_Monad.bind_def
      State_Monad.return_def Let_def ext_def)

text \<open>A wire that has just been made.\<close>

definition made :: "nat \<Rightarrow> nat \<Rightarrow> wire_id set \<Rightarrow> circuit \<Rightarrow> circuit \<Rightarrow> wire_id \<Rightarrow> tag \<Rightarrow> nat \<Rightarrow> bool" where
  "made nb n U c c' r t l \<longleftrightarrow> n_wires c \<le> r \<and> wok nb n U c' r t l \<and> (0 < n_wires c \<longrightarrow> free c' r)"

lemma tb_adds:
  assumes "csound nb n k U c \<Longrightarrow> adds c m f \<and> adm nb n k U c f" "gt f \<noteq> Output"
    "set (taken_by f) \<subseteq> S" "\<And>ts. ts = tags nb n (gates c) \<Longrightarrow> tag_of nb n ts f = t"
    "csound nb n k U c \<Longrightarrow> max (lev c (in1_idx f)) (lev c (in2_idx f)) = l"
  shows "tb nb n k U S c m (\<lambda>r c'. r = n_wires c \<and> n_wires c' = Suc r \<and>
     made nb n U c c' r t (l + (if interactive f then 1 else 0)))"
  unfolding tb_def
proof
  assume cs: "csound nb n k U c"
  obtain r c' where m: "run_state m c = (r, c')" by fastforce
  have ad: "r = n_wires c" "gates c' = gates c @ [f]" "n_wires c' = Suc (n_wires c)" "ext c c'"
    and adm: "adm nb n k U c f"
    using assms(1)[OF cs] m by (simp_all add: adds_def)
  have e: "c_bits c' = c_bits c" "c_size c' = c_size c" "c_nodes c' = c_nodes c" "columns c' = columns c" using ad(4) by (simp_all add: ext_def)
  note add = csound_add[OF cs adm ad(2,3) e]
  have "set (taken_by f) \<inter> {n_wires c} = {}" using adm by (auto simp: adm_def free_def)
  then have "made nb n U c c' r t (l + (if interactive f then 1 else 0))"
    using add(3)[OF assms(2)] add(4) assms(4)[OF refl] assms(5)[OF cs] ad(1) by (simp add: made_def)
  then show "case run_state m c of (r, c') \<Rightarrow> csound nb n k U c' \<and> ext c c' \<and> grow S c c' \<and>
      r = n_wires c \<and> n_wires c' = Suc r \<and> made nb n U c c' r t (l + (if interactive f then 1 else 0))"
    using add(1) grow_more[OF add(2) assms(3)] ad(1,3,4) by (simp add: m)
qed

text \<open>Gates with one input, and gates with two.\<close>

definition shape1 :: "nat \<Rightarrow> wire_id \<Rightarrow> gate \<Rightarrow> bool" where
  "shape1 N w f \<longleftrightarrow> g_id f = N \<and> out_idx f = N \<and> in1_idx f = w \<and> in2_idx f = 0 \<and>
     gt f \<notin> {Input, SetConstVecSIMD, ColumnSumsToNodes, Output}"

definition shape2 :: "nat \<Rightarrow> wire_id \<Rightarrow> wire_id \<Rightarrow> gate \<Rightarrow> bool" where
  "shape2 N w1 w2 f \<longleftrightarrow> g_id f = N \<and> out_idx f = N \<and> in1_idx f = w1 \<and> in2_idx f = w2 \<and>
     gt f \<notin> {Input, SetConstVecSIMD, ColumnSumsToNodes, Output, EQZ}"

lemma wok_tag: "wok nb n U c w t l \<Longrightarrow> ts = tags nb n (gates c) \<Longrightarrow> tag_at ts w = t"
  by (simp add: wok_def wtag_def)

lemma lev_zero: "csound nb n k U c \<Longrightarrow> lev c 0 = 0"
  using level_zero by (simp add: csound_def sound_def lev_def)

lemma csound_len: "csound nb n k U c \<Longrightarrow> n_wires c = length (gates c)"
  by (simp add: csound_def)

lemma tb_shape1:
  assumes "wok nb n U c w t l" "\<And>c. n_wires c = length (gates c) \<Longrightarrow> adds c m (mk c)" "shape1 (n_wires c) w (mk c)"
    "\<And>ts lv. tag_at ts w = t \<Longrightarrow> check n k ts lv (mk c)" "\<And>ts. tag_at ts w = t \<Longrightarrow> tag_of nb n ts (mk c) = t'"
    "\<And>v. v \<in> set (taken_by (mk c)) \<Longrightarrow> v \<in> S \<and> free c v"
    "l' = l + (if interactive_type (gt (mk c)) then 1 else 0)"
  shows "tb nb n k U S c m (\<lambda>r c'. made nb n U c c' r t' l')"
proof -
  let ?f = "mk c"
  have f: "g_id ?f = n_wires c" "out_idx ?f = n_wires c" "in1_idx ?f = w" "in2_idx ?f = 0"
    "gt ?f \<noteq> Input" "gt ?f \<noteq> SetConstVecSIMD" "gt ?f \<noteq> ColumnSumsToNodes" "gt ?f \<noteq> Output"
    using assms(3) by (simp_all add: shape1_def)
  have w: "w < n_wires c" "w \<notin> U" "w \<notin> taken (gates c)" using assms(1) by (simp_all add: wok_def)
  have "set (taken_by ?f) \<subseteq> {w}" using f by (auto simp: taken_by_def split: if_splits)
  then have "adm nb n k U c ?f"
    using f w assms(4)[OF wok_tag[OF assms(1) refl]] assms(6)
    by (auto simp: adm_def gate_ok_def counted_def)
  then have "tb nb n k U S c m (\<lambda>r c'. r = n_wires c \<and> n_wires c' = Suc r \<and> made nb n U c c' r t' (l + (if interactive ?f then 1 else 0)))"
    by (intro tb_adds)
      (use assms(2,5,6) f wok_tag[OF assms(1)] csound_len lev_zero wok_lev[OF assms(1)] in auto)
  then show ?thesis by (rule tb_conseq) (use assms(7) in \<open>auto simp: interactive_def\<close>)
qed

lemma tb_shape2:
  assumes "wok nb n U c w1 t1 l1" "wok nb n U c w2 t2 l2" "\<And>c. n_wires c = length (gates c) \<Longrightarrow> adds c m (mk c)"
    "shape2 (n_wires c) w1 w2 (mk c)" "\<And>ts lv. tag_at ts w1 = t1 \<Longrightarrow> tag_at ts w2 = t2 \<Longrightarrow> check n k ts lv (mk c)"
    "\<And>ts. tag_at ts w1 = t1 \<Longrightarrow> tag_at ts w2 = t2 \<Longrightarrow> tag_of nb n ts (mk c) = t'"
    "l' = max l1 l2 + (if interactive_type (gt (mk c)) then 1 else 0)"
  shows "tb nb n k U {} c m (\<lambda>r c'. made nb n U c c' r t' l')"
proof -
  let ?f = "mk c"
  have f: "g_id ?f = n_wires c" "out_idx ?f = n_wires c" "in1_idx ?f = w1" "in2_idx ?f = w2"
    "gt ?f \<noteq> Input" "gt ?f \<noteq> SetConstVecSIMD" "gt ?f \<noteq> ColumnSumsToNodes" "gt ?f \<noteq> Output" "gt ?f \<noteq> EQZ"
    using assms(4) by (simp_all add: shape2_def)
  have w: "w1 < n_wires c" "w1 \<notin> U" "w1 \<notin> taken (gates c)" "w2 < n_wires c" "w2 \<notin> U" "w2 \<notin> taken (gates c)"
    using assms(1,2) by (simp_all add: wok_def)
  have t: "taken_by ?f = []" using f by (simp add: taken_by_def)
  have "adm nb n k U c ?f"
    using f w t assms(5)[OF wok_tag[OF assms(1) refl] wok_tag[OF assms(2) refl]]
    by (auto simp: adm_def gate_ok_def counted_def)
  then have "tb nb n k U {} c m (\<lambda>r c'. r = n_wires c \<and> n_wires c' = Suc r \<and> made nb n U c c' r t' (max l1 l2 + (if interactive ?f then 1 else 0)))"
    by (intro tb_adds)
      (use assms(3,6) f t wok_tag[OF assms(1)] wok_tag[OF assms(2)] csound_len wok_lev[OF assms(1)] wok_lev[OF assms(2)] in auto)
  then show ?thesis by (rule tb_conseq) (use assms(7) in \<open>auto simp: interactive_def\<close>)
qed

section \<open>The primitives\<close>

lemma taken_by_shape: "gt f \<noteq> EQZ \<Longrightarrow> gt f \<noteq> ColumnSumsToNodes \<Longrightarrow> taken_by f = []"
  by (simp add: taken_by_def)

lemmas shape_simps = shape1_def shape2_def gate_ctors check_def tag_of_def is_ar_def elem_of_def bits_only_def
  taken_by_shape interactive_type_def Let_def

lemma made_level: "made nb n U c c' r t l \<Longrightarrow> l = l' \<Longrightarrow> made nb n U c c' r t l'"
  by simp

lemma tb_local:
  assumes "wok nb n U c w (Ar e n m) l"
  shows "0 < k \<Longrightarrow> k \<le> n \<Longrightarrow> tb nb n k U {} c (propagate_1 w) (\<lambda>r c'. made nb n U c c' r (Ar Any n None) l)"
    "tb nb n k U {} c (gather_1 w) (\<lambda>r c'. made nb n U c c' r (Ar Any n None) l)"
    "k \<le> n \<Longrightarrow> tb nb n k U {} c (gather_2 w) (\<lambda>r c'. made nb n U c c' r (Ar Any n None) l)"
    "tb nb n k U {} c (flip_SIMD w) (\<lambda>r c'. made nb n U c c' r (Ar (bits_only e) n None) l)"
    "tb nb n k U {} c (add_const_SIMD w v) (\<lambda>r c'. made nb n U c c' r (Ar Any n None) l)"
    "0 < n \<Longrightarrow> tb nb n k U {} c (deduplication_sub w) (\<lambda>r c'. made nb n U c c' r (Ar Any (n - 1) None) l)"
  unfolding propagate_1_def gather_1_def gather_2_def flip_SIMD_def add_const_SIMD_def deduplication_sub_def
  by (rule tb_shape1[OF assms adds_gate(1)]; simp add: shape_simps)+

lemma tb_remove:
  assumes "wok nb n U c w (Ar e n m) l" "k \<le> n"
  shows "tb nb n k U {} c (new_gate (\<lambda>c i out. Gate3 (c_raw c) RemoveEdgeData i w out k))
     (\<lambda>r c'. made nb n U c c' r (Ar Any n None) l)"
  by (rule tb_shape1[OF assms(1) adds_gate(1)]; simp add: shape_simps assms(2))

lemma tb_insert:
  assumes "wok nb n U c w (Ar e l' m) l"
  shows "tb nb n k U {} c (deduplication_insert w) (\<lambda>r c'. made nb n U c c' r (Ar (bits_only e) (l' + 1) None) l)"
  unfolding deduplication_insert_def by (rule tb_shape1[OF assms adds_gate(1)]; simp add: shape_simps)

lemma tb_reveal:
  assumes "wok nb n U c w (Ar Prm n (Some s)) l"
  shows "tb nb n k U {} c (c_reveal w) (\<lambda>r c'. made nb n U c c' r (Pub s) (l + 1))"
  unfolding c_reveal_def by (rule tb_shape1[OF assms adds_gate(1)]; simp add: shape_simps)

lemma tb_shuffles:
  shows "wok nb n U c w (Ar e n m) l \<Longrightarrow>
      tb nb n k U {} c (c_shuffle w s) (\<lambda>r c'. made nb n U c c' r (Ar e n (Some s)) (l + 1))"
    "wok nb n U c w (Ar e n (Some s)) l \<Longrightarrow>
      tb nb n k U {} c (c_unshuffle w s) (\<lambda>r c'. made nb n U c c' r (Ar e n None) (l + 1))"
  unfolding c_shuffle_def c_unshuffle_def by (erule tb_shape1[OF _ adds_gate(2)]; simp add: shape_simps)+

lemma tb_merged:
  assumes "wok nb n U c w (Ar e n (Some p)) l" "wok nb n U c v (Pub om) l'" "l' \<le> l"
  shows "tb nb n k U {} c (merged_shuffle w s p om) (\<lambda>r c'. made nb n U c c' r (Ar e n (Some om)) (l + 1))"
proof (cases "csound nb n k U c")
  case True
  let ?f = "Gate5 (c_raw c) MergedShuffle (n_wires c) w (n_wires c) s p om"
  have f: "gt ?f = MergedShuffle" "g_id ?f = n_wires c" "out_idx ?f = n_wires c" "in1_idx ?f = w" "in2_idx ?f = 0"
    "pi_idx ?f = p" "omega_idx ?f = om" by (simp_all add: gate_ctors)
  have len: "n_wires c = length (gates c)" using True by (rule csound_len)
  have t: "tag_at (tags nb n (gates c)) w = Ar e n (Some p)" using wok_tag[OF assms(1) refl] .
  have "v < length (gates c)" "tags nb n (gates c) ! v = Pub om" "level_of (gates c) ! v \<le> level_of (gates c) ! w"
    using assms len by (auto simp: wok_def wtag_def tag_at_def)
  then have ch: "check n k (tags nb n (gates c)) (level_of (gates c)) ?f"
    using f t by (auto simp: check_def)
  have w: "w < n_wires c" "w \<notin> U" "w \<notin> taken (gates c)" using assms(1) by (simp_all add: wok_def)
  have tk: "taken_by ?f = []" using f(1) by (simp add: taken_by_def)
  have "adm nb n k U c ?f" using w ch f tk by (simp add: adm_def gate_ok_def counted_def)
  then have "tb nb n k U {} c (merged_shuffle w s p om)
     (\<lambda>r c'. r = n_wires c \<and> n_wires c' = Suc r \<and> made nb n U c c' r (Ar e n (Some om)) (l + (if interactive ?f then 1 else 0)))"
    unfolding merged_shuffle_def
    by (intro tb_adds)
      (use adds_gate(2)[OF len] f(1,4,5,7) tk lev_zero[OF True] wok_lev[OF assms(1) len] wok_tag[OF assms(1)]
        in \<open>simp_all add: tag_of_def elem_of_def\<close>)
  then show ?thesis by (rule tb_conseq) (auto simp: interactive_def interactive_type_def f(1))
qed (simp add: tb_def)

lemma tb_triples:
  shows "wok nb n U c w (Ar Bit n m) l \<Longrightarrow>
      tb nb n k U {} c (compaction w) (\<lambda>r c'. made nb n U c c' r (Ar Prm n None) (l + 1))"
    "wok nb n U c w Bn l \<Longrightarrow> sz \<le> n \<Longrightarrow>
      tb nb n k U {} c (bit2A w sz) (\<lambda>r c'. made nb n U c c' r (Ar Bit n None) (l + 1))"
    "wok nb n U c w (Ar e l' m) l \<Longrightarrow> sz \<le> l' \<Longrightarrow> sz \<le> n \<Longrightarrow> free c w \<Longrightarrow>
      tb nb n k U {w} c (equals_zero_layer w sz 0) (\<lambda>r c'. made nb n U c c' r (Pt 0 sz) (l + 1))"
    "wok nb n U c w (Pt j sz) l \<Longrightarrow> j < 3 \<Longrightarrow> sz \<le> n \<Longrightarrow>
      tb nb n k U {} c (equals_zero_layer w sz (Suc j)) (\<lambda>r c'. made nb n U c c' r (Pt (Suc j) sz) (l + 1))"
    "wok nb n U c w (Pt 3 sz) l \<Longrightarrow> sz \<le> n \<Longrightarrow>
      tb nb n k U {} c (equals_zero_layer w sz 4) (\<lambda>r c'. made nb n U c c' r Bn (l + 1))"
  unfolding compaction_def bit2A_def equals_zero_layer_def
  by (erule tb_shape1[OF _ adds_gate(3)]; simp add: shape_simps taken_by_def)+

lemma tb_permutes:
  assumes "wok nb n U c p (Pub s) lp"
  shows "wok nb n U c w (Ar e n m) l \<Longrightarrow>
      tb nb n k U {} c (permute w p) (\<lambda>r c'. made nb n U c c' r (Ar (bits_only e) n None) (max l lp))"
    "wok nb n U c w (Ar e l' m) l \<Longrightarrow> n \<le> l' \<Longrightarrow> e = Prm \<longrightarrow> l' = n \<Longrightarrow>
      tb nb n k U {} c (reverse_permute w p) (\<lambda>r c'. made nb n U c c' r (Ar e n (Some s)) (max l lp))"
  unfolding permute_def reverse_permute_def
  by (erule tb_shape2[OF _ assms adds_gate(1)]; simp add: shape_simps)+

lemma tb_sums:
  assumes "wok nb n U c w1 (Ar e1 n m1) l1" "wok nb n U c w2 (Ar e2 n m2) l2" "0 < w2"
  shows "tb nb n k U {} c (add_SIMD w1 w2) (\<lambda>r c'. made nb n U c c' r (Ar Any n None) (max l1 l2))"
    "tb nb n k U {} c (sub_SIMD w1 w2) (\<lambda>r c'. made nb n U c c' r (Ar Any n None) (max l1 l2))"
    "tb nb n k U {} c (propagate_2 w1 w2) (\<lambda>r c'. made nb n U c c' r (Ar Any n None) (max l1 l2))"
  unfolding add_SIMD_def sub_SIMD_def propagate_2_def
  by (rule tb_shape2[OF assms(1,2) adds_gate(1)]; use assms(3) in \<open>simp add: shape_simps\<close>)+

lemma tb_and:
  assumes "wok nb n U c w1 Bn l1" "wok nb n U c w2 Bn l2" "sz \<le> n"
  shows "tb nb n k U {} c (mul_SIMD w1 w2 sz True) (\<lambda>r c'. made nb n U c c' r Bn (max l1 l2 + 1))"
  unfolding mul_SIMD_def
  by (rule tb_shape2[OF assms(1,2) adds_gate(3)]; use assms(3) in \<open>simp add: shape_simps\<close>)

lemma tb_input:
  assumes "n_wires c < input_count nb (columns c)"
  shows "tb nb n k U {} c c_input (\<lambda>r c'. r = n_wires c \<and> n_wires c' = Suc r \<and>
     made nb n U c c' r (Ar (if bit_input nb r then Bit else Any) n None) 0)"
proof (cases "csound nb n k U c")
  case True
  let ?f = "Gate_in Input (n_wires c) (n_wires c)"
  have "adm nb n k U c ?f" using assms by (simp add: adm_def gate_ctors gate_ok_def check_def counted_def taken_by_def)
  moreover have "adds c c_input ?f" unfolding c_input_def by (rule adds_gate(1)[OF csound_len[OF True]])
  ultimately have "tb nb n k U {} c c_input (\<lambda>r c'. r = n_wires c \<and> n_wires c' = Suc r \<and>
     made nb n U c c' r (Ar (if bit_input nb (n_wires c) then Bit else Any) n None) (0 + (if interactive ?f then 1 else 0)))"
    by (intro tb_adds) (use lev_zero[OF True] in \<open>simp_all add: gate_ctors tag_of_def taken_by_def\<close>)
  then show ?thesis by (rule tb_conseq) (auto simp: interactive_def interactive_type_def gate_ctors)
qed (simp add: tb_def)

lemma tb_const_vec:
  assumes "length vs \<le> n"
  shows "tb nb n k U {} c (set_const_vec_SIMD vs) (\<lambda>r c'. made nb n U c c' r (Ar Any n None) 0)"
proof (cases "csound nb n k U c")
  case True
  let ?f = "Gate_vec SetConstVecSIMD (n_wires c) vs (n_wires c)"
  have "adm nb n k U c ?f" using assms by (simp add: adm_def gate_ctors gate_ok_def check_def counted_def taken_by_def)
  moreover have "adds c (set_const_vec_SIMD vs) ?f"
    unfolding set_const_vec_SIMD_def by (rule adds_gate(1)[OF csound_len[OF True]])
  ultimately have "tb nb n k U {} c (set_const_vec_SIMD vs) (\<lambda>r c'. r = n_wires c \<and> n_wires c' = Suc r \<and>
     made nb n U c c' r (Ar Any n None) (0 + (if interactive ?f then 1 else 0)))"
    by (intro tb_adds) (use lev_zero[OF True] in \<open>simp_all add: gate_ctors tag_of_def taken_by_def\<close>)
  then show ?thesis by (rule tb_conseq) (auto simp: interactive_def interactive_type_def gate_ctors)
qed (simp add: tb_def)

lemma tb_columns:
  assumes "ws \<noteq> []" "k \<le> n" "k \<le> length ws"
    "\<And>w. w \<in> set ws \<Longrightarrow> free c w \<and> (\<exists>e m. wok nb n U c w (Ar e n m) l)"
  shows "tb nb n k U (set ws) c (lib_column_sums_to_nodes ws) (\<lambda>r c'. made nb n U c c' r (Ar Any n None) l)"
proof (cases "csound nb n k U c")
  case True
  let ?f = "Gate_cols ColumnSumsToNodes (n_wires c) (last ws) (n_wires c) ws"
  have f: "gt ?f = ColumnSumsToNodes" "in1_idx ?f = last ws" "in2_idx ?f = 0" "data_parallel ?f = ws"
    "g_id ?f = n_wires c" "out_idx ?f = n_wires c" by (simp_all add: gate_ctors)
  have len: "n_wires c = length (gates c)" using True by (rule csound_len)
  have ws: "w < n_wires c \<and> w \<notin> U \<and> w \<notin> taken (gates c) \<and> lev c w = l \<and>
      level_of (gates c) ! w = l \<and> is_ar n (tag_at (tags nb n (gates c)) w)" if v: "w \<in> set ws" for w
  proof -
    obtain e m where w: "wok nb n U c w (Ar e n m) l" using assms(4)[OF v] by blast
    show ?thesis using w wok_lev[OF w len] wok_tag[OF w refl] by (simp add: wok_def is_ar_def)
  qed
  have last: "last ws \<in> set ws" using assms(1) by simp
  have "adm nb n k U c ?f"
    using ws[OF last] ws assms(2,3,4) f by (auto simp: adm_def gate_ok_def check_def counted_def taken_by_def list_all_iff)
  moreover have "adds c (lib_column_sums_to_nodes ws) ?f"
    unfolding lib_column_sums_to_nodes_def column_sums_to_nodes_internal_def by (rule adds_gate(1)[OF len])
  ultimately have "tb nb n k U (set ws) c (lib_column_sums_to_nodes ws) (\<lambda>r c'. r = n_wires c \<and> n_wires c' = Suc r \<and>
     made nb n U c c' r (Ar Any n None) (l + (if interactive ?f then 1 else 0)))"
    by (intro tb_adds) (use lev_zero[OF True] ws[OF last] f in \<open>simp_all add: tag_of_def taken_by_def\<close>)
  then show ?thesis by (rule tb_conseq) (auto simp: interactive_def interactive_type_def f)
qed (simp add: tb_def)

definition has_output :: "circuit \<Rightarrow> bool" where
  "has_output c \<longleftrightarrow> (\<exists>f \<in> set (gates c). gt f = Output)"

lemma tb_output:
  assumes "wok nb n U c w (Ar e n m) l"
  shows "tb nb n k U {} c (c_output w) (\<lambda>_ c'. has_output c')"
proof (cases "csound nb n k U c")
  case True
  let ?f = "Gate_unary Output (n_wires c) w (n_wires c)"
  let ?c = "c\<lparr>n_wires := n_wires c + 1, gates := gates c @ [?f]\<rparr>"
  have len: "n_wires c = length (gates c)" using True by (rule csound_len)
  have "adm nb n k U c ?f"
    using assms wok_tag[OF assms refl]
    by (simp add: adm_def gate_ctors gate_ok_def check_def counted_def taken_by_def is_ar_def wok_def)
  note add = csound_add[OF True this, of ?c]
  have "run_state (c_output w) c = ((), ?c)"
    by (simp add: c_output_def new_gate_def State_Monad.bind_def State_Monad.return_def Let_def len)
  moreover have "taken_by ?f = []" by (simp add: gate_ctors taken_by_def)
  moreover have "has_output ?c" by (simp add: has_output_def gate_ctors)
  ultimately show ?thesis using add(1,2) by (simp add: tb_def ext_def)
qed (simp add: tb_def)

section \<open>Operations of several gates\<close>

lemma made_wok: "made nb n U c c' r t l \<Longrightarrow> wok nb n U c' r t l"
  by (simp add: made_def)

lemma made_start: "step c c' \<Longrightarrow> made nb n U c' c'' r t l \<Longrightarrow> made nb n U c c'' r t l"
  using step_le[of c c'] by (auto simp: made_def)

lemma made_pos: "made nb n U c c' r t l \<Longrightarrow> wok nb n U c w t' l' \<Longrightarrow> 0 < r"
  by (auto simp: made_def wok_def)

lemma made_free: "made nb n U c c' r t l \<Longrightarrow> wok nb n U c w t' l' \<Longrightarrow> free c' r"
  by (auto simp: made_def wok_def)

lemma tb_next_idx: "tb nb n k U {} c next_shuffle_idx (\<lambda>_ c'. gates c' = gates c \<and> n_wires c' = n_wires c)"
  by (auto simp: tb_def next_shuffle_idx_def update_c_def csound_def free_def grow_def ext_def)

lemma same_gates:
  assumes "gates c' = gates c \<and> n_wires c' = n_wires c"
  shows "made nb n U c0 c r t l \<Longrightarrow> made nb n U c0 c' r t l" "wok nb n U c w t l \<Longrightarrow> wok nb n U c' w t l"
    "free c w \<Longrightarrow> free c' w"
  using assms by (simp_all add: made_def wok_def free_def)

lemmas tb_steps = tb_then_get tb_then_shuffle_idx tb_local[THEN tb_seq] tb_insert[THEN tb_seq] tb_reveal[THEN tb_seq]
  tb_shuffles[THEN tb_seq] tb_merged[THEN tb_seq] tb_triples(1,2)[THEN tb_seq] tb_permutes[THEN tb_seq]
  tb_sums[THEN tb_seq] tb_and[THEN tb_seq] tb_next_idx[THEN tb_seq]

lemma tb_sort_iteration:
  assumes "wok nb n U c p (Ar Prm n m) lp" "wok nb n U c w (Ar Bit n m') lk"
  shows "tb nb n k U {} c (sort_iteration p w) (\<lambda>r c'. made nb n U c c' r (Ar Prm n None) (max (lk + 3) (lp + 4)))"
  unfolding sort_iteration_def
  apply (rule tb_then_shuffle_idx)
  apply (rule tb_shuffles(1)[OF assms(1), THEN tb_seq])
  apply (rule tb_shuffles(1)[THEN tb_seq], erule step_wok, rule assms(2))
  apply (rule tb_reveal[THEN tb_seq], (erule made_wok | erule step_wok)+)
  apply (rule tb_permutes(1)[THEN tb_seq], (erule made_wok | erule step_wok)+)
  apply (simp only: bits_only_def simp_thms if_True)
  apply (rule tb_triples(1)[THEN tb_seq], (erule made_wok | erule step_wok)+)
  apply (rule tb_permutes(2)[THEN tb_seq], (erule made_wok | erule step_wok)+, simp, simp)
  apply (rule tb_shuffles(2)[THEN tb_seq], (erule made_wok | erule step_wok)+)
  apply (rule tb_next_idx[THEN tb_seq])
  apply (rule tb_return, rule made_level, erule same_gates, (assumption | erule made_start)+)
  apply (simp add: max_def)
  done

text \<open>A first part that uses up wires.\<close>

lemma tb_use:
  assumes "tb nb n k U S c m Q"
    and "\<And>r c'. csound nb n k U c' \<Longrightarrow> n_wires c \<le> n_wires c' \<Longrightarrow> Q r c' \<Longrightarrow> tb nb n k U {} c' (f r) R"
  shows "tb nb n k U S c (State_Monad.bind m f) R"
  using tb_bind[OF assms(1), of "{}" f R] assms(2) by (simp add: grow_def)

lemma made_later: "n_wires c \<le> n_wires c' \<Longrightarrow> made nb n U c' c'' r t l \<Longrightarrow> made nb n U c c'' r t l"
  by (auto simp: made_def)

lemma tb_eqz_layers:
  assumes "sz \<le> n"
  shows "wok nb n U c w (Pt 0 sz) l \<Longrightarrow> tb nb n k U {} c (equals_zero_layer w sz 1) (\<lambda>r c'. made nb n U c c' r (Pt 1 sz) (l + 1))"
    "wok nb n U c w (Pt 1 sz) l \<Longrightarrow> tb nb n k U {} c (equals_zero_layer w sz 2) (\<lambda>r c'. made nb n U c c' r (Pt 2 sz) (l + 1))"
    "wok nb n U c w (Pt 2 sz) l \<Longrightarrow> tb nb n k U {} c (equals_zero_layer w sz 3) (\<lambda>r c'. made nb n U c c' r (Pt 3 sz) (l + 1))"
    "wok nb n U c w (Pt 3 sz) l \<Longrightarrow> tb nb n k U {} c (equals_zero_layer w sz 4) (\<lambda>r c'. made nb n U c c' r Bn (l + 1))"
  using tb_triples(4)[of nb n U c w _ sz l k] tb_triples(5)[of nb n U c w sz l k] assms
  by (simp_all add: numeral_eq_Suc)

lemma tb_equals_zero:
  assumes "wok nb n U c w (Ar e l' m) l" "sz \<le> l'" "sz \<le> n" "free c w"
  shows "tb nb n k U {w} c (equals_zero w sz) (\<lambda>r c'. made nb n U c c' r Bn (l + 5))"
  unfolding equals_zero_def
  apply (rule tb_triples(3)[THEN tb_use, OF assms])
  apply (rule tb_eqz_layers(1)[OF assms(3), THEN tb_seq], (erule made_wok | erule step_wok)+)
  apply (rule tb_eqz_layers(2)[OF assms(3), THEN tb_seq], (erule made_wok | erule step_wok)+)
  apply (rule tb_eqz_layers(3)[OF assms(3), THEN tb_seq], (erule made_wok | erule step_wok)+)
  apply (rule tb_eqz_layers(4)[OF assms(3), THEN tb_seq], (erule made_wok | erule step_wok)+)
  apply (rule tb_return, rule made_level, erule made_later, (assumption | erule made_start)+)
  apply simp
  done

lemma tb_clip:
  assumes "wok nb n U c w (Ar e n m) l" "k \<le> n" "free c w"
  shows "tb nb n k U {w} c (clip_SIMD w) (\<lambda>(r, _) c'. made nb n U c c' r (Ar Bit n None) (l + 6))"
proof -
  have "tb nb n k U {w} c (clip_SIMD w) (\<lambda>(r, _) c'. made nb n U c c' r (Ar Bit n None) (l + 6))"
    if k: "c_nodes c = k"
    unfolding clip_SIMD_def
    apply (rule tb_then_get)
    unfolding k
    apply (rule tb_equals_zero[THEN tb_use, OF assms(1,2,2,3)])
    apply (rule tb_triples(2)[THEN tb_seq], (erule made_wok | erule step_wok)+, rule assms(2))
    apply (rule tb_local(4)[THEN tb_seq], (erule made_wok | erule step_wok)+)
    apply (simp only: bits_only_def simp_thms if_True)
    apply (rule tb_return, simp only: prod.case, rule made_level, erule made_later, (assumption | erule made_start)+)
    apply simp
    done
  then show ?thesis by (auto simp: tb_def csound_def)
qed

section \<open>Sorting\<close>

lemma tbI: "(csound nb n k U c \<Longrightarrow> tb nb n k U S c m Q) \<Longrightarrow> tb nb n k U S c m Q"
  by (auto simp: tb_def)

lemma step_refl: "csound nb n k U c \<Longrightarrow> step c c"
  by (simp add: step_def csound_def)

lemma step_trans: "step c c' \<Longrightarrow> step c' c'' \<Longrightarrow> step c c''"
  unfolding step_def using ext_trans grow_trans[of "{}" c c' "{}" c''] by auto

lemma tb_step:
  assumes "tb nb n k U {} c m Q"
  shows "tb nb n k U {} c m (\<lambda>r c'. step c c' \<and> Q r c')"
  using assms by (auto simp: tb_def step_def csound_def split: prod.splits)

lemma tb_fold:
  assumes "I b c" "\<And>x b c'. x \<in> set xs \<Longrightarrow> csound nb n k U c' \<Longrightarrow> step c c' \<Longrightarrow> I b c' \<Longrightarrow> tb nb n k U {} c' (f x b) I"
  shows "tb nb n k U {} c (fold_build f xs b) I"
  using assms
proof (induction xs arbitrary: b c)
  case Nil
  then show ?case by (simp add: tb_return)
next
  case (Cons x xs)
  have "tb nb n k U {} c (State_Monad.bind (f x b) (fold_build f xs)) I"
  proof (rule tbI, rule tb_seq)
    assume cs: "csound nb n k U c"
    show "tb nb n k U {} c (f x b) I" using Cons.prems cs step_refl[OF cs] by simp
    fix r c' assume "step c c'" "I r c'"
    then show "tb nb n k U {} c' (fold_build f xs r) I"
      using Cons.IH[of r c'] Cons.prems(2) step_trans by (metis list.set_intros(2))
  qed
  then show ?case by simp
qed

text \<open>The level of a sorting permutation, from those of the keys.\<close>

definition order_level :: "(nat \<Rightarrow> nat) \<Rightarrow> nat list \<Rightarrow> nat \<Rightarrow> nat" where
  "order_level lk xs lp = foldl (\<lambda>l b. max (lk b + 3) (l + 4)) lp xs"

lemma tb_sort_fold:
  assumes "\<And>b. b \<in> set xs \<Longrightarrow> wok nb n U c (keys ! b) (Ar Bit n None) (lk b)" "wok nb n U c p (Ar Prm n None) lp"
  shows "tb nb n k U {} c (fold_build (\<lambda>bit p. sort_iteration p (keys ! bit)) xs p)
           (\<lambda>r c'. wok nb n U c' r (Ar Prm n None) (order_level lk xs lp))"
  using assms
proof (induction xs arbitrary: p c lp)
  case Nil
  then show ?case by (simp add: tb_return order_level_def)
next
  case (Cons x xs)
  have "tb nb n k U {} c (State_Monad.bind (sort_iteration p (keys ! x)) (fold_build (\<lambda>bit p. sort_iteration p (keys ! bit)) xs))
      (\<lambda>r c'. wok nb n U c' r (Ar Prm n None) (order_level lk (x # xs) lp))"
  proof (rule tb_seq)
    show "tb nb n k U {} c (sort_iteration p (keys ! x)) (\<lambda>r c'. made nb n U c c' r (Ar Prm n None) (max (lk x + 3) (lp + 4)))"
      using Cons.prems by (intro tb_sort_iteration) auto
    fix r c' assume "step c c'" "made nb n U c c' r (Ar Prm n None) (max (lk x + 3) (lp + 4))"
    then show "tb nb n k U {} c' (fold_build (\<lambda>bit p. sort_iteration p (keys ! bit)) xs r)
        (\<lambda>r c'. wok nb n U c' r (Ar Prm n None) (order_level lk (x # xs) lp))"
      using Cons.IH[of c' r "max (lk x + 3) (lp + 4)"] Cons.prems(1) step_wok made_wok
      by (simp add: order_level_def)
  qed
  then show ?case by simp
qed

lemma tb_sort:
  assumes "\<And>b. b < m \<Longrightarrow> wok nb n U c (keys ! b) (Ar Bit n None) (lk b)" "0 < m"
  shows "tb nb n k U {} c (c_sort keys m)
           (\<lambda>r c'. wok nb n U c' r (Ar Prm n None) (order_level lk [1..<m] (lk 0 + 1)))"
  unfolding c_sort_def
  by (rule tb_triples(1)[THEN tb_seq], rule assms(1)[OF assms(2)])
    (use assms step_wok made_wok in \<open>auto intro!: tb_sort_fold\<close>)

section \<open>Wires kept for later\<close>

lemma wok_less: "wok nb n (V \<union> U) c w t l \<Longrightarrow> wok nb n U c w t l"
  by (simp add: wok_def)

lemma wok_more: "wok nb n U c w t l \<Longrightarrow> w \<notin> V \<Longrightarrow> wok nb n (V \<union> U) c w t l"
  by (simp add: wok_def)

lemma tb_protect:
  assumes "tb nb n k (V \<union> U) S c m Q" "\<forall>v \<in> V. free c v"
  shows "tb nb n k U S c m (\<lambda>r c'. Q r c' \<and> (\<forall>v \<in> V. free c' v))"
  using assms by (auto simp: tb_def csound_def split: prod.splits)

lemma tb_new:
  assumes "tb nb n k U {n_wires c..} c m Q"
  shows "tb nb n k U {} c m Q"
  using assms by (auto simp: tb_def grow_def split: prod.splits)

text \<open>Two zero tests of differences, as \<open>pre_mp\<close> has them.\<close>

definition zero_tests :: "wire_id \<Rightarrow> wire_id \<Rightarrow> nat \<Rightarrow> (wire_id \<times> wire_id) build" where
  "zero_tests a b sz = do {
     x \<leftarrow> deduplication_sub a;
     y \<leftarrow> deduplication_sub b;
     x \<leftarrow> equals_zero x sz;
     y \<leftarrow> equals_zero y sz;
     State_Monad.return (x, y) }"

lemma zero_tests_bind:
  "State_Monad.bind (deduplication_sub a) (\<lambda>x. State_Monad.bind (deduplication_sub b) (\<lambda>y.
     State_Monad.bind (equals_zero x sz) (\<lambda>x. State_Monad.bind (equals_zero y sz) (f x)))) =
   State_Monad.bind (zero_tests a b sz) (\<lambda>(x, y). f x y)"
  by (simp add: zero_tests_def State_Monad.bind_def State_Monad.return_def fun_eq_iff split: prod.splits)

lemma tb_zero_tests:
  assumes "wok nb n U c a (Ar e1 n m1) l1" "wok nb n U c b (Ar e2 n m2) l2" "0 < n"
  shows "tb nb n k U {} c (zero_tests a b (n - 1))
     (\<lambda>(x, y) c'. wok nb n U c' x Bn (l1 + 5) \<and> wok nb n U c' y Bn (l2 + 5))"
proof (rule tb_new)
  let ?N = "{n_wires c..}"
  show "tb nb n k U ?N c (zero_tests a b (n - 1))
     (\<lambda>(x, y) c'. wok nb n U c' x Bn (l1 + 5) \<and> wok nb n U c' y Bn (l2 + 5))"
    unfolding zero_tests_def
  proof (rule tb_seq, rule tb_local(6)[OF assms(1,3)])
    fix x c1 assume c1: "csound nb n k U c1" "step c c1" "made nb n U c c1 x (Ar Any (n - 1) None) l1"
    have x: "free c1 x" "wok nb n U c1 x (Ar Any (n - 1) None) l1" "n_wires c \<le> x"
      using made_free[OF c1(3) assms(1)] c1(3) by (simp_all add: made_def)
    have b: "wok nb n ({x} \<union> U) c1 b (Ar e2 n m2) l2"
      using wok_more[OF step_wok[OF c1(2) assms(2)], of "{x}"] assms(2) x(3) by (auto simp: wok_def)
    show "tb nb n k U ?N c1 (State_Monad.bind (deduplication_sub b) (\<lambda>y. do {
         x \<leftarrow> equals_zero x (n - 1); y \<leftarrow> equals_zero y (n - 1); State_Monad.return (x, y) }))
        (\<lambda>(x, y) c'. wok nb n U c' x Bn (l1 + 5) \<and> wok nb n U c' y Bn (l2 + 5))"
    proof (rule tb_seq, rule tb_protect[where V = "{x}"], rule tb_local(6)[OF b assms(3)])
      fix y c2 assume c2: "csound nb n k U c2" "step c1 c2"
        "made nb n ({x} \<union> U) c1 c2 y (Ar Any (n - 1) None) l2 \<and> (\<forall>v \<in> {x}. free c2 v)"
      have y: "free c2 y" "wok nb n U c2 y (Ar Any (n - 1) None) l2" "n_wires c1 \<le> y" "y \<noteq> x"
        using made_free[OF _ b] c2(3) x(2) by (auto simp: made_def wok_def)
      have x2: "wok nb n ({y} \<union> U) c2 x (Ar Any (n - 1) None) l1" "free c2 x"
        using wok_more[OF step_wok[OF c2(2) x(2)], of "{y}"] y(4) c2(3) by auto
      have ny: "n_wires c \<le> y" using step_le[OF c1(2)] y(3) by simp
      have "tb nb n k U ({x} \<union> {y}) c2 (do { x \<leftarrow> equals_zero x (n - 1); y \<leftarrow> equals_zero y (n - 1); State_Monad.return (x, y) })
        (\<lambda>(x, y) c'. wok nb n U c' x Bn (l1 + 5) \<and> wok nb n U c' y Bn (l2 + 5))"
      proof (rule tb_bind, rule tb_protect[where V = "{y}"], rule tb_equals_zero[OF x2(1) _ _ x2(2)])
        show "\<forall>v \<in> {y}. free c2 v" using y(1) by simp
        fix x' c3 assume c3: "csound nb n k U c3" "grow {x} c2 c3"
          "made nb n ({y} \<union> U) c2 c3 x' Bn (l1 + 5) \<and> (\<forall>v \<in> {y}. free c3 v)" "csound nb n k U c2"
        have y3: "wok nb n U c3 y (Ar Any (n - 1) None) l2" "free c3 y"
          using wok_grow[OF c3(2) _ csound_len[OF c3(4)] y(2)] y(4) c3(3) by auto
        have x3: "wok nb n U c3 x' Bn (l1 + 5)" "x' \<noteq> y" using c3(3) by (auto simp: made_def wok_def)
        show "tb nb n k U {y} c3 (do { y \<leftarrow> equals_zero y (n - 1); State_Monad.return (x', y) })
          (\<lambda>(x, y) c'. wok nb n U c' x Bn (l1 + 5) \<and> wok nb n U c' y Bn (l2 + 5))"
        proof (rule tb_bind[where T = "{}", simplified Un_empty_right], rule tb_equals_zero[OF y3(1) _ _ y3(2)])
          fix y' c4 assume c4: "csound nb n k U c3" "grow {y} c3 c4" "made nb n U c3 c4 y' Bn (l2 + 5)"
          have "wok nb n U c4 x' Bn (l1 + 5)" using wok_grow[OF c4(2) _ csound_len[OF c4(1)] x3(1)] x3(2) by simp
          then show "tb nb n k U {} c4 (State_Monad.return (x', y'))
              (\<lambda>(x, y) c'. wok nb n U c' x Bn (l1 + 5) \<and> wok nb n U c' y Bn (l2 + 5))"
            using made_wok[OF c4(3)] by (intro tb_return) simp
        qed simp_all
      qed simp_all
      then show "tb nb n k U ?N c2 (do { x \<leftarrow> equals_zero x (n - 1); y \<leftarrow> equals_zero y (n - 1); State_Monad.return (x, y) })
        (\<lambda>(x, y) c'. wok nb n U c' x Bn (l1 + 5) \<and> wok nb n U c' y Bn (l2 + 5))"
        by (rule tb_conseq) (use x(3) ny in auto)
    qed (use x(1) in simp)
  qed
qed

end
