(* ===== verification/Phase_Types.thy ===== *)
theory Phase_Types
  imports Build_Types
begin

text \<open>
  The phases of \<open>Circuit::build\<close> make a well-typed circuit, for every algorithm that keeps the
  typed contract of the locale \<open>typed_algorithm\<close>.
\<close>

section \<open>Phases\<close>

definition evolve :: "circuit \<Rightarrow> circuit \<Rightarrow> bool" where
  "evolve c c' \<longleftrightarrow> n_wires c \<le> n_wires c' \<and> c_bits c' = c_bits c \<and> c_depth c' = c_depth c \<and>
     columns c' = columns c \<and> deduplication c' = deduplication c"

lemma evolve_refl [simp]: "evolve c c"
  by (simp add: evolve_def)

lemma evolve_trans: "evolve c c' \<Longrightarrow> evolve c' c'' \<Longrightarrow> evolve c c''"
  by (simp add: evolve_def)

lemma ext_evolve: "ext c c' \<Longrightarrow> evolve c c'"
  by (simp add: evolve_def ext_def)

definition tph :: "nat \<Rightarrow> nat \<Rightarrow> nat \<Rightarrow> circuit \<Rightarrow> 'a build \<Rightarrow> ('a \<Rightarrow> circuit \<Rightarrow> bool) \<Rightarrow> bool" where
  "tph nb n k c m Q \<longleftrightarrow> (csound nb n k {} c \<longrightarrow>
     (case run_state m c of (r, c') \<Rightarrow> csound nb n k {} c' \<and> evolve c c' \<and> Q r c'))"

lemma tphI: "(csound nb n k {} c \<Longrightarrow> tph nb n k c m Q) \<Longrightarrow> tph nb n k c m Q"
  by (auto simp: tph_def)

lemma tph_tb: "tb nb n k {} S c m Q \<Longrightarrow> tph nb n k c m (\<lambda>r c'. ext c c' \<and> grow S c c' \<and> Q r c')"
  by (auto simp: tph_def tb_def ext_evolve split: prod.splits)

lemma tph_conseq:
  "tph nb n k c m Q \<Longrightarrow> (\<And>r c'. csound nb n k {} c' \<Longrightarrow> evolve c c' \<Longrightarrow> Q r c' \<Longrightarrow> R r c') \<Longrightarrow> tph nb n k c m R"
  by (auto simp: tph_def split: prod.splits)

lemma tph_bind:
  assumes "tph nb n k c m Q"
    and "\<And>r c'. csound nb n k {} c \<Longrightarrow> csound nb n k {} c' \<Longrightarrow> evolve c c' \<Longrightarrow> Q r c' \<Longrightarrow> tph nb n k c' (f r) R"
  shows "tph nb n k c (State_Monad.bind m f) R"
proof -
  obtain r c' where m: "run_state m c = (r, c')" by fastforce
  obtain x c'' where f: "run_state (f r) c' = (x, c'')" by fastforce
  have "run_state (State_Monad.bind m f) c = (x, c'')"
    by (simp add: State_Monad.bind_def m f)
  then show ?thesis
    using assms(1) assms(2)[of c' r] m f unfolding tph_def by (auto intro: evolve_trans)
qed

lemma tph_seq:
  assumes "tb nb n k {} {} c m Q"
    and "\<And>r c'. csound nb n k {} c' \<Longrightarrow> step c c' \<Longrightarrow> Q r c' \<Longrightarrow> tph nb n k c' (f r) R"
  shows "tph nb n k c (State_Monad.bind m f) R"
  by (rule tph_bind[OF tph_tb[OF assms(1)]]) (use assms(2) in \<open>simp add: step_def csound_def\<close>)

lemma tph_return: "Q x c \<Longrightarrow> tph nb n k c (State_Monad.return x) Q"
  by (simp add: tph_def State_Monad.return_def)

lemma tph_then_get: "tph nb n k c (f (g c)) R \<Longrightarrow> tph nb n k c (State_Monad.bind (get_c g) f) R"
  by (simp add: tph_def get_c_def State_Monad.bind_def)

lemma tph_then_shuffle_idx:
  "tph nb n k c (f (shuffle_idx c)) R \<Longrightarrow> tph nb n k c (State_Monad.bind get_shuffle_idx f) R"
  unfolding get_shuffle_idx_def by (rule tph_then_get)

text \<open>Recording wires in the object changes no gate.\<close>

definition records :: "circuit \<Rightarrow> circuit \<Rightarrow> bool" where
  "records c c' \<longleftrightarrow> gates c' = gates c \<and> n_wires c' = n_wires c \<and> c_bits c' = c_bits c \<and>
     c_size c' = c_size c \<and> c_nodes c' = c_nodes c \<and> c_depth c' = c_depth c \<and>
     columns c' = columns c \<and> deduplication c' = deduplication c"

lemma records_csound: "records c c' \<Longrightarrow> csound nb n k U c' = csound nb n k U c"
  by (simp add: records_def csound_def free_def)

lemma records_wok: "records c c' \<Longrightarrow> wok nb n U c' w t l = wok nb n U c w t l"
  by (simp add: records_def wok_def)

lemma records_evolve: "records c c' \<Longrightarrow> evolve c c'"
  by (simp add: records_def evolve_def)

lemma records_ctx: "records c (c\<lparr>ctx := x\<rparr>)" "records c (c\<lparr>inp := i\<rparr>)" "records c (c\<lparr>shuffle_idx := s\<rparr>)"
  "records c (set_parallel j w c)" "records c (push_order_bit w c)" "records c (lock_options c)"
  by (simp_all add: records_def set_parallel_def push_order_bit_def lock_options_def)

lemma tph_update:
  assumes "records c (f c)" "csound nb n k {} c \<Longrightarrow> Q () (f c)"
  shows "tph nb n k c (update_c f) Q"
  using assms records_csound records_evolve by (auto simp: tph_def update_c_def)

lemma tph_then_update:
  assumes "records c (f c)" "csound nb n k {} (f c) \<Longrightarrow> tph nb n k (f c) (g ()) R"
  shows "tph nb n k c (State_Monad.bind (update_c f) g) R"
proof (rule tph_bind)
  show "tph nb n k c (update_c f) (\<lambda>_ c'. c' = f c)" using assms(1) by (rule tph_update) simp
qed (use assms(2) in simp)

section \<open>Inputs\<close>

abbreviation bit_tag :: "nat \<Rightarrow> tag" where "bit_tag n \<equiv> Ar Bit n None"
abbreviation any_tag :: "nat \<Rightarrow> tag" where "any_tag n \<equiv> Ar Any n None"
abbreviation order_tag :: "nat \<Rightarrow> tag" where "order_tag n \<equiv> Ar Prm n None"

definition keys_t :: "nat \<Rightarrow> nat \<Rightarrow> circuit \<Rightarrow> (nat \<Rightarrow> nat) \<Rightarrow> wire_id list \<Rightarrow> bool" where
  "keys_t nb n c lk ws \<longleftrightarrow> (\<forall>b < length ws. wok nb n {} c (ws ! b) (bit_tag n) (lk b))"

text \<open>The recorded inputs, with \<open>m\<close> sorting bits on both sides, whose levels are \<open>lk\<close>.\<close>

definition inputs_t :: "nat \<Rightarrow> nat \<Rightarrow> nat \<Rightarrow> (nat \<Rightarrow> nat) \<Rightarrow> circuit \<Rightarrow> bool" where
  "inputs_t nb n m lk c \<longleftrightarrow>
     length (i_src_order_bits (inp c)) = m \<and> length (i_dst_order_bits (inp c)) = m \<and>
     keys_t nb n c lk (i_src_order_bits (inp c)) \<and> keys_t nb n c lk (i_dst_order_bits (inp c)) \<and>
     wok nb n {} c (i_src (inp c)) (any_tag n) 0 \<and> wok nb n {} c (i_dst (inp c)) (any_tag n) 0 \<and>
     wok nb n {} c (i_isV (inp c)) (bit_tag n) 0 \<and> wok nb n {} c (i_data (inp c)) (any_tag n) 0 \<and>
     (\<forall>w \<in> set (i_data_parallel (inp c)). wok nb n {} c w (any_tag n) 0) \<and>
     length (i_data_parallel (inp c)) = (if columns c > 1 then columns c else 0)"

definition input_tag :: "nat \<Rightarrow> nat \<Rightarrow> wire_id \<Rightarrow> tag" where
  "input_tag nb n w = Ar (if bit_input nb w then Bit else Any) n None"

lemma tb_input_wire:
  assumes "n_wires c < input_count nb (columns c)"
  shows "tb nb n k {} {} c c_input (\<lambda>r c'. r = n_wires c \<and> n_wires c' = Suc (n_wires c) \<and> wok nb n {} c' r (input_tag nb n r) 0)"
  by (rule tb_conseq[OF tb_input[OF assms]]) (auto simp: made_def input_tag_def)

definition input_wires :: "nat \<Rightarrow> nat \<Rightarrow> circuit \<Rightarrow> bool" where
  "input_wires nb n c \<longleftrightarrow> (\<forall>w < n_wires c. wok nb n {} c w (input_tag nb n w) 0)"

lemma tb_next_input:
  assumes "input_wires nb n c" "n_wires c < input_count nb (columns c)"
  shows "tb nb n k {} {} c c_input (\<lambda>r c'. r = n_wires c \<and> n_wires c' = Suc (n_wires c) \<and> input_wires nb n c')"
  by (rule tb_conseq[OF tb_step[OF tb_input_wire[OF assms(2)]]])
    (use assms(1) step_wok in \<open>auto simp: input_wires_def less_Suc_eq\<close>)

lemma tb_input_list:
  assumes "input_wires nb n c" "n_wires c + m \<le> input_count nb (columns c)"
  shows "tb nb n k {} {} c (input_list m)
     (\<lambda>ws c'. ws = [n_wires c..<n_wires c + m] \<and> n_wires c' = n_wires c + m \<and> input_wires nb n c')"
proof -
  have "tb nb n k {} {} c (fold_build (\<lambda>_ ws. do { w \<leftarrow> c_input; State_Monad.return (ws @ [w]) }) xs ws)
     (\<lambda>ws' c'. ws' = ws @ [n_wires c..<n_wires c + length xs] \<and> n_wires c' = n_wires c + length xs \<and> input_wires nb n c')"
    if "input_wires nb n c" "n_wires c + length xs \<le> input_count nb (columns c)" for xs :: "nat list" and ws c
    using that
  proof (induction xs arbitrary: ws c)
    case Nil
    then show ?case by (simp add: tb_return)
  next
    case (Cons x xs)
    have "tb nb n k {} {} c (do { w \<leftarrow> c_input; State_Monad.return (ws @ [w]) })
        (\<lambda>ws' c'. ws' = ws @ [n_wires c] \<and> n_wires c' = Suc (n_wires c) \<and> input_wires nb n c')"
      by (rule tb_seq[OF tb_next_input[OF Cons.prems(1)]]) (use Cons.prems(2) in \<open>auto intro: tb_return\<close>)
    then have "tb nb n k {} {} c (State_Monad.bind (do { w \<leftarrow> c_input; State_Monad.return (ws @ [w]) })
        (fold_build (\<lambda>_ ws. do { w \<leftarrow> c_input; State_Monad.return (ws @ [w]) }) xs))
        (\<lambda>ws' c'. ws' = ws @ [n_wires c..<n_wires c + length (x # xs)] \<and> n_wires c' = n_wires c + length (x # xs) \<and>
           input_wires nb n c')"
      by (rule tb_seq)
        (rule tb_conseq[OF Cons.IH]; use Cons.prems(2) in \<open>simp add: upt_conv_Cons step_def ext_def del: upt_Suc\<close>)
    then show ?case by simp
  qed
  from this[OF assms(1), of "[0..<m]" "[]"] show ?thesis using assms(2) by (simp add: input_list_def)
qed

lemma input_wire_at:
  assumes "input_wires nb n c" "w < n_wires c"
  shows "bit_input nb w \<Longrightarrow> wok nb n {} c w (bit_tag n) 0" "\<not> bit_input nb w \<Longrightarrow> wok nb n {} c w (any_tag n) 0"
  using assms by (fastforce simp: input_wires_def input_tag_def)+

lemma keys_t_inputs:
  assumes "input_wires nb n c" "u + m \<le> n_wires c" "\<And>w. u \<le> w \<Longrightarrow> w < u + m \<Longrightarrow> bit_input nb w"
  shows "keys_t nb n c (\<lambda>_. 0) [u..<u + m]"
proof -
  have "bit_input nb (u + b)" if "b < m" for b using assms(3) that by simp
  then show ?thesis using input_wire_at(1)[OF assms(1)] assms(2) by (auto simp: keys_t_def)
qed

lemma keys_t_Cons:
  assumes "wok nb n {} c w (bit_tag n) 0" "keys_t nb n c (\<lambda>_. 0) ws"
  shows "keys_t nb n c (\<lambda>_. 0) (w # ws)"
  using assms by (auto simp: keys_t_def nth_Cons split: nat.splits)

lemma keys_t_step: "step c c' \<Longrightarrow> keys_t nb n c lk ws \<Longrightarrow> keys_t nb n c' lk ws"
  unfolding keys_t_def using step_wok by blast

lemma keys_t_records: "records c c' \<Longrightarrow> keys_t nb n c' lk ws = keys_t nb n c lk ws"
  by (simp add: keys_t_def records_wok)

lemma tph_set_inputs:
  assumes "n_wires c = 0" "c_bits c = nb"
    "length (i_data_parallel (inp c)) = (if columns c > 1 then columns c else 0)"
  shows "tph nb n k c set_inputs (\<lambda>_ c'. inputs_t nb n (nb + 1) (\<lambda>_. 0) c')"
proof -
  let ?cols = "length (i_data_parallel (inp c))"
  have z: "input_wires nb n c" using assms(1) by (simp add: input_wires_def)
  show ?thesis
    unfolding set_inputs_def
    apply (intro tph_then_get)
    unfolding assms(2)
    apply (rule tb_input_list[OF z, THEN tph_seq], simp add: assms(1) input_count_def)
    apply (rule tb_input_list[THEN tph_seq], (erule conjE)+, assumption, simp add: assms(1) input_count_def)
    apply (rule tb_next_input[THEN tph_seq], (erule conjE)+, assumption, simp add: assms(1) input_count_def)
    apply (rule tb_next_input[THEN tph_seq], (erule conjE)+, assumption, simp add: assms(1) input_count_def)
    apply (rule tb_next_input[THEN tph_seq], (erule conjE)+, assumption, simp add: assms(1) input_count_def)
    apply (rule tb_next_input[THEN tph_seq], (erule conjE)+, assumption, simp add: assms(1) input_count_def)
    apply (rule tb_input_list[THEN tph_seq], (erule conjE)+, assumption)
     apply (simp add: assms(1,3) input_count_def step_def ext_def)
    apply (rule tphI)
    subgoal premises p for fb c1 sb c2 fe c3 se c4 v c5 d c6 par c7
    proof -
      have e: "fb = [0..<nb]" "sb = [nb..<nb + nb]" "fe = 2 * nb" "se = 2 * nb + 1" "v = 2 * nb + 2" "d = 2 * nb + 3"
        "n_wires c6 = 2 * nb + 4" "n_wires c7 = 2 * nb + 4 + ?cols" "input_wires nb n c7"
        using p assms(1) by auto
      have par: "par = [2 * nb + 4..<2 * nb + 4 + ?cols]" using p e(7) by metis
      have w: "wok nb n {} c7 fe (any_tag n) 0" "wok nb n {} c7 se (any_tag n) 0" "wok nb n {} c7 v (bit_tag n) 0"
        "wok nb n {} c7 d (any_tag n) 0" "\<forall>w \<in> set par. wok nb n {} c7 w (any_tag n) 0"
        using input_wire_at[OF e(9)] e(3-8) by (auto simp: bit_input_def par)
      have ks: "keys_t nb n c7 (\<lambda>_. 0) fb" "keys_t nb n c7 (\<lambda>_. 0) sb"
        using keys_t_inputs[OF e(9), of 0 nb] keys_t_inputs[OF e(9), of nb nb] e(1,2,8) by (simp_all add: bit_input_def)
      have ls: "length fb = nb" "length sb = nb" "length par = ?cols" using e(1,2) par by simp_all
      have cols: "columns c7 = columns c" using p by (simp add: step_def ext_def)
      show ?thesis
      proof (rule tb_local(4)[OF w(3), THEN tph_seq], rule tph_update)
        fix vi c8 assume s8: "step c7 c8" and m8: "made nb n {} c7 c8 vi (Ar (bits_only Bit) n None) 0"
        have vi: "wok nb n {} c8 vi (bit_tag n) 0" using made_wok[OF m8] by (simp add: bits_only_def)
        note w8 = w(1-4)[THEN step_wok[OF s8]]
        have par8: "\<forall>w \<in> set par. wok nb n {} c8 w (any_tag n) 0" using w(5) step_wok[OF s8] by blast
        note k8 = ks[THEN keys_t_step[OF s8]]
        have cols8: "columns c8 = columns c" using cols s8 by (simp add: step_def ext_def)
        show "inputs_t nb n (nb + 1) (\<lambda>_. 0) (c8\<lparr>inp := \<lparr>i_src_order_bits = vi # (if reverse_passing c then sb else fb),
            i_dst_order_bits = v # (if reverse_passing c then fb else sb),
            i_src = (if reverse_passing c then se else fe), i_dst = (if reverse_passing c then fe else se),
            i_isV = v, i_data = d, i_data_parallel = par\<rparr>\<rparr>)"
          using w8 par8 vi k8 ls cols8 assms(3) keys_t_Cons[OF vi] keys_t_Cons[OF w8(3)]
          by (simp add: inputs_t_def keys_t_records[OF records_ctx(2)] records_wok[OF records_ctx(2)])
      qed (rule records_ctx)
    qed
    done
qed

section \<open>Duplicates\<close>

lemma inputs_t_step:
  assumes "step c c'" "inputs_t nb n m lk c"
  shows "inputs_t nb n m lk c'"
proof -
  have e: "inp c' = inp c" "columns c' = columns c" using assms(1) by (simp_all add: step_def ext_def)
  show ?thesis
    using assms(2) keys_t_step[OF assms(1)] step_wok[OF assms(1)] unfolding inputs_t_def e by blast
qed

lemma inputs_t_ctx: "inputs_t nb n m lk (c\<lparr>ctx := x\<rparr>) = inputs_t nb n m lk c"
  by (simp add: inputs_t_def records_wok[OF records_ctx(1)] keys_t_records[OF records_ctx(1)])

lemma wok_ctx: "wok nb n U c w t l \<Longrightarrow> wok nb n U (c\<lparr>ctx := x\<rparr>) w t l"
  by (simp add: records_wok[OF records_ctx(1)])

definition dup_levels :: "nat \<Rightarrow> nat \<Rightarrow> nat \<Rightarrow> nat" where
  "dup_levels nb M b = (if b = nb + 1 then M else 0)"

lemma keys_t_push:
  assumes "keys_t nb n c (\<lambda>_. 0) ws" "length ws = nb + 1" "wok nb n {} c w (bit_tag n) M"
  shows "keys_t nb n c (dup_levels nb M) (ws @ [w])"
  using assms by (auto simp: keys_t_def dup_levels_def nth_append less_Suc_eq)

lemma inputs_t_push:
  assumes "inputs_t nb n (nb + 1) (\<lambda>_. 0) c" "wok nb n {} c w (bit_tag n) M"
  shows "inputs_t nb n (nb + 2) (dup_levels nb M) (push_order_bit w c)"
proof -
  have p: "push_order_bit w c = c\<lparr>inp := (inp c)\<lparr>i_src_order_bits := i_src_order_bits (inp c) @ [w],
      i_dst_order_bits := i_dst_order_bits (inp c) @ [w]\<rparr>\<rparr>" by (simp add: push_order_bit_def)
  show ?thesis using assms keys_t_push[of nb n c _ w M]
    unfolding p by (simp add: inputs_t_def records_wok[OF records_ctx(2)] keys_t_records[OF records_ctx(2)])
qed

text \<open>The level of a sort by node numbers.\<close>

definition id_level :: "nat \<Rightarrow> nat" where
  "id_level nb = order_level (\<lambda>_. 0) [1..<nb + 1] 1"

definition marked :: "nat \<Rightarrow> nat \<Rightarrow> circuit \<Rightarrow> bool" where
  "marked nb n c \<longleftrightarrow> (\<exists>M. inputs_t nb n (nb + 2) (dup_levels nb M) c) \<and>
     wok nb n {} c (dst_order (ctx c)) (order_tag n) (id_level nb)"

lemma marked_push:
  assumes "wok nb n {} c w (bit_tag n) M" "inputs_t nb n (nb + 1) (\<lambda>_. 0) c"
    "wok nb n {} c (dst_order (ctx c)) (order_tag n) (id_level nb)"
  shows "marked nb n (push_order_bit w c)"
proof -
  have "ctx (push_order_bit w c) = ctx c" by (simp add: push_order_bit_def)
  then show ?thesis
    using inputs_t_push[OF assms(2,1)] assms(3) unfolding marked_def records_wok[OF records_ctx(5)] by auto
qed

lemma step_dst:
  "step c c' \<Longrightarrow> wok nb n U c (dst_order (ctx c)) t l \<Longrightarrow> wok nb n U c' (dst_order (ctx c')) t l"
  using step_wok[of c c'] by (simp add: step_def ext_def)

lemma dst_start:
  "wok nb n U c w t l \<Longrightarrow>
     wok nb n U (c\<lparr>ctx := (ctx c)\<lparr>dst_order := w\<rparr>\<rparr>) (dst_order (ctx (c\<lparr>ctx := (ctx c)\<lparr>dst_order := w\<rparr>\<rparr>))) t l"
  by (simp add: wok_ctx)

lemma id_dst:
  "wok nb n {} c (dst_order (ctx c)) (order_tag n) l \<Longrightarrow> l = id_level nb \<Longrightarrow>
     wok nb n {} c (dst_order (ctx c)) (order_tag n) (id_level nb)"
  by simp

lemma marked_gates: "gates c' = gates c \<and> n_wires c' = n_wires c \<Longrightarrow> ext c c' \<Longrightarrow> marked nb n c \<Longrightarrow> marked nb n c'"
proof -
  assume a: "gates c' = gates c \<and> n_wires c' = n_wires c" "ext c c'" "marked nb n c"
  have w: "wok nb n U c' = wok nb n U c" for U using a(1) by (simp add: wok_def fun_eq_iff)
  have e: "inp c' = inp c" "columns c' = columns c" "ctx c' = ctx c" using a(2) by (simp_all add: ext_def)
  show ?thesis using a(3) unfolding marked_def inputs_t_def keys_t_def w e .
qed

lemma tph_next_idx:
  assumes "marked nb n c"
  shows "tph nb n k c next_shuffle_idx (\<lambda>_ c'. marked nb n c')"
  by (rule tph_conseq[OF tph_tb[OF tb_next_idx]]) (use assms marked_gates in blast)

lemma upt_lt: "b \<in> set [i..<j] \<Longrightarrow> b < j"
  by simp

lemma tph_pre_mp:
  assumes "inputs_t nb n (nb + 1) (\<lambda>_. 0) c" "0 < n"
  shows "tph nb n k c pre_mp (\<lambda>_ c'. if deduplication c then marked nb n c' else inputs_t nb n (nb + 1) (\<lambda>_. 0) c')"
proof (rule tphI, cases "deduplication c")
  case False
  then show ?thesis unfolding pre_mp_def using assms(1)
    by (intro tph_then_get) (simp add: tph_return)
next
  case True
  assume "csound nb n k {} c"
  then have nb: "c_bits c = nb" "c_size c = n" by (simp_all add: csound_def)
  let ?i = "inp c"
  have keys: "wok nb n {} c (i_dst_order_bits ?i ! b) (bit_tag n) 0" "wok nb n {} c (i_src_order_bits ?i ! b) (bit_tag n) 0"
    if "b < nb + 1" for b using assms(1) that by (simp_all add: inputs_t_def keys_t_def)
  have ends: "wok nb n {} c (i_src ?i) (any_tag n) 0" "wok nb n {} c (i_dst ?i) (any_tag n) 0"
    using assms(1) by (simp_all add: inputs_t_def)
  have "tph nb n k c pre_mp (\<lambda>_ c'. marked nb n c')"
    unfolding pre_mp_def
    apply (rule tph_then_get)
    apply (simp only: True if_True)
    apply (intro tph_then_get)
    unfolding nb
    apply (rule tb_sort[where lk = "\<lambda>_. 0", THEN tph_seq], erule keys(1), simp)
    apply (rule tph_then_update, rule records_ctx)
    apply (rule tb_sort_fold[where lk = "\<lambda>_. 0", THEN tph_seq], rule wok_ctx, erule step_wok, rule keys(2), erule upt_lt,
        rule wok_ctx, assumption)
    apply (rule tph_then_shuffle_idx)
    apply (rule tb_shuffles(1)[THEN tph_seq], assumption)
    apply (rule tb_reveal[THEN tph_seq], (erule made_wok | erule step_wok)+)
    apply (rule tb_shuffles(1)[THEN tph_seq], (erule step_wok)+, rule wok_ctx, erule step_wok, rule ends(1))
    apply (rule tb_shuffles(1)[THEN tph_seq], (erule step_wok)+, rule wok_ctx, erule step_wok, rule ends(2))
    apply (rule tb_permutes(1)[THEN tph_seq], (erule made_wok | erule step_wok)+)
    apply (rule tb_permutes(1)[THEN tph_seq], (erule made_wok | erule step_wok)+)
    unfolding zero_tests_bind
    apply (rule tb_zero_tests[THEN tph_seq], (erule made_wok | erule step_wok)+, rule assms(2))
    apply (simp only: split_paired_all prod.case, erule conjE)
    apply (rule tb_and[THEN tph_seq], assumption, assumption, simp)
    apply (rule tb_triples(2)[THEN tph_seq], (erule made_wok | erule step_wok)+, simp)
    apply (rule tb_insert[THEN tph_seq], (erule made_wok | erule step_wok)+)
    apply (simp only: bits_only_def simp_thms if_True)
    apply (rule tb_permutes(2)[THEN tph_seq], (erule made_wok | erule step_wok)+, simp, simp)
    apply (rule tb_shuffles(2)[THEN tph_seq], (erule made_wok | erule step_wok)+)
    apply (rule tph_then_update, rule records_ctx)
    apply (rule tph_next_idx)
    apply (rule marked_push[OF _ _ id_dst])
    using assms(1) apply -
    apply (assumption | rule dst_start inputs_t_ctx[THEN iffD2] | erule made_wok | erule step_dst | erule step_wok |
        erule inputs_t_step)+
    apply (simp add: id_level_def)
    done
  then show ?thesis using True by simp
qed

section \<open>Orders\<close>

text \<open>The three orders; that of the nodes is computed last.\<close>

definition orders_t :: "nat \<Rightarrow> nat \<Rightarrow> circuit \<Rightarrow> bool" where
  "orders_t nb n c \<longleftrightarrow> (\<exists>L. wok nb n {} c (src_order (ctx c)) (order_tag n) L \<and>
     wok nb n {} c (dst_order (ctx c)) (order_tag n) L \<and> wok nb n {} c (vtx_order (ctx c)) (order_tag n) (L + 4))"

definition inputs_some :: "nat \<Rightarrow> nat \<Rightarrow> circuit \<Rightarrow> bool" where
  "inputs_some nb n c \<longleftrightarrow> (\<exists>m lk. inputs_t nb n m lk c)"

lemma inputs_some_step: "step c c' \<Longrightarrow> inputs_some nb n c \<Longrightarrow> inputs_some nb n c'"
  unfolding inputs_some_def using inputs_t_step by blast

lemma inputs_some_ctx: "inputs_some nb n (c\<lparr>ctx := x\<rparr>) = inputs_some nb n c"
  by (simp add: inputs_some_def inputs_t_ctx)

lemma dup_order:
  "order_level (dup_levels nb M) [1..<nb + 2] (dup_levels nb M 0 + 1) = max (M + 3) (id_level nb + 4)"
proof -
  have "foldl (\<lambda>l b. max (dup_levels nb M b + 3) (l + 4)) x xs = foldl (\<lambda>l b. max (0 + 3) (l + 4)) x xs"
    if "\<forall>b \<in> set xs. b < nb + 1" for x xs
    using that by (induction xs arbitrary: x) (auto simp: dup_levels_def)
  from this[of "[1..<nb + 1]" 1]
  have "order_level (dup_levels nb M) [1..<nb + 1] 1 = id_level nb"
    unfolding order_level_def id_level_def by (simp del: upt_Suc)
  moreover have "[1..<nb + 2] = [1..<nb + 1] @ [nb + 1]" by simp
  moreover have "order_level lk (xs @ [b]) l = max (lk b + 3) (order_level lk xs l + 4)" for lk xs b l
    by (simp add: order_level_def)
  moreover have "dup_levels nb M 0 + 1 = 1" "dup_levels nb M (nb + 1) = M" by (simp_all add: dup_levels_def)
  ultimately show ?thesis by presburger
qed

lemma tph_set_orders:
  assumes "wok nb n {} c so (order_tag n) L" "wok nb n {} c d (order_tag n) L" "wok nb n {} c vo (order_tag n) (L + 4)"
    "inputs_some nb n c"
  shows "tph nb n k c (update_c (\<lambda>c. c\<lparr>ctx := (ctx c)\<lparr>src_order := so, dst_order := d, vtx_order := vo\<rparr>\<rparr>))
           (\<lambda>_ c'. inputs_some nb n c' \<and> orders_t nb n c')"
  by (rule tph_update, rule records_ctx)
    (use assms in \<open>auto simp: inputs_some_ctx orders_t_def records_wok[OF records_ctx(1)] simp del: One_nat_def\<close>)

lemma tb_flip_bit:
  assumes "wok nb n U c w (bit_tag n) l"
  shows "tb nb n k U {} c (flip_SIMD w) (\<lambda>r c'. made nb n U c c' r (bit_tag n) l)"
  using tb_local(4)[OF assms] by (simp add: bits_only_def)

lemma tb_vtx_order:
  assumes "wok nb n U c p (order_tag n) L" "wok nb n U c w (bit_tag n) 0"
  shows "tb nb n k U {} c (sort_iteration p w) (\<lambda>r c'. wok nb n U c' r (order_tag n) (L + 4))"
proof -
  have e: "max (0 + 3) (L + 4) = L + 4" by simp
  show ?thesis by (rule tb_conseq[OF tb_sort_iteration[OF assms]]) (unfold e, simp, erule made_wok)
qed

lemma tph_compute_sorts:
  assumes "if deduplication c then marked nb n c else inputs_t nb n (nb + 1) (\<lambda>_. 0) c"
  shows "tph nb n k c compute_sorts (\<lambda>_ c'. inputs_some nb n c' \<and> orders_t nb n c')"
proof (rule tphI, cases "deduplication c")
  case True
  assume "csound nb n k {} c"
  then have nb: "c_bits c = nb" by (simp add: csound_def)
  let ?i = "inp c"
  obtain M where i: "inputs_t nb n (nb + 2) (dup_levels nb M) c" and old: "wok nb n {} c (dst_order (ctx c)) (order_tag n) (id_level nb)"
    using assms True by (auto simp: marked_def)
  have keys: "wok nb n {} c (i_src_order_bits ?i ! b) (bit_tag n) (dup_levels nb M b)"
    "wok nb n {} c (i_dst_order_bits ?i ! b) (bit_tag n) (dup_levels nb M b)" if "b < nb + 2" for b
    using i that by (simp_all add: inputs_t_def keys_t_def)
  have len: "length (i_dst_order_bits ?i) - 1 = nb + 1" using i by (simp add: inputs_t_def)
  have v: "wok nb n {} c (i_isV ?i) (bit_tag n) 0" using i by (simp add: inputs_t_def)
  have some: "inputs_some nb n c" using i unfolding inputs_some_def by blast
  have last: "wok nb n {} c (i_dst_order_bits ?i ! (nb + 1)) (bit_tag n) M" using keys(2)[of "nb + 1"] by (simp add: dup_levels_def)
  have so: "tb nb n k {} {} c (c_sort (i_src_order_bits ?i) (nb + 2))
      (\<lambda>r c'. wok nb n {} c' r (order_tag n) (max (M + 3) (id_level nb + 4)))"
    unfolding dup_order[symmetric] by (rule tb_sort) (simp_all add: keys)
  show ?thesis
    unfolding compute_sorts_def
    apply (intro tph_then_get)
    apply (simp only: True if_True nb)
    apply (rule so[THEN tph_seq])
    apply (rule tph_then_get)
    apply (rule tb_sort_iteration[THEN tph_seq])
      apply (erule step_dst, rule old)
     apply (unfold len)
     apply (erule step_wok, rule last)
    apply (rule tb_flip_bit[THEN tph_seq], (erule step_wok)+, rule v)
    apply (rule tb_vtx_order[THEN tph_seq], (assumption | erule made_wok | erule step_wok)+)
    apply (rule tph_set_orders, (assumption | erule made_wok | erule step_wok)+)
    using some apply -
    apply (erule inputs_some_step | assumption)+
    done
next
  case False
  assume "csound nb n k {} c"
  then have nb: "c_bits c = nb" by (simp add: csound_def)
  let ?i = "inp c"
  have i: "inputs_t nb n (nb + 1) (\<lambda>_. 0) c" using assms False by simp
  have keys: "wok nb n {} c (i_src_order_bits ?i ! b) (bit_tag n) 0"
    "wok nb n {} c (i_dst_order_bits ?i ! b) (bit_tag n) 0" if "b < nb + 1" for b
    using i that by (simp_all add: inputs_t_def keys_t_def)
  have v: "wok nb n {} c (i_isV ?i) (bit_tag n) 0" using i by (simp add: inputs_t_def)
  have some: "inputs_some nb n c" using i unfolding inputs_some_def by blast
  show ?thesis
    unfolding compute_sorts_def
    apply (intro tph_then_get)
    apply (simp only: False if_False nb)
    apply (rule tb_sort[where lk = "\<lambda>_. 0", THEN tph_seq], erule keys(1), simp)
    apply (rule tb_sort[where lk = "\<lambda>_. 0", THEN tph_seq], erule step_wok, erule keys(2), simp)
    apply (rule tb_flip_bit[THEN tph_seq], (erule step_wok)+, rule v)
    apply (rule tb_vtx_order[THEN tph_seq], (assumption | erule made_wok | erule step_wok)+)
    apply (rule tph_set_orders, (assumption | erule made_wok | erule step_wok)+)
    using some apply -
    apply (erule inputs_some_step | assumption)+
    done
qed

section \<open>Shuffled orders\<close>

text \<open>The revealed orders with their shuffles; that of the nodes is revealed last.\<close>

definition ctx_t :: "nat \<Rightarrow> nat \<Rightarrow> wire_id set \<Rightarrow> mp_context \<Rightarrow> circuit \<Rightarrow> nat \<Rightarrow> bool" where
  "ctx_t nb n U x c lv \<longleftrightarrow>
     wok nb n U c (clear_shuffled_vtx_order x) (Pub (vtx_shuffle_idx x)) lv \<and>
     (\<exists>l \<le> lv. wok nb n U c (clear_shuffled_src_order x) (Pub (src_shuffle_idx x)) l) \<and>
     (\<exists>l \<le> lv. wok nb n U c (clear_shuffled_dst_order x) (Pub (dst_shuffle_idx x)) l)"

definition data_t :: "nat \<Rightarrow> nat \<Rightarrow> circuit \<Rightarrow> bool" where
  "data_t nb n c \<longleftrightarrow> wok nb n {} c (i_data (inp c)) (any_tag n) 0 \<and>
     (\<forall>w \<in> set (i_data_parallel (inp c)). wok nb n {} c w (any_tag n) 0) \<and>
     length (i_data_parallel (inp c)) = (if columns c > 1 then columns c else 0)"

lemma inputs_data: "inputs_some nb n c \<Longrightarrow> data_t nb n c"
  by (auto simp: inputs_some_def inputs_t_def data_t_def)

lemma data_t_step: "step c c' \<Longrightarrow> data_t nb n c \<Longrightarrow> data_t nb n c'"
  using step_wok[of c c'] by (simp add: data_t_def step_def ext_def)

lemma data_t_ctx: "data_t nb n (c\<lparr>ctx := x\<rparr>) = data_t nb n c"
  by (simp add: data_t_def records_wok[OF records_ctx(1)])

lemma tph_set_ctx:
  assumes "wok nb n {} c cv (Pub v) lv" "wok nb n {} c cs (Pub (v + 1)) ls" "wok nb n {} c cd (Pub (v + 2)) ls"
    "ls \<le> lv" "data_t nb n c"
  shows "tph nb n k c (update_c (\<lambda>c. c\<lparr>ctx := (ctx c)\<lparr>vtx_shuffle_idx := v, src_shuffle_idx := v + 1,
       dst_shuffle_idx := v + 2, clear_shuffled_vtx_order := cv, clear_shuffled_src_order := cs,
       clear_shuffled_dst_order := cd\<rparr>\<rparr>)) (\<lambda>_ c'. data_t nb n c' \<and> (\<exists>lv. ctx_t nb n {} (ctx c') c' lv))"
  by (rule tph_update, rule records_ctx)
    (use assms in \<open>auto simp: data_t_ctx ctx_t_def records_wok[OF records_ctx(1)]\<close>)

lemma tph_prepare_shuffles:
  assumes "data_t nb n c" "orders_t nb n c"
  shows "tph nb n k c prepare_shuffles (\<lambda>_ c'. data_t nb n c' \<and> (\<exists>lv. ctx_t nb n {} (ctx c') c' lv))"
proof -
  obtain L where L: "wok nb n {} c (src_order (ctx c)) (order_tag n) L" "wok nb n {} c (dst_order (ctx c)) (order_tag n) L"
    "wok nb n {} c (vtx_order (ctx c)) (order_tag n) (L + 4)" using assms(2) by (auto simp: orders_t_def)
  have ctx: "step a b \<Longrightarrow> step b d \<Longrightarrow> wok nb n {} a (f (ctx a)) t l \<Longrightarrow> wok nb n {} d (f (ctx d)) t l" for a b d f t l
    using step_wok[OF step_trans, of a b d] by (simp add: step_def ext_def)
  show ?thesis
    unfolding prepare_shuffles_def
    apply (rule tph_then_shuffle_idx)
    apply (rule tb_next_idx[THEN tph_seq])
    apply (rule tb_next_idx[THEN tph_seq])
    apply (rule tph_then_get)
    apply (rule tb_shuffles(1)[THEN tph_seq], erule(1) ctx, rule L(3))
    apply (rule tb_shuffles(1)[THEN tph_seq], erule step_wok, erule(1) ctx, rule L(1))
    apply (rule tb_shuffles(1)[THEN tph_seq], erule step_wok, erule step_wok, erule(1) ctx, rule L(2))
    apply (rule tb_reveal[THEN tph_seq], (erule made_wok | erule step_wok)+)
    apply (rule tb_reveal[THEN tph_seq], (erule made_wok | erule step_wok)+)
    apply (rule tb_reveal[THEN tph_seq], (erule made_wok | erule step_wok)+)
    apply (rule tph_set_ctx, (erule made_wok | erule step_wok)+, simp)
    using assms(1) apply -
    apply (erule data_t_step | assumption)+
    done
qed

lemma ctx_t_step: "step c c' \<Longrightarrow> ctx_t nb n U x c lv \<Longrightarrow> ctx_t nb n U x c' lv"
  unfolding ctx_t_def using step_wok by blast

lemma ctx_t_grow:
  assumes "grow S c c'" "n_wires c = length (gates c)" "ctx_t nb n U x c lv"
    "\<And>w. w \<in> S \<Longrightarrow> \<exists>e m l. wok nb n {} c w (Ar e n m) l"
  shows "ctx_t nb n U x c' lv"
proof -
  have "w \<notin> S" if "wok nb n U c w (Pub s) l" for w s l
    using assms(4)[of w] that by (auto simp: wok_def)
  then show ?thesis using assms(3) wok_grow[OF assms(1) _ assms(2)] unfolding ctx_t_def by blast
qed

lemma ctx_t_more:
  assumes "ctx_t nb n {} x c lv" "\<And>w. w \<in> U \<Longrightarrow> \<exists>e m l. wok nb n {} c w (Ar e n m) l"
  shows "ctx_t nb n U x c lv"
proof -
  have "wok nb n U c w (Pub s) l" if "wok nb n {} c w (Pub s) l" for w s l
    using assms(2)[of w] that by (auto simp: wok_def)
  then show ?thesis using assms(1) unfolding ctx_t_def by blast
qed

section \<open>The contract of the algorithms\<close>

text \<open>
  An algorithm that \<open>owns\<close> its states reads each of them only in the method it is passed to, and
  its post-processing may use them up. The levels of its results depend only on those of its
  arguments.
\<close>

locale typed_algorithm = algorithm a for a :: algo +
  fixes owns has_init :: bool
    and alevel :: "nat \<Rightarrow> nat \<Rightarrow> nat"
    and plevel :: "nat \<Rightarrow> nat"
    and cols_ok :: "nat \<Rightarrow> nat \<Rightarrow> bool"
  assumes tb_init_nodes: "0 < k \<Longrightarrow> k \<le> n \<Longrightarrow> 0 < n_wires c \<Longrightarrow>
      tb nb n k U {} c (a_init_nodes a col) (\<lambda>r c'.
        if has_init then \<exists>w. r = Some w \<and> made nb n U c c' w (any_tag n) 0
        else r = None \<and> (\<forall>v. free c v \<longrightarrow> free c' v))"
    and tb_prepare: "wok nb n U c w (any_tag n) l \<Longrightarrow>
      tb nb n k U {} c (a_prepare a w i col) (\<lambda>r c'. wok nb n U c' r (any_tag n) l)"
    and tb_apply: "wok nb n U c w (any_tag n) l \<Longrightarrow> wok nb n U c u (any_tag n) l' \<Longrightarrow> 0 < u \<Longrightarrow>
      tb nb n k U {} c (call_apply a w u i col) (\<lambda>r c'.
        wok nb n U c' r (any_tag n) (alevel l l') \<and> (owns \<longrightarrow> free c' r \<and> n_wires c \<le> r))"
    and tb_post_mp: "k \<le> n \<Longrightarrow> wok nb n U c w (any_tag n) l \<Longrightarrow> owns \<longrightarrow> free c w \<Longrightarrow>
      tb nb n k U (if owns then {w} else {}) c (a_post_mp a w col) (\<lambda>r c'.
        (\<exists>e. wok nb n U c' r (Ar e n None) (plevel l)) \<and> (owns \<longrightarrow> free c' r \<and> n_wires c \<le> r))"
    and tb_aggregate: "owns \<Longrightarrow> 1 < length ws \<Longrightarrow> cols_ok k (length ws) \<Longrightarrow> k \<le> n \<Longrightarrow>
      (\<And>w. w \<in> set ws \<Longrightarrow> free c w \<and> (\<exists>e. wok nb n U c w (Ar e n None) l)) \<Longrightarrow>
      tb nb n k U (set ws) c (a_post_mp_aggregate a ws) (\<lambda>r c'.
        case r of Some w \<Rightarrow> \<exists>e l. wok nb n U c' w (Ar e n None) l
        | None \<Rightarrow> \<forall>w \<in> set ws. \<exists>e l. wok nb n U c' w (Ar e n None) l)"
begin

text \<open>The levels of the states, iteration by iteration.\<close>

definition mp_level :: "nat \<Rightarrow> nat \<Rightarrow> nat \<Rightarrow> nat" where
  "mp_level lv d l = ((\<lambda>l. alevel l (max l lv + 3)) ^^ d) l"

lemma tb_mp_iteration:
  assumes "ctx_t nb n U x c lv" "wok nb n U c w (any_tag n) l" "0 < k" "k \<le> n"
  shows "tb nb n k U {} c (mp_iteration a x base col i w) (\<lambda>r c'.
     wok nb n U c' r (any_tag n) (alevel l (max l lv + 3)) \<and> (owns \<longrightarrow> free c' r \<and> n_wires c \<le> r))"
proof -
  obtain ls ld where x: "wok nb n U c (clear_shuffled_vtx_order x) (Pub (vtx_shuffle_idx x)) lv"
    "wok nb n U c (clear_shuffled_src_order x) (Pub (src_shuffle_idx x)) ls" "ls \<le> lv"
    "wok nb n U c (clear_shuffled_dst_order x) (Pub (dst_shuffle_idx x)) ld" "ld \<le> lv"
    using assms(1) by (auto simp: ctx_t_def)
  have lev: "max (max (max (max (max (max (max l lv + 1) ls) (max (max l lv + 1) ls)) ls + 1) ld) ld + 1) lv = max l lv + 3"
    using x(3,5) by simp
  have later: "n_wires c1 \<le> n_wires c2 \<Longrightarrow> wok nb n U c' r (any_tag n) lx \<and> (owns \<longrightarrow> free c' r \<and> n_wires c2 \<le> r) \<Longrightarrow>
      lx = ly \<Longrightarrow> wok nb n U c' r (any_tag n) ly \<and> (owns \<longrightarrow> free c' r \<and> n_wires c1 \<le> r)" for c1 c2 c' r lx ly by auto
  show ?thesis
    unfolding mp_iteration_def
    apply (rule tb_prepare[OF assms(2), THEN tb_seq])
    apply (rule tb_local(1)[THEN tb_seq], assumption, rule assms(3), rule assms(4))
    apply (rule tb_permutes(2)[THEN tb_seq], (erule step_wok)+, rule x(1), erule made_wok, simp, simp)
    apply (rule tb_merged[THEN tb_seq], erule made_wok, (erule step_wok)+, rule x(2))
    using x(3) apply simp
    apply (rule tb_permutes(1)[THEN tb_seq], (erule step_wok)+, rule x(2), erule made_wok)
    apply (simp only: bits_only_def elem.distinct simp_thms if_False)
    apply (rule tb_permutes(2)[THEN tb_seq], (erule step_wok)+, rule x(1), (assumption | erule step_wok)+, simp, simp)
    apply (rule tb_merged[THEN tb_seq], erule made_wok, (erule step_wok)+, rule x(2))
    using x(3) apply simp
    apply (rule tb_permutes(1)[THEN tb_seq], (erule step_wok)+, rule x(2), erule made_wok)
    apply (simp only: bits_only_def elem.distinct simp_thms if_False)
    apply (rule tb_sums(3)[THEN tb_seq], (erule made_wok | erule step_wok)+, erule made_pos, erule step_wok, erule made_wok)
    apply (rule tb_permutes(2)[THEN tb_seq], (erule step_wok)+, rule x(2), erule made_wok, simp, simp)
    apply (rule tb_merged[THEN tb_seq], erule made_wok, (erule step_wok)+, rule x(4))
    using x(3,5) apply simp
    apply (rule tb_permutes(1)[THEN tb_seq], (erule step_wok)+, rule x(4), erule made_wok)
    apply (simp only: bits_only_def elem.distinct simp_thms if_False)
    apply (rule tb_local(2)[THEN tb_seq], erule made_wok)
    apply (rule tb_permutes(2)[THEN tb_seq], (erule step_wok)+, rule x(4), erule made_wok, simp, simp)
    apply (rule tb_merged[THEN tb_seq], erule made_wok, (erule step_wok)+, rule x(1))
    using x(3,5) apply simp
    apply (rule tb_permutes(1)[THEN tb_seq], (erule step_wok)+, rule x(1), erule made_wok)
    apply (simp only: bits_only_def elem.distinct simp_thms if_False)
    apply (rule tb_local(3)[THEN tb_seq], erule made_wok, rule assms(4))
    apply (rule tb_conseq[OF tb_apply])
        apply ((erule step_wok)+, rule assms(2))
       apply (erule made_wok)
      apply (erule made_pos, erule made_wok)
     apply simp
    apply (erule later[rotated])
     apply (rule arg_cong[where f = "alevel l"], rule lev)
    apply ((erule order_trans[OF step_le])+, rule order_refl)
    done
qed

text \<open>A state: readable, and unread if the algorithm owns it.\<close>

definition state_t :: "nat \<Rightarrow> nat \<Rightarrow> wire_id set \<Rightarrow> nat \<Rightarrow> circuit \<Rightarrow> wire_id \<Rightarrow> nat \<Rightarrow> bool" where
  "state_t nb n U N c w l \<longleftrightarrow> wok nb n U c w (any_tag n) l \<and> (owns \<longrightarrow> free c w \<and> N \<le> w)"

lemma state_tD:
  "state_t nb n U N c w l \<Longrightarrow> wok nb n U c w (any_tag n) l"
  "state_t nb n U N c w l \<Longrightarrow> owns \<Longrightarrow> free c w \<and> N \<le> w"
  unfolding state_t_def by blast+

lemma tb_mp_loop:
  assumes "ctx_t nb n U x c lv" "state_t nb n U N c w l" "0 < k" "k \<le> n" "N \<le> n_wires c"
  shows "tb nb n k U {} c (fold_build (mp_iteration a x base col) xs w)
     (\<lambda>r c'. state_t nb n U N c' r (mp_level lv (length xs) l))"
  using assms(1,2,5)
proof (induction xs arbitrary: c w l)
  case Nil
  then show ?case by (simp add: tb_return mp_level_def)
next
  case (Cons i xs)
  have "tb nb n k U {} c (State_Monad.bind (mp_iteration a x base col i w) (fold_build (mp_iteration a x base col) xs))
     (\<lambda>r c'. state_t nb n U N c' r (mp_level lv (length (i # xs)) l))"
  proof (rule tb_seq, rule tb_mp_iteration[OF Cons.prems(1) _ assms(3,4)])
    show "wok nb n U c w (any_tag n) l" using Cons.prems(2) by (simp add: state_t_def)
    fix r c' assume s: "step c c'" and r: "wok nb n U c' r (any_tag n) (alevel l (max l lv + 3)) \<and>
        (owns \<longrightarrow> free c' r \<and> n_wires c \<le> r)"
    have "state_t nb n U N c' r (alevel l (max l lv + 3))" "N \<le> n_wires c'"
      using r Cons.prems(3) step_le[OF s] by (auto simp: state_t_def)
    then have "tb nb n k U {} c' (fold_build (mp_iteration a x base col) xs r)
        (\<lambda>r c'. state_t nb n U N c' r (mp_level lv (length xs) (alevel l (max l lv + 3))))"
      using Cons.IH ctx_t_step[OF s Cons.prems(1)] by blast
    then show "tb nb n k U {} c' (fold_build (mp_iteration a x base col) xs r)
        (\<lambda>r c'. state_t nb n U N c' r (mp_level lv (length (i # xs)) l))"
      by (simp add: mp_level_def funpow_Suc_right del: funpow.simps)
  qed
  then show ?case by simp
qed

definition start_level :: "nat \<Rightarrow> nat" where
  "start_level lv = (if has_init then 0 else max 1 lv)"

lemma tb_message_passing:
  assumes "ctx_t nb n U (ctx c) c lv" "wok nb n U c w (any_tag n) 0" "0 < k" "k \<le> n"
  shows "tb nb n k U {} c (message_passing a w col)
     (\<lambda>r c'. state_t nb n U (n_wires c) c' r (mp_level lv (c_depth c) (start_level lv)))"
proof -
  obtain x base d where x: "x = ctx c" "base = shuffle_idx c" "d = c_depth c" by blast
  have cv: "wok nb n U c (clear_shuffled_vtx_order x) (Pub (vtx_shuffle_idx x)) lv"
    using assms(1) x(1) by (simp add: ctx_t_def)
  have pos: "0 < n_wires c" using assms(2) by (auto simp: wok_def)
  show ?thesis
    unfolding message_passing_def
    apply (rule tb_then_get, rule tb_then_shuffle_idx, rule tb_then_get)
    unfolding x[symmetric]
    apply (rule tb_shuffles(1)[OF assms(2), THEN tb_seq])
    apply (rule tb_permutes(1)[THEN tb_seq], erule step_wok, rule cv, erule made_wok)
    apply (simp only: bits_only_def elem.distinct simp_thms if_False)
    subgoal premises p for sh c1 dv c2
    proof -
      have s2: "step c c2" using step_trans[OF p(2,5)] .
      have dv: "wok nb n U c2 dv (any_tag n) (max 1 lv)" "free c2 dv" "n_wires c \<le> dv"
        using p(3,6) made_wok[OF p(3)] made_free[OF p(6) made_wok[OF p(3)]] step_le[OF p(2)] by (auto simp: made_def)
      show ?thesis
      proof (rule tb_seq, rule tb_init_nodes[OF assms(3,4)])
        show "0 < n_wires c2" using pos step_le[OF s2] by simp
        fix start c3 assume s3: "step c2 c3" and st: "if has_init then \<exists>w. start = Some w \<and> made nb n U c2 c3 w (any_tag n) 0
          else start = None \<and> (\<forall>v. free c2 v \<longrightarrow> free c3 v)"
        let ?w = "case start of Some w \<Rightarrow> w | None \<Rightarrow> dv"
        have s: "step c c3" using step_trans[OF s2 s3] .
        have "state_t nb n U (n_wires c) c3 ?w (start_level lv)"
        proof (cases has_init)
          case True
          then obtain w where w: "start = Some w" "made nb n U c2 c3 w (any_tag n) 0" using st by auto
          have "start_level lv = 0" unfolding start_level_def by (rule if_P[OF True])
          then show ?thesis using w made_free[OF w(2) dv(1)] step_le[OF s2] by (auto simp: state_t_def made_def)
        next
          case False
          have "start_level lv = max 1 lv" unfolding start_level_def by (rule if_not_P[OF False])
          then show ?thesis using False st dv step_wok[OF s3 dv(1)] by (simp add: state_t_def)
        qed
        from tb_mp_loop[OF ctx_t_step[OF s assms(1)] this assms(3,4), of base col "[0..<d]"] step_le[OF s]
        show "tb nb n k U {} c3 (fold_build (mp_iteration a x base col) [0..<d] ?w)
            (\<lambda>r c'. state_t nb n U (n_wires c) c' r (mp_level lv d (start_level lv)))"
          by (simp add: x(1))
      qed
    qed
    done
qed

section \<open>Columns\<close>

lemma tb_output_data:
  assumes "ctx_t nb n {} (ctx c) c lv" "wok nb n {} c w (Ar e n None) l" "0 < k" "k \<le> n"
  shows "tb nb n k {} {} c (output_data w) (\<lambda>_ c'. has_output c')"
proof (rule tbI)
  assume "csound nb n k {} c"
  then have nodes: "c_nodes c = k" by (simp add: csound_def)
  have cv: "wok nb n {} c (clear_shuffled_vtx_order (ctx c)) (Pub (vtx_shuffle_idx (ctx c))) lv"
    using assms(1) by (simp add: ctx_t_def)
  show "tb nb n k {} {} c (output_data w) (\<lambda>_ c'. has_output c')"
    unfolding output_data_def
    apply (rule tb_then_get)
    unfolding nodes
    apply (rule tb_remove[OF assms(2,4), THEN tb_seq])
    apply (rule tb_then_get)
    apply (split if_split, intro conjI impI)
     apply (rule tb_then_get)
    subgoal premises p for x c1
    proof -
      have e: "ctx c1 = ctx c" using p(2) by (simp add: step_def ext_def)
      note cv1 = step_wok[OF p(2) cv]
      show ?thesis
        unfolding e
        apply (rule tb_permutes(2)[OF cv1 made_wok[OF p(3)], THEN tb_seq], simp, simp)
        apply (rule tb_shuffles(2)[THEN tb_seq], erule made_wok)
        apply (rule tb_output, erule made_wok)
        done
    qed
    apply (rule tb_output, erule made_wok)
    done
qed

lemma tph_upto:
  assumes "I 0 c" "\<And>i c'. i < m \<Longrightarrow> csound nb n k {} c' \<Longrightarrow> evolve c c' \<Longrightarrow> I i c' \<Longrightarrow> tph nb n k c' (f i ()) (\<lambda>_ c''. I (Suc i) c'')"
  shows "tph nb n k c (fold_build f [0..<m] ()) (\<lambda>_ c'. I m c')"
proof -
  have "tph nb n k c' (fold_build f [i..<m] ()) (\<lambda>_ c'. I m c')" if "i \<le> m" "I i c'" "evolve c c'" for i c'
    using that
  proof (induction "m - i" arbitrary: i c')
    case 0
    then show ?case by (simp add: tph_return)
  next
    case (Suc d)
    then have i: "i < m" "[i..<m] = i # [Suc i..<m]" by (simp_all add: upt_conv_Cons)
    have "tph nb n k c' (State_Monad.bind (f i ()) (fold_build f [Suc i..<m])) (\<lambda>_ c'. I m c')"
    proof (rule tphI, rule tph_bind)
      assume cs: "csound nb n k {} c'"
      show "tph nb n k c' (f i ()) (\<lambda>_ c''. I (Suc i) c'')" using assms(2)[OF i(1) cs Suc.prems(3,2)] .
      fix r c'' assume "evolve c' c''" "I (Suc i) c''"
      then show "tph nb n k c'' (fold_build f [Suc i..<m] r) (\<lambda>_ c'. I m c')"
        using Suc.hyps(1)[of "Suc i" c''] Suc.hyps(2) i(1) Suc.prems(3) evolve_trans by simp
    qed
    then show ?case unfolding i(2) by simp
  qed
  from this[of 0 c] show ?thesis using assms(1) by simp
qed

text \<open>The columns \<open>ws\<close>: the first \<open>i\<close> of them are states, unread and different from all others.\<close>

definition unread_t :: "nat \<Rightarrow> nat \<Rightarrow> circuit \<Rightarrow> nat \<Rightarrow> wire_id \<Rightarrow> bool" where
  "unread_t nb n c l w \<longleftrightarrow> free c w \<and> (\<exists>e. wok nb n {} c w (Ar e n None) l)"

definition passed_t :: "nat \<Rightarrow> nat \<Rightarrow> nat \<Rightarrow> nat \<Rightarrow> nat \<Rightarrow> nat \<Rightarrow> circuit \<Rightarrow> bool" where
  "passed_t nb n lv L B i c \<longleftrightarrow> (let ws = i_data_parallel (inp c) in
     ctx_t nb n {} (ctx c) c lv \<and> length ws = columns c \<and> B \<le> n_wires c \<and> distinct (take i ws) \<and>
     (\<forall>j < i. free c (ws ! j) \<and> wok nb n {} c (ws ! j) (any_tag n) L \<and> B \<le> ws ! j) \<and>
     (\<forall>j. i \<le> j \<and> j < columns c \<longrightarrow> wok nb n {} c (ws ! j) (any_tag n) 0 \<and> ws ! j < B))"

lemma set_take_nth: "i \<le> length ws \<Longrightarrow> w \<in> set (take i ws) \<longleftrightarrow> (\<exists>j < i. w = ws ! j)"
  by (auto simp: in_set_conv_nth)

lemma tph_pass_column:
  assumes "passed_t nb n lv L B i c" "i < columns c" "L = mp_level lv (c_depth c) (start_level lv)" "owns" "0 < k" "k \<le> n"
  shows "tph nb n k c (do {
         w \<leftarrow> get_c (\<lambda>c. i_data_parallel (inp c) ! i);
         w' \<leftarrow> message_passing a w i;
         update_c (set_parallel i w') }) (\<lambda>_ c'. passed_t nb n lv L B (Suc i) c')"
proof (rule tph_then_get, rule tph_bind)
  let ?ws = "i_data_parallel (inp c)" and ?U = "set (take i (i_data_parallel (inp c)))"
  have len: "length ?ws = columns c" and cx: "ctx_t nb n {} (ctx c) c lv" and B: "B \<le> n_wires c" and di: "distinct (take i ?ws)"
    using assms(1) by (simp_all add: passed_t_def Let_def)
  have old: "free c (?ws ! j)" "wok nb n {} c (?ws ! j) (any_tag n) L" "B \<le> ?ws ! j" if "j < i" for j
    using assms(1) that by (simp_all add: passed_t_def Let_def)
  have new: "wok nb n {} c (?ws ! j) (any_tag n) 0" "?ws ! j < B" if "i \<le> j" "j < columns c" for j
    using assms(1) that by (simp_all add: passed_t_def Let_def)
  have U: "w \<in> ?U \<longleftrightarrow> (\<exists>j < i. w = ?ws ! j)" for w using set_take_nth[of i ?ws] assms(2) len by simp
  have inU: "\<exists>j. j < i \<and> w = ?ws ! j" if "w \<in> ?U" for w using U[of w] that by blast
  have cU: "ctx_t nb n ?U (ctx c) c lv"
  proof (rule ctx_t_more[OF cx])
    fix w assume "w \<in> ?U"
    then obtain j where "j < i" "w = ?ws ! j" using inU by blast
    then show "\<exists>e m l. wok nb n {} c w (Ar e n m) l" using old(2) by blast
  qed
  have "?ws ! i \<notin> ?U"
  proof
    assume "?ws ! i \<in> ?U"
    then obtain j where "j < i" "?ws ! i = ?ws ! j" using inU by blast
    then show False using new(2)[of i] old(3)[of j] assms(2) by simp
  qed
  then have wi: "wok nb n ?U c (?ws ! i) (any_tag n) 0" using new(1)[of i] assms(2) by (simp add: wok_def)
  note m = tb_message_passing[OF cU wi assms(5,6), of i]
  have "\<forall>v \<in> ?U. free c v"
  proof
    fix v assume "v \<in> ?U"
    then obtain j where "j < i" "v = ?ws ! j" using inU by blast
    then show "free c v" using old(1) by simp
  qed
  then show "tph nb n k c (message_passing a (?ws ! i) i)
      (\<lambda>r c'. ext c c' \<and> grow {} c c' \<and> (state_t nb n ?U (n_wires c) c' r L \<and> (\<forall>v \<in> ?U. free c' v)))"
    using tph_tb[OF tb_protect[where U = "{}" and V = ?U, simplified, OF m]] assms(3) by simp
  fix w' c' assume c': "csound nb n k {} c" "csound nb n k {} c'" and s: "ext c c' \<and> grow {} c c' \<and>
    (state_t nb n ?U (n_wires c) c' w' L \<and> (\<forall>v \<in> ?U. free c' v))"
  have st: "step c c'" using s csound_len[OF c'(1)] by (simp add: step_def)
  have e: "inp c' = inp c" "ctx c' = ctx c" "columns c' = columns c" using s by (simp_all add: ext_def)
  have w': "wok nb n {} c' w' (any_tag n) L" "free c' w'" "n_wires c \<le> w'" "w' \<notin> ?U"
    using state_tD(1)[of nb n ?U "n_wires c" c' w' L] state_tD(2)[OF _ assms(4), of nb n ?U "n_wires c" c' w' L] s
    by (auto simp: wok_def)
  have fr: "free c' (?ws ! j)" if "j < i" for j
    using s U[of "?ws ! j"] that by blast
  show "tph nb n k c' (update_c (set_parallel i w')) (\<lambda>_ c''. passed_t nb n lv L B (Suc i) c'')"
  proof (rule tph_update, rule records_ctx)
    let ?c = "set_parallel i w' c'"
    have r: "records c' ?c" by (rule records_ctx)
    have ws: "i_data_parallel (inp ?c) = ?ws[i := w']" "ctx ?c = ctx c" "columns ?c = columns c" "n_wires ?c = n_wires c'"
      using e by (simp_all add: set_parallel_def)
    have frr: "free ?c v = free c' v" for v by (simp add: set_parallel_def free_def)
    have "take (Suc i) (?ws[i := w']) = take i ?ws @ [w']"
      using assms(2) len by (simp add: take_Suc_conv_app_nth)
    then have "distinct (take (Suc i) (?ws[i := w']))" using di w'(4) by simp
    moreover have "ctx_t nb n {} (ctx c) ?c lv"
      using ctx_t_step[OF st cx] by (simp add: ctx_t_def records_wok[OF r])
    moreover have "B \<le> n_wires c'" using B step_le[OF st] by simp
    moreover have "free c' (?ws[i := w'] ! j) \<and> wok nb n {} c' (?ws[i := w'] ! j) (any_tag n) L \<and> B \<le> ?ws[i := w'] ! j"
      if "j < Suc i" for j
      using that w' B fr[of j] old[of j] step_wok[OF st old(2)[of j]] assms(2) len by (cases "j = i") auto
    moreover have "wok nb n {} c' (?ws[i := w'] ! j) (any_tag n) 0 \<and> ?ws[i := w'] ! j < B" if "Suc i \<le> j" "j < columns c" for j
      using that new[of j] step_wok[OF st new(1)[of j]] by simp
    ultimately show "passed_t nb n lv L B (Suc i) ?c"
      unfolding passed_t_def Let_def ws records_wok[OF r] frr using len by simp
  qed
qed

text \<open>After post-processing the first \<open>i\<close> columns; all columns are unread and different.\<close>

definition post_t :: "nat \<Rightarrow> nat \<Rightarrow> nat \<Rightarrow> nat \<Rightarrow> nat \<Rightarrow> circuit \<Rightarrow> bool" where
  "post_t nb n lv L i c \<longleftrightarrow> (let ws = i_data_parallel (inp c) in
     ctx_t nb n {} (ctx c) c lv \<and> length ws = columns c \<and> distinct ws \<and>
     (\<forall>j < i. free c (ws ! j) \<and> (\<exists>e. wok nb n {} c (ws ! j) (Ar e n None) (plevel L))) \<and>
     (\<forall>j. i \<le> j \<and> j < columns c \<longrightarrow> free c (ws ! j) \<and> wok nb n {} c (ws ! j) (any_tag n) L))"

lemma passed_post: "passed_t nb n lv L B (columns c) c \<Longrightarrow> post_t nb n lv L 0 c"
proof -
  assume a: "passed_t nb n lv L B (columns c) c"
  then have "take (columns c) (i_data_parallel (inp c)) = i_data_parallel (inp c)" by (simp add: passed_t_def Let_def)
  then show ?thesis using a by (simp add: passed_t_def post_t_def Let_def)
qed

lemma tph_post_column:
  assumes "post_t nb n lv L i c" "i < columns c" "owns" "k \<le> n"
  shows "tph nb n k c (do {
         w \<leftarrow> get_c (\<lambda>c. i_data_parallel (inp c) ! i);
         w' \<leftarrow> a_post_mp a w i;
         update_c (set_parallel i w') }) (\<lambda>_ c'. post_t nb n lv L (Suc i) c')"
proof (rule tph_then_get, rule tph_bind)
  let ?ws = "i_data_parallel (inp c)"
  let ?U = "set ?ws - {?ws ! i}"
  have len: "length ?ws = columns c" and cx: "ctx_t nb n {} (ctx c) c lv" and di: "distinct ?ws"
    using assms(1) by (simp_all add: post_t_def Let_def)
  have ready: "free c (?ws ! j)" "\<exists>e. wok nb n {} c (?ws ! j) (Ar e n None) (plevel L)" if "j < i" for j
    using assms(1) that by (simp_all add: post_t_def Let_def)
  have todo: "free c (?ws ! j)" "wok nb n {} c (?ws ! j) (any_tag n) L" if "i \<le> j" "j < columns c" for j
    using assms(1) that by (simp_all add: post_t_def Let_def)
  have fr: "free c (?ws ! j)" if "j < columns c" for j using ready(1) todo(1) that by (cases "j < i") auto
  have "\<forall>v \<in> ?U. free c v" using fr len by (auto simp: in_set_conv_nth)
  moreover have wi: "wok nb n ?U c (?ws ! i) (any_tag n) L" using todo(2)[of i] assms(2) by (simp add: wok_def)
  have "tb nb n k ?U {?ws ! i} c (a_post_mp a (?ws ! i) i) (\<lambda>r c'.
        (\<exists>e. wok nb n ?U c' r (Ar e n None) (plevel L)) \<and> (owns \<longrightarrow> free c' r \<and> n_wires c \<le> r))"
    using tb_post_mp[OF assms(4) wi, of i] fr[OF assms(2)] assms(3) by simp
  ultimately show "tph nb n k c (a_post_mp a (?ws ! i) i)
      (\<lambda>r c'. ext c c' \<and> grow {?ws ! i} c c' \<and> (((\<exists>e. wok nb n ?U c' r (Ar e n None) (plevel L)) \<and>
         (owns \<longrightarrow> free c' r \<and> n_wires c \<le> r)) \<and> (\<forall>v \<in> ?U. free c' v)))"
    using tph_tb[OF tb_protect[where U = "{}" and V = ?U, simplified]] by blast
  fix w' c' assume c': "csound nb n k {} c" "csound nb n k {} c'" and s: "ext c c' \<and> grow {?ws ! i} c c' \<and>
    (((\<exists>e. wok nb n ?U c' w' (Ar e n None) (plevel L)) \<and> (owns \<longrightarrow> free c' w' \<and> n_wires c \<le> w')) \<and> (\<forall>v \<in> ?U. free c' v))"
  have e: "inp c' = inp c" "ctx c' = ctx c" "columns c' = columns c" using s by (simp_all add: ext_def)
  have w': "\<exists>e. wok nb n {} c' w' (Ar e n None) (plevel L)" "free c' w'" "n_wires c \<le> w'"
    using s assms(3) by (auto simp: wok_def)
  have keep: "wok nb n {} c' w t l" if "wok nb n {} c w t l" "w \<noteq> ?ws ! i" for w t l
    using wok_grow[OF _ _ csound_len[OF c'(1)] that(1)] s that(2) by blast
  have ne: "?ws ! j \<noteq> ?ws ! i" if "j \<noteq> i" "j < columns c" for j
    using di that assms(2) len by (simp add: nth_eq_iff_index_eq)
  show "tph nb n k c' (update_c (set_parallel i w')) (\<lambda>_ c''. post_t nb n lv L (Suc i) c'')"
  proof (rule tph_update, rule records_ctx)
    let ?c = "set_parallel i w' c'"
    have r: "records c' ?c" by (rule records_ctx)
    have ws: "i_data_parallel (inp ?c) = ?ws[i := w']" "ctx ?c = ctx c" "columns ?c = columns c"
      using e by (simp_all add: set_parallel_def)
    have frr: "free ?c v = free c' v" for v by (simp add: set_parallel_def free_def)
    have "w' \<notin> set ?ws"
    proof
      assume "w' \<in> set ?ws"
      then obtain j where "j < columns c" "w' = ?ws ! j" using len by (metis in_set_conv_nth)
      then show False using fr[of j] w'(3) by (simp add: free_def)
    qed
    then have "distinct (?ws[i := w'])" using di by (simp add: distinct_list_update)
    moreover have "ctx_t nb n {} (ctx c) ?c lv"
    proof -
      have "ctx_t nb n {} (ctx c) c' lv"
        by (rule ctx_t_grow[of "{?ws ! i}", OF _ csound_len[OF c'(1)] cx]) (use s todo(2)[of i] assms(2) in auto)
      then show ?thesis by (simp add: ctx_t_def records_wok[OF r])
    qed
    moreover have "free c' (?ws[i := w'] ! j) \<and> (\<exists>e. wok nb n {} c' (?ws[i := w'] ! j) (Ar e n None) (plevel L))"
      if "j < Suc i" for j
    proof (cases "j = i")
      case True
      then show ?thesis using w' assms(2) len by simp
    next
      case False
      then have j: "j < i" using that by simp
      then have n: "?ws ! j \<noteq> ?ws ! i" using ne assms(2) by simp
      have "?ws ! j \<in> ?U" using n j assms(2) len by simp
      then show ?thesis using s ready(2)[OF j] keep n False by auto
    qed
    moreover have "free c' (?ws[i := w'] ! j) \<and> wok nb n {} c' (?ws[i := w'] ! j) (any_tag n) L"
      if j: "Suc i \<le> j" "j < columns c" for j
    proof -
      have n: "?ws ! j \<noteq> ?ws ! i" using ne[of j] j by simp
      have "?ws ! j \<in> ?U" using n j len by simp
      then show ?thesis using s todo(2)[of j] keep n j by auto
    qed
    ultimately show "post_t nb n lv L (Suc i) ?c"
      unfolding post_t_def Let_def ws records_wok[OF r] frr using len by simp
  qed
qed

lemma tph_outputs:
  assumes "ctx_t nb n {} (ctx c) c lv" "\<And>w. w \<in> set ws \<Longrightarrow> \<exists>e l. wok nb n {} c w (Ar e n None) l" "0 < k" "k \<le> n"
    "m = length ws" "0 < m"
  shows "tph nb n k c (fold_build (\<lambda>i _. output_data (ws ! i)) [0..<m] ()) (\<lambda>_ c'. has_output c')"
proof -
  have "tph nb n k c (fold_build (\<lambda>i _. output_data (ws ! i)) [0..<m] ())
     (\<lambda>_ c'. (ctx_t nb n {} (ctx c') c' lv \<and> (\<forall>w \<in> set ws. \<exists>e l. wok nb n {} c' w (Ar e n None) l)) \<and>
        (0 < m \<longrightarrow> has_output c'))"
  proof (rule tph_upto[where I = "\<lambda>i c'. (ctx_t nb n {} (ctx c') c' lv \<and>
      (\<forall>w \<in> set ws. \<exists>e l. wok nb n {} c' w (Ar e n None) l)) \<and> (0 < i \<longrightarrow> has_output c')"])
    fix i c' assume i: "i < m" and cs: "csound nb n k {} c'"
      and c0: "(ctx_t nb n {} (ctx c') c' lv \<and> (\<forall>w \<in> set ws. \<exists>e l. wok nb n {} c' w (Ar e n None) l)) \<and>
        (0 < i \<longrightarrow> has_output c')"
    note c' = conjunct1[OF c0]
    obtain e l where w: "wok nb n {} c' (ws ! i) (Ar e n None) l" using c' i assms(5) by fastforce
    show "tph nb n k c' (output_data (ws ! i)) (\<lambda>_ c'. (ctx_t nb n {} (ctx c') c' lv \<and>
        (\<forall>w \<in> set ws. \<exists>e l. wok nb n {} c' w (Ar e n None) l)) \<and> (0 < Suc i \<longrightarrow> has_output c'))"
    proof (rule tph_conseq[OF tph_tb[OF tb_output_data[OF conjunct1[OF c'] w assms(3,4)]]])
      fix r c'' assume s: "ext c' c'' \<and> grow {} c' c'' \<and> has_output c''"
      then have "step c' c''" "ctx c'' = ctx c'" using csound_len[OF cs] by (simp_all add: step_def ext_def)
      then have "ctx_t nb n {} (ctx c'') c'' lv \<and> (\<forall>w \<in> set ws. \<exists>e l. wok nb n {} c'' w (Ar e n None) l)"
        using c' ctx_t_step step_wok by metis
      then show "(ctx_t nb n {} (ctx c'') c'' lv \<and> (\<forall>w \<in> set ws. \<exists>e l. wok nb n {} c'' w (Ar e n None) l)) \<and>
        (0 < Suc i \<longrightarrow> has_output c'')" using s by blast
    qed
  qed (use assms(1,2) in blast)
  then show ?thesis by (rule tph_conseq) (use assms(6) in simp)
qed

lemma tph_finish:
  assumes "post_t nb n lv L (columns c) c" "1 < columns c" "owns" "cols_ok k (columns c)" "0 < k" "k \<le> n"
    "cols = columns c"
  shows "tph nb n k c (do {
       ws \<leftarrow> get_c (\<lambda>c. i_data_parallel (inp c));
       agg \<leftarrow> a_post_mp_aggregate a ws;
       (case agg of
          Some w \<Rightarrow> output_data w
        | None \<Rightarrow> fold_build (\<lambda>i _. output_data (ws ! i)) [0..<cols] ()) }) (\<lambda>_ c'. has_output c')"
proof (rule tph_then_get, rule tph_bind)
  let ?ws = "i_data_parallel (inp c)"
  have len: "length ?ws = columns c" and cx: "ctx_t nb n {} (ctx c) c lv"
    using assms(1) by (simp_all add: post_t_def Let_def)
  have ws: "free c w \<and> (\<exists>e. wok nb n {} c w (Ar e n None) (plevel L))" if "w \<in> set ?ws" for w
    using assms(1) that len by (auto simp: post_t_def Let_def in_set_conv_nth)
  show "tph nb n k c (a_post_mp_aggregate a ?ws) (\<lambda>r c'. ext c c' \<and> grow (set ?ws) c c' \<and>
      (case r of Some w \<Rightarrow> \<exists>e l. wok nb n {} c' w (Ar e n None) l
        | None \<Rightarrow> \<forall>w \<in> set ?ws. \<exists>e l. wok nb n {} c' w (Ar e n None) l))"
    by (rule tph_tb, rule tb_aggregate[OF assms(3) _ _ assms(6) ws]) (use assms(2,4) len in auto)
  fix agg c' assume c: "csound nb n k {} c" and s: "ext c c' \<and> grow (set ?ws) c c' \<and>
      (case agg of Some w \<Rightarrow> \<exists>e l. wok nb n {} c' w (Ar e n None) l
        | None \<Rightarrow> \<forall>w \<in> set ?ws. \<exists>e l. wok nb n {} c' w (Ar e n None) l)"
  have e: "ctx c' = ctx c" using s by (simp add: ext_def)
  have cx': "ctx_t nb n {} (ctx c') c' lv" unfolding e
    by (rule ctx_t_grow[of "set ?ws", OF _ csound_len[OF c] cx]) (use s ws in blast)+
  show "tph nb n k c' (case agg of Some w \<Rightarrow> output_data w
        | None \<Rightarrow> fold_build (\<lambda>i _. output_data (?ws ! i)) [0..<cols] ()) (\<lambda>_ c'. has_output c')"
  proof (cases agg)
    case None
    then show ?thesis using tph_outputs[OF cx' _ assms(5,6), of ?ws cols] s len assms(2,7) by simp
  next
    case (Some w)
    then obtain e l where "wok nb n {} c' w (Ar e n None) l" using s by auto
    then show ?thesis using tph_conseq[OF tph_tb[OF tb_output_data[OF cx' _ assms(5,6)]]] Some by simp
  qed
qed

lemma post_t_raise: "post_t nb n lv L i (c\<lparr>shuffle_idx := s\<rparr>) = post_t nb n lv L i c"
  by (simp add: post_t_def Let_def ctx_t_def wok_def free_def)

lemma tph_run_columns:
  assumes "ctx_t nb n {} (ctx c) c lv" "data_t nb n c" "0 < k" "k \<le> n"
    "1 < columns c \<longrightarrow> owns \<and> cols_ok k (columns c)"
  shows "tph nb n k c (run_columns a) (\<lambda>_ c'. has_output c')"
proof (cases "1 < columns c")
  case True
  define L where "L = mp_level lv (c_depth c) (start_level lv)"
  have own: "owns" "cols_ok k (columns c)" using assms(5) True by blast+
  have start: "passed_t nb n lv L (n_wires c) 0 c"
    using assms(1,2) True by (auto simp: passed_t_def Let_def data_t_def wok_def)
  show ?thesis
    unfolding run_columns_def
    apply (rule tph_then_get)
    unfolding if_P[OF True]
    apply (rule tph_bind)
     apply (rule tph_upto[where I = "\<lambda>i c'. passed_t nb n lv L (n_wires c) i c'", OF start])
     apply (rule tph_pass_column, assumption, simp add: evolve_def, simp add: L_def evolve_def, rule own(1), rule assms(3), rule assms(4))
    apply (rule tph_then_update, rule records_ctx)
    apply (rule tph_bind)
     apply (rule tph_upto[where I = "\<lambda>i c'. post_t nb n lv L i c'"])
      apply (simp only: post_t_raise, rule passed_post, simp add: evolve_def)
     apply (rule tph_post_column, assumption, simp add: evolve_def, rule own(1), rule assms(4))
    apply (rule tph_finish)
          apply (simp add: evolve_def)
         apply (insert True, simp add: evolve_def)[]
        apply (rule own(1))
       apply (simp add: evolve_def own(2))
      apply (rule assms(3))
     apply (rule assms(4))
    apply (simp add: evolve_def)
    done
next
  case False
  have d: "wok nb n {} c (i_data (inp c)) (any_tag n) 0" using assms(2) by (simp add: data_t_def)
  show ?thesis
    unfolding run_columns_def
    apply (rule tph_then_get)
    unfolding if_not_P[OF False]
    apply (rule tph_then_get)
    apply (rule tph_seq, rule tb_message_passing[OF assms(1) d assms(3,4)])
    apply (rule tph_then_update, rule records_ctx)
    subgoal premises p for out c1
    proof -
      let ?c = "c1\<lparr>shuffle_idx := shuffle_idx c1 + 3\<rparr>"
      have r: "records c1 ?c" by (rule records_ctx)
      have e: "ctx ?c = ctx c" using p(2) by (simp add: step_def ext_def)
      have w: "wok nb n {} ?c out (any_tag n) (mp_level lv (c_depth c) (start_level lv))"
        using state_tD(1)[OF p(3)] by (simp add: records_wok[OF r])
      have fr: "owns \<longrightarrow> free ?c out" using state_tD(2)[OF p(3)] by (simp add: free_def)
      have cx: "ctx_t nb n {} (ctx c) ?c lv"
        using ctx_t_step[OF p(2) assms(1)] by (simp add: ctx_t_def records_wok[OF r])
      show ?thesis
      proof (rule tph_bind, rule tph_tb, rule tb_post_mp[OF assms(4) w fr])
        fix r c2 assume c: "csound nb n k {} ?c" and s: "ext ?c c2 \<and> grow (if owns then {out} else {}) ?c c2 \<and>
          (\<exists>e. wok nb n {} c2 r (Ar e n None) (plevel (mp_level lv (c_depth c) (start_level lv)))) \<and>
          (owns \<longrightarrow> free c2 r \<and> n_wires ?c \<le> r)"
        have e2: "ctx c2 = ctx c" using s e by (simp add: ext_def)
        have "ctx_t nb n {} (ctx c2) c2 lv" unfolding e2
          by (rule ctx_t_grow[of "if owns then {out} else {}", OF _ csound_len[OF c] cx]) (use s w in \<open>auto split: if_splits\<close>)
        moreover obtain e' where "wok nb n {} c2 r (Ar e' n None) (plevel (mp_level lv (c_depth c) (start_level lv)))"
          using s by blast
        ultimately have "tb nb n k {} {} c2 (output_data r) (\<lambda>_ c'. has_output c')"
          by (intro tb_output_data[OF _ _ assms(3,4)])
        then show "tph nb n k c2 (output_data r) (\<lambda>_ c'. has_output c')" by (rule tph_conseq[OF tph_tb]) simp
      qed
    qed
    done
qed

section \<open>The whole build\<close>

theorem build_gates_typed:
  assumes "fresh c" "0 < c_nodes c" "c_nodes c \<le> c_size c"
    "1 < columns c \<longrightarrow> owns \<and> cols_ok (c_nodes c) (columns c)"
  shows "sound (c_bits c) (c_size c) (c_nodes c) (gates (snd (run_state (build_gates a) c))) \<and>
     inputs_within (input_count (c_bits c) (columns c)) (gates (snd (run_state (build_gates a) c))) \<and>
     has_output (snd (run_state (build_gates a) c))"
proof -
  let ?nb = "c_bits c" and ?n = "c_size c" and ?k = "c_nodes c" and ?c = "lock_options c"
  have e: "n_wires ?c = 0" "c_bits ?c = ?nb" "columns ?c = columns c" "gates ?c = []" "n_wires c = 0"
    "length (i_data_parallel (inp ?c)) = (if columns ?c > 1 then columns ?c else 0)"
    using assms(1) by (simp_all add: fresh_def lock_options_def)
  have "sound ?nb ?n ?k []" by (simp add: sound_def gates_ok_def checked_def single_reader_def)
  then have cs: "csound ?nb ?n ?k {} ?c" using e by (simp add: csound_def lock_options_def inputs_within_def)
  have "tph ?nb ?n ?k ?c (do { set_inputs; pre_mp; compute_sorts; prepare_shuffles; run_columns a }) (\<lambda>_ c'. has_output c')"
    apply (rule tph_bind[OF tph_set_inputs[OF e(1,2,6)]])
    apply (rule tph_bind[OF tph_pre_mp], assumption)
     using assms(2,3) apply simp
    apply (rule tph_bind[OF tph_compute_sorts], simp add: evolve_def)
    apply (rule tph_bind[OF tph_prepare_shuffles], rule inputs_data, erule conjunct1, erule conjunct2)
    apply (elim conjE exE)
    apply (rule tph_run_columns, assumption, assumption, rule assms(2), rule assms(3))
    using assms(4) e(3) apply (simp add: evolve_def)
    done
  then show ?thesis using cs
    using e(3)
    by (auto simp: tph_def build_gates_def update_c_def State_Monad.bind_def csound_def evolve_def split: prod.splits)
qed

theorem typed_build:
  assumes "fresh c" "0 < c_nodes c" "c_nodes c \<le> c_size c" "c_raised (snd (run_state (build_gates a) c)) = None"
    "1 < columns c \<longrightarrow> owns \<and> cols_ok (c_nodes c) (columns c)"
  shows "\<exists>gs ci. build a c = Inr ci \<and> built_from gs ci \<and> columns ci = columns c \<and>
     sound (c_bits c) (c_size c) (c_nodes c) gs \<and> inputs_within (input_count (c_bits c) (columns c)) gs \<and>
     (\<exists>f \<in> set gs. gt f = Output)"
  using build_result[OF assms(1,4)] build_gates_typed[OF assms(1-3,5)] unfolding has_output_def by blast

end

end
