(* ===== verification/Typed_Algorithms.thy ===== *)
theory Typed_Algorithms
  imports Phase_Types
begin

text \<open>
  Every algorithm of the repository keeps the typed contract, so that every circuit it builds is
  well typed: the protocol computes it, and its evaluation never fails.
\<close>

section \<open>They keep the typed contract\<close>

lemma tb_bfs_apply:
  assumes "wok nb n U c w (any_tag n) l" "wok nb n U c u (any_tag n) l'" "0 < u"
  shows "tb nb n k U {} c (bfs_apply w u i col) (\<lambda>r c'. wok nb n U c' r (any_tag n) (max l l') \<and>
     (free c' r \<and> n_wires c \<le> r))"
proof -
  have "0 < n_wires c" using assms(1) by (auto simp: wok_def)
  then show ?thesis unfolding bfs_apply_def lib_add_def
    by (intro tb_conseq[OF tb_sums(1)[OF assms]]) (auto simp: made_def)
qed

lemma tb_bfs_post:
  assumes "k \<le> n" "wok nb n U c w (any_tag n) l" "free c w"
  shows "tb nb n k U {w} c (bfs_post_mp w col) (\<lambda>r c'. (\<exists>e. wok nb n U c' r (Ar e n None) (l + 6)) \<and>
     (free c' r \<and> n_wires c \<le> r))"
  unfolding bfs_post_mp_def lib_clip_def
  by (rule tb_use[OF tb_clip[OF assms(2,1,3)]])
    (use made_wok made_free assms(2) in \<open>auto intro!: tb_return simp: made_def wok_def\<close>)

lemma tb_bfs3_init:
  assumes "k \<le> n"
  shows "tb nb n k U {} c (bfs3_init_nodes col) (\<lambda>r c'. \<exists>w. r = Some w \<and> made nb n U c c' w (any_tag n) 0)"
proof (rule tbI)
  assume "csound nb n k U c"
  then have "length (one_hot (c_nodes c) col) \<le> n" using assms by (simp add: csound_def one_hot_def)
  then show "tb nb n k U {} c (bfs3_init_nodes col) (\<lambda>r c'. \<exists>w. r = Some w \<and> made nb n U c c' w (any_tag n) 0)"
    unfolding bfs3_init_nodes_def lib_set_const_vector_def
    by (intro tb_then_get tb_then_guard tb_seq[OF tb_const_vec] tb_return) (auto simp: made_def raised_same)
qed

lemma tb_zero_init:
  assumes "k \<le> n"
  shows "tb nb n k U {} c (zero_init_nodes col) (\<lambda>r c'. \<exists>w. r = Some w \<and> made nb n U c c' w (any_tag n) 0)"
proof (rule tbI)
  assume "csound nb n k U c"
  then have "length (replicate (c_nodes c) (0 :: ring)) \<le> n" using assms by (simp add: csound_def)
  then show "tb nb n k U {} c (zero_init_nodes col) (\<lambda>r c'. \<exists>w. r = Some w \<and> made nb n U c c' w (any_tag n) 0)"
    unfolding zero_init_nodes_def lib_set_const_vector_def
    by (intro tb_then_get tb_seq[OF tb_const_vec] tb_return) auto
qed

lemma tb_pi_prepare:
  assumes "wok nb n U c w (any_tag n) l"
  shows "tb nb n k U {} c (pi_prepare ws w i col) (\<lambda>r c'. wok nb n U c' r (any_tag n) l)"
  unfolding pi_prepare_def lib_add_constant_def
  by (rule tb_then_guard, rule tb_conseq[OF tb_local(5)]) (use assms in \<open>auto simp: raised_same made_wok\<close>)

lemma tb_pi_r_aggregate:
  assumes "1 < length ws" "k \<le> length ws" "k \<le> n"
    "\<And>w. w \<in> set ws \<Longrightarrow> free c w \<and> (\<exists>e. wok nb n U c w (Ar e n None) l)"
  shows "tb nb n k U (set ws) c (pi_r_aggregate ws) (\<lambda>r c'.
     case r of Some w \<Rightarrow> \<exists>e l. wok nb n U c' w (Ar e n None) l
     | None \<Rightarrow> \<forall>w \<in> set ws. \<exists>e l. wok nb n U c' w (Ar e n None) l)"
proof -
  have "ws \<noteq> []" using assms(1) by auto
  then have "tb nb n k U (set ws) c (lib_column_sums_to_nodes ws) (\<lambda>r c'. made nb n U c c' r (any_tag n) l)"
    using assms(2-4) by (intro tb_columns) blast+
  then show ?thesis unfolding pi_r_aggregate_def
    by (rule tb_use) (rule tb_return, simp, blast intro: made_wok)
qed

lemma tb_no_aggregate:
  assumes "\<And>w. w \<in> set ws \<Longrightarrow> free c w \<and> (\<exists>e. wok nb n U c w (Ar e n None) l)"
  shows "tb nb n k U (set ws) c (default_post_mp_aggregate ws) (\<lambda>r c'.
     case r of Some w \<Rightarrow> \<exists>e l. wok nb n U c' w (Ar e n None) l
     | None \<Rightarrow> \<forall>w \<in> set ws. \<exists>e l. wok nb n U c' w (Ar e n None) l)"
  unfolding default_post_mp_aggregate_def using assms by (intro tb_return) fastforce

lemma tb_no_init: "tb nb n k U {} c (default_init_nodes col) (\<lambda>r c'. r = None \<and> (\<forall>v. free c v \<longrightarrow> free c' v))"
  unfolding default_init_nodes_def by (rule tb_return) simp

lemmas tb_methods = tb_bfs_apply tb_bfs_post tb_bfs3_init tb_zero_init tb_pi_prepare tb_pi_r_aggregate
  tb_no_aggregate tb_no_init

interpretation bfs_typed: typed_algorithm bfs True False max "\<lambda>l. l + 6" "\<lambda>_ _. True"
  by unfold_locales
    (auto simp: bfs_def base_algo_def default_prepare_def call_apply_def intro!: tb_methods tb_return)

interpretation bfs3_typed: typed_algorithm bfs3 True True max "\<lambda>l. l + 6" "\<lambda>_ _. True"
  by unfold_locales
    (auto simp: bfs3_def base_algo_def default_prepare_def call_apply_def intro!: tb_methods tb_return)

interpretation pi_m_typed: typed_algorithm "pi_m ws" False True "\<lambda>_ l. l" "\<lambda>l. l" "\<lambda>_ _. False" for ws
  by unfold_locales
    (auto simp: pi_m_def base_algo_def default_post_mp_def call_apply_def pi_apply_def intro!: tb_methods tb_return)

interpretation pi_k_typed: typed_algorithm "pi_k ws" False True "\<lambda>_ l. l" "\<lambda>l. l" "\<lambda>_ _. False" for ws
  by unfold_locales
    (auto simp: pi_k_def base_algo_def default_post_mp_def call_apply_def pi_apply_def intro!: tb_methods tb_return)

interpretation pi_r_typed: typed_algorithm pi_r True True max "\<lambda>l. l + 6" "\<lambda>k cols. k \<le> cols"
  by unfold_locales
    (auto simp: pi_r_def base_algo_def default_prepare_def call_apply_def intro!: tb_methods tb_return)

interpretation custom_typed: typed_algorithm custom False False "\<lambda>l _. l" "\<lambda>l. l" "\<lambda>_ _. False"
  by unfold_locales
    (auto simp: custom_def base_algo_def default_prepare_def default_post_mp_def call_apply_def custom_apply_def
      intro!: tb_methods tb_return)

section \<open>Every circuit that is built runs\<close>

text \<open>The number of columns each algorithm is constructed with, and that it stays within its vectors.\<close>

definition columns_fit :: "algo \<Rightarrow> vec \<Rightarrow> circuit \<Rightarrow> bool" where
  "columns_fit a ws c \<longleftrightarrow> in_bounds a ws c \<and> (a \<in> {bfs, bfs3} \<or> a \<in> {pi_m ws, pi_k ws, custom} \<and> columns c = 1 \<or>
     a = pi_r \<and> c_nodes c \<le> columns c)"

lemma algorithm_typed:
  assumes "fresh c" "0 < c_nodes c" "c_nodes c \<le> c_size c" "columns_fit a ws c"
  shows "\<exists>gs ci. build a c = Inr ci \<and> built_from gs ci \<and> columns ci = columns c \<and>
     sound (c_bits c) (c_size c) (c_nodes c) gs \<and> inputs_within (input_count (c_bits c) (columns c)) gs \<and>
     (\<exists>f \<in> set gs. gt f = Output)"
proof -
  have ap: "c_raised (snd (run_state (build_gates a) c)) = None"
    using in_bounds_silent[of a ws c] fresh_raised[OF assms(1)] assms(4) by (simp add: columns_fit_def)
  consider "a = bfs" | "a = bfs3" | "a = pi_m ws" "columns c = 1" | "a = pi_k ws" "columns c = 1"
    | "a = custom" "columns c = 1" | "a = pi_r" "c_nodes c \<le> columns c"
    using assms(4) unfolding columns_fit_def by blast
  then show ?thesis
  proof cases
    case 1
    then show ?thesis using bfs_typed.typed_build[OF assms(1-3)] ap by simp
  next
    case 2
    then show ?thesis using bfs3_typed.typed_build[OF assms(1-3)] ap by simp
  next
    case 3
    show ?thesis unfolding 3(1) by (rule pi_m_typed.typed_build[OF assms(1-3)]) (use 3 ap in simp_all)
  next
    case 4
    show ?thesis unfolding 4(1) by (rule pi_k_typed.typed_build[OF assms(1-3)]) (use 4 ap in simp_all)
  next
    case 5
    show ?thesis unfolding 5(1) by (rule custom_typed.typed_build[OF assms(1-3)]) (use 5 ap in simp_all)
  next
    case 6
    then show ?thesis using pi_r_typed.typed_build[OF assms(1-3)] ap by simp
  qed
qed

text \<open>What the protocol needs of a built circuit.\<close>

lemma set_layers: "built_from gs ci \<Longrightarrow> set (concat (circ ci)) = set gs"
  using mset_layers[of gs] by (metis built_from_def mset_eq_setD)

lemma sound_built:
  assumes "sound nb n k gs" "built_from gs ci"
  shows "circuit_runs n k (n_wires ci) (circ ci)" "dealable ci (concat (circ ci))"
    "list_all (typed (wkind nb n gs)) (concat (circ ci))"
proof -
  show "circuit_runs n k (n_wires ci) (circ ci)" "dealable ci (concat (circ ci))"
    using sound_circuit_runs[OF assms(1)] built_dealable[OF assms] assms(2) by (simp_all add: built_from_def)
  show "list_all (typed (wkind nb n gs)) (concat (circ ci))"
    unfolding list_all_iff set_layers[OF assms(2)] using sound_typed[OF assms(1)] by blast
qed

lemma typed_same:
  "set xs = set ys \<Longrightarrow> inputs_typed nb n xs ins = inputs_typed nb n ys ins"
  "set xs = set ys \<Longrightarrow> perms_typed n xs \<Pi> = perms_typed n ys \<Pi>"
  by (simp_all add: inputs_typed_def perms_typed_def)

lemma sound_built_evaluates:
  assumes "sound nb n k gs" "built_from gs ci" "n \<le> 2 ^ 32" "inputs_typed nb n (concat (circ ci)) ins"
    "perms_typed n (concat (circ ci)) \<Pi>"
  shows "\<exists>out. plain_eval n k \<Pi> ins (concat (circ ci)) = Inr out \<and>
     length out = n * length (filter (\<lambda>f. gt f = Output) gs)"
  using sound_evaluates[OF assms(1,3)] assms(2,4,5) typed_same[OF set_layers[OF assms(2)]]
  by (simp add: built_from_def)

section \<open>Properties\<close>

text \<open>C2: The circuit of every algorithm meets what the protocol asks of a circuit: it builds, its layers are
  ordered so that every gate finds its inputs and its shuffles, its readers are counted as the store of
  wires needs, it can be dealt and is well typed, and evaluated on inputs of the size of the graph it
  never fails, whatever permutations the dealer draws.\<close>

theorem algorithms_run:
  assumes "fresh c" "0 < c_nodes c" "c_nodes c \<le> c_size c" "c_size c \<le> 2 ^ 32" "columns_fit a ws c"
  shows "\<exists>ci \<kappa>. build a c = Inr ci \<and> circuit_runs (c_size c) (c_nodes c) (n_wires ci) (circ ci) \<and>
     dealable ci (concat (circ ci)) \<and> list_all (typed \<kappa>) (concat (circ ci)) \<and>
     (\<forall>\<Pi> ins. perms_typed (c_size c) (concat (circ ci)) \<Pi> \<and>
        inputs_typed (c_bits c) (c_size c) (concat (circ ci)) ins \<longrightarrow>
        (\<exists>out. plain_eval (c_size c) (c_nodes c) \<Pi> ins (concat (circ ci)) = Inr out))"
proof -
  obtain gs ci where b: "build a c = Inr ci" "built_from gs ci" "sound (c_bits c) (c_size c) (c_nodes c) gs"
    using algorithm_typed[OF assms(1-3,5)] by blast
  then show ?thesis using sound_built[OF b(3,2)] sound_built_evaluates[OF b(3,2) assms(4)] by blast
qed

lemma algorithms_run_witness:
  "\<exists>ci. build (pi_k [5, 7]) (tiny_circuit 1) = Inr ci \<and> circuit_runs 4 2 (n_wires ci) (circ ci)"
proof -
  have "fresh (tiny_circuit 1)" unfolding tiny_circuit_def by (rule fresh_new_circuit)
  then show ?thesis
    using algorithms_run[of "tiny_circuit 1" "pi_k [5, 7]" "[5, 7]"]
    by (auto simp: columns_fit_def in_bounds_def tiny_circuit_def new_circuit_def tiny_conf_def)
qed

end
