(* ===== verification/Input_Sharing.thy ===== *)
theory Input_Sharing
  imports Dag_Graph Network
begin

text \<open>
  \<open>src/src/data_interface/input-sharing\<close>: a client shares its slice of the DAG list and sends each
  server one packet; a server merges the packets of all clients into one shared graph and checks
  that the slices neither overlap nor reach behind the end. The lemmas give the closed form of
  the merge and show that merged shares reconstruct to the slices.
\<close>

section \<open>Client\<close>

record packet =
  pk_start :: nat
  pk_end :: nat
  pk_entries :: vec

text \<open>
  What \<open>InputClient::send_graph\<close> sends: to each server the node count and a packet, to the dealer
  the node count and the size.
\<close>

definition make_packet :: "nat \<Rightarrow> nat \<Rightarrow> graph \<Rightarrow> packet" where
  "make_packet bits start share =
     \<lparr>pk_start = start, pk_end = start + gsize share, pk_entries = serialize share bits\<rparr>"

definition send_graph ::
  "'g prg_ops \<Rightarrow> 'g \<Rightarrow> graph \<Rightarrow> nat \<Rightarrow> nat \<Rightarrow>
     ((nat \<times> packet) \<times> (nat \<times> packet) \<times> (nat \<times> nat)) res" where
  "send_graph P rng g bits start =
     bindr (secret_share P rng g bits) (\<lambda>(share_0, share_1).
       Inr ((nodes share_0, make_packet bits start share_0),
            (nodes share_1, make_packet bits start share_1),
            (nodes g, gsize g)))"

definition recv_result :: "nat \<Rightarrow> vec \<Rightarrow> vec \<Rightarrow> vec" where
  "recv_result sz share_0 share_1 = map (\<lambda>i. share_0 ! i + share_1 ! i) [0..<sz]"

section \<open>Server\<close>

definition recv_nodes :: "nat list \<Rightarrow> nat" where
  "recv_nodes counts = fold (\<lambda>n tot. tot + n) counts 0"

definition recv_size :: "nat list \<Rightarrow> nat" where
  "recv_size sizes = fold (\<lambda>n tot. tot + n) sizes 0"

text \<open>\<open>recv_packet\<close>: header first, then the payload, whose length follows from the header.\<close>

definition recv_packet :: "nat \<Rightarrow> packet \<Rightarrow> packet res" where
  "recv_packet bits msg =
     (if pk_end msg < pk_start msg then Inl (Runtime_Error ''Invalid packet: end < start'')
      else
        let n_entries = pk_end msg - pk_start msg;
            elems_to_recv = 4 * n_entries + 2 * n_entries * bits
        in if n_entries = 0 then Inr (msg\<lparr>pk_entries := []\<rparr>)
           else bindr (net_recv elems_to_recv (pk_entries msg))
                  (\<lambda>(entries, _). Inr (msg\<lparr>pk_entries := entries\<rparr>)))"

text \<open>One packet per client, and the slice of the client is recorded for the result.\<close>

definition recv_packets :: "nat \<Rightarrow> packet list \<Rightarrow> net_slices \<Rightarrow> (packet list \<times> net_slices) res" where
  "recv_packets bits msgs net =
     foldr_res (\<lambda>(pkts, net) client.
         bindr (recv_packet bits (msgs ! client)) (\<lambda>pkt.
         bindr (record_slice client (pk_start pkt) (pk_end pkt) net) (\<lambda>net'.
           Inr (pkts @ [pkt], net'))))
       ([], net) [0..<length msgs]"

text \<open>The vectors being filled.\<close>

record merge_state =
  m_src :: vec
  m_dst :: vec
  m_isV :: vec
  m_data :: vec
  m_src_bits :: "vec list"
  m_dst_bits :: "vec list"
  is_provided :: "bool list"

definition merge_init :: "nat \<Rightarrow> nat \<Rightarrow> merge_state" where
  "merge_init bits tot =
     \<lparr>m_src = replicate tot 0, m_dst = replicate tot 0, m_isV = replicate tot 0,
      m_data = replicate tot 0, m_src_bits = replicate bits (replicate tot 0),
      m_dst_bits = replicate bits (replicate tot 0), is_provided = replicate tot False\<rparr>"

definition conflict :: err where
  "conflict = Runtime_Error ''Conflicting overlapping client inputs''"

text \<open>
  The loop over the entries of one packet: the \<open>k\<close>-th entry of the packet goes to position
  \<open>start + k\<close>; \<open>pkt_idx\<close>, which runs through the payload, is \<open>4 * k\<close> at its beginning.
\<close>

definition merge_entry :: "packet \<Rightarrow> merge_state \<Rightarrow> nat \<Rightarrow> merge_state res" where
  "merge_entry pkt st k =
     (let i = pk_start pkt + k;
          st' = st\<lparr>m_src := (m_src st)[i := pk_entries pkt ! (4 * k)],
                   m_dst := (m_dst st)[i := pk_entries pkt ! (4 * k + 1)],
                   m_isV := (m_isV st)[i := pk_entries pkt ! (4 * k + 2)],
                   m_data := (m_data st)[i := pk_entries pkt ! (4 * k + 3)]\<rparr>
      in if is_provided st ! i then Inl conflict
         else Inr (st'\<lparr>is_provided := (is_provided st')[i := True]\<rparr>))"

text \<open>The two loops over the bit vectors, which lie behind the entries in the payload.\<close>

definition merge_bits :: "nat \<Rightarrow> packet \<Rightarrow> nat \<Rightarrow> vec list \<Rightarrow> vec list" where
  "merge_bits bits pkt base rows =
     (let sz = pk_end pkt - pk_start pkt
      in map (\<lambda>i. scatter sz (\<lambda>k. pk_start pkt + k)
                    (\<lambda>k. pk_entries pkt ! (base + i * sz + k)) (rows ! i)) [0..<bits])"

definition merge_packet :: "nat \<Rightarrow> nat \<Rightarrow> merge_state \<Rightarrow> packet \<Rightarrow> merge_state res" where
  "merge_packet bits tot st pkt =
     (let sz = pk_end pkt - pk_start pkt
      in if pk_end pkt > tot
         then Inl (Runtime_Error ''Client trying to write graph entry out-of-bounds'')
         else bindr (foldr_res (merge_entry pkt) st [0..<sz]) (\<lambda>st'.
           Inr (st'\<lparr>m_src_bits := merge_bits bits pkt (4 * sz) (m_src_bits st'),
                    m_dst_bits := merge_bits bits pkt (4 * sz + bits * sz) (m_dst_bits st')\<rparr>)))"

definition total_size :: "packet list \<Rightarrow> nat" where
  "total_size pkts = fold (\<lambda>pkt tot. tot + (pk_end pkt - pk_start pkt)) pkts 0"

definition merge_packets :: "nat \<Rightarrow> packet list \<Rightarrow> merge_state res" where
  "merge_packets bits pkts =
     foldr_res (merge_packet bits (total_size pkts)) (merge_init bits (total_size pkts)) pkts"

text \<open>The loop that adds up the sizes asserts that no packet is empty and each has its payload.\<close>

definition packets_complete :: "nat \<Rightarrow> packet list \<Rightarrow> bool" where
  "packets_complete bits pkts =
     list_all (\<lambda>p. pk_start p < pk_end p \<and>
                    length (pk_entries p) = (4 + 2 * bits) * (pk_end p - pk_start p)) pkts"

definition missing :: err where
  "missing = Runtime_Error ''At least one DAG list entry was not provided by the clients''"

text \<open>
  \<open>recv_graph\<close>: an exception while receiving is caught and gives the empty graph; an exception
  while merging leaves the function. The recorded slices are the second result of
  \<open>recv_packets\<close>.
\<close>

definition recv_graph :: "nat \<Rightarrow> nat list \<Rightarrow> packet list \<Rightarrow> net_slices \<Rightarrow> graph res" where
  "recv_graph bits counts msgs net =
     (let nodes_total = recv_nodes counts
      in case recv_packets bits msgs net of
           Inl (Runtime_Error e) \<Rightarrow> Inr graph_empty
         | Inl e \<Rightarrow> Inl e
         | Inr (pkts, _) \<Rightarrow>
             if \<not> packets_complete bits pkts then Inl Assertion_Failed
             else bindr (merge_packets bits pkts) (\<lambda>st.
               if \<not> list_all (\<lambda>b. b) (is_provided st) then Inl missing
               else graph_shared_bits (m_src st) (m_dst st) (m_isV st) (m_data st)
                      (m_src_bits st) (m_dst_bits st) nodes_total))"

section \<open>Closed form of the merge\<close>

definition merge_sizes :: "nat \<Rightarrow> nat \<Rightarrow> merge_state \<Rightarrow> bool" where
  "merge_sizes bits tot st \<longleftrightarrow>
     length (m_src st) = tot \<and> length (m_dst st) = tot \<and> length (m_isV st) = tot \<and>
     length (m_data st) = tot \<and> length (is_provided st) = tot \<and>
     length (m_src_bits st) = bits \<and> length (m_dst_bits st) = bits \<and>
     (\<forall>r \<in> set (m_src_bits st) \<union> set (m_dst_bits st). length r = tot)"

lemma merge_sizes_init: "merge_sizes bits tot (merge_init bits tot)"
  by (auto simp: merge_sizes_def merge_init_def)

definition filled :: "packet \<Rightarrow> nat \<Rightarrow> merge_state \<Rightarrow> merge_state" where
  "filled pkt n st =
     st\<lparr>m_src := scatter n (\<lambda>k. pk_start pkt + k) (\<lambda>k. pk_entries pkt ! (4 * k)) (m_src st),
        m_dst := scatter n (\<lambda>k. pk_start pkt + k) (\<lambda>k. pk_entries pkt ! (4 * k + 1)) (m_dst st),
        m_isV := scatter n (\<lambda>k. pk_start pkt + k) (\<lambda>k. pk_entries pkt ! (4 * k + 2)) (m_isV st),
        m_data := scatter n (\<lambda>k. pk_start pkt + k) (\<lambda>k. pk_entries pkt ! (4 * k + 3)) (m_data st),
        is_provided := scatter n (\<lambda>k. pk_start pkt + k) (\<lambda>_. True) (is_provided st)\<rparr>"

lemma scatter_Suc: "scatter (Suc n) g h xs = (scatter n g h xs)[g n := h n]"
  by (simp add: scatter_def)

lemma scatter_shift_nth:
  assumes "p + n \<le> length xs" "j < length xs"
  shows "scatter n (\<lambda>k. p + k) h xs ! j = (if p \<le> j \<and> j < p + n then h (j - p) else xs ! j)"
proof (cases "p \<le> j \<and> j < p + n")
  case True
  then have "scatter n (\<lambda>k. p + k) h xs ! (p + (j - p)) = h (j - p)"
    using assms by (intro scatter_nth) (auto simp: inj_on_def)
  then show ?thesis using True by simp
next
  case False
  then show ?thesis by (auto intro!: scatter_nth_other)
qed

lemma merge_entries_ok:
  assumes "pk_start pkt + n \<le> length (is_provided st)"
    and "\<And>k. k < n \<Longrightarrow> \<not> is_provided st ! (pk_start pkt + k)"
  shows "foldr_res (merge_entry pkt) st [0..<n] = Inr (filled pkt n st)"
  using assms
proof (induction n)
  case 0
  then show ?case by (simp add: filled_def scatter_def)
next
  case (Suc n)
  have "\<not> is_provided (filled pkt n st) ! (pk_start pkt + n)"
    using Suc.prems by (simp add: filled_def scatter_shift_nth)
  then show ?case using Suc
    by (simp add: foldr_res_append merge_entry_def filled_def scatter_Suc Let_def)
qed

lemma merge_entries_conflict:
  assumes "pk_start pkt + n \<le> length (is_provided st)"
    and "k < n" "is_provided st ! (pk_start pkt + k)"
  shows "foldr_res (merge_entry pkt) st [0..<n] = Inl conflict"
proof -
  define m where "m = (LEAST k. k < n \<and> is_provided st ! (pk_start pkt + k))"
  have m: "m < n" "is_provided st ! (pk_start pkt + m)"
    unfolding m_def using LeastI[of "\<lambda>k. k < n \<and> is_provided st ! (pk_start pkt + k)" k] assms
    by auto
  have "\<not> is_provided st ! (pk_start pkt + j)" if "j < m" for j
    using not_less_Least[of j "\<lambda>k. k < n \<and> is_provided st ! (pk_start pkt + k)"] that m(1)
    unfolding m_def by auto
  then have "foldr_res (merge_entry pkt) st [0..<m] = Inr (filled pkt m st)"
    using assms(1) m(1) by (intro merge_entries_ok) auto
  moreover have "merge_entry pkt (filled pkt m st) m = Inl conflict"
    using m assms(1) by (simp add: merge_entry_def filled_def scatter_shift_nth)
  moreover have "[0..<n] = [0..<m] @ m # [Suc m..<n]"
    using m(1) upt_add_eq_append[of 0 m "n - m"] upt_conv_Cons[of m n] by simp
  ultimately show ?thesis by (simp add: foldr_res_append)
qed

text \<open>Whether a packet is accepted after others is a matter of the positions already taken.\<close>

definition slots :: "packet \<Rightarrow> nat set" where
  "slots pkt = {pk_start pkt..<pk_end pkt}"

definition pkt_fits :: "nat \<Rightarrow> packet \<Rightarrow> bool" where
  "pkt_fits tot pkt \<longleftrightarrow> pk_start pkt \<le> pk_end pkt \<and> pk_end pkt \<le> tot"

definition taken :: "merge_state \<Rightarrow> nat set" where
  "taken st = {i. i < length (is_provided st) \<and> is_provided st ! i}"

lemma merge_packet_ok:
  assumes "merge_sizes bits tot st" "pkt_fits tot pkt" "slots pkt \<inter> taken st = {}"
  shows "\<exists>st'. merge_packet bits tot st pkt = Inr st' \<and> merge_sizes bits tot st' \<and>
     taken st' = taken st \<union> slots pkt \<and>
     m_src st' = m_src (filled pkt (pk_end pkt - pk_start pkt) st) \<and>
     m_dst st' = m_dst (filled pkt (pk_end pkt - pk_start pkt) st) \<and>
     m_isV st' = m_isV (filled pkt (pk_end pkt - pk_start pkt) st) \<and>
     m_data st' = m_data (filled pkt (pk_end pkt - pk_start pkt) st) \<and>
     m_src_bits st' = merge_bits bits pkt (4 * (pk_end pkt - pk_start pkt)) (m_src_bits st) \<and>
     m_dst_bits st' = merge_bits bits pkt (4 * (pk_end pkt - pk_start pkt)
                        + bits * (pk_end pkt - pk_start pkt)) (m_dst_bits st)"
proof -
  let ?n = "pk_end pkt - pk_start pkt"
  have fit: "pk_start pkt + ?n \<le> length (is_provided st)" "pk_start pkt + ?n = pk_end pkt"
    using assms by (auto simp: merge_sizes_def pkt_fits_def)
  have free: "\<not> is_provided st ! (pk_start pkt + k)" if "k < ?n" for k
  proof -
    have "pk_start pkt + k \<in> slots pkt" "pk_start pkt + k < length (is_provided st)"
      using that fit by (auto simp: slots_def)
    then show ?thesis using assms(3) by (auto simp: taken_def)
  qed
  have e: "foldr_res (merge_entry pkt) st [0..<?n] = Inr (filled pkt ?n st)"
    using fit(1) free by (rule merge_entries_ok)
  have lens: "\<forall>r \<in> set (merge_bits bits pkt b rows). length r = tot"
    if "\<forall>r \<in> set rows. length r = tot" "length rows = bits" for b rows
    using that by (auto simp: merge_bits_def Let_def)
  have tk: "taken (filled pkt ?n st) = taken st \<union> slots pkt"
    using fit assms(1) by (auto simp: taken_def filled_def slots_def scatter_shift_nth merge_sizes_def)
  show ?thesis
    using e assms(1,2) lens tk
    by (simp add: merge_packet_def merge_sizes_def pkt_fits_def filled_def taken_def Let_def ball_Un)
      (simp add: merge_bits_def Let_def)
qed

lemma merge_packet_conflict:
  assumes "merge_sizes bits tot st" "pkt_fits tot pkt" "slots pkt \<inter> taken st \<noteq> {}"
  shows "merge_packet bits tot st pkt = Inl conflict"
proof -
  let ?n = "pk_end pkt - pk_start pkt"
  obtain i where i: "i \<in> slots pkt" "i \<in> taken st" using assms(3) by blast
  have "foldr_res (merge_entry pkt) st [0..<?n] = Inl conflict"
    using assms(1,2) i
    by (intro merge_entries_conflict[where k = "i - pk_start pkt"])
       (auto simp: merge_sizes_def pkt_fits_def slots_def taken_def)
  then show ?thesis using assms(2) by (simp add: merge_packet_def pkt_fits_def)
qed

lemma merge_packet_out_of_bounds:
  "pk_end pkt > tot \<Longrightarrow> merge_packet bits tot st pkt =
     Inl (Runtime_Error ''Client trying to write graph entry out-of-bounds'')"
  by (simp add: merge_packet_def)

text \<open>A packet has arrived: its entries and bit vectors stand at its slots.\<close>

definition placed :: "nat \<Rightarrow> merge_state \<Rightarrow> packet \<Rightarrow> bool" where
  "placed bits st pkt \<longleftrightarrow>
     (let sz = pk_end pkt - pk_start pkt in
      \<forall>k < sz.
        m_src st ! (pk_start pkt + k) = pk_entries pkt ! (4 * k) \<and>
        m_dst st ! (pk_start pkt + k) = pk_entries pkt ! (4 * k + 1) \<and>
        m_isV st ! (pk_start pkt + k) = pk_entries pkt ! (4 * k + 2) \<and>
        m_data st ! (pk_start pkt + k) = pk_entries pkt ! (4 * k + 3) \<and>
        (\<forall>i < bits.
           m_src_bits st ! i ! (pk_start pkt + k) = pk_entries pkt ! (4 * sz + i * sz + k) \<and>
           m_dst_bits st ! i ! (pk_start pkt + k) =
             pk_entries pkt ! (4 * sz + bits * sz + i * sz + k)))"

lemma merge_bits_nth:
  assumes "i < bits" "length rows = bits" "\<forall>r \<in> set rows. length r = tot" "pk_end pkt \<le> tot"
    "pk_start pkt \<le> pk_end pkt" "j < tot"
  shows "merge_bits bits pkt base rows ! i ! j =
    (if pk_start pkt \<le> j \<and> j < pk_end pkt
     then pk_entries pkt ! (base + i * (pk_end pkt - pk_start pkt) + (j - pk_start pkt))
     else rows ! i ! j)"
proof -
  have "length (rows ! i) = tot" using assms(1-3) by simp
  then show ?thesis
    using assms by (simp add: merge_bits_def Let_def scatter_shift_nth)
qed

lemma merge_packet_placed:
  assumes "merge_sizes bits tot st" "pkt_fits tot pkt" "slots pkt \<inter> taken st = {}"
    and "merge_packet bits tot st pkt = Inr st'"
  shows "placed bits st' pkt"
    and "pkt_fits tot q \<Longrightarrow> slots q \<inter> slots pkt = {} \<Longrightarrow> placed bits st q \<Longrightarrow> placed bits st' q"
proof -
  from merge_packet_ok[OF assms(1-3)] assms(4) have
    e: "m_src st' = m_src (filled pkt (pk_end pkt - pk_start pkt) st)"
     "m_dst st' = m_dst (filled pkt (pk_end pkt - pk_start pkt) st)"
     "m_isV st' = m_isV (filled pkt (pk_end pkt - pk_start pkt) st)"
     "m_data st' = m_data (filled pkt (pk_end pkt - pk_start pkt) st)"
     "m_src_bits st' = merge_bits bits pkt (4 * (pk_end pkt - pk_start pkt)) (m_src_bits st)"
     "m_dst_bits st' = merge_bits bits pkt (4 * (pk_end pkt - pk_start pkt)
                        + bits * (pk_end pkt - pk_start pkt)) (m_dst_bits st)"
    by auto
  note facts = assms(1,2)[unfolded merge_sizes_def pkt_fits_def]
  have rows: "length (m_src_bits st) = bits" "\<forall>r \<in> set (m_src_bits st). length r = tot"
    "length (m_dst_bits st) = bits" "\<forall>r \<in> set (m_dst_bits st). length r = tot"
    using facts by auto
  show "placed bits st' pkt"
    using facts rows
    by (auto simp: placed_def e filled_def Let_def scatter_shift_nth merge_bits_nth[where tot = tot])
  assume q: "pkt_fits tot q" "slots q \<inter> slots pkt = {}" "placed bits st q"
  have off: "\<not> (pk_start pkt \<le> pk_start q + k \<and> pk_start q + k < pk_end pkt)"
    if "k < pk_end q - pk_start q" for k
  proof -
    have "pk_start q + k \<in> slots q" using that by (simp add: slots_def)
    then have "pk_start q + k \<notin> slots pkt" using q(2) by blast
    then show ?thesis by (simp add: slots_def)
  qed
  show "placed bits st' q"
    unfolding placed_def Let_def
  proof (intro allI impI conjI)
    fix k assume k: "k < pk_end q - pk_start q"
    then have lt: "pk_start q + k < tot" using q(1) unfolding pkt_fits_def by arith
    note h = q(3)[unfolded placed_def Let_def, rule_format, OF k] off[OF k] facts lt
    show "m_src st' ! (pk_start q + k) = pk_entries q ! (4 * k)"
      "m_dst st' ! (pk_start q + k) = pk_entries q ! (4 * k + 1)"
      "m_isV st' ! (pk_start q + k) = pk_entries q ! (4 * k + 2)"
      "m_data st' ! (pk_start q + k) = pk_entries q ! (4 * k + 3)"
      using h by (auto simp: e filled_def scatter_shift_nth)
    fix i assume i: "i < bits"
    show "m_src_bits st' ! i ! (pk_start q + k) =
        pk_entries q ! (4 * (pk_end q - pk_start q) + i * (pk_end q - pk_start q) + k)"
      "m_dst_bits st' ! i ! (pk_start q + k) =
        pk_entries q ! (4 * (pk_end q - pk_start q) + bits * (pk_end q - pk_start q)
                        + i * (pk_end q - pk_start q) + k)"
      using h rows i by (auto simp: e merge_bits_nth[where tot = tot])
  qed
qed

text \<open>Acceptance of a list of packets, as a check on their slices.\<close>

primrec fits_from :: "nat \<Rightarrow> nat set \<Rightarrow> packet list \<Rightarrow> bool" where
  "fits_from tot T [] = True"
| "fits_from tot T (p # ps) =
     (pkt_fits tot p \<and> slots p \<inter> T = {} \<and> fits_from tot (T \<union> slots p) ps)"

lemma merge_all:
  assumes "merge_sizes bits tot st" "fits_from tot (taken st) pkts"
  shows "\<exists>st'. foldr_res (merge_packet bits tot) st pkts = Inr st' \<and> merge_sizes bits tot st' \<and>
     taken st' = taken st \<union> (\<Union>p \<in> set pkts. slots p) \<and> (\<forall>p \<in> set pkts. placed bits st' p) \<and>
     (\<forall>q. pkt_fits tot q \<longrightarrow> slots q \<subseteq> taken st \<longrightarrow> placed bits st q \<longrightarrow> placed bits st' q)"
  using assms
proof (induction pkts arbitrary: st)
  case Nil
  then show ?case by simp
next
  case (Cons p ps)
  then have p: "pkt_fits tot p" "slots p \<inter> taken st = {}" by auto
  obtain st1 where 1: "merge_packet bits tot st p = Inr st1" "merge_sizes bits tot st1"
    "taken st1 = taken st \<union> slots p"
    using merge_packet_ok[OF Cons.prems(1) p] by blast
  note pl = merge_packet_placed[OF Cons.prems(1) p 1(1)]
  have "fits_from tot (taken st1) ps" using Cons.prems(2) 1(3) by simp
  from Cons.IH[OF 1(2) this] obtain st2 where
    2: "foldr_res (merge_packet bits tot) st1 ps = Inr st2" "merge_sizes bits tot st2"
     "taken st2 = taken st1 \<union> (\<Union>p \<in> set ps. slots p)" "\<forall>q \<in> set ps. placed bits st2 q"
     "\<forall>q. pkt_fits tot q \<longrightarrow> slots q \<subseteq> taken st1 \<longrightarrow> placed bits st1 q \<longrightarrow> placed bits st2 q"
    by blast
  have "placed bits st2 p" using 2(5) pl(1) p(1) 1(3) by blast
  moreover have "placed bits st2 q"
    if "pkt_fits tot q" "slots q \<subseteq> taken st" "placed bits st q" for q
    using 2(5) that p(2) pl(2)[of q] 1(3) by blast
  ultimately show ?case using 1 2 by auto
qed

lemma merge_rejects:
  assumes "merge_sizes bits tot st" "\<not> fits_from tot (taken st) pkts"
    "\<forall>p \<in> set pkts. pk_start p \<le> pk_end p"
  shows "\<exists>e. foldr_res (merge_packet bits tot) st pkts = Inl e \<and>
     (e = conflict \<or> e = Runtime_Error ''Client trying to write graph entry out-of-bounds'')"
  using assms
proof (induction pkts arbitrary: st)
  case Nil
  then show ?case by simp
next
  case (Cons p ps)
  show ?case
  proof (cases "pkt_fits tot p \<and> slots p \<inter> taken st = {}")
    case True
    then obtain st1 where 1: "merge_packet bits tot st p = Inr st1" "merge_sizes bits tot st1"
      "taken st1 = taken st \<union> slots p"
      using merge_packet_ok[OF Cons.prems(1), of p] by blast
    then show ?thesis using Cons.IH[OF 1(2)] Cons.prems True by simp
  next
    case False
    have "merge_packet bits tot st p = Inl conflict \<or> merge_packet bits tot st p =
        Inl (Runtime_Error ''Client trying to write graph entry out-of-bounds'')"
    proof (cases "pk_end p \<le> tot")
      case True
      then have "pkt_fits tot p" using Cons.prems(3) by (simp add: pkt_fits_def)
      then show ?thesis using False merge_packet_conflict[OF Cons.prems(1)] by blast
    next
      case False
      then show ?thesis using merge_packet_out_of_bounds[of tot p bits st] by simp
    qed
    then show ?thesis by auto
  qed
qed

lemma total_size_sum: "total_size pkts = (\<Sum>p \<leftarrow> pkts. pk_end p - pk_start p)"
proof -
  have "fold (\<lambda>pkt t. t + (pk_end pkt - pk_start pkt)) pkts a =
        a + (\<Sum>p \<leftarrow> pkts. pk_end p - pk_start p)" for a
    by (induction pkts arbitrary: a) auto
  then show ?thesis by (simp add: total_size_def)
qed

text \<open>
  Slices that do not overlap and stay inside cover everything, because the total is the sum of
  their lengths: once the merge has succeeded no entry can be missing.
\<close>

lemma fits_card:
  "fits_from tot T pkts \<Longrightarrow> finite T \<Longrightarrow>
     card (T \<union> (\<Union>p \<in> set pkts. slots p)) = card T + (\<Sum>p \<leftarrow> pkts. pk_end p - pk_start p)"
proof (induction pkts arbitrary: T)
  case (Cons p ps)
  have "card (T \<union> slots p) = card T + (pk_end p - pk_start p)"
    using Cons.prems by (subst card_Un_disjoint) (auto simp: slots_def Int_commute)
  moreover have "finite (T \<union> slots p)" using Cons.prems(2) by (simp add: slots_def)
  ultimately show ?case
    using Cons.IH[of "T \<union> slots p"] Cons.prems(1) by (simp add: Un_assoc)
qed simp

lemma fits_subset: "fits_from tot T pkts \<Longrightarrow> (\<Union>p \<in> set pkts. slots p) \<subseteq> {..<tot}"
  by (induction pkts arbitrary: T) (auto simp: pkt_fits_def slots_def)

lemma fits_cover:
  assumes "fits_from (total_size pkts) {} pkts"
  shows "(\<Union>p \<in> set pkts. slots p) = {..<total_size pkts}"
proof (rule card_subset_eq)
  show "card (\<Union>p \<in> set pkts. slots p) = card {..<total_size pkts}"
    using fits_card[OF assms] by (simp add: total_size_sum)
qed (use fits_subset[OF assms] in auto)

lemma taken_init: "taken (merge_init bits tot) = {}"
  by (simp add: taken_def merge_init_def)

lemma merge_packets_ok:
  assumes "fits_from (total_size pkts) {} pkts"
  shows "\<exists>st. merge_packets bits pkts = Inr st \<and> merge_sizes bits (total_size pkts) st \<and>
     (\<forall>p \<in> set pkts. placed bits st p) \<and> list_all (\<lambda>b. b) (is_provided st)"
proof -
  have f: "fits_from (total_size pkts) (taken (merge_init bits (total_size pkts))) pkts"
    using assms by (simp add: taken_init)
  from merge_all[OF merge_sizes_init f] obtain st where
    st: "merge_packets bits pkts = Inr st" "merge_sizes bits (total_size pkts) st"
     "taken st = (\<Union>p \<in> set pkts. slots p)" "\<forall>p \<in> set pkts. placed bits st p"
    unfolding merge_packets_def taken_init by auto
  have "taken st = {..<length (is_provided st)}"
    using st(2,3) fits_cover[OF assms] by (simp add: merge_sizes_def)
  then have "list_all (\<lambda>b. b) (is_provided st)"
    by (auto simp: taken_def list_all_length)
  then show ?thesis using st by blast
qed

section \<open>From the clients to the servers\<close>

lemma serialize_entry:
  assumes "k < gsize g"
  shows "serialize g b ! (4 * k) = src g ! k" "serialize g b ! (4 * k + 1) = dst g ! k"
    "serialize g b ! (4 * k + 2) = isV g ! k" "serialize g b ! (4 * k + 3) = gdata g ! k"
proof -
  let ?e = "map (\<lambda>i. [src g ! i, dst g ! i, isV g ! i, gdata g ! i]) [0..<gsize g]"
  have u: "\<forall>x \<in> set ?e. length x = 4" by auto
  have l: "length (concat ?e) = gsize g * 4" using length_concat_uniform[OF u] by simp
  have at: "serialize g b ! (4 * k + c) = ?e ! k ! c" if "c < 4" for c
  proof -
    have "k * 4 + c < length (concat ?e)" unfolding l using assms that by simp
    then have "serialize g b ! (k * 4 + c) = concat ?e ! (k * 4 + c)"
      unfolding serialize_def by (rule nth_append_left)
    also have "\<dots> = ?e ! k ! c" using concat_uniform_nth[OF u, where i = k and j = c] assms that by simp
    finally show ?thesis by (simp add: mult.commute)
  qed
  show "serialize g b ! (4 * k) = src g ! k" "serialize g b ! (4 * k + 1) = dst g ! k"
    "serialize g b ! (4 * k + 2) = isV g ! k" "serialize g b ! (4 * k + 3) = gdata g ! k"
    using at[of 0] at[of 1] at[of 2] at[of 3] assms by (simp_all add: numeral_2_eq_2 numeral_3_eq_3)
qed

lemma serialize_bits:
  assumes "k < gsize g" "i < b"
  shows "serialize g b ! (4 * gsize g + i * gsize g + k) = src_bits g ! i ! k"
    "serialize g b ! (4 * gsize g + b * gsize g + i * gsize g + k) = dst_bits g ! i ! k"
proof -
  let ?e = "concat (map (\<lambda>i. [src g ! i, dst g ! i, isV g ! i, gdata g ! i]) [0..<gsize g])"
  let ?m = "\<lambda>r. map (\<lambda>i. map (\<lambda>j. r ! i ! j) [0..<gsize g]) [0..<b]"
  have le: "length ?e = 4 * gsize g" by (subst length_concat_uniform[where k = 4]) auto
  have u: "\<forall>x \<in> set (?m r). length x = gsize g" for r :: "vec list" by auto
  have lm: "length (concat (?m r)) = b * gsize g" for r :: "vec list"
    using length_concat_uniform[OF u] by simp
  have "i * gsize g + gsize g \<le> b * gsize g"
    using assms(2) mult_le_mono1[of "Suc i" b "gsize g"] by simp
  then have lt: "i * gsize g + k < b * gsize g" using assms(1) by linarith
  have at: "concat (?m r) ! (i * gsize g + k) = r ! i ! k" for r :: "vec list"
    using concat_uniform_nth[OF u, where i = i and j = k] assms by simp
  have shift: "(xs @ ys) ! (length xs + m) = ys ! m" for xs ys :: vec and m by simp
  show "serialize g b ! (4 * gsize g + i * gsize g + k) = src_bits g ! i ! k"
    unfolding serialize_def add.assoc le[symmetric] shift
    using nth_append_left[of "i * gsize g + k" "concat (?m (src_bits g))"] lt at lm by simp
  have "serialize g b ! (4 * gsize g + b * gsize g + i * gsize g + k) =
        concat (?m (dst_bits g)) ! (i * gsize g + k)"
    unfolding serialize_def add.assoc le[symmetric] shift
    unfolding lm[of "src_bits g", symmetric] shift ..
  then show "serialize g b ! (4 * gsize g + b * gsize g + i * gsize g + k) = dst_bits g ! i ! k"
    using at by simp
qed

text \<open>The packet a share is serialised into, once it is placed, stands for the share.\<close>

lemma placed_make_packet:
  assumes "placed bits st (make_packet bits start g)" "k < gsize g"
  shows "m_src st ! (start + k) = src g ! k" "m_dst st ! (start + k) = dst g ! k"
    "m_isV st ! (start + k) = isV g ! k" "m_data st ! (start + k) = gdata g ! k"
    "i < bits \<Longrightarrow> m_src_bits st ! i ! (start + k) = src_bits g ! i ! k"
    "i < bits \<Longrightarrow> m_dst_bits st ! i ! (start + k) = dst_bits g ! i ! k"
proof -
  note h = assms(1)[unfolded placed_def Let_def, rule_format, of k]
  have h': "k < pk_end (make_packet bits start g) - pk_start (make_packet bits start g)"
    using assms(2) by (simp add: make_packet_def)
  note e = serialize_entry[OF assms(2), of bits]
  show "m_src st ! (start + k) = src g ! k" "m_dst st ! (start + k) = dst g ! k"
    "m_isV st ! (start + k) = isV g ! k" "m_data st ! (start + k) = gdata g ! k"
    using h[OF h'] e by (simp_all add: make_packet_def)
  show "m_src_bits st ! i ! (start + k) = src_bits g ! i ! k"
    "m_dst_bits st ! i ! (start + k) = dst_bits g ! i ! k" if "i < bits"
    using h[OF h'] serialize_bits[OF assms(2) that] that by (simp_all add: make_packet_def)
qed

lemma recv_packet_make:
  "recv_packet bits (make_packet bits start g) = Inr (make_packet bits start g)"
proof -
  have l: "length (serialize g bits) = 4 * gsize g + 2 * gsize g * bits"
    by (simp add: length_serialize algebra_simps)
  then have "serialize g bits = [] \<longleftrightarrow> gsize g = 0" by (metis add_is_0 length_0_conv mult_is_0 zero_neq_numeral mult_0_right mult_zero_left)
  then show ?thesis
    by (auto simp: recv_packet_def make_packet_def net_recv_def Let_def l)
qed

lemma recv_packets_ok:
  assumes "\<forall>m \<in> set msgs. recv_packet bits m = Inr m"
    "length msgs \<le> length (start_idx net)" "length msgs \<le> length (end_idx net)"
  shows "\<exists>net'. recv_packets bits msgs net = Inr (msgs, net') \<and>
     length (start_idx net') = length (start_idx net) \<and> length (end_idx net') = length (end_idx net)
     \<and> (\<forall>c < length msgs. start_idx net' ! c = pk_start (msgs ! c) \<and> end_idx net' ! c = pk_end (msgs ! c))"
proof -
  let ?f = "\<lambda>(pkts, net) client.
         bindr (recv_packet bits (msgs ! client)) (\<lambda>pkt.
         bindr (record_slice client (pk_start pkt) (pk_end pkt) net) (\<lambda>net'.
           Inr (pkts @ [pkt], net')))"
  have "n \<le> length msgs \<Longrightarrow> \<exists>net'. foldr_res ?f ([], net) [0..<n] = Inr (take n msgs, net') \<and>
     length (start_idx net') = length (start_idx net) \<and> length (end_idx net') = length (end_idx net)
     \<and> (\<forall>c < n. start_idx net' ! c = pk_start (msgs ! c) \<and> end_idx net' ! c = pk_end (msgs ! c))" for n
  proof (induction n)
    case (Suc n)
    then obtain net' where n: "foldr_res ?f ([], net) [0..<n] = Inr (take n msgs, net')"
      "length (start_idx net') = length (start_idx net)" "length (end_idx net') = length (end_idx net)"
      "\<forall>c < n. start_idx net' ! c = pk_start (msgs ! c) \<and> end_idx net' ! c = pk_end (msgs ! c)"
      by auto
    have m: "recv_packet bits (msgs ! n) = Inr (msgs ! n)" "n < length msgs"
      using assms(1) Suc.prems by auto
    have s: "record_slice n a b net' = Inr (net'\<lparr>start_idx := (start_idx net')[n := a],
        end_idx := (end_idx net')[n := b]\<rparr>)" for a b
      using n(2,3) assms(2,3) m(2) by (simp add: record_slice_def)
    show ?case
      using n m assms(2,3) by (auto simp: foldr_res_append s take_Suc_conv_app_nth nth_list_update less_Suc_eq)
  qed simp
  from this[of "length msgs"] show ?thesis by (simp add: recv_packets_def)
qed

lemma fits_from_cong:
  "map pk_start ps = map pk_start qs \<Longrightarrow> map pk_end ps = map pk_end qs \<Longrightarrow>
     fits_from tot T ps = fits_from tot T qs"
proof (induction ps arbitrary: qs T)
  case (Cons p ps)
  then obtain q qs' where q: "qs = q # qs'" by (cases qs) auto
  with Cons have "pk_start p = pk_start q" "pk_end p = pk_end q" by auto
  then show ?case using Cons q by (simp add: pkt_fits_def slots_def)
qed simp

lemma total_size_cong:
  "map pk_start ps = map pk_start qs \<Longrightarrow> map pk_end ps = map pk_end qs \<Longrightarrow>
     total_size ps = total_size qs"
proof -
  assume a: "map pk_start ps = map pk_start qs" "map pk_end ps = map pk_end qs"
  have m: "map (\<lambda>p. pk_end p - pk_start p) xs = map2 (-) (map pk_end xs) (map pk_start xs)" for xs
    by (induction xs) auto
  show ?thesis by (simp only: total_size_sum m a)
qed

text \<open>One server: it receives the shares \<open>shs\<close> of all clients at the given offsets.\<close>

lemma recv_graph_shares:
  assumes "length shs = length starts" "msgs = map2 (make_packet bits) starts shs"
    "length msgs \<le> length (start_idx net)" "length msgs \<le> length (end_idx net)"
    "fits_from (total_size msgs) {} msgs" "\<forall>sh \<in> set shs. 0 < gsize sh"
  shows "\<exists>g. recv_graph bits counts msgs net = Inr g \<and> nodes g = recv_nodes counts \<and>
     is_shared g \<and> graph_wf g \<and> bits_wf bits g \<and> gsize g = total_size msgs \<and>
     (\<forall>c < length shs. \<forall>k < gsize (shs ! c).
        starts ! c + k < gsize g \<and>
        src g ! (starts ! c + k) = src (shs ! c) ! k \<and> dst g ! (starts ! c + k) = dst (shs ! c) ! k \<and>
        isV g ! (starts ! c + k) = isV (shs ! c) ! k \<and> gdata g ! (starts ! c + k) = gdata (shs ! c) ! k \<and>
        (\<forall>i < bits. src_bits g ! i ! (starts ! c + k) = src_bits (shs ! c) ! i ! k \<and>
                    dst_bits g ! i ! (starts ! c + k) = dst_bits (shs ! c) ! i ! k))"
proof -
  have "\<forall>m \<in> set msgs. recv_packet bits m = Inr m"
    using assms(2) recv_packet_make by (auto simp: set_zip)
  from recv_packets_ok[OF this assms(3,4)] obtain net' where
    r: "recv_packets bits msgs net = Inr (msgs, net')" by blast
  from merge_packets_ok[OF assms(5)] obtain st where
    st: "merge_packets bits msgs = Inr st" "merge_sizes bits (total_size msgs) st"
      "\<forall>p \<in> set msgs. placed bits st p" "list_all (\<lambda>b. b) (is_provided st)" by blast
  have pl: "placed bits st (make_packet bits (starts ! c) (shs ! c))" if "c < length shs" for c
  proof -
    have "msgs ! c = make_packet bits (starts ! c) (shs ! c)" "c < length msgs"
      using assms(1,2) that by simp_all
    then show ?thesis using st(3) nth_mem by metis
  qed
  have lt: "starts ! c + k < total_size msgs" if "c < length shs" "k < gsize (shs ! c)" for c k
  proof -
    have "make_packet bits (starts ! c) (shs ! c) \<in> set msgs"
      using assms(1,2) that by (auto simp: set_zip)
    moreover have "starts ! c + k \<in> slots (make_packet bits (starts ! c) (shs ! c))"
      using that by (simp add: slots_def make_packet_def)
    ultimately show ?thesis using fits_subset[OF assms(5)] by blast
  qed
  have "packets_complete bits msgs"
    using assms(2,6) by (auto simp: packets_complete_def list_all_iff make_packet_def set_zip length_serialize)
  then show ?thesis
    using st lt placed_make_packet[OF pl]
    by (simp add: recv_graph_def r graph_shared_bits_def same_sizes_def merge_sizes_def
        graph_wf_def bits_wf_def)
qed

section \<open>Properties\<close>

text \<open>C16: A client's packets carry shares of its slice: after \<open>send_graph\<close> both servers get packets for the
  same range of positions with the payload of a well-formed graph each, and the two graphs add up to
  the slice, to the bit decomposition of its ends, and to its node count.\<close>

theorem client_shares_slice:
  assumes "graph_wf g"
  shows "\<exists>g0 g1. send_graph P rng g bits start =
       Inr ((nodes g, make_packet bits start g0), (nodes g, make_packet bits start g1), (nodes g, gsize g)) \<and>
     graph_shares bits g g0 g1"
proof -
  obtain g0 g1 where g: "secret_share P rng g bits = Inr (g0, g1)" "graph_shares bits g g0 g1"
    using secret_share_shares[OF assms, of P rng bits] by blast
  then have "nodes g0 = nodes g" "nodes g1 = nodes g" by (simp_all add: graph_shares_def)
  then show ?thesis using g by (auto simp: send_graph_def)
qed

lemma client_shares_slice_witness:
  "\<exists>g0 g1. graph_shares 2 (add_list_entry3 1 2 0 (add_list_entry 1 1 1 7 graph_empty)) g0 g1"
  using client_shares_slice[of "add_list_entry3 1 2 0 (add_list_entry 1 1 1 7 graph_empty)" lcg_ops 5 2 0]
  by (auto simp: graph_wf_def add_list_entry_def add_list_entry3_def graph_empty_def)

text \<open>C14: A server merges the packets of clients whose slices tile the DAG list into one well-formed shared
  graph, in which every client's entries stand at the positions the client announced.\<close>

theorem merge_places_slices:
  assumes "length shs = length starts" "msgs = map2 (make_packet bits) starts shs"
    "length msgs \<le> length (start_idx net)" "length msgs \<le> length (end_idx net)"
    "fits_from (total_size msgs) {} msgs" "\<forall>sh \<in> set shs. 0 < gsize sh"
  shows "\<exists>g. recv_graph bits counts msgs net = Inr g \<and> nodes g = recv_nodes counts \<and>
     is_shared g \<and> graph_wf g \<and> bits_wf bits g \<and> gsize g = total_size msgs \<and>
     (\<forall>c < length shs. \<forall>k < gsize (shs ! c).
        starts ! c + k < gsize g \<and>
        src g ! (starts ! c + k) = src (shs ! c) ! k \<and> dst g ! (starts ! c + k) = dst (shs ! c) ! k \<and>
        isV g ! (starts ! c + k) = isV (shs ! c) ! k \<and> gdata g ! (starts ! c + k) = gdata (shs ! c) ! k \<and>
        (\<forall>i < bits. src_bits g ! i ! (starts ! c + k) = src_bits (shs ! c) ! i ! k \<and>
                    dst_bits g ! i ! (starts ! c + k) = dst_bits (shs ! c) ! i ! k))"
  using recv_graph_shares[OF assms] .

lemma merge_places_slices_witness:
  "\<exists>g. recv_graph 0 [1, 1]
         [make_packet 0 1 (add_list_entry 2 2 1 5 graph_empty), make_packet 0 0 (add_list_entry 3 3 1 6 graph_empty)]
         (net_init 3 2) = Inr g \<and> gsize g = 2 \<and> src g ! 1 = 2 \<and> src g ! 0 = 3"
  using merge_places_slices[of "[add_list_entry 2 2 1 5 graph_empty, add_list_entry 3 3 1 6 graph_empty]" "[1, 0]" _ 0
      "net_init 3 2" "[1, 1]"]
  by (fastforce simp: make_packet_def add_list_entry_def graph_empty_def net_init_def total_size_sum
      pkt_fits_def slots_def numeral_2_eq_2 less_Suc_eq)

text \<open>C15: Packets that overlap or reach behind the end are never accepted: whatever the clients send, as
  long as the servers record their slices, a merge that is not a tiling ends in an exception, and
  the check for missing entries is never what finds it.\<close>

theorem bad_slices_rejected:
  assumes "recv_packets bits msgs net = Inr (pkts, net')" "\<not> fits_from (total_size pkts) {} pkts"
  shows "\<exists>e. recv_graph bits counts msgs net = Inl e \<and> e \<noteq> missing"
proof (cases "packets_complete bits pkts")
  case True
  then have "\<forall>p \<in> set pkts. pk_start p \<le> pk_end p"
    by (auto simp: packets_complete_def list_all_iff)
  then obtain e where "merge_packets bits pkts = Inl e"
    "e = conflict \<or> e = Runtime_Error ''Client trying to write graph entry out-of-bounds''"
    using merge_rejects[OF merge_sizes_init, of "total_size pkts" bits pkts] assms(2)
    by (auto simp: merge_packets_def taken_init)
  then show ?thesis using True assms(1)
    by (auto simp: recv_graph_def conflict_def missing_def)
qed (use assms(1) in \<open>auto simp: recv_graph_def missing_def\<close>)

lemma bad_slices_rejected_witness:
  "\<exists>e. recv_graph 0 [1, 1]
         [make_packet 0 0 (add_list_entry 2 2 1 5 graph_empty), make_packet 0 0 (add_list_entry 3 3 1 6 graph_empty)]
         (net_init 3 2) = Inl e \<and> e \<noteq> missing"
proof (rule bad_slices_rejected)
  let ?m = "\<lambda>w. make_packet 0 0 (add_list_entry w w 1 5 graph_empty)"
  show "recv_packets 0 [make_packet 0 0 (add_list_entry 2 2 1 5 graph_empty),
        make_packet 0 0 (add_list_entry 3 3 1 6 graph_empty)] (net_init 3 2) =
      Inr ([make_packet 0 0 (add_list_entry 2 2 1 5 graph_empty),
        make_packet 0 0 (add_list_entry 3 3 1 6 graph_empty)], \<lparr>start_idx = [0, 0], end_idx = [1, 1, 0]\<rparr>)"
    by code_simp
  show "\<not> fits_from (total_size [make_packet 0 0 (add_list_entry 2 2 1 5 graph_empty),
        make_packet 0 0 (add_list_entry 3 3 1 6 graph_empty)]) {}
      [make_packet 0 0 (add_list_entry 2 2 1 5 graph_empty), make_packet 0 0 (add_list_entry 3 3 1 6 graph_empty)]"
    by (simp add: make_packet_def add_list_entry_def graph_empty_def pkt_fits_def slots_def)
qed

end
