(* ===== verification/Graph_IO.thy ===== *)
theory Graph_IO
  imports Dag_Graph
begin

text \<open>
  \<open>src/src/utils/graph.h\<close>, printing and reading: \<open>print\<close>, \<open>print_pretty\<close>, and the two file formats
  \<open>parse\<close> and \<open>parse_simplified_format\<close> (the format of the README, which the client program
  reads). A file is the string of its characters, \<open>None\<close> one that cannot be opened; the stream
  keeps the characters not yet read and the state bits \<open>eof\<close> and \<open>fail\<close>, and its extraction
  operators are those of the C++ standard library on the default locale.
\<close>

section \<open>Input streams\<close>

record istream =
  i_rest :: string
  i_eof :: bool
  i_fail :: bool

definition istream_of :: "string \<Rightarrow> istream" where
  "istream_of cs = \<lparr>i_rest = cs, i_eof = False, i_fail = False\<rparr>"

definition i_good :: "istream \<Rightarrow> bool" where
  "i_good f \<longleftrightarrow> \<not> i_eof f \<and> \<not> i_fail f"

definition is_space :: "char \<Rightarrow> bool" where
  "is_space c \<longleftrightarrow> of_char c = (32 :: nat) \<or> (9 \<le> (of_char c :: nat) \<and> (of_char c :: nat) \<le> 13)"

definition is_digit :: "char \<Rightarrow> bool" where
  "is_digit c \<longleftrightarrow> 48 \<le> (of_char c :: nat) \<and> (of_char c :: nat) \<le> 57"

definition digit_val :: "char \<Rightarrow> nat" where
  "digit_val c = of_char c - 48"

text \<open>
  What every formatted extraction does first: nothing on a stream that is not good, which fails;
  otherwise it skips white space, and fails with \<open>eof\<close> where nothing else is left.
\<close>

definition skip_ws :: "istream \<Rightarrow> istream" where
  "skip_ws f =
     (if \<not> i_good f then f\<lparr>i_fail := True\<rparr>
      else let cs = dropWhile is_space (i_rest f)
           in if cs = [] then f\<lparr>i_rest := [], i_eof := True, i_fail := True\<rparr>
              else f\<lparr>i_rest := cs\<rparr>)"

text \<open>\<open>file >> c\<close> for a character; the variable keeps its value where the extraction fails.\<close>

definition get_char :: "char \<Rightarrow> istream \<Rightarrow> char \<times> istream" where
  "get_char old f =
     (let f' = skip_ws f
      in if i_fail f' then (old, f') else (hd (i_rest f'), f'\<lparr>i_rest := tl (i_rest f')\<rparr>))"

definition putback :: "char \<Rightarrow> istream \<Rightarrow> istream" where
  "putback c f = f\<lparr>i_rest := c # i_rest f, i_eof := False\<rparr>"

text \<open>
  \<open>file >> v\<close> for a \<open>Ring\<close>: an optional sign and the digits that follow. No digit stores 0 and
  fails, a value of 2^32 or more stores the largest one and fails, and a minus sign negates.
  Reading up to the end of the file sets \<open>eof\<close>.
\<close>

definition digits_val :: "string \<Rightarrow> nat" where
  "digits_val ds = foldl (\<lambda>n c. 10 * n + digit_val c) 0 ds"

definition get_ring :: "ring \<Rightarrow> istream \<Rightarrow> ring \<times> istream" where
  "get_ring old f =
     (let f' = skip_ws f
      in if i_fail f' then (old, f')
         else
           let cs = i_rest f';
               signed = hd cs = CHR ''-'' \<or> hd cs = CHR ''+'';
               body = (if signed then tl cs else cs);
               ds = takeWhile is_digit body;
               cs' = dropWhile is_digit body;
               n = digits_val ds;
               v = (if ds = [] then 0
                    else if 2 ^ 32 \<le> n then - 1
                    else if hd cs = CHR ''-'' then - word_of_nat n else word_of_nat n)
           in (v, f'\<lparr>i_rest := cs', i_eof := (cs' = []), i_fail := (ds = [] \<or> 2 ^ 32 \<le> n)\<rparr>))"

lemma skip_ws_length: "length (i_rest (skip_ws f)) \<le> length (i_rest f)"
  by (simp add: skip_ws_def Let_def length_dropWhile_le)

lemma get_char_length:
  assumes "\<not> i_fail (snd (get_char old f))"
  shows "length (i_rest (snd (get_char old f))) < length (i_rest f)"
proof -
  have ok: "\<not> i_fail (skip_ws f)" using assms by (auto simp: get_char_def Let_def)
  then have "i_rest (skip_ws f) \<noteq> []" by (auto simp: skip_ws_def Let_def split: if_splits)
  then have "length (tl (i_rest (skip_ws f))) < length (i_rest (skip_ws f))" by simp
  then show ?thesis using ok skip_ws_length[of f] by (simp add: get_char_def Let_def)
qed

lemma get_ring_length: "length (i_rest (snd (get_ring old f))) \<le> length (i_rest f)"
proof -
  have tl: "length (dropWhile is_digit (tl xs)) \<le> length xs" for xs
    by (rule order_trans[OF length_dropWhile_le]) simp
  have "length (i_rest (snd (get_ring old f))) \<le> length (i_rest (skip_ws f))"
    by (simp add: get_ring_def Let_def length_dropWhile_le tl)
  then show ?thesis using skip_ws_length[of f] by simp
qed

lemma get_ring_length_ok:
  assumes "\<not> i_fail (snd (get_ring old f))"
  shows "length (i_rest (snd (get_ring old f))) < length (i_rest f)"
proof -
  let ?cs = "i_rest (skip_ws f)"
  have ok: "\<not> i_fail (skip_ws f)" using assms by (auto simp: get_ring_def Let_def)
  then have ne: "?cs \<noteq> []" by (auto simp: skip_ws_def Let_def split: if_splits)
  have drop: "length (dropWhile is_digit xs) < length xs" if "takeWhile is_digit xs \<noteq> []" for xs
    using that by (cases xs) (auto simp: less_Suc_eq_le length_dropWhile_le split: if_splits)
  have "length (i_rest (snd (get_ring old f))) < length ?cs"
    using assms ok drop[of ?cs] drop[of "tl ?cs"] ne
    by (auto simp: get_ring_def Let_def split: if_splits)
  then show ?thesis using skip_ws_length[of f] by simp
qed

lemma get_ring_fails: "i_fail f \<Longrightarrow> get_ring old f = (old, f)"
  by (simp add: get_ring_def skip_ws_def i_good_def)

section \<open>Printing\<close>

text \<open>\<open>std::cout << v\<close> for a \<open>Ring\<close>.\<close>

fun show_nat :: "nat \<Rightarrow> string" where
  "show_nat n = (if n < 10 then [char_of (48 + n)] else show_nat (n div 10) @ [char_of (48 + n mod 10)])"

declare show_nat.simps [simp del]

definition show_ring :: "ring \<Rightarrow> string" where
  "show_ring v = show_nat (unat v)"

definition newline :: string where
  "newline = [CHR 0x0A]"

definition print_line :: "graph \<Rightarrow> nat \<Rightarrow> string res" where
  "print_line g i =
     (if i < length (src g) \<and> i < length (dst g) \<and> i < length (isV g) \<and> i < length (gdata g)
      then Inr (show_ring (src g ! i) @ '' '' @ show_ring (dst g ! i) @ '' '' @
             show_ring (isV g ! i) @ '' '' @ show_ring (gdata g ! i) @ newline)
      else Inl Out_Of_Bounds)"

definition print_loop :: "(graph \<Rightarrow> nat \<Rightarrow> string res) \<Rightarrow> graph \<Rightarrow> string res" where
  "print_loop line g =
     bindr (foldr_res (\<lambda>out i. bindr (line g i) (\<lambda>l. Inr (out @ l))) [] [0..<gsize g])
       (\<lambda>out. Inr (out @ newline))"

definition print :: "graph \<Rightarrow> string res" where
  "print g = print_loop print_line g"

definition pretty_line :: "graph \<Rightarrow> nat \<Rightarrow> string res" where
  "pretty_line g i =
     (if \<not> (i < length (isV g) \<and> i < length (src g)) then Inl Out_Of_Bounds
      else if isV g ! i \<noteq> 0
      then if i < length (gdata g)
           then Inr (''node '' @ show_ring (src g ! i) @ '' (data '' @ show_ring (gdata g ! i) @
                  '')'' @ newline)
           else Inl Out_Of_Bounds
      else if i < length (dst g)
           then Inr (''edge '' @ show_ring (src g ! i) @ '' -> '' @ show_ring (dst g ! i) @ newline)
           else Inl Out_Of_Bounds)"

definition print_pretty :: "graph \<Rightarrow> string res" where
  "print_pretty g = print_loop pretty_line g"

section \<open>Reading\<close>

text \<open>
  \<open>parse\<close>: four numbers per entry, until an extraction fails. The result is the graph and whether
  the warning about the format is printed.
\<close>

function parse_loop :: "ring \<Rightarrow> ring \<Rightarrow> ring \<Rightarrow> ring \<Rightarrow> istream \<Rightarrow> graph \<Rightarrow> graph \<times> istream" where
  "parse_loop u_src u_dst u_isV u_data f g =
     (let (s, f1) = get_ring u_src f;
          (d, f2) = get_ring u_dst f1;
          (v, f3) = get_ring u_isV f2;
          (x, f4) = get_ring u_data f3
      in if i_fail f4 then (g, f4) else parse_loop s d v x f4 (add_list_entry s d v x g))"
  by pat_completeness auto

termination
proof (relation "measure (\<lambda>(_, _, _, _, f, _). length (i_rest f))", simp, clarify)
  fix u_src u_dst u_isV u_data f g s f1 d f2 v f3 x f4
  assume 1: "(s, f1) = get_ring u_src f" and 2: "(d, f2) = get_ring u_dst f1"
    and 3: "(v, f3) = get_ring u_isV f2" and 4: "(x, f4) = get_ring u_data f3" and ok: "\<not> i_fail f4"
  have "length (i_rest f4) < length (i_rest f3)"
    using get_ring_length_ok[of u_data f3] ok by (simp add: 4[symmetric])
  moreover have "length (i_rest f3) \<le> length (i_rest f2)" "length (i_rest f2) \<le> length (i_rest f1)"
    "length (i_rest f1) \<le> length (i_rest f)"
    using get_ring_length[of u_isV f2] get_ring_length[of u_dst f1] get_ring_length[of u_src f]
    by (simp_all add: 1[symmetric] 2[symmetric] 3[symmetric])
  ultimately show "((s, d, v, x, f4, add_list_entry s d v x g), u_src, u_dst, u_isV, u_data, f, g)
      \<in> measure (\<lambda>(_, _, _, _, f, _). length (i_rest f))" by simp
qed

declare parse_loop.simps [simp del]

definition open_error :: "string \<Rightarrow> err" where
  "open_error filename = Invalid_Argument (''Error: Could not open graph file '' @ filename)"

definition parse :: "(string \<Rightarrow> string option) \<Rightarrow> string \<Rightarrow> (graph \<times> bool) res" where
  "parse files filename =
     (case files filename of
        None \<Rightarrow> Inl (open_error filename)
      | Some cs \<Rightarrow>
          let (g, f) = parse_loop 0 0 0 0 (istream_of cs) graph_empty in Inr (g, \<not> i_eof f))"

text \<open>
  \<open>parse_simplified_format\<close>: a letter says whether a node or an edge follows. \<open>u_src\<close>, \<open>u_dst\<close>
  and \<open>u_type\<close> are what the uninitialised variables of the function hold.
\<close>

definition node_letter :: "char \<Rightarrow> bool" where
  "node_letter c \<longleftrightarrow> c = CHR ''n'' \<or> c = CHR ''N'' \<or> c = CHR ''v'' \<or> c = CHR ''V''"

definition edge_letter :: "char \<Rightarrow> bool" where
  "edge_letter c \<longleftrightarrow> c = CHR ''e'' \<or> c = CHR ''E''"

text \<open>A node: \<open>Inr (g, None)\<close> is the early return at the end of the file.\<close>

definition read_node :: "istream \<Rightarrow> graph \<Rightarrow> (graph \<times> istream option) res" where
  "read_node f g =
     (let (next_val, f1) = get_ring 0 f
      in if i_fail f1 then Inl (Runtime_Error ''Missing node ID after node entry'')
         else
           let (next, f2) = get_char (CHR 0x00) f1
           in if i_fail f2 then Inr (add_list_entry next_val next_val 1 0 g, None)
              else
                let f3 = putback next f2
                in if is_digit next
                   then let (x, f4) = get_ring next_val f3
                        in Inr (add_list_entry next_val next_val 1 x g, Some f4)
                   else Inr (add_list_entry next_val next_val 1 0 g, Some f3))"

definition read_edge :: "ring \<Rightarrow> ring \<Rightarrow> istream \<Rightarrow> graph \<Rightarrow> graph \<times> istream" where
  "read_edge u_src u_dst f g =
     (let (s, f1) = get_ring u_src f; (d, f2) = get_ring u_dst f1 in (add_list_entry3 s d 0 g, f2))"

lemma read_node_length:
  assumes "read_node f g = Inr (g', Some f')"
  shows "length (i_rest f') \<le> length (i_rest f)"
proof -
  obtain v f1 where 1: "get_ring 0 f = (v, f1)" by fastforce
  obtain c f2 where 2: "get_char (CHR 0x00) f1 = (c, f2)" by fastforce
  have ok: "\<not> i_fail f1" "\<not> i_fail f2" using assms by (auto simp: read_node_def 1 2 split: if_splits)
  have a: "length (i_rest f1) \<le> length (i_rest f)" using get_ring_length[of 0 f] 1 by simp
  have b: "length (i_rest (putback c f2)) \<le> length (i_rest f1)"
    using get_char_length[of "CHR 0x00" f1] ok 2 by (simp add: putback_def)
  have "f' = putback c f2 \<or> f' = snd (get_ring v (putback c f2))"
    using assms ok by (auto simp: read_node_def 1 2 Let_def split: if_splits prod.splits)
  then have "length (i_rest f') \<le> length (i_rest (putback c f2))"
    using get_ring_length[of v "putback c f2"] by auto
  then show ?thesis using a b by simp
qed

lemma read_edge_length: "length (i_rest (snd (read_edge u_src u_dst f g))) \<le> length (i_rest f)"
proof -
  obtain s f1 where 1: "get_ring u_src f = (s, f1)" by fastforce
  obtain d f2 where 2: "get_ring u_dst f1 = (d, f2)" by fastforce
  show ?thesis
    using get_ring_length[of u_src f] get_ring_length[of u_dst f1] by (simp add: read_edge_def 1 2)
qed

function simple_loop :: "ring \<Rightarrow> ring \<Rightarrow> istream \<Rightarrow> graph \<Rightarrow> graph res" where
  "simple_loop u_src u_dst f g =
     (let (type, f1) = get_char (CHR 0x00) f
      in if i_fail f1
         then if i_eof f1 then Inr g
              else Inl (Runtime_Error ''Unexpected end of subgraph file.'')
         else if node_letter type
         then (case read_node f1 g of
                 Inl e \<Rightarrow> Inl e
               | Inr (g', None) \<Rightarrow> Inr g'
               | Inr (g', Some f2) \<Rightarrow> simple_loop u_src u_dst f2 g')
         else if edge_letter type
         then (let (g', f2) = read_edge u_src u_dst f1 g in simple_loop u_src u_dst f2 g')
         else Inl (Runtime_Error ''Unexpected subgraph file format''))"
  by pat_completeness auto

termination
proof (relation "measure (\<lambda>(_, _, f, _). length (i_rest f))", simp, clarify)
  fix u_src u_dst f g type f1 g' f2
  assume 1: "(type, f1) = get_char (CHR 0x00) f" and ok: "\<not> i_fail f1"
    and 2: "read_node f1 g = Inr (g', Some f2)"
  show "((u_src, u_dst, f2, g'), u_src, u_dst, f, g) \<in> measure (\<lambda>(_, _, f, _). length (i_rest f))"
    using get_char_length[of "CHR 0x00" f] read_node_length[OF 2] ok
    by (simp add: 1[symmetric])
next
  fix u_src u_dst f g p type f1 p' g' f2
  assume 1: "p = get_char (CHR 0x00) f" "(type, f1) = p" and ok: "\<not> i_fail f1"
    and 2: "p' = read_edge u_src u_dst f1 g" "(g', f2) = p'"
  have 3: "read_edge u_src u_dst f1 g = (g', f2)" using 2 by simp
  show "((u_src, u_dst, f2, g'), u_src, u_dst, f, g) \<in> measure (\<lambda>(_, _, f, _). length (i_rest f))"
    using get_char_length[of "CHR 0x00" f] read_edge_length[of u_src u_dst f1 g] ok
    by (simp add: 3 1(2)[unfolded 1(1), symmetric])
qed

declare simple_loop.simps [simp del]

definition parse_simplified_format ::
  "ring \<Rightarrow> ring \<Rightarrow> (string \<Rightarrow> string option) \<Rightarrow> string \<Rightarrow> graph res" where
  "parse_simplified_format u_src u_dst files filename =
     (case files filename of
        None \<Rightarrow> Inl (open_error filename)
      | Some cs \<Rightarrow> simple_loop u_src u_dst (istream_of cs) graph_empty)"

section \<open>What is printed is read back\<close>

lemma of_char_digit: "k < 10 \<Longrightarrow> (of_char (char_of (48 + k) :: char) :: nat) = 48 + k"
  by simp

lemma show_nat_digits: "list_all is_digit (show_nat n)"
proof (induction n rule: show_nat.induct)
  case (1 n)
  have "n mod 10 < 10" by simp
  then have "is_digit (char_of (48 + n mod 10))" unfolding is_digit_def by (subst of_char_digit) auto
  moreover have "n < 10 \<Longrightarrow> is_digit (char_of (48 + n))"
    unfolding is_digit_def by (subst of_char_digit) auto
  ultimately show ?case using 1 by (subst show_nat.simps) auto
qed

lemma show_nat_ne: "show_nat n \<noteq> []"
  by (subst show_nat.simps) simp

lemma digits_val_show: "digits_val (show_nat n) = n"
proof (induction n rule: show_nat.induct)
  case (1 n)
  have d: "k < 10 \<Longrightarrow> digit_val (char_of (48 + k)) = k" for k
    unfolding digit_val_def by (subst of_char_digit) auto
  show ?case
  proof (cases "n < 10")
    case True
    then show ?thesis by (subst show_nat.simps) (simp add: digits_val_def d)
  next
    case False
    have "n mod 10 < 10" by simp
    then have "digits_val (show_nat (n div 10) @ [char_of (48 + n mod 10)]) =
        10 * (n div 10) + n mod 10"
      using 1[OF False] d[of "n mod 10"] by (simp add: digits_val_def)
    then show ?thesis using False by (subst show_nat.simps) simp
  qed
qed

lemma digit_not_space: "is_digit c \<Longrightarrow> \<not> is_space c"
  by (auto simp: is_digit_def is_space_def)

lemma digit_not_sign: "is_digit c \<Longrightarrow> c \<noteq> CHR ''-'' \<and> c \<noteq> CHR ''+''"
  by (auto simp: is_digit_def)

lemma takeWhile_digits:
  "list_all is_digit ds \<Longrightarrow> (rest = [] \<or> \<not> is_digit (hd rest)) \<Longrightarrow>
     takeWhile is_digit (ds @ rest) = ds \<and> dropWhile is_digit (ds @ rest) = rest"
  by (induction ds) (cases rest; auto)+

lemma dropWhile_blank:
  "list_all is_space ws \<Longrightarrow> cs \<noteq> [] \<Longrightarrow> \<not> is_space (hd cs) \<Longrightarrow> dropWhile is_space (ws @ cs) = cs"
  by (induction ws) (cases cs; auto)+

text \<open>A printed number behind white space is extracted, and the stream stands behind it.\<close>

lemma get_ring_shown:
  assumes "list_all is_space ws" "rest = [] \<or> \<not> is_digit (hd rest)"
  shows "get_ring old \<lparr>i_rest = ws @ show_ring v @ rest, i_eof = False, i_fail = False\<rparr> =
     (v, \<lparr>i_rest = rest, i_eof = (rest = []), i_fail = False\<rparr>)"
proof -
  let ?ds = "show_nat (unat v)"
  obtain c cs where c: "?ds = c # cs" using show_nat_ne by (cases ?ds) auto
  then have "is_digit c" using show_nat_digits[of "unat v"] by simp
  then have nd: "\<not> is_space c" "c \<noteq> CHR ''-''" "c \<noteq> CHR ''+''"
    using digit_not_space digit_not_sign by blast+
  have skip: "dropWhile is_space (ws @ ?ds @ rest) = ?ds @ rest"
    using dropWhile_blank[OF assms(1), of "?ds @ rest"] nd by (simp add: c)
  have tw: "takeWhile is_digit (?ds @ rest) = ?ds" "dropWhile is_digit (?ds @ rest) = rest"
    using takeWhile_digits[OF show_nat_digits assms(2)] by blast+
  have val: "digits_val ?ds = unat v" "unat v < 2 ^ 32"
    using digits_val_show unsigned_less[of v] by simp_all
  have hd: "hd (?ds @ rest) = c" "?ds @ rest \<noteq> []" by (simp_all add: c)
  show ?thesis
    using val nd hd show_nat_ne[of "unat v"]
    by (simp add: get_ring_def skip_ws_def i_good_def show_ring_def skip Let_def tw
        del: dropWhile_eq_Nil_conv)
qed

lemma get_ring_end:
  assumes "list_all is_space ws"
  shows "get_ring old \<lparr>i_rest = ws, i_eof = False, i_fail = False\<rparr> =
     (old, \<lparr>i_rest = [], i_eof = True, i_fail = True\<rparr>)"
proof -
  have "dropWhile is_space ws = []" using assms by (simp add: list_all_iff)
  then show ?thesis by (simp add: get_ring_def skip_ws_def i_good_def)
qed

lemma get_char_end:
  assumes "list_all is_space ws"
  shows "get_char old \<lparr>i_rest = ws, i_eof = False, i_fail = False\<rparr> =
     (old, \<lparr>i_rest = [], i_eof = True, i_fail = True\<rparr>)"
proof -
  have "dropWhile is_space ws = []" using assms by (simp add: list_all_iff)
  then show ?thesis by (simp add: get_char_def skip_ws_def i_good_def)
qed

lemma get_char_next:
  assumes "list_all is_space ws" "\<not> is_space c"
  shows "get_char old \<lparr>i_rest = ws @ c # rest, i_eof = False, i_fail = False\<rparr> =
     (c, \<lparr>i_rest = rest, i_eof = False, i_fail = False\<rparr>)"
  using dropWhile_blank[OF assms(1), of "c # rest"] assms(2)
  by (simp add: get_char_def skip_ws_def i_good_def Let_def)

lemma space_chars [simp]:
  "is_space (CHR '' '')" "is_space (CHR 0x0A)" "\<not> is_digit (CHR '' '')" "\<not> is_digit (CHR 0x0A)"
  by (simp_all add: is_space_def is_digit_def)


section \<open>Round trips\<close>

text \<open>The graph with the given entries, one by one.\<close>

definition add_entries :: "(ring \<times> ring \<times> ring \<times> ring) list \<Rightarrow> graph \<Rightarrow> graph" where
  "add_entries es g = foldl (\<lambda>g (s, d, v, x). add_list_entry s d v x g) g es"

definition entry_line :: "ring \<times> ring \<times> ring \<times> ring \<Rightarrow> string" where
  "entry_line e = (case e of (s, d, v, x) \<Rightarrow> show_ring s @ '' '' @ show_ring d @ '' '' @
     show_ring v @ '' '' @ show_ring x @ newline)"

lemma parse_entries:
  assumes "list_all is_space ws"
  shows "\<exists>f. parse_loop a b c d \<lparr>i_rest = ws @ concat (map entry_line es) @ newline, i_eof = False,
       i_fail = False\<rparr> g = (add_entries es g, f) \<and> i_eof f"
  using assms
proof (induction es arbitrary: ws a b c d g)
  case Nil
  then show ?case
    using get_ring_end[of "ws @ newline"]
    by (subst parse_loop.simps) (simp add: newline_def get_ring_fails add_entries_def)
next
  case (Cons e es)
  obtain s t v x where e: "e = (s, t, v, x)" by (cases e) auto
  let ?more = "newline @ concat (map entry_line es) @ newline"
  have first: "parse_loop a b c d \<lparr>i_rest = ws @ show_ring s @ '' '' @ show_ring t @ '' '' @
      show_ring v @ '' '' @ show_ring x @ ?more, i_eof = False, i_fail = False\<rparr> g =
    parse_loop s t v x \<lparr>i_rest = ?more, i_eof = False, i_fail = False\<rparr> (add_list_entry s t v x g)"
    using Cons.prems get_ring_shown[of "'' ''"]
    by (subst parse_loop.simps) (simp add: get_ring_shown newline_def)
  have "list_all is_space newline" by (simp add: newline_def)
  from Cons.IH[OF this, of s t v x "add_list_entry s t v x g"] obtain f where f:
    "parse_loop s t v x \<lparr>i_rest = ?more, i_eof = False, i_fail = False\<rparr> (add_list_entry s t v x g) =
       (add_entries es (add_list_entry s t v x g), f)" "i_eof f" by blast
  have "add_entries (e # es) g = add_entries es (add_list_entry s t v x g)"
    by (simp add: e add_entries_def)
  moreover have "concat (map entry_line (e # es)) @ newline = show_ring s @ '' '' @ show_ring t @
      '' '' @ show_ring v @ '' '' @ show_ring x @ ?more"
    by (simp add: e entry_line_def)
  ultimately show ?case using first f by auto
qed

definition entries :: "graph \<Rightarrow> (ring \<times> ring \<times> ring \<times> ring) list" where
  "entries g = map (\<lambda>i. (src g ! i, dst g ! i, isV g ! i, gdata g ! i)) [0..<gsize g]"

lemma foldr_res_lines:
  assumes "\<And>i. i < n \<Longrightarrow> line g i = Inr (l i)"
  shows "foldr_res (\<lambda>out i. bindr (line g i) (\<lambda>l. Inr (out @ l))) out [0..<n] =
     Inr (out @ concat (map l [0..<n]))"
  using assms by (induction n) (simp_all add: foldr_res_append)

lemma print_entries:
  assumes "graph_wf g"
  shows "print g = Inr (concat (map entry_line (entries g)) @ newline)"
proof -
  have line: "print_line g i = Inr (entry_line (src g ! i, dst g ! i, isV g ! i, gdata g ! i))"
    if "i < gsize g" for i
    using assms that by (simp add: print_line_def entry_line_def graph_wf_def)
  show ?thesis
    using foldr_res_lines[of "gsize g" print_line g, OF line]
    by (simp add: print_def print_loop_def entries_def comp_def)
qed

lemma add_entries_graph:
  "add_entries es g = g\<lparr>src := src g @ map fst es, dst := dst g @ map (fst \<circ> snd) es,
     isV := isV g @ map (fst \<circ> snd \<circ> snd) es, gdata := gdata g @ map (snd \<circ> snd \<circ> snd) es,
     gsize := gsize g + length es, nodes := nodes g + count_nodes (map (fst \<circ> snd \<circ> snd) es)\<rparr>"
proof (induction es arbitrary: g)
  case Nil
  then show ?case by (simp add: add_entries_def count_nodes_def)
next
  case (Cons e es)
  obtain s d v x where e: "e = (s, d, v, x)" by (cases e) auto
  have "add_entries (e # es) g = add_entries es (add_list_entry s d v x g)"
    by (simp add: add_entries_def e)
  then show ?case unfolding Cons.IH by (simp add: e add_list_entry_def count_nodes_def comp_def)
qed

lemma entries_rebuild:
  assumes "plain_wf g" "src_bits g = []" "dst_bits g = []"
  shows "add_entries (entries g) graph_empty = g"
proof -
  have "map fst (entries g) = src g" "map (fst \<circ> snd) (entries g) = dst g"
    "map (fst \<circ> snd \<circ> snd) (entries g) = isV g" "map (snd \<circ> snd \<circ> snd) (entries g) = gdata g"
    "length (entries g) = gsize g"
    using assms(1) by (auto simp: entries_def plain_wf_def graph_wf_def comp_def
        intro!: nth_equalityI)
  then show ?thesis
    using assms by (simp add: add_entries_graph graph_empty_def plain_wf_def)
qed

text \<open>
  The simplified format as the README describes it: \<open>n id state\<close> or \<open>n id\<close> for a node,
  \<open>e v w\<close> for an edge.
\<close>

datatype entry = Node ring "ring option" | Edge ring ring

fun render :: "entry \<Rightarrow> string" where
  "render (Node i (Some x)) = ''n '' @ show_ring i @ '' '' @ show_ring x @ newline"
| "render (Node i None) = ''n '' @ show_ring i @ newline"
| "render (Edge v w) = ''e '' @ show_ring v @ '' '' @ show_ring w @ newline"

fun entry_row :: "entry \<Rightarrow> ring \<times> ring \<times> ring \<times> ring" where
  "entry_row (Node i x) = (i, i, 1, case x of None \<Rightarrow> 0 | Some v \<Rightarrow> v)"
| "entry_row (Edge v w) = (v, w, 0, 0)"

definition graph_of_entries :: "entry list \<Rightarrow> graph" where
  "graph_of_entries es = add_entries (map entry_row es) graph_empty"


lemma letters [simp]:
  "node_letter (CHR ''n'')" "edge_letter (CHR ''e'')" "\<not> node_letter (CHR ''e'')"
  "\<not> is_space (CHR ''n'')" "\<not> is_space (CHR ''e'')" "\<not> is_digit (CHR ''n'')" "\<not> is_digit (CHR ''e'')"
  by (simp_all add: node_letter_def edge_letter_def is_space_def is_digit_def)

abbreviation stream :: "string \<Rightarrow> istream" where
  "stream cs \<equiv> \<lparr>i_rest = cs, i_eof = False, i_fail = False\<rparr>"

lemma show_ring_cons: "\<exists>c cs. show_ring x = c # cs \<and> is_digit c"
  using show_nat_ne[of "unat x"] show_nat_digits[of "unat x"] unfolding show_ring_def
  by (cases "show_nat (unat x)") auto

lemma read_node_state:
  "read_node (stream ('' '' @ show_ring i @ '' '' @ show_ring x @ newline @ rest)) g =
     Inr (add_list_entry i i 1 x g, Some (stream (newline @ rest)))"
proof -
  obtain c cs where c: "show_ring x = c # cs" "is_digit c" using show_ring_cons by blast
  have nxt: "get_char (CHR 0x00) (stream ('' '' @ show_ring x @ newline @ rest)) =
      (c, stream (cs @ newline @ rest))"
    using get_char_next[of "'' ''" c] c digit_not_space by simp
  have bk: "putback c (stream (cs @ newline @ rest)) = stream (show_ring x @ newline @ rest)"
    by (simp add: putback_def c)
  have num: "get_ring i (stream (show_ring x @ newline @ rest)) = (x, stream (newline @ rest))"
    using get_ring_shown[of "[]" "newline @ rest" i x] by (simp add: newline_def)
  have id: "get_ring 0 (stream ('' '' @ show_ring i @ '' '' @ show_ring x @ newline @ rest)) =
      (i, stream ('' '' @ show_ring x @ newline @ rest))"
    using get_ring_shown[of "'' ''"] by simp
  show ?thesis by (simp add: read_node_def id nxt bk num c(2) del: append_Cons append_assoc)
qed


lemma read_node_bare_end:
  "read_node (stream ('' '' @ show_ring i @ newline)) g = Inr (add_list_entry i i 1 0 g, None)"
proof -
  have "get_ring 0 (stream ('' '' @ show_ring i @ newline)) = (i, stream newline)"
    using get_ring_shown[of "'' ''" newline] by (simp add: newline_def)
  then show ?thesis using get_char_end[of newline] by (simp add: read_node_def newline_def)
qed

lemma read_node_bare:
  assumes "\<not> is_space c" "\<not> is_digit c"
  shows "read_node (stream ('' '' @ show_ring i @ newline @ c # rest)) g =
     Inr (add_list_entry i i 1 0 g, Some (stream (c # rest)))"
proof -
  have "get_ring 0 (stream ('' '' @ show_ring i @ newline @ c # rest)) = (i, stream (newline @ c # rest))"
    using get_ring_shown[of "'' ''" "newline @ c # rest"] by (simp add: newline_def)
  then show ?thesis using get_char_next[of newline c] assms
    by (simp add: read_node_def newline_def putback_def)
qed

lemma read_edge_shown:
  "read_edge u_src u_dst (stream ('' '' @ show_ring v @ '' '' @ show_ring w @ newline @ rest)) g =
     (add_list_entry v w 0 0 g, stream (newline @ rest))"
  using get_ring_shown[of "'' ''" "'' '' @ show_ring w @ newline @ rest" u_src v]
    get_ring_shown[of "'' ''" "newline @ rest" u_dst w]
  by (simp add: read_edge_def add_list_entry3_def newline_def)

lemma render_first: "\<exists>c cs. render e = c # cs \<and> \<not> is_space c \<and> \<not> is_digit c"
  by (cases e rule: render.cases) auto

lemma add_entries_Cons:
  "add_entries ((s, d, v, x) # es) g = add_entries es (add_list_entry s d v x g)"
  by (simp add: add_entries_def)

lemma simple_end:
  assumes "list_all is_space ws"
  shows "simple_loop u_src u_dst (stream ws) g = Inr g"
  by (subst simple_loop.simps) (simp add: get_char_end[OF assms])

lemma simple_node:
  assumes "list_all is_space ws"
  shows "simple_loop u_src u_dst (stream (ws @ ''n'' @ cs)) g =
     (case read_node (stream cs) g of Inl e \<Rightarrow> Inl e | Inr (g', None) \<Rightarrow> Inr g'
      | Inr (g', Some f2) \<Rightarrow> simple_loop u_src u_dst f2 g')"
  by (subst simple_loop.simps) (simp add: get_char_next[OF assms])

lemma simple_edge:
  assumes "list_all is_space ws"
  shows "simple_loop u_src u_dst (stream (ws @ ''e'' @ cs)) g =
     (let (g', f2) = read_edge u_src u_dst (stream cs) g in simple_loop u_src u_dst f2 g')"
  by (subst simple_loop.simps) (simp add: get_char_next[OF assms])

lemma newline_space: "list_all is_space newline"
  by (simp add: newline_def)

text \<open>The loop reads a rendered entry and goes on behind it.\<close>

lemma simple_entry:
  assumes "list_all is_space ws" "rest = [] \<or> \<not> is_space (hd rest) \<and> \<not> is_digit (hd rest)"
  shows "\<exists>ws'. list_all is_space ws' \<and>
     simple_loop u_src u_dst (stream (ws @ render e @ rest)) g =
     simple_loop u_src u_dst (stream (ws' @ rest)) (add_entries [entry_row e] g)"
proof (cases e rule: render.cases)
  case (1 i x)
  have "simple_loop u_src u_dst (stream (ws @ render e @ rest)) g =
      simple_loop u_src u_dst (stream (newline @ rest)) (add_entries [entry_row e] g)"
    using simple_node[OF assms(1), of u_src u_dst _ g] read_node_state[of i x rest g]
    by (simp add: 1 add_entries_def)
  then show ?thesis using newline_space by blast
next
  case (2 i)
  have "simple_loop u_src u_dst (stream (ws @ render e @ rest)) g =
      simple_loop u_src u_dst (stream ([] @ rest)) (add_entries [entry_row e] g)"
  proof (cases rest)
    case Nil
    then show ?thesis
      using simple_node[OF assms(1), of u_src u_dst _ g] read_node_bare_end[of i g] simple_end[of "[]"]
      by (simp add: 2 add_entries_def)
  next
    case (Cons c r)
    then show ?thesis
      using simple_node[OF assms(1), of u_src u_dst _ g] read_node_bare[of c i r g] assms(2)
      by (simp add: 2 add_entries_def)
  qed
  moreover have "list_all is_space []" by simp
  ultimately show ?thesis by blast
next
  case (3 v w)
  have "simple_loop u_src u_dst (stream (ws @ render e @ rest)) g =
      simple_loop u_src u_dst (stream (newline @ rest)) (add_entries [entry_row e] g)"
    using simple_edge[OF assms(1), of u_src u_dst _ g] read_edge_shown[of u_src u_dst v w rest g]
    by (simp add: 3 add_entries_def)
  then show ?thesis using newline_space by blast
qed

lemma simple_entries:
  assumes "list_all is_space ws" "rest = [] \<or> \<not> is_space (hd rest) \<and> \<not> is_digit (hd rest)"
  shows "\<exists>ws'. list_all is_space ws' \<and>
     simple_loop u_src u_dst (stream (ws @ concat (map render es) @ rest)) g =
     simple_loop u_src u_dst (stream (ws' @ rest)) (add_entries (map entry_row es) g)"
  using assms
proof (induction es arbitrary: ws g)
  case Nil
  then show ?case by (auto simp: add_entries_def)
next
  case (Cons e es)
  let ?more = "concat (map render es) @ rest"
  have "?more = [] \<or> \<not> is_space (hd ?more) \<and> \<not> is_digit (hd ?more)"
  proof (cases es)
    case (Cons e' es')
    then show ?thesis using render_first[of e'] by auto
  qed (use Cons.prems in simp)
  from simple_entry[OF Cons.prems(1) this, of u_src u_dst e g] obtain ws1 where 1:
    "list_all is_space ws1" "simple_loop u_src u_dst (stream (ws @ render e @ ?more)) g =
       simple_loop u_src u_dst (stream (ws1 @ ?more)) (add_entries [entry_row e] g)" by blast
  have "add_entries (map entry_row es) (add_entries [entry_row e] g) =
      add_entries (map entry_row (e # es)) g" by (simp add: add_entries_def)
  with Cons.IH[OF 1(1) Cons.prems(2), of "add_entries [entry_row e] g"] 1(2)
  show ?case by simp
qed

section \<open>Whatever the file holds\<close>

definition parsed :: "graph \<Rightarrow> bool" where
  "parsed g \<longleftrightarrow> plain_wf g \<and> src_bits g = [] \<and> dst_bits g = [] \<and>
     (\<forall>i < gsize g. isV g ! i \<in> {0, 1} \<and>
        (if isV g ! i = 1 then src g ! i = dst g ! i else gdata g ! i = 0))"

lemma parsed_empty: "parsed graph_empty"
  unfolding parsed_def using plain_wf_empty by (simp add: graph_empty_def)

lemma parsed_add:
  assumes "parsed g" "v = 1 \<and> s = d \<or> v = 0 \<and> x = 0"
  shows "parsed (add_list_entry s d v x g)"
  using assms plain_wf_add[of g s d v x]
  by (auto simp: parsed_def plain_wf_def graph_wf_def add_list_entry_def nth_append)

lemma read_node_parsed:
  assumes "parsed g" "read_node f g = Inr (g', r)"
  shows "parsed g'"
  using assms parsed_add[OF assms(1)]
  by (auto simp: read_node_def Let_def split: if_splits prod.splits)

lemma read_edge_parsed: "parsed g \<Longrightarrow> parsed (fst (read_edge u_src u_dst f g))"
  using parsed_add[of g 0 _ _ 0]
  by (auto simp: read_edge_def add_list_entry3_def split: prod.splits)

lemma simple_loop_parsed:
  "parsed g \<Longrightarrow> simple_loop u_src u_dst f g = Inr g' \<Longrightarrow> parsed g'"
proof (induction u_src u_dst f g arbitrary: g' rule: simple_loop.induct)
  case (1 u_src u_dst f g)
  obtain type f1 where c: "get_char (CHR 0x00) f = (type, f1)" by fastforce
  obtain h f2 where e: "read_edge u_src u_dst f1 g = (h, f2)" by fastforce
  have h: "parsed h" using read_edge_parsed[OF "1.prems"(1), of u_src u_dst f1] e by simp
  show ?case
  proof (cases "\<not> i_fail f1 \<and> node_letter type")
    case True
    then obtain k r where r: "read_node f1 g = Inr (k, r)"
      using "1.prems"(2) by (subst (asm) simple_loop.simps) (auto simp: c split: sum.splits prod.splits)
    have pk: "parsed k" using read_node_parsed[OF "1.prems"(1) r] .
    show ?thesis
    proof (cases r)
      case None
      then show ?thesis using "1.prems"(2) pk True by (subst (asm) simple_loop.simps) (auto simp: c r)
    next
      case (Some f3)
      have "simple_loop u_src u_dst f3 k = Inr g'"
        using "1.prems"(2) True by (subst (asm) simple_loop.simps) (simp add: c r Some)
      then show ?thesis using "1.IH"(1)[OF refl c[symmetric] _ _ r refl Some pk] True by blast
    qed
  next
    case False
    show ?thesis
    proof (cases "i_fail f1")
      case True
      then show ?thesis using "1.prems" by (subst (asm) simple_loop.simps) (auto simp: c split: if_splits)
    next
      case ok: False
      then have "edge_letter type \<and> simple_loop u_src u_dst f2 h = Inr g'"
        using "1.prems"(2) False
        by (subst (asm) simple_loop.simps) (auto simp: c e split: if_splits)
      then show ?thesis using "1.IH"(2)[OF refl c[symmetric] ok _ _ refl e[symmetric] h] False ok by blast
    qed
  qed
qed


section \<open>Properties\<close>

text \<open>C34: A graph that print writes is read back by parse exactly as it was, and the warning about
  the file format is not printed.\<close>

theorem printed_graph_read_back:
  assumes "plain_wf g" "src_bits g = []" "dst_bits g = []"
  shows "\<exists>cs. print g = Inr cs \<and> parse [name \<mapsto> cs] name = Inr (g, False)"
proof -
  obtain f where "parse_loop 0 0 0 0 (stream ([] @ concat (map entry_line (entries g)) @ newline))
      graph_empty = (add_entries (entries g) graph_empty, f)" "i_eof f"
    using parse_entries[of "[]" 0 0 0 0 "entries g" graph_empty] by auto
  moreover have "graph_wf g" using assms(1) by (simp add: plain_wf_def)
  ultimately show ?thesis
    using print_entries entries_rebuild[OF assms] by (auto simp: parse_def istream_of_def)
qed

definition small_graph :: graph where
  "small_graph = add_list_entry 7 7 1 1 (add_list_entry 7 6 0 0 (add_list_entry 6 6 1 0 graph_empty))"

lemma small_graph_wf: "plain_wf small_graph" "src_bits small_graph = []" "dst_bits small_graph = []"
  using plain_wf_add plain_wf_empty
  by (simp_all add: small_graph_def) (simp_all add: add_list_entry_def graph_empty_def)

theorem printed_graph_read_back_witness:
  "\<exists>cs. print small_graph = Inr cs \<and> parse [''g'' \<mapsto> cs] ''g'' = Inr (small_graph, False)"
  using small_graph_wf by (rule printed_graph_read_back)

text \<open>C35: A file in the format of the README, one line per node (with or without a state) and per
  edge, is read as exactly the graph of these entries in their order, with no state read as 0.\<close>

theorem simplified_format_read:
  "parse_simplified_format u_src u_dst [name \<mapsto> concat (map render es)] name =
     Inr (graph_of_entries es)"
proof -
  obtain ws where "list_all is_space ws" "simple_loop u_src u_dst (stream (concat (map render es)))
      graph_empty = simple_loop u_src u_dst (stream ws) (graph_of_entries es)"
    using simple_entries[of "[]" "[]" u_src u_dst es graph_empty] by (auto simp: graph_of_entries_def)
  then show ?thesis by (simp add: parse_simplified_format_def istream_of_def simple_end)
qed

text \<open>C36: Whatever a file holds, a graph the simplified reader accepts is well formed: four vectors
  of its size, the right number of nodes, every entry a node with equal source and target or an edge
  without data.\<close>

theorem accepted_graph_wf:
  assumes "parse_simplified_format u_src u_dst files name = Inr g"
  shows "parsed g"
  using assms simple_loop_parsed[OF parsed_empty]
  by (auto simp: parse_simplified_format_def split: option.splits)

theorem accepted_graph_wf_witness: "parsed (graph_of_entries [Node 7 (Some 1), Node 6 None, Edge 7 6])"
  by (rule accepted_graph_wf[of 0 0 "[''g'' \<mapsto> concat (map render [Node 7 (Some 1), Node 6 None, Edge 7 6])]" "''g''"])
     (use simple_entries[of "[]" "[]" 0 0 "[Node 7 (Some 1), Node 6 None, Edge 7 6]" graph_empty] in
      \<open>auto simp: parse_simplified_format_def istream_of_def graph_of_entries_def simple_end\<close>)

text \<open>C37: The simplified reader reports a file it cannot open, an entry that is neither node nor
  edge behind any number of good entries, and a node without an id.\<close>

theorem bad_graph_files_rejected:
  assumes "files good = Some (concat (map render es) @ c # rest)"
    and "\<not> is_space c" "\<not> is_digit c" "\<not> node_letter c" "\<not> edge_letter c"
    and "files bare = Some (concat (map render es) @ ''n'' @ newline)"
    and "files missing = None"
  shows "parse_simplified_format u_src u_dst files missing = Inl (open_error missing) \<and>
    parse_simplified_format u_src u_dst files good =
      Inl (Runtime_Error ''Unexpected subgraph file format'') \<and>
    parse_simplified_format u_src u_dst files bare =
      Inl (Runtime_Error ''Missing node ID after node entry'')"
proof (intro conjI)
  obtain ws where ws: "list_all is_space ws" "simple_loop u_src u_dst (stream (concat (map render es) @
      c # rest)) graph_empty = simple_loop u_src u_dst (stream (ws @ c # rest)) (graph_of_entries es)"
    using simple_entries[of "[]" "c # rest" u_src u_dst es graph_empty] assms(2,3)
    by (auto simp: graph_of_entries_def)
  have "simple_loop u_src u_dst (stream (ws @ c # rest)) (graph_of_entries es) =
      Inl (Runtime_Error ''Unexpected subgraph file format'')"
    by (subst simple_loop.simps) (simp add: get_char_next[OF ws(1) assms(2)] assms(4,5))
  then show "parse_simplified_format u_src u_dst files good =
      Inl (Runtime_Error ''Unexpected subgraph file format'')"
    using ws(2) assms(1) by (simp add: parse_simplified_format_def istream_of_def)
  obtain vs where vs: "list_all is_space vs" "simple_loop u_src u_dst (stream (concat (map render es) @
      ''n'' @ newline)) graph_empty = simple_loop u_src u_dst (stream (vs @ ''n'' @ newline))
        (graph_of_entries es)"
    using simple_entries[of "[]" "''n'' @ newline" u_src u_dst es graph_empty]
    by (auto simp: graph_of_entries_def)
  have "simple_loop u_src u_dst (stream (vs @ ''n'' @ newline)) (graph_of_entries es) =
      Inl (Runtime_Error ''Missing node ID after node entry'')"
    unfolding simple_node[OF vs(1)] by (simp add: read_node_def get_ring_end[OF newline_space])
  then show "parse_simplified_format u_src u_dst files bare =
      Inl (Runtime_Error ''Missing node ID after node entry'')"
    using vs(2) assms(6) by (simp add: parse_simplified_format_def istream_of_def)
qed (use assms(7) in \<open>simp add: parse_simplified_format_def\<close>)

definition bad_files :: "string \<Rightarrow> string option" where
  "bad_files = [''a'' \<mapsto> concat (map render [Edge 7 6]) @ ''x'',
     ''b'' \<mapsto> concat (map render [Edge 7 6]) @ ''n'' @ newline]"

theorem bad_graph_files_rejected_witness:
  "parse_simplified_format 0 0 bad_files ''c'' = Inl (open_error ''c'') \<and>
    parse_simplified_format 0 0 bad_files ''a'' =
      Inl (Runtime_Error ''Unexpected subgraph file format'') \<and>
    parse_simplified_format 0 0 bad_files ''b'' =
      Inl (Runtime_Error ''Missing node ID after node entry'')"
  by (rule bad_graph_files_rejected[of _ _ "[Edge 7 6]" "CHR ''x''" "[]"])
     (simp_all add: bad_files_def is_space_def is_digit_def node_letter_def edge_letter_def)

text \<open>C38: A file whose last edge lacks its target is not reported: the extraction of the target
  fails at the end of the file, its result is not tested, and the edge is added with whatever the
  uninitialised variable holds.\<close>

theorem truncated_edge_accepted:
  "parse_simplified_format u_src u_dst [name \<mapsto> concat (map render es) @ ''e '' @ show_ring v] name =
     Inr (add_list_entry v u_dst 0 0 (graph_of_entries es))"
proof -
  obtain ws where ws: "list_all is_space ws" "simple_loop u_src u_dst (stream (concat (map render es) @
      ''e '' @ show_ring v)) graph_empty =
      simple_loop u_src u_dst (stream (ws @ ''e'' @ '' '' @ show_ring v)) (graph_of_entries es)"
    using simple_entries[of "[]" "''e '' @ show_ring v" u_src u_dst es graph_empty]
    by (auto simp: graph_of_entries_def)
  let ?stop = "\<lparr>i_rest = [], i_eof = True, i_fail = True\<rparr>"
  have "get_ring u_src (stream ('' '' @ show_ring v)) = (v, \<lparr>i_rest = [], i_eof = True, i_fail = False\<rparr>)"
    using get_ring_shown[of "'' ''" "[]"] by simp
  moreover have "get_ring u_dst \<lparr>i_rest = [], i_eof = True, i_fail = False\<rparr> = (u_dst, ?stop)"
    by (simp add: get_ring_def skip_ws_def i_good_def)
  moreover have "simple_loop u_src u_dst ?stop g = Inr g" for g
    by (subst simple_loop.simps) (simp add: get_char_def skip_ws_def i_good_def)
  ultimately have "simple_loop u_src u_dst (stream (ws @ ''e'' @ '' '' @ show_ring v))
      (graph_of_entries es) = Inr (add_list_entry v u_dst 0 0 (graph_of_entries es))"
    unfolding simple_edge[OF ws(1)] by (simp add: read_edge_def add_list_entry3_def)
  then show ?thesis using ws(2) by (simp add: parse_simplified_format_def istream_of_def)
qed

end
