(* ===== verification/Connections.thy ===== *)
theory Connections
  imports Network
begin

text \<open>
  \<open>src/src/core/io/netmp.h\<close> and \<open>tls_net_io_channel.h\<close>: how servers and clients connect to each
  other (\<open>init_network\<close>) and wait for each other (\<open>sync\<close>). All endpoints run at the same time; a
  step relation interleaves their blocking operations. The locale \<open>schedule\<close> shows that programs
  which are the projections of one executable trace never block forever, and is interpreted on the
  programs of both operations.
\<close>

section \<open>Endpoints that wait for each other\<close>

text \<open>
  What an endpoint does on a channel: put a token into it or take one from it, waiting until there
  is one. A configuration has the remaining program of every endpoint and the tokens of every channel.
\<close>

datatype 'c act = Snd 'c | Rcv 'c

type_synonym 'c config = "(nat \<Rightarrow> 'c act list) \<times> ('c \<Rightarrow> nat)"

definition tok_in :: "'c \<Rightarrow> ('c \<Rightarrow> nat) \<Rightarrow> 'c \<Rightarrow> nat" where
  "tok_in c t = t(c := t c + 1)"

definition tok_out :: "'c \<Rightarrow> ('c \<Rightarrow> nat) \<Rightarrow> 'c \<Rightarrow> nat" where
  "tok_out c t = t(c := t c - 1)"

inductive act_step :: "'c config \<Rightarrow> 'c config \<Rightarrow> bool" where
  put: "prog p = Snd c # as \<Longrightarrow> act_step (prog, toks) (prog(p := as), tok_in c toks)"
| get: "prog p = Rcv c # as \<Longrightarrow> 0 < toks c \<Longrightarrow>
     act_step (prog, toks) (prog(p := as), tok_out c toks)"

inductive_cases act_stepE: "act_step s s'"

definition all_done :: "'c config \<Rightarrow> bool" where
  "all_done s \<longleftrightarrow> (\<forall>p. fst s p = [])"

text \<open>A trace names the endpoint of every operation; \<open>runs\<close>: none of them has to wait.\<close>

type_synonym 'c trace = "(nat \<times> 'c act) list"

definition program :: "'c trace \<Rightarrow> nat \<Rightarrow> 'c act list" where
  "program T p = map snd (filter (\<lambda>e. fst e = p) T)"

primrec runs :: "('c \<Rightarrow> nat) \<Rightarrow> 'c trace \<Rightarrow> bool" where
  "runs toks [] \<longleftrightarrow> True"
| "runs toks (e # T) \<longleftrightarrow> (case snd e of
     Snd c \<Rightarrow> runs (tok_in c toks) T
   | Rcv c \<Rightarrow> 0 < toks c \<and> runs (tok_out c toks) T)"

lemma tok_in_tok_in: "tok_in c (tok_in d t) = tok_in d (tok_in c t)"
  by (auto simp: tok_in_def)

lemma tok_in_tok_out: "0 < t d \<Longrightarrow> tok_in c (tok_out d t) = tok_out d (tok_in c t)"
  by (auto simp: tok_in_def tok_out_def)

lemma tok_out_tok_out: "d \<noteq> c \<Longrightarrow> tok_out c (tok_out d t) = tok_out d (tok_out c t)"
  by (auto simp: tok_out_def)

lemma tok_in_at: "t d \<le> tok_in c t d" "tok_in c t c = t c + 1"
  by (simp_all add: tok_in_def)

lemma tok_out_at: "d \<noteq> c \<Longrightarrow> tok_out c t d = t d"
  by (simp add: tok_out_def)

definition sole_reader :: "'c trace \<Rightarrow> bool" where
  "sole_reader T \<longleftrightarrow> (\<forall>p q c. (p, Rcv c) \<in> set T \<longrightarrow> (q, Rcv c) \<in> set T \<longrightarrow> p = q)"

lemma program_Cons: "program (e # T) p = (if fst e = p then snd e # program T p else program T p)"
  by (simp add: program_def)

lemma program_append: "program (T @ U) p = program T p @ program U p"
  by (simp add: program_def)

lemma program_head:
  assumes "program T p = a # as"
  shows "\<exists>U V. T = U @ (p, a) # V \<and> program U p = [] \<and> program V p = as"
  using assms
proof (induction T)
  case Nil
  then show ?case by (simp add: program_def)
next
  case (Cons e T)
  show ?case
  proof (cases "fst e = p")
    case True
    then have "e # T = [] @ (p, a) # T" "program T p = as"
      using Cons.prems by (cases e; simp add: program_Cons)+
    then show ?thesis by (metis program_def filter.simps(1) list.simps(8))
  next
    case False
    then obtain U V where "T = U @ (p, a) # V" "program U p = []" "program V p = as"
      using Cons by (auto simp: program_Cons)
    then have "e # T = (e # U) @ (p, a) # V \<and> program (e # U) p = [] \<and> program V p = as"
      using False by (simp add: program_Cons)
    then show ?thesis by blast
  qed
qed

text \<open>The next operation of an endpoint can be moved to the front.\<close>

lemma runs_put_first: "runs t (U @ (p, Snd c) # V) \<Longrightarrow> runs (tok_in c t) (U @ V)"
proof (induction U arbitrary: t)
  case (Cons e U)
  show ?case
  proof (cases "snd e")
    case (Snd d)
    then have "runs (tok_in c (tok_in d t)) (U @ V)" using Cons by simp
    then show ?thesis using Snd by (simp add: tok_in_tok_in[of c d])
  next
    case (Rcv d)
    then have "runs (tok_in c (tok_out d t)) (U @ V)" and d: "0 < t d" using Cons by simp_all
    then have "runs (tok_out d (tok_in c t)) (U @ V)" by (simp add: tok_in_tok_out)
    moreover have "0 < tok_in c t d" using d tok_in_at(1)[of t d c] by simp
    ultimately show ?thesis using Rcv by simp
  qed
qed simp

lemma runs_get_first:
  assumes "runs t (U @ (p, Rcv c) # V)" "\<forall>e \<in> set U. snd e \<noteq> Rcv c" "0 < t c"
  shows "runs (tok_out c t) (U @ V)"
  using assms
proof (induction U arbitrary: t)
  case (Cons e U)
  show ?case
  proof (cases "snd e")
    case (Snd d)
    have "0 < tok_in d t c" using Cons.prems(3) tok_in_at(1)[of t c d] by simp
    then have "runs (tok_out c (tok_in d t)) (U @ V)" using Cons Snd by simp
    then show ?thesis using Snd Cons.prems(3) by (simp add: tok_in_tok_out)
  next
    case (Rcv d)
    have ne: "d \<noteq> c" and d: "0 < t d" using Cons.prems Rcv by auto
    have "0 < tok_out d t c" using Cons.prems(3) ne tok_out_at[of c d t] by simp
    then have "runs (tok_out c (tok_out d t)) (U @ V)" using Cons Rcv by simp
    then have "runs (tok_out d (tok_out c t)) (U @ V)" using ne by (simp add: tok_out_tok_out)
    moreover have "0 < tok_out c t d" using d tok_out_at[OF ne] by simp
    ultimately show ?thesis using Rcv by simp
  qed
qed simp

section \<open>Programs that come from one trace\<close>

definition start :: "'c trace \<Rightarrow> 'c config" where
  "start T = (program T, \<lambda>_. 0)"

locale schedule =
  fixes T :: "'c trace"
  assumes T_runs: "runs (\<lambda>_. 0) T"
    and T_reader: "sole_reader T"
begin

definition rest_of :: "'c trace \<Rightarrow> 'c config \<Rightarrow> bool" where
  "rest_of R s \<longleftrightarrow> fst s = program R \<and> runs (snd s) R \<and> set R \<subseteq> set T"

text \<open>How many tokens were put into a channel and taken from it is seen from what remains.\<close>

definition balanced :: "'c trace \<Rightarrow> 'c config \<Rightarrow> bool" where
  "balanced R s \<longleftrightarrow> (\<forall>c. snd s c + count_list (map snd T) (Rcv c) + count_list (map snd R) (Snd c) =
     count_list (map snd T) (Snd c) + count_list (map snd R) (Rcv c))"

lemma rest_start: "rest_of T (start T)" "balanced T (start T)"
  using T_runs by (simp_all add: rest_of_def balanced_def start_def)

lemma rest_step:
  assumes "rest_of R s" "act_step s s'"
  shows "\<exists>R'. rest_of R' s' \<and> length R = Suc (length R') \<and> (balanced R s \<longrightarrow> balanced R' s')"
proof -
  obtain prog toks where s: "s = (prog, toks)" by fastforce
  have R: "prog = program R" "runs toks R" "set R \<subseteq> set T" using assms(1) by (simp_all add: s rest_of_def)
  obtain p a as where pa: "prog p = a # as" and
    cases: "(\<exists>c. a = Snd c \<and> s' = (prog(p := as), tok_in c toks)) \<or>
      (\<exists>c. a = Rcv c \<and> 0 < toks c \<and> s' = (prog(p := as), tok_out c toks))"
    using assms(2) unfolding s by (cases rule: act_step.cases) auto
  obtain U V where UV: "R = U @ (p, a) # V" "program U p = []" "program V p = as"
    using program_head[of R p a as] pa R(1) by auto
  have prog': "prog(p := as) = program (U @ V)"
    by (rule ext) (simp add: R(1) UV program_append program_Cons)
  have sub: "set (U @ V) \<subseteq> set T" and len: "length R = Suc (length (U @ V))"
    using R(3) UV(1) by auto
  have noU: "(p, b) \<notin> set U" for b
  proof
    assume "(p, b) \<in> set U"
    then have "b \<in> set (program U p)" unfolding program_def by force
    then show False using UV(2) by simp
  qed
  show ?thesis
    using cases
  proof (elim disjE exE conjE)
    fix c assume a: "a = Snd c" and s': "s' = (prog(p := as), tok_in c toks)"
    have "runs (tok_in c toks) (U @ V)" using R(2) unfolding UV(1) a by (rule runs_put_first)
    moreover have "balanced R s \<longrightarrow> balanced (U @ V) s'"
      unfolding balanced_def s s' UV(1) a by (auto simp: tok_in_def)
    ultimately show ?thesis using prog' sub len
      by (intro exI[of _ "U @ V"]) (simp add: rest_of_def s')
  next
    fix c assume a: "a = Rcv c" and c: "0 < toks c" and s': "s' = (prog(p := as), tok_out c toks)"
    have "snd e \<noteq> Rcv c" if "e \<in> set U" for e
    proof
      assume "snd e = Rcv c"
      then have "(fst e, Rcv c) \<in> set T" "(p, Rcv c) \<in> set T" using that R(3) UV(1) a by (cases e, auto)+
      then have "fst e = p" using T_reader unfolding sole_reader_def by blast
      then show False using noU[of "Rcv c"] that \<open>snd e = Rcv c\<close> by (metis prod.collapse)
    qed
    then have "runs (tok_out c toks) (U @ V)"
      using runs_get_first[of toks U p c V] R(2) c unfolding UV(1) a by simp
    moreover have "balanced R s \<longrightarrow> balanced (U @ V) s'"
      unfolding balanced_def s s' UV(1) a using c by (auto simp: tok_out_def)
    ultimately show ?thesis using prog' sub len
      by (intro exI[of _ "U @ V"]) (simp add: rest_of_def s')
  qed
qed

lemma rest_reach:
  assumes "act_step\<^sup>*\<^sup>* (start T) s"
  shows "\<exists>R. rest_of R s \<and> balanced R s"
  using assms
proof (induction rule: rtranclp_induct)
  case base
  then show ?case using rest_start by blast
next
  case (step s s')
  then show ?case using rest_step by blast
qed

text \<open>No reachable configuration is stuck.\<close>

lemma no_deadlock:
  assumes "act_step\<^sup>*\<^sup>* (start T) s"
  shows "all_done s \<or> (\<exists>s'. act_step s s')"
proof -
  obtain R where R: "fst s = program R" "runs (snd s) R" using rest_reach[OF assms] by (auto simp: rest_of_def)
  show ?thesis
  proof (cases R)
    case Nil
    then show ?thesis using R(1) by (simp add: all_done_def program_def)
  next
    case (Cons e U)
    then have head: "fst s (fst e) = snd e # program U (fst e)" by (simp add: R(1) program_Cons)
    obtain prog toks where s: "s = (prog, toks)" by fastforce
    show ?thesis
    proof (cases "snd e")
      case (Snd c)
      then show ?thesis using put[of prog "fst e" c] head by (auto simp: s)
    next
      case (Rcv c)
      then have "0 < toks c" using R(2) Cons by (simp add: s)
      then show ?thesis using get[of prog "fst e" c] head Rcv by (auto simp: s)
    qed
  qed
qed

text \<open>Every run ends after as many steps as the trace has.\<close>

lemma steps_bound:
  assumes "(act_step ^^ m) (start T) s"
  shows "m \<le> length T \<and> (m = length T \<longrightarrow> all_done s)"
proof -
  have "(act_step ^^ m) (start T) s \<Longrightarrow> \<exists>R. rest_of R s \<and> m + length R = length T" for m s
  proof (induction m arbitrary: s)
    case 0
    then show ?case using rest_start by auto
  next
    case (Suc m)
    then obtain s1 where "(act_step ^^ m) (start T) s1" "act_step s1 s" by auto
    then show ?case using Suc.IH rest_step by (metis add_Suc_right add_Suc)
  qed
  then obtain R where "rest_of R s" "m + length R = length T" using assms by blast
  then show ?thesis by (auto simp: rest_of_def all_done_def program_def)
qed

lemma finishes: "\<exists>s. act_step\<^sup>*\<^sup>* (start T) s \<and> all_done s"
proof -
  have "\<exists>t'. act_step\<^sup>*\<^sup>* (program R, t) (program [], t')" if "runs t R" for t R
    using that
  proof (induction R arbitrary: t)
    case (Cons e R)
    have eq: "(program (e # R))(fst e := program R (fst e)) = program R"
      by (rule ext) (simp add: program_Cons)
    have "\<exists>t1. act_step (program (e # R), t) (program R, t1) \<and> runs t1 R"
    proof (cases "snd e")
      case (Snd c)
      then have "act_step (program (e # R), t) (program R, tok_in c t)"
        using put[of "program (e # R)" "fst e" c "program R (fst e)" t] eq by (simp add: program_Cons)
      then show ?thesis using Cons.prems Snd by auto
    next
      case (Rcv c)
      then have "act_step (program (e # R), t) (program R, tok_out c t)"
        using get[of "program (e # R)" "fst e" c "program R (fst e)" t] eq Cons.prems
        by (simp add: program_Cons)
      then show ?thesis using Cons.prems Rcv by auto
    qed
    then show ?case using Cons.IH by (meson converse_rtranclp_into_rtranclp)
  qed auto
  from this[OF T_runs] show ?thesis by (auto simp: start_def all_done_def program_def)
qed

text \<open>An endpoint that is done has heard of every endpoint whose tokens it takes.\<close>

lemma done_heard:
  assumes "act_step\<^sup>*\<^sup>* (start T) s" "fst s p = []" "(p, Rcv c) \<in> set T"
    "\<And>r. (r, Snd c) \<in> set T \<Longrightarrow> r = q"
  shows "fst s q \<noteq> program T q"
proof
  assume same: "fst s q = program T q"
  obtain R where R: "rest_of R s" "balanced R s" using rest_reach[OF assms(1)] by blast
  have cnt: "count_list (map snd X) a = count_list (program X r) a"
    if "\<And>r'. (r', a) \<in> set X \<Longrightarrow> r' = r" for X :: "'c trace" and a r
    using that
  proof (induction X)
    case (Cons e X)
    then have IH: "count_list (map snd X) a = count_list (program X r) a" by simp
    have "snd e = a \<Longrightarrow> fst e = r" using Cons.prems[of "fst e"] by (cases e) auto
    then show ?case using IH by (auto simp: program_Cons)
  qed (simp add: program_def)
  have rd: "r = p" if "(r, Rcv c) \<in> set R" for r
    using that R(1) assms(3) T_reader unfolding rest_of_def sole_reader_def by blast
  have sub: "set R \<subseteq> set T" and pr: "program R p = []" "program R q = program T q"
    using R(1) assms(2) same by (simp_all add: rest_of_def)
  have "count_list (map snd R) (Rcv c) = 0" using cnt[of "Rcv c" R p] rd pr(1) by simp
  moreover have "count_list (map snd R) (Snd c) = count_list (map snd T) (Snd c)"
    using cnt[of "Snd c" R q] cnt[of "Snd c" T q] assms(4) sub pr(2) by auto
  ultimately have "count_list (map snd T) (Rcv c) = 0"
    using R(2)[unfolded balanced_def, rule_format, of c] by linarith
  moreover have "Rcv c \<in> set (map snd T)" using assms(3) by force
  ultimately show False using count_list_0_iff by metis
qed

end


section \<open>Opening the connections\<close>

record network_config =
  nc_id :: nat
  nc_parties :: nat
  nc_clients :: nat
  nc_block_size :: nat
  nc_port :: int
  nc_IP :: "string list"
  certificate_path :: string
  private_key_path :: string
  trusted_cert_path :: string
  nc_localhost :: bool

definition n_total :: "network_config \<Rightarrow> nat" where
  "n_total conf = nc_parties conf + nc_clients conf"

text \<open>The two constructors of \<open>TLSNetIO\<close>: one connects to an address, the other waits on a port.\<close>

datatype link =
    Connect string int string
  | Listen int string string

definition port_ok :: "int \<Rightarrow> bool" where
  "port_ok p \<longleftrightarrow> 0 \<le> p \<and> p \<le> 65535"

definition bad_port :: err where
  "bad_port = Runtime_Error ''Invalid port number!''"

definition open_connect :: "network_config \<Rightarrow> nat \<Rightarrow> int \<Rightarrow> link res" where
  "open_connect conf j p =
     bindr (if nc_localhost conf then Inr ''127.0.0.1'' else at_res (nc_IP conf) j) (\<lambda>address.
       if \<not> port_ok p then Inl bad_port else Inr (Connect address p (trusted_cert_path conf)))"

definition open_listen :: "network_config \<Rightarrow> int \<Rightarrow> link res" where
  "open_listen conf p =
     (if \<not> port_ok p then Inl bad_port
      else Inr (Listen p (certificate_path conf) (private_key_path conf)))"

text \<open>The body of the loops of \<open>init_network\<close>: \<open>ios\<close> first, then \<open>ios2\<close>.\<close>

definition pair_port :: "int \<Rightarrow> nat \<Rightarrow> nat \<times> nat \<Rightarrow> int" where
  "pair_port port n e = port + 2 * int (fst e * n + snd e)"

definition init_pair :: "network_config \<Rightarrow> nat \<times> nat \<Rightarrow> link list res" where
  "init_pair conf e =
     (let i = fst e; j = snd e; p = pair_port (nc_port conf) (n_total conf) e
      in if i = nc_id conf
         then bindr (open_connect conf j p) (\<lambda>l. bindr (open_listen conf (p + 1)) (\<lambda>l2. Inr [l, l2]))
         else if j = nc_id conf
         then bindr (open_listen conf p) (\<lambda>l. bindr (open_connect conf i (p + 1)) (\<lambda>l2. Inr [l, l2]))
         else Inr [])"

definition pairs :: "nat \<Rightarrow> (nat \<times> nat) list" where
  "pairs n = concat (map (\<lambda>i. map (Pair i) [i + 1..<n]) [0..<n])"

definition init_network :: "network_config \<Rightarrow> link list res" where
  "init_network conf =
     foldr_res (\<lambda>ls e. bindr (init_pair conf e) (\<lambda>l. Inr (ls @ l))) [] (pairs (n_total conf))"

section \<open>What opening and synchronising do on the wire\<close>

text \<open>
  Every endpoint runs on a machine with an address; the listening side binds its port on that
  machine (\<open>INADDR_ANY\<close>), waits in \<open>accept\<close> and answers the handshake. The connecting side retries
  until the port is bound on the machine its address leads to, then starts the handshake and waits
  for the answer. The loopback address leads to the machine of the endpoint itself.
\<close>

datatype wire = Bound | To_Listener | To_Connector

definition leads_to :: "(nat \<Rightarrow> string) \<Rightarrow> nat \<Rightarrow> string \<Rightarrow> string" where
  "leads_to machine me a = (if a = ''127.0.0.1'' then machine me else a)"

fun link_open :: "(nat \<Rightarrow> string) \<Rightarrow> nat \<Rightarrow> link \<Rightarrow> ((string \<times> int) \<times> wire) act list" where
  "link_open machine me (Connect a p t) =
     (let h = (leads_to machine me a, p) in [Rcv (h, Bound), Snd (h, To_Listener), Rcv (h, To_Connector)])"
| "link_open machine me (Listen p c k) =
     (let h = (machine me, p) in [Snd (h, Bound), Rcv (h, To_Listener), Snd (h, To_Connector)])"

text \<open>
  \<open>TLSNetIO::sync\<close> on a connection that has been made, which is named by its port: the listening side
  (\<open>is_server\<close>) sends its byte first. A byte is under way as soon as it is flushed: \<open>recv_data_internal\<close>
  flushes what has been sent before it waits, and the connecting side flushes after it has sent.
\<close>

fun link_sync :: "link \<Rightarrow> (int \<times> wire) act list" where
  "link_sync (Listen p c k) = [Snd (p, To_Connector), Rcv (p, To_Listener)]"
| "link_sync (Connect a p t) = [Rcv (p, To_Connector), Snd (p, To_Listener)]"

definition open_program :: "(nat \<Rightarrow> string) \<Rightarrow> network_config \<Rightarrow> ((string \<times> int) \<times> wire) act list res" where
  "open_program machine conf =
     bindr (init_network conf) (\<lambda>ls. Inr (concat (map (link_open machine (nc_id conf)) ls)))"

text \<open>\<open>NetIOMP::sync\<close> visits the connections in the loops in which they were opened.\<close>

definition sync_program :: "network_config \<Rightarrow> (int \<times> wire) act list res" where
  "sync_program conf = bindr (init_network conf) (\<lambda>ls. Inr (concat (map link_sync ls)))"

text \<open>The traces of one connection between a listening and a connecting endpoint, and of all.\<close>

definition open_trace :: "(nat \<Rightarrow> string) \<Rightarrow> nat \<Rightarrow> nat \<Rightarrow> int \<Rightarrow> ((string \<times> int) \<times> wire) trace" where
  "open_trace machine l c p = (let h = (machine l, p) in
     [(l, Snd (h, Bound)), (c, Rcv (h, Bound)), (c, Snd (h, To_Listener)),
      (l, Rcv (h, To_Listener)), (l, Snd (h, To_Connector)), (c, Rcv (h, To_Connector))])"

definition sync_trace :: "nat \<Rightarrow> nat \<Rightarrow> int \<Rightarrow> (int \<times> wire) trace" where
  "sync_trace l c p = [(l, Snd (p, To_Connector)), (c, Rcv (p, To_Connector)),
     (c, Snd (p, To_Listener)), (l, Rcv (p, To_Listener))]"

definition pair_trace ::
  "(nat \<Rightarrow> nat \<Rightarrow> int \<Rightarrow> 'c trace) \<Rightarrow> int \<Rightarrow> nat \<Rightarrow> nat \<times> nat \<Rightarrow> 'c trace" where
  "pair_trace tr port n e =
     (let p = pair_port port n e in tr (snd e) (fst e) p @ tr (fst e) (snd e) (p + 1))"

definition net_trace ::
  "(nat \<Rightarrow> nat \<Rightarrow> int \<Rightarrow> 'c trace) \<Rightarrow> int \<Rightarrow> nat \<Rightarrow> 'c trace" where
  "net_trace tr port n = concat (map (pair_trace tr port n) (pairs n))"

lemma pairs_set: "e \<in> set (pairs n) \<longleftrightarrow> fst e < snd e \<and> snd e < n"
  by (cases e) (force simp: pairs_def)

lemma tok_out_tok_in: "tok_out c (tok_in c t) = t"
  by (simp add: tok_out_def tok_in_def fun_upd_idem)

lemma runs_open: "runs t (open_trace machine l c p @ R) \<longleftrightarrow> runs t R"
  by (simp add: open_trace_def Let_def tok_out_tok_in tok_in_at(2))

lemma runs_sync: "runs t (sync_trace l c p @ R) \<longleftrightarrow> runs t R"
  by (simp add: sync_trace_def tok_out_tok_in tok_in_at(2))

lemma runs_net:
  assumes "\<And>t l c p R. runs t (tr l c p @ R) \<longleftrightarrow> runs t R"
  shows "runs t (net_trace tr port n)"
proof -
  have "runs t (concat (map (pair_trace tr port n) ps))" for ps
    by (induction ps) (simp_all add: pair_trace_def Let_def assms)
  then show ?thesis by (simp add: net_trace_def)
qed

text \<open>Every connection has its own port, so its channels have one reader and one writer.\<close>

definition keeps_roles :: "('c \<Rightarrow> int \<times> wire) \<Rightarrow> (nat \<Rightarrow> nat \<Rightarrow> int \<Rightarrow> 'c trace) \<Rightarrow> bool" where
  "keeps_roles port_of tr \<longleftrightarrow> (\<forall>l c p e. e \<in> set (tr l c p) \<longrightarrow> (case snd e of
     Snd ch \<Rightarrow> fst (port_of ch) = p \<and> fst e = (if snd (port_of ch) = To_Listener then c else l)
   | Rcv ch \<Rightarrow> fst (port_of ch) = p \<and> fst e = (if snd (port_of ch) = To_Listener then l else c)))"

definition at_port :: "(string \<times> int) \<times> wire \<Rightarrow> int \<times> wire" where
  "at_port ch = (snd (fst ch), snd ch)"

lemma roles: "keeps_roles at_port (open_trace machine)" "keeps_roles (\<lambda>ch. ch) sync_trace"
  by (auto simp: keeps_roles_def open_trace_def sync_trace_def at_port_def Let_def)

text \<open>The listening and the connecting endpoint of the connection with a given port.\<close>

definition ends :: "nat \<Rightarrow> int \<Rightarrow> int \<Rightarrow> nat \<times> nat \<Rightarrow> nat \<Rightarrow> nat \<Rightarrow> bool" where
  "ends n port p e l c \<longleftrightarrow> e \<in> set (pairs n) \<and>
     (p = pair_port port n e \<and> (l, c) = (snd e, fst e) \<or>
      p = pair_port port n e + 1 \<and> (l, c) = e)"

lemma pair_port_inj:
  assumes "e \<in> set (pairs n)" "e' \<in> set (pairs n)" "pair_port port n e = pair_port port n e'"
  shows "e = e'"
  using pair_code_inj[of "snd e" n "snd e'" "fst e" "fst e'"] assms
  unfolding pairs_set pair_port_def by (simp add: prod_eq_iff of_nat_eq_iff[symmetric] del: of_nat_add of_nat_mult of_nat_eq_iff)

lemma ends_unique:
  assumes "ends n port p e l c" "ends n port p e' l' c'"
  shows "l = l' \<and> c = c'"
proof -
  have par: "pair_port port n e \<noteq> pair_port port n e' + 1" for e e'
    unfolding pair_port_def by presburger
  have same: "pair_port port n e = pair_port port n e' \<Longrightarrow> e = e'"
    using pair_port_inj[of e n e' port] assms unfolding ends_def by blast
  show ?thesis
    using assms(1)[unfolded ends_def, THEN conjunct2]
  proof (elim disjE conjE)
    assume 1: "p = pair_port port n e" "(l, c) = (snd e, fst e)"
    then have "p = pair_port port n e' \<and> (l', c') = (snd e', fst e')"
      using assms(2) par[of e e'] unfolding ends_def by argo
    then show ?thesis using 1 same by simp
  next
    assume 2: "p = pair_port port n e + 1" "(l, c) = e"
    then have "p = pair_port port n e' + 1 \<and> (l', c') = e'"
      using assms(2) par[of e' e] unfolding ends_def by argo
    then show ?thesis using 2 same by auto
  qed
qed

lemma net_trace_event:
  assumes "keeps_roles f tr" "(q, a) \<in> set (net_trace tr port n)"
  shows "\<exists>ch e l c. ends n port (fst (f ch)) e l c \<and>
     (a = Snd ch \<and> q = (if snd (f ch) = To_Listener then c else l) \<or>
      a = Rcv ch \<and> q = (if snd (f ch) = To_Listener then l else c))"
proof -
  obtain e where e: "e \<in> set (pairs n)" "(q, a) \<in> set (pair_trace tr port n e)"
    using assms(2) by (auto simp: net_trace_def)
  let ?p = "pair_port port n e"
  have r: "case snd x of Snd ch \<Rightarrow> fst (f ch) = p \<and> fst x = (if snd (f ch) = To_Listener then c else l)
      | Rcv ch \<Rightarrow> fst (f ch) = p \<and> fst x = (if snd (f ch) = To_Listener then l else c)"
    if "x \<in> set (tr l c p)" for x l c p
    using assms(1) that unfolding keeps_roles_def by blast
  obtain l c p where t: "(q, a) \<in> set (tr l c p)" "ends n port p e l c"
  proof -
    have "(q, a) \<in> set (tr (snd e) (fst e) ?p) \<or> (q, a) \<in> set (tr (fst e) (snd e) (?p + 1))"
      using e(2) by (auto simp: pair_trace_def Let_def)
    then show thesis using that[of "snd e" "fst e" ?p] that[of "fst e" "snd e" "?p + 1"] e(1)
      by (auto simp: ends_def)
  qed
  show ?thesis
  proof (cases a)
    case (Snd ch)
    then have "fst (f ch) = p" "q = (if snd (f ch) = To_Listener then c else l)" using r[OF t(1)] by simp_all
    then show ?thesis using t(2) Snd by blast
  next
    case (Rcv ch)
    then have "fst (f ch) = p" "q = (if snd (f ch) = To_Listener then l else c)" using r[OF t(1)] by simp_all
    then show ?thesis using t(2) Rcv by blast
  qed
qed

lemma net_sole_reader:
  assumes "keeps_roles f tr"
  shows "sole_reader (net_trace tr port n)"
  unfolding sole_reader_def
proof (intro allI impI)
  fix q q' ch assume 1: "(q, Rcv ch) \<in> set (net_trace tr port n)" "(q', Rcv ch) \<in> set (net_trace tr port n)"
  obtain e l c where e: "ends n port (fst (f ch)) e l c" "q = (if snd (f ch) = To_Listener then l else c)"
    using net_trace_event[OF assms 1(1)] by auto
  obtain e' l' c' where e': "ends n port (fst (f ch)) e' l' c'" "q' = (if snd (f ch) = To_Listener then l' else c')"
    using net_trace_event[OF assms 1(2)] by auto
  show "q = q'" using ends_unique[OF e(1) e'(1)] e(2) e'(2) by simp
qed

interpretation connecting: schedule "net_trace (open_trace machine) port n" for machine port n
  by unfold_locales (simp_all add: runs_net runs_open net_sole_reader[OF roles(1)])

interpretation syncing: schedule "net_trace sync_trace port n" for port n
  by unfold_locales (simp_all add: runs_net runs_sync net_sole_reader[OF roles(2)])


section \<open>The programs of the endpoints are projections of the traces\<close>

text \<open>
  A trace of one connection gives the listening and the connecting endpoint their operations on it,
  \<open>acts\<close>, for the addresses that \<open>ok\<close> admits.
\<close>

definition projects ::
  "(nat \<Rightarrow> nat \<Rightarrow> string \<Rightarrow> bool) \<Rightarrow> (nat \<Rightarrow> link \<Rightarrow> 'c act list) \<Rightarrow> (nat \<Rightarrow> nat \<Rightarrow> int \<Rightarrow> 'c trace) \<Rightarrow> bool" where
  "projects ok acts tr \<longleftrightarrow> (\<forall>l c p q. l \<noteq> c \<longrightarrow>
     (\<forall>cc kk. program (tr l c p) l = acts l (Listen p cc kk)) \<and>
     (\<forall>a t. ok l c a \<longrightarrow> program (tr l c p) c = acts c (Connect a p t)) \<and>
     (q \<notin> {l, c} \<longrightarrow> program (tr l c p) q = []))"

lemma program_open: "projects (\<lambda>l c a. leads_to machine c a = machine l) (link_open machine) (open_trace machine)"
  by (simp add: projects_def open_trace_def program_def Let_def)

lemma program_sync: "projects (\<lambda>l c a. True) (\<lambda>_. link_sync) sync_trace"
  by (simp add: projects_def sync_trace_def program_def)

text \<open>The address at which an endpoint expects another one.\<close>

definition address_of :: "network_config \<Rightarrow> nat \<Rightarrow> string" where
  "address_of conf j = (if nc_localhost conf then ''127.0.0.1'' else nc_IP conf ! j)"

lemma open_connect_Inr:
  "open_connect conf j p = Inr l \<Longrightarrow> l = Connect (address_of conf j) p (trusted_cert_path conf)"
  by (auto simp: open_connect_def address_of_def bindr_Inr_iff at_res_def split: if_splits)

lemma open_listen_Inr:
  "open_listen conf p = Inr l \<Longrightarrow> l = Listen p (certificate_path conf) (private_key_path conf)"
  by (auto simp: open_listen_def split: if_splits)

lemma init_pair_program:
  assumes "projects ok acts tr" "init_pair conf e = Inr ls" "fst e < snd e" "snd e < n_total conf"
    "\<And>j. j < n_total conf \<Longrightarrow> j \<noteq> nc_id conf \<Longrightarrow> ok j (nc_id conf) (address_of conf j)"
  shows "program (pair_trace tr (nc_port conf) (n_total conf) e) (nc_id conf) = concat (map (acts (nc_id conf)) ls)"
proof -
  let ?p = "pair_port (nc_port conf) (n_total conf) e" and ?me = "nc_id conf"
  have pr: "program (pair_trace tr (nc_port conf) (n_total conf) e) q =
      program (tr (snd e) (fst e) ?p) q @ program (tr (fst e) (snd e) (?p + 1)) q" for q
    by (simp add: pair_trace_def Let_def program_append)
  have P: "l \<noteq> c \<Longrightarrow> program (tr l c p) l = acts l (Listen p cc kk)"
    "l \<noteq> c \<Longrightarrow> ok l c a \<Longrightarrow> program (tr l c p) c = acts c (Connect a p t)"
    "l \<noteq> c \<Longrightarrow> q \<notin> {l, c} \<Longrightarrow> program (tr l c p) q = []" for l c p q cc kk a t
    using assms(1) unfolding projects_def by blast+
  consider "?me = fst e" | "?me = snd e" | "?me \<notin> {fst e, snd e}" by auto
  then show ?thesis
  proof cases
    case 1
    then obtain l1 l2 where l: "open_connect conf (snd e) ?p = Inr l1" "open_listen conf (?p + 1) = Inr l2" "ls = [l1, l2]"
      using assms(2) by (auto simp: init_pair_def Let_def bindr_Inr_iff)
    have o': "ok (snd e) (fst e) (address_of conf (snd e))" using assms(3-5) 1 by simp
    have "snd e \<noteq> fst e" "fst e \<noteq> snd e" using assms(3) by simp_all
    note Q = P(2)[OF this(1) o', of ?p "trusted_cert_path conf"]
      P(1)[OF this(2), of "?p + 1" "certificate_path conf" "private_key_path conf"]
    show ?thesis unfolding pr 1 Q l(3) by (simp add: open_connect_Inr[OF l(1)] open_listen_Inr[OF l(2)])
  next
    case 2
    then obtain l1 l2 where l: "open_listen conf ?p = Inr l1" "open_connect conf (fst e) (?p + 1) = Inr l2" "ls = [l1, l2]"
      using assms(2,3) by (auto simp: init_pair_def Let_def bindr_Inr_iff)
    have o': "ok (fst e) (snd e) (address_of conf (fst e))" using assms(3-5) 2 by simp
    have "fst e \<noteq> snd e" "snd e \<noteq> fst e" using assms(3) by simp_all
    note Q = P(2)[OF this(1) o', of "?p + 1" "trusted_cert_path conf"]
      P(1)[OF this(2), of ?p "certificate_path conf" "private_key_path conf"]
    show ?thesis unfolding pr 2 Q l(3) by (simp add: open_listen_Inr[OF l(1)] open_connect_Inr[OF l(2)])
  next
    case 3
    then show ?thesis using assms(2,3) unfolding pr by (auto simp: init_pair_def Let_def P(3))
  qed
qed

lemma init_network_program:
  assumes "projects ok acts tr" "init_network conf = Inr ls"
    "\<And>j. j < n_total conf \<Longrightarrow> j \<noteq> nc_id conf \<Longrightarrow> ok j (nc_id conf) (address_of conf j)"
  shows "program (net_trace tr (nc_port conf) (n_total conf)) (nc_id conf) = concat (map (acts (nc_id conf)) ls)"
proof -
  have "program (concat (map (pair_trace tr (nc_port conf) (n_total conf)) ps)) (nc_id conf) =
      concat (map (acts (nc_id conf)) (drop (length acc) ls)) \<and> take (length acc) ls = acc"
    if "foldr_res (\<lambda>ls e. bindr (init_pair conf e) (\<lambda>l. Inr (ls @ l))) acc ps = Inr ls"
      "list_all (\<lambda>e. fst e < snd e \<and> snd e < n_total conf) ps" for ps acc
    using that
  proof (induction ps arbitrary: acc)
    case Nil
    then show ?case by (simp add: program_def)
  next
    case (Cons e ps)
    obtain l where l: "init_pair conf e = Inr l" "foldr_res (\<lambda>ls e. bindr (init_pair conf e)
        (\<lambda>l. Inr (ls @ l))) (acc @ l) ps = Inr ls" using Cons.prems(1) by (auto simp: bindr_Inr_iff)
    have IH: "program (concat (map (pair_trace tr (nc_port conf) (n_total conf)) ps)) (nc_id conf) =
        concat (map (acts (nc_id conf)) (drop (length (acc @ l)) ls))" "take (length (acc @ l)) ls = acc @ l"
      using Cons.IH[OF l(2)] Cons.prems(2) by simp_all
    have "ls = acc @ l @ drop (length (acc @ l)) ls" using append_take_drop_id IH(2) by (metis append_assoc)
    then have "drop (length acc) ls = l @ drop (length (acc @ l)) ls" "take (length acc) ls = acc"
      by (metis append_eq_conv_conj)+
    moreover have "program (pair_trace tr (nc_port conf) (n_total conf) e) (nc_id conf) =
        concat (map (acts (nc_id conf)) l)"
      using init_pair_program[OF assms(1) l(1) _ _ assms(3)] Cons.prems(2) by simp
    ultimately show ?case using IH(1) by (simp add: program_append)
  qed
  from this[of "[]" "pairs (n_total conf)"] show ?thesis
    using assms(2) pairs_set by (auto simp: init_network_def net_trace_def list_all_iff)
qed

lemma program_outside:
  assumes "keeps_roles f tr" "n \<le> q"
  shows "program (net_trace tr port n) q = []"
proof (rule ccontr)
  assume "program (net_trace tr port n) q \<noteq> []"
  then obtain a as where "program (net_trace tr port n) q = a # as"
    by (cases "program (net_trace tr port n) q") auto
  from program_head[OF this] have "(q, a) \<in> set (net_trace tr port n)" by auto
  from net_trace_event[OF assms(1) this] obtain ch e l c where "ends n port (fst (f ch)) e l c"
      "a = Snd ch \<and> q = (if snd (f ch) = To_Listener then c else l) \<or>
       a = Rcv ch \<and> q = (if snd (f ch) = To_Listener then l else c)"
    by (elim exE conjE)
  then have "ends n port (fst (f ch)) e l c" "q = l \<or> q = c" by (auto split: if_splits)
  then have "q < n" unfolding ends_def by (auto simp: pairs_set)
  then show False using assms(2) by simp
qed

text \<open>The endpoints agree on the port and their number, and know the addresses they need.\<close>

definition agreed :: "nat \<Rightarrow> int \<Rightarrow> (nat \<Rightarrow> network_config) \<Rightarrow> bool" where
  "agreed n port confs \<longleftrightarrow> 0 \<le> port \<and> port + 2 * int (n * n) \<le> 65535 \<and>
     (\<forall>q < n. nc_id (confs q) = q \<and> n_total (confs q) = n \<and> nc_port (confs q) = port \<and>
       (nc_localhost (confs q) \<or> n \<le> length (nc_IP (confs q))))"

text \<open>The address under which an endpoint expects another one leads to the machine that one runs on.\<close>

definition addressed :: "(nat \<Rightarrow> string) \<Rightarrow> nat \<Rightarrow> (nat \<Rightarrow> network_config) \<Rightarrow> bool" where
  "addressed machine n confs \<longleftrightarrow>
     (\<forall>q < n. \<forall>j < n. j \<noteq> q \<longrightarrow> leads_to machine q (address_of (confs q) j) = machine j)"

lemma pair_ports_ok:
  assumes "e \<in> set (pairs n)" "0 \<le> port" "port + 2 * int (n * n) \<le> 65535"
  shows "port_ok (pair_port port n e) \<and> port_ok (pair_port port n e + 1)"
proof -
  have "fst e + 1 \<le> n" "snd e < n" using assms(1) by (auto simp: pairs_set)
  then have "(fst e + 1) * n \<le> n * n" by (intro mult_le_mono1)
  then have "fst e * n + snd e < n * n" using \<open>snd e < n\<close> by simp
  then obtain k N where "int (fst e * n + snd e) = k" "int (n * n) = N" "0 \<le> k" "k + 1 \<le> N"
    by (metis of_nat_0_le_iff of_nat_Suc of_nat_le_iff Suc_leI add.commute)
  then show ?thesis using assms(2,3) unfolding port_ok_def pair_port_def by auto
qed

lemma init_pair_ok:
  assumes "e \<in> set (pairs (n_total conf))" "0 \<le> nc_port conf"
    "nc_port conf + 2 * int (n_total conf * n_total conf) \<le> 65535"
    "nc_localhost conf \<or> n_total conf \<le> length (nc_IP conf)"
  shows "\<exists>ls. init_pair conf e = Inr ls"
  using pair_ports_ok[OF assms(1-3)] assms(1,4)
  by (auto simp: init_pair_def Let_def open_connect_def open_listen_def at_res_def pairs_set)

lemma init_network_ok:
  assumes "0 \<le> nc_port conf" "nc_port conf + 2 * int (n_total conf * n_total conf) \<le> 65535"
    "nc_localhost conf \<or> n_total conf \<le> length (nc_IP conf)"
  shows "\<exists>ls. init_network conf = Inr ls"
proof -
  have "\<exists>ls. foldr_res (\<lambda>ls e. bindr (init_pair conf e) (\<lambda>l. Inr (ls @ l))) acc ps = Inr ls"
    if "set ps \<subseteq> set (pairs (n_total conf))" for ps acc
    using that
  proof (induction ps arbitrary: acc)
    case (Cons e ps)
    then obtain l where "init_pair conf e = Inr l" using init_pair_ok[of e, OF _ assms] by auto
    then show ?case using Cons by simp
  qed simp
  then show ?thesis by (simp add: init_network_def)
qed

definition all_start :: "nat \<Rightarrow> (nat \<Rightarrow> 'c act list res) \<Rightarrow> 'c config" where
  "all_start n progs = (\<lambda>q. if q < n then (case progs q of Inl e \<Rightarrow> [] | Inr as \<Rightarrow> as) else [], \<lambda>_. 0)"

lemma all_start_eq:
  assumes "agreed n port confs" "projects ok acts tr" "keeps_roles f tr"
    "\<And>q j. q < n \<Longrightarrow> j < n \<Longrightarrow> j \<noteq> q \<Longrightarrow> ok j q (address_of (confs q) j)"
  shows "\<forall>q < n. \<exists>ls. init_network (confs q) = Inr ls"
    and "all_start n (\<lambda>q. bindr (init_network (confs q)) (\<lambda>ls. Inr (concat (map (acts (nc_id (confs q))) ls)))) =
      start (net_trace tr port n)"
proof -
  show ok: "\<forall>q < n. \<exists>ls. init_network (confs q) = Inr ls"
    using assms(1) init_network_ok unfolding agreed_def by metis
  have "(if q < n then (case bindr (init_network (confs q)) (\<lambda>ls. Inr (concat (map (acts (nc_id (confs q))) ls))) of
      Inl e \<Rightarrow> [] | Inr as \<Rightarrow> as) else []) = program (net_trace tr port n) q" for q
  proof (cases "q < n")
    case True
    then obtain ls where "init_network (confs q) = Inr ls" using ok by blast
    then show ?thesis using init_network_program[OF assms(2), of "confs q" ls] assms(1,4) True
      by (simp add: agreed_def)
  next
    case False
    then show ?thesis using program_outside[OF assms(3)] by simp
  qed
  then show "all_start n (\<lambda>q. bindr (init_network (confs q)) (\<lambda>ls. Inr (concat (map (acts (nc_id (confs q))) ls)))) =
      start (net_trace tr port n)"
    by (auto simp: all_start_def start_def)
qed

lemma starts_sync:
  assumes "agreed n port confs"
  shows "\<forall>q < n. \<exists>ls. init_network (confs q) = Inr ls"
    and "all_start n (\<lambda>q. sync_program (confs q)) = start (net_trace sync_trace port n)"
  using all_start_eq[OF assms program_sync roles(2)] by (simp_all add: sync_program_def)

lemma starts_open:
  assumes "agreed n port confs" "addressed machine n confs"
  shows "all_start n (\<lambda>q. open_program machine (confs q)) = start (net_trace (open_trace machine) port n)"
  using all_start_eq(2)[OF assms(1) program_open[of machine] roles(1)[of machine]] assms(2)
  by (simp add: open_program_def addressed_def)


section \<open>Properties\<close>

text \<open>C29: Servers and clients that agree on the base port and their number, and expect each other at the
  addresses of the machines they run on, all open their connections: however their operations
  interleave, no reachable configuration is stuck, and every run ends with all of them connected.\<close>

theorem all_connect:
  assumes "agreed n port confs" "addressed machine n confs"
    "act_step\<^sup>*\<^sup>* (all_start n (\<lambda>q. open_program machine (confs q))) s"
  shows "(\<forall>q < n. \<exists>ls. init_network (confs q) = Inr ls) \<and> (all_done s \<or> (\<exists>s'. act_step s s')) \<and>
    (\<exists>N. \<forall>m s'. (act_step ^^ m) (all_start n (\<lambda>q. open_program machine (confs q))) s' \<longrightarrow>
       m \<le> N \<and> (m = N \<longrightarrow> all_done s'))"
  using starts_sync(1)[OF assms(1)] starts_open[OF assms(1,2)] connecting.no_deadlock connecting.steps_bound
    assms(3) by metis

definition local_conf :: "nat \<Rightarrow> network_config" where
  "local_conf q = \<lparr>nc_id = q, nc_parties = 3, nc_clients = 2, nc_block_size = 100000, nc_port = 10000,
     nc_IP = [], certificate_path = ''c'', private_key_path = ''k'', trusted_cert_path = ''t'',
     nc_localhost = True\<rparr>"

lemma local_agreed: "agreed 5 10000 local_conf"
  by (simp add: agreed_def local_conf_def n_total_def)

text \<open>Three servers on machines of their own, without clients.\<close>

definition lan :: "string list" where
  "lan = [''10.0.0.1'', ''10.0.0.2'', ''10.0.0.3'']"

definition lan_conf :: "nat \<Rightarrow> network_config" where
  "lan_conf q = (local_conf q)\<lparr>nc_clients := 0, nc_IP := lan, nc_localhost := False\<rparr>"

theorem all_connect_witness:
  "(all_done (all_start 5 (\<lambda>q. open_program (\<lambda>_. ''10.0.0.1'') (local_conf q))) \<or>
     (\<exists>s'. act_step (all_start 5 (\<lambda>q. open_program (\<lambda>_. ''10.0.0.1'') (local_conf q))) s')) \<and>
   (all_done (all_start 3 (\<lambda>q. open_program ((!) lan) (lan_conf q))) \<or>
     (\<exists>s'. act_step (all_start 3 (\<lambda>q. open_program ((!) lan) (lan_conf q))) s'))"
proof -
  have 1: "addressed (\<lambda>_. ''10.0.0.1'') 5 local_conf"
    by (simp add: addressed_def leads_to_def address_of_def local_conf_def)
  have 2: "agreed 3 10000 lan_conf"
    by (simp add: agreed_def lan_conf_def local_conf_def n_total_def lan_def)
  have "lan ! j \<noteq> ''127.0.0.1''" if "j < 3" for j
    using that by (auto simp: lan_def numeral_3_eq_3 less_Suc_eq)
  then have 3: "addressed ((!) lan) 3 lan_conf"
    by (simp add: addressed_def leads_to_def address_of_def lan_conf_def)
  show ?thesis
    using all_connect[OF local_agreed 1 rtranclp.rtrancl_refl] all_connect[OF 2 3 rtranclp.rtrancl_refl] by simp
qed

text \<open>C30: \<open>sync\<close> is a barrier without deadlock: in every interleaving some endpoint can go on until
  all are done, and none is done before every other endpoint has entered.\<close>

theorem sync_is_barrier:
  assumes "agreed n port confs" "act_step\<^sup>*\<^sup>* (all_start n (\<lambda>q. sync_program (confs q))) s"
  shows "(all_done s \<or> (\<exists>s'. act_step s s')) \<and>
    (p < n \<and> q < n \<and> p \<noteq> q \<and> fst s p = [] \<longrightarrow>
       Inr (fst s q) \<noteq> sync_program (confs q))"
proof (intro conjI impI, goal_cases)
  case 1
  show ?case using starts_sync(2)[OF assms(1)] syncing.no_deadlock assms(2) by metis
next
  case 2
  let ?T = "net_trace sync_trace port n"
  have st: "all_start n (\<lambda>q. sync_program (confs q)) = start ?T" using starts_sync(2)[OF assms(1)] .
  define e where "e = (min p q, max p q)"
  let ?pp = "pair_port port n e"
  have e: "e \<in> set (pairs n)" using 2 by (auto simp: e_def pairs_set min_def max_def)
  define c where "c = (if p < q then (?pp, To_Connector) else (?pp, To_Listener))"
  have l: "(snd e, fst e) = (if p < q then (q, p) else (p, q))" using 2 by (auto simp: e_def)
  have "(p, Rcv c) \<in> set (pair_trace sync_trace port n e)"
    using l by (auto simp: pair_trace_def Let_def sync_trace_def c_def split: if_splits)
  then have rc: "(p, Rcv c) \<in> set ?T" using e by (auto simp: net_trace_def)
  have sd: "r = q" if "(r, Snd c) \<in> set ?T" for r
  proof -
    note mem = that
    obtain p' w e' l' c' where ev: "ends n port p' e' l' c'" "c = (p', w)"
      "r = (if w = To_Listener then c' else l')"
      using net_trace_event[OF roles(2) mem] by (metis act.distinct(1) act.inject(1) prod.collapse)
    then have "p' = ?pp" by (simp add: c_def split: if_splits)
    with ev have "ends n port ?pp e' l' c'" "c = (?pp, w)" "r = (if w = To_Listener then c' else l')"
      by simp_all
    moreover have "ends n port ?pp e (snd e) (fst e)" using e by (simp add: ends_def)
    ultimately show ?thesis using ends_unique[of n port ?pp e' l' c' e] l
      by (auto simp: c_def split: if_splits)
  qed
  have "fst s q \<noteq> program ?T q"
    using syncing.done_heard[OF assms(2)[unfolded st] _ rc sd] 2 by blast
  moreover have "(case sync_program (confs q) of Inl e \<Rightarrow> [] | Inr as \<Rightarrow> as) = program ?T q"
    using st 2 by (simp add: all_start_def start_def fun_eq_iff) metis
  ultimately show ?case by (cases "sync_program (confs q)") auto
qed

theorem sync_is_barrier_witness:
  "\<exists>s. act_step\<^sup>*\<^sup>* (all_start 5 (\<lambda>q. sync_program (local_conf q))) s \<and> fst s 0 = [] \<and>
     Inr (fst s 4) \<noteq> sync_program (local_conf 4)"
proof -
  obtain s where "act_step\<^sup>*\<^sup>* (all_start 5 (\<lambda>q. sync_program (local_conf q))) s" "all_done s"
    using starts_sync(2)[OF local_agreed] syncing.finishes by metis
  moreover from this have "fst s 0 = []" by (simp add: all_done_def)
  moreover from calculation have "Inr (fst s 4) \<noteq> sync_program (local_conf 4)"
    using sync_is_barrier[OF local_agreed, of s 0 4] by simp
  ultimately show ?thesis by blast
qed

text \<open>C33: On separate machines the three addresses of the servers are all that is known, so with any
  client \<open>init_network\<close> of every server reads the list of addresses out of bounds.\<close>

theorem remote_clients_out_of_bounds:
  assumes "\<not> nc_localhost conf" "length (nc_IP conf) = 3" "nc_parties conf = 3" "0 < nc_clients conf"
    "nc_id conf < 3" "0 \<le> nc_port conf" "nc_port conf + 2 * int (n_total conf * n_total conf) \<le> 65535"
  shows "init_network conf = Inl Out_Of_Bounds"
proof -
  let ?f = "\<lambda>ls e. bindr (init_pair conf e) (\<lambda>l. Inr (ls @ l))"
  have ok: "init_pair conf e = Inl Out_Of_Bounds \<or> (\<exists>l. init_pair conf e = Inr l)"
    if "e \<in> set (pairs (n_total conf))" for e
    using pair_ports_ok[OF that assms(6,7)] assms(1)
    by (auto simp: init_pair_def Let_def open_connect_def open_listen_def at_res_def)
  have bad: "init_pair conf (nc_id conf, 3) = Inl Out_Of_Bounds"
    using assms by (simp add: init_pair_def open_connect_def at_res_def)
  have "foldr_res ?f acc ps = Inl Out_Of_Bounds"
    if "(nc_id conf, 3) \<in> set ps" "set ps \<subseteq> set (pairs (n_total conf))" for ps acc
    using that
  proof (induction ps arbitrary: acc)
    case (Cons e ps)
    show ?case
    proof (cases "init_pair conf e")
      case (Inl x)
      then show ?thesis using ok[of e] Cons.prems(2) by auto
    next
      case (Inr l)
      then have "(nc_id conf, 3) \<in> set ps" using Cons.prems(1) bad by auto
      then show ?thesis using Cons Inr by simp
    qed
  qed simp
  moreover have "(nc_id conf, 3) \<in> set (pairs (n_total conf))"
    using assms(3-5) by (simp add: pairs_set n_total_def)
  ultimately show ?thesis by (simp add: init_network_def)
qed

theorem remote_clients_out_of_bounds_witness:
  "init_network (local_conf 1\<lparr>nc_localhost := False, nc_IP := [''10.0.0.1'', ''10.0.0.2'', ''10.0.0.3'']\<rparr>) =
     Inl Out_Of_Bounds"
  by (rule remote_clients_out_of_bounds) (simp_all add: local_conf_def n_total_def)

end
