(* ===== verification/Server_Main.thy ===== *)
theory Server_Main
  imports Typed_Algorithms Input_Sharing Graph_IO Connections
begin

text \<open>
  \<open>src/run_server.cpp\<close> and the network set-up of \<open>src/src/setup/cmdline.cpp\<close>: the checks of the options,
  the graph a server starts from, the choice of the algorithm and the circuit that is run. The command line
  is parsed by boost; \<open>server_opts\<close> is the map of options it returns, \<open>None\<close> standing for an option without
  default that is not given. The configuration file is read by a JSON library, a parameter.
\<close>

section \<open>Options\<close>

record net_opts =
  o_help :: bool
  o_localhost :: bool
  o_net_config :: "string option"
  o_clients :: nat
  o_port :: int
  o_certificate_path :: string
  o_private_key_path :: string
  o_trusted_cert_path :: string
  o_block_size :: nat

record server_opts = net_opts +
  o_algorithm :: "nat option"
  o_weights :: "vec option"
  o_depth :: "nat option"
  o_bits :: nat
  o_pid :: "int option"
  o_ssd :: bool

text \<open>The variables \<open>main\<close> holds once all checks are done.\<close>

record server_args =
  sa_algorithm :: nat
  sa_depth :: nat
  sa_bits :: nat
  sa_pid :: party
  sa_clients :: nat
  sa_ssd :: bool
  sa_weights :: vec

definition show_int :: "int \<Rightarrow> string" where
  "show_int i = (if i < 0 then ''-'' @ show_nat (nat (- i)) else show_nat (nat i))"

definition party_of :: "int \<Rightarrow> party option" where
  "party_of i = (if i = 0 then Some P0 else if i = 1 then Some P1 else if i = 2 then Some D else None)"

definition number_of_algos :: nat where
  "number_of_algos = 6"

text \<open>\<open>if (condition) { cout << message; error = true; }\<close>.\<close>

definition complain :: "bool \<Rightarrow> string \<Rightarrow> string list" where
  "complain b msg = (if b then [msg] else [])"

definition missing_options :: "server_opts \<Rightarrow> string list" where
  "missing_options opts =
     complain (o_algorithm opts = None) ''ERROR: Expected 'algorithm'.'' @
     complain (o_depth opts = None) ''ERROR: Expected 'depth'.'' @
     complain (o_pid opts = None) ''ERROR: Expected party ID 'pid'.'' @
     complain (\<not> o_localhost opts \<and> o_net_config opts = None)
       ''ERROR: Expected one of 'localhost' or 'net-config'.''"

definition needs_weights :: "nat \<Rightarrow> bool" where
  "needs_weights alg \<longleftrightarrow> alg = 2 \<or> alg = 3"

definition bad_algorithm :: "server_opts \<Rightarrow> nat \<Rightarrow> string list" where
  "bad_algorithm opts alg =
     complain (number_of_algos \<le> alg) (''ERROR: Invalid algorithm ID 'algorithm': '' @ show_nat alg @
       ''. It needs to be at below '' @ show_nat number_of_algos @ ''.'') @
     complain (o_weights opts = None \<and> needs_weights alg)
       ''ERROR: Expected weights 'weights' for the specified algorithm.''"

definition bad_values :: "server_opts \<Rightarrow> nat \<Rightarrow> nat \<Rightarrow> int \<Rightarrow> vec \<Rightarrow> string list" where
  "bad_values opts alg depth pid weights =
     complain (needs_weights alg \<and> length weights \<noteq> depth)
       (''ERROR: Provided '' @ show_nat (length weights) @ '' weights for depth '' @ show_nat depth @
        '', but the number of weights needs to match the depth.'') @
     complain (o_bits opts = 0 \<or> 32 < o_bits opts)
       (''ERROR: Invalid number of bits 'bits': '' @ show_nat (o_bits opts) @
        ''. It needs to be at least 1 and at most 32.'') @
     complain (pid \<noteq> 0 \<and> pid \<noteq> 1 \<and> pid \<noteq> 2) (''ERROR: Invalid party ID 'pid': '' @ show_int pid) @
     complain (o_clients opts = 0)
       (''ERROR: Invalid number of clients 'clients': 0. This server is configured to run only on '' @
        ''client-provided inputs, so at least one client is required.'')"

definition usage :: string where
  "usage = ''Run './run_server --help' to display help page.''"

text \<open>
  The first part of \<open>main\<close>: it ends with an exit code and the lines it has printed, or goes on.
  \<open>help\<close> is the description of the options that boost prints.
\<close>

definition check_server_options :: "string \<Rightarrow> server_opts \<Rightarrow> (int \<times> string list) + server_args" where
  "check_server_options help opts =
     (if o_help opts then Inl (0, [help])
      else if missing_options opts \<noteq> [] then Inl (1, missing_options opts @ [usage])
      else
        let alg = the (o_algorithm opts); depth = the (o_depth opts); pid = the (o_pid opts)
        in if bad_algorithm opts alg \<noteq> [] then Inl (1, bad_algorithm opts alg @ [usage])
           else
             let weights = (if needs_weights alg then the (o_weights opts) else []);
                 errors = bad_values opts alg depth pid weights
             in if errors \<noteq> [] then Inl (1, errors @ [usage])
                else Inr \<lparr>sa_algorithm = alg, sa_depth = depth, sa_bits = o_bits opts,
                          sa_pid = the (party_of pid), sa_clients = o_clients opts, sa_ssd = o_ssd opts,
                          sa_weights = weights\<rparr>)"

section \<open>The network\<close>

text \<open>
  \<open>json path\<close> is \<open>None\<close> if the file cannot be opened, otherwise what the library makes of the read access
  to entry \<open>i\<close> as a string: the string or its exception.
\<close>

definition network_addresses ::
  "(string \<Rightarrow> (nat \<Rightarrow> string res) option) \<Rightarrow> 'a net_opts_scheme \<Rightarrow> (string list \<times> bool) res" where
  "network_addresses json opts =
     (if o_localhost opts then Inr ([], True)
      else case o_net_config opts of
        None \<Rightarrow> Inl Bad_Any_Cast
      | Some path \<Rightarrow>
          (case json path of
             None \<Rightarrow> Inl (Runtime_Error ''Could not open network config file'')
           | Some netdata \<Rightarrow>
               bindr (netdata 0) (\<lambda>a. bindr (netdata 1) (\<lambda>b. bindr (netdata 2) (\<lambda>c. Inr ([a, b, c], False))))))"

definition setup_network ::
  "(string \<Rightarrow> (nat \<Rightarrow> string res) option) \<Rightarrow> party \<Rightarrow> nat \<Rightarrow> nat \<Rightarrow> bool \<Rightarrow> 'a net_opts_scheme \<Rightarrow>
     network_config res" where
  "setup_network json pid client_id num_clients is_client opts =
     bindr (network_addresses json opts) (\<lambda>(IP, localhost).
       Inr \<lparr>nc_id = (if is_client then 3 + client_id else party_num pid), nc_parties = 3,
            nc_clients = num_clients, nc_block_size = o_block_size opts, nc_port = o_port opts, nc_IP = IP,
            certificate_path = o_certificate_path opts, private_key_path = o_private_key_path opts,
            trusted_cert_path = o_trusted_cert_path opts, nc_localhost = localhost\<rparr>)"

section \<open>The graph\<close>

text \<open>What the clients have sent to a server: node counts, and packets or, to the dealer, sizes.\<close>

record inbox =
  ib_nodes :: "nat list"
  ib_packets :: "packet list"
  ib_sizes :: "nat list"

definition server_graph :: "party \<Rightarrow> nat \<Rightarrow> inbox \<Rightarrow> net_slices \<Rightarrow> graph res" where
  "server_graph pid bits ib net =
     (if pid \<noteq> D then recv_graph bits (ib_nodes ib) (ib_packets ib) net
      else Inr (graph_empty\<lparr>nodes := recv_nodes (ib_nodes ib), gsize := recv_size (ib_sizes ib)\<rparr>))"

definition server_config :: "server_args \<Rightarrow> graph \<Rightarrow> protocol_config" where
  "server_config a g =
     \<lparr>conf_id = sa_pid a, conf_size = gsize g, conf_nodes = nodes g, conf_depth = sa_depth a,
      conf_bits = sa_bits a, conf_ssd = sa_ssd a\<rparr>"

section \<open>The circuit\<close>

text \<open>
  \<open>switch (algorithm)\<close>; \<open>None\<close> is the default case, which leaves \<open>main\<close> with \<open>-1\<close>. The last three
  arguments are what uninitialised memory holds.
\<close>

definition choose_circuit ::
  "nat \<Rightarrow> protocol_config \<Rightarrow> vec \<Rightarrow> mp_context \<Rightarrow> inputs \<Rightarrow> gate \<Rightarrow> (algo \<times> circuit) res option" where
  "choose_circuit alg conf weights x i raw =
     (if alg = 0 then Some (Inr (bfs, bfs_circuit conf x i raw))
      else if alg = 1 then Some (bindr (bfs3_circuit conf x i raw) (\<lambda>c. Inr (bfs3, c)))
      else if alg = 2 then Some (bindr (pi_m_circuit conf weights x i raw) (\<lambda>c. Inr (pi_m weights, c)))
      else if alg = 3 then Some (bindr (pi_k_circuit conf weights x i raw) (\<lambda>c. Inr (pi_k weights, c)))
      else if alg = 4 then Some (Inr (pi_r, pi_r_circuit conf x i raw))
      else if alg = 5 then Some (Inr (custom, custom_circuit conf x i raw))
      else None)"

definition server_circuit ::
  "server_args \<Rightarrow> protocol_config \<Rightarrow> mp_context \<Rightarrow> inputs \<Rightarrow> gate \<Rightarrow> circuit res option" where
  "server_circuit a conf x i raw =
     map_option (\<lambda>r. bindr r (\<lambda>(a, c). bindr (provide_outputs_in_input_order c) (build a)))
       (choose_circuit (sa_algorithm a) conf (sa_weights a) x i raw)"

section \<open>From the options to the circuit\<close>

text \<open>The slices a server has recorded when it stops receiving packets, be it at the end or at an exception.\<close>

fun recorded_slices :: "nat \<Rightarrow> nat \<Rightarrow> packet list \<Rightarrow> net_slices \<Rightarrow> net_slices" where
  "recorded_slices bits c [] net = net"
| "recorded_slices bits c (m # ms) net =
     (case bindr (recv_packet bits m) (\<lambda>pkt. record_slice c (pk_start pkt) (pk_end pkt) net) of
        Inl e \<Rightarrow> net
      | Inr net' \<Rightarrow> recorded_slices bits (c + 1) ms net')"

definition server_slices :: "party \<Rightarrow> nat \<Rightarrow> inbox \<Rightarrow> net_slices \<Rightarrow> net_slices" where
  "server_slices pid bits ib net = (if pid \<noteq> D then recorded_slices bits 0 (ib_packets ib) net else net)"

record started =
  st_args :: server_args
  st_graph :: graph
  st_conf :: protocol_config
  st_circuit :: circuit
  st_slices :: net_slices

text \<open>
  \<open>main\<close> up to the built circuit. The left result is a return with an exit code, an error inside the right
  one an exception that leaves \<open>main\<close>.
\<close>

definition server_start ::
  "string \<Rightarrow> (string \<Rightarrow> (nat \<Rightarrow> string res) option) \<Rightarrow> server_opts \<Rightarrow> inbox \<Rightarrow> mp_context \<Rightarrow> inputs \<Rightarrow> gate \<Rightarrow>
     (int \<times> string list) + started res" where
  "server_start help json opts ib x i raw =
     (case check_server_options help opts of
        Inl e \<Rightarrow> Inl e
      | Inr a \<Rightarrow>
          (let net = net_init 3 (sa_clients a) in
           case bindr (setup_network json (sa_pid a) 0 (sa_clients a) False opts) (\<lambda>nc.
                bindr (init_network nc) (\<lambda>_.
                  server_graph (sa_pid a) (sa_bits a) ib net)) of
             Inl e \<Rightarrow> Inr (Inl e)
           | Inr g \<Rightarrow>
               (case server_circuit a (server_config a g) x i raw of
                  None \<Rightarrow> Inl (-1, [])
                | Some c \<Rightarrow> Inr (bindr c (\<lambda>ci.
                    Inr \<lparr>st_args = a, st_graph = g, st_conf = server_config a g, st_circuit = ci,
                         st_slices = server_slices (sa_pid a) (sa_bits a) ib net\<rparr>)))))"

text \<open>The last loop: one message to every client.\<close>

definition results_sent :: "nat \<Rightarrow> vec \<Rightarrow> net_slices \<Rightarrow> vec list res" where
  "results_sent clients result net =
     foldr_res (\<lambda>msgs c. bindr (send_result c result net) (\<lambda>m. Inr (msgs @ [m]))) [] [0..<clients]"

section \<open>What the checks guarantee\<close>

definition args_ok :: "server_args \<Rightarrow> bool" where
  "args_ok a \<longleftrightarrow> sa_algorithm a < number_of_algos \<and> 1 \<le> sa_bits a \<and> sa_bits a \<le> 32 \<and> 0 < sa_clients a \<and>
     (needs_weights (sa_algorithm a) \<longrightarrow> length (sa_weights a) = sa_depth a)"

lemma complain_iff [simp]: "complain b msg = [] \<longleftrightarrow> \<not> b"
  by (simp add: complain_def)

lemma party_of_num [simp]: "party_of (int (party_num p)) = Some p" "party_of 0 = Some P0" "party_of 1 = Some P1"
  "party_of 2 = Some D"
  by (cases p) (simp_all add: party_of_def)

lemma checked_options:
  "check_server_options help opts = Inr a \<longleftrightarrow>
     \<not> o_help opts \<and> (o_localhost opts \<or> o_net_config opts \<noteq> None) \<and>
     o_algorithm opts = Some (sa_algorithm a) \<and> o_depth opts = Some (sa_depth a) \<and>
     o_pid opts = Some (int (party_num (sa_pid a))) \<and>
     sa_bits a = o_bits opts \<and> sa_clients a = o_clients opts \<and> sa_ssd a = o_ssd opts \<and>
     (if needs_weights (sa_algorithm a) then o_weights opts = Some (sa_weights a) else sa_weights a = []) \<and>
     args_ok a"
  (is "?l \<longleftrightarrow> ?r")
proof
  assume ?l
  then show ?r
    by (cases a)
      (auto simp: check_server_options_def missing_options_def bad_algorithm_def bad_values_def Let_def args_ok_def
        split: if_splits)
next
  assume ?r
  then show ?l
    by (cases a; cases "sa_pid a")
      (auto simp: check_server_options_def missing_options_def bad_algorithm_def bad_values_def Let_def args_ok_def
        split: if_splits)
qed

text \<open>The circuit the chosen constructor makes, with its options set.\<close>

lemma chosen_circuit:
  assumes "args_ok a" "conf_depth conf = sa_depth a" "sa_algorithm a = 1 \<longrightarrow> 3 \<le> conf_nodes conf" "0 < conf_nodes conf"
  shows "\<exists>alg c. server_circuit a conf x i raw = Some (build alg c) \<and> fresh c \<and>
     columns_fit alg (sa_weights a) c \<and> c_nodes c = conf_nodes conf \<and> c_size c = conf_size conf \<and>
     c_bits c = conf_bits conf \<and> c_depth c = conf_depth conf \<and> outputs_in_input_order c"
proof -
  let ?n = "\<lambda>cols. (new_circuit conf cols x i raw)\<lparr>outputs_in_input_order := True\<rparr>"
  have n: "fresh (new_circuit conf cols x i raw)" for cols by (rule fresh_new_circuit)
  have w: "needs_weights (sa_algorithm a) \<Longrightarrow> length (sa_weights a) = conf_depth conf"
    using assms(1,2) by (simp add: args_ok_def)
  have "sa_algorithm a < 6" using assms(1) by (simp add: args_ok_def number_of_algos_def)
  then consider "sa_algorithm a = 0" | "sa_algorithm a = 1" | "sa_algorithm a = 2" | "sa_algorithm a = 3"
    | "sa_algorithm a = 4" | "sa_algorithm a = 5" by linarith
  then show ?thesis
  proof cases
    case 1
    then show ?thesis using n[of 1]
      by (intro exI[of _ bfs] exI[of _ "?n 1"])
        (simp add: server_circuit_def choose_circuit_def bfs_circuit_def provide_outputs_in_input_order_def columns_fit_def in_bounds_def
          fresh_def new_circuit_def)
  next
    case 2
    then show ?thesis using n[of 3] assms(3)
      by (intro exI[of _ bfs3] exI[of _ "?n 3"])
        (simp add: server_circuit_def choose_circuit_def bfs3_circuit_def provide_outputs_in_input_order_def columns_fit_def in_bounds_def
          fresh_def new_circuit_def)
  next
    case 3
    let ?c = "(?n 1)\<lparr>reverse_passing := True\<rparr>"
    have "server_circuit a conf x i raw = Some (build (pi_m (sa_weights a)) ?c)"
      using 3 w by (simp add: server_circuit_def choose_circuit_def pi_m_circuit_def needs_weights_def
          provide_outputs_in_input_order_def use_reverse_message_passing_def new_circuit_def)
    moreover have "length (sa_weights a) = conf_depth conf" using 3 w by (simp add: needs_weights_def)
    ultimately show ?thesis
      by (intro exI[of _ "pi_m (sa_weights a)"] exI[of _ ?c])
        (simp add: columns_fit_def in_bounds_def fresh_def new_circuit_def)
  next
    case 4
    let ?c = "(?n 1)\<lparr>reverse_passing := True, deduplication := True\<rparr>"
    have "server_circuit a conf x i raw = Some (build (pi_k (sa_weights a)) ?c)"
      using 4 w by (simp add: server_circuit_def choose_circuit_def pi_k_circuit_def needs_weights_def
          provide_outputs_in_input_order_def use_reverse_message_passing_def use_edge_deduplication_def
          new_circuit_def)
    moreover have "length (sa_weights a) = conf_depth conf" using 4 w by (simp add: needs_weights_def)
    ultimately show ?thesis
      by (intro exI[of _ "pi_k (sa_weights a)"] exI[of _ ?c])
        (simp add: columns_fit_def in_bounds_def fresh_def new_circuit_def)
  next
    case 5
    then show ?thesis using assms(4)
      by (intro exI[of _ pi_r] exI[of _ "?n (conf_nodes conf)"])
        (simp add: server_circuit_def choose_circuit_def pi_r_circuit_def provide_outputs_in_input_order_def columns_fit_def in_bounds_def
          fresh_def new_circuit_def)
  next
    case 6
    then show ?thesis using n[of 1]
      by (intro exI[of _ custom] exI[of _ "?n 1"])
        (simp add: server_circuit_def choose_circuit_def custom_circuit_def provide_outputs_in_input_order_def columns_fit_def in_bounds_def
          fresh_def new_circuit_def)
  qed
qed

lemma recorded_all:
  assumes "\<forall>m \<in> set msgs. recv_packet bits m = Inr m"
    "c + length msgs \<le> length (start_idx net)" "c + length msgs \<le> length (end_idx net)"
  shows "length (start_idx (recorded_slices bits c msgs net)) = length (start_idx net) \<and>
     length (end_idx (recorded_slices bits c msgs net)) = length (end_idx net) \<and>
     (\<forall>j < c. start_idx (recorded_slices bits c msgs net) ! j = start_idx net ! j \<and>
        end_idx (recorded_slices bits c msgs net) ! j = end_idx net ! j) \<and>
     (\<forall>j < length msgs. start_idx (recorded_slices bits c msgs net) ! (c + j) = pk_start (msgs ! j) \<and>
        end_idx (recorded_slices bits c msgs net) ! (c + j) = pk_end (msgs ! j))"
  using assms
proof (induction msgs arbitrary: c net)
  case (Cons m ms)
  let ?net = "net\<lparr>start_idx := (start_idx net)[c := pk_start m], end_idx := (end_idx net)[c := pk_end m]\<rparr>"
  have e: "recorded_slices bits c (m # ms) net = recorded_slices bits (c + 1) ms ?net"
    using Cons.prems by (simp add: record_slice_def)
  have IH: "length (start_idx (recorded_slices bits (c + 1) ms ?net)) = length (start_idx ?net) \<and>
     length (end_idx (recorded_slices bits (c + 1) ms ?net)) = length (end_idx ?net) \<and>
     (\<forall>j < c + 1. start_idx (recorded_slices bits (c + 1) ms ?net) ! j = start_idx ?net ! j \<and>
        end_idx (recorded_slices bits (c + 1) ms ?net) ! j = end_idx ?net ! j) \<and>
     (\<forall>j < length ms. start_idx (recorded_slices bits (c + 1) ms ?net) ! (c + 1 + j) = pk_start (ms ! j) \<and>
        end_idx (recorded_slices bits (c + 1) ms ?net) ! (c + 1 + j) = pk_end (ms ! j))"
    by (rule Cons.IH) (use Cons.prems in auto)
  have at: "start_idx (recorded_slices bits (c + 1) ms ?net) ! (c + j) = pk_start ((m # ms) ! j) \<and>
        end_idx (recorded_slices bits (c + 1) ms ?net) ! (c + j) = pk_end ((m # ms) ! j)"
    if "j < length (m # ms)" for j
    using IH that Cons.prems(2,3) by (cases j) (auto simp del: recorded_slices.simps)
  show ?case unfolding e using IH at by (auto simp del: recorded_slices.simps)
qed simp

section \<open>Properties\<close>

text \<open>C39: The checks of the options decide: without \<open>help\<close> the server either prints at least one complaint and
  the hint on its usage and returns 1, or it goes on with values for which the chosen algorithm always
  builds on a graph with nodes (three for the three searches): neither the default case of the switch nor
  an exception of a constructor is reachable.\<close>

theorem options_decide:
  "case check_server_options help opts of
     Inl (code, out) \<Rightarrow> if o_help opts then code = 0 \<and> out = [help]
                       else code = 1 \<and> (\<exists>e es. out = e # es @ [usage])
   | Inr a \<Rightarrow> args_ok a \<and> (\<forall>conf. conf_depth conf = sa_depth a \<and> 0 < conf_nodes conf \<and>
         conf_nodes conf \<le> conf_size conf \<and> (sa_algorithm a = 1 \<longrightarrow> 3 \<le> conf_nodes conf) \<longrightarrow>
         (\<exists>ci. server_circuit a conf x i raw = Some (Inr ci)))"
proof (cases "check_server_options help opts")
  case (Inl r)
  have e: "\<exists>e es. xs @ [usage] = e # es @ [usage]" if "xs \<noteq> []" for xs :: "string list"
    using that by (cases xs) auto
  show ?thesis using Inl e by (cases r) (auto simp: check_server_options_def Let_def split: if_splits)
next
  case (Inr a)
  then have ok: "args_ok a" by (simp add: checked_options)
  have "\<exists>ci. server_circuit a conf x i raw = Some (Inr ci)"
    if h: "conf_depth conf = sa_depth a" "0 < conf_nodes conf" "conf_nodes conf \<le> conf_size conf"
      "sa_algorithm a = 1 \<longrightarrow> 3 \<le> conf_nodes conf" for conf
  proof -
    obtain alg c where c: "server_circuit a conf x i raw = Some (build alg c)" "fresh c"
      "columns_fit alg (sa_weights a) c" "c_nodes c = conf_nodes conf" "c_size c = conf_size conf"
      using chosen_circuit[OF ok h(1,4,2), of x i raw] by blast
    then show ?thesis using algorithm_typed[OF c(2) _ _ c(3)] h(2,3) by auto
  qed
  then show ?thesis using Inr ok by simp
qed

lemma options_decide_witness:
  "\<exists>opts a ci. check_server_options [] opts = Inr a \<and>
     server_circuit a (tiny_conf P0 False) zero_ctx zero_inputs (Gate_in Input 0 0) = Some (Inr ci)"
proof -
  let ?o = "\<lparr>o_help = False, o_localhost = True, o_net_config = None, o_clients = 2, o_port = 10000,
      o_certificate_path = [], o_private_key_path = [], o_trusted_cert_path = [], o_block_size = 2,
      o_algorithm = Some 3, o_weights = Some [7], o_depth = Some 1, o_bits = 2, o_pid = Some 0, o_ssd = False\<rparr>"
  let ?a = "\<lparr>sa_algorithm = 3, sa_depth = 1, sa_bits = 2, sa_pid = P0, sa_clients = 2, sa_ssd = False,
     sa_weights = [7]\<rparr>"
  have c: "check_server_options [] ?o = Inr ?a"
    by (simp add: checked_options needs_weights_def args_ok_def number_of_algos_def)
  have "conf_depth (tiny_conf P0 False) = sa_depth ?a \<and> 0 < conf_nodes (tiny_conf P0 False) \<and>
     conf_nodes (tiny_conf P0 False) \<le> conf_size (tiny_conf P0 False) \<and>
     (sa_algorithm ?a = 1 \<longrightarrow> 3 \<le> conf_nodes (tiny_conf P0 False))"
    by (simp add: tiny_conf_def)
  then have "\<exists>ci. server_circuit ?a (tiny_conf P0 False) zero_ctx zero_inputs (Gate_in Input 0 0) = Some (Inr ci)"
    using options_decide[of ?o "[]" zero_ctx zero_inputs "Gate_in Input 0 0"] unfolding c sum.case by blast
  then show ?thesis using c by blast
qed

end
