(* ===== verification/Session.thy ===== *)
theory Session
  imports Server_Main
begin

text \<open>
  A whole session: the clients share their slices of a graph, the three servers merge them, build the
  circuit of the chosen algorithm, run both phases of the protocol and send every client its part of the
  result.
\<close>

section \<open>The messages of the clients\<close>

type_synonym client_message = "(nat \<times> packet) \<times> (nat \<times> packet) \<times> (nat \<times> nat)"

definition inbox_of :: "client_message list \<Rightarrow> party \<Rightarrow> inbox" where
  "inbox_of ms p =
     (case p of
        P0 \<Rightarrow> \<lparr>ib_nodes = map (\<lambda>(a, b, d). fst a) ms, ib_packets = map (\<lambda>(a, b, d). snd a) ms, ib_sizes = []\<rparr>
      | P1 \<Rightarrow> \<lparr>ib_nodes = map (\<lambda>(a, b, d). fst b) ms, ib_packets = map (\<lambda>(a, b, d). snd b) ms, ib_sizes = []\<rparr>
      | D \<Rightarrow> \<lparr>ib_nodes = map (\<lambda>(a, b, d). fst d) ms, ib_packets = [], ib_sizes = map (\<lambda>(a, b, d). snd d) ms\<rparr>)"

text \<open>The graph \<open>g\<close> is cut into the slices \<open>gs\<close>, which begin at the positions \<open>starts\<close>.\<close>

definition slices_of :: "graph \<Rightarrow> nat list \<Rightarrow> graph list \<Rightarrow> bool" where
  "slices_of g starts gs \<longleftrightarrow>
     graph_wf g \<and> length starts = length gs \<and> nodes g = recv_nodes (map nodes gs) \<and>
     (\<Sum>s \<leftarrow> gs. gsize s) = gsize g \<and> fits_from (gsize g) {} (map2 (make_packet 0) starts gs) \<and>
     (\<forall>c < length gs. graph_wf (gs ! c) \<and> 0 < gsize (gs ! c) \<and> (\<forall>k < gsize (gs ! c).
        src g ! (starts ! c + k) = src (gs ! c) ! k \<and> dst g ! (starts ! c + k) = dst (gs ! c) ! k \<and>
        isV g ! (starts ! c + k) = isV (gs ! c) ! k \<and> gdata g ! (starts ! c + k) = gdata (gs ! c) ! k))"

lemma make_packet_slots:
  assumes "length starts = length gs" "length shs = length gs" "\<forall>c < length gs. gsize (shs ! c) = gsize (gs ! c)"
  shows "map pk_start (map2 (make_packet bits) starts shs) = starts"
    "map pk_end (map2 (make_packet bits) starts shs) = map2 (\<lambda>s g. s + gsize g) starts gs"
  using assms by (auto simp: make_packet_def intro!: nth_equalityI)

lemma slices_fit:
  assumes "slices_of g starts gs" "length shs = length gs" "\<forall>c < length gs. gsize (shs ! c) = gsize (gs ! c)"
  shows "total_size (map2 (make_packet bits) starts shs) = gsize g"
    "fits_from (gsize g) {} (map2 (make_packet bits) starts shs)"
proof -
  have l: "length starts = length gs" using assms(1) by (simp add: slices_of_def)
  note m = make_packet_slots[OF l assms(2,3), of bits] make_packet_slots[OF l refl, of 0, simplified]
  show "fits_from (gsize g) {} (map2 (make_packet bits) starts shs)"
    using fits_from_cong[of "map2 (make_packet bits) starts shs" "map2 (make_packet 0) starts gs"] m assms(1)
    by (simp add: slices_of_def)
  have "map (\<lambda>p. pk_end p - pk_start p) (map2 (make_packet bits) starts shs) = map gsize gs"
    using l assms(2,3) by (auto simp: make_packet_def intro!: nth_equalityI)
  then show "total_size (map2 (make_packet bits) starts shs) = gsize g"
    using assms(1) by (simp add: total_size_sum slices_of_def)
qed

lemma slices_cover:
  assumes "slices_of g starts gs" "i < gsize g"
  shows "\<exists>c k. c < length gs \<and> k < gsize (gs ! c) \<and> i = starts ! c + k"
proof -
  have l: "length starts = length gs" using assms(1) by (simp add: slices_of_def)
  have "(\<Union>p \<in> set (map2 (make_packet 0) starts gs). slots p) = {..<gsize g}"
    using fits_cover[of "map2 (make_packet 0) starts gs"] slices_fit[OF assms(1) refl, of 0] by simp
  then obtain p where p: "p \<in> set (map2 (make_packet 0) starts gs)" "i \<in> slots p" using assms(2) by blast
  then obtain c where c: "c < length gs" "p = make_packet 0 (starts ! c) (gs ! c)"
    using l by (auto simp: in_set_conv_nth)
  have "i = starts ! c + (i - starts ! c)" "i - starts ! c < gsize (gs ! c)"
    using p(2) c(2) by (auto simp: slots_def make_packet_def)
  then show ?thesis using c(1) by blast
qed

lemma slices_inside:
  assumes "slices_of g starts gs" "c < length gs"
  shows "starts ! c + gsize (gs ! c) \<le> gsize g"
proof -
  have l: "length starts = length gs" using assms(1) by (simp add: slices_of_def)
  let ?p = "make_packet 0 (starts ! c) (gs ! c)"
  have "map2 (make_packet 0) starts gs ! c \<in> set (map2 (make_packet 0) starts gs)"
    using assms(2) l by (intro nth_mem) simp
  then have "?p \<in> set (map2 (make_packet 0) starts gs)" using assms(2) l by simp
  moreover have "fits_from (gsize g) {} (map2 (make_packet 0) starts gs)" using assms(1) by (simp add: slices_of_def)
  ultimately have s: "slots ?p \<subseteq> {..<gsize g}" using fits_subset by blast
  have pos: "0 < gsize (gs ! c)" using assms by (simp add: slices_of_def)
  then have "starts ! c + (gsize (gs ! c) - 1) \<in> slots ?p" by (simp add: slots_def make_packet_def)
  then show ?thesis using s pos by auto
qed

section \<open>Merged shares\<close>

lemma recv_nodes_sum: "recv_nodes ns = sum_list ns" "recv_size ns = sum_list ns"
proof -
  have "fold (\<lambda>n tot. tot + n) ns a = a + sum_list ns" for a :: nat
    by (induction ns arbitrary: a) auto
  then show "recv_nodes ns = sum_list ns" "recv_size ns = sum_list ns"
    by (simp_all add: recv_nodes_def recv_size_def)
qed

text \<open>One client's messages, given the shares of its slice.\<close>

definition client_shares :: "nat \<Rightarrow> nat \<Rightarrow> graph \<Rightarrow> client_message \<Rightarrow> graph \<times> graph \<Rightarrow> bool" where
  "client_shares bits lo g m sh \<longleftrightarrow>
     m = ((nodes g, make_packet bits lo (fst sh)), (nodes g, make_packet bits lo (snd sh)), (nodes g, gsize g)) \<and>
     graph_shares bits g (fst sh) (snd sh)"

lemma send_graph_shares:
  assumes "graph_wf g" "send_graph P rng g bits lo = Inr m"
  shows "\<exists>sh. client_shares bits lo g m sh"
proof -
  obtain g0 g1 where g: "secret_share P rng g bits = Inr (g0, g1)" "graph_shares bits g g0 g1"
    using secret_share_shares[OF assms(1), of P rng bits] by blast
  then have "nodes g0 = nodes g" "nodes g1 = nodes g" by (simp_all add: graph_shares_def)
  then have "client_shares bits lo g m (g0, g1)"
    using g assms(2) by (simp add: send_graph_def client_shares_def)
  then show ?thesis by blast
qed

lemma choose_list:
  assumes "\<And>c. c < m \<Longrightarrow> \<exists>y. Q c y"
  shows "\<exists>ys. length ys = m \<and> (\<forall>c < m. Q c (ys ! c))"
proof -
  obtain f where "\<And>c. c < m \<Longrightarrow> Q c (f c)" using assms by metis
  then show ?thesis by (intro exI[of _ "map f [0..<m]"]) simp
qed

lemma map2_vadd_nth:
  assumes "map2 vadd us vs = ws" "length us = m" "length vs = m" "i < m"
  shows "vadd (us ! i) (vs ! i) = ws ! i"
  using assms by auto

lemma merged_entry:
  assumes "slices_of g starts gs" "length a = gsize g" "length b = gsize g" "length v = gsize g"
    "\<And>c k. c < length gs \<Longrightarrow> k < gsize (gs ! c) \<Longrightarrow> a ! (starts ! c + k) + b ! (starts ! c + k) = v ! (starts ! c + k)"
  shows "vadd a b = v"
proof (rule nth_equalityI)
  fix i assume "i < length (vadd a b)"
  then have i: "i < gsize g" using assms by simp
  then obtain c k where "c < length gs" "k < gsize (gs ! c)" "i = starts ! c + k"
    using slices_cover[OF assms(1)] by blast
  then show "vadd a b ! i = v ! i" using assms(2,3,5) i by simp
qed (use assms in simp)

text \<open>What the two online servers hold are shares of the graph and of its bits.\<close>

lemma bits_entry:
  assumes "graph_shares bits s s0 s1" "i < bits" "k < gsize s" "length (src s) = gsize s" "length (dst s) = gsize s"
  shows "src_bits s0 ! i ! k + src_bits s1 ! i ! k = to_bits (src s) bits ! i ! k"
    "dst_bits s0 ! i ! k + dst_bits s1 ! i ! k = to_bits (dst s) bits ! i ! k"
proof -
  have l: "length (src_bits s0) = bits" "length (src_bits s1) = bits" "length (dst_bits s0) = bits"
    "length (dst_bits s1) = bits"
    "\<And>u. u \<in> set (src_bits s0) \<union> set (src_bits s1) \<union> set (dst_bits s0) \<union> set (dst_bits s1) \<Longrightarrow> length u = gsize s"
    using assms(1) by (auto simp: graph_shares_def bits_wf_def)
  have m: "vadd (src_bits s0 ! i) (src_bits s1 ! i) = to_bits (src s) bits ! i"
    "vadd (dst_bits s0 ! i) (dst_bits s1 ! i) = to_bits (dst s) bits ! i"
    using assms(1,2) l(1-4) by (auto simp: graph_shares_def intro!: map2_vadd_nth)
  have "length (src_bits s0 ! i) = gsize s" "length (src_bits s1 ! i) = gsize s"
    "length (dst_bits s0 ! i) = gsize s" "length (dst_bits s1 ! i) = gsize s"
    using l assms(2) by simp_all
  then show "src_bits s0 ! i ! k + src_bits s1 ! i ! k = to_bits (src s) bits ! i ! k"
    "dst_bits s0 ! i ! k + dst_bits s1 ! i ! k = to_bits (dst s) bits ! i ! k"
    using m[symmetric] assms(3) by simp_all
qed

lemma graph_entry:
  assumes "graph_shares bits s s0 s1" "k < gsize s"
  shows "src s0 ! k + src s1 ! k = src s ! k" "dst s0 ! k + dst s1 ! k = dst s ! k"
    "isV s0 ! k + isV s1 ! k = isV s ! k" "gdata s0 ! k + gdata s1 ! k = gdata s ! k"
proof -
  have "length (src s0) = gsize s" "length (src s1) = gsize s" "length (dst s0) = gsize s" "length (dst s1) = gsize s"
    "length (isV s0) = gsize s" "length (isV s1) = gsize s" "length (gdata s0) = gsize s" "length (gdata s1) = gsize s"
    using assms(1) by (auto simp: graph_shares_def graph_wf_def)
  moreover have "vadd (src s0) (src s1) = src s" "vadd (dst s0) (dst s1) = dst s" "vadd (isV s0) (isV s1) = isV s"
    "vadd (gdata s0) (gdata s1) = gdata s"
    using assms(1) by (auto simp: graph_shares_def)
  ultimately show "src s0 ! k + src s1 ! k = src s ! k" "dst s0 ! k + dst s1 ! k = dst s ! k"
    "isV s0 ! k + isV s1 ! k = isV s ! k" "gdata s0 ! k + gdata s1 ! k = gdata s ! k"
    using assms(2) by (metis vadd_nth)+
qed

lemma merged_shares:
  assumes sl: "slices_of g starts gs" and len: "length ms = length gs" "length gs \<le> 3"
    and ms: "\<And>c. c < length gs \<Longrightarrow> send_graph P (rngs ! c) (gs ! c) bits (starts ! c) = Inr (ms ! c)"
  shows "\<exists>g0 g1. server_graph P0 bits (inbox_of ms P0) (net_init 3 (length gs)) = Inr g0 \<and>
     server_graph P1 bits (inbox_of ms P1) (net_init 3 (length gs)) = Inr g1 \<and> graph_shares bits g g0 g1 \<and>
     server_graph D bits (inbox_of ms D) (net_init 3 (length gs)) =
       Inr (graph_empty\<lparr>nodes := nodes g, gsize := gsize g\<rparr>) \<and>
     (\<forall>p. p \<noteq> D \<longrightarrow> (\<forall>m \<in> set (ib_packets (inbox_of ms p)). recv_packet bits m = Inr m) \<and>
        length (ib_packets (inbox_of ms p)) = length gs \<and>
        (\<forall>c < length gs. pk_start (ib_packets (inbox_of ms p) ! c) = starts ! c \<and>
           pk_end (ib_packets (inbox_of ms p) ! c) = starts ! c + gsize (gs ! c)))"
proof -
  let ?net = "net_init 3 (length gs)"
  have l: "length starts = length gs" and w: "\<And>c. c < length gs \<Longrightarrow> graph_wf (gs ! c) \<and> 0 < gsize (gs ! c)"
    and gw: "graph_wf g" using sl by (simp_all add: slices_of_def)
  have "\<exists>sh. client_shares bits (starts ! c) (gs ! c) (ms ! c) sh" if "c < length gs" for c
    by (rule send_graph_shares[OF conjunct1[OF w[OF that]] ms[OF that]])
  from choose_list[where m = "length gs" and Q = "\<lambda>c. client_shares bits (starts ! c) (gs ! c) (ms ! c)", OF this] obtain shs where shs: "length shs = length gs"
    "\<And>c. c < length gs \<Longrightarrow> client_shares bits (starts ! c) (gs ! c) (ms ! c) (shs ! c)" by blast
  have sz: "gsize (fst (shs ! c)) = gsize (gs ! c)" "gsize (snd (shs ! c)) = gsize (gs ! c)" if "c < length gs" for c
    using shs(2)[OF that] by (auto simp: client_shares_def graph_shares_def)
  have m: "ms ! c = ((nodes (gs ! c), make_packet bits (starts ! c) (fst (shs ! c))),
      (nodes (gs ! c), make_packet bits (starts ! c) (snd (shs ! c))), (nodes (gs ! c), gsize (gs ! c)))"
    if "c < length gs" for c
    using shs(2)[OF that] by (simp add: client_shares_def)
  have ib0: "ib_packets (inbox_of ms P0) = map2 (make_packet bits) starts (map fst shs)"
    unfolding inbox_of_def by (rule nth_equalityI) (simp_all add: l len(1) shs(1) m)
  have ib1: "ib_packets (inbox_of ms P1) = map2 (make_packet bits) starts (map snd shs)"
    unfolding inbox_of_def by (rule nth_equalityI) (simp_all add: l len(1) shs(1) m)
  have ib2: "ib_sizes (inbox_of ms D) = map gsize gs"
    unfolding inbox_of_def by (rule nth_equalityI) (simp_all add: len(1) m)
  have ib3: "ib_nodes (inbox_of ms p) = map nodes gs" for p
    unfolding inbox_of_def by (cases p; rule nth_equalityI) (simp_all add: len(1) m)
  note ib = ib0 ib1 ib3 ib2
  have net: "length (map2 (make_packet bits) starts (map f shs)) \<le> length (start_idx ?net)"
    "length (map2 (make_packet bits) starts (map f shs)) \<le> length (end_idx ?net)" for f
    using l shs(1) len(2) by (simp_all add: net_init_def)
  have recv: "\<exists>h. server_graph p bits (inbox_of ms p) ?net = Inr h \<and> nodes h = nodes g \<and>
     is_shared h \<and> graph_wf h \<and> bits_wf bits h \<and> gsize h = gsize g \<and>
     (\<forall>c < length gs. \<forall>k < gsize (gs ! c).
        src h ! (starts ! c + k) = src (f (shs ! c)) ! k \<and> dst h ! (starts ! c + k) = dst (f (shs ! c)) ! k \<and>
        isV h ! (starts ! c + k) = isV (f (shs ! c)) ! k \<and> gdata h ! (starts ! c + k) = gdata (f (shs ! c)) ! k \<and>
        (\<forall>i < bits. src_bits h ! i ! (starts ! c + k) = src_bits (f (shs ! c)) ! i ! k \<and>
                    dst_bits h ! i ! (starts ! c + k) = dst_bits (f (shs ! c)) ! i ! k))"
    if p: "p = P0 \<and> f = fst \<or> p = P1 \<and> f = snd" for p f
  proof -
    have s: "gsize (map f shs ! c) = gsize (gs ! c)" if "c < length gs" for c
      using p sz that shs(1) by auto
    note fit = slices_fit[OF sl, of "map f shs" bits]
    have fit: "total_size (map2 (make_packet bits) starts (map f shs)) = gsize g"
      "fits_from (gsize g) {} (map2 (make_packet bits) starts (map f shs))"
      using fit s shs(1) by simp_all
    have pos: "\<forall>sh \<in> set (map f shs). 0 < gsize sh"
      using s w shs(1) by (simp only: in_set_conv_nth Ball_def length_map) (metis)
    have nd: "recv_nodes (map nodes gs) = nodes g" using sl by (simp add: slices_of_def)
    have pk: "ib_packets (inbox_of ms p) = map2 (make_packet bits) starts (map f shs)" using p ib by auto
    have q1: "length (map f shs) = length starts" using l shs(1) by simp
    have q2: "fits_from (total_size (map2 (make_packet bits) starts (map f shs))) {}
        (map2 (make_packet bits) starts (map f shs))" using fit by simp
    obtain h where h: "recv_graph bits (map nodes gs) (map2 (make_packet bits) starts (map f shs)) ?net = Inr h \<and>
        nodes h = recv_nodes (map nodes gs) \<and> is_shared h \<and> graph_wf h \<and> bits_wf bits h \<and>
        gsize h = total_size (map2 (make_packet bits) starts (map f shs)) \<and>
        (\<forall>c < length (map f shs). \<forall>k < gsize (map f shs ! c).
          starts ! c + k < gsize h \<and>
          src h ! (starts ! c + k) = src (map f shs ! c) ! k \<and> dst h ! (starts ! c + k) = dst (map f shs ! c) ! k \<and>
          isV h ! (starts ! c + k) = isV (map f shs ! c) ! k \<and> gdata h ! (starts ! c + k) = gdata (map f shs ! c) ! k \<and>
          (\<forall>i < bits. src_bits h ! i ! (starts ! c + k) = src_bits (map f shs ! c) ! i ! k \<and>
                      dst_bits h ! i ! (starts ! c + k) = dst_bits (map f shs ! c) ! i ! k))"
      by (rule exE[OF recv_graph_shares[OF q1 refl net q2 pos]])
    have "server_graph p bits (inbox_of ms p) ?net = Inr h"
      using h p pk by (auto simp: server_graph_def ib(3))
    then show ?thesis using h s shs(1) fit(1) nd by (intro exI[of _ h]) simp
  qed
  obtain g0 where g0: "server_graph P0 bits (inbox_of ms P0) ?net = Inr g0" "nodes g0 = nodes g" "is_shared g0"
    "graph_wf g0" "bits_wf bits g0" "gsize g0 = gsize g"
    "\<And>c k. c < length gs \<Longrightarrow> k < gsize (gs ! c) \<Longrightarrow>
        src g0 ! (starts ! c + k) = src (fst (shs ! c)) ! k \<and> dst g0 ! (starts ! c + k) = dst (fst (shs ! c)) ! k \<and>
        isV g0 ! (starts ! c + k) = isV (fst (shs ! c)) ! k \<and> gdata g0 ! (starts ! c + k) = gdata (fst (shs ! c)) ! k \<and>
        (\<forall>i < bits. src_bits g0 ! i ! (starts ! c + k) = src_bits (fst (shs ! c)) ! i ! k \<and>
                    dst_bits g0 ! i ! (starts ! c + k) = dst_bits (fst (shs ! c)) ! i ! k)"
    using recv[of P0 fst] by blast
  obtain g1 where g1: "server_graph P1 bits (inbox_of ms P1) ?net = Inr g1" "nodes g1 = nodes g" "is_shared g1"
    "graph_wf g1" "bits_wf bits g1" "gsize g1 = gsize g"
    "\<And>c k. c < length gs \<Longrightarrow> k < gsize (gs ! c) \<Longrightarrow>
        src g1 ! (starts ! c + k) = src (snd (shs ! c)) ! k \<and> dst g1 ! (starts ! c + k) = dst (snd (shs ! c)) ! k \<and>
        isV g1 ! (starts ! c + k) = isV (snd (shs ! c)) ! k \<and> gdata g1 ! (starts ! c + k) = gdata (snd (shs ! c)) ! k \<and>
        (\<forall>i < bits. src_bits g1 ! i ! (starts ! c + k) = src_bits (snd (shs ! c)) ! i ! k \<and>
                    dst_bits g1 ! i ! (starts ! c + k) = dst_bits (snd (shs ! c)) ! i ! k)"
    using recv[of P1 snd] by blast
  have L: "length (src h) = gsize h \<and> length (dst h) = gsize h \<and> length (isV h) = gsize h \<and> length (gdata h) = gsize h"
    if "graph_wf h" for h using that by (simp add: graph_wf_def)
  have B: "length (src_bits h) = bits" "length (dst_bits h) = bits"
    "\<And>i. i < bits \<Longrightarrow> length (src_bits h ! i) = gsize h" "\<And>i. i < bits \<Longrightarrow> length (dst_bits h ! i) = gsize h"
    if "bits_wf bits h" for h using that by (auto simp: bits_wf_def)
  have gsh: "graph_shares bits (gs ! c) (fst (shs ! c)) (snd (shs ! c))" if "c < length gs" for c
    using shs(2)[OF that] by (simp add: client_shares_def)
  have plain: "src g ! (starts ! c + k) = src (gs ! c) ! k" "dst g ! (starts ! c + k) = dst (gs ! c) ! k"
    "isV g ! (starts ! c + k) = isV (gs ! c) ! k" "gdata g ! (starts ! c + k) = gdata (gs ! c) ! k"
    if "c < length gs" "k < gsize (gs ! c)" for c k
    using sl that by (simp_all add: slices_of_def)
  note merge = merged_entry[OF sl]
  have sums: "vadd (src g0) (src g1) = src g" "vadd (dst g0) (dst g1) = dst g" "vadd (isV g0) (isV g1) = isV g"
    "vadd (gdata g0) (gdata g1) = gdata g"
    using L[OF gw] L[OF g0(4)] L[OF g1(4)] g0(6) g1(6) g0(7) g1(7) plain graph_entry[OF gsh]
    by (intro merge; simp)+
  have bsums: "vadd (src_bits g0 ! i) (src_bits g1 ! i) = to_bits (src g) bits ! i"
    "vadd (dst_bits g0 ! i) (dst_bits g1 ! i) = to_bits (dst g) bits ! i" if i: "i < bits" for i
  proof -
    have e: "to_bits (src g) bits ! i ! (starts ! c + k) = to_bits (src (gs ! c)) bits ! i ! k"
      "to_bits (dst g) bits ! i ! (starts ! c + k) = to_bits (dst (gs ! c)) bits ! i ! k"
      if "c < length gs" "k < gsize (gs ! c)" for c k
    proof -
      have "starts ! c + k < gsize g" using slices_inside[OF sl that(1)] that(2) by simp
      then show "to_bits (src g) bits ! i ! (starts ! c + k) = to_bits (src (gs ! c)) bits ! i ! k"
        "to_bits (dst g) bits ! i ! (starts ! c + k) = to_bits (dst (gs ! c)) bits ! i ! k"
        using i L[OF gw] L[of "gs ! c"] w[OF that(1)] that(2) plain[OF that] by (simp_all add: to_bits_nth)
    qed
    have tl: "length (to_bits (src g) bits ! i) = gsize g" "length (to_bits (dst g) bits ! i) = gsize g"
      using i L[OF gw] by (simp_all add: to_bits_def)
    have be: "src_bits (fst (shs ! c)) ! i ! k + src_bits (snd (shs ! c)) ! i ! k = to_bits (src (gs ! c)) bits ! i ! k"
      "dst_bits (fst (shs ! c)) ! i ! k + dst_bits (snd (shs ! c)) ! i ! k = to_bits (dst (gs ! c)) bits ! i ! k"
      if "c < length gs" "k < gsize (gs ! c)" for c k
      using bits_entry[OF gsh[OF that(1)] i that(2)] L[of "gs ! c"] w[OF that(1)] by simp_all
    show "vadd (src_bits g0 ! i) (src_bits g1 ! i) = to_bits (src g) bits ! i"
      using B(3)[OF g0(5) i] B(3)[OF g1(5) i] g0(6,7) g1(6,7) tl e be i by (intro merge) simp_all
    show "vadd (dst_bits g0 ! i) (dst_bits g1 ! i) = to_bits (dst g) bits ! i"
      using B(4)[OF g0(5) i] B(4)[OF g1(5) i] g0(6,7) g1(6,7) tl e be i by (intro merge) simp_all
  qed
  have "map2 vadd (src_bits g0) (src_bits g1) = to_bits (src g) bits"
    "map2 vadd (dst_bits g0) (dst_bits g1) = to_bits (dst g) bits"
    using B[OF g0(5)] B[OF g1(5)] bsums by (auto intro!: nth_equalityI)
  then have "graph_shares bits g g0 g1"
    using g0(2-6) g1(2-6) sums by (simp add: graph_shares_def)
  moreover have "server_graph D bits (inbox_of ms D) ?net = Inr (graph_empty\<lparr>nodes := nodes g, gsize := gsize g\<rparr>)"
    using sl by (simp add: server_graph_def ib(3,4) recv_nodes_sum slices_of_def)
  moreover have "(\<forall>m \<in> set (ib_packets (inbox_of ms p)). recv_packet bits m = Inr m) \<and>
        length (ib_packets (inbox_of ms p)) = length gs \<and>
        (\<forall>c < length gs. pk_start (ib_packets (inbox_of ms p) ! c) = starts ! c \<and>
           pk_end (ib_packets (inbox_of ms p) ! c) = starts ! c + gsize (gs ! c))" if pD: "p \<noteq> D" for p
  proof -
    have "\<exists>f :: graph \<times> graph \<Rightarrow> graph. p = P0 \<and> f = fst \<or> p = P1 \<and> f = snd" using pD by (cases p) simp_all
    then obtain f :: "graph \<times> graph \<Rightarrow> graph" where f: "p = P0 \<and> f = fst \<or> p = P1 \<and> f = snd" by blast
    then have "ib_packets (inbox_of ms p) = map2 (make_packet bits) starts (map f shs)" using ib by auto
    then show ?thesis using f l shs(1) sz recv_packet_make by (auto simp: set_zip make_packet_def)
  qed
  ultimately show ?thesis using g0(1) g1(1) by blast
qed

section \<open>The inputs of the circuit\<close>

text \<open>The graph with the decomposition of its ends, as the servers hold it.\<close>

definition with_bits :: "nat \<Rightarrow> graph \<Rightarrow> graph" where
  "with_bits bits g = g\<lparr>src_bits := to_bits (src g) bits, dst_bits := to_bits (dst g) bits\<rparr>"

lemma input_vectors_length:
  assumes "length (src_bits g) = bits" "length (dst_bits g) = bits"
  shows "length (input_vectors g cols) = input_count bits cols"
  using assms by (simp add: input_vectors_def input_count_def)

lemma vadd_input_vectors:
  assumes "graph_shares bits g g0 g1"
  shows "map2 vadd (input_vectors g0 cols) (input_vectors g1 cols) = input_vectors (with_bits bits g) cols"
proof -
  have "length (src_bits g0) = length (src_bits g1)" "length (dst_bits g0) = length (dst_bits g1)"
    using assms by (auto simp: graph_shares_def bits_wf_def)
  then show ?thesis
    using assms by (simp add: input_vectors_def graph_shares_def with_bits_def zip_replicate)
qed

lemma input_vectors_sizes:
  "graph_wf h \<Longrightarrow> bits_wf bits h \<Longrightarrow> v \<in> set (input_vectors h cols) \<Longrightarrow> length v = gsize h"
  by (auto simp: input_vectors_def graph_wf_def bits_wf_def split: if_splits)

lemma session_inputs:
  assumes "graph_shares bits g g0 g1" "columns ci = cols" "inputs_within (input_count bits cols) fs"
    "shares P0 = g0" "shares P1 = g1"
  shows "input_shares fs (\<lambda>p. input_at ci (shares p)) (input_at ci (with_bits bits g))"
  unfolding input_shares_def
proof (intro ballI impI)
  fix f assume f: "f \<in> set fs" "gt f = Input"
  let ?w = "out_idx f" and ?v = "\<lambda>h. input_vectors h cols"
  have wf: "graph_wf g0" "graph_wf g1" "bits_wf bits g0" "bits_wf bits g1" "gsize g0 = gsize g" "gsize g1 = gsize g"
    using assms(1) by (simp_all add: graph_shares_def)
  have l: "length (?v g0) = input_count bits cols" "length (?v g1) = input_count bits cols"
    "length (?v (with_bits bits g)) = input_count bits cols"
    using wf by (auto simp: bits_wf_def with_bits_def intro!: input_vectors_length)
  have w: "?w < input_count bits cols" using assms(3) f by (simp add: inputs_within_def)
  have "?v (with_bits bits g) ! ?w = vadd (?v g0 ! ?w) (?v g1 ! ?w)"
    unfolding vadd_input_vectors[OF assms(1), symmetric] using w l by simp
  moreover have "length (?v g0 ! ?w) = gsize g" "length (?v g1 ! ?w) = gsize g"
    using input_vectors_sizes[OF wf(1,3), of "?v g0 ! ?w" cols] input_vectors_sizes[OF wf(2,4), of "?v g1 ! ?w" cols] w l wf(5,6) by simp_all
  ultimately show "rel_wire Arith (input_at ci (shares P0) ?w) (input_at ci (shares P1) ?w)
      (input_at ci (with_bits bits g) ?w)"
    using w l assms(2,4,5) by (simp add: rel_wire_def input_at_def)
qed

lemma bit_inputs:
  assumes "bit_input bits w" "x \<in> set (input_vectors (with_bits bits g) cols ! w)" "\<forall>x \<in> set (isV g). x = 0 \<or> x = 1"
  shows "x = 0 \<or> x = 1"
proof -
  have b: "y = 0 \<or> y = 1" if "i < bits" "y \<in> set (to_bits u bits ! i)" for i u y
    using that by (auto simp: to_bits_def bit_of_eq)
  have "w < bits \<or> bits \<le> w \<and> w < 2 * bits \<or> w = 2 * bits + 2" using assms(1) by (auto simp: bit_input_def)
  then show ?thesis
  proof (elim disjE)
    assume "w < bits"
    then show ?thesis using assms(2) b by (auto simp: input_vectors_def with_bits_def nth_append)
  next
    assume w: "bits \<le> w \<and> w < 2 * bits"
    then have "w - bits < bits" by linarith
    then show ?thesis using assms(2) w b[of "w - bits"]
      by (auto simp: input_vectors_def with_bits_def nth_append)
  next
    assume "w = 2 * bits + 2"
    then show ?thesis using assms(2,3) by (auto simp: input_vectors_def with_bits_def nth_append)
  qed
qed

lemma session_inputs_typed:
  assumes "graph_wf g" "columns ci = cols" "inputs_within (input_count bits cols) fs" "\<forall>x \<in> set (isV g). x = 0 \<or> x = 1"
  shows "inputs_typed bits (gsize g) fs (input_at ci (with_bits bits g))"
  unfolding inputs_typed_def
proof (intro ballI impI)
  fix f assume f: "f \<in> set fs" "gt f = Input"
  let ?v = "input_vectors (with_bits bits g) cols" and ?w = "out_idx f"
  have wf: "graph_wf (with_bits bits g)" "bits_wf bits (with_bits bits g)"
    using assms(1) to_bits_lengths by (fastforce simp: graph_wf_def bits_wf_def with_bits_def)+
  then have l: "length ?v = input_count bits cols" by (auto simp: bits_wf_def intro!: input_vectors_length)
  have w: "?w < input_count bits cols" using assms(3) f by (simp add: inputs_within_def)
  then have i: "input_at ci (with_bits bits g) ?w = ?v ! ?w" using l assms(2) by (simp add: input_at_def)
  have "length (?v ! ?w) = gsize g" using input_vectors_sizes[OF wf, of "?v ! ?w" cols] w l by (simp add: with_bits_def)
  then show "length (input_at ci (with_bits bits g) ?w) = gsize g \<and> (bit_input bits ?w \<longrightarrow>
      (\<forall>x \<in> set (input_at ci (with_bits bits g) ?w). x = 0 \<or> x = 1))"
    unfolding i using bit_inputs[OF _ _ assms(4)] by blast
qed

section \<open>The servers agree\<close>

definition same_run :: "server_args \<Rightarrow> server_args \<Rightarrow> bool" where
  "same_run a b \<longleftrightarrow> sa_algorithm a = sa_algorithm b \<and> sa_depth a = sa_depth b \<and> sa_bits a = sa_bits b \<and>
     sa_clients a = sa_clients b \<and> sa_weights a = sa_weights b"

lemma server_circuit_cong:
  assumes "same_run a b" "conf_size c = conf_size d" "conf_nodes c = conf_nodes d" "conf_depth c = conf_depth d"
    "conf_bits c = conf_bits d"
  shows "server_circuit a c x i raw = server_circuit b d x i raw"
proof -
  have n: "new_circuit c cols x i raw = new_circuit d cols x i raw" for cols
    using assms(2-) by (simp add: new_circuit_def)
  show ?thesis
    using assms(1,3,4) by (simp add: server_circuit_def choose_circuit_def same_run_def bfs_circuit_def
        bfs3_circuit_def pi_m_circuit_def pi_k_circuit_def pi_r_circuit_def custom_circuit_def n)
qed

lemma parsed_slices:
  assumes "slices_of g starts gs" "\<forall>s \<in> set gs. parsed s"
  shows "\<forall>x \<in> set (isV g). x = 0 \<or> x = 1" "nodes g \<le> gsize g"
proof -
  show "\<forall>x \<in> set (isV g). x = 0 \<or> x = 1"
  proof
    fix x assume "x \<in> set (isV g)"
    then obtain i where i: "i < gsize g" "isV g ! i = x"
      using assms(1) by (auto simp: in_set_conv_nth slices_of_def graph_wf_def)
    then obtain c k where c: "c < length gs" "k < gsize (gs ! c)" "i = starts ! c + k"
      using slices_cover[OF assms(1) i(1)] by blast
    then have "x = isV (gs ! c) ! k" using i(2) assms(1) by (simp add: slices_of_def)
    moreover have "isV (gs ! c) ! k \<in> {0, 1}" using assms(2) c(1,2) by (simp add: parsed_def)
    ultimately show "x = 0 \<or> x = 1" by simp
  qed
  have "nodes s \<le> gsize s" if "s \<in> set gs" for s
    using assms(2) that length_filter_le[of "\<lambda>v. v \<noteq> 0" "isV s"]
    by (auto simp: parsed_def plain_wf_def graph_wf_def count_nodes_def)
  then have "(\<Sum>s \<leftarrow> gs. nodes s) \<le> (\<Sum>s \<leftarrow> gs. gsize s)" by (rule sum_list_mono)
  then show "nodes g \<le> gsize g" using assms(1) by (simp add: slices_of_def recv_nodes_sum)
qed

section \<open>Results\<close>

lemma send_all:
  assumes "\<And>c. c < m \<Longrightarrow> send_result c v net = Inr (f c)"
  shows "results_sent m v net = Inr (map f [0..<m])"
proof -
  have "n \<le> m \<Longrightarrow> foldr_res (\<lambda>msgs c. bindr (send_result c v net) (\<lambda>m. Inr (msgs @ [m]))) [] [0..<n] = Inr (map f [0..<n])" for n
    by (induction n) (simp_all add: foldr_res_append assms)
  then show ?thesis by (simp add: results_sent_def)
qed

lemma slice_result:
  assumes "\<forall>m \<in> set pkts. recv_packet bits m = Inr m" "length pkts = m" "m \<le> 3" "c < m"
    "pk_start (pkts ! c) = lo" "pk_end (pkts ! c) = lo + sz" "lo + sz \<le> length v"
  shows "send_result c v (recorded_slices bits 0 pkts (net_init 3 m)) = Inr (take sz (drop lo v))"
proof -
  let ?s = "recorded_slices bits 0 pkts (net_init 3 m)"
  have "length (start_idx ?s) = m" "length (end_idx ?s) = 3" "start_idx ?s ! c = lo" "end_idx ?s ! c = lo + sz"
    using recorded_all[OF assms(1), of 0 "net_init 3 m"] assms(2-6) by (auto simp: net_init_def)
  then show ?thesis using assms(3,4,7) by (simp add: send_result_def)
qed

lemma recv_result_slices:
  assumes "length u = length v" "lo + sz \<le> length u"
  shows "recv_result sz (take sz (drop lo u)) (take sz (drop lo v)) = take sz (drop lo (vadd u v))"
  using assms by (auto simp: recv_result_def intro!: nth_equalityI)

section \<open>The whole session\<close>

text \<open>What is fixed when the servers are started: their options agree, and their network can be set up.\<close>

definition servers_ready ::
  "string \<Rightarrow> (string \<Rightarrow> (nat \<Rightarrow> string res) option) \<Rightarrow> (party \<Rightarrow> server_opts) \<Rightarrow> server_args \<Rightarrow> bool" where
  "servers_ready help json opts a \<longleftrightarrow>
     (\<forall>p. \<exists>b nc links. check_server_options help (opts p) = Inr b \<and> sa_pid b = p \<and> same_run b a \<and>
        setup_network json p 0 (sa_clients b) False (opts p) = Inr nc \<and> init_network nc = Inr links)"

lemma session_starts:
  assumes "slices_of g starts gs" "\<forall>s \<in> set gs. parsed s" "0 < nodes g" "length gs \<le> 3" "length ms = length gs"
    "\<forall>c < length gs. send_graph Pc (rngs ! c) (gs ! c) (sa_bits a) (starts ! c) = Inr (ms ! c)"
    "servers_ready help json opts a" "sa_clients a = length gs" "sa_algorithm a = 1 \<longrightarrow> 3 \<le> nodes g"
  shows "\<exists>ci cs st g0 g1. (\<forall>p. server_start help json (opts p) (inbox_of ms p) x i raw = Inr (Inr (st p)) \<and>
        st_circuit (st p) = ci \<and> conf_nodes (st_conf (st p)) = nodes g) \<and>
     same_confs (\<lambda>p. st_conf (st p)) (gsize g) \<and>
     built_from cs ci \<and> sound (sa_bits a) (gsize g) (nodes g) cs \<and>
     inputs_within (input_count (sa_bits a) (columns ci)) cs \<and> (\<exists>f \<in> set cs. gt f = Output) \<and>
     graph_shares (sa_bits a) g g0 g1 \<and> st_graph (st P0) = g0 \<and> st_graph (st P1) = g1 \<and>
     (\<forall>p v c. p \<noteq> D \<and> gsize g \<le> length v \<and> c < length gs \<longrightarrow>
        send_result c v (st_slices (st p)) = Inr (take (gsize (gs ! c)) (drop (starts ! c) v)))"
proof -
  have "\<forall>p. \<exists>b. \<exists>nc links. check_server_options help (opts p) = Inr b \<and> sa_pid b = p \<and> same_run b a \<and>
        setup_network json p 0 (sa_clients b) False (opts p) = Inr nc \<and> init_network nc = Inr links"
    using assms(7) unfolding servers_ready_def by blast
  then obtain ar where ar: "\<And>p. \<exists>nc links. check_server_options help (opts p) = Inr (ar p) \<and> sa_pid (ar p) = p \<and>
      same_run (ar p) a \<and> setup_network json p 0 (sa_clients (ar p)) False (opts p) = Inr nc \<and> init_network nc = Inr links"
    by (elim choice[THEN exE]) blast
  obtain g0 g1 where gr: "server_graph P0 (sa_bits a) (inbox_of ms P0) (net_init 3 (length gs)) = Inr g0"
     "server_graph P1 (sa_bits a) (inbox_of ms P1) (net_init 3 (length gs)) = Inr g1" "graph_shares (sa_bits a) g g0 g1"
     "server_graph D (sa_bits a) (inbox_of ms D) (net_init 3 (length gs)) =
       Inr (graph_empty\<lparr>nodes := nodes g, gsize := gsize g\<rparr>)"
    and pk: "\<And>p. p \<noteq> D \<Longrightarrow> (\<forall>m \<in> set (ib_packets (inbox_of ms p)). recv_packet (sa_bits a) m = Inr m) \<and>
        length (ib_packets (inbox_of ms p)) = length gs \<and>
        (\<forall>c < length gs. pk_start (ib_packets (inbox_of ms p) ! c) = starts ! c \<and>
           pk_end (ib_packets (inbox_of ms p) ! c) = starts ! c + gsize (gs ! c))"
    using merged_shares[OF assms(1,5,4) assms(6)[rule_format]] by blast
  define gr where "gr p = (case p of P0 \<Rightarrow> g0 | P1 \<Rightarrow> g1 | D \<Rightarrow> graph_empty\<lparr>nodes := nodes g, gsize := gsize g\<rparr>)" for p
  have G: "server_graph p (sa_bits a) (inbox_of ms p) (net_init 3 (length gs)) = Inr (gr p)"
    "nodes (gr p) = nodes g" "gsize (gr p) = gsize g" for p
    using gr by (cases p; simp add: gr_def graph_shares_def)+
  let ?c = "\<lambda>p. server_config (ar p) (gr p)"
  have ok: "args_ok (ar P0)" "same_run (ar p) a" "sa_bits (ar p) = sa_bits a" "sa_clients (ar p) = length gs" for p
    using ar[of P0] ar[of p] assms(8) checked_options[of "help" "opts P0" "ar P0"] by (auto simp: same_run_def)
  obtain alg c0 where c: "server_circuit (ar P0) (?c P0) x i raw = Some (build alg c0)" "fresh c0"
      "columns_fit alg (sa_weights (ar P0)) c0" "c_nodes c0 = nodes g" "c_size c0 = gsize g" "c_bits c0 = sa_bits a"
    using chosen_circuit[OF ok(1), of "?c P0" x i raw] assms(3,9) ok(2,3)[of P0] G
    by (auto simp: server_config_def same_run_def)
  have cong: "server_circuit (ar p) (?c p) x i raw = Some (build alg c0)" for p
    unfolding c(1)[symmetric] using ok(2)[of p] ok(2)[of P0] G
    by (intro server_circuit_cong) (auto simp: same_run_def server_config_def)
  obtain cs ci where b: "build alg c0 = Inr ci" "built_from cs ci" "columns ci = columns c0"
      "sound (sa_bits a) (gsize g) (nodes g) cs" "inputs_within (input_count (sa_bits a) (columns ci)) cs"
      "\<exists>f \<in> set cs. gt f = Output"
    using algorithm_typed[OF c(2) _ _ c(3)] c(4-6) assms(3) parsed_slices(2)[OF assms(1,2)] by auto
  define st where "st p = \<lparr>st_args = ar p, st_graph = gr p, st_conf = ?c p, st_circuit = ci,
      st_slices = server_slices p (sa_bits a) (inbox_of ms p) (net_init 3 (length gs))\<rparr>" for p
  have s: "server_start help json (opts p) (inbox_of ms p) x i raw = Inr (Inr (st p))" for p
  proof -
    obtain nc links where "check_server_options help (opts p) = Inr (ar p)" "sa_pid (ar p) = p"
      "setup_network json p 0 (length gs) False (opts p) = Inr nc" "init_network nc = Inr links"
      using ar[of p] ok(4)[of p] by auto
    then show ?thesis using ok(3,4)[of p] G(1)[of p] cong[of p] b(1) by (simp add: server_start_def Let_def st_def)
  qed
  have "same_confs (\<lambda>p. st_conf (st p)) (gsize g)"
    using ar G by (auto simp: same_confs_def st_def server_config_def)
  moreover have "send_result c v (st_slices (st p)) = Inr (take (gsize (gs ! c)) (drop (starts ! c) v))"
    if v: "p \<noteq> D" "gsize g \<le> length v" "c < length gs" for p v c
  proof -
    have "starts ! c + gsize (gs ! c) \<le> length v" using slices_inside[OF assms(1) v(3)] v(2) by simp
    then show ?thesis
      using slice_result[of "ib_packets (inbox_of ms p)" "sa_bits a" "length gs" c] pk[OF v(1)] assms(4) v(1,3)
      by (simp add: st_def server_slices_def)
  qed
  ultimately show ?thesis
    using s b(2,4-6) gr(3) G(2)
    by (intro exI[of _ ci] exI[of _ cs] exI[of _ st] exI[of _ g0] exI[of _ g1]) (auto simp: st_def server_config_def gr_def)
qed

section \<open>Properties\<close>

text \<open>C3: A session computes the chosen algorithm on the clients' graph. Take up to three clients whose files
  are cut from one graph with at least one node (three for the three searches), and three servers with
  accepted and matching options. Then every server merges the packets and builds the same circuit, both
  phases of the protocol run through without error, and what a client adds up from the answers of the two
  online servers is its slice of the evaluation of that circuit on the plain graph, under permutations
  that are merged as the circuit says.\<close>

theorem session_correct:
  assumes "slices_of g starts gs" "\<forall>s \<in> set gs. parsed s" "0 < nodes g" "gsize g < 2 ^ 31" "length gs \<le> 3"
    "length ms = length gs" "\<forall>c < length gs. send_graph Pc (rngs ! c) (gs ! c) (sa_bits a) (starts ! c) = Inr (ms ! c)"
    "servers_ready help json opts a" "sa_clients a = length gs" "sa_algorithm a = 1 \<longrightarrow> 3 \<le> nodes g"
    "0 < b" "fresh_flags rD" "fresh_flags r0" "fresh_flags r1"
  shows "\<exists>ci st \<Pi> out ev0 ev1.
     (\<forall>p. server_start help json (opts p) (inbox_of ms p) x i raw = Inr (Inr (st p)) \<and> st_circuit (st p) = ci) \<and>
     perms_typed (gsize g) (concat (circ ci)) \<Pi> \<and> merged_ok \<Pi> (concat (circ ci)) \<and>
     plain_eval (gsize g) (nodes g) \<Pi> (input_at ci (with_bits (sa_bits a) g)) (concat (circ ci)) = Inr out \<and>
     run_servers P b ci (\<lambda>p. st_conf (st p)) (rD, r0, r1) (\<lambda>p. st_graph (st p)) = Inr ((ev0, []), (ev1, [])) \<and>
     (\<exists>m0 m1. results_sent (length gs) (ev_output ev0) (st_slices (st P0)) = Inr m0 \<and>
        results_sent (length gs) (ev_output ev1) (st_slices (st P1)) = Inr m1 \<and>
        (\<forall>c < length gs. recv_result (gsize (gs ! c)) (m0 ! c) (m1 ! c) =
           take (gsize (gs ! c)) (drop (starts ! c) out)))"
proof -
  obtain ci cs st g0 g1 where st: "\<And>p. server_start help json (opts p) (inbox_of ms p) x i raw = Inr (Inr (st p))"
      "\<And>p. st_circuit (st p) = ci" "\<And>p. conf_nodes (st_conf (st p)) = nodes g"
      "same_confs (\<lambda>p. st_conf (st p)) (gsize g)"
    and cs: "built_from cs ci" "sound (sa_bits a) (gsize g) (nodes g) cs"
      "inputs_within (input_count (sa_bits a) (columns ci)) cs" "\<exists>f \<in> set cs. gt f = Output"
    and sh: "graph_shares (sa_bits a) g g0 g1" "st_graph (st P0) = g0" "st_graph (st P1) = g1"
    and send: "\<And>p v c. p \<noteq> D \<Longrightarrow> gsize g \<le> length v \<Longrightarrow> c < length gs \<Longrightarrow>
        send_result c v (st_slices (st p)) = Inr (take (gsize (gs ! c)) (drop (starts ! c) v))"
    using session_starts[OF assms(1,2,3,5,6,7,8,9,10), of x i raw] by blast
  let ?ls = "concat (circ ci)" and ?ins = "input_at ci (with_bits (sa_bits a) g)" and ?n = "gsize g"
  have same: "set ?ls = set cs" by (rule set_layers[OF cs(1)])
  then have wi: "inputs_within (input_count (sa_bits a) (columns ci)) ?ls" using cs(3) by (simp add: inputs_within_def)
  have g: "graph_wf g" "0 < ?n" "nodes g \<le> ?n" "\<forall>x \<in> set (isV g). x = 0 \<or> x = 1"
    using assms(1,3) parsed_slices[OF assms(1,2)] by (auto simp: slices_of_def)
  have nd: "\<forall>p. conf_nodes (st_conf (st p)) = nodes g" using st(3) by simp
  note SC = servers_compute[OF st(4) nd g(2) assms(4,11) sound_built(2)[OF cs(2,1)] sound_built(1)[OF cs(2,1)]
    sound_built(3)[OF cs(2,1)] session_inputs[where shares = "\<lambda>p. st_graph (st p)", OF sh(1) refl wi sh(2,3)]
    assms(12-14), where P = P]
  obtain \<Pi> where \<Pi>: "\<forall>f \<in> set ?ls. picks f \<longrightarrow> perm_ok ?n (\<Pi> (g_shuffle_idx f))" "merged_ok \<Pi> ?ls"
    and run: "\<And>out. plain_eval ?n (nodes g) \<Pi> ?ins ?ls = Inr out \<Longrightarrow>
       \<exists>ev0 ev1. run_servers P b ci (\<lambda>p. st_conf (st p)) (rD, r0, r1) (\<lambda>p. st_graph (st p)) = Inr ((ev0, []), (ev1, [])) \<and>
          length (ev_output ev0) = length (ev_output ev1) \<and> vadd (ev_output ev0) (ev_output ev1) = out"
    using SC by blast
  have fits: "gsize g \<le> 2 ^ 32" using assms(4) by simp
  obtain out where out: "plain_eval ?n (nodes g) \<Pi> ?ins ?ls = Inr out"
    "length out = ?n * length (filter (\<lambda>f. gt f = Output) cs)"
    using sound_built_evaluates[OF cs(2,1) fits session_inputs_typed[OF g(1) refl wi g(4)], of \<Pi>] \<Pi>(1)
    by (auto simp: perms_typed_def)
  have "filter (\<lambda>f. gt f = Output) cs \<noteq> []" using cs(4) by (simp add: filter_empty_conv)
  then have full: "?n \<le> length out" using out(2) by (cases "filter (\<lambda>f. gt f = Output) cs") simp_all
  obtain ev0 ev1 where ev: "run_servers P b ci (\<lambda>p. st_conf (st p)) (rD, r0, r1) (\<lambda>p. st_graph (st p)) = Inr ((ev0, []), (ev1, []))"
    "length (ev_output ev0) = length (ev_output ev1)" "vadd (ev_output ev0) (ev_output ev1) = out"
    using run[OF out(1)] by blast
  have l: "?n \<le> length (ev_output ev0)" "?n \<le> length (ev_output ev1)" using ev(2,3) full by auto
  let ?m = "\<lambda>ev. map (\<lambda>c. take (gsize (gs ! c)) (drop (starts ! c) (ev_output ev))) [0..<length gs]"
  have "results_sent (length gs) (ev_output ev0) (st_slices (st P0)) = Inr (?m ev0)"
    "results_sent (length gs) (ev_output ev1) (st_slices (st P1)) = Inr (?m ev1)"
    using send l by (intro send_all; simp)+
  moreover have "recv_result (gsize (gs ! c)) (?m ev0 ! c) (?m ev1 ! c) = take (gsize (gs ! c)) (drop (starts ! c) out)"
    if "c < length gs" for c
    using recv_result_slices[OF ev(2), of "starts ! c" "gsize (gs ! c)"] slices_inside[OF assms(1) that] l that ev(3) by simp
  moreover have "perms_typed ?n ?ls \<Pi>" using \<Pi>(1) by (simp add: perms_typed_def)
  ultimately show ?thesis using st(1,2) \<Pi>(2) out(1) ev(1) by blast
qed

text \<open>Two clients, one with the nodes 0 and 1, of which 0 is the source, and one with an edge between them.\<close>

definition demo_graph :: graph where
  "demo_graph = add_list_entry 0 1 0 0 (add_list_entry 1 1 1 0 (add_list_entry 0 0 1 1 graph_empty))"

definition demo_slices :: "graph list" where
  "demo_slices = [add_list_entry 1 1 1 0 (add_list_entry 0 0 1 1 graph_empty), add_list_entry 0 1 0 0 graph_empty]"

definition demo_opts :: "party \<Rightarrow> server_opts" where
  "demo_opts p =
     \<lparr>o_help = False, o_localhost = True, o_net_config = None, o_clients = 2, o_port = 10000,
      o_certificate_path = [], o_private_key_path = [], o_trusted_cert_path = [], o_block_size = 2,
      o_algorithm = Some 0, o_weights = None, o_depth = Some 1, o_bits = 1, o_pid = Some (int (party_num p)),
      o_ssd = False\<rparr>"

definition demo_args :: server_args where
  "demo_args = \<lparr>sa_algorithm = 0, sa_depth = 1, sa_bits = 1, sa_pid = P0, sa_clients = 2, sa_ssd = False,
     sa_weights = []\<rparr>"

lemma demo_slices_ok: "slices_of demo_graph [0, 2] demo_slices" "\<forall>s \<in> set demo_slices. parsed s"
  "length demo_slices = 2" "nodes demo_graph = 2" "gsize demo_graph = 3"
  by (auto simp: slices_of_def demo_graph_def demo_slices_def add_list_entry_def graph_empty_def graph_wf_def
      recv_nodes_sum pkt_fits_def slots_def make_packet_def less_Suc_eq nth_append parsed_def plain_wf_def
      count_nodes_def numeral_2_eq_2)

lemma demo_ready: "servers_ready [] json demo_opts demo_args"
proof -
  have "check_server_options [] (demo_opts p) = Inr (demo_args\<lparr>sa_pid := p\<rparr>)" for p
    by (simp add: checked_options demo_opts_def demo_args_def needs_weights_def args_ok_def number_of_algos_def)
  moreover have "\<exists>nc links. setup_network json p 0 2 False (demo_opts p) = Inr nc \<and> init_network nc = Inr links" for p
    using init_network_ok by (auto simp: setup_network_def network_addresses_def demo_opts_def n_total_def)
  ultimately show ?thesis
    unfolding servers_ready_def by (auto simp: same_run_def demo_args_def)
qed

lemma demo_sent:
  "\<exists>ms. length ms = length demo_slices \<and> (\<forall>c < length demo_slices.
     send_graph lcg_ops ([5, 6] ! c) (demo_slices ! c) bits ([0, 2] ! c) = Inr (ms ! c))"
proof -
  have "\<exists>m. send_graph lcg_ops r (demo_slices ! c) bits lo = Inr m" if "c < length demo_slices" for c r lo
  proof -
    have "graph_wf (demo_slices ! c)" using demo_slices_ok(1) that by (simp add: slices_of_def)
    then show ?thesis using secret_share_shares[of "demo_slices ! c" lcg_ops r bits] by (auto simp: send_graph_def)
  qed
  then show ?thesis by (rule choose_list)
qed

lemma session_correct_witness:
  "\<exists>ms ci st out ev0 ev1. (\<forall>p. server_start [] (\<lambda>_. None) (demo_opts p) (inbox_of ms p) zero_ctx zero_inputs
        (Gate_in Input 0 0) = Inr (Inr (st p))) \<and>
     run_servers lcg_ops 2 ci (\<lambda>p. st_conf (st p)) (lcg_rngs 1, lcg_rngs 2, lcg_rngs 3) (\<lambda>p. st_graph (st p)) =
       Inr ((ev0, []), (ev1, [])) \<and>
     (\<exists>m0 m1. results_sent 2 (ev_output ev0) (st_slices (st P0)) = Inr m0 \<and>
        results_sent 2 (ev_output ev1) (st_slices (st P1)) = Inr m1 \<and>
        recv_result 2 (m0 ! 0) (m1 ! 0) = take 2 out)"
proof -
  have fr: "fresh_flags (lcg_rngs y)" for y by (simp add: fresh_flags_def lcg_rngs_def)
  obtain ms where ms: "length ms = length demo_slices" "\<forall>c < length demo_slices.
     send_graph lcg_ops ([5, 6] ! c) (demo_slices ! c) (sa_bits demo_args) ([0, 2] ! c) = Inr (ms ! c)"
    using demo_sent by blast
  have s: "gsize (demo_slices ! 0) = 2" "[0, 2] ! 0 = (0 :: nat)"
    by (simp_all add: demo_slices_def add_list_entry_def graph_empty_def)
  have q: "0 < nodes demo_graph" "gsize demo_graph < 2 ^ 31" "length demo_slices \<le> 3"
    "sa_clients demo_args = length demo_slices" "sa_algorithm demo_args = 1 \<longrightarrow> 3 \<le> nodes demo_graph" "0 < (2 :: nat)"
    by (simp_all add: demo_slices_ok(3-5) demo_args_def)
  note S = session_correct[OF demo_slices_ok(1,2) q(1-3) ms demo_ready q(4-6) fr[of 1] fr[of 2] fr[of 3],
      of "\<lambda>_. None" zero_ctx zero_inputs "Gate_in Input 0 0" lcg_ops]
  show ?thesis
    by (rule S[THEN exE], elim exE conjE, drule spec[of _ 0]) (simp add: demo_slices_ok(3) s, blast)
qed

end
