(* ===== verification/Client_Main.thy ===== *)
theory Client_Main
  imports Session
begin

text \<open>
  \<open>src/run_client.cpp\<close>: the options of a client, the file it reads, what it sends and what it prints. The
  command line and the JSON file are treated as in \<open>Server_Main\<close>; \<open>files\<close> is the file system and
  \<open>u_src\<close>, \<open>u_dst\<close> are the uninitialised variables of the file reader.
\<close>

section \<open>Options\<close>

record client_opts = net_opts +
  o_inputfile :: string
  o_offset :: nat
  oc_bits :: nat
  o_cid :: "nat option"

record client_args =
  ca_file :: string
  ca_offset :: nat
  ca_bits :: nat
  ca_cid :: nat
  ca_clients :: nat

definition missing_client_options :: "client_opts \<Rightarrow> string list" where
  "missing_client_options opts =
     complain (o_cid opts = None) ''ERROR: Expected client ID 'cid'.'' @
     complain (\<not> o_localhost opts \<and> o_net_config opts = None)
       ''ERROR: Expected one of 'localhost' or 'net-config'.''"

definition bad_client_values :: "client_opts \<Rightarrow> nat \<Rightarrow> string list" where
  "bad_client_values opts cid =
     complain (oc_bits opts = 0 \<or> 32 < oc_bits opts)
       (''ERROR: Invalid number of bits 'bits': '' @ show_nat (oc_bits opts) @
        ''. It needs to be at least 1 and at most 32.'') @
     complain (o_clients opts \<le> cid)
       (''ERROR: Provided client ID ('cid') '' @ show_nat cid @
        '' which needs to be below the total number of 'clients' '' @ show_nat (o_clients opts) @ '', but is not.'')"

definition default_file :: "nat \<Rightarrow> string" where
  "default_file cid = ''subgraph_'' @ show_nat cid @ ''.data''"

definition check_client_options :: "string \<Rightarrow> client_opts \<Rightarrow> (int \<times> string list) + client_args" where
  "check_client_options help opts =
     (if o_help opts then Inl (0, [help])
      else if missing_client_options opts \<noteq> [] then Inl (1, missing_client_options opts @ [usage])
      else
        let cid = the (o_cid opts);
            input_file = (if o_inputfile opts = [] then default_file cid else o_inputfile opts)
        in if bad_client_values opts cid \<noteq> [] then Inl (1, bad_client_values opts cid @ [usage])
           else Inr \<lparr>ca_file = input_file, ca_offset = o_offset opts, ca_bits = oc_bits opts, ca_cid = cid,
                     ca_clients = o_clients opts\<rparr>)"

section \<open>Sending\<close>

text \<open>What \<open>ex.what()\<close> prints of an exception of the file reader.\<close>

definition err_text :: "err \<Rightarrow> string" where
  "err_text e = (case e of Invalid_Argument s \<Rightarrow> s | Runtime_Error s \<Rightarrow> s | Logic_Error s \<Rightarrow> s | _ \<Rightarrow> [])"

text \<open>
  \<open>main\<close> up to the messages to the servers: a return with exit code and output, or, unless an exception
  leaves \<open>main\<close>, the graph and the messages.
\<close>

definition client_start ::
  "string \<Rightarrow> (string \<Rightarrow> (nat \<Rightarrow> string res) option) \<Rightarrow> (string \<Rightarrow> string option) \<Rightarrow> ring \<Rightarrow> ring \<Rightarrow>
     'g prg_ops \<Rightarrow> 'g \<Rightarrow> client_opts \<Rightarrow> (int \<times> string list) + (graph \<times> client_message) res" where
  "client_start help json files u_src u_dst P rng opts =
     (case check_client_options help opts of
        Inl e \<Rightarrow> Inl e
      | Inr a \<Rightarrow>
          (case parse_simplified_format u_src u_dst files (ca_file a) of
             Inl ex \<Rightarrow> Inl (1, [err_text ex])
           | Inr g \<Rightarrow>
               Inr (bindr (setup_network json P0 (ca_cid a) (ca_clients a) True opts) (\<lambda>nc.
                    bindr (init_network nc) (\<lambda>_.
                    bindr (send_graph P rng g (ca_bits a) (ca_offset a)) (\<lambda>m. Inr (g, m)))))))"

section \<open>The result\<close>

definition print_vec :: "vec \<Rightarrow> string" where
  "print_vec v = concat (map (\<lambda>i. show_ring (v ! i) @ (if i \<noteq> length v - 1 then '', '' else newline)) [0..<length v])"

text \<open>The loop over the entries: a line for a node, an assertion for an edge.\<close>

definition report_entry :: "graph \<Rightarrow> vec \<Rightarrow> nat \<Rightarrow> string list res" where
  "report_entry g result i =
     (if isV g ! i \<noteq> 0 then Inr [''node '' @ show_ring (src g ! i) @ '' state '' @ show_ring (result ! i)]
      else if result ! i = 0 then Inr [] else Inl Assertion_Failed)"

definition client_report :: "graph \<Rightarrow> vec \<Rightarrow> string list res" where
  "client_report g result =
     bindr (foldr_res (\<lambda>ls i. bindr (report_entry g result i) (\<lambda>l. Inr (ls @ l))) [] [0..<gsize g]) (\<lambda>ls.
       Inr (ls @ [[], ''unformatted result vector: '' @ print_vec result]))"

definition client_finish :: "graph \<Rightarrow> vec \<Rightarrow> vec \<Rightarrow> string list res" where
  "client_finish g share_0 share_1 = client_report g (recv_result (gsize g) share_0 share_1)"

end
