(* ===== verification/Bit_Conversion.thy ===== *)
theory Bit_Conversion
  imports Online_Values Exchange
begin

text \<open>
  A layer of one \<open>Bit2A\<close> gate, from the code of both servers: what they mask and send, the exchange,
  and what they store on the output wire. \<open>P0\<close> contributes the left and \<open>P1\<close> the right factor of the
  product by which the sum of the two bits exceeds their exclusive or.
\<close>

section \<open>One server\<close>

text \<open>A server that is about to run the gate: nothing is buffered, the triple can be loaded twice
  (from memory, or from the file that is read again from the start), and the wires exist.\<close>

definition bit2A_ready ::
  "gate \<Rightarrow> vec \<times> vec \<times> vec \<Rightarrow> vec \<Rightarrow> 'g evaluator \<Rightarrow> bool" where
  "bit2A_ready f t w ev \<longleftrightarrow>
     gt f = Bit2A \<and> g_size f \<le> ev_size ev \<and> in1_idx f \<noteq> out_idx f \<and>
     out_idx f < length (wires ev) \<and> in1_idx f < length (wires ev) \<and> in1_idx f < length (waiting ev) \<and>
     wires ev ! in1_idx f = w \<and> g_size f \<le> length w \<and> wires ev ! out_idx f = [] \<and>
     mul_vals ev = [] \<and> and_vals ev = [] \<and> shuffle_vals ev = [] \<and> reveal_vals ev = [] \<and> mul_pos ev = 0 \<and>
     (case t of (a, b, c) \<Rightarrow> g_size f \<le> length a \<and> g_size f \<le> length b \<and> g_size f \<le> length c) \<and>
     (\<exists>st st'. load_triples_sized (mult_idx f) (g_size f) (ev_data ev) = Inr (t, st) \<and>
       load_triples_sized (mult_idx f) (g_size f) st = Inr (t, st'))"

definition bit_pairs :: "gate \<Rightarrow> party \<Rightarrow> vec \<Rightarrow> vec \<Rightarrow> vec \<Rightarrow> vec" where
  "bit_pairs f p w a b = interleave (g_size f)
     (\<lambda>i. (if p = P0 then 1 else 0) * (w ! i AND 1) + a ! i)
     (\<lambda>i. (if p = P0 then 0 else 1) * (w ! i AND 1) + b ! i)"

lemma bit2A_sends:
  assumes "bit2A_ready f (a, b, c) w ev"
  obtains st st' where "evaluate_send P [f] ev = Inr (ev\<lparr>ev_data := st, mul_vals := bit_pairs f (ev_id ev) w a b\<rparr>)"
    "load_triples_sized (mult_idx f) (g_size f) st = Inr ((a, b, c), st')"
proof -
  obtain st st' where st: "load_triples_sized (mult_idx f) (g_size f) (ev_data ev) = Inr ((a, b, c), st)"
      "load_triples_sized (mult_idx f) (g_size f) st = Inr ((a, b, c), st')"
    using assms by (auto simp: bit2A_ready_def)
  have "evaluate_send P [f] ev = Inr (ev\<lparr>ev_data := st, mul_vals := bit_pairs f (ev_id ev) w a b\<rparr>)"
    using assms st(1) by (simp add: bit2A_ready_def evaluate_send_def evaluate_send_gate_def send_bit2A_def Let_def
        wire_at_def bit_pairs_def)
  then show thesis using st(2) by (rule that)
qed

lemma bindr_Inr: "bindr m Inr = m"
  by (cases m) simp_all

definition bit_share :: "party \<Rightarrow> vec \<Rightarrow> vec \<Rightarrow> vec \<Rightarrow> vec \<Rightarrow> vec \<Rightarrow> nat \<Rightarrow> ring" where
  "bit_share p d w a b c i = (w ! i AND 1) - 2 * product_in False p (d ! (2 * i)) (d ! (2 * i + 1)) (a ! i) (b ! i) (c ! i)"

lemma bit2A_receives:
  assumes "bit2A_ready f (a, b, c) w ev" "load_triples_sized (mult_idx f) (g_size f) st = Inr ((a, b, c), st')"
    "length d = 2 * g_size f"
  shows "\<exists>ev'. evaluate_recv P [f] (ev\<lparr>ev_data := st, mul_vals := d\<rparr>) = Inr ev' \<and>
     wires ev' ! out_idx f = pad (ev_size ev) (g_size f) (bit_share (ev_id ev) d w a b c)"
proof -
  have pos: "read_online d (2 * g_size f) 0 = Inr (d, 0)"
    using assms(3) by (simp add: read_online_def)
  let ?v = "pad (ev_size ev) (g_size f) (bit_share (ev_id ev) d w a b c)"
  have sc: "scatter (g_size f) (\<lambda>i. i) (bit_share (ev_id ev) d w a b c) (replicate (ev_size ev) 0) = ?v"
    using assms(1) by (intro scatter_pad) (simp add: bit2A_ready_def)
  have "evaluate_recv P [f] (ev\<lparr>ev_data := st, mul_vals := d\<rparr>) =
      update_wire (in1_idx f) (ev\<lparr>mul_vals := d, ev_data := st', mul_pos := 0, wires := (wires ev)[out_idx f := ?v]\<rparr>)"
    using assms(1,2) pos sc[unfolded bit_share_def[abs_def]]
    by (simp add: bit2A_ready_def evaluate_recv_def evaluate_recv_gate_def recv_bit2A_def Let_def out_resized_def
        wire_at_def ev_load_triples_def recv_pairs_def read_vals_def set_wire_def products_def bit_share_def[abs_def] bindr_Inr)
  then show ?thesis
    using assms(1) by (simp add: bit2A_ready_def update_wire_def drop_reader_def free_if_done_def)
qed

section \<open>Property\<close>

text \<open>C9: Conversion of shared bits into an arithmetic sharing, from the code of the gate: a layer
  with one \<open>Bit2A\<close> gate, run by both servers on shares of triples that multiply, sends, exchanges and receives
  without an error and leaves nothing in the channels, and on the output wire the two shares of every entry
  add up to the exclusive or of the lowest bits of the two input shares.\<close>

theorem bit_conversion_correct:
  assumes "bit2A_ready f (a0, b0, c0) w0 ev0" "bit2A_ready f (a1, b1, c1) w1 ev1"
    "ev_id ev0 = P0" "ev_id ev1 = P1" "0 < block"
    "\<forall>i < g_size f. c0 ! i + c1 ! i = (a0 ! i + a1 ! i) * (b0 ! i + b1 ! i)"
  shows "\<exists>ev0' ev1'. run_layer P block ((ev0, []), (ev1, [])) [f] = Inr ((ev0', []), (ev1', [])) \<and>
     mul_vals ev0' = [] \<and> mul_vals ev1' = [] \<and>
     (\<forall>i < g_size f. wires ev0' ! out_idx f ! i + wires ev1' ! out_idx f ! i = (w0 ! i XOR w1 ! i) AND 1)"
proof -
  let ?p0 = "bit_pairs f P0 w0 a0 b0" and ?p1 = "bit_pairs f P1 w1 a1 b1"
  obtain st0 st0' where s0: "evaluate_send P [f] ev0 = Inr (ev0\<lparr>ev_data := st0, mul_vals := ?p0\<rparr>)"
      "load_triples_sized (mult_idx f) (g_size f) st0 = Inr ((a0, b0, c0), st0')"
    using bit2A_sends[OF assms(1), of P] assms(3) by auto
  obtain st1 st1' where s1: "evaluate_send P [f] ev1 = Inr (ev1\<lparr>ev_data := st1, mul_vals := ?p1\<rparr>)"
      "load_triples_sized (mult_idx f) (g_size f) st1 = Inr ((a1, b1, c1), st1')"
    using bit2A_sends[OF assms(2), of P] assms(4) by auto
  let ?e0 = "ev0\<lparr>ev_data := st0, mul_vals := ?p0\<rparr>" and ?e1 = "ev1\<lparr>ev_data := st1, mul_vals := ?p1\<rparr>"
  let ?d = "vadd ?p0 ?p1" and ?m = "g_size f"
  have len: "length ?p0 = 2 * ?m" "length ?p1 = 2 * ?m" by (simp_all add: bit_pairs_def)
  then have w: "same_widths ?e0 ?e1"
    using assms(1,2) by (simp add: same_widths_def bit2A_ready_def)
  have emp: "and_vals ev = []" "shuffle_vals ev = []" "reveal_vals ev = []" if "ev = ev0 \<or> ev = ev1" for ev
    using assms(1,2) that by (auto simp: bit2A_ready_def)
  have comm: "vadd ?p1 ?p0 = ?d" using len by (auto intro!: nth_equalityI simp: add.commute)
  have o0: "opened ?e0 ?e1 = ev0\<lparr>ev_data := st0, mul_vals := ?d\<rparr>" and o1: "opened ?e1 ?e0 = ev1\<lparr>ev_data := st1, mul_vals := ?d\<rparr>"
    using emp[of ev0] emp[of ev1] comm by (simp_all add: opened_def vadd_def vxor_def)
  have ld: "length ?d = 2 * ?m" using len by simp
  obtain r0 where r0: "evaluate_recv P [f] (ev0\<lparr>ev_data := st0, mul_vals := ?d\<rparr>) = Inr r0"
      "wires r0 ! out_idx f = pad (ev_size ev0) ?m (bit_share P0 ?d w0 a0 b0 c0)"
    using bit2A_receives[OF assms(1) s0(2) ld, of P] assms(3) by auto
  obtain r1 where r1: "evaluate_recv P [f] (ev1\<lparr>ev_data := st1, mul_vals := ?d\<rparr>) = Inr r1"
      "wires r1 ! out_idx f = pad (ev_size ev1) ?m (bit_share P1 ?d w1 a1 b1 c1)"
    using bit2A_receives[OF assms(2) s1(2) ld, of P] assms(4) by auto
  have run: "run_layer P block ((ev0, []), (ev1, [])) [f] = Inr ((clear_vals r0, []), (clear_vals r1, []))"
    using s0(1) s1(1) exchange_opens[OF w assms(5)] r0(1) r1(1) by (simp add: run_layer_def o0 o1)
  have sum: "wires r0 ! out_idx f ! i + wires r1 ! out_idx f ! i = (w0 ! i XOR w1 ! i) AND 1" if i: "i < ?m" for i
  proof -
    have i2: "2 * i < 2 * ?m" "2 * i + 1 < 2 * ?m" using i by simp_all
    have "?d ! (2 * i) = ?p0 ! (2 * i) + ?p1 ! (2 * i)" "?d ! (2 * i + 1) = ?p0 ! (2 * i + 1) + ?p1 ! (2 * i + 1)"
      using i2 len by (simp_all add: vadd_def)
    then have d: "?d ! (2 * i) = ((w0 ! i AND 1) + a0 ! i) + a1 ! i" "?d ! (2 * i + 1) = b0 ! i + ((w1 ! i AND 1) + b1 ! i)"
      using interleave_nth[OF i] unfolding bit_pairs_def by simp_all
    have "product_in False P0 (?d ! (2 * i)) (?d ! (2 * i + 1)) (a0 ! i) (b0 ! i) (c0 ! i) +
        product_in False P1 (?d ! (2 * i)) (?d ! (2 * i + 1)) (a1 ! i) (b1 ! i) (c1 ! i) = (w0 ! i AND 1) * (w1 ! i AND 1)"
      using product_shares[of False "c0 ! i" "c1 ! i" "a0 ! i" "a1 ! i" "b0 ! i" "b1 ! i" "?d ! (2 * i)" "w0 ! i AND 1" 0
          "?d ! (2 * i + 1)" 0 "w1 ! i AND 1"] assms(6) i d
      by (simp add: combine_def times_def mask_def)
    then show ?thesis
      using bit2A_shares r0(2) r1(2) pad_nth[OF i] by (simp add: bit_share_def)
  qed
  show ?thesis
    using run sum by (intro exI[of _ "clear_vals r0"] exI[of _ "clear_vals r1"]) (simp add: clear_vals_def)
qed

definition bit_gate :: gate where
  "bit_gate = Gate4 (gate0 Input 0) Bit2A 0 0 1 1 0"

definition bit_server :: "party \<Rightarrow> ring \<Rightarrow> ring \<Rightarrow> ring \<Rightarrow> ring \<Rightarrow> 64 word evaluator" where
  "bit_server me w a b c =
     (tiny_evaluator me [] [])\<lparr>ev_size := 1, wires := [[w], []], waiting := [1, 1],
       ev_data := (tiny_storage me False)\<lparr>st_ssd := False, triples_a := [[a]], triples_b := [[b]], triples_c := [[c]]\<rparr>\<rparr>"

lemma bit_server_ready:
  "bit2A_ready bit_gate ([a], [b], [c]) [w] (bit_server me w a b c)" "ev_id (bit_server me w a b c) = me"
  by (simp_all add: bit2A_ready_def bit_gate_def Gate4_def gate0_def bit_server_def tiny_evaluator_def
      new_evaluator_def tiny_storage_def tiny_conf_def load_triples_sized_def Let_def)

lemma bit_conversion_correct_witness:
  "\<exists>ev0' ev1'. run_layer lcg_ops 3 ((bit_server P0 7 3 4 20, []), (bit_server P1 2 7 9 110, [])) [bit_gate] =
       Inr ((ev0', []), (ev1', [])) \<and> wires ev0' ! 1 ! 0 + wires ev1' ! 1 ! 0 = 1"
proof -
  have g: "g_size bit_gate = 1" "out_idx bit_gate = 1" by (simp_all add: bit_gate_def Gate4_def gate0_def)
  show ?thesis
    using bit_conversion_correct[OF bit_server_ready(1)[of 3 4 20 7 P0] bit_server_ready(1)[of 7 9 110 2 P1], of 3 lcg_ops] g
    by (auto simp: bit_server_ready(2))
qed

end
