(* ===== verification/Tls_Channel.thy ===== *)
theory Tls_Channel
  imports Prelude
begin

text \<open>
  \<open>src/src/core/io/tls_net_io_channel.h\<close>: the loops that push data through an OpenSSL BIO and pull
  it out again. What the BIO does is given by the values its calls return, one list for the writes
  and one for the reads: a positive number of bytes handled, or 0 or a negative number for a
  failure. Counters are 64-bit words as \<open>size_t\<close> is, and \<open>size_t res = BIO_write(...)\<close> converts the
  result of the call to one. The length passed to a call is \<open>len - sent\<close> converted to \<open>int\<close>: for
  2 GB or more left it is not that length, a call then fails or handles less, which is one of the
  results a list can hold. Setting up sockets and the handshake are OpenSSL's and the system's.
\<close>

type_synonym byte = "8 word"

record tls =
  is_server :: bool
  has_sent :: bool
  written :: "byte list"
  flushed :: nat

text \<open>\<open>flush\<close>: \<open>BIO_flush\<close> passes on everything that was written so far.\<close>

definition flush :: "tls \<Rightarrow> tls" where
  "flush t = t\<lparr>flushed := length (written t)\<rparr>"

section \<open>Writing\<close>

definition send_error :: err where
  "send_error = Runtime_Error ''net_send_data''"

definition recv_error :: err where
  "recv_error = Runtime_Error ''net_recv_data''"

text \<open>
  The loop of \<open>send_data_internal\<close>. A call that fails writes nothing, one that returns \<open>r > 0\<close> has
  taken \<open>r\<close> bytes from the current position on. \<open>None\<close>: the call has not returned.
\<close>

fun send_loop :: "int list \<Rightarrow> byte list \<Rightarrow> 64 word \<Rightarrow> 64 word \<Rightarrow> byte list \<Rightarrow> byte list res option" where
  "send_loop [] dat sent len out = (if sent < len then None else Some (Inr out))"
| "send_loop (r # rs) dat sent len out =
     (if \<not> sent < len then Some (Inr out)
      else
        let out' = (if 0 < r then out @ take (nat r) (drop (unat sent) dat) else out);
            res = (word_of_int r :: 64 word)
        in if 0 < res then send_loop rs dat (sent + res) len out' else Some (Inl send_error))"

definition send_data_internal :: "int list \<Rightarrow> byte list \<Rightarrow> nat \<Rightarrow> tls \<Rightarrow> tls res option" where
  "send_data_internal rs dat len t =
     map_option (\<lambda>r. bindr r (\<lambda>out. Inr (t\<lparr>written := out, has_sent := True\<rparr>)))
       (send_loop rs dat 0 (word_of_nat len) (written t))"

section \<open>Reading\<close>

text \<open>A read of \<open>r\<close> bytes puts the next bytes of the incoming stream at the current position.\<close>

definition put_at :: "nat \<Rightarrow> byte list \<Rightarrow> byte list \<Rightarrow> byte list" where
  "put_at i bs buf = take i buf @ bs @ drop (i + length bs) buf"

fun recv_loop ::
  "int list \<Rightarrow> byte list \<Rightarrow> 64 word \<Rightarrow> 64 word \<Rightarrow> byte list \<Rightarrow> (byte list \<times> byte list) res option" where
  "recv_loop [] stream sent len buf = (if sent < len then None else Some (Inr (buf, stream)))"
| "recv_loop (r # rs) stream sent len buf =
     (if \<not> sent < len then Some (Inr (buf, stream))
      else
        let buf' = (if 0 < r then put_at (unat sent) (take (nat r) stream) buf else buf);
            stream' = (if 0 < r then drop (nat r) stream else stream);
            res = (word_of_int r :: 64 word)
        in if 0 < res then recv_loop rs stream' (sent + res) len buf' else Some (Inl recv_error))"

definition recv_data_internal ::
  "int list \<Rightarrow> byte list \<Rightarrow> byte list \<Rightarrow> nat \<Rightarrow> tls \<Rightarrow> ((byte list \<times> byte list) \<times> tls) res option" where
  "recv_data_internal rs stream buf len t =
     (let t' = (if has_sent t then flush t else t)\<lparr>has_sent := False\<rparr>
      in map_option (\<lambda>r. bindr r (\<lambda>x. Inr (x, t')))
           (recv_loop rs stream 0 (word_of_nat len) buf))"

text \<open>
  \<open>sync\<close>: one byte in each direction, the listening side first; the other side sends back the byte
  it has received. \<open>ws\<close> and \<open>rs\<close> are the results of the writes and reads.
\<close>

definition bindo :: "'a res option \<Rightarrow> ('a \<Rightarrow> 'b res option) \<Rightarrow> 'b res option" where
  "bindo m f = (case m of None \<Rightarrow> None | Some (Inl e) \<Rightarrow> Some (Inl e) | Some (Inr x) \<Rightarrow> f x)"

definition tls_sync :: "int list \<Rightarrow> int list \<Rightarrow> byte list \<Rightarrow> tls \<Rightarrow> tls res option" where
  "tls_sync ws rs stream t =
     (if is_server t
      then bindo (send_data_internal ws [0] 1 t) (\<lambda>t1.
             bindo (recv_data_internal rs stream [0] 1 t1) (\<lambda>(_, t2). Some (Inr t2)))
      else bindo (recv_data_internal rs stream [0] 1 t) (\<lambda>((tmp, _), t1).
             bindo (send_data_internal ws tmp 1 t1) (\<lambda>t2. Some (Inr (flush t2)))))"

section \<open>Any fragmentation delivers the data\<close>

text \<open>The results of calls that succeed: each handles at least one and at most the remaining bytes.\<close>

primrec good_results :: "nat \<Rightarrow> int list \<Rightarrow> bool" where
  "good_results n [] \<longleftrightarrow> n = 0"
| "good_results n (r # rs) \<longleftrightarrow> 0 < r \<and> r \<le> int n \<and> good_results (n - nat r) rs"

lemma word64_small: "n < 2 ^ 64 \<Longrightarrow> unat (word_of_nat n :: 64 word) = n"
  by (simp add: unsigned_of_nat take_bit_nat_eq_self_iff)

lemma step_word:
  assumes "0 < r" "r \<le> int n" "k + n < 2 ^ 64"
  shows "(word_of_int r :: 64 word) = word_of_nat (nat r)" "0 < (word_of_int r :: 64 word)"
    "(word_of_nat k :: 64 word) + word_of_int r = word_of_nat (k + nat r)"
proof -
  show 1: "(word_of_int r :: 64 word) = word_of_nat (nat r)" using assms(1) by simp
  have "unat (word_of_nat (nat r) :: 64 word) = nat r" using assms by (intro word64_small) linarith
  then have "(word_of_nat (nat r) :: 64 word) \<noteq> 0" using assms(1) by auto
  then show "0 < (word_of_int r :: 64 word)" unfolding 1 by (simp add: word_gt_0)
  show "(word_of_nat k :: 64 word) + word_of_int r = word_of_nat (k + nat r)" unfolding 1 by simp
qed

lemma less_word: "k < 2 ^ 64 \<Longrightarrow> n < 2 ^ 64 \<Longrightarrow> (word_of_nat k :: 64 word) < word_of_nat n \<longleftrightarrow> k < n"
  by (simp add: word_less_nat_alt word64_small)

lemma send_loop_good:
  assumes "good_results n rs" "k + n < 2 ^ 64" "k + n \<le> length dat"
  shows "send_loop rs dat (word_of_nat k) (word_of_nat (k + n)) out = Some (Inr (out @ take n (drop k dat)))"
  using assms
proof (induction rs arbitrary: k n out)
  case (Cons r rs)
  then have r: "0 < r" "r \<le> int n" and g: "good_results (n - nat r) rs" by simp_all
  have k: "nat r \<le> n" "0 < n" using r by linarith+
  have "send_loop rs dat (word_of_nat (k + nat r)) (word_of_nat (k + nat r + (n - nat r)))
      (out @ take (nat r) (drop k dat)) =
    Some (Inr ((out @ take (nat r) (drop k dat)) @ take (n - nat r) (drop (k + nat r) dat)))"
    by (rule Cons.IH[OF g]) (use Cons.prems k in auto)
  moreover have "take (nat r) (drop k dat) @ take (n - nat r) (drop (k + nat r) dat) = take n (drop k dat)"
    using k(1) take_add[of "nat r" "n - nat r" "drop k dat"] by (simp add: add.commute)
  moreover have "unat (word_of_nat k :: 64 word) = k" "(word_of_nat k :: 64 word) < word_of_nat (k + n)"
    using Cons.prems(2) k(2) word64_small less_word[of k "k + n"] by auto
  ultimately show ?case
    using step_word[OF r Cons.prems(2)] r k by (simp del: of_nat_add)
qed simp

lemma put_at_put_at:
  "i + length a + length b \<le> length buf \<Longrightarrow>
     put_at (i + length a) b (put_at i a buf) = put_at i (a @ b) buf"
  by (simp add: put_at_def ac_simps)

lemma recv_loop_good:
  assumes "good_results n rs" "k + n < 2 ^ 64" "n \<le> length stream" "k + n \<le> length buf"
  shows "recv_loop rs stream (word_of_nat k) (word_of_nat (k + n)) buf =
     Some (Inr (put_at k (take n stream) buf, drop n stream))"
  using assms
proof (induction rs arbitrary: k n stream buf)
  case Nil
  then show ?case by (simp add: put_at_def)
next
  case (Cons r rs)
  then have r: "0 < r" "r \<le> int n" and g: "good_results (n - nat r) rs" by simp_all
  have k: "nat r \<le> n" "0 < n" using r by linarith+
  let ?a = "take (nat r) stream" and ?buf = "put_at k (take (nat r) stream) buf"
  have la: "length ?a = nat r" using Cons.prems(3) k by simp
  have lb: "length ?buf = length buf" using Cons.prems(3,4) k by (simp add: put_at_def)
  have "recv_loop rs (drop (nat r) stream) (word_of_nat (k + nat r)) (word_of_nat (k + nat r + (n - nat r))) ?buf =
    Some (Inr (put_at (k + nat r) (take (n - nat r) (drop (nat r) stream)) ?buf,
      drop (n - nat r) (drop (nat r) stream)))"
    by (rule Cons.IH[OF g]) (use Cons.prems k lb in auto)
  moreover have "put_at (k + nat r) (take (n - nat r) (drop (nat r) stream)) ?buf = put_at k (take n stream) buf"
    using put_at_put_at[of k ?a "take (n - nat r) (drop (nat r) stream)" buf] la Cons.prems(3,4) k
      take_add[of "nat r" "n - nat r" stream] by simp
  moreover have "unat (word_of_nat k :: 64 word) = k" "(word_of_nat k :: 64 word) < word_of_nat (k + n)"
    using Cons.prems(2) k(2) word64_small less_word[of k "k + n"] by auto
  ultimately show ?case
    using step_word[OF r Cons.prems(2)] r k by (simp del: of_nat_add)
qed

section \<open>Properties\<close>

text \<open>C31: However OpenSSL splits the writes and the reads into pieces, the bytes one end sends are
  exactly the bytes the other end finds in its buffer, in order, and nothing else is consumed.\<close>

theorem fragments_deliver:
  assumes "good_results (length dat) ws" "good_results (length dat) rs" "length dat < 2 ^ 64"
    "length buf = length dat"
  shows "\<exists>t' out. send_data_internal ws dat (length dat) t = Some (Inr t') \<and>
     written t' = written t @ out \<and> has_sent t' \<and>
     recv_data_internal rs (out @ rest) buf (length dat) u =
       Some (Inr ((dat, rest), (if has_sent u then flush u else u)\<lparr>has_sent := False\<rparr>))"
  using send_loop_good[of "length dat" ws 0 dat "written t"]
    recv_loop_good[of "length dat" rs 0 "dat @ rest" buf] assms
  by (simp add: send_data_internal_def recv_data_internal_def put_at_def)

theorem fragments_deliver_witness:
  "\<exists>t' out. send_data_internal [2, 1] [7, 8, 9] 3 \<lparr>is_server = True, has_sent = False, written = [5], flushed = 0\<rparr> =
       Some (Inr t') \<and> written t' = [5] @ out \<and> has_sent t' \<and>
     recv_data_internal [1, 1, 1] (out @ [4]) [0, 0, 0] 3
       \<lparr>is_server = False, has_sent = False, written = [], flushed = 0\<rparr> =
     Some (Inr (([7, 8, 9], [4]), \<lparr>is_server = False, has_sent = False, written = [], flushed = 0\<rparr>))"
  using fragments_deliver[of "[7, 8, 9]" "[2, 1]" "[1, 1, 1]" "[0, 0, 0]"
      "\<lparr>is_server = True, has_sent = False, written = [5], flushed = 0\<rparr>" "[4]"
      "\<lparr>is_server = False, has_sent = False, written = [], flushed = 0\<rparr>"]
  by (simp add: numeral_3_eq_3)

text \<open>C32: A read that fails with a negative result before any byte has arrived ends the receiving loop
  as if it had succeeded: the result, converted to an unsigned number, passes the test and moves the
  counter past the length; the caller goes on with the old content of its buffer. So does a write.\<close>

theorem failed_transfer_unnoticed:
  assumes "r < 0" "- r < 2 ^ 63" "0 < len" "len < 2 ^ 63"
  shows "recv_loop (r # rs) stream 0 (word_of_nat len) buf = Some (Inr (buf, stream)) \<and>
     send_loop (r # rs) dat 0 (word_of_nat len) out = Some (Inr out)"
proof -
  let ?res = "word_of_int r :: 64 word"
  have "r mod 2 ^ 64 = (r + 2 ^ 64) mod 2 ^ 64" by simp
  also have "\<dots> = r + 2 ^ 64" using assms(1,2) by (intro mod_pos_pos_trivial) auto
  finally have u: "uint ?res = r + 2 ^ 64" by (simp add: unsigned_of_int take_bit_eq_mod)
  have l: "uint (word_of_nat len :: 64 word) = int len"
    using assms(4) by (simp add: uint_nat word64_small)
  have pos: "0 < ?res" "(0 :: 64 word) < word_of_nat len" using u l assms by (simp_all add: word_less_def)
  have "\<not> ?res < word_of_nat len" using u l assms by (simp add: word_less_def)
  then have "recv_loop rs stream ?res (word_of_nat len) buf = Some (Inr (buf, stream))"
    "send_loop rs dat ?res (word_of_nat len) out = Some (Inr out)"
    by (cases rs; simp)+
  then show ?thesis using pos assms(1) by simp
qed

theorem failed_transfer_unnoticed_witness:
  "recv_loop [- 1] [] 0 (word_of_nat 4) [1, 2, 3, 4] = Some (Inr ([1, 2, 3, 4], [])) \<and>
     send_loop [- 1] [9, 9, 9, 9] 0 (word_of_nat 4) [] = Some (Inr [])"
  by (rule failed_transfer_unnoticed) simp_all

end
