(* ===== verification/Spec2Isabelle.thy ===== *)
theory Spec2Isabelle
  imports Client_Main Bit_Conversion Tls_Channel
begin

text \<open>
  A model of PPGA (privacy-preserving graph analysis): two online servers \<open>P0\<close> and \<open>P1\<close> and a dealer
  \<open>D\<close> evaluate a message-passing algorithm on a secret-shared graph that clients provide.

  Parts of the program and their theories (all paths below \<open>src/\<close>):

  \<^item> \<open>Prelude\<close>: ring elements (\<open>uint32_t\<close> of \<open>src/utils/types.h\<close> as \<open>32 word\<close>, so that arithmetic wraps as
    in the code), parties, errors, and the loops and bounds checks all components use. An error is a
    value: exceptions, failed assertions, accesses out of bounds, and a receive that would block.
  \<^item> \<open>Random_Gens\<close> (\<open>src/utils/random_generators.h\<close>): the generators of each server and the exchange of
    seeds. The generator itself (\<open>emp::PRG\<close>) is a parameter \<open>P\<close> of type \<open>prg_ops\<close>: draws are functions of
    its state, nothing else is assumed of it.
  \<^item> \<open>Perm_Vec\<close> (\<open>src/utils/permutation.h\<close>), \<open>Sharing\<close> (\<open>src/utils/sharing.cpp\<close>), \<open>Buffers\<close>
    (\<open>src/core/io/disk.h\<close> and \<open>Evaluator::read_online\<close>), \<open>Network\<close> (\<open>src/core/io/netmp.h\<close>; the TLS
    connection is a reliable stream), \<open>Connections\<close> (\<open>init_network\<close> and \<open>sync\<close> of the same file, as
    interleaved programs of all endpoints; a connection leads to an address and a port, and which
    machine an address reaches is the argument \<open>machine\<close>), \<open>Tls_Channel\<close> (the transfer loops of
    \<open>src/core/io/tls_net_io_channel.h\<close> over the results of the OpenSSL calls).
  \<^item> \<open>Dag_Graph\<close> (\<open>src/utils/graph.h\<close>) and \<open>Input_Sharing\<close> (\<open>src/data_interface/input-sharing\<close>): the DAG
    list, its sharing by clients and the merge of their slices by a server; \<open>Graph_IO\<close>: printing a graph and
    the readers of the two file formats, as operations on a stream of characters.
  \<^item> \<open>Gates\<close> (\<open>src/core/gate.cpp\<close>), \<open>Circuit\<close> and \<open>Levels\<close> (\<open>src/core/circuit.cpp\<close>), \<open>Algorithms\<close>
    (\<open>algorithms/\<close>): the construction of a circuit in a state monad and its ordering into layers;
    \<open>Build_Logic\<close> and \<open>Phases\<close> hold the Hoare-style rules by which \<open>Algorithms\<close> shows that every algorithm
    builds a well-formed circuit (locale \<open>algorithm\<close>, interpreted on each of them). What goes wrong in
    the construction (\<open>apply\<close> of the base class, an access out of bounds) is recorded in the state where it
    happens, \<open>c_raised\<close>, and \<open>build\<close> returns it; \<open>Build_Errors\<close> has the rules that say when.
  \<^item> \<open>Storage\<close> (\<open>src/core/storage.cpp\<close>), \<open>Preproc\<close> (\<open>src/core/preprocessor.cpp\<close>), \<open>Evaluator\<close>
    (\<open>src/core/evaluator.cpp\<close>): the offline and the online phase of a server, every gate included.
  \<^item> \<open>Protocol\<close>, \<open>Plain\<close>: the algebra of the protocols, the plain semantics of the gates and
    that local gates compute on shares. \<open>Exchange_Steps\<close>, \<open>Exchange\<close>: the exchange of one layer between the
    two online servers, as interleaved programs over bounded channels and as one function.
    \<open>Bit_Conversion\<close>: a layer that converts bits, on both servers.
  \<^item> \<open>Dealer\<close>, \<open>Dealer_Refine\<close>, \<open>Server_Refine\<close>: an abstract specification of what the dealer hands out
    (\<open>deal\<close>), and that the dealer's and the online servers' walk of \<open>Preproc\<close> over the circuit refine it;
    \<open>Offline\<close> composes them to \<open>Preprocessor::run\<close> on the three servers.
  \<^item> \<open>Trace\<close>, \<open>Online_Store\<close>, \<open>Online_Wires\<close>, \<open>Online_Send\<close>, \<open>Online_Recv\<close>: the online phase of a server
    against the abstract specification: what a server has stored for a gate when it evaluates it, the
    reference counts of the wires, and for every gate the values it sends and the share it computes.
  \<^item> \<open>Online_Values\<close> (two servers' shares of a gate's output belong to its plain output), \<open>Online_Plan\<close>
    (\<open>circuit_runs\<close>: the order of gates and counts of readers the online phase needs), \<open>Online_Layers\<close>,
    \<open>Online\<close>: a layer on one and on both servers, and the run over all layers; \<open>Servers\<close> composes the
    phases as \<open>src/run_server.cpp\<close> does and compares them with an evaluation on plain vectors.
  \<^item> \<open>Typing\<close>, \<open>Checked\<close>: a type system for circuits, and that a checked circuit meets the conditions of the
    protocol; \<open>Build_Types\<close>, \<open>Phase_Types\<close>, \<open>Typed_Algorithms\<close>: that everything \<open>Circuit::build\<close> makes
    for the six algorithms is checked (locale \<open>typed_algorithm\<close>), so that no hypothesis on the circuit is left.
  \<^item> \<open>Session\<close>: clients, dealer and servers from the shares of the slices to the reconstructed result;
    \<open>Server_Main\<close> and \<open>Client_Main\<close> (\<open>src/run_server.cpp\<close>, \<open>src/run_client.cpp\<close>, \<open>src/setup/cmdline.cpp\<close>):
    which options a server accepts, what it builds from them, and what a client sends.

  Interfaces stated as locales: \<open>perm_action\<close> (permutations acting on vectors), \<open>share_domain\<close>
  (additive and binary sharing), \<open>seq_buffer\<close> (a buffer read in the order it was written: the online
  buffers, the files, the preprocessing buffer), \<open>schedule\<close> (programs that are the projections of one
  trace), \<open>linear_gate\<close> (gates that compute on shares),
  \<open>algorithm\<close> (what a graph algorithm has to keep) and \<open>typed_algorithm\<close> (its wires keep their types).

  Sizes and counters are natural numbers, except where the code relies on their wrap-around (the
  counters of waiting readers, \<open>dec64\<close>) or narrows them: \<open>Permutation::random\<close> takes an \<open>int\<close>, so the
  phases that shuffle run through for fewer than \<open>2 ^ 31\<close> rows, and throw beyond. Parallel loops write disjoint entries and are modelled as
  sequential ones.

  Not modelled: sockets and the TLS handshake, the parsing of option strings and of JSON (boost, nlohmann),
  the options of tests and benchmarks, statistics, the macros that count communication, and the benchmarks
  (input, output and measurement only).
\<close>

end
